(* ===== verification/Prelude_C.thy ===== *)
theory Prelude_C
  imports Main "HOL-Library.Word"
begin

text \<open>
  Shared vocabulary of the development: the machine types of the 32-bit ARM target the
  libraries are built for, signed 32-bit arithmetic on \<^typ>\<open>int\<close> with the wrap-around
  written out, C division, NUL-terminated strings, and the generic lemmas on lists, options
  and words that the component theories share. Facts that the component proofs use as rewrite
  rules are declared \<open>[simp]\<close> or collected in the named collections below.
\<close>

unbundle bit_operations_syntax

named_theorems s32_simps \<open>rewriting signed 32-bit arithmetic that stays in range\<close>
named_theorems inv_defs \<open>definitions of the well-formedness invariants\<close>

type_synonym u8 = "8 word"
type_synonym u16 = "16 word"
type_synonym u32 = "32 word"
type_synonym size_t = "32 word"

subsection \<open>Signed 32-bit integers\<close>

text \<open>
  An \<open>int\<close>, \<open>long\<close> or \<open>time_t\<close> of the target is a value of \<^typ>\<open>int\<close> between
  \<open>INT_MIN\<close> and \<open>INT_MAX\<close>; \<open>s32\<close> is the conversion that keeps the low 32 bits.
\<close>

definition INT_MIN :: int where "INT_MIN = - 2147483648"
definition INT_MAX :: int where "INT_MAX = 2147483647"

definition in_s32 :: "int \<Rightarrow> bool" where
  "in_s32 x \<longleftrightarrow> INT_MIN \<le> x \<and> x \<le> INT_MAX"

definition s32 :: "int \<Rightarrow> int" where
  "s32 x = (x + 2147483648) mod 4294967296 - 2147483648"

definition s64 :: "int \<Rightarrow> int" where
  "s64 x = (x + 9223372036854775808) mod 18446744073709551616 - 9223372036854775808"

lemma s64_id: "- 9223372036854775808 \<le> x \<Longrightarrow> x < 9223372036854775808 \<Longrightarrow> s64 x = x"
  by (simp add: s64_def)

lemma in_s32_s32 [simp, intro]: "in_s32 (s32 x)"
proof -
  have "0 \<le> (x + 2147483648) mod 4294967296" "(x + 2147483648) mod 4294967296 < 4294967296"
    by simp_all
  then show ?thesis unfolding in_s32_def s32_def INT_MIN_def INT_MAX_def by linarith
qed

lemma s32_id [s32_simps]: "in_s32 x \<Longrightarrow> s32 x = x"
  unfolding in_s32_def s32_def INT_MIN_def INT_MAX_def by simp

lemma s32_bounds: "- 2147483648 \<le> s32 x" "s32 x \<le> 2147483647"
  using in_s32_s32[of x] unfolding in_s32_def INT_MIN_def INT_MAX_def by auto

lemma in_s32I: "- 2147483648 \<le> x \<Longrightarrow> x \<le> 2147483647 \<Longrightarrow> in_s32 x"
  by (simp add: in_s32_def INT_MIN_def INT_MAX_def)

lemma in_s32D:
  assumes "in_s32 x"
  shows "- 2147483648 \<le> x" and "x \<le> 2147483647"
  using assms by (auto simp: in_s32_def INT_MIN_def INT_MAX_def)

lemma s32_high: "2147483648 \<le> x \<Longrightarrow> x < 6442450944 \<Longrightarrow> s32 x = x - 4294967296"
proof -
  assume x: "2147483648 \<le> x" "x < 6442450944"
  have "(x + 2147483648) mod 4294967296 = (x - 2147483648 + 4294967296) mod 4294967296"
    by (simp add: add.commute)
  also have "\<dots> = x - 2147483648" using x by (simp only: mod_add_self2) simp
  finally show ?thesis by (simp add: s32_def)
qed

lemma s32_low: "- 6442450944 \<le> x \<Longrightarrow> x < - 2147483648 \<Longrightarrow> s32 x = x + 4294967296"
proof -
  assume x: "- 6442450944 \<le> x" "x < - 2147483648"
  have "(x + 2147483648) mod 4294967296 = (x + 2147483648 + 4294967296) mod 4294967296"
    by (simp only: mod_add_self2)
  also have "\<dots> = x + 2147483648 + 4294967296" using x by simp
  finally show ?thesis by (simp add: s32_def)
qed

lemma s32_mod: "s32 x mod 4294967296 = x mod 4294967296"
  unfolding s32_def by (simp add: mod_diff_left_eq)

lemma s32_cong: "x mod 4294967296 = y mod 4294967296 \<Longrightarrow> s32 x = s32 y"
  unfolding s32_def using mod_add_cong [of x 4294967296 y 2147483648 2147483648] by simp

lemma s32_add: "s32 (s32 a + b) = s32 (a + b)"
  by (rule s32_cong) (metis mod_add_left_eq s32_mod)

lemma s32_s32_diff: "s32 (a - s32 b) = s32 (a - b)"
  by (rule s32_cong) (metis mod_diff_right_eq s32_mod)

text \<open>Floor division.\<close>

lemma div_complement: "0 < k \<Longrightarrow> (- 1 - u) div k = - 1 - u div (k :: int)"
proof -
  assume k: "0 < k"
  have "u = k * (u div k) + u mod k" by (rule mult_div_mod_eq [symmetric])
  then have "- 1 - u = k * (- 1 - u div k) + (k - 1 - u mod k)" by (simp add: algebra_simps)
  moreover have "0 \<le> k - 1 - u mod k" "k - 1 - u mod k < k"
    using k pos_mod_bound [of k u] pos_mod_sign [of k u] by linarith+
  ultimately show ?thesis by (rule int_div_pos_eq)
qed

lemma div_between:
  assumes "0 < (k :: int)"
  shows "0 \<le> u \<Longrightarrow> 0 \<le> u div k \<and> u div k \<le> u" and "u < 0 \<Longrightarrow> u \<le> u div k \<and> u div k \<le> - 1"
proof -
  have pos: "0 \<le> v div k \<and> v div k \<le> v" if "0 \<le> v" for v
    using that assms zdiv_mono2 [of v 1 k] by (simp add: pos_imp_zdiv_nonneg_iff)
  show "0 \<le> u \<Longrightarrow> 0 \<le> u div k \<and> u div k \<le> u" by (rule pos)
  show "u < 0 \<Longrightarrow> u \<le> u div k \<and> u div k \<le> - 1"
    using pos [of "- 1 - u"] div_complement [OF assms, of u] by simp
qed

lemma div_pred:
  assumes "0 < (k :: int)"
  shows "y div k = (y - 1) div k + (if y mod k = 0 then 1 else 0)"
proof -
  have y: "y = k * (y div k) + y mod k" by (rule mult_div_mod_eq [symmetric])
  show ?thesis
  proof (cases "y mod k = 0")
    case True
    then have "y - 1 = k * (y div k - 1) + (k - 1)" using y by (simp add: algebra_simps)
    then have "(y - 1) div k = y div k - 1" by (rule int_div_pos_eq) (use assms in auto)
    then show ?thesis using True by simp
  next
    case False
    then have "y - 1 = k * (y div k) + (y mod k - 1)" using y by simp
    moreover have "0 \<le> y mod k - 1" "y mod k - 1 < k"
      using False assms pos_mod_bound [of k y] pos_mod_sign [of k y] by linarith+
    ultimately have "(y - 1) div k = y div k" by (rule int_div_pos_eq)
    then show ?thesis using False by simp
  qed
qed

text \<open>C division and remainder truncate towards zero.\<close>

definition cdiv :: "int \<Rightarrow> int \<Rightarrow> int" where
  "cdiv a b = (if (0 \<le> a) = (0 \<le> b) then \<bar>a\<bar> div \<bar>b\<bar> else - (\<bar>a\<bar> div \<bar>b\<bar>))"

definition cmod :: "int \<Rightarrow> int \<Rightarrow> int" where
  "cmod a b = a - b * cdiv a b"

lemma cdiv_nonneg [simp]: "0 \<le> a \<Longrightarrow> 0 < b \<Longrightarrow> cdiv a b = a div b"
  by (simp add: cdiv_def)

lemma cmod_nonneg [simp]: "0 \<le> a \<Longrightarrow> 0 < b \<Longrightarrow> cmod a b = a mod b"
  by (simp add: cmod_def minus_mult_div_eq_mod)

lemma cdiv_neg: "a < 0 \<Longrightarrow> 0 < b \<Longrightarrow> cdiv a b = - ((- a) div b)"
  by (simp add: cdiv_def)

lemma cmod_neg:
  assumes "a < 0" and "0 < b"
  shows "cmod a b = - ((- a) mod b)"
proof -
  have "b * ((- a) div b) + (- a) mod b = - a" by (rule mult_div_mod_eq)
  then show ?thesis unfolding cmod_def cdiv_neg [OF assms] by linarith
qed

lemma cmod_eq_0_iff: "0 < b \<Longrightarrow> cmod a b = 0 \<longleftrightarrow> a mod b = 0"
proof (cases "0 \<le> a")
  case False
  assume "0 < b"
  with False have "cmod a b = 0 \<longleftrightarrow> (- a) mod b = 0" by (simp add: cmod_neg)
  also have "\<dots> \<longleftrightarrow> a mod b = 0" by (simp add: mod_eq_0_iff_dvd)
  finally show ?thesis .
qed simp

subsection \<open>C strings\<close>

text \<open>
  A NUL-terminated string is the list of its characters before the terminator. Reading the
  character at the head of the remaining string gives NUL where the list has ended.
\<close>

definition NUL :: char where "NUL = CHR 0x00"

fun chr_at :: "string \<Rightarrow> char" where
  "chr_at [] = NUL"
| "chr_at (c # cs) = c"

definition c_string :: "string \<Rightarrow> bool" where
  "c_string s \<longleftrightarrow> NUL \<notin> set s"

lemma c_string_simps [simp]:
  "c_string []" "c_string (c # cs) \<longleftrightarrow> c \<noteq> NUL \<and> c_string cs"
  "c_string (xs @ ys) \<longleftrightarrow> c_string xs \<and> c_string ys"
  by (auto simp: c_string_def)

lemma c_string_drop [simp]: "c_string s \<Longrightarrow> c_string (drop n s)"
  by (auto simp: c_string_def dest: in_set_dropD)

subsection \<open>Lists\<close>

lemma sum_list_update_nat:
  "i < length xs \<Longrightarrow> sum_list (xs[i := (x::nat)]) + xs ! i = sum_list xs + x"
  by (induction xs arbitrary: i) (auto split: nat.split)

lemma concat_update_split:
  "i < length xss \<Longrightarrow>
   concat (xss[i := ys]) = concat (take i xss) @ ys @ concat (drop (Suc i) xss)"
  by (simp add: upd_conv_take_nth_drop)

lemma concat_nth_split:
  "i < length xss \<Longrightarrow> concat xss = concat (take i xss) @ (xss ! i) @ concat (drop (Suc i) xss)"
  by (subst id_take_nth_drop [of i xss]) simp_all

lemma length_concat_update:
  assumes "i < length xss"
  shows "length (concat (xss[i := ys])) + length (xss ! i) = length (concat xss) + length ys"
  using concat_update_split [OF assms, of ys] concat_nth_split [OF assms] by simp

lemma find_cong_set: "(\<And>x. x \<in> set xs \<Longrightarrow> P x = Q x) \<Longrightarrow> find P xs = find Q xs"
  by (rule find_cong) auto

lemma find_append: "find P (xs @ ys) = (case find P xs of None \<Rightarrow> find P ys | Some x \<Rightarrow> Some x)"
  by (induction xs) auto

lemma find_NoneI: "(\<And>x. x \<in> set xs \<Longrightarrow> \<not> P x) \<Longrightarrow> find P xs = None"
  by (simp add: find_None_iff)

lemma find_unique:
  assumes "\<And>x y. x \<in> set xs \<Longrightarrow> y \<in> set xs \<Longrightarrow> P x \<Longrightarrow> P y \<Longrightarrow> x = y" and "set xs = set ys"
  shows "find P xs = find P ys"
proof (cases "find P xs")
  case None
  then have "find P ys = None" using assms(2) by (simp add: find_None_iff)
  with None show ?thesis by simp
next
  case (Some x)
  then have x: "x \<in> set xs" "P x" by (auto simp: find_Some_iff)
  then obtain y where y: "find P ys = Some y"
    using assms(2) by (cases "find P ys") (auto simp: find_None_iff)
  then have "y \<in> set ys" "P y" by (auto simp: find_Some_iff)
  then show ?thesis using Some x y assms by auto
qed

lemma fold_fold_concat: "fold (fold f) xss z = fold f (concat xss) z"
  by (induction xss arbitrary: z) auto

subsection \<open>Words\<close>

lemma unat_u32_less: "unat (x :: u32) < 4294967296"
  using unsigned_less [of x, where ?'a = nat] by simp

lemma unat_pow2_32: "k < 32 \<Longrightarrow> unat (2 ^ k :: u32) = 2 ^ k"
proof -
  assume "k < 32"
  then have "(2 :: nat) ^ k < 2 ^ 32" by (rule power_strict_increasing) simp
  moreover have "(2 ^ k :: u32) = of_nat (2 ^ k)" by simp
  ultimately show ?thesis by (simp only: unat_of_nat) simp
qed

lemma pow2_ne_0: "k < 32 \<Longrightarrow> (2 ^ k :: u32) \<noteq> 0"
  using unat_pow2_32 [of k] by (metis power_not_zero unat_0 zero_neq_numeral)

lemma unat_Suc_u32: "unat x + 1 < 4294967296 \<Longrightarrow> unat (x + 1 :: u32) = Suc (unat x)"
  by (simp add: unat_word_ariths)

lemma unat_pred_u32: "x \<noteq> 0 \<Longrightarrow> unat (x - 1 :: u32) = unat x - 1"
  by (rule unat_minus_one)

lemma unat_add_small: "unat (p :: u32) + unat q < 4294967296 \<Longrightarrow> unat (p + q) = unat p + unat q"
  by (simp add: unat_word_ariths)

lemma unat_diff_small: "unat (q :: u32) \<le> unat p \<Longrightarrow> unat (p - q) = unat p - unat q"
  by (simp add: unat_sub word_le_nat_alt)

lemma of_nat_u32:
  assumes "a < 4294967296" and "b < 4294967296"
  shows "(of_nat a :: u32) \<le> of_nat b \<longleftrightarrow> a \<le> b" and "(of_nat a :: u32) < of_nat b \<longleftrightarrow> a < b"
    and "(of_nat a :: u32) = of_nat b \<longleftrightarrow> a = b"
  using assms by (simp_all add: word_le_nat_alt word_less_nat_alt word_unat_eq_iff unat_of_nat)

lemma unat_of_nat_u32: "a < 4294967296 \<Longrightarrow> unat (of_nat a :: u32) = a"
  by (simp add: unat_of_nat)

text \<open>Word operations read as arithmetic on naturals.\<close>

lemma or_shift: "a < 2 ^ k \<Longrightarrow> a OR (b * 2 ^ k) = a + b * (2 ^ k :: nat)"
proof -
  assume a: "a < 2 ^ k"
  have "\<not> (k \<le> n \<and> bit a n)" for n
    using a by (metis bit_take_bit_iff take_bit_nat_eq_self not_le)
  then have "a AND push_bit k b = 0"
    by (intro bit_eqI) (auto simp: bit_simps)
  then show ?thesis using disjunctive_add_eq_or [of a "push_bit k b"] by (simp add: push_bit_eq_mult)
qed

lemma unat_and_mask: "unat (w AND mask n) = unat w mod 2 ^ n"
  by (simp only: take_bit_eq_mask [symmetric] unsigned_take_bit_eq) (simp only: take_bit_eq_mod)

lemma unat_drop_bit: "unat (drop_bit n (w :: 'a::len word)) = unat w div 2 ^ n"
  using take_bit_nat_eq_self [OF unsigned_less [of w, where ?'a = nat]]
  by (simp only: unsigned_drop_bit_eq) (simp only: drop_bit_eq_div)

lemma unat_ucast_mod: "unat (ucast (w :: 'a::len word) :: 'b::len word) = unat w mod 2 ^ LENGTH('b)"
  by (simp only: unsigned_ucast_eq) (simp only: take_bit_eq_mod)

lemma unat_or: "unat (v OR w) = unat v OR unat w"
  by (rule unsigned_or_eq)

lemma unat_push_bit:
  "unat w * 2 ^ n < 2 ^ LENGTH('a) \<Longrightarrow> unat (push_bit n (w :: 'a::len word)) = unat w * 2 ^ n"
  by (simp only: unsigned_push_bit_eq) (simp only: push_bit_eq_mult take_bit_nat_eq_self)

lemma unat_bounds: "unat (b :: u8) < 256" "unat (u :: u16) < 65536"
  using unsigned_less [of b, where ?'a = nat] unsigned_less [of u, where ?'a = nat] by simp_all

lemma unat_ucast_up [simp]:
  "unat (ucast (b :: u8) :: u32) = unat b" "unat (ucast (u :: u16) :: u32) = unat u"
  using unat_bounds(1) [of b] unat_bounds(2) [of u] by (simp_all add: unat_ucast_mod)

lemma unat_ucast_down:
  "unat (w :: u32) < 256 \<Longrightarrow> unat (ucast w :: u8) = unat w"
  "unat (w :: u32) < 65536 \<Longrightarrow> unat (ucast w :: u16) = unat w"
  by (simp_all add: unat_ucast_mod)

subsection \<open>Memory\<close>

text \<open>
  An object in memory is the list of its elements. A read or a write outside the object, which
  C leaves undefined, is a fault. \<open>malloc_buf\<close> is an allocation: it may fail, and its contents
  are arbitrary.
\<close>

datatype mem_fault = BadRead | BadWrite

fun store_list :: "'a list \<Rightarrow> nat \<Rightarrow> 'a list \<Rightarrow> mem_fault + 'a list" where
  "store_list buf i [] = Inr buf"
| "store_list buf i (x # xs) =
     (if i < length buf then store_list (buf[i := x]) (i + 1) xs else Inl BadWrite)"

definition malloc_buf :: "bool \<Rightarrow> (nat \<Rightarrow> 'a) \<Rightarrow> nat \<Rightarrow> 'a list option" where
  "malloc_buf ok junk n = (if ok then Some (map junk [0..<n]) else None)"

lemma store_list_ok:
  "i + length xs \<le> length buf \<Longrightarrow>
   store_list buf i xs = Inr (take i buf @ xs @ drop (i + length xs) buf)"
proof (induction xs arbitrary: buf i)
  case (Cons x xs)
  have "take (i + 1) (buf[i := x]) = take i buf @ [x]"
    using Cons.prems by (simp add: take_Suc_conv_app_nth)
  then show ?case using Cons by simp
qed simp

lemma store_list_bad:
  "length buf < i + length xs \<Longrightarrow> xs \<noteq> [] \<Longrightarrow> store_list buf i xs = Inl BadWrite"
proof (induction xs arbitrary: buf i)
  case (Cons x xs)
  then show ?case by (cases "xs = []") auto
qed simp

lemma store_list_cases:
  assumes "i \<le> length buf"
  obtains "i + length xs \<le> length buf"
      "store_list buf i xs = Inr (take i buf @ xs @ drop (i + length xs) buf)"
    | "length buf < i + length xs" "store_list buf i xs = Inl BadWrite"
  using assms store_list_ok [of i xs buf] store_list_bad [of buf i xs]
  by (cases "xs = []") force+

end
