(* ===== verification/Media_Source.thy ===== *)
theory Media_Source
  imports Prelude_C
begin

text \<open>
  Reading media files: the byte-order helpers of \<open>libppplayer/Utils.cpp\<close> and the data source on a file of
  \<open>libppplayer/FileSource.cpp\<close>. The parsers of the player call \<open>readAt\<close> of a data source; the locale
  \<open>media_source\<close> states what they rely on, and \<open>FileSource\<close> interprets it.
\<close>

subsection \<open>Byte order\<close>

text \<open>\<open>U16_AT\<close>, \<open>U32_AT\<close> and \<open>U64_AT\<close> read from a pointer; every call in the modelled code is on a buffer that
  has been filled with at least that many bytes.\<close>

definition U16_AT :: "u8 list \<Rightarrow> u16" where
  "U16_AT ptr = push_bit 8 (ucast (ptr ! 0)) OR ucast (ptr ! 1)"

definition U32_AT :: "u8 list \<Rightarrow> u32" where
  "U32_AT ptr = push_bit 24 (ucast (ptr ! 0)) OR push_bit 16 (ucast (ptr ! 1)) OR push_bit 8 (ucast (ptr ! 2)) OR ucast (ptr ! 3)"

definition U64_AT :: "u8 list \<Rightarrow> 64 word" where
  "U64_AT ptr = push_bit 32 (ucast (U32_AT ptr)) OR ucast (U32_AT (drop 4 ptr))"

text \<open>Integers in memory are little-endian on the target; \<open>ntohl\<close> and \<open>ntohs\<close> read the bytes of
  their argument in memory as a big-endian number.\<close>

definition load16 :: "u8 list \<Rightarrow> u16" where
  "load16 bs = ucast (bs ! 0) OR push_bit 8 (ucast (bs ! 1))"

definition load32 :: "u8 list \<Rightarrow> u32" where
  "load32 bs = ucast (bs ! 0) OR push_bit 8 (ucast (bs ! 1)) OR push_bit 16 (ucast (bs ! 2)) OR push_bit 24 (ucast (bs ! 3))"

definition load64 :: "u8 list \<Rightarrow> 64 word" where
  "load64 bs = ucast (load32 bs) OR push_bit 32 (ucast (load32 (drop 4 bs)))"

definition ntohs :: "u16 \<Rightarrow> u16" where
  "ntohs x = U16_AT [ucast x, ucast (drop_bit 8 x)]"

definition ntohl :: "u32 \<Rightarrow> u32" where
  "ntohl x = U32_AT [ucast x, ucast (drop_bit 8 x), ucast (drop_bit 16 x), ucast (drop_bit 24 x)]"

definition ntoh64 :: "64 word \<Rightarrow> 64 word" where
  "ntoh64 x = push_bit 32 (ucast (ntohl (ucast (x AND 0xffffffff)))) OR ucast (ntohl (ucast (drop_bit 32 x)))"

subsection \<open>Data sources\<close>

text \<open>\<open>readAt\<close> returns the bytes it has read, at most as many as asked, or a negative error.\<close>

type_synonym data_source = "int \<Rightarrow> nat \<Rightarrow> int + u8 list"

definition NO_INIT :: int where "NO_INIT = -19"
definition UNKNOWN_ERROR :: int where "UNKNOWN_ERROR = -2147483648"

record FileSource =
  mFile :: "u8 list option"
  mOffset :: int
  mLength :: int

text \<open>\<open>fseeko\<close> takes a 32-bit offset and fails on a negative one; \<open>fread\<close> reads up to the end of the file.\<close>

definition FileSource_readAt :: "FileSource \<Rightarrow> data_source" where
  "FileSource_readAt src offset n =
     (case mFile src of
        None \<Rightarrow> Inl NO_INIT
      | Some bytes \<Rightarrow>
          if 0 \<le> mLength src \<and> mLength src \<le> offset then Inr []
          else
            let count = (if 0 \<le> mLength src \<and> mLength src - offset < int n then nat (mLength src - offset) else n);
                pos = s32 (offset + mOffset src)
            in if pos < 0 then Inl UNKNOWN_ERROR else Inr (take count (drop (nat pos) bytes)))"

definition FileSource_getSize :: "FileSource \<Rightarrow> int option" where
  "FileSource_getSize src =
     (case mFile src of
        None \<Rightarrow> None
      | Some bytes \<Rightarrow> Some (if 0 \<le> mLength src then s32 (mLength src) else int (length bytes)))"

text \<open>The two ways in which the callers test the result of \<open>readAt\<close>: \<open>< size\<close> and \<open>!= size\<close>.\<close>

definition read_enough :: "data_source \<Rightarrow> int \<Rightarrow> nat \<Rightarrow> u8 list option" where
  "read_enough rd offset n =
     (case rd offset n of Inl _ \<Rightarrow> None | Inr bs \<Rightarrow> if length bs < n then None else Some bs)"

definition read_exactly :: "data_source \<Rightarrow> int \<Rightarrow> nat \<Rightarrow> u8 list option" where
  "read_exactly rd offset n =
     (case rd offset n of Inl _ \<Rightarrow> None | Inr bs \<Rightarrow> if length bs \<noteq> n then None else Some bs)"

definition getUInt16 :: "data_source \<Rightarrow> int \<Rightarrow> bool \<times> u16" where
  "getUInt16 rd offset =
     (case read_exactly rd offset 2 of
        None \<Rightarrow> (False, 0)
      | Some byte \<Rightarrow> (True, push_bit 8 (ucast (byte ! 0)) OR ucast (byte ! 1)))"

subsection \<open>Big-endian encoding\<close>

definition be16 :: "nat \<Rightarrow> u8 list" where
  "be16 n = [of_nat (n div 256), of_nat n]"

definition be32 :: "nat \<Rightarrow> u8 list" where
  "be32 n = [of_nat (n div 16777216), of_nat (n div 65536), of_nat (n div 256), of_nat n]"

definition be64 :: "nat \<Rightarrow> u8 list" where
  "be64 n = be32 (n div 4294967296) @ be32 n"

lemma length_be [simp]: "length (be16 n) = 2" "length (be32 n) = 4" "length (be64 n) = 8"
  by (simp_all add: be16_def be32_def be64_def)

lemma bit_byte [simp]: "8 \<le> n \<Longrightarrow> \<not> bit (b :: u8) n"
  using bit_imp_le_length [of b n] by auto

lemma ucast_load16: "ucast (load16 bs) = bs ! 0" "ucast (drop_bit 8 (load16 bs)) = bs ! 1"
  unfolding load16_def by (rule bit_word_eqI; simp add: bit_simps)+

lemma ucast_load32:
  "ucast (load32 bs) = bs ! 0" "ucast (drop_bit 8 (load32 bs)) = bs ! 1"
  "ucast (drop_bit 16 (load32 bs)) = bs ! 2" "ucast (drop_bit 24 (load32 bs)) = bs ! 3"
  unfolding load32_def by (rule bit_word_eqI; simp add: bit_simps)+

lemma ntohs_load16 [simp]: "ntohs (load16 bs) = U16_AT bs"
  by (simp add: ntohs_def ucast_load16 U16_AT_def)

lemma ntohl_load32 [simp]: "ntohl (load32 bs) = U32_AT bs"
  by (simp add: ntohl_def ucast_load32 U32_AT_def)

lemma ntoh64_load64 [simp]: "ntoh64 (load64 bs) = U64_AT bs"
proof -
  have m: "(0xffffffff :: 64 word) = mask 32" by (simp add: mask_eq_exp_minus_1)
  have "ucast (load64 bs AND mask 32) = load32 bs" "ucast (drop_bit 32 (load64 bs)) = load32 (drop 4 bs)"
    unfolding load64_def by (rule bit_word_eqI; auto simp: bit_simps dest: bit_imp_le_length)+
  then show ?thesis by (simp add: ntoh64_def U64_AT_def m)
qed

lemma unat_push_byte:
  "unat (push_bit 8 (ucast (b :: u8) :: u16)) = unat b * 2 ^ 8"
  "unat (push_bit 8 (ucast b :: u32)) = unat b * 2 ^ 8" "unat (push_bit 16 (ucast b :: u32)) = unat b * 2 ^ 16"
  "unat (push_bit 24 (ucast b :: u32)) = unat b * 2 ^ 24"
  using unat_bounds(1) [of b] by (simp_all add: unat_push_bit unat_ucast_mod)

lemma U16_AT_nat: "unat (U16_AT (a # b # p)) = unat a * 256 + unat b"
proof -
  have b: "unat (ucast b :: u16) = unat b" using unat_bounds(1) [of b] by (simp add: unat_ucast_mod)
  have "unat (U16_AT (a # b # p)) = unat a * 2 ^ 8 OR unat b"
    by (simp only: U16_AT_def nth_Cons_0 nth_Cons_Suc One_nat_def unat_or unat_push_byte b)
  also have "\<dots> = unat b + unat a * 2 ^ 8"
    by (subst or.commute) (rule or_shift, use unat_bounds(1) [of b] in simp)
  finally show ?thesis by simp
qed

lemma U32_AT_nat:
  "unat (U32_AT (a # b # c # d # p)) = unat a * 16777216 + unat b * 65536 + unat c * 256 + unat d"
proof -
  note lim = unat_bounds(1) [of a] unat_bounds(1) [of b] unat_bounds(1) [of c] unat_bounds(1) [of d]
  have "unat (U32_AT (a # b # c # d # p)) = unat a * 2 ^ 24 OR (unat b * 2 ^ 16 OR (unat c * 2 ^ 8 OR unat d))"
    by (simp only: U32_AT_def nth_Cons_0 nth_Cons_Suc One_nat_def numeral_2_eq_2 numeral_3_eq_3 unat_or unat_push_byte unat_ucast_up or.assoc)
  also have "unat c * 2 ^ 8 OR unat d = unat d + unat c * 2 ^ 8"
    by (subst or.commute) (rule or_shift, use lim in simp)
  also have "unat b * 2 ^ 16 OR (unat d + unat c * 2 ^ 8) = (unat d + unat c * 2 ^ 8) + unat b * 2 ^ 16"
    by (subst or.commute) (rule or_shift, use lim in simp)
  also have "unat a * 2 ^ 24 OR \<dots> = \<dots> + unat a * 2 ^ 24"
    by (subst or.commute) (rule or_shift, use lim in simp)
  finally show ?thesis by simp
qed

lemma mod_bytes:
  "n mod 65536 = n div 256 mod 256 * 256 + n mod (256 :: nat)"
  "n mod 4294967296 = n div 16777216 mod 256 * 16777216 + n div 65536 mod 256 * 65536 + n div 256 mod 256 * 256 + n mod (256 :: nat)"
proof -
  show a: "n mod 65536 = n div 256 mod 256 * 256 + n mod (256 :: nat)" using mod_mult2_eq [of n 256 256] by simp
  have "n mod 16777216 = n div 65536 mod 256 * 65536 + n mod (65536 :: nat)" using mod_mult2_eq [of n 65536 256] by simp
  moreover have "n mod 4294967296 = n div 16777216 mod 256 * 16777216 + n mod (16777216 :: nat)"
    using mod_mult2_eq [of n 16777216 256] by simp
  ultimately show "n mod 4294967296 = n div 16777216 mod 256 * 16777216 + n div 65536 mod 256 * 65536 + n div 256 mod 256 * 256 + n mod (256 :: nat)"
    using a by simp
qed

lemma unat_of_nat_byte: "unat (of_nat n :: u8) = n mod 256" "unat (of_nat n :: u16) = n mod 65536" "unat (of_nat n :: u32) = n mod 4294967296"
  by (simp_all add: unat_of_nat)

lemma U16_AT_be16 [simp]: "U16_AT (be16 n @ p) = of_nat n"
  by (simp only: word_unat_eq_iff be16_def append_Cons append_Nil U16_AT_nat unat_of_nat_byte mod_bytes)

lemma U32_AT_be32 [simp]: "U32_AT (be32 n @ p) = of_nat n"
  by (simp only: word_unat_eq_iff be32_def append_Cons append_Nil U32_AT_nat unat_of_nat_byte mod_bytes)

lemma U32_AT_be32_0 [simp]: "U32_AT (be32 n) = of_nat n"
  using U32_AT_be32 [of n "[]"] by (simp del: U32_AT_be32)

lemma U64_AT_be64 [simp]: "ucast (U64_AT (be64 n @ p)) = (of_nat n :: u32)"
proof -
  have "U64_AT (be64 n @ p) = push_bit 32 (ucast (of_nat (n div 4294967296) :: u32)) OR ucast (of_nat n :: u32)"
    by (simp add: U64_AT_def be64_def)
  then show ?thesis by (simp only:) (rule bit_word_eqI, auto simp: bit_simps dest: bit_imp_le_length)
qed

subsection \<open>What the parsers rely on\<close>

text \<open>A source holds a file when reading inside it gives its bytes, and reading across its end fewer than asked.\<close>

locale media_source =
  fixes rd :: data_source and bytes :: "u8 list"
  assumes rd_inside: "0 \<le> pos \<Longrightarrow> nat pos + n \<le> length bytes \<Longrightarrow> rd pos n = Inr (take n (drop (nat pos) bytes))"
    and rd_at_most: "rd pos n = Inr bs \<Longrightarrow> length bs \<le> n"
begin

lemma read_inside:
  assumes "0 \<le> pos" and "nat pos + n \<le> length bytes"
  shows "read_enough rd pos n = Some (take n (drop (nat pos) bytes))"
    and "read_exactly rd pos n = Some (take n (drop (nat pos) bytes))"
  using assms rd_inside by (simp_all add: read_enough_def read_exactly_def)

lemma read_tests_agree: "read_enough rd pos n = read_exactly rd pos n"
proof (cases "rd pos n")
  case (Inr bs)
  then show ?thesis using rd_at_most [OF Inr] by (auto simp: read_enough_def read_exactly_def)
qed (simp add: read_enough_def read_exactly_def)

end

definition open_file :: "u8 list \<Rightarrow> FileSource" where
  "open_file bytes = \<lparr> mFile = Some bytes, mOffset = 0, mLength = -1 \<rparr>"

interpretation file_src: media_source "FileSource_readAt (open_file bytes)" "take 2147483647 bytes" for bytes
proof
  fix pos n assume "0 \<le> pos" and n: "nat pos + n \<le> length (take 2147483647 bytes)"
  then have "s32 pos = pos" by (intro s32_id in_s32I) auto
  moreover have "nat pos + n \<le> 2147483647" using n by simp
  then have "n \<le> 2147483647 - nat pos" by linarith
  ultimately show "FileSource_readAt (open_file bytes) pos n = Inr (take n (drop (nat pos) (take 2147483647 bytes)))"
    using \<open>0 \<le> pos\<close> by (simp add: FileSource_readAt_def open_file_def drop_take min_def)
next
  fix pos n bs assume "FileSource_readAt (open_file bytes) pos n = Inr bs"
  then show "length bs \<le> n" by (auto simp: FileSource_readAt_def open_file_def Let_def split: if_splits)
qed

end
