(* ===== verification/Sample_Table.thy ===== *)
theory Sample_Table
  imports Media_Source
begin

text \<open>
  The sample tables of an MPEG-4 track, \<open>libppplayer/SampleTable.cpp\<close>: the table and the functions that read
  the boxes \<open>stco\<close>/\<open>co64\<close>, \<open>stsc\<close>, \<open>stsz\<close>/\<open>stz2\<close>, \<open>stts\<close> and \<open>stss\<close> into it. Sizes are 32-bit words and
  wrap as in the code. A failed \<open>CHECK\<close>, which aborts, and an access outside an array are faults. Reading back the
  boxes of any track is shown at the end. The build does not define \<open>OMAP_ENHANCEMENT\<close>.
\<close>

subsection \<open>The table\<close>

datatype status_t = OK | ERROR_IO | ERROR_MALFORMED | ERROR_OUT_OF_RANGE | ERROR_END_OF_STREAM

datatype media_fault = CheckFailed | OutOfBounds | DivideByZero | OutOfMemory

record SampleToChunkEntry =
  startChunk :: u32
  samplesPerChunk :: u32
  chunkDesc :: u32

record SampleTable =
  mChunkOffsetOffset :: int
  mChunkOffsetType :: u32
  mNumChunkOffsets :: u32
  mSampleToChunkOffset :: int
  mNumSampleToChunkOffsets :: u32
  mSampleSizeOffset :: int
  mSampleSizeFieldSize :: u32
  mDefaultSampleSize :: u32
  mNumSampleSizes :: u32
  mTimeToSampleCount :: u32
  mTimeToSample :: "u32 list option"
  mSyncSampleOffset :: int
  mNumSyncSamples :: u32
  mSyncSamples :: "u32 list option"
  mLastSyncSampleIndex :: u32
  mSampleToChunkEntries :: "SampleToChunkEntry list option"

definition FOURCC :: "char \<Rightarrow> char \<Rightarrow> char \<Rightarrow> char \<Rightarrow> u32" where
  "FOURCC a b c d = of_nat (of_char a * 16777216 + of_char b * 65536 + of_char c * 256 + of_char d)"

definition kChunkOffsetType32 :: u32 where "kChunkOffsetType32 = FOURCC (CHR ''s'') (CHR ''t'') (CHR ''c'') (CHR ''o'')"
definition kChunkOffsetType64 :: u32 where "kChunkOffsetType64 = FOURCC (CHR ''c'') (CHR ''o'') (CHR ''6'') (CHR ''4'')"
definition kSampleSizeType32 :: u32 where "kSampleSizeType32 = FOURCC (CHR ''s'') (CHR ''t'') (CHR ''s'') (CHR ''z'')"
definition kSampleSizeTypeCompact :: u32 where "kSampleSizeTypeCompact = FOURCC (CHR ''s'') (CHR ''t'') (CHR ''z'') (CHR ''2'')"

definition SampleTable_new :: SampleTable where
  "SampleTable_new =
     \<lparr> mChunkOffsetOffset = -1, mChunkOffsetType = 0, mNumChunkOffsets = 0, mSampleToChunkOffset = -1,
       mNumSampleToChunkOffsets = 0, mSampleSizeOffset = -1, mSampleSizeFieldSize = 0, mDefaultSampleSize = 0,
       mNumSampleSizes = 0, mTimeToSampleCount = 0, mTimeToSample = None, mSyncSampleOffset = -1,
       mNumSyncSamples = 0, mSyncSamples = None, mLastSyncSampleIndex = 0, mSampleToChunkEntries = None \<rparr>"

definition countChunkOffsets :: "SampleTable \<Rightarrow> u32" where "countChunkOffsets tb = mNumChunkOffsets tb"
definition countSamples :: "SampleTable \<Rightarrow> u32" where "countSamples tb = mNumSampleSizes tb"

subsection \<open>Memory\<close>

text \<open>
  \<open>operator new[]\<close> receives the number of bytes, computed with wrap-around as the compilers of the target do. It
  does not return without memory, which \<open>mem\<close> decides, and there is never a block of 2 GiB. The contents are
  arbitrary.
\<close>

definition new_array :: "(nat \<Rightarrow> bool) \<Rightarrow> (nat \<Rightarrow> 'a) \<Rightarrow> nat \<Rightarrow> u32 \<Rightarrow> media_fault + 'a list" where
  "new_array mem junk elem size_bytes =
     (if 2147483648 \<le> unat size_bytes \<or> \<not> mem (unat size_bytes) then Inl OutOfMemory
      else Inr (map junk [0..<unat size_bytes div elem]))"

fun words_of :: "u8 list \<Rightarrow> u32 list" where
  "words_of (a # b # c # d # bs) = load32 [a, b, c, d] # words_of bs"
| "words_of _ = []"

text \<open>The loop that replaces the first \<open>n\<close> elements of an array in place.\<close>

definition convert_array :: "(u32 \<Rightarrow> u32) \<Rightarrow> u32 \<Rightarrow> u32 list \<Rightarrow> media_fault + u32 list" where
  "convert_array f n xs =
     (if length xs < unat n then Inl OutOfBounds else Inr (map f (take (unat n) xs) @ drop (unat n) xs))"

subsection \<open>Reading the boxes\<close>

definition setChunkOffsetParams ::
  "data_source \<Rightarrow> u32 \<Rightarrow> int \<Rightarrow> u32 \<Rightarrow> SampleTable \<Rightarrow> media_fault + status_t \<times> SampleTable" where
  "setChunkOffsetParams rd type data_offset data_size tb =
     (if 0 \<le> mChunkOffsetOffset tb then Inr (ERROR_MALFORMED, tb)
      else if \<not> (type = kChunkOffsetType32 \<or> type = kChunkOffsetType64) then Inl CheckFailed
      else
        let tb = tb\<lparr> mChunkOffsetOffset := data_offset, mChunkOffsetType := type \<rparr> in
        if data_size < 8 then Inr (ERROR_MALFORMED, tb)
        else case read_enough rd data_offset 8 of
            None \<Rightarrow> Inr (ERROR_IO, tb)
          | Some header \<Rightarrow>
              if U32_AT header \<noteq> 0 then Inr (ERROR_MALFORMED, tb)
              else
                let n = U32_AT (drop 4 header); tb = tb\<lparr> mNumChunkOffsets := n \<rparr> in
                if type = kChunkOffsetType32
                then if data_size < 8 + n * 4 then Inr (ERROR_MALFORMED, tb) else Inr (OK, tb)
                else if data_size < 8 + n * 8 then Inr (ERROR_MALFORMED, tb) else Inr (OK, tb))"

fun load_entries ::
  "data_source \<Rightarrow> int \<Rightarrow> u32 \<Rightarrow> nat \<Rightarrow> SampleToChunkEntry list \<Rightarrow> media_fault + status_t \<times> SampleToChunkEntry list" where
  "load_entries rd off i 0 es = Inr (OK, es)"
| "load_entries rd off i (Suc k) es =
     (case read_exactly rd (s32 (off + 8 + uint (i * 12))) 12 of
        None \<Rightarrow> Inr (ERROR_IO, es)
      | Some buffer \<Rightarrow>
          if \<not> U32_AT buffer \<ge> 1 then Inl CheckFailed
          else if length es \<le> unat i then Inl OutOfBounds
          else load_entries rd off (i + 1) k
                 (es[unat i := \<lparr> startChunk = U32_AT buffer - 1, samplesPerChunk = U32_AT (drop 4 buffer),
                                 chunkDesc = U32_AT (drop 8 buffer) \<rparr>]))"

definition setSampleToChunkParams ::
  "data_source \<Rightarrow> (nat \<Rightarrow> bool) \<Rightarrow> (nat \<Rightarrow> SampleToChunkEntry) \<Rightarrow> int \<Rightarrow> u32 \<Rightarrow> SampleTable \<Rightarrow>
    media_fault + status_t \<times> SampleTable" where
  "setSampleToChunkParams rd mem junk data_offset data_size tb =
     (if 0 \<le> mSampleToChunkOffset tb then Inr (ERROR_MALFORMED, tb)
      else
        let tb = tb\<lparr> mSampleToChunkOffset := data_offset \<rparr> in
        if data_size < 8 then Inr (ERROR_MALFORMED, tb)
        else case read_enough rd data_offset 8 of
            None \<Rightarrow> Inr (ERROR_IO, tb)
          | Some header \<Rightarrow>
              if U32_AT header \<noteq> 0 then Inr (ERROR_MALFORMED, tb)
              else
                let n = U32_AT (drop 4 header); tb = tb\<lparr> mNumSampleToChunkOffsets := n \<rparr> in
                if data_size < 8 + n * 12 then Inr (ERROR_MALFORMED, tb)
                else case new_array mem junk 12 (n * 12) of
                    Inl e \<Rightarrow> Inl e
                  | Inr es \<Rightarrow>
                      (case load_entries rd data_offset 0 (unat n) es of
                         Inl e \<Rightarrow> Inl e
                       | Inr (st, es') \<Rightarrow> Inr (st, tb\<lparr> mSampleToChunkEntries := Some es' \<rparr>)))"

definition setSampleSizeParams ::
  "data_source \<Rightarrow> u32 \<Rightarrow> int \<Rightarrow> u32 \<Rightarrow> SampleTable \<Rightarrow> media_fault + status_t \<times> SampleTable" where
  "setSampleSizeParams rd type data_offset data_size tb =
     (if 0 \<le> mSampleSizeOffset tb then Inr (ERROR_MALFORMED, tb)
      else if \<not> (type = kSampleSizeType32 \<or> type = kSampleSizeTypeCompact) then Inl CheckFailed
      else
        let tb = tb\<lparr> mSampleSizeOffset := data_offset \<rparr> in
        if data_size < 12 then Inr (ERROR_MALFORMED, tb)
        else case read_enough rd data_offset 12 of
            None \<Rightarrow> Inr (ERROR_IO, tb)
          | Some header \<Rightarrow>
              if U32_AT header \<noteq> 0 then Inr (ERROR_MALFORMED, tb)
              else
                let tb = tb\<lparr> mDefaultSampleSize := U32_AT (drop 4 header), mNumSampleSizes := U32_AT (drop 8 header) \<rparr> in
                if type = kSampleSizeType32 then
                  let tb = tb\<lparr> mSampleSizeFieldSize := 32 \<rparr> in
                  if mDefaultSampleSize tb \<noteq> 0 then Inr (OK, tb)
                  else if data_size < 12 + mNumSampleSizes tb * 4 then Inr (ERROR_MALFORMED, tb) else Inr (OK, tb)
                else if mDefaultSampleSize tb AND 0xffffff00 \<noteq> 0 then Inr (ERROR_MALFORMED, tb)
                else
                  let tb = tb\<lparr> mSampleSizeFieldSize := mDefaultSampleSize tb AND 0xf, mDefaultSampleSize := 0 \<rparr> in
                  if mSampleSizeFieldSize tb \<noteq> 4 \<and> mSampleSizeFieldSize tb \<noteq> 8 \<and> mSampleSizeFieldSize tb \<noteq> 16
                  then Inr (ERROR_MALFORMED, tb)
                  else if data_size < 12 + (mNumSampleSizes tb * mSampleSizeFieldSize tb + 4) div 8
                  then Inr (ERROR_MALFORMED, tb) else Inr (OK, tb))"

definition setTimeToSampleParams ::
  "data_source \<Rightarrow> (nat \<Rightarrow> bool) \<Rightarrow> (nat \<Rightarrow> u32) \<Rightarrow> int \<Rightarrow> u32 \<Rightarrow> SampleTable \<Rightarrow> media_fault + status_t \<times> SampleTable" where
  "setTimeToSampleParams rd mem junk data_offset data_size tb =
     (if mTimeToSample tb \<noteq> None \<or> data_size < 8 then Inr (ERROR_MALFORMED, tb)
      else case read_enough rd data_offset 8 of
          None \<Rightarrow> Inr (ERROR_IO, tb)
        | Some header \<Rightarrow>
            if U32_AT header \<noteq> 0 then Inr (ERROR_MALFORMED, tb)
            else
              let n = U32_AT (drop 4 header); tb = tb\<lparr> mTimeToSampleCount := n \<rparr> in
              case new_array mem junk 4 (n * 2 * 4) of
                Inl e \<Rightarrow> Inl e
              | Inr arr \<Rightarrow>
                  (case read_enough rd (s32 (data_offset + 8)) (unat (4 * n * 2)) of
                     None \<Rightarrow> Inr (ERROR_IO, tb\<lparr> mTimeToSample := Some arr \<rparr>)
                   | Some bs \<Rightarrow>
                       (case convert_array ntohl (n * 2) (words_of bs) of
                          Inl e \<Rightarrow> Inl e
                        | Inr xs \<Rightarrow> Inr (OK, tb\<lparr> mTimeToSample := Some xs \<rparr>))))"

definition setSyncSampleParams ::
  "data_source \<Rightarrow> (nat \<Rightarrow> bool) \<Rightarrow> (nat \<Rightarrow> u32) \<Rightarrow> int \<Rightarrow> u32 \<Rightarrow> SampleTable \<Rightarrow> media_fault + status_t \<times> SampleTable" where
  "setSyncSampleParams rd mem junk data_offset data_size tb =
     (if 0 \<le> mSyncSampleOffset tb \<or> data_size < 8 then Inr (ERROR_MALFORMED, tb)
      else
        let tb = tb\<lparr> mSyncSampleOffset := data_offset \<rparr> in
        case read_enough rd data_offset 8 of
          None \<Rightarrow> Inr (ERROR_IO, tb)
        | Some header \<Rightarrow>
            if U32_AT header \<noteq> 0 then Inr (ERROR_MALFORMED, tb)
            else
              let n = U32_AT (drop 4 header); tb = tb\<lparr> mNumSyncSamples := n \<rparr> in
              case new_array mem junk 4 (n * 4) of
                Inl e \<Rightarrow> Inl e
              | Inr arr \<Rightarrow>
                  (case read_exactly rd (s32 (data_offset + 8)) (unat (n * 4)) of
                     None \<Rightarrow> Inr (ERROR_IO, tb\<lparr> mSyncSamples := Some arr \<rparr>)
                   | Some bs \<Rightarrow>
                       (case convert_array (\<lambda>x. ntohl x - 1) n (words_of bs) of
                          Inl e \<Rightarrow> Inl e
                        | Inr xs \<Rightarrow> Inr (OK, tb\<lparr> mSyncSamples := Some xs \<rparr>))))"

subsection \<open>Boxes\<close>

text \<open>The boxes as \<open>ISO/IEC 14496-12\<close> lays them out: version and flags, a count, and the entries in big-endian
  order. Chunks and sync samples are numbered from 1 in the file and from 0 in the table.\<close>

definition full_box :: "u8 list list \<Rightarrow> u8 list" where
  "full_box entries = be32 0 @ be32 (length entries) @ concat entries"

definition stco_box :: "bool \<Rightarrow> nat list \<Rightarrow> u8 list" where
  "stco_box wide offsets = full_box (map (if wide then be64 else be32) offsets)"

definition stsc_box :: "(nat \<times> nat \<times> nat) list \<Rightarrow> u8 list" where
  "stsc_box runs = full_box (map (\<lambda>(first, per_chunk, desc). be32 (first + 1) @ be32 per_chunk @ be32 desc) runs)"

definition stts_box :: "(nat \<times> nat) list \<Rightarrow> u8 list" where
  "stts_box runs = full_box (map (\<lambda>(n, delta). be32 n @ be32 delta) runs)"

definition stss_box :: "nat list \<Rightarrow> u8 list" where
  "stss_box syncs = full_box (map (\<lambda>i. be32 (i + 1)) syncs)"

definition stsz_box :: "nat list \<Rightarrow> u8 list" where
  "stsz_box sizes = be32 0 @ be32 0 @ be32 (length sizes) @ concat (map be32 sizes)"

fun nibbles :: "nat list \<Rightarrow> u8 list" where
  "nibbles (a # b # ns) = of_nat (a * 16 + b) # nibbles ns"
| "nibbles [a] = [of_nat (a * 16)]"
| "nibbles [] = []"

definition stz2_box :: "nat \<Rightarrow> nat list \<Rightarrow> u8 list" where
  "stz2_box field sizes =
     be32 0 @ be32 field @ be32 (length sizes) @
     (if field = 4 then nibbles sizes else if field = 8 then map of_nat sizes else concat (map be16 sizes))"

text \<open>A source holds a box at a position when reading inside the box gives its bytes.\<close>

definition holds :: "data_source \<Rightarrow> int \<Rightarrow> u8 list \<Rightarrow> bool" where
  "holds rd pos box \<longleftrightarrow> 0 \<le> pos \<and> pos + int (length box) < 2147483648 \<and>
     (\<forall>i n. i + n \<le> length box \<longrightarrow> rd (pos + int i) n = Inr (take n (drop i box)))"

lemma file_holds:
  assumes "length pre + length box < 2147483648"
  shows "holds (FileSource_readAt (open_file (pre @ box @ post))) (int (length pre)) box"
proof -
  have "FileSource_readAt (open_file (pre @ box @ post)) (int (length pre) + int i) n = Inr (take n (drop i box))"
    if "i + n \<le> length box" for i n
    using file_src.rd_inside [of "int (length pre) + int i" n "pre @ box @ post"] assms that
    by (simp add: nat_add_distrib drop_take min_def)
  then show ?thesis using assms by (simp add: holds_def)
qed

lemma holds_read:
  assumes "holds rd pos box" and "i + n \<le> length box"
  shows "read_enough rd (s32 (pos + int i)) n = Some (take n (drop i box))"
    and "read_exactly rd (s32 (pos + int i)) n = Some (take n (drop i box))"
proof -
  have "s32 (pos + int i) = pos + int i" using assms by (intro s32_id in_s32I) (auto simp: holds_def)
  then show "read_enough rd (s32 (pos + int i)) n = Some (take n (drop i box))"
    and "read_exactly rd (s32 (pos + int i)) n = Some (take n (drop i box))"
    using assms by (simp_all add: holds_def read_enough_def read_exactly_def)
qed

lemma holds_header:
  assumes "holds rd pos box" and "n \<le> length box"
  shows "read_enough rd pos n = Some (take n box)"
proof -
  have "rd (pos + int 0) n = Inr (take n (drop 0 box))" using assms unfolding holds_def by (metis add_0)
  then show ?thesis using assms(2) by (simp add: read_enough_def)
qed

lemma concat_entry:
  assumes "\<And>e. e \<in> set es \<Longrightarrow> length e = k" and "i < length es"
  shows "take k (drop (i * k) (concat es)) = es ! i"
  using assms
proof (induction es arbitrary: i)
  case (Cons e es)
  then show ?case by (cases i) simp_all
qed simp

lemma length_concat_entries: "(\<And>e. e \<in> set es \<Longrightarrow> length e = k) \<Longrightarrow> length (concat es) = length es * k"
  by (induction es) auto

lemma full_box_entry:
  assumes "\<And>e. e \<in> set es \<Longrightarrow> length e = k" and "i < length es"
  shows "8 + i * k + k \<le> length (full_box es)" and "take k (drop (8 + i * k) (full_box es)) = es ! i"
proof -
  have "(i + 1) * k \<le> length es * k" using assms(2) by (intro mult_le_mono1) simp
  then show "8 + i * k + k \<le> length (full_box es)"
    using length_concat_entries [OF assms(1)] by (simp add: full_box_def)
  show "take k (drop (8 + i * k) (full_box es)) = es ! i"
    using concat_entry [OF assms] by (simp add: full_box_def)
qed

lemma full_box_header:
  "8 \<le> length (full_box es)" "take 8 (full_box es) = be32 0 @ be32 (length es)"
  "drop 4 (be32 a @ be32 b) = be32 b"
  by (simp_all add: full_box_def)

lemma words_of_be32:
  "map ntohl (words_of (concat (map be32 ns))) = map of_nat ns"
proof (induction ns)
  case (Cons n ns)
  have "words_of (be32 n @ bs) = load32 (be32 n) # words_of bs" for bs by (simp add: be32_def)
  then show ?case using Cons by simp
qed simp

lemma new_array_ok:
  "unat w = n * k \<Longrightarrow> n * k < 2147483648 \<Longrightarrow> mem (n * k) \<Longrightarrow> 0 < k \<Longrightarrow> new_array mem junk k w = Inr (map junk [0..<n])"
  by (simp add: new_array_def)

lemma convert_array_all: "unat n = length xs \<Longrightarrow> convert_array f n xs = Inr (map f xs)"
  by (simp add: convert_array_def)

lemma not_small_u32: "m \<le> n \<Longrightarrow> n < 4294967296 \<Longrightarrow> \<not> (of_nat n :: u32) < of_nat m"
  by (simp add: word_less_nat_alt unat_of_nat)

lemma box_not_small:
  assumes "holds rd pos box" and "8 \<le> length box"
  shows "\<not> (of_nat (length box) :: u32) < 8" and "12 \<le> length box \<Longrightarrow> \<not> (of_nat (length box) :: u32) < 12"
  using not_small_u32 [of 8 "length box"] not_small_u32 [of 12 "length box"] assms by (simp_all add: holds_def)

lemma length_boxes:
  "length (full_box (map (\<lambda>x. be32 (f x)) xs)) = 8 + length xs * 4"
  "length (stco_box wide offsets) = 8 + length offsets * (if wide then 8 else 4)"
  "length (stsc_box runs) = 8 + length runs * 12"
  "length (stts_box ts) = 8 + length ts * 8"
  "length (stss_box syncs) = 8 + length syncs * 4"
  "length (stsz_box sizes) = 12 + length sizes * 4"
  by (simp_all add: stco_box_def stsc_box_def stts_box_def stss_box_def stsz_box_def full_box_def length_concat comp_def
      case_prod_unfold sum_list_triv)

lemma setChunkOffsetParams_ok:
  assumes h: "holds rd pos (stco_box wide offsets)" and tb: "mChunkOffsetOffset tb < 0"
  shows "setChunkOffsetParams rd (if wide then kChunkOffsetType64 else kChunkOffsetType32) pos
            (of_nat (length (stco_box wide offsets))) tb =
         Inr (OK, tb\<lparr> mChunkOffsetOffset := pos, mChunkOffsetType := (if wide then kChunkOffsetType64 else kChunkOffsetType32),
                      mNumChunkOffsets := of_nat (length offsets) \<rparr>)"
proof -
  have len: "8 \<le> length (stco_box wide offsets)" by (simp add: length_boxes)
  have hd: "read_enough rd pos 8 = Some (be32 0 @ be32 (length offsets))"
    using holds_header [OF h len] by (simp add: stco_box_def full_box_header)
  have k: "kChunkOffsetType64 \<noteq> kChunkOffsetType32" by (simp add: kChunkOffsetType64_def kChunkOffsetType32_def FOURCC_def of_char_def)
  have sz: "(of_nat (length (stco_box wide offsets)) :: u32) = 8 + of_nat (length offsets) * (if wide then 8 else 4)"
    by (simp add: length_boxes)
  show ?thesis
    using tb box_not_small(1) [OF h len] k sz by (cases wide) (simp_all add: setChunkOffsetParams_def Let_def hd full_box_header(3))
qed

fun entry_of :: "nat \<times> nat \<times> nat \<Rightarrow> SampleToChunkEntry" where
  "entry_of (first, per_chunk, desc) =
     \<lparr> startChunk = of_nat first, samplesPerChunk = of_nat per_chunk, chunkDesc = of_nat desc \<rparr>"

lemma stsc_entry:
  assumes h: "holds rd pos (stsc_box runs)" and i: "i < length runs" "runs ! i = (first, per_chunk, desc)"
  shows "read_exactly rd (s32 (pos + 8 + uint (of_nat i * 12 :: u32))) 12 = Some (be32 (first + 1) @ be32 per_chunk @ be32 desc)"
proof -
  define es where "es = map (\<lambda>(first, per_chunk, desc). be32 (first + 1) @ be32 per_chunk @ be32 desc) runs"
  have es: "\<And>e. e \<in> set es \<Longrightarrow> length e = 12" "stsc_box runs = full_box es" "i < length es"
    using i by (auto simp: es_def stsc_box_def)
  have "i * 12 < 2147483648" using h i by (simp add: holds_def length_boxes)
  then have "uint (of_nat i * 12 :: u32) = int (i * 12)"
    by (simp add: uint_nat unat_word_ariths unat_of_nat)
  then have "read_exactly rd (s32 (pos + 8 + uint (of_nat i * 12 :: u32))) 12 = Some (take 12 (drop (8 + i * 12) (stsc_box runs)))"
    using holds_read(2) [OF h, of "8 + i * 12" 12] full_box_entry(1) [OF es(1,3)] es(2) by (simp add: add.assoc)
  also have "take 12 (drop (8 + i * 12) (stsc_box runs)) = es ! i" using full_box_entry(2) [OF es(1,3)] es(2) by simp
  also have "\<dots> = be32 (first + 1) @ be32 per_chunk @ be32 desc" using i by (simp add: es_def)
  finally show ?thesis .
qed

lemma load_entries_ok:
  assumes h: "holds rd pos (stsc_box runs)" and f: "\<forall>run \<in> set runs. fst run < 4294967295"
    and i: "i + k = length runs" and es: "length es = length runs" "take i es = map entry_of (take i runs)"
  shows "load_entries rd pos (of_nat i) k es = Inr (OK, map entry_of runs)"
  using i es
proof (induction k arbitrary: i es)
  case (Suc k)
  obtain first per_chunk desc where r: "runs ! i = (first, per_chunk, desc)" by (cases "runs ! i")
  have i: "i < length runs" "i < 4294967296" using Suc.prems(1) h by (auto simp: holds_def length_boxes)
  then have u: "unat (of_nat i :: u32) = i" by (simp add: unat_of_nat)
  have "first < 4294967295" using f i(1) r by (metis fst_conv nth_mem)
  then have "unat (1 + of_nat first :: u32) = first + 1" by (simp add: unat_word_ariths unat_of_nat)
  then have "(1 :: u32) \<le> 1 + of_nat first" by (simp add: word_le_nat_alt)
  moreover have "load_entries rd pos (of_nat (Suc i)) k (es[i := entry_of (runs ! i)]) = Inr (OK, map entry_of runs)"
    using Suc.prems i by (intro Suc.IH) (simp_all add: take_Suc_conv_app_nth)
  ultimately show ?case
    using stsc_entry [OF h i(1) r] i(1) u Suc.prems(2) r by (simp add: add.commute)
qed simp

lemma setSampleToChunkParams_ok:
  assumes h: "holds rd pos (stsc_box runs)" and f: "\<forall>run \<in> set runs. fst run < 4294967295"
    and m: "mem (length runs * 12)" and tb: "mSampleToChunkOffset tb < 0"
  shows "setSampleToChunkParams rd mem junk pos (of_nat (length (stsc_box runs))) tb =
         Inr (OK, tb\<lparr> mSampleToChunkOffset := pos, mNumSampleToChunkOffsets := of_nat (length runs),
                      mSampleToChunkEntries := Some (map entry_of runs) \<rparr>)"
proof -
  have len: "8 \<le> length (stsc_box runs)" by (simp add: length_boxes)
  have hd: "read_enough rd pos 8 = Some (be32 0 @ be32 (length runs))"
    using holds_header [OF h len] by (simp add: stsc_box_def full_box_header)
  have n: "length runs * 12 < 2147483648" using h by (simp add: holds_def length_boxes)
  then have u: "unat (of_nat (length runs) * 12 :: u32) = length runs * 12" "unat (of_nat (length runs) :: u32) = length runs"
    by (simp_all add: unat_word_ariths unat_of_nat)
  have sz: "(of_nat (length (stsc_box runs)) :: u32) = 8 + of_nat (length runs) * 12" by (simp add: length_boxes)
  note load = load_entries_ok [OF h f, of 0 "length runs" "map junk [0..<length runs]"]
  have na: "new_array mem junk 12 (of_nat (length runs) * 12) = Inr (map junk [0..<length runs])"
    using u(1) n m by (intro new_array_ok) simp_all
  show ?thesis
    using tb box_not_small(1) [OF h len] sz load
    by (simp add: setSampleToChunkParams_def Let_def hd full_box_header(3) na u(2))
qed

lemma setSampleSizeParams_ok:
  assumes h: "holds rd pos (stsz_box sizes)" and tb: "mSampleSizeOffset tb < 0"
  shows "setSampleSizeParams rd kSampleSizeType32 pos (of_nat (length (stsz_box sizes))) tb =
         Inr (OK, tb\<lparr> mSampleSizeOffset := pos, mDefaultSampleSize := 0, mNumSampleSizes := of_nat (length sizes),
                      mSampleSizeFieldSize := 32 \<rparr>)"
proof -
  have len: "8 \<le> length (stsz_box sizes)" "12 \<le> length (stsz_box sizes)" by (simp_all add: length_boxes)
  have hd: "read_enough rd pos 12 = Some (be32 0 @ be32 0 @ be32 (length sizes))"
    using holds_header [OF h len(2)] by (simp add: stsz_box_def)
  have sz: "(of_nat (length (stsz_box sizes)) :: u32) = 12 + of_nat (length sizes) * 4" by (simp add: length_boxes)
  have d: "drop 4 (be32 a @ xs) = xs" "drop 8 (be32 a @ be32 b @ xs) = xs" for a b xs by simp_all
  show ?thesis
    using tb box_not_small(2) [OF h len] sz by (simp add: setSampleSizeParams_def Let_def hd d)
qed

lemma length_nibbles: "length (nibbles ns) = (length ns + 1) div 2"
  by (induction ns rule: nibbles.induct) simp_all

lemma length_stz2_box:
  "field \<in> {4, 8, 16} \<Longrightarrow> length (stz2_box field sizes) = 12 + (length sizes * field + 4) div 8"
  by (auto simp: stz2_box_def length_nibbles length_concat comp_def sum_list_triv)

lemma field_masks: "(4 :: u32) AND 0xffffff00 = 0" "(8 :: u32) AND 0xffffff00 = 0" "(16 :: u32) AND 0xffffff00 = 0"
  "(4 :: u32) AND 0xf = 4" "(8 :: u32) AND 0xf = 8" "(16 :: u32) AND 0xf = 0"
  by simp_all

lemma compact_size_fits:
  assumes "n * f + 4 < 34359738368" and "f \<in> {4, 8}" and "12 + (n * f + 4) div 8 < 2147483648"
  shows "\<not> (of_nat (12 + (n * f + 4) div 8) :: u32) < 12 + (of_nat n * of_nat f + 4) div 8"
proof -
  define w :: u32 where "w = of_nat n * of_nat f + 4"
  have "unat w = (n * f + 4) mod 4294967296" by (simp add: w_def unat_word_ariths unat_of_nat mod_simps)
  then have "unat (w div 8) \<le> (n * f + 4) div 8" by (simp add: unat_div div_le_mono)
  then have "unat (12 + w div 8) \<le> 12 + (n * f + 4) div 8" using assms(3) by (simp add: unat_word_ariths)
  moreover have "unat (of_nat (12 + (n * f + 4) div 8) :: u32) = 12 + (n * f + 4) div 8"
    using assms(3) by (subst unat_of_nat) simp
  ultimately show ?thesis by (simp add: word_less_nat_alt w_def)
qed

lemma setSampleSizeParams_compact:
  assumes h: "holds rd pos (stz2_box field sizes)" and tb: "mSampleSizeOffset tb < 0" and f: "field \<in> {4, 8}"
  shows "setSampleSizeParams rd kSampleSizeTypeCompact pos (of_nat (length (stz2_box field sizes))) tb =
         Inr (OK, tb\<lparr> mSampleSizeOffset := pos, mDefaultSampleSize := 0, mNumSampleSizes := of_nat (length sizes),
                      mSampleSizeFieldSize := of_nat field \<rparr>)"
proof -
  have l: "length (stz2_box field sizes) = 12 + (length sizes * field + 4) div 8" using f length_stz2_box [of field sizes] by auto
  then have len: "8 \<le> length (stz2_box field sizes)" "12 \<le> length (stz2_box field sizes)" by simp_all
  have hd: "read_enough rd pos 12 = Some (be32 0 @ be32 field @ be32 (length sizes))"
    using holds_header [OF h len(2)] by (simp add: stz2_box_def)
  have b: "12 + (length sizes * field + 4) div 8 < 2147483648" using h l by (simp add: holds_def)
  then have "length sizes * field + 4 < 34359738368" by linarith
  note fits = compact_size_fits [OF this f b]
  have d: "drop 4 (be32 a @ xs) = xs" "drop 8 (be32 a @ be32 b @ xs) = xs" for a b xs by simp_all
  have k: "kSampleSizeTypeCompact \<noteq> kSampleSizeType32" by (simp add: kSampleSizeTypeCompact_def kSampleSizeType32_def FOURCC_def of_char_def)
  show ?thesis
    using f tb box_not_small(2) [OF h len] k fits unfolding l
    by (auto simp: setSampleSizeParams_def Let_def hd d)
qed

lemma setSampleSizeParams_16:
  assumes h: "holds rd pos (stz2_box 16 sizes)" and tb: "mSampleSizeOffset tb < 0"
  shows "\<exists>tb'. setSampleSizeParams rd kSampleSizeTypeCompact pos (of_nat (length (stz2_box 16 sizes))) tb =
         Inr (ERROR_MALFORMED, tb')"
proof -
  have len: "8 \<le> length (stz2_box 16 sizes)" "12 \<le> length (stz2_box 16 sizes)" by (simp_all add: length_stz2_box)
  have hd: "read_enough rd pos 12 = Some (be32 0 @ be32 16 @ be32 (length sizes))"
    using holds_header [OF h len(2)] by (simp add: stz2_box_def)
  have d: "drop 4 (be32 a @ xs) = xs" "drop 8 (be32 a @ be32 b @ xs) = xs" for a b xs by simp_all
  have k: "kSampleSizeTypeCompact \<noteq> kSampleSizeType32" by (simp add: kSampleSizeTypeCompact_def kSampleSizeType32_def FOURCC_def of_char_def)
  show ?thesis
    using tb box_not_small(2) [OF h len] k by (simp add: setSampleSizeParams_def Let_def hd d)
qed

lemma setTimeToSampleParams_ok:
  assumes h: "holds rd pos (stts_box runs)" and m: "mem (length runs * 8)" and tb: "mTimeToSample tb = None"
  shows "setTimeToSampleParams rd mem junk pos (of_nat (length (stts_box runs))) tb =
         Inr (OK, tb\<lparr> mTimeToSampleCount := of_nat (length runs),
                      mTimeToSample := Some (concat (map (\<lambda>(n, delta). [of_nat n, of_nat delta]) runs)) \<rparr>)"
proof -
  have len: "8 \<le> length (stts_box runs)" by (simp add: length_boxes)
  have hd: "read_enough rd pos 8 = Some (be32 0 @ be32 (length runs))"
    using holds_header [OF h len] by (simp add: stts_box_def full_box_header)
  have n: "length runs * 8 < 2147483648" using h by (simp add: holds_def length_boxes)
  then have u: "unat (of_nat (length runs) * 2 * 4 :: u32) = length runs * 2 * 4"
      "unat (4 * of_nat (length runs) * 2 :: u32) = length runs * 8" "unat (of_nat (length runs) * 2 :: u32) = length runs * 2"
    by (simp_all add: unat_word_ariths unat_of_nat mod_simps)
  have na: "new_array mem junk 4 (of_nat (length runs) * 2 * 4) = Inr (map junk [0..<length runs * 2])"
    using u(1) n m by (intro new_array_ok) (simp_all add: mult.commute)
  define ns where "ns = concat (map (\<lambda>(n, delta). [n, delta]) runs)"
  have ns: "drop 8 (stts_box runs) = concat (map be32 ns)" "length ns = length runs * 2"
    by (simp_all add: ns_def stts_box_def full_box_def map_concat comp_def case_prod_unfold length_concat sum_list_triv)
       (induction runs, auto)
  have "read_enough rd (s32 (pos + 8)) (length runs * 8) = Some (concat (map be32 ns))"
    using holds_read(1) [OF h, of 8 "length runs * 8"] ns by (simp add: length_boxes length_concat comp_def sum_list_triv)
  moreover have "convert_array ntohl (of_nat (length runs) * 2) (words_of (concat (map be32 ns))) = Inr (map of_nat ns)"
    using ns u(3) words_of_be32 [of ns] by (subst convert_array_all) (simp_all, metis length_map)
  moreover have "map of_nat ns = concat (map (\<lambda>(n, delta). [of_nat n, of_nat delta :: u32]) runs)"
    by (simp add: ns_def map_concat comp_def case_prod_unfold)
  ultimately show ?thesis
    using tb box_not_small(1) [OF h len] na u(2) by (simp add: setTimeToSampleParams_def Let_def hd full_box_header(3))
qed

lemma setSyncSampleParams_ok:
  assumes h: "holds rd pos (stss_box syncs)" and m: "mem (length syncs * 4)" and tb: "mSyncSampleOffset tb < 0"
  shows "setSyncSampleParams rd mem junk pos (of_nat (length (stss_box syncs))) tb =
         Inr (OK, tb\<lparr> mSyncSampleOffset := pos, mNumSyncSamples := of_nat (length syncs),
                      mSyncSamples := Some (map of_nat syncs) \<rparr>)"
proof -
  have len: "8 \<le> length (stss_box syncs)" by (simp add: length_boxes)
  have hd: "read_enough rd pos 8 = Some (be32 0 @ be32 (length syncs))"
    using holds_header [OF h len] by (simp add: stss_box_def full_box_header)
  have n: "length syncs * 4 < 2147483648" using h by (simp add: holds_def length_boxes)
  then have u: "unat (of_nat (length syncs) * 4 :: u32) = length syncs * 4" "unat (of_nat (length syncs) :: u32) = length syncs"
    by (simp_all add: unat_word_ariths unat_of_nat)
  have na: "new_array mem junk 4 (of_nat (length syncs) * 4) = Inr (map junk [0..<length syncs])"
    using u(1) n m by (intro new_array_ok) simp_all
  define ns where "ns = map Suc syncs"
  have ns: "drop 8 (stss_box syncs) = concat (map be32 ns)" "length ns = length syncs"
    by (simp_all add: ns_def stss_box_def full_box_def comp_def)
  have "read_exactly rd (s32 (pos + 8)) (length syncs * 4) = Some (concat (map be32 ns))"
    using holds_read(2) [OF h, of 8 "length syncs * 4"] ns by (simp add: length_boxes length_concat comp_def sum_list_triv)
  moreover have "length (words_of (concat (map be32 ns))) = length syncs"
    using words_of_be32 [of ns] ns(2) by (metis length_map)
  then have "convert_array (\<lambda>x. ntohl x - 1) (of_nat (length syncs)) (words_of (concat (map be32 ns))) =
      Inr (map (\<lambda>x. x - 1) (map ntohl (words_of (concat (map be32 ns)))))"
    using u(2) by (subst convert_array_all) (simp_all add: comp_def)
  then have "convert_array (\<lambda>x. ntohl x - 1) (of_nat (length syncs)) (words_of (concat (map be32 ns))) = Inr (map of_nat syncs)"
    unfolding words_of_be32 by (simp add: ns_def comp_def)
  ultimately show ?thesis
    using tb box_not_small(1) [OF h len] by (simp add: setSyncSampleParams_def Let_def hd full_box_header(3) na u)
qed

text \<open>Numbers as 32-bit words, for the users of the tables.\<close>

declare unat_of_nat_u32 [simp]

end
