(* ===== verification/Sample_Iterator.thy ===== *)
theory Sample_Iterator
  imports Sample_Table
begin

text \<open>
  The iterator over the samples of a track, \<open>libppplayer/SampleIterator.cpp\<close>. It keeps the run of chunks, the chunk
  and the run of durations it last looked at, so that neighbouring samples are found without reading the
  tables again. The specification computes position, size and time of a sample from the track alone; any
  sequence of seeks agrees with it.
\<close>

subsection \<open>The iterator\<close>

record SampleIterator =
  mInitialized :: bool
  mSampleToChunkIndex :: u32
  mFirstChunk :: u32
  mFirstChunkSampleIndex :: u32
  mStopChunk :: u32
  mStopChunkSampleIndex :: u32
  mSamplesPerChunk :: u32
  mChunkDesc :: u32
  mCurrentChunkIndex :: u32
  mCurrentChunkOffset :: int
  mCurrentChunkSampleSizes :: "u32 list"
  mTimeToSampleIndex :: u32
  mTTSSampleIndex :: u32
  mTTSSampleTime :: u32
  mTTSCount :: u32
  mTTSDuration :: u32
  mCurrentSampleIndex :: u32
  mCurrentSampleOffset :: int
  mCurrentSampleSize :: u32
  mCurrentSampleTime :: u32

definition reset :: "SampleIterator \<Rightarrow> SampleIterator" where
  "reset it = it\<lparr> mSampleToChunkIndex := 0, mFirstChunk := 0, mFirstChunkSampleIndex := 0, mStopChunk := 0,
                  mStopChunkSampleIndex := 0, mSamplesPerChunk := 0, mChunkDesc := 0 \<rparr>"

text \<open>The constructor; the members it does not set are arbitrary.\<close>

definition SampleIterator_new :: "SampleIterator \<Rightarrow> SampleIterator" where
  "SampleIterator_new junk =
     reset (junk\<lparr> mInitialized := False, mCurrentChunkSampleSizes := [], mTimeToSampleIndex := 0, mTTSSampleIndex := 0,
                  mTTSSampleTime := 0, mTTSCount := 0, mTTSDuration := 0 \<rparr>)"

subsection \<open>Reading the tables\<close>

definition getChunkOffset :: "data_source \<Rightarrow> SampleTable \<Rightarrow> u32 \<Rightarrow> media_fault + status_t \<times> int" where
  "getChunkOffset rd tb chunk =
     (if chunk \<ge> mNumChunkOffsets tb then Inr (ERROR_OUT_OF_RANGE, 0)
      else if mChunkOffsetType tb = kChunkOffsetType32 then
        (case read_enough rd (s32 (mChunkOffsetOffset tb + 8 + uint (4 * chunk))) 4 of
           None \<Rightarrow> Inr (ERROR_IO, 0)
         | Some bs \<Rightarrow> Inr (OK, s32 (uint (ntohl (load32 bs)))))
      else if mChunkOffsetType tb \<noteq> kChunkOffsetType64 then Inl CheckFailed
      else
        (case read_enough rd (s32 (mChunkOffsetOffset tb + 8 + uint (8 * chunk))) 8 of
           None \<Rightarrow> Inr (ERROR_IO, 0)
         | Some bs \<Rightarrow> Inr (OK, s32 (uint (ntoh64 (load64 bs))))))"

definition getSampleSizeDirect :: "data_source \<Rightarrow> SampleTable \<Rightarrow> u32 \<Rightarrow> media_fault + status_t \<times> u32" where
  "getSampleSizeDirect rd tb sampleIndex =
     (if sampleIndex \<ge> mNumSampleSizes tb then Inr (ERROR_OUT_OF_RANGE, 0)
      else if mDefaultSampleSize tb > 0 then Inr (OK, mDefaultSampleSize tb)
      else if mSampleSizeFieldSize tb = 32 then
        (case read_enough rd (s32 (mSampleSizeOffset tb + 12 + uint (4 * sampleIndex))) 4 of
           None \<Rightarrow> Inr (ERROR_IO, 0) | Some bs \<Rightarrow> Inr (OK, ntohl (load32 bs)))
      else if mSampleSizeFieldSize tb = 16 then
        (case read_enough rd (s32 (mSampleSizeOffset tb + 12 + uint (2 * sampleIndex))) 2 of
           None \<Rightarrow> Inr (ERROR_IO, 0) | Some bs \<Rightarrow> Inr (OK, ucast (ntohs (load16 bs))))
      else if mSampleSizeFieldSize tb = 8 then
        (case read_enough rd (s32 (mSampleSizeOffset tb + 12 + uint sampleIndex)) 1 of
           None \<Rightarrow> Inr (ERROR_IO, 0) | Some bs \<Rightarrow> Inr (OK, ucast (bs ! 0)))
      else if mSampleSizeFieldSize tb \<noteq> 4 then Inl CheckFailed
      else
        (case read_enough rd (s32 (mSampleSizeOffset tb + 12 + uint (sampleIndex div 2))) 1 of
           None \<Rightarrow> Inr (ERROR_IO, 0)
         | Some bs \<Rightarrow> Inr (OK, if sampleIndex AND 1 \<noteq> 0 then ucast (bs ! 0 AND 0x0f) else ucast (drop_bit 4 (bs ! 0)))))"

text \<open>An array of the table; \<open>NULL\<close> and indices outside are faults.\<close>

definition array_at :: "'a list option \<Rightarrow> u32 \<Rightarrow> media_fault + 'a" where
  "array_at arr i =
     (case arr of None \<Rightarrow> Inl OutOfBounds | Some xs \<Rightarrow> if unat i < length xs then Inr (xs ! unat i) else Inl OutOfBounds)"

subsection \<open>Seeking\<close>

text \<open>The loop of \<open>findChunkRange\<close> ends because the index of the run comes nearer to the number of runs.\<close>

lemma word_index_measure: "(i :: u32) \<noteq> n \<Longrightarrow> unat (n - (i + 1)) < unat (n - i)"
proof -
  assume "i \<noteq> n"
  then have "n - i \<noteq> 0" by simp
  then have "unat (n - i - 1) = unat (n - i) - 1" "0 < unat (n - i)" by (simp_all add: unat_minus_one unat_gt_0)
  then show ?thesis by (simp add: diff_diff_eq)
qed

function chunk_range_loop :: "SampleTable \<Rightarrow> u32 \<Rightarrow> SampleIterator \<Rightarrow> media_fault + status_t \<times> SampleIterator" where
  "chunk_range_loop tb sampleIndex it =
     (if \<not> sampleIndex \<ge> mStopChunkSampleIndex it then Inr (OK, it)
      else if mSampleToChunkIndex it = mNumSampleToChunkOffsets tb then Inr (ERROR_OUT_OF_RANGE, it)
      else case array_at (mSampleToChunkEntries tb) (mSampleToChunkIndex it) of
          Inl e \<Rightarrow> Inl e
        | Inr entry \<Rightarrow>
            let it1 = it\<lparr> mFirstChunkSampleIndex := mStopChunkSampleIndex it, mFirstChunk := startChunk entry,
                         mSamplesPerChunk := samplesPerChunk entry, mChunkDesc := chunkDesc entry \<rparr>
            in if mSampleToChunkIndex it + 1 < mNumSampleToChunkOffsets tb then
                 (case array_at (mSampleToChunkEntries tb) (mSampleToChunkIndex it + 1) of
                    Inl e \<Rightarrow> Inl e
                  | Inr entry1 \<Rightarrow>
                      chunk_range_loop tb sampleIndex
                        (it1\<lparr> mStopChunk := startChunk entry1,
                              mStopChunkSampleIndex := mFirstChunkSampleIndex it1 +
                                (startChunk entry1 - mFirstChunk it1) * mSamplesPerChunk it1,
                              mSampleToChunkIndex := mSampleToChunkIndex it + 1 \<rparr>))
               else
                 chunk_range_loop tb sampleIndex
                   (it1\<lparr> mStopChunk := 0xffffffff, mStopChunkSampleIndex := 0xffffffff,
                         mSampleToChunkIndex := mSampleToChunkIndex it + 1 \<rparr>))"
  by pat_completeness auto
termination
  by (relation "measure (\<lambda>(tb, i, it). unat (mNumSampleToChunkOffsets tb - mSampleToChunkIndex it))")
     (simp_all add: word_index_measure)

definition findChunkRange :: "SampleTable \<Rightarrow> u32 \<Rightarrow> SampleIterator \<Rightarrow> media_fault + status_t \<times> SampleIterator" where
  "findChunkRange tb sampleIndex it =
     (if \<not> sampleIndex \<ge> mFirstChunkSampleIndex it then Inl CheckFailed else chunk_range_loop tb sampleIndex it)"

function sample_time_loop :: "SampleTable \<Rightarrow> u32 \<Rightarrow> SampleIterator \<Rightarrow> media_fault + status_t \<times> SampleIterator" where
  "sample_time_loop tb sampleIndex it =
     (if \<not> sampleIndex \<ge> mTTSSampleIndex it + mTTSCount it then Inr (OK, it)
      else if mTimeToSampleIndex it = mTimeToSampleCount tb then Inr (ERROR_OUT_OF_RANGE, it)
      else case array_at (mTimeToSample tb) (2 * mTimeToSampleIndex it) of
          Inl e \<Rightarrow> Inl e
        | Inr cnt \<Rightarrow>
            (case array_at (mTimeToSample tb) (2 * mTimeToSampleIndex it + 1) of
               Inl e \<Rightarrow> Inl e
             | Inr duration \<Rightarrow>
                 sample_time_loop tb sampleIndex
                   (it\<lparr> mTTSSampleIndex := mTTSSampleIndex it + mTTSCount it,
                        mTTSSampleTime := mTTSSampleTime it + mTTSCount it * mTTSDuration it,
                        mTTSCount := cnt, mTTSDuration := duration, mTimeToSampleIndex := mTimeToSampleIndex it + 1 \<rparr>)))"
  by pat_completeness auto
termination
  by (relation "measure (\<lambda>(tb, i, it). unat (mTimeToSampleCount tb - mTimeToSampleIndex it))")
     (simp_all add: word_index_measure)

text \<open>\<open>findSampleTime\<close>, with the result stored at \<open>&mCurrentSampleTime\<close>.\<close>

definition findSampleTime :: "SampleTable \<Rightarrow> u32 \<Rightarrow> SampleIterator \<Rightarrow> media_fault + status_t \<times> SampleIterator" where
  "findSampleTime tb sampleIndex it =
     (if sampleIndex \<ge> mNumSampleSizes tb then Inr (ERROR_OUT_OF_RANGE, it)
      else case sample_time_loop tb sampleIndex it of
          Inl e \<Rightarrow> Inl e
        | Inr (st, it) \<Rightarrow>
            if st \<noteq> OK then Inr (st, it)
            else Inr (OK, it\<lparr> mCurrentSampleTime :=
                                mTTSSampleTime it + mTTSDuration it * (sampleIndex - mTTSSampleIndex it) \<rparr>))"

text \<open>The sizes of the samples of a chunk, pushed on a vector.\<close>

fun load_sizes :: "data_source \<Rightarrow> SampleTable \<Rightarrow> u32 \<Rightarrow> nat \<Rightarrow> u32 list \<Rightarrow> media_fault + status_t \<times> u32 list" where
  "load_sizes rd tb i 0 sizes = Inr (OK, sizes)"
| "load_sizes rd tb i (Suc k) sizes =
     (case getSampleSizeDirect rd tb i of
        Inl e \<Rightarrow> Inl e
      | Inr (st, sampleSize) \<Rightarrow>
          if st \<noteq> OK then Inr (st, sizes) else load_sizes rd tb (i + 1) k (sizes @ [sampleSize]))"

definition enter_chunk :: "data_source \<Rightarrow> SampleTable \<Rightarrow> u32 \<Rightarrow> SampleIterator \<Rightarrow> media_fault + status_t \<times> SampleIterator" where
  "enter_chunk rd tb chunk it =
     (if \<not> (\<not> mInitialized it \<or> chunk \<noteq> mCurrentChunkIndex it) then Inr (OK, it)
      else
        let it = it\<lparr> mCurrentChunkIndex := chunk \<rparr> in
        case getChunkOffset rd tb chunk of
          Inl e \<Rightarrow> Inl e
        | Inr (st, off) \<Rightarrow>
            let it = it\<lparr> mCurrentChunkOffset := off \<rparr> in
            if st \<noteq> OK then Inr (st, it)
            else
              let firstChunkSampleIndex =
                    mFirstChunkSampleIndex it + mSamplesPerChunk it * (mCurrentChunkIndex it - mFirstChunk it)
              in case load_sizes rd tb firstChunkSampleIndex (unat (mSamplesPerChunk it)) [] of
                  Inl e \<Rightarrow> Inl e
                | Inr (st, sizes) \<Rightarrow> Inr (st, it\<lparr> mCurrentChunkSampleSizes := sizes \<rparr>))"

definition set_current :: "SampleTable \<Rightarrow> u32 \<Rightarrow> SampleIterator \<Rightarrow> media_fault + status_t \<times> SampleIterator" where
  "set_current tb sampleIndex it =
     (let k = unat ((sampleIndex - mFirstChunkSampleIndex it) mod mSamplesPerChunk it);
          sizes = mCurrentChunkSampleSizes it
      in if length sizes \<le> k then Inl OutOfBounds
         else
           let it = it\<lparr> mCurrentSampleOffset := fold (\<lambda>s off. s32 (off + uint s)) (take k sizes) (mCurrentChunkOffset it),
                        mCurrentSampleSize := sizes ! k \<rparr>;
               it = (if sampleIndex < mTTSSampleIndex it
                     then it\<lparr> mTimeToSampleIndex := 0, mTTSSampleIndex := 0, mTTSSampleTime := 0, mTTSCount := 0,
                              mTTSDuration := 0 \<rparr>
                     else it)
           in case findSampleTime tb sampleIndex it of
               Inl e \<Rightarrow> Inl e
             | Inr (st, it) \<Rightarrow>
                 if st \<noteq> OK then Inr (st, it)
                 else Inr (OK, it\<lparr> mCurrentSampleIndex := sampleIndex, mInitialized := True \<rparr>))"

definition seekTo :: "data_source \<Rightarrow> SampleTable \<Rightarrow> u32 \<Rightarrow> SampleIterator \<Rightarrow> media_fault + status_t \<times> SampleIterator" where
  "seekTo rd tb sampleIndex it =
     (if sampleIndex \<ge> mNumSampleSizes tb then Inr (ERROR_END_OF_STREAM, it)
      else if mSampleToChunkOffset tb < 0 \<or> mChunkOffsetOffset tb < 0 \<or> mSampleSizeOffset tb < 0 \<or> mTimeToSampleCount tb = 0
      then Inr (ERROR_MALFORMED, it)
      else if mInitialized it \<and> mCurrentSampleIndex it = sampleIndex then Inr (OK, it)
      else
        let it = (if \<not> mInitialized it \<or> sampleIndex < mFirstChunkSampleIndex it then reset it else it)
        in case (if sampleIndex \<ge> mStopChunkSampleIndex it then findChunkRange tb sampleIndex it else Inr (OK, it)) of
            Inl e \<Rightarrow> Inl e
          | Inr (st, it) \<Rightarrow>
              if st \<noteq> OK then Inr (st, it)
              else if \<not> sampleIndex < mStopChunkSampleIndex it then Inl CheckFailed
              else if mSamplesPerChunk it = 0 then Inl DivideByZero
              else
                case enter_chunk rd tb ((sampleIndex - mFirstChunkSampleIndex it) div mSamplesPerChunk it + mFirstChunk it) it of
                  Inl e \<Rightarrow> Inl e
                | Inr (st, it) \<Rightarrow> if st \<noteq> OK then Inr (st, it) else set_current tb sampleIndex it)"

declare chunk_range_loop.simps [simp del] sample_time_loop.simps [simp del]

subsection \<open>Where the samples of a track are\<close>

text \<open>A track as its boxes describe it: the offsets of the chunks, runs of chunks with as many samples each, the
  sizes of the samples, and runs of samples with the same duration.\<close>

record track =
  t_offsets :: "nat list"
  t_runs :: "(nat \<times> nat \<times> nat) list"
  t_sizes :: "nat list"
  t_times :: "(nat \<times> nat) list"

fun per_chunk :: "nat \<Rightarrow> (nat \<times> nat \<times> nat) list \<Rightarrow> nat list" where
  "per_chunk m [] = []"
| "per_chunk m [(f, n, d)] = replicate (m - f) n"
| "per_chunk m ((f, n, d) # (f', r) # rs) = replicate (f' - f) n @ per_chunk m ((f', r) # rs)"

fun locate :: "nat list \<Rightarrow> nat \<Rightarrow> nat \<times> nat" where
  "locate [] i = (0, i)"
| "locate (n # ns) i = (if i < n then (0, i) else (case locate ns (i - n) of (c, k) \<Rightarrow> (Suc c, k)))"

definition durations :: "(nat \<times> nat) list \<Rightarrow> nat list" where
  "durations ts = concat (map (\<lambda>(n, d). replicate n d) ts)"

definition samples_per_chunk :: "track \<Rightarrow> nat list" where
  "samples_per_chunk tr = per_chunk (length (t_offsets tr)) (t_runs tr)"

definition sample_offset :: "track \<Rightarrow> nat \<Rightarrow> nat" where
  "sample_offset tr i =
     (case locate (samples_per_chunk tr) i of (c, k) \<Rightarrow> t_offsets tr ! c + sum_list (take k (drop (i - k) (t_sizes tr))))"

definition sample_time :: "track \<Rightarrow> nat \<Rightarrow> nat" where
  "sample_time tr i = sum_list (take i (durations (t_times tr)))"

fun runs_ok :: "nat \<Rightarrow> (nat \<times> nat \<times> nat) list \<Rightarrow> bool" where
  "runs_ok m [] = False"
| "runs_ok m [(f, n, d)] = (f < m \<and> 0 < n)"
| "runs_ok m ((f, n, d) # (f', r) # rs) = (f < f' \<and> 0 < n \<and> runs_ok m ((f', r) # rs))"

text \<open>A track whose tables agree with each other and whose numbers fit the 32-bit fields.\<close>

definition track_ok :: "track \<Rightarrow> bool" where
  "track_ok tr \<longleftrightarrow>
     runs_ok (length (t_offsets tr)) (t_runs tr) \<and> fst (hd (t_runs tr)) = 0 \<and>
     sum_list (samples_per_chunk tr) = length (t_sizes tr) \<and>
     length (t_sizes tr) \<le> sum_list (map fst (t_times tr)) \<and> t_times tr \<noteq> [] \<and>
     length (t_sizes tr) < 4294967296 \<and> sum_list (map fst (t_times tr)) < 4294967296 \<and>
     length (t_offsets tr) < 4294967296 \<and> length (t_runs tr) < 4294967296 \<and> length (t_times tr) < 2147483648 \<and>
     (\<forall>n \<in> set (t_sizes tr). n < 4294967296)"

definition table_matches :: "data_source \<Rightarrow> SampleTable \<Rightarrow> track \<Rightarrow> bool" where
  "table_matches rd tb tr \<longleftrightarrow>
     track_ok tr \<and> 0 \<le> mChunkOffsetOffset tb \<and> 0 \<le> mSampleToChunkOffset tb \<and> 0 \<le> mSampleSizeOffset tb \<and>
     mNumSampleSizes tb = of_nat (length (t_sizes tr)) \<and>
     mNumSampleToChunkOffsets tb = of_nat (length (t_runs tr)) \<and>
     mSampleToChunkEntries tb = Some (map entry_of (t_runs tr)) \<and>
     mTimeToSampleCount tb = of_nat (length (t_times tr)) \<and>
     mTimeToSample tb = Some (concat (map (\<lambda>(n, delta). [of_nat n, of_nat delta]) (t_times tr))) \<and>
     (\<forall>c < length (t_offsets tr). getChunkOffset rd tb (of_nat c) = Inr (OK, s32 (int (t_offsets tr ! c)))) \<and>
     (\<forall>i < length (t_sizes tr). getSampleSizeDirect rd tb (of_nat i) = Inr (OK, of_nat (t_sizes tr ! i)))"

subsection \<open>Runs of chunks\<close>

text \<open>The number of samples before a run.\<close>

fun before :: "(nat \<times> nat \<times> nat) list \<Rightarrow> nat \<Rightarrow> nat" where
  "before runs 0 = 0"
| "before runs (Suc j) = before runs j + (fst (runs ! Suc j) - fst (runs ! j)) * fst (snd (runs ! j))"

lemma before_Cons: "before (r # r' # rs) (Suc j) = (fst r' - fst r) * fst (snd r) + before (r' # rs) j"
  by (induction j) simp_all

lemma locate_replicate:
  "0 < n \<Longrightarrow> locate (replicate m n @ ns) i =
     (if i < m * n then (i div n, i mod n) else (case locate ns (i - m * n) of (c, k) \<Rightarrow> (m + c, k)))"
proof (induction m arbitrary: i)
  case 0
  then show ?case by (simp split: prod.splits)
next
  case (Suc m)
  show ?case
  proof (cases "i < n")
    case True
    then show ?thesis using Suc.prems by simp
  next
    case False
    then have "i div n = Suc ((i - n) div n)" "i mod n = (i - n) mod n" "i - n - m * n = i - Suc m * n"
      using Suc.prems by (simp_all add: le_div_geq le_mod_geq)
    then show ?thesis using False Suc.IH [OF Suc.prems, of "i - n"] by (auto split: prod.splits)
  qed
qed

lemma runs_ok_tl: "runs_ok m (r # r' # rs) \<Longrightarrow> fst r < fst r' \<and> 0 < fst (snd r) \<and> runs_ok m (r' # rs)"
  by (cases r; cases r') simp

lemma runs_ok_mono: "runs_ok m runs \<Longrightarrow> j < length runs \<Longrightarrow> fst (hd runs) \<le> fst (runs ! j)"
proof (induction runs arbitrary: j)
  case (Cons r rs)
  then show ?case
  proof (cases rs)
    case (Cons r' rs')
    then show ?thesis using Cons.prems Cons.IH runs_ok_tl [of m r r' rs'] by (cases j) force+
  qed simp
qed simp

lemma div_in_run: "i < m * n \<Longrightarrow> i div n < (m :: nat)"
  by (simp add: less_mult_imp_div_less)

lemma locate_runs:
  assumes "runs_ok m runs" and "j < length runs" and "before runs j \<le> i"
    and "Suc j < length runs \<longrightarrow> i < before runs (Suc j)" and "i < sum_list (per_chunk m runs)"
  shows "\<exists>c. c = fst (runs ! j) - fst (hd runs) + (i - before runs j) div fst (snd (runs ! j)) \<and>
      locate (per_chunk m runs) i = (c, (i - before runs j) mod fst (snd (runs ! j))) \<and> per_chunk m runs ! c = fst (snd (runs ! j))"
  using assms
proof (induction runs arbitrary: i j)
  case (Cons r rs)
  show ?case
  proof (cases rs)
    case Nil
    then show ?thesis using Cons.prems locate_replicate [of "fst (snd r)" "m - fst r" "[]" i] div_in_run
      by (cases r) (auto simp: sum_list_replicate)
  next
    case (Cons r' rs')
    have ok: "fst r < fst r'" "0 < fst (snd r)" "runs_ok m rs"
      using runs_ok_tl [of m r r' rs'] Cons.prems(1) Cons by simp_all
    have pc: "per_chunk m (r # rs) = replicate (fst r' - fst r) (fst (snd r)) @ per_chunk m rs"
      using Cons by (cases r; cases r') simp
    note loc = locate_replicate [OF ok(2), of "fst r' - fst r" "per_chunk m rs" i]
    show ?thesis
    proof (cases j)
      case 0
      then show ?thesis using Cons.prems(4) Cons loc pc div_in_run by (simp add: nth_append)
    next
      case (Suc j')
      define s where "s = (fst r' - fst r) * fst (snd r)"
      have b: "before (r # rs) (Suc q) = s + before rs q" for q using Cons before_Cons [of r r' rs' q] by (simp add: s_def)
      have i: "s \<le> i" "before rs j' \<le> i - s" "Suc j' < length rs \<longrightarrow> i - s < before rs (Suc j')"
        "i - s < sum_list (per_chunk m rs)"
        using Cons.prems(3-5) b [of j'] b [of "Suc j'"] Suc Cons pc
        by (auto simp: s_def sum_list_replicate simp del: before.simps)
      have j': "j' < length rs" using Cons.prems(2) Suc by simp
      obtain c where c: "c = fst (rs ! j') - fst (hd rs) + (i - s - before rs j') div fst (snd (rs ! j'))"
        "locate (per_chunk m rs) (i - s) = (c, (i - s - before rs j') mod fst (snd (rs ! j')))" "per_chunk m rs ! c = fst (snd (rs ! j'))"
        using Cons.IH [OF ok(3) j' i(2-4)] by blast
      have "fst r' \<le> fst (rs ! j')" using runs_ok_mono [OF ok(3) j'] Cons by simp
      then have "fst r' - fst r + c = fst ((r # rs) ! j) - fst r + (i - before (r # rs) j) div fst (snd ((r # rs) ! j))"
        using c(1) Cons Suc b [of j'] ok(1) by (simp del: before.simps)
      moreover have "per_chunk m (r # rs) ! (fst r' - fst r + c) = fst (snd ((r # rs) ! j))"
        using pc c(3) Suc nth_append_length_plus [of "replicate (fst r' - fst r) (fst (snd r))" "per_chunk m rs" c] by simp
      moreover have "locate (per_chunk m (r # rs)) i = (fst r' - fst r + c, (i - before (r # rs) j) mod fst (snd ((r # rs) ! j)))"
        using loc pc c(2) i(1) b [of j'] Suc by (simp add: s_def del: before.simps)
      ultimately show ?thesis by simp
    qed
  qed
qed simp

lemma locate_bounds:
  "i < sum_list ns \<Longrightarrow> locate ns i = (c, k) \<Longrightarrow> c < length ns \<and> k < ns ! c \<and> i = sum_list (take c ns) + k"
proof (induction ns arbitrary: i c k)
  case (Cons n ns)
  show ?case
  proof (cases "i < n")
    case True
    then show ?thesis using Cons.prems by auto
  next
    case False
    obtain c' k' where l: "locate ns (i - n) = (c', k')" by (cases "locate ns (i - n)")
    then show ?thesis using Cons.IH [OF _ l] Cons.prems False by (cases "i - n < sum_list ns") auto
  qed
qed simp

lemma before_less: "runs_ok m runs \<Longrightarrow> j < length runs \<Longrightarrow> before runs j < sum_list (per_chunk m runs)"
proof (induction runs arbitrary: j)
  case (Cons r rs)
  show ?case
  proof (cases rs)
    case Nil
    then show ?thesis using Cons.prems by (cases r) (simp add: sum_list_replicate)
  next
    case (Cons r' rs')
    have pc: "per_chunk m (r # rs) = replicate (fst r' - fst r) (fst (snd r)) @ per_chunk m rs"
      using Cons by (cases r; cases r') simp
    note ok = runs_ok_tl [of m r r' rs'] Cons.IH [of 0] Cons.IH [of "j - 1"]
    show ?thesis using ok Cons.prems pc Cons
      by (cases j) (auto simp: sum_list_replicate before_Cons simp del: before.simps(2))
  qed
qed simp

lemma runs_ok_nth:
  "runs_ok m runs \<Longrightarrow> Suc j < length runs \<Longrightarrow> fst (runs ! j) < fst (runs ! Suc j)"
  "runs_ok m runs \<Longrightarrow> j < length runs \<Longrightarrow> 0 < fst (snd (runs ! j)) \<and> fst (runs ! j) < m"
proof (induction runs arbitrary: j)
  case (Cons r rs)
  { case 1
    then obtain r' rs' where "rs = r' # rs'" by (cases rs) auto
    then show ?case using 1 Cons.IH(1) [of "j - 1"] runs_ok_tl [of m r r' rs'] by (cases j) auto
  next
    case 2
    then show ?case
    proof (cases rs)
      case (Cons r' rs')
      then show ?thesis using 2 Cons.IH(2) [of 0] Cons.IH(2) [of "j - 1"] runs_ok_tl [of m r r' rs'] by (cases j) auto
    qed (cases r, simp)
  }
qed simp_all

text \<open>The state of the iterator when it is at the \<open>j\<close>-th run, counted from 1; 0 before the first run.\<close>

definition at_run :: "track \<Rightarrow> nat \<Rightarrow> SampleIterator \<Rightarrow> bool" where
  "at_run tr j it \<longleftrightarrow> j \<le> length (t_runs tr) \<and> mSampleToChunkIndex it = of_nat j \<and>
     mFirstChunkSampleIndex it = of_nat (before (t_runs tr) (j - 1)) \<and>
     mStopChunkSampleIndex it =
       (if j = 0 then 0 else if j < length (t_runs tr) then of_nat (before (t_runs tr) j) else 0xffffffff) \<and>
     (0 < j \<longrightarrow> mFirstChunk it = of_nat (fst (t_runs tr ! (j - 1))) \<and>
                mSamplesPerChunk it = of_nat (fst (snd (t_runs tr ! (j - 1)))) \<and>
                mChunkDesc it = of_nat (snd (snd (t_runs tr ! (j - 1)))) \<and>
                mStopChunk it = (if j < length (t_runs tr) then of_nat (fst (t_runs tr ! j)) else 0xffffffff))"

definition set_run :: "track \<Rightarrow> nat \<Rightarrow> SampleIterator \<Rightarrow> SampleIterator" where
  "set_run tr j it = (case t_runs tr ! (j - 1) of (f, n, d) \<Rightarrow>
     it\<lparr> mFirstChunkSampleIndex := of_nat (before (t_runs tr) (j - 1)), mFirstChunk := of_nat f,
         mSamplesPerChunk := of_nat n, mChunkDesc := of_nat d,
         mStopChunk := (if j < length (t_runs tr) then of_nat (fst (t_runs tr ! j)) else 0xffffffff),
         mStopChunkSampleIndex := (if j < length (t_runs tr) then of_nat (before (t_runs tr) j) else 0xffffffff),
         mSampleToChunkIndex := of_nat j \<rparr>)"

lemma at_set_run: "0 < j \<Longrightarrow> j \<le> length (t_runs tr) \<Longrightarrow> at_run tr j (set_run tr j it)"
  by (simp add: at_run_def set_run_def split: prod.splits)

lemma set_run_id: "at_run tr j it \<Longrightarrow> 0 < j \<Longrightarrow> set_run tr j it = it"
  by (cases it) (simp add: at_run_def set_run_def split: prod.splits)

lemma set_run_twice: "set_run tr j (set_run tr j' it) = set_run tr j it"
  by (simp add: set_run_def split: prod.splits)

lemma table_entry:
  assumes "table_matches rd tb tr" and "j < length (t_runs tr)"
  shows "array_at (mSampleToChunkEntries tb) (of_nat j) = Inr (entry_of (t_runs tr ! j))"
  using assms by (simp add: table_matches_def track_ok_def array_at_def)

lemma chunk_range_step:
  assumes m: "table_matches rd tb tr" and it: "at_run tr j it" and i: "i < length (t_sizes tr)" "mStopChunkSampleIndex it \<le> of_nat i"
  shows "j < length (t_runs tr)" and "chunk_range_loop tb (of_nat i) it = chunk_range_loop tb (of_nat i) (set_run tr (Suc j) it)"
proof -
  define runs where "runs = t_runs tr"
  have ok: "runs_ok (length (t_offsets tr)) runs" "length runs < 4294967296" "length (t_sizes tr) < 4294967296"
    using m by (simp_all add: table_matches_def track_ok_def runs_def)
  have big: "\<not> (0xffffffff :: u32) \<le> of_nat i" using i(1) ok(3) by (simp add: word_le_nat_alt)
  show j: "j < length (t_runs tr)"
    using it i(2) big ok(1) by (auto simp: at_run_def runs_def split: if_splits)
  obtain f n d where r: "runs ! j = (f, n, d)" by (cases "runs ! j")
  have ne: "of_nat j \<noteq> (of_nat (length runs) :: u32)" and lt: "(of_nat j + 1 :: u32) < of_nat (length runs) \<longleftrightarrow> Suc j < length runs"
    using j ok(2) of_nat_u32 [of j "length runs"] of_nat_u32(2) [of "Suc j" "length runs"] by (auto simp: runs_def add.commute)
  have e: "array_at (mSampleToChunkEntries tb) (of_nat j) = Inr (entry_of (f, n, d))"
    using table_entry [OF m j] r by (simp add: runs_def)
  have e1: "Suc j < length runs \<Longrightarrow> array_at (mSampleToChunkEntries tb) (of_nat j + 1) = Inr (entry_of (runs ! Suc j))"
    using table_entry [OF m, of "Suc j"] by (simp add: runs_def add.commute)
  have first: "mStopChunkSampleIndex it = of_nat (before runs j)" "mSampleToChunkIndex it = of_nat j"
    using it j by (simp_all add: at_run_def runs_def)
  have tb: "mNumSampleToChunkOffsets tb = of_nat (length runs)" using m by (simp add: table_matches_def runs_def)
  have stop: "of_nat (before runs j) + (of_nat f' - of_nat f) * of_nat n = (of_nat (before runs (Suc j)) :: u32)"
    if "Suc j < length runs" "runs ! Suc j = (f', n', d')" for f' n' d'
    using runs_ok_nth(1) [OF ok(1) that(1)] that r by (simp add: of_nat_diff)
  obtain f' n' d' where r': "runs ! Suc j = (f', n', d')" by (cases "runs ! Suc j")
  show "chunk_range_loop tb (of_nat i) it = chunk_range_loop tb (of_nat i) (set_run tr (Suc j) it)"
    by (subst chunk_range_loop.simps)
       (use i(2) ne lt e e1 first tb stop r r' in \<open>auto simp: set_run_def runs_def [symmetric] Let_def add.commute\<close>)
qed

lemma before_u32: "table_matches rd tb tr \<Longrightarrow> j < length (t_runs tr) \<Longrightarrow> before (t_runs tr) j < 4294967296"
  using before_less [of "length (t_offsets tr)" "t_runs tr" j]
  by (simp add: table_matches_def track_ok_def samples_per_chunk_def)

lemma at_run_bounds:
  assumes m: "table_matches rd tb tr" and at: "at_run tr j it" and i: "i < length (t_sizes tr)"
  shows "\<not> mStopChunkSampleIndex it \<le> of_nat i \<Longrightarrow> 0 < j \<and> (j < length (t_runs tr) \<longrightarrow> i < before (t_runs tr) j)"
    and "mStopChunkSampleIndex it \<le> of_nat i \<Longrightarrow> j < length (t_runs tr) \<Longrightarrow> before (t_runs tr) j \<le> i"
proof -
  have small: "i < 4294967296" using m i by (simp add: table_matches_def track_ok_def)
  show "0 < j \<and> (j < length (t_runs tr) \<longrightarrow> i < before (t_runs tr) j)" if "\<not> mStopChunkSampleIndex it \<le> of_nat i"
    using that at of_nat_u32(1) [OF before_u32 [OF m, of j] small] by (cases j) (auto simp: at_run_def)
  show "before (t_runs tr) j \<le> i" if "mStopChunkSampleIndex it \<le> of_nat i" "j < length (t_runs tr)"
    using that at of_nat_u32(1) [OF before_u32 [OF m, of j] small] by (cases j) (auto simp: at_run_def)
qed

lemma chunk_range_finds:
  assumes m: "table_matches rd tb tr" and "at_run tr j it" and i: "i < length (t_sizes tr)"
    and "before (t_runs tr) (j - 1) \<le> i"
  shows "\<exists>j'. chunk_range_loop tb (of_nat i) it = Inr (OK, set_run tr j' it) \<and> 0 < j' \<and> j' \<le> length (t_runs tr) \<and>
           before (t_runs tr) (j' - 1) \<le> i \<and> (j' < length (t_runs tr) \<longrightarrow> i < before (t_runs tr) j')"
  using assms(2,4)
proof (induction "length (t_runs tr) - j" arbitrary: j it rule: less_induct)
  case (less j it)
  show ?case
  proof (cases "mStopChunkSampleIndex it \<le> of_nat i")
    case True
    note step = chunk_range_step [OF m less.prems(1) i True]
    have at: "at_run tr (Suc j) (set_run tr (Suc j) it)" using step(1) by (intro at_set_run) simp_all
    have "length (t_runs tr) - Suc j < length (t_runs tr) - j" using step(1) by simp
    from less.hyps [OF this at] at_run_bounds(2) [OF m less.prems(1) i True step(1)]
    show ?thesis unfolding step(2) set_run_twice by auto
  next
    case False
    note b = at_run_bounds(1) [OF m less.prems(1) i False]
    have "chunk_range_loop tb (of_nat i) it = Inr (OK, set_run tr j it)"
      using False set_run_id [OF less.prems(1)] b by (subst chunk_range_loop.simps) auto
    then show ?thesis using b less.prems by (auto simp: at_run_def)
  qed
qed

subsection \<open>Runs of durations\<close>

text \<open>Samples and time before the \<open>k\<close>-th run.\<close>

definition tts_index :: "(nat \<times> nat) list \<Rightarrow> nat \<Rightarrow> nat" where
  "tts_index ts k = sum_list (map fst (take k ts))"

definition tts_time :: "(nat \<times> nat) list \<Rightarrow> nat \<Rightarrow> nat" where
  "tts_time ts k = sum_list (map (\<lambda>(n, d). n * d) (take k ts))"

lemma tts_Suc: "k < length ts \<Longrightarrow> tts_index ts (Suc k) = tts_index ts k + fst (ts ! k)"
  "k < length ts \<Longrightarrow> tts_time ts (Suc k) = tts_time ts k + fst (ts ! k) * snd (ts ! k)"
  by (simp_all add: tts_index_def tts_time_def take_Suc_conv_app_nth case_prod_unfold)

lemma tts_index_mono: "tts_index ts k \<le> sum_list (map fst ts)"
proof -
  have "sum_list (map fst ts) = tts_index ts k + sum_list (map fst (drop k ts))"
    unfolding tts_index_def by (metis append_take_drop_id map_append sum_list_append)
  then show ?thesis by simp
qed

lemma sum_list_concat: "sum_list (concat xss) = sum_list (map sum_list (xss :: nat list list))"
  by (induction xss) simp_all

lemma time_in_run:
  assumes "k < length ts" and "tts_index ts k \<le> i" and "i \<le> tts_index ts (Suc k)"
  shows "sum_list (take i (durations ts)) = tts_time ts k + snd (ts ! k) * (i - tts_index ts k)"
proof -
  have d: "durations ts = durations (take k ts) @ replicate (fst (ts ! k)) (snd (ts ! k)) @ durations (drop (Suc k) ts)"
    unfolding durations_def using id_take_nth_drop [OF assms(1)]
    by (metis (no_types, lifting) concat.simps(2) concat_append list.simps(9) map_append case_prod_unfold)
  have l: "length (durations (take k ts)) = tts_index ts k" "sum_list (durations (take k ts)) = tts_time ts k" for k
    by (simp_all add: durations_def tts_index_def tts_time_def length_concat sum_list_concat comp_def case_prod_unfold sum_list_replicate)
  have "i - tts_index ts k \<le> fst (ts ! k)" using assms(3) tts_Suc(1) [OF assms(1)] by simp
  then show ?thesis
    unfolding d using assms l [of k] tts_Suc(1) [OF assms(1)] by (simp add: sum_list_replicate mult.commute min_def)
qed

definition at_time :: "track \<Rightarrow> nat \<Rightarrow> SampleIterator \<Rightarrow> bool" where
  "at_time tr k it \<longleftrightarrow> k \<le> length (t_times tr) \<and> mTimeToSampleIndex it = of_nat k \<and>
     mTTSSampleIndex it = of_nat (tts_index (t_times tr) (k - 1)) \<and> mTTSSampleTime it = of_nat (tts_time (t_times tr) (k - 1)) \<and>
     mTTSCount it = (if k = 0 then 0 else of_nat (fst (t_times tr ! (k - 1)))) \<and>
     mTTSDuration it = (if k = 0 then 0 else of_nat (snd (t_times tr ! (k - 1))))"

definition set_time :: "track \<Rightarrow> nat \<Rightarrow> SampleIterator \<Rightarrow> SampleIterator" where
  "set_time tr k it =
     it\<lparr> mTTSSampleIndex := of_nat (tts_index (t_times tr) (k - 1)), mTTSSampleTime := of_nat (tts_time (t_times tr) (k - 1)),
         mTTSCount := of_nat (fst (t_times tr ! (k - 1))), mTTSDuration := of_nat (snd (t_times tr ! (k - 1))),
         mTimeToSampleIndex := of_nat k \<rparr>"

lemma at_set_time: "0 < k \<Longrightarrow> k \<le> length (t_times tr) \<Longrightarrow> at_time tr k (set_time tr k it)"
  by (simp add: at_time_def set_time_def)

lemma set_time_id: "at_time tr k it \<Longrightarrow> 0 < k \<Longrightarrow> set_time tr k it = it"
  by (cases it) (simp add: at_time_def set_time_def)

lemma set_time_twice: "set_time tr k (set_time tr k' it) = set_time tr k it"
  by (simp add: set_time_def)

lemma at_time_next:
  assumes "at_time tr k it"
  shows "mTTSSampleIndex it + mTTSCount it = of_nat (tts_index (t_times tr) k)"
    and "mTTSSampleTime it + mTTSCount it * mTTSDuration it = of_nat (tts_time (t_times tr) k)"
  using assms tts_Suc [of "k - 1" "t_times tr"] by (cases k; simp add: at_time_def tts_index_def tts_time_def)+

lemma nth_pairs:
  "k < length ts \<Longrightarrow> concat (map (\<lambda>(n, d). [f n, g d]) ts) ! (2 * k) = f (fst (ts ! k)) \<and>
     concat (map (\<lambda>(n, d). [f n, g d]) ts) ! (2 * k + 1) = g (snd (ts ! k))"
proof (induction ts arbitrary: k)
  case (Cons t ts)
  then show ?case by (cases k) (auto split: prod.splits)
qed simp

lemma length_pairs: "length (concat (map (\<lambda>(n, d). [f n, g d]) ts)) = 2 * length ts"
  by (simp add: length_concat comp_def case_prod_unfold sum_list_triv)

lemma table_times:
  assumes m: "table_matches rd tb tr" and k: "k < length (t_times tr)"
  shows "array_at (mTimeToSample tb) (2 * of_nat k) = Inr (of_nat (fst (t_times tr ! k)))"
    and "array_at (mTimeToSample tb) (2 * of_nat k + 1) = Inr (of_nat (snd (t_times tr ! k)))"
proof -
  have l: "length (t_times tr) < 2147483648" and
    t: "mTimeToSample tb = Some (concat (map (\<lambda>(n, delta). [of_nat n, of_nat delta]) (t_times tr)))"
    using m by (simp_all add: table_matches_def track_ok_def)
  have u: "unat (2 * of_nat k :: u32) = 2 * k" "unat (2 * of_nat k + 1 :: u32) = 2 * k + 1"
    using unat_of_nat_u32 [of "2 * k"] unat_of_nat_u32 [of "2 * k + 1"] k l by (simp_all add: add.commute)
  show "array_at (mTimeToSample tb) (2 * of_nat k) = Inr (of_nat (fst (t_times tr ! k)))"
    and "array_at (mTimeToSample tb) (2 * of_nat k + 1) = Inr (of_nat (snd (t_times tr ! k)))"
    using nth_pairs [OF k, of "of_nat :: nat \<Rightarrow> u32" "of_nat :: nat \<Rightarrow> u32"] k by (simp_all add: array_at_def t u length_pairs)
qed

lemma sample_time_finds:
  assumes m: "table_matches rd tb tr" and "at_time tr k it" and i: "i < length (t_sizes tr)"
    and "tts_index (t_times tr) (k - 1) \<le> i"
  shows "\<exists>k'. sample_time_loop tb (of_nat i) it = Inr (OK, set_time tr k' it) \<and> 0 < k' \<and> k' \<le> length (t_times tr) \<and>
           tts_index (t_times tr) (k' - 1) \<le> i \<and> i < tts_index (t_times tr) k'"
  using assms(2,4)
proof (induction "length (t_times tr) - k" arbitrary: k it rule: less_induct)
  case (less k it)
  define ts where "ts = t_times tr"
  have total: "sum_list (map fst ts) < 4294967296" "i < sum_list (map fst ts)" "length ts < 4294967296"
    using m i by (auto simp: table_matches_def track_ok_def ts_def)
  have cmp: "mTTSSampleIndex it + mTTSCount it \<le> of_nat i \<longleftrightarrow> tts_index ts k \<le> i"
    using at_time_next(1) [OF less.prems(1)] of_nat_u32(1) [of "tts_index ts k" i] tts_index_mono [of ts k] total
    by (simp add: ts_def)
  show ?case
  proof (cases "tts_index ts k \<le> i")
    case True
    have k: "k < length ts"
    proof (rule ccontr)
      assume "\<not> k < length ts"
      then have "tts_index ts k = sum_list (map fst ts)" by (simp add: tts_index_def)
      then show False using True total(2) by simp
    qed
    have ne: "of_nat k \<noteq> (of_nat (length ts) :: u32)" using k total(3) of_nat_u32(3) [of k "length ts"] by simp
    have step: "sample_time_loop tb (of_nat i) it = sample_time_loop tb (of_nat i) (set_time tr (Suc k) it)"
      by (subst sample_time_loop.simps)
         (use cmp True ne k table_times [OF m, of k] at_time_next [OF less.prems(1)] less.prems(1) m
          in \<open>simp add: set_time_def ts_def at_time_def table_matches_def add.commute\<close>)
    have at: "at_time tr (Suc k) (set_time tr (Suc k) it)" using k by (intro at_set_time) (simp_all add: ts_def)
    have "length (t_times tr) - Suc k < length (t_times tr) - k" using k by (simp add: ts_def)
    from less.hyps [OF this at] True show ?thesis unfolding step set_time_twice by (simp add: ts_def)
  next
    case False
    then have k: "0 < k" by (cases k) (auto simp: tts_index_def)
    have "sample_time_loop tb (of_nat i) it = Inr (OK, set_time tr k it)"
      using False cmp set_time_id [OF less.prems(1) k] by (subst sample_time_loop.simps) simp
    then show ?thesis using False k less.prems by (auto simp: ts_def at_time_def)
  qed
qed

subsection \<open>Seeking is exact\<close>

definition chunk_sizes :: "track \<Rightarrow> nat \<Rightarrow> nat list" where
  "chunk_sizes tr c = take (samples_per_chunk tr ! c) (drop (sum_list (take c (samples_per_chunk tr))) (t_sizes tr))"

text \<open>The iterator holds a chunk, and the data of a sample.\<close>

definition at_chunk :: "track \<Rightarrow> nat \<Rightarrow> SampleIterator \<Rightarrow> bool" where
  "at_chunk tr c it \<longleftrightarrow> c < length (t_offsets tr) \<and> mCurrentChunkIndex it = of_nat c \<and>
     mCurrentChunkOffset it = s32 (int (t_offsets tr ! c)) \<and> mCurrentChunkSampleSizes it = map of_nat (chunk_sizes tr c)"

definition at_sample :: "track \<Rightarrow> nat \<Rightarrow> SampleIterator \<Rightarrow> bool" where
  "at_sample tr i it \<longleftrightarrow> i < length (t_sizes tr) \<and> mCurrentSampleIndex it = of_nat i \<and>
     mCurrentSampleOffset it = s32 (int (sample_offset tr i)) \<and> mCurrentSampleSize it = of_nat (t_sizes tr ! i) \<and>
     mCurrentSampleTime it = of_nat (sample_time tr i)"

definition iter_inv :: "track \<Rightarrow> SampleIterator \<Rightarrow> bool" where
  "iter_inv tr it \<longleftrightarrow> (\<exists>k. at_time tr k it) \<and>
     (mInitialized it \<longrightarrow> (\<exists>j > 0. at_run tr j it) \<and> (\<exists>c. at_chunk tr c it) \<and> (\<exists>i. at_sample tr i it))"

lemma new_inv: "iter_inv tr (SampleIterator_new junk)"
proof -
  have "at_time tr 0 (SampleIterator_new junk)"
    by (simp add: at_time_def SampleIterator_new_def reset_def tts_index_def tts_time_def)
  moreover have "\<not> mInitialized (SampleIterator_new junk)" by (simp add: SampleIterator_new_def reset_def)
  ultimately show ?thesis unfolding iter_inv_def by blast
qed

lemma load_sizes_ok:
  assumes m: "table_matches rd tb tr"
  shows "a + k \<le> length (t_sizes tr) \<Longrightarrow>
    load_sizes rd tb (of_nat a) k acc = Inr (OK, acc @ map of_nat (take k (drop a (t_sizes tr))))"
proof (induction k arbitrary: a acc)
  case (Suc k)
  have "getSampleSizeDirect rd tb (of_nat a) = Inr (OK, of_nat (t_sizes tr ! a))"
    using m Suc.prems by (simp add: table_matches_def)
  moreover have "take (Suc k) (drop a (t_sizes tr)) = t_sizes tr ! a # take k (drop (Suc a) (t_sizes tr))"
    using Suc.prems by (simp add: Cons_nth_drop_Suc [symmetric])
  ultimately show ?case using Suc.IH [of "Suc a"] Suc.prems by (simp add: add.commute)
qed simp

lemma fold_offset:
  "(\<forall>n \<in> set ns. n < 4294967296) \<Longrightarrow>
   fold (\<lambda>s off. s32 (off + uint (s :: u32))) (map of_nat ns) (s32 z) = s32 (z + int (sum_list ns))"
proof (induction ns arbitrary: z)
  case (Cons n ns)
  have "uint (of_nat n :: u32) = int n" using Cons.prems by (simp add: uint_nat)
  then show ?case using Cons by (simp add: s32_add add.assoc)
qed simp

text \<open>What the run of a sample tells of its chunk, on natural numbers and in the words of the iterator.\<close>

lemma length_per_chunk: "runs_ok m runs \<Longrightarrow> length (per_chunk m runs) = m - fst (hd runs)"
proof (induction m runs rule: per_chunk.induct)
  case (3 m f n d f' r rs)
  then have "f' < m" using runs_ok_nth(2) [of m "(f', r) # rs" 0] by simp
  then show ?case using 3 by simp
qed auto

lemma sum_take_nth: "c < length ns \<Longrightarrow> sum_list (take c ns) + ns ! c \<le> sum_list (ns :: nat list)"
  by (metis append_take_drop_id le_add1 sum_list_append sum_list.Cons sum_list.Nil take_Suc_conv_app_nth add_0_right)

lemma located_nat:
  assumes ok: "track_ok tr" and i: "i < length (t_sizes tr)" and q: "q < length (t_runs tr)" "t_runs tr ! q = (f, n, d)"
    and b: "before (t_runs tr) q \<le> i" "Suc q < length (t_runs tr) \<longrightarrow> i < before (t_runs tr) (Suc q)"
  obtains c k where "locate (samples_per_chunk tr) i = (c, k)" "samples_per_chunk tr ! c = n" "c < length (t_offsets tr)"
    "c = (i - before (t_runs tr) q) div n + f" "k = (i - before (t_runs tr) q) mod n" "0 < n" "k < n"
    "sum_list (take c (samples_per_chunk tr)) = before (t_runs tr) q + n * (c - f)"
    "i = sum_list (take c (samples_per_chunk tr)) + k" "sum_list (take c (samples_per_chunk tr)) + n \<le> length (t_sizes tr)"
proof -
  have t: "runs_ok (length (t_offsets tr)) (t_runs tr)" "fst (hd (t_runs tr)) = 0" "sum_list (samples_per_chunk tr) = length (t_sizes tr)"
    using ok by (auto simp: track_ok_def)
  define k where "k = (i - before (t_runs tr) q) mod n"
  obtain c where c: "c = f + (i - before (t_runs tr) q) div n" "locate (samples_per_chunk tr) i = (c, k)" "samples_per_chunk tr ! c = n"
    using locate_runs [OF t(1) q(1) b] i t(2,3) q(2) by (auto simp: samples_per_chunk_def k_def)
  have bounds: "c < length (samples_per_chunk tr)" "k < n" "i = sum_list (take c (samples_per_chunk tr)) + k"
    using locate_bounds [OF _ c(2)] i t(3) c(3) by auto
  have "i - before (t_runs tr) q = n * (c - f) + k" using c(1) by (simp add: k_def)
  then have sum: "sum_list (take c (samples_per_chunk tr)) = before (t_runs tr) q + n * (c - f)" using bounds(3) b(1) by simp
  have c': "c < length (t_offsets tr)" "c = (i - before (t_runs tr) q) div n + f"
    using bounds(1) length_per_chunk [OF t(1)] t(2) c(1) by (simp_all add: samples_per_chunk_def)
  have "0 < n" using bounds(2) by simp
  moreover have "sum_list (take c (samples_per_chunk tr)) + n \<le> length (t_sizes tr)"
    using sum_take_nth [OF bounds(1)] unfolding t(3) c(3) .
  ultimately show ?thesis using that [OF c(2,3) c' k_def _ bounds(2) sum bounds(3)] by blast
qed

lemma located:
  assumes m: "table_matches rd tb tr" and i: "i < length (t_sizes tr)" and at: "at_run tr j it" "0 < j"
    and b: "before (t_runs tr) (j - 1) \<le> i" "j < length (t_runs tr) \<longrightarrow> i < before (t_runs tr) j"
  obtains c k n where "locate (samples_per_chunk tr) i = (c, k)" "samples_per_chunk tr ! c = n" "c < length (t_offsets tr)"
    "(of_nat i - mFirstChunkSampleIndex it) div mSamplesPerChunk it + mFirstChunk it = of_nat c"
    "unat ((of_nat i - mFirstChunkSampleIndex it) mod mSamplesPerChunk it) = k" "unat (mSamplesPerChunk it) = n" "0 < n"
    "mFirstChunkSampleIndex it + mSamplesPerChunk it * (of_nat c - mFirstChunk it) = of_nat (sum_list (take c (samples_per_chunk tr)))"
    "k < n" "i = sum_list (take c (samples_per_chunk tr)) + k" "sum_list (take c (samples_per_chunk tr)) + n \<le> length (t_sizes tr)"
proof -
  obtain f n d where r: "t_runs tr ! (j - 1) = (f, n, d)" by (cases "t_runs tr ! (j - 1)")
  have ok: "track_ok tr" and j: "j - 1 < length (t_runs tr)" using m at by (auto simp: table_matches_def at_run_def)
  define B where "B = before (t_runs tr) (j - 1)"
  obtain c k where c: "locate (samples_per_chunk tr) i = (c, k)" "samples_per_chunk tr ! c = n" "c < length (t_offsets tr)"
    "c = (i - B) div n + f" "k = (i - B) mod n" "0 < n" "k < n" "sum_list (take c (samples_per_chunk tr)) = B + n * (c - f)"
    "i = sum_list (take c (samples_per_chunk tr)) + k" "sum_list (take c (samples_per_chunk tr)) + n \<le> length (t_sizes tr)"
    using located_nat [OF ok i j r] b at(2) unfolding B_def by (metis Suc_pred')
  have small: "i < 4294967296" "n < 4294967296" "B \<le> i" using ok c(10) i b(1) by (auto simp: track_ok_def B_def)
  have it: "mFirstChunkSampleIndex it = of_nat B" "mFirstChunk it = of_nat f" "mSamplesPerChunk it = of_nat n"
    using at r by (simp_all add: at_run_def B_def)
  have d: "of_nat i - of_nat B = (of_nat (i - B) :: u32)" using small(3) by (simp add: of_nat_diff)
  have u: "unat (of_nat (i - B) :: u32) = i - B" using small by (simp del: of_nat_diff)
  have w: "(of_nat (i - B) :: u32) div of_nat n = of_nat ((i - B) div n)" "unat ((of_nat (i - B) :: u32) mod of_nat n) = (i - B) mod n"
    using small u by (simp_all add: word_unat_eq_iff unat_div unat_mod order.strict_trans1 [OF div_le_dividend] del: of_nat_diff)
  show ?thesis
  proof (rule that [OF c(1-3) _ _ _ c(6) _ c(7,9,10)])
    show "(of_nat i - mFirstChunkSampleIndex it) div mSamplesPerChunk it + mFirstChunk it = of_nat c"
      unfolding it d w(1) by (simp only: c(4) of_nat_add)
    show "unat ((of_nat i - mFirstChunkSampleIndex it) mod mSamplesPerChunk it) = k" unfolding it d w(2) c(5) ..
    show "unat (mSamplesPerChunk it) = n" using it(3) small(2) by simp
    have "of_nat c - of_nat f = (of_nat (c - f) :: u32)" using c(4) by (simp add: of_nat_diff)
    then show "mFirstChunkSampleIndex it + mSamplesPerChunk it * (of_nat c - mFirstChunk it) = of_nat (sum_list (take c (samples_per_chunk tr)))"
      unfolding it c(8) by (simp only: of_nat_add of_nat_mult)
  qed
qed

definition set_chunk :: "track \<Rightarrow> nat \<Rightarrow> SampleIterator \<Rightarrow> SampleIterator" where
  "set_chunk tr c it =
     it\<lparr> mCurrentChunkIndex := of_nat c, mCurrentChunkOffset := s32 (int (t_offsets tr ! c)),
         mCurrentChunkSampleSizes := map of_nat (chunk_sizes tr c) \<rparr>"

lemma enter_chunk_ok:
  assumes m: "table_matches rd tb tr" and c: "c < length (t_offsets tr)" and cached: "mInitialized it \<Longrightarrow> \<exists>c. at_chunk tr c it"
    and n: "unat (mSamplesPerChunk it) = samples_per_chunk tr ! c"
    and start: "mFirstChunkSampleIndex it + mSamplesPerChunk it * (of_nat c - mFirstChunk it) =
      of_nat (sum_list (take c (samples_per_chunk tr)))"
      "sum_list (take c (samples_per_chunk tr)) + samples_per_chunk tr ! c \<le> length (t_sizes tr)"
  shows "enter_chunk rd tb (of_nat c) it = Inr (OK, set_chunk tr c it)"
proof (cases "mInitialized it \<and> of_nat c = mCurrentChunkIndex it")
  case True
  then obtain c' where c': "at_chunk tr c' it" using cached by blast
  have "length (t_offsets tr) < 4294967296" using m by (simp add: table_matches_def track_ok_def)
  then have small: "c < 4294967296" "c' < 4294967296" using c c' by (simp_all add: at_chunk_def)
  have "of_nat c = mCurrentChunkIndex it" using True by blast
  also have "\<dots> = of_nat c'" using c' by (simp only: at_chunk_def)
  finally have "c' = c" unfolding of_nat_u32(3) [OF small] by (rule sym)
  then have "set_chunk tr c it = it" using c' by (cases it) (simp add: at_chunk_def set_chunk_def)
  then show ?thesis using True by (simp add: enter_chunk_def)
next
  case False
  have off: "getChunkOffset rd tb (of_nat c) = Inr (OK, s32 (int (t_offsets tr ! c)))" using m c by (simp add: table_matches_def)
  have load: "load_sizes rd tb (of_nat (sum_list (take c (samples_per_chunk tr)))) (samples_per_chunk tr ! c) [] =
      Inr (OK, map of_nat (chunk_sizes tr c))"
    using load_sizes_ok [OF m start(2), of "[]"] by (simp only: chunk_sizes_def append_Nil)
  have "(\<not> (\<not> mInitialized it \<or> of_nat c \<noteq> mCurrentChunkIndex it)) = False" using False by simp
  then show ?thesis
    unfolding enter_chunk_def by (simp add: Let_def off n start(1) load set_chunk_def)
qed

lemma findSampleTime_ok:
  assumes m: "table_matches rd tb tr" and at: "at_time tr k it" and i: "i < length (t_sizes tr)" "mTTSSampleIndex it \<le> of_nat i"
  shows "\<exists>k'. 0 < k' \<and> k' \<le> length (t_times tr) \<and>
    findSampleTime tb (of_nat i) it = Inr (OK, (set_time tr k' it)\<lparr> mCurrentSampleTime := of_nat (sample_time tr i) \<rparr>)"
proof -
  define ts where "ts = t_times tr"
  have s: "i < 4294967296" "sum_list (map fst ts) < 4294967296" "\<not> mNumSampleSizes tb \<le> of_nat i"
    using m i(1) of_nat_u32(1) [of "length (t_sizes tr)" i] by (auto simp: table_matches_def track_ok_def ts_def)
  have "tts_index ts (k - 1) \<le> i"
    using at i(2) of_nat_u32(1) [of "tts_index ts (k - 1)" i] tts_index_mono [of ts "k - 1"] s by (simp add: at_time_def ts_def)
  from sample_time_finds [OF m at i(1)] this obtain k' where
    k': "sample_time_loop tb (of_nat i) it = Inr (OK, set_time tr k' it)" "0 < k'" "k' \<le> length ts"
      "tts_index ts (k' - 1) \<le> i" "i < tts_index ts k'" by (auto simp: ts_def)
  have "sample_time tr i = tts_time ts (k' - 1) + snd (ts ! (k' - 1)) * (i - tts_index ts (k' - 1))"
    using time_in_run [of "k' - 1" ts i] k' by (simp add: sample_time_def ts_def)
  then have "of_nat (tts_time ts (k' - 1)) + of_nat (snd (ts ! (k' - 1))) * (of_nat i - of_nat (tts_index ts (k' - 1))) =
      (of_nat (sample_time tr i) :: u32)"
    using k'(4) by (simp add: of_nat_diff)
  then show ?thesis using k' s(3) by (auto simp: findSampleTime_def set_time_def ts_def)
qed

lemma set_current_ok:
  assumes m: "table_matches rd tb tr" and i: "i < length (t_sizes tr)" and time: "\<exists>k. at_time tr k it"
    and at: "at_run tr j it" "at_chunk tr c it"
    and loc: "locate (samples_per_chunk tr) i = (c, k)" "k < samples_per_chunk tr ! c" "i = sum_list (take c (samples_per_chunk tr)) + k"
      "sum_list (take c (samples_per_chunk tr)) + samples_per_chunk tr ! c \<le> length (t_sizes tr)"
    and k: "unat ((of_nat i - mFirstChunkSampleIndex it) mod mSamplesPerChunk it) = k"
  shows "\<exists>it'. set_current tb (of_nat i) it = Inr (OK, it') \<and> mInitialized it' \<and> at_sample tr i it' \<and> at_run tr j it' \<and>
    at_chunk tr c it' \<and> (\<exists>k. at_time tr k it')"
proof -
  define start where "start = sum_list (take c (samples_per_chunk tr))"
  define it1 where "it1 = it\<lparr> mCurrentSampleOffset := s32 (int (sample_offset tr i)), mCurrentSampleSize := of_nat (t_sizes tr ! i) \<rparr>"
  define it2 where "it2 = (if of_nat i < mTTSSampleIndex it then
      it1\<lparr> mTimeToSampleIndex := 0, mTTSSampleIndex := 0, mTTSSampleTime := 0, mTTSCount := 0, mTTSDuration := 0 \<rparr> else it1)"
  have cs: "chunk_sizes tr c ! k = t_sizes tr ! i" "k < length (chunk_sizes tr c)" "take k (chunk_sizes tr c) = take k (drop start (t_sizes tr))"
    using loc by (auto simp: chunk_sizes_def start_def min_def)
  have "\<forall>n \<in> set (take k (chunk_sizes tr c)). n < 4294967296"
    using m by (auto simp: table_matches_def track_ok_def chunk_sizes_def dest!: in_set_takeD in_set_dropD)
  note off = fold_offset [OF this, of "int (t_offsets tr ! c)"]
  have so: "sample_offset tr i = t_offsets tr ! c + sum_list (take k (chunk_sizes tr c))"
    using loc(1,3) cs(3) by (simp add: sample_offset_def start_def)
  have "set_current tb (of_nat i) it = (case findSampleTime tb (of_nat i) it2 of Inl e \<Rightarrow> Inl e | Inr (st, it) \<Rightarrow>
      if st \<noteq> OK then Inr (st, it) else Inr (OK, it\<lparr> mCurrentSampleIndex := of_nat i, mInitialized := True \<rparr>))"
    using at(2) cs off so by (simp add: set_current_def Let_def k at_chunk_def it2_def it1_def take_map)
  moreover have "\<exists>k. at_time tr k it2 \<and> mTTSSampleIndex it2 \<le> of_nat i"
    using time by (auto simp: it2_def it1_def at_time_def tts_index_def tts_time_def not_less intro: exI [of _ 0])
  then obtain k' where k': "0 < k'" "k' \<le> length (t_times tr)"
    "findSampleTime tb (of_nat i) it2 = Inr (OK, (set_time tr k' it2)\<lparr> mCurrentSampleTime := of_nat (sample_time tr i) \<rparr>)"
    using findSampleTime_ok [OF m _ i] by blast
  moreover have "at_time tr k' (set_time tr k' it2)" using k' by (intro at_set_time)
  ultimately show ?thesis using at i
    by (auto simp: at_sample_def at_run_def at_chunk_def at_time_def set_time_def it2_def it1_def intro!: exI [of _ k'])
qed

text \<open>The fields that finding the run leaves alone.\<close>

lemma run_frame:
  "mInitialized (set_run tr j it) = mInitialized it" "at_chunk tr c (set_run tr j it) = at_chunk tr c it"
  "at_time tr k (set_run tr j it) = at_time tr k it" "mInitialized (reset it) = mInitialized it"
  "at_chunk tr c (reset it) = at_chunk tr c it" "at_time tr k (reset it) = at_time tr k it"
  by (simp_all add: set_run_def reset_def at_chunk_def at_time_def split: prod.splits)

lemma seek_run:
  assumes m: "table_matches rd tb tr" and i: "i < length (t_sizes tr)" and inv: "iter_inv tr it"
    and it1: "it1 = (if \<not> mInitialized it \<or> of_nat i < mFirstChunkSampleIndex it then reset it else it)"
  shows "\<exists>it2 j. (if of_nat i \<ge> mStopChunkSampleIndex it1 then findChunkRange tb (of_nat i) it1 else Inr (OK, it1)) = Inr (OK, it2) \<and>
      0 < j \<and> at_run tr j it2 \<and> before (t_runs tr) (j - 1) \<le> i \<and> (j < length (t_runs tr) \<longrightarrow> i < before (t_runs tr) j) \<and>
      of_nat i < mStopChunkSampleIndex it2 \<and> mInitialized it2 = mInitialized it \<and> (\<forall>c. at_chunk tr c it2 = at_chunk tr c it) \<and>
      (\<forall>k. at_time tr k it2 = at_time tr k it)"
proof -
  have i32: "i < 4294967296" using m i by (simp add: table_matches_def track_ok_def)
  have "\<exists>j. at_run tr j it1 \<and> before (t_runs tr) (j - 1) \<le> i"
  proof (cases "\<not> mInitialized it \<or> of_nat i < mFirstChunkSampleIndex it")
    case True
    then have "at_run tr 0 it1" by (simp add: it1 at_run_def reset_def)
    then show ?thesis by (intro exI [of _ 0]) simp
  next
    case False
    then obtain j where "0 < j" and j: "at_run tr j it1" using inv by (auto simp: iter_inv_def it1)
    then have "j - 1 < length (t_runs tr)" by (auto simp: at_run_def)
    note lt = of_nat_u32(2) [OF i32 before_u32 [OF m this]]
    have "mFirstChunkSampleIndex it1 = of_nat (before (t_runs tr) (j - 1))" using j by (simp only: at_run_def)
    then have "\<not> (of_nat i :: u32) < of_nat (before (t_runs tr) (j - 1))" using False it1 by (metis (full_types))
    then show ?thesis using j lt by (auto simp only: not_less)
  qed
  then obtain j where j: "at_run tr j it1" "before (t_runs tr) (j - 1) \<le> i" by blast
  have ge: "\<not> of_nat i < mFirstChunkSampleIndex it1" using j of_nat_u32(2) [OF i32, of "before (t_runs tr) (j - 1)"] i32
    by (simp add: at_run_def)
  obtain j' where j': "chunk_range_loop tb (of_nat i) it1 = Inr (OK, set_run tr j' it1)" "0 < j'" "j' \<le> length (t_runs tr)"
      "before (t_runs tr) (j' - 1) \<le> i" "j' < length (t_runs tr) \<longrightarrow> i < before (t_runs tr) j'"
    using chunk_range_finds [OF m j(1) i j(2)] by blast
  have at: "at_run tr j' (set_run tr j' it1)" using j' by (intro at_set_run)
  have "findChunkRange tb (of_nat i) it1 = Inr (OK, set_run tr j' it1)" using ge j'(1) by (simp add: findChunkRange_def not_less)
  moreover have "set_run tr j' it1 = it1" if "\<not> of_nat i \<ge> mStopChunkSampleIndex it1"
    using that j'(1) by (subst (asm) chunk_range_loop.simps) simp
  moreover have "of_nat i < mStopChunkSampleIndex (set_run tr j' it1)"
    using j'(5) i i32 of_nat_u32(2) [OF i32, of "before (t_runs tr) j'"] before_u32 [OF m, of j'] m
    by (auto simp: set_run_def word_less_nat_alt table_matches_def track_ok_def split: prod.splits)
  ultimately show ?thesis using j' at it1 by (intro exI [of _ "set_run tr j' it1"] exI [of _ j']) (auto simp: run_frame)
qed

lemma seek_chunk:
  assumes m: "table_matches rd tb tr" and i: "i < length (t_sizes tr)" and at: "at_run tr j it" "0 < j"
    and b: "before (t_runs tr) (j - 1) \<le> i" "j < length (t_runs tr) \<longrightarrow> i < before (t_runs tr) j"
    and cached: "mInitialized it \<Longrightarrow> \<exists>c. at_chunk tr c it" and time: "\<exists>k. at_time tr k it"
  shows "\<exists>it'. (if mSamplesPerChunk it = 0 then Inl DivideByZero
      else case enter_chunk rd tb ((of_nat i - mFirstChunkSampleIndex it) div mSamplesPerChunk it + mFirstChunk it) it of
             Inl e \<Rightarrow> Inl e | Inr (st, it) \<Rightarrow> if st \<noteq> OK then Inr (st, it) else set_current tb (of_nat i) it) = Inr (OK, it') \<and>
      iter_inv tr it' \<and> at_sample tr i it'"
  using m i at b
proof (rule located)
  fix c k n
  assume loc: "locate (samples_per_chunk tr) i = (c, k)" "samples_per_chunk tr ! c = n" "c < length (t_offsets tr)"
    "(of_nat i - mFirstChunkSampleIndex it) div mSamplesPerChunk it + mFirstChunk it = of_nat c"
    "unat ((of_nat i - mFirstChunkSampleIndex it) mod mSamplesPerChunk it) = k" "unat (mSamplesPerChunk it) = n" "0 < n"
    "mFirstChunkSampleIndex it + mSamplesPerChunk it * (of_nat c - mFirstChunk it) = of_nat (sum_list (take c (samples_per_chunk tr)))"
    "k < n" "i = sum_list (take c (samples_per_chunk tr)) + k" "sum_list (take c (samples_per_chunk tr)) + n \<le> length (t_sizes tr)"
  define it2 where "it2 = set_chunk tr c it"
  have n: "unat (mSamplesPerChunk it) = samples_per_chunk tr ! c" "mSamplesPerChunk it \<noteq> 0" using loc(2,6,7) by auto
  have enter: "enter_chunk rd tb (of_nat c) it = Inr (OK, it2)"
    unfolding it2_def using enter_chunk_ok [OF m loc(3) cached n(1) loc(8)] loc(2,11) by simp
  have it2: "at_run tr j it2" "at_chunk tr c it2" "\<exists>k. at_time tr k it2"
    "unat ((of_nat i - mFirstChunkSampleIndex it2) mod mSamplesPerChunk it2) = k"
    using at(1) loc(3,5) time by (auto simp: it2_def set_chunk_def at_run_def at_chunk_def at_time_def)
  obtain it' where "set_current tb (of_nat i) it2 = Inr (OK, it')" "mInitialized it'" "at_sample tr i it'" "at_run tr j it'"
      "at_chunk tr c it'" "\<exists>k. at_time tr k it'"
    using set_current_ok [OF m i it2(3,1,2) loc(1) _ loc(10) _ it2(4)] loc(2,9,11) by blast
  then show ?thesis using enter n(2) at(2) unfolding loc(4) iter_inv_def by (intro exI [of _ it']) auto
qed

lemma table_guards:
  assumes m: "table_matches rd tb tr" and i: "i < length (t_sizes tr)"
  shows "\<not> mNumSampleSizes tb \<le> of_nat i" "\<not> mSampleToChunkOffset tb < 0" "\<not> mChunkOffsetOffset tb < 0" "\<not> mSampleSizeOffset tb < 0"
    "mTimeToSampleCount tb \<noteq> 0"
proof -
  have "0 < length (t_times tr)" "length (t_times tr) < 4294967296" using m by (auto simp: table_matches_def track_ok_def)
  then show "mTimeToSampleCount tb \<noteq> 0" using m of_nat_u32(3) [of "length (t_times tr)" 0] by (auto simp: table_matches_def)
  show "\<not> mNumSampleSizes tb \<le> of_nat i"
    using m i of_nat_u32(1) [of "length (t_sizes tr)" i] by (simp add: table_matches_def track_ok_def)
qed (use m in \<open>simp_all add: table_matches_def\<close>)

lemma seekTo_exact:
  assumes m: "table_matches rd tb tr" and i: "i < length (t_sizes tr)" and inv: "iter_inv tr it"
  shows "\<exists>it'. seekTo rd tb (of_nat i) it = Inr (OK, it') \<and> iter_inv tr it' \<and> at_sample tr i it'"
proof (cases "mInitialized it \<and> mCurrentSampleIndex it = of_nat i")
  case True
  then obtain i' where i': "at_sample tr i' it" using inv by (auto simp: iter_inv_def)
  have "length (t_sizes tr) < 4294967296" using m by (simp add: table_matches_def track_ok_def)
  then have small: "i' < 4294967296" "i < 4294967296" using i i' by (simp_all add: at_sample_def)
  have "of_nat i' = mCurrentSampleIndex it" using i' by (simp only: at_sample_def)
  also have "\<dots> = of_nat i" using True by blast
  finally have "i' = i" unfolding of_nat_u32(3) [OF small] .
  moreover have "seekTo rd tb (of_nat i) it = Inr (OK, it)" using table_guards [OF m i] True by (simp add: seekTo_def)
  ultimately show ?thesis using i' inv by blast
next
  case False
  define it1 where "it1 = (if \<not> mInitialized it \<or> of_nat i < mFirstChunkSampleIndex it then reset it else it)"
  obtain it2 j where it2: "(if of_nat i \<ge> mStopChunkSampleIndex it1 then findChunkRange tb (of_nat i) it1 else Inr (OK, it1)) = Inr (OK, it2)"
      "0 < j" "at_run tr j it2" "before (t_runs tr) (j - 1) \<le> i" "j < length (t_runs tr) \<longrightarrow> i < before (t_runs tr) j"
      "of_nat i < mStopChunkSampleIndex it2" "mInitialized it2 = mInitialized it" "\<forall>c. at_chunk tr c it2 = at_chunk tr c it"
      "\<forall>k. at_time tr k it2 = at_time tr k it"
    using seek_run [OF m i inv it1_def] by blast
  obtain it' where "(if mSamplesPerChunk it2 = 0 then Inl DivideByZero
      else case enter_chunk rd tb ((of_nat i - mFirstChunkSampleIndex it2) div mSamplesPerChunk it2 + mFirstChunk it2) it2 of
             Inl e \<Rightarrow> Inl e | Inr (st, it) \<Rightarrow> if st \<noteq> OK then Inr (st, it) else set_current tb (of_nat i) it) = Inr (OK, it')"
    "iter_inv tr it'" "at_sample tr i it'"
    using seek_chunk [OF m i it2(3,2,4,5)] it2(7-9) inv by (auto simp: iter_inv_def)
  then have "seekTo rd tb (of_nat i) it = Inr (OK, it') \<and> iter_inv tr it' \<and> at_sample tr i it'"
    using table_guards [OF m i] False it2(1,6) unfolding seekTo_def it1_def [symmetric] Let_def by auto
  then show ?thesis by blast
qed

subsection \<open>The tables in a file\<close>

lemma uint_index: "c * k < 4294967296 \<Longrightarrow> uint (of_nat k * of_nat c :: u32) = int (c * k)"
proof -
  assume "c * k < 4294967296"
  then have "unat (of_nat (k * c) :: u32) = c * k" by (simp add: mult.commute del: of_nat_mult)
  then show ?thesis by (simp add: uint_nat)
qed

lemma full_box_read:
  assumes h: "holds rd pos (full_box es)" and es: "\<And>e. e \<in> set es \<Longrightarrow> length e = k" and c: "c < length es"
  shows "read_enough rd (s32 (pos + 8 + uint (of_nat k * of_nat c :: u32))) k = Some (es ! c)"
proof -
  have len: "8 + c * k + k \<le> length (full_box es)" using full_box_entry(1) [OF es c] by simp
  then have "uint (of_nat k * of_nat c :: u32) = int (c * k)" using h by (intro uint_index) (simp add: holds_def)
  then have "pos + 8 + uint (of_nat k * of_nat c :: u32) = pos + int (8 + c * k)" by simp
  then show ?thesis using holds_read(1) [OF h len] full_box_entry(2) [OF es c] by (simp only:)
qed

lemma s32_uint: "s32 (uint (of_nat n :: u32)) = s32 (int n)"
  by (rule s32_cong) (simp add: uint_nat unat_of_nat zmod_int)

lemma s32_uint64: "s32 (uint w) = s32 (uint (ucast (w :: 64 word) :: u32))"
  by (rule s32_cong) (simp add: unsigned_ucast_eq take_bit_eq_mod)

lemma getChunkOffset_box:
  assumes h: "holds rd pos (stco_box wide offsets)" and c: "c < length offsets"
    and tb: "mChunkOffsetOffset tb = pos" "mChunkOffsetType tb = (if wide then kChunkOffsetType64 else kChunkOffsetType32)"
      "mNumChunkOffsets tb = of_nat (length offsets)"
  shows "getChunkOffset rd tb (of_nat c) = Inr (OK, s32 (int (offsets ! c)))"
proof -
  have l: "length offsets < 4294967296" using h by (simp add: holds_def length_boxes split: if_splits)
  then have n: "\<not> mNumChunkOffsets tb \<le> of_nat c" using of_nat_u32(1) [of "length offsets" c] c tb(3) by simp
  have k: "kChunkOffsetType64 \<noteq> kChunkOffsetType32" by (simp add: kChunkOffsetType64_def kChunkOffsetType32_def FOURCC_def of_char_def)
  have h': "holds rd pos (full_box (map (if wide then be64 else be32) offsets))" using h by (simp only: stco_box_def)
  show ?thesis
  proof (cases wide)
    case True
    have "read_enough rd (s32 (pos + 8 + uint (8 * of_nat c :: u32))) 8 = Some (be64 (offsets ! c))"
      using full_box_read [OF h', of 8 c] c True by force
    moreover have "s32 (uint (U64_AT (be64 (offsets ! c)))) = s32 (int (offsets ! c))"
      using U64_AT_be64 [of "offsets ! c" "[]"] unfolding append_Nil2 by (simp only: s32_uint64 s32_uint)
    ultimately show ?thesis using n tb True k by (simp add: getChunkOffset_def)
  next
    case False
    have "read_enough rd (s32 (pos + 8 + uint (4 * of_nat c :: u32))) 4 = Some (be32 (offsets ! c))"
      using full_box_read [OF h', of 4 c] c False by force
    then show ?thesis using n tb False by (simp add: getChunkOffset_def s32_uint)
  qed
qed

text \<open>The box of the sizes in its three formats; \<open>stz2\<close> with 16 bits is not read (see \<open>setSampleSizeParams_16\<close>).\<close>

definition size_box :: "nat \<Rightarrow> nat list \<Rightarrow> u8 list" where
  "size_box field sizes = (if field = 32 then stsz_box sizes else stz2_box field sizes)"

definition size_type :: "nat \<Rightarrow> u32" where
  "size_type field = (if field = 32 then kSampleSizeType32 else kSampleSizeTypeCompact)"

lemma nibble_at:
  "i < length ns \<Longrightarrow> \<forall>n \<in> set ns. n < 16 \<Longrightarrow> i div 2 < length (nibbles ns) \<and>
   (if odd i then unat (nibbles ns ! (i div 2)) mod 16 else unat (nibbles ns ! (i div 2)) div 16) = ns ! i"
proof (induction ns arbitrary: i rule: nibbles.induct)
  case (1 a b ns)
  have ab: "unat (of_nat (a * 16 + b) :: u8) = a * 16 + b" using 1 by (subst unat_of_nat) simp
  show ?case
  proof (cases "i < 2")
    case True
    then have "i = 0 \<or> i = 1" by linarith
    then show ?thesis using ab 1 by auto
  next
    case False
    then obtain i' where i': "i = Suc (Suc i')" by (metis add_2_eq_Suc le_Suc_ex not_less)
    then show ?thesis using 1(1) [of i'] 1(2,3) by (simp split: if_splits)
  qed
next
  case (2 a)
  have "unat (of_nat (a * 16) :: u8) = a * 16" using 2 by (subst unat_of_nat) simp
  then show ?case using 2 by simp
qed simp

lemma odd_u32: "(of_nat i AND 1 :: u32) = 0 \<longleftrightarrow> even i"
  by (simp add: and_one_eq mod_2_eq_odd)

lemma nibble_words:
  "(ucast (b AND 0x0f :: u8) :: u32) = of_nat (unat b mod 16)" "(ucast (drop_bit 4 b :: u8) :: u32) = of_nat (unat b div 16)"
proof -
  have "(0x0f :: u8) = mask 4" by (simp add: mask_eq_exp_minus_1)
  then have "unat (b AND 0x0f) = unat b mod 16" using unat_and_mask [of b 4] by simp
  then show "(ucast (b AND 0x0f) :: u32) = of_nat (unat b mod 16)" by (metis of_nat_unat)
  have "unat (drop_bit 4 b) = unat b div 16" using unat_drop_bit [of 4 b] by simp
  then show "(ucast (drop_bit 4 b) :: u32) = of_nat (unat b div 16)" by (metis of_nat_unat)
qed

lemma ucast_byte: "n < 256 \<Longrightarrow> (ucast (of_nat n :: u8) :: u32) = of_nat n"
  by (metis mod_less of_nat_unat unat_of_nat_byte(1))

lemma size_read:
  assumes h: "holds rd pos box" and b: "12 + j + k \<le> length box" and w: "uint (w :: u32) = int j"
  shows "read_enough rd (s32 (pos + 12 + uint w)) k = Some (take k (drop (12 + j) box))"
proof -
  have "pos + 12 + uint w = pos + int (12 + j)" using w by simp
  then show ?thesis using holds_read(1) [OF h b] by (simp only:)
qed

lemma getSampleSizeDirect_box:
  assumes h: "holds rd pos (size_box field sizes)" and f: "field \<in> {4, 8, 32}" "\<forall>n \<in> set sizes. n < 2 ^ field"
    and i: "i < length sizes" "length sizes < 4294967296"
    and tb: "mSampleSizeOffset tb = pos" "mSampleSizeFieldSize tb = of_nat field" "mDefaultSampleSize tb = 0"
      "mNumSampleSizes tb = of_nat (length sizes)"
  shows "getSampleSizeDirect rd tb (of_nat i) = Inr (OK, of_nat (sizes ! i))"
proof -
  have n: "\<not> mNumSampleSizes tb \<le> of_nat i" using of_nat_u32(1) [of "length sizes" i] i tb(4) by simp
  have i32: "i < 4294967296" using i by simp
  have si: "sizes ! i < 2 ^ field" using f(2) i(1) by simp
  consider "field = 32" | "field = 8" | "field = 4" using f(1) by auto
  then show ?thesis
  proof cases
    case 1
    have "take 4 (drop (12 + i * 4) (stsz_box sizes)) = be32 (sizes ! i)"
      using concat_entry [of "map be32 sizes" 4 i] i(1) by (force simp: stsz_box_def)
    moreover have "12 + i * 4 + 4 \<le> length (stsz_box sizes)" using i(1) by (simp add: length_boxes)
    moreover have "uint (4 * of_nat i :: u32) = int (i * 4)"
      using uint_index [of i 4] h 1 i(1) by (simp add: holds_def size_box_def length_boxes)
    ultimately have "read_enough rd (s32 (pos + 12 + uint (4 * of_nat i :: u32))) 4 = Some (be32 (sizes ! i))"
      using size_read [of rd pos "stsz_box sizes" "i * 4" 4] h 1 by (simp add: size_box_def)
    then show ?thesis using n tb 1 by (simp add: getSampleSizeDirect_def)
  next
    case 2
    have "take 1 (drop (12 + i) (stz2_box 8 sizes)) = [of_nat (sizes ! i)]" "12 + i + 1 \<le> length (stz2_box 8 sizes)"
      using i(1) by (simp_all add: stz2_box_def take_Suc_conv_app_nth drop_map [symmetric] hd_drop_conv_nth take_Suc)
    then have "read_enough rd (s32 (pos + 12 + uint (of_nat i :: u32))) 1 = Some [of_nat (sizes ! i)]"
      using size_read [of rd pos "stz2_box 8 sizes" i 1 "of_nat i"] h 2 i32 by (simp add: size_box_def uint_nat)
    then show ?thesis using n tb 2 si by (simp add: getSampleSizeDirect_def ucast_byte)
  next
    case 3
    have l: "i div 2 < length (nibbles sizes)" and
      v: "(if odd i then unat (nibbles sizes ! (i div 2)) mod 16 else unat (nibbles sizes ! (i div 2)) div 16) = sizes ! i"
      using nibble_at [OF i(1)] f(2) 3 by simp_all
    have "take 1 (drop (12 + i div 2) (stz2_box 4 sizes)) = [nibbles sizes ! (i div 2)]" "12 + i div 2 + 1 \<le> length (stz2_box 4 sizes)"
      using l by (simp_all add: stz2_box_def hd_drop_conv_nth take_Suc)
    moreover have "uint (of_nat i div 2 :: u32) = int (i div 2)" using i32 by (simp add: uint_nat unat_div)
    ultimately have r: "read_enough rd (s32 (pos + 12 + uint (of_nat i div 2 :: u32))) 1 = Some [nibbles sizes ! (i div 2)]"
      using size_read [of rd pos "stz2_box 4 sizes" "i div 2" 1 "of_nat i div 2"] h 3 by (simp add: size_box_def)
    then show ?thesis using n tb 3 v nibble_words odd_u32 [of i] by (auto simp: getSampleSizeDirect_def)
  qed
qed

lemma boxes_match:
  assumes ok: "track_ok tr" and field: "field \<in> {4, 8, 32}" "\<forall>n \<in> set (t_sizes tr). n < 2 ^ field" and mem: "\<forall>n. mem n"
    and h: "holds rd p1 (stts_box (t_times tr))" "holds rd p2 (stsc_box (t_runs tr))" "holds rd p3 (size_box field (t_sizes tr))"
      "holds rd p4 (stco_box wide (t_offsets tr))"
    and new: "mTimeToSample tb = None" "mSampleToChunkOffset tb < 0" "mSampleSizeOffset tb < 0" "mChunkOffsetOffset tb < 0"
  shows "\<exists>tb1 tb2 tb3 tb4.
      setTimeToSampleParams rd mem junk1 p1 (of_nat (length (stts_box (t_times tr)))) tb = Inr (OK, tb1) \<and>
      setSampleToChunkParams rd mem junk2 p2 (of_nat (length (stsc_box (t_runs tr)))) tb1 = Inr (OK, tb2) \<and>
      setSampleSizeParams rd (size_type field) p3 (of_nat (length (size_box field (t_sizes tr)))) tb2 = Inr (OK, tb3) \<and>
      setChunkOffsetParams rd (if wide then kChunkOffsetType64 else kChunkOffsetType32) p4
        (of_nat (length (stco_box wide (t_offsets tr)))) tb3 = Inr (OK, tb4) \<and> table_matches rd tb4 tr \<and>
      mSyncSampleOffset tb4 = mSyncSampleOffset tb \<and> mNumSyncSamples tb4 = mNumSyncSamples tb \<and>
      mSyncSamples tb4 = mSyncSamples tb \<and> mLastSyncSampleIndex tb4 = mLastSyncSampleIndex tb"
proof -
  have runs: "\<forall>run \<in> set (t_runs tr). fst run < 4294967295"
    using runs_ok_nth(2) [of "length (t_offsets tr)" "t_runs tr"] ok h(4)
    by (fastforce simp: track_ok_def holds_def length_boxes in_set_conv_nth split: if_splits)
  define tb1 where "tb1 = tb\<lparr> mTimeToSampleCount := of_nat (length (t_times tr)),
      mTimeToSample := Some (concat (map (\<lambda>(n, delta). [of_nat n, of_nat delta]) (t_times tr))) \<rparr>"
  define tb2 where "tb2 = tb1\<lparr> mSampleToChunkOffset := p2, mNumSampleToChunkOffsets := of_nat (length (t_runs tr)),
      mSampleToChunkEntries := Some (map entry_of (t_runs tr)) \<rparr>"
  define tb3 where "tb3 = tb2\<lparr> mSampleSizeOffset := p3, mDefaultSampleSize := 0,
      mNumSampleSizes := of_nat (length (t_sizes tr)), mSampleSizeFieldSize := of_nat field \<rparr>"
  define tb4 where "tb4 = tb3\<lparr> mChunkOffsetOffset := p4, mChunkOffsetType := (if wide then kChunkOffsetType64 else kChunkOffsetType32),
      mNumChunkOffsets := of_nat (length (t_offsets tr)) \<rparr>"
  note defs = tb1_def tb2_def tb3_def tb4_def
  have 1: "setTimeToSampleParams rd mem junk1 p1 (of_nat (length (stts_box (t_times tr)))) tb = Inr (OK, tb1)"
    unfolding tb1_def using setTimeToSampleParams_ok [OF h(1)] mem new(1) by blast
  have 2: "setSampleToChunkParams rd mem junk2 p2 (of_nat (length (stsc_box (t_runs tr)))) tb1 = Inr (OK, tb2)"
    unfolding tb2_def using setSampleToChunkParams_ok [OF h(2) runs] mem new(2) by (simp add: tb1_def)
  have 3: "setSampleSizeParams rd (size_type field) p3 (of_nat (length (size_box field (t_sizes tr)))) tb2 = Inr (OK, tb3)"
    using setSampleSizeParams_ok [of rd p3 "t_sizes tr" tb2] setSampleSizeParams_compact [of rd p3 field "t_sizes tr" tb2] h(3) field(1) new(3)
    by (auto simp: size_box_def size_type_def tb1_def tb2_def tb3_def)
  have 4: "setChunkOffsetParams rd (if wide then kChunkOffsetType64 else kChunkOffsetType32) p4
        (of_nat (length (stco_box wide (t_offsets tr)))) tb3 = Inr (OK, tb4)"
    unfolding tb4_def using setChunkOffsetParams_ok [OF h(4)] new(4) by (simp add: tb1_def tb2_def tb3_def)
  have pos: "0 \<le> p2" "0 \<le> p3" "0 \<le> p4" using h by (simp_all add: holds_def)
  have n: "length (t_sizes tr) < 4294967296" using ok by (simp add: track_ok_def)
  have "getChunkOffset rd tb4 (of_nat c) = Inr (OK, s32 (int (t_offsets tr ! c)))" if "c < length (t_offsets tr)" for c
    using getChunkOffset_box [OF h(4) that, of tb4] by (simp add: defs)
  moreover have "getSampleSizeDirect rd tb4 (of_nat i) = Inr (OK, of_nat (t_sizes tr ! i))" if "i < length (t_sizes tr)" for i
    using getSampleSizeDirect_box [OF h(3) field that n, of tb4] by (simp add: defs)
  ultimately have "table_matches rd tb4 tr" using ok pos by (simp add: table_matches_def defs)
  then show ?thesis using 1 2 3 4 by (auto simp: defs)
qed

text \<open>The accessors, and a sequence of seeks with what they return.\<close>

definition getSampleOffset :: "SampleIterator \<Rightarrow> int" where "getSampleOffset it = mCurrentSampleOffset it"
definition getSampleSize :: "SampleIterator \<Rightarrow> u32" where "getSampleSize it = mCurrentSampleSize it"
definition getSampleTime :: "SampleIterator \<Rightarrow> u32" where "getSampleTime it = mCurrentSampleTime it"

fun seek_all :: "data_source \<Rightarrow> SampleTable \<Rightarrow> u32 list \<Rightarrow> SampleIterator \<Rightarrow> media_fault + (status_t \<times> (int \<times> u32 \<times> u32) option) list" where
  "seek_all rd tb [] it = Inr []"
| "seek_all rd tb (i # is) it =
     (case seekTo rd tb i it of
        Inl e \<Rightarrow> Inl e
      | Inr (st, it) \<Rightarrow>
          (case seek_all rd tb is it of
             Inl e \<Rightarrow> Inl e
           | Inr rs \<Rightarrow> Inr ((st, if st = OK then Some (getSampleOffset it, getSampleSize it, getSampleTime it) else None) # rs)))"

text \<open>What a seek returns by the track alone.\<close>

definition seek_spec :: "track \<Rightarrow> u32 \<Rightarrow> status_t \<times> (int \<times> u32 \<times> u32) option" where
  "seek_spec tr i =
     (if unat i < length (t_sizes tr)
      then (OK, Some (s32 (int (sample_offset tr (unat i))), of_nat (t_sizes tr ! unat i), of_nat (sample_time tr (unat i))))
      else (ERROR_END_OF_STREAM, None))"

lemma seek_all_exact:
  assumes m: "table_matches rd tb tr"
  shows "iter_inv tr it \<Longrightarrow> seek_all rd tb is it = Inr (map (seek_spec tr) is)"
proof (induction "is" arbitrary: it)
  case (Cons i "is")
  show ?case
  proof (cases "unat i < length (t_sizes tr)")
    case True
    obtain it' where "seekTo rd tb (of_nat (unat i)) it = Inr (OK, it')" "iter_inv tr it'" "at_sample tr (unat i) it'"
      using seekTo_exact [OF m True Cons.prems] by blast
    then show ?thesis using True Cons.IH
      by (simp add: seek_spec_def at_sample_def getSampleOffset_def getSampleSize_def getSampleTime_def)
  next
    case False
    have "mNumSampleSizes tb \<le> i" using m False by (simp add: table_matches_def track_ok_def word_le_nat_alt)
    then have "seekTo rd tb i it = Inr (ERROR_END_OF_STREAM, it)" by (simp add: seekTo_def)
    then show ?thesis using False Cons.IH [OF Cons.prems] by (simp add: seek_spec_def)
  qed
qed simp


text \<open>A small track: three chunks, two with two samples and one with one, in a file.\<close>

definition example_track :: track where
  "example_track = \<lparr> t_offsets = [100, 200, 300], t_runs = [(0, 2, 1), (2, 1, 1)], t_sizes = [10, 20, 30, 40, 50], t_times = [(3, 1000), (2, 500)] \<rparr>"

lemma example_track_ok: "track_ok example_track"
  by (simp add: track_ok_def example_track_def samples_per_chunk_def sum_list_replicate)

lemma example_track_layout:
  "samples_per_chunk example_track = [2, 2, 1]" "durations (t_times example_track) = [1000, 1000, 1000, 500, 500]"
  by (simp_all add: example_track_def samples_per_chunk_def durations_def numeral_2_eq_2 numeral_3_eq_3)

definition example_file :: "u8 list" where
  "example_file = stts_box (t_times example_track) @ stsc_box (t_runs example_track) @ stsz_box (t_sizes example_track) @ stco_box False (t_offsets example_track)"

lemma example_holds:
  "holds (FileSource_readAt (open_file example_file)) 0 (stts_box (t_times example_track))"
  "holds (FileSource_readAt (open_file example_file)) 24 (stsc_box (t_runs example_track))"
  "holds (FileSource_readAt (open_file example_file)) 56 (stsz_box (t_sizes example_track))"
  "holds (FileSource_readAt (open_file example_file)) 88 (stco_box False (t_offsets example_track))"
proof -
  note f = example_file_def
  let ?a = "stts_box (t_times example_track)" and ?b = "stsc_box (t_runs example_track)" and ?c = "stsz_box (t_sizes example_track)"
    and ?d = "stco_box False (t_offsets example_track)"
  have l: "length ?a = 24" "length ?b = 32" "length ?c = 32" "length ?d = 20" by (simp_all add: length_boxes example_track_def)
  show "holds (FileSource_readAt (open_file example_file)) 0 ?a" using file_holds [of "[]" ?a "?b @ ?c @ ?d"] l by (simp add: f)
  show "holds (FileSource_readAt (open_file example_file)) 24 ?b" using file_holds [of ?a ?b "?c @ ?d"] l by (simp add: f)
  show "holds (FileSource_readAt (open_file example_file)) 56 ?c" using file_holds [of "?a @ ?b" ?c ?d] l by (simp add: f)
  show "holds (FileSource_readAt (open_file example_file)) 88 ?d" using file_holds [of "?a @ ?b @ ?c" ?d "[]"] l by (simp add: f)
qed

lemma example_seeks:
  "map (seek_spec example_track) [3, 0, 4, 9] =
     [(OK, Some (230, 40, 3000)), (OK, Some (100, 10, 0)), (OK, Some (300, 50, 3500)), (ERROR_END_OF_STREAM, None)]"
  by (simp add: seek_spec_def sample_offset_def sample_time_def example_track_layout) (simp add: example_track_def s32_def)


end
