(* ===== verification/Sample_Seek.thy ===== *)
theory Sample_Seek
  imports Sample_Iterator
begin

text \<open>
  Finding samples by time, \<open>libppplayer/SampleTable.cpp\<close>, and the seek of \<open>MPEG4Source::read\<close> in
  \<open>libppplayer/MPEG4Extractor.cpp\<close> that uses it: the sample at a time, the sync sample near a sample, the data of
  a sample with its sync flag, the thumbnail and the largest size. The table and its iterator are passed and
  returned separately; the lock of the table is held during each function.
\<close>

subsection \<open>The functions\<close>

definition kFlagBefore :: u32 where "kFlagBefore = 0"
definition kFlagAfter :: u32 where "kFlagAfter = 1"
definition kFlagClosest :: u32 where "kFlagClosest = 2"

definition abs_difference :: "u32 \<Rightarrow> u32 \<Rightarrow> u32" where
  "abs_difference time1 time2 = (if time1 > time2 then time1 - time2 else time2 - time1)"

definition pick_sample :: "SampleTable \<Rightarrow> u32 \<Rightarrow> u32 \<Rightarrow> u32 \<Rightarrow> u32 \<Rightarrow> u32 \<Rightarrow> u32 \<Rightarrow> media_fault + status_t \<times> u32" where
  "pick_sample tb req_time flags i cur_sample time delta =
     (if delta = 0 then Inl DivideByZero
      else
        let j = (req_time - time) div delta;
            time1 = time + j * delta;
            time2 = time1 + delta;
            (sample_index, sampleTime) =
              (if i + 1 = mTimeToSampleCount tb \<or> abs_difference req_time time1 < abs_difference req_time time2
               then (cur_sample + j, time1) else (cur_sample + j + 1, time2))
        in Inr (OK,
             if flags = kFlagBefore then (if sampleTime > req_time \<and> sample_index > 0 then sample_index - 1 else sample_index)
             else if flags = kFlagAfter
             then (if sampleTime < req_time \<and> sample_index + 1 < mNumSampleSizes tb then sample_index + 1 else sample_index)
             else sample_index))"

function find_time_loop :: "SampleTable \<Rightarrow> u32 \<Rightarrow> u32 \<Rightarrow> u32 \<Rightarrow> u32 \<Rightarrow> u32 \<Rightarrow> media_fault + status_t \<times> u32" where
  "find_time_loop tb req_time flags i cur_sample time =
     (if \<not> i < mTimeToSampleCount tb then Inr (ERROR_OUT_OF_RANGE, 0)
      else case array_at (mTimeToSample tb) (2 * i) of
          Inl e \<Rightarrow> Inl e
        | Inr n \<Rightarrow>
            (case array_at (mTimeToSample tb) (2 * i + 1) of
               Inl e \<Rightarrow> Inl e
             | Inr delta \<Rightarrow>
                 if req_time < time + n * delta then pick_sample tb req_time flags i cur_sample time delta
                 else find_time_loop tb req_time flags (i + 1) (cur_sample + n) (time + delta * n)))"
  by pat_completeness auto
termination
  by (relation "measure (\<lambda>(tb, req, flags, i, cur, time). unat (mTimeToSampleCount tb - i))")
     (auto intro!: word_index_measure)

definition findSampleAtTime :: "SampleTable \<Rightarrow> u32 \<Rightarrow> u32 \<Rightarrow> media_fault + status_t \<times> u32" where
  "findSampleAtTime tb req_time flags = find_time_loop tb req_time flags 0 0 0"

text \<open>The number of sync samples before a sample, counted by the loop of \<open>findSyncSampleNear\<close>.\<close>

function sync_left :: "SampleTable \<Rightarrow> u32 \<Rightarrow> u32 \<Rightarrow> media_fault + u32" where
  "sync_left tb start left =
     (if \<not> left < mNumSyncSamples tb then Inr left
      else case array_at (mSyncSamples tb) left of
          Inl e \<Rightarrow> Inl e
        | Inr x \<Rightarrow> if x \<ge> start then Inr left else sync_left tb start (left + 1))"
  by pat_completeness auto
termination
  by (relation "measure (\<lambda>(tb, start, left). unat (mNumSyncSamples tb - left))") (auto intro!: word_index_measure)

definition read_sync :: "data_source \<Rightarrow> SampleTable \<Rightarrow> u32 \<Rightarrow> u32 option" where
  "read_sync rd tb left =
     map_option (\<lambda>bs. ntohl (load32 bs) - 1) (read_exactly rd (s32 (mSyncSampleOffset tb + 8 + uint (left * 4))) 4)"

definition seek_time :: "data_source \<Rightarrow> SampleTable \<Rightarrow> u32 \<Rightarrow> SampleIterator \<Rightarrow> media_fault + status_t \<times> u32 \<times> SampleIterator" where
  "seek_time rd tb i it =
     (case seekTo rd tb i it of Inl e \<Rightarrow> Inl e | Inr (st, it) \<Rightarrow> Inr (st, getSampleTime it, it))"

text \<open>Between two sync samples the one nearer in time is taken.\<close>

definition nearer_sync ::
  "data_source \<Rightarrow> SampleTable \<Rightarrow> u32 \<Rightarrow> u32 \<Rightarrow> u32 \<Rightarrow> SampleIterator \<Rightarrow> media_fault + status_t \<times> u32 \<times> u32 \<times> SampleIterator" where
  "nearer_sync rd tb start x left it =
     (if \<not> left + 1 < mNumSyncSamples tb then Inr (OK, x, left, it)
      else case array_at (mSyncSamples tb) (left + 1) of
          Inl e \<Rightarrow> Inl e
        | Inr y \<Rightarrow>
      (case seek_time rd tb start it of
          Inl e \<Rightarrow> Inl e
        | Inr (st, s_time, it) \<Rightarrow> if st \<noteq> OK then Inr (st, x, left, it) else
      (case seek_time rd tb x it of
          Inl e \<Rightarrow> Inl e
        | Inr (st, x_time, it) \<Rightarrow> if st \<noteq> OK then Inr (st, x, left, it) else
      (case seek_time rd tb y it of
          Inl e \<Rightarrow> Inl e
        | Inr (st, y_time, it) \<Rightarrow> if st \<noteq> OK then Inr (st, x, left, it) else
      if abs_difference x_time s_time > abs_difference y_time s_time
      then Inr (OK, y, left + 1, it) else Inr (OK, x, left, it)))))"

definition findSyncSampleNear ::
  "data_source \<Rightarrow> SampleTable \<Rightarrow> u32 \<Rightarrow> u32 \<Rightarrow> SampleIterator \<Rightarrow> media_fault + status_t \<times> u32 \<times> SampleIterator" where
  "findSyncSampleNear rd tb start flags it =
     (if mSyncSampleOffset tb < 0 then Inr (OK, start, it)
      else if mNumSyncSamples tb = 0 then Inr (OK, 0, it)
      else case sync_left tb start 0 of
          Inl e \<Rightarrow> Inl e
        | Inr l \<Rightarrow>
      (let left = l - 1 in
       case read_sync rd tb left of
          None \<Rightarrow> Inr (ERROR_IO, 0, it)
        | Some x \<Rightarrow>
      (case nearer_sync rd tb start x left it of
          Inl e \<Rightarrow> Inl e
        | Inr (st, x, left, it) \<Rightarrow>
      if st \<noteq> OK then Inr (st, 0, it)
      else if flags = kFlagBefore then
        (if \<not> x > start then Inr (OK, x, it)
         else if \<not> left > 0 then Inl CheckFailed
         else case read_sync rd tb (left - 1) of
             None \<Rightarrow> Inr (ERROR_IO, 0, it)
           | Some x \<Rightarrow> if \<not> x \<le> start then Inl CheckFailed else Inr (OK, x, it))
      else if flags = kFlagAfter then
        (if \<not> x < start then Inr (OK, x, it)
         else if left + 1 \<ge> mNumSyncSamples tb then Inr (ERROR_OUT_OF_RANGE, 0, it)
         else case array_at (mSyncSamples tb) (left + 1) of
             Inl e \<Rightarrow> Inl e
           | Inr x \<Rightarrow> if \<not> x \<ge> start then Inl CheckFailed else Inr (OK, x, it))
      else Inr (OK, x, it))))"

function sync_scan :: "SampleTable \<Rightarrow> u32 \<Rightarrow> u32 \<Rightarrow> media_fault + u32" where
  "sync_scan tb sampleIndex i =
     (if \<not> i < mNumSyncSamples tb then Inr i
      else case array_at (mSyncSamples tb) i of
          Inl e \<Rightarrow> Inl e
        | Inr x \<Rightarrow> if x < sampleIndex then sync_scan tb sampleIndex (i + 1) else Inr i)"
  by pat_completeness auto
termination
  by (relation "measure (\<lambda>(tb, i, k). unat (mNumSyncSamples tb - k))") (auto intro!: word_index_measure)

text \<open>The sync flag of a sample, and the table with the place where the search ended.\<close>

definition sync_flag :: "SampleTable \<Rightarrow> u32 \<Rightarrow> media_fault + bool \<times> SampleTable" where
  "sync_flag tb sampleIndex =
     (if mSyncSampleOffset tb < 0 then Inr (True, tb)
      else case (if mLastSyncSampleIndex tb < mNumSyncSamples tb
                 then map_sum id (\<lambda>x. if x \<le> sampleIndex then mLastSyncSampleIndex tb else 0)
                        (array_at (mSyncSamples tb) (mLastSyncSampleIndex tb))
                 else Inr 0) of
          Inl e \<Rightarrow> Inl e
        | Inr i0 \<Rightarrow>
      (case sync_scan tb sampleIndex i0 of
          Inl e \<Rightarrow> Inl e
        | Inr i \<Rightarrow>
      if i < mNumSyncSamples tb
      then map_sum id (\<lambda>x. (x = sampleIndex, tb\<lparr> mLastSyncSampleIndex := i \<rparr>)) (array_at (mSyncSamples tb) i)
      else Inr (False, tb\<lparr> mLastSyncSampleIndex := i \<rparr>)))"

definition getMetaDataForSample ::
  "data_source \<Rightarrow> SampleTable \<Rightarrow> u32 \<Rightarrow> SampleIterator \<Rightarrow>
    media_fault + status_t \<times> (int \<times> u32 \<times> u32 \<times> bool) option \<times> SampleTable \<times> SampleIterator" where
  "getMetaDataForSample rd tb sampleIndex it =
     (case seekTo rd tb sampleIndex it of
        Inl e \<Rightarrow> Inl e
      | Inr (st, it) \<Rightarrow>
          if st \<noteq> OK then Inr (st, None, tb, it)
          else case sync_flag tb sampleIndex of
              Inl e \<Rightarrow> Inl e
            | Inr (sync, tb) \<Rightarrow> Inr (OK, Some (getSampleOffset it, getSampleSize it, getSampleTime it, sync), tb, it))"

text \<open>The loops over the sizes; \<open>getSampleSize_l\<close> is \<open>getSampleSizeDirect\<close> of the iterator.\<close>

fun max_size_loop :: "data_source \<Rightarrow> SampleTable \<Rightarrow> u32 \<Rightarrow> nat \<Rightarrow> u32 \<Rightarrow> media_fault + status_t \<times> u32" where
  "max_size_loop rd tb i 0 max_size = Inr (OK, max_size)"
| "max_size_loop rd tb i (Suc k) max_size =
     (case getSampleSizeDirect rd tb i of
        Inl e \<Rightarrow> Inl e
      | Inr (st, sample_size) \<Rightarrow>
          if st \<noteq> OK then Inr (st, max_size)
          else max_size_loop rd tb (i + 1) k (if sample_size > max_size then sample_size else max_size))"

definition getMaxSampleSize :: "data_source \<Rightarrow> SampleTable \<Rightarrow> media_fault + status_t \<times> u32" where
  "getMaxSampleSize rd tb = max_size_loop rd tb 0 (unat (mNumSampleSizes tb)) 0"

fun thumbnail_loop :: "data_source \<Rightarrow> SampleTable \<Rightarrow> u32 \<Rightarrow> nat \<Rightarrow> u32 \<Rightarrow> u32 \<Rightarrow> media_fault + status_t \<times> u32" where
  "thumbnail_loop rd tb i 0 best maxSize = Inr (OK, best)"
| "thumbnail_loop rd tb i (Suc k) best maxSize =
     (case array_at (mSyncSamples tb) i of
        Inl e \<Rightarrow> Inl e
      | Inr x \<Rightarrow>
          (case getSampleSizeDirect rd tb x of
             Inl e \<Rightarrow> Inl e
           | Inr (st, sampleSize) \<Rightarrow>
               if st \<noteq> OK then Inr (st, best)
               else if i = 0 \<or> sampleSize > maxSize then thumbnail_loop rd tb (i + 1) k x sampleSize
               else thumbnail_loop rd tb (i + 1) k best maxSize))"

definition kMaxNumSyncSamplesToScan :: u32 where "kMaxNumSyncSamplesToScan = 20"

definition findThumbnailSample :: "data_source \<Rightarrow> SampleTable \<Rightarrow> media_fault + status_t \<times> u32" where
  "findThumbnailSample rd tb =
     (if mSyncSampleOffset tb < 0 then Inr (OK, 0)
      else
        let n = mNumSyncSamples tb;
            scan = (if n > kMaxNumSyncSamplesToScan then kMaxNumSyncSamplesToScan else if n > 1 then n - 1 else n)
        in thumbnail_loop rd tb 0 (unat scan) 0 0)"

subsection \<open>The seek of the track reader\<close>

datatype SeekMode = SEEK_PREVIOUS_SYNC | SEEK_NEXT_SYNC | SEEK_CLOSEST_SYNC | SEEK_CLOSEST

definition findFlags_of :: "SeekMode \<Rightarrow> u32" where
  "findFlags_of mode =
     (case mode of SEEK_PREVIOUS_SYNC \<Rightarrow> kFlagBefore | SEEK_NEXT_SYNC \<Rightarrow> kFlagAfter
      | SEEK_CLOSEST_SYNC \<Rightarrow> kFlagClosest | SEEK_CLOSEST \<Rightarrow> kFlagClosest)"

text \<open>
  The part of \<open>MPEG4Source::read\<close> that handles a seek: it returns the error, or the new \<open>mCurrentSampleIndex\<close>
  and \<open>targetSampleTimeUs\<close>. The products of times and scales are 64 bits wide, as in the code.
\<close>

definition read_seek ::
  "data_source \<Rightarrow> SampleTable \<Rightarrow> int \<Rightarrow> int \<Rightarrow> SeekMode \<Rightarrow> SampleIterator \<Rightarrow>
    media_fault + (status_t \<times> (u32 \<times> int) option \<times> SampleIterator)" where
  "read_seek rd tb mTimescale seekTimeUs mode it =
     (let findFlags = findFlags_of mode in
      case findSampleAtTime tb (of_int (cdiv (s64 (seekTimeUs * mTimescale)) 1000000)) findFlags of
        Inl e \<Rightarrow> Inl e
      | Inr (err, sampleIndex) \<Rightarrow>
     (let findFlags = (if mode = SEEK_CLOSEST then kFlagBefore else findFlags) in
      case (if err = OK then findSyncSampleNear rd tb sampleIndex findFlags it else Inr (err, 0, it)) of
        Inl e \<Rightarrow> Inl e
      | Inr (err, syncSampleIndex, it) \<Rightarrow>
          if err \<noteq> OK then Inr (if err = ERROR_OUT_OF_RANGE then ERROR_END_OF_STREAM else err, None, it)
          else case seekTo rd tb sampleIndex it of
              Inl e \<Rightarrow> Inl e
            | Inr (err, it) \<Rightarrow>
                if err \<noteq> OK then Inl CheckFailed
                else if mode = SEEK_CLOSEST
                then (if mTimescale = 0 then Inl DivideByZero
                      else Inr (OK, Some (syncSampleIndex, cdiv (s64 (uint (getSampleTime it) * 1000000)) mTimescale), it))
                else Inr (OK, Some (syncSampleIndex, -1), it)))"

declare find_time_loop.simps [simp del] sync_left.simps [simp del] sync_scan.simps [simp del]

subsection \<open>The sample at a time\<close>

text \<open>The sample that is asked for, where sample \<open>j\<close> is in force: the loop rounds to the nearer one of two
  samples, but never in the last run.\<close>

definition sample_choice :: "bool \<Rightarrow> u32 \<Rightarrow> nat \<Rightarrow> nat \<Rightarrow> nat \<Rightarrow> nat \<Rightarrow> nat \<Rightarrow> nat" where
  "sample_choice last_run flags cnt req j tj tj1 =
     (let k = (if last_run \<or> req - tj < tj1 - req then j else j + 1) in
      if flags = kFlagBefore then j
      else if flags = kFlagAfter then (if tj = req then j else if k = j + 1 \<or> j + 1 < cnt then j + 1 else j)
      else k)"

lemma abs_difference_nat:
  "a < 4294967296 \<Longrightarrow> b < 4294967296 \<Longrightarrow> abs_difference (of_nat a) (of_nat b) = of_nat (if b < a then a - b else b - a)"
  using of_nat_u32(2) [of b a] by (simp add: abs_difference_def of_nat_diff)

lemma pick_sample_nat:
  assumes d: "0 < d" and req: "T \<le> req" "req < T + n * d" "T + n * d < 4294967296" and J: "J + n < 4294967296" and q: "q + 1 < 4294967296"
    and tb: "mTimeToSampleCount tb = of_nat m" "m < 4294967296" "mNumSampleSizes tb = of_nat N" "N < 4294967296"
  shows "pick_sample tb (of_nat req) flags (of_nat q) (of_nat J) (of_nat T) (of_nat d) =
    Inr (OK, of_nat (sample_choice (q + 1 = m) flags N req (J + (req - T) div d) (T + (req - T) div d * d) (T + (req - T) div d * d + d)))"
proof -
  define j where "j = (req - T) div d"
  define t1 where "t1 = T + j * d"
  have "j < n" using req(1,2) d by (simp add: j_def less_mult_imp_div_less)
  then have jn: "(j + 1) * d \<le> n * d" by (intro mult_le_mono1) simp
  have e: "j * d \<le> req - T" "req - T < d + j * d"
    unfolding j_def by (rule div_times_less_eq_dividend, rule dividend_less_div_times [OF d])
  have t: "t1 \<le> req" "req < t1 + d" "t1 + d < 4294967296" "d < 4294967296" "T < 4294967296" "req < 4294967296"
    using req d jn e by (auto simp: t1_def)
  have w: "(of_nat req - of_nat T :: u32) = of_nat (req - T)" "(of_nat (req - T) :: u32) div of_nat d = of_nat j"
  proof -
    show "(of_nat req - of_nat T :: u32) = of_nat (req - T)" using req(1) by (simp add: of_nat_diff)
    have "req - T < 4294967296" "j < 4294967296" using t(6) \<open>j < n\<close> J by auto
    then show "(of_nat (req - T) :: u32) div of_nat d = of_nat j" using t(4)
      by (simp add: word_unat_eq_iff unat_div j_def del: of_nat_diff)
  qed
  have t1: "of_nat T + of_nat j * of_nat d = (of_nat t1 :: u32)" "of_nat t1 + of_nat d = (of_nat (t1 + d) :: u32)"
    by (simp_all add: t1_def)
  have d0: "(of_nat d :: u32) \<noteq> 0" using of_nat_u32(3) [of d 0] t(4) d by simp
  have cmp: "abs_difference (of_nat req) (of_nat t1) < abs_difference (of_nat req) (of_nat (t1 + d)) \<longleftrightarrow> req - t1 < t1 + d - req"
    using abs_difference_nat [of req t1] abs_difference_nat [of req "t1 + d"] of_nat_u32(2) [of "req - t1" "t1 + d - req"] t
    by (auto simp del: of_nat_diff of_nat_add)
  have last: "(of_nat q + 1 :: u32) = of_nat m \<longleftrightarrow> q + 1 = m" using of_nat_u32(3) [of "q + 1" m] q tb(2) by (simp add: add.commute)
  have idx: "of_nat J + of_nat j = (of_nat (J + j) :: u32)" "of_nat (J + j) + 1 = (of_nat (J + j + 1) :: u32)" by simp_all
  have c1: "of_nat (J + j + 1) > (0 :: u32)" using of_nat_u32(2) [of 0 "J + j + 1"] \<open>j < n\<close> J by simp
  have c2: "(of_nat (J + j + 1) :: u32) < of_nat N \<longleftrightarrow> J + j + 1 < N" using of_nat_u32(2) [of "J + j + 1" N] \<open>j < n\<close> J tb(4) by simp
  then have c2': "(of_nat (J + j) + 1 :: u32) < of_nat N \<longleftrightarrow> J + j + 1 < N" unfolding idx(2) .
  have c3: "(of_nat req :: u32) < of_nat t1 \<longleftrightarrow> req < t1" "(of_nat req :: u32) < of_nat (t1 + d) \<longleftrightarrow> req < t1 + d"
    "(of_nat t1 :: u32) < of_nat req \<longleftrightarrow> t1 < req" "(of_nat (t1 + d) :: u32) < of_nat req \<longleftrightarrow> t1 + d < req"
    using t by (intro of_nat_u32(2); simp)+
  have pred: "of_nat (J + j + 1) - 1 = (of_nat (J + j) :: u32)" by simp
  show ?thesis
    unfolding pick_sample_def w t1 idx last cmp tb(1,3) sample_choice_def Let_def j_def [symmetric] t1_def [symmetric]
    using d0 t(1,2) c1 c2 c2' c3 pred by (auto simp del: of_nat_add of_nat_diff)
qed

text \<open>The run that the search stops in.\<close>

lemma tts_time_mono: "k \<le> k' \<Longrightarrow> k' \<le> length ts \<Longrightarrow> tts_time ts k \<le> tts_time ts k'"
proof (induction k' rule: dec_induct)
  case (step n)
  then show ?case using tts_Suc(2) [of n ts] by simp
qed simp

lemma find_time_loop_exact:
  assumes m: "table_matches rd tb tr" and D: "tts_time (t_times tr) (length (t_times tr)) < 4294967296"
    and "q \<le> length (t_times tr)" and "tts_time (t_times tr) q \<le> req" and r: "req < 4294967296"
  shows "find_time_loop tb (of_nat req) flags (of_nat q) (of_nat (tts_index (t_times tr) q)) (of_nat (tts_time (t_times tr) q)) =
    (if tts_time (t_times tr) (length (t_times tr)) \<le> req then Inr (ERROR_OUT_OF_RANGE, 0)
     else Inr (OK, of_nat (let k = (LEAST k. req < tts_time (t_times tr) (Suc k)); d = snd (t_times tr ! k);
        j = (req - tts_time (t_times tr) k) div d
       in sample_choice (Suc k = length (t_times tr)) flags (length (t_sizes tr)) req (tts_index (t_times tr) k + j)
            (tts_time (t_times tr) k + j * d) (tts_time (t_times tr) k + j * d + d))))"
  using assms(3,4)
proof (induction "length (t_times tr) - q" arbitrary: q)
  case 0
  then show ?case using m of_nat_u32(2) [of q "length (t_times tr)"]
    by (subst find_time_loop.simps) (auto simp: table_matches_def track_ok_def)
next
  case (Suc k)
  define ts where "ts = t_times tr"
  obtain n d where nd: "ts ! q = (n, d)" by (cases "ts ! q")
  have q: "q < length ts" "length ts < 2147483648" using Suc m by (auto simp: ts_def table_matches_def track_ok_def)
  have tb: "mTimeToSampleCount tb = of_nat (length ts)" "mNumSampleSizes tb = of_nat (length (t_sizes tr))" "length (t_sizes tr) < 4294967296"
    using m by (simp_all add: ts_def table_matches_def track_ok_def)
  have arr: "array_at (mTimeToSample tb) (2 * of_nat q) = Inr (of_nat n)" "array_at (mTimeToSample tb) (2 * of_nat q + 1) = Inr (of_nat d)"
    using table_times [OF m, of q] q nd by (simp_all add: ts_def)
  have lt: "(of_nat q :: u32) < of_nat (length ts)" using q of_nat_u32(2) [of q "length ts"] by simp
  have next1: "tts_time ts (Suc q) = tts_time ts q + n * d" "tts_index ts (Suc q) = tts_index ts q + n" using tts_Suc [OF q(1)] nd by simp_all
  have small: "tts_time ts (Suc q) < 4294967296" "tts_index ts (Suc q) < 4294967296"
    using tts_time_mono [of "Suc q" "length ts" ts] D q(1) tts_index_mono [of ts "Suc q"] m
    by (auto simp: ts_def table_matches_def track_ok_def)
  have cmp: "of_nat req < (of_nat (tts_time ts q) + of_nat n * of_nat d :: u32) \<longleftrightarrow> req < tts_time ts (Suc q)"
    using of_nat_u32(2) [OF r small(1)] next1(1) by simp
  show ?case
  proof (cases "req < tts_time ts (Suc q)")
    case True
    have least: "(LEAST k. req < tts_time ts (Suc k)) = q"
    proof (rule Least_equality)
      show "req < tts_time ts (Suc q)" by (rule True)
      show "q \<le> k" if "req < tts_time ts (Suc k)" for k
        using that Suc.prems tts_time_mono [of "Suc k" q ts] by (force simp: ts_def not_le Suc_le_eq)
    qed
    have "0 < d" using True Suc.prems(2) next1(1) by (cases d) (auto simp: ts_def)
    have "find_time_loop tb (of_nat req) flags (of_nat q) (of_nat (tts_index ts q)) (of_nat (tts_time ts q)) =
        pick_sample tb (of_nat req) flags (of_nat q) (of_nat (tts_index ts q)) (of_nat (tts_time ts q)) (of_nat d)"
      using True lt arr cmp by (subst find_time_loop.simps) (simp add: tb)
    also have "\<dots> = Inr (OK, of_nat (let k = q; d = snd (ts ! k); j = (req - tts_time ts k) div d
       in sample_choice (Suc k = length ts) flags (length (t_sizes tr)) req (tts_index ts k + j) (tts_time ts k + j * d) (tts_time ts k + j * d + d)))"
      using pick_sample_nat [OF \<open>0 < d\<close>, of "tts_time ts q" req n "tts_index ts q" q tb "length ts" "length (t_sizes tr)" flags]
        True Suc.prems(2) next1 small q tb nd by (simp add: Let_def ts_def)
    finally show ?thesis
      using True tts_time_mono [of "Suc q" "length ts" ts] q(1) unfolding ts_def [symmetric] least by simp
  next
    case False
    have "k = length (t_times tr) - Suc q" using Suc.hyps(2) by simp
    from Suc.hyps(1) [OF this] False q(1) show ?thesis
      using lt arr cmp next1 tb unfolding ts_def [symmetric] by (subst find_time_loop.simps) (simp add: ts_def add.commute mult.commute)
  qed
qed

lemma time_run_exists:
  assumes "req < tts_time ts (length ts)"
  obtains k where "k < length ts" "(LEAST k. req < tts_time ts (Suc k)) = k" "tts_time ts k \<le> req" "req < tts_time ts (Suc k)"
proof -
  define k where "k = (LEAST k. req < tts_time ts (Suc k))"
  have ne: "length ts \<noteq> 0" using assms by (auto simp: tts_time_def)
  then have ex: "req < tts_time ts (Suc (length ts - 1))" using assms by simp
  have k: "req < tts_time ts (Suc k)" "k \<le> length ts - 1" unfolding k_def using ex by (rule LeastI, rule Least_le)
  have "tts_time ts k \<le> req"
  proof (cases k)
    case (Suc k')
    then show ?thesis using not_less_Least [of k' "\<lambda>k. req < tts_time ts (Suc k)"] by (simp add: k_def not_less)
  qed (simp add: tts_time_def)
  moreover have "k < length ts" using k(2) ne by linarith
  ultimately show ?thesis using that k_def [symmetric] k(1) by blast
qed

lemma total_time: "sum_list (durations ts) = tts_time ts (length ts)"
  by (simp add: durations_def tts_time_def sum_list_concat comp_def case_prod_unfold sum_list_replicate)

lemma sample_found:
  assumes m: "table_matches rd tb tr" and D: "sum_list (durations (t_times tr)) < 4294967296" and r: "req < 4294967296"
  shows "if sum_list (durations (t_times tr)) \<le> req then findSampleAtTime tb (of_nat req) flags = Inr (ERROR_OUT_OF_RANGE, 0)
    else \<exists>j. j < sum_list (map fst (t_times tr)) \<and> sample_time tr j \<le> req \<and> req < sample_time tr (j + 1) \<and>
      findSampleAtTime tb (of_nat req) flags =
        Inr (OK, of_nat (sample_choice (sum_list (map fst (butlast (t_times tr))) \<le> j) flags (length (t_sizes tr)) req j
                           (sample_time tr j) (sample_time tr (j + 1))))"
proof -
  define ts where "ts = t_times tr"
  note find = find_time_loop_exact [OF m D [unfolded total_time], of 0 req flags]
  have loop: "findSampleAtTime tb (of_nat req) flags =
      find_time_loop tb (of_nat req) flags (of_nat 0) (of_nat (tts_index (t_times tr) 0)) (of_nat (tts_time (t_times tr) 0))"
    by (simp add: findSampleAtTime_def tts_index_def tts_time_def)
  show ?thesis
  proof (cases "sum_list (durations ts) \<le> req")
    case True
    then show ?thesis using find r loop by (simp add: total_time ts_def tts_time_def)
  next
    case False
    then have "req < tts_time ts (length ts)" by (simp add: total_time)
    then obtain k where k: "k < length ts" "(LEAST k. req < tts_time ts (Suc k)) = k" "tts_time ts k \<le> req" "req < tts_time ts (Suc k)"
      by (rule time_run_exists)
    obtain n d where nd: "ts ! k = (n, d)" by (cases "ts ! k")
    define j where "j = (req - tts_time ts k) div d"
    have nx: "tts_time ts (Suc k) = tts_time ts k + n * d" "tts_index ts (Suc k) = tts_index ts k + n" using tts_Suc [OF k(1)] nd by simp_all
    then have d: "0 < d" using k(3,4) by (cases d) auto
    have jn: "j < n" using k(3,4) nx d by (simp add: j_def less_mult_imp_div_less)
    have e: "j * d \<le> req - tts_time ts k" "req - tts_time ts k < d + j * d"
      unfolding j_def by (rule div_times_less_eq_dividend, rule dividend_less_div_times [OF d])
    have t: "sample_time tr (tts_index ts k + j) = tts_time ts k + j * d" "sample_time tr (tts_index ts k + j + 1) = tts_time ts k + j * d + d"
      using time_in_run [OF k(1), of "tts_index ts k + j"] time_in_run [OF k(1), of "tts_index ts k + j + 1"] nd nx jn
      by (simp_all add: sample_time_def ts_def mult.commute)
    have last: "Suc k = length ts \<longleftrightarrow> sum_list (map fst (butlast ts)) \<le> tts_index ts k + j"
    proof
      assume "Suc k = length ts"
      then have "k = length ts - 1" by simp
      then show "sum_list (map fst (butlast ts)) \<le> tts_index ts k + j" by (simp only: tts_index_def butlast_conv_take)
    next
      assume b: "sum_list (map fst (butlast ts)) \<le> tts_index ts k + j"
      show "Suc k = length ts"
      proof (rule ccontr)
        assume "Suc k \<noteq> length ts"
        then have "tts_index ts (Suc k) \<le> sum_list (map fst (butlast ts))"
          using tts_index_mono [of "butlast ts" "Suc k"] k(1) by (simp add: tts_index_def butlast_conv_take)
        then show False using b nx(2) jn by simp
      qed
    qed
    have "findSampleAtTime tb (of_nat req) flags = Inr (OK, of_nat (sample_choice (Suc k = length ts) flags (length (t_sizes tr)) req
        (tts_index ts k + j) (tts_time ts k + j * d) (tts_time ts k + j * d + d)))"
      using find False r loop k(2) nd by (simp add: Let_def ts_def [symmetric] j_def total_time tts_time_def)
    moreover have "tts_index ts k + j < sum_list (map fst ts)" using jn nx(2) tts_index_mono [of ts "Suc k"] by simp
    ultimately show ?thesis using False t e k(3) unfolding last ts_def [symmetric] by (auto intro!: exI [of _ "tts_index ts k + j"])
  qed
qed

subsection \<open>Sync samples\<close>

text \<open>The table holds a list of sync samples in increasing order, read from a box of the file.\<close>

definition sync_table :: "data_source \<Rightarrow> SampleTable \<Rightarrow> nat \<Rightarrow> nat list \<Rightarrow> bool" where
  "sync_table rd tb n syncs \<longleftrightarrow> holds rd (mSyncSampleOffset tb) (stss_box syncs) \<and>
     mNumSyncSamples tb = of_nat (length syncs) \<and> mSyncSamples tb = Some (map of_nat syncs) \<and>
     sorted_wrt (<) syncs \<and> (\<forall>s \<in> set syncs. s < n) \<and> n < 4294967296"

lemma sync_table_facts:
  assumes "sync_table rd tb n syncs"
  shows "length syncs < 536870912" "\<not> mSyncSampleOffset tb < 0" "k < length syncs \<Longrightarrow> syncs ! k < 4294967296"
    "k < length syncs \<Longrightarrow> array_at (mSyncSamples tb) (of_nat k) = Inr (of_nat (syncs ! k))"
    "k < 4294967296 \<Longrightarrow> (of_nat k :: u32) < mNumSyncSamples tb \<longleftrightarrow> k < length syncs"
proof -
  show l: "length syncs < 536870912" using assms by (simp add: sync_table_def holds_def length_boxes)
  show "\<not> mSyncSampleOffset tb < 0" using assms by (simp add: sync_table_def holds_def)
  show "k < length syncs \<Longrightarrow> syncs ! k < 4294967296"
    using assms by (metis nth_mem order.strict_trans sync_table_def)
  show "k < length syncs \<Longrightarrow> array_at (mSyncSamples tb) (of_nat k) = Inr (of_nat (syncs ! k))"
    using assms l by (simp add: sync_table_def array_at_def)
  show "k < 4294967296 \<Longrightarrow> (of_nat k :: u32) < mNumSyncSamples tb \<longleftrightarrow> k < length syncs"
    using assms l of_nat_u32(2) [of k "length syncs"] by (simp add: sync_table_def)
qed

definition syncs_before :: "nat list \<Rightarrow> nat \<Rightarrow> nat" where
  "syncs_before syncs start = length (takeWhile (\<lambda>s. s < start) syncs)"

lemma syncs_before:
  "syncs_before syncs start \<le> length syncs"
  "k < syncs_before syncs start \<Longrightarrow> syncs ! k < start"
  "syncs_before syncs start < length syncs \<Longrightarrow> start \<le> syncs ! syncs_before syncs start"
  using nth_length_takeWhile [of "\<lambda>s. s < start" syncs]
  by (auto simp: syncs_before_def length_takeWhile_le not_less dest: takeWhile_nth nth_mem set_takeWhileD)
     (metis nth_mem set_takeWhileD takeWhile_nth)

lemma sync_left_finds:
  assumes s: "sync_table rd tb n syncs" and "start < 4294967296" and "k \<le> syncs_before syncs start"
  shows "sync_left tb (of_nat start) (of_nat k) = Inr (of_nat (syncs_before syncs start))"
  using assms(3)
proof (induction "syncs_before syncs start - k" arbitrary: k)
  case (0 k)
  then have k: "k = syncs_before syncs start" by simp
  have "(of_nat start :: u32) \<le> of_nat (syncs ! k)" if "k < length syncs"
    using of_nat_u32(1) [OF assms(2) sync_table_facts(3) [OF s that]] syncs_before(3) that k by simp
  then show ?case using sync_table_facts(1) [OF s] sync_table_facts(4,5) [OF s, of k] syncs_before(1) [of syncs start] k
    by (subst sync_left.simps) auto
next
  case (Suc m k)
  then have k: "k < syncs_before syncs start" "k < length syncs" using syncs_before(1) [of syncs start] by auto
  have "\<not> (of_nat start :: u32) \<le> of_nat (syncs ! k)"
    using of_nat_u32(1) [OF assms(2) sync_table_facts(3) [OF s k(2)]] syncs_before(2) [OF k(1)] by simp
  then have "sync_left tb (of_nat start) (of_nat k) = sync_left tb (of_nat start) (of_nat (Suc k))"
    using sync_table_facts(1) [OF s] sync_table_facts(4,5) [OF s, of k] k(2) by (subst sync_left.simps) (simp add: add.commute)
  then show ?case using Suc.hyps(1) [of "Suc k"] Suc.hyps(2) k by simp
qed

lemma read_sync_nth:
  assumes s: "sync_table rd tb n syncs" and k: "k < length syncs"
  shows "read_sync rd tb (of_nat k) = Some (of_nat (syncs ! k))"
proof -
  have h: "holds rd (mSyncSampleOffset tb) (full_box (map (\<lambda>i. be32 (i + 1)) syncs))" using s by (simp only: sync_table_def stss_box_def)
  have "read_exactly rd (s32 (mSyncSampleOffset tb + 8 + uint (of_nat k * 4 :: u32))) 4 = Some (be32 (syncs ! k + 1))"
  proof -
    have len: "8 + k * 4 + 4 \<le> length (full_box (map (\<lambda>i. be32 (i + 1)) syncs))" using k by (simp add: length_boxes)
    have "uint (of_nat k * 4 :: u32) = int (k * 4)"
      using uint_index [of k 4] sync_table_facts(1) [OF s] k by (simp add: mult.commute)
    then have "mSyncSampleOffset tb + 8 + uint (of_nat k * 4 :: u32) = mSyncSampleOffset tb + int (8 + k * 4)" by simp
    moreover have "take 4 (drop (8 + k * 4) (full_box (map (\<lambda>i. be32 (i + 1)) syncs))) = be32 (syncs ! k + 1)"
      using full_box_entry(2) [of "map (\<lambda>i. be32 (i + 1)) syncs" 4 k] k by force
    ultimately show ?thesis using holds_read(2) [OF h len] by (simp add: add.assoc)
  qed
  then show ?thesis by (simp add: read_sync_def)
qed

text \<open>Before the first sync sample the index wraps, and the count of the box is read as a sample number.\<close>

lemma read_sync_wrapped:
  assumes s: "sync_table rd tb n syncs"
  shows "read_sync rd tb (0 - 1) = Some (of_nat (length syncs) - 1)"
proof -
  have h: "holds rd (mSyncSampleOffset tb) (stss_box syncs)" using s by (simp only: sync_table_def)
  have "mSyncSampleOffset tb + 8 + uint ((0 - 1) * 4 :: u32) = mSyncSampleOffset tb + int 4 + 4294967296" by simp
  then have "s32 (mSyncSampleOffset tb + 8 + uint ((0 - 1) * 4 :: u32)) = s32 (mSyncSampleOffset tb + int 4)"
    by (simp only:) (rule s32_cong, rule mod_add_self2)
  moreover have "read_exactly rd (s32 (mSyncSampleOffset tb + int 4)) 4 = Some (be32 (length syncs))"
    using holds_read(2) [OF h, of 4 4] by (simp add: length_boxes) (simp add: stss_box_def full_box_def)
  ultimately show ?thesis unfolding read_sync_def by (simp only: option.map ntohl_load32 U32_AT_be32_0)
qed

lemma seek_time_ok:
  assumes "table_matches rd tb tr" and "i < length (t_sizes tr)" and "iter_inv tr it"
  obtains it' where "seek_time rd tb (of_nat i) it = Inr (OK, of_nat (sample_time tr i), it')" "iter_inv tr it'"
  using seekTo_exact [OF assms] by (auto simp: seek_time_def at_sample_def getSampleTime_def)

definition time_dist :: "track \<Rightarrow> nat \<Rightarrow> nat \<Rightarrow> nat" where
  "time_dist tr i j = (if sample_time tr j < sample_time tr i then sample_time tr i - sample_time tr j else sample_time tr j - sample_time tr i)"

lemma nearer_sync_ok:
  assumes m: "table_matches rd tb tr" and s: "sync_table rd tb (length (t_sizes tr)) syncs" and inv: "iter_inv tr it"
    and D: "\<forall>i \<le> length (t_sizes tr). sample_time tr i < 4294967296"
    and x: "x < length (t_sizes tr)" "start < length (t_sizes tr)" and l: "left + 1 = of_nat k" "k < 4294967296"
  shows "\<exists>it'. iter_inv tr it' \<and> nearer_sync rd tb (of_nat start) (of_nat x) left it =
    (if k < length syncs \<and> time_dist tr (syncs ! k) start < time_dist tr x start
     then Inr (OK, of_nat (syncs ! k), of_nat k, it') else Inr (OK, of_nat x, left, it'))"
proof (cases "k < length syncs")
  case True
  have y: "syncs ! k < length (t_sizes tr)" using s True by (auto simp: sync_table_def)
  obtain it1 where 1: "seek_time rd tb (of_nat start) it = Inr (OK, of_nat (sample_time tr start), it1)" "iter_inv tr it1"
    by (rule seek_time_ok [OF m x(2) inv])
  obtain it2 where 2: "seek_time rd tb (of_nat x) it1 = Inr (OK, of_nat (sample_time tr x), it2)" "iter_inv tr it2"
    by (rule seek_time_ok [OF m x(1) 1(2)])
  obtain it3 where 3: "seek_time rd tb (of_nat (syncs ! k)) it2 = Inr (OK, of_nat (sample_time tr (syncs ! k)), it3)" "iter_inv tr it3"
    by (rule seek_time_ok [OF m y 2(2)])
  have t: "sample_time tr start < 4294967296" "sample_time tr x < 4294967296" "sample_time tr (syncs ! k) < 4294967296"
    using D x y by simp_all
  have a: "abs_difference (of_nat (sample_time tr i)) (of_nat (sample_time tr start)) = of_nat (time_dist tr i start)"
    "time_dist tr i start < 4294967296" if "sample_time tr i < 4294967296" for i
    using abs_difference_nat [OF that t(1)] that t(1) by (simp_all only: time_dist_def) auto
  have "abs_difference (of_nat (sample_time tr x)) (of_nat (sample_time tr start)) >
      abs_difference (of_nat (sample_time tr (syncs ! k))) (of_nat (sample_time tr start)) \<longleftrightarrow>
      time_dist tr (syncs ! k) start < time_dist tr x start"
    unfolding a(1) [OF t(2)] a(1) [OF t(3)] by (rule of_nat_u32(2) [OF a(2) [OF t(3)] a(2) [OF t(2)]])
  then have "nearer_sync rd tb (of_nat start) (of_nat x) left it =
      (if time_dist tr (syncs ! k) start < time_dist tr x start then Inr (OK, of_nat (syncs ! k), of_nat k, it3) else Inr (OK, of_nat x, left, it3))"
    using sync_table_facts(4,5) [OF s, of k] True l 1 2 3 unfolding nearer_sync_def l(1) by simp
  then show ?thesis using True 3(2) by auto
next
  case False
  then show ?thesis using sync_table_facts(5) [OF s l(2)] inv unfolding nearer_sync_def l(1) by auto
qed

lemma sample_time_less:
  assumes "\<forall>t \<in> set (t_times tr). 0 < snd t" and "i < j" and "j \<le> sum_list (map fst (t_times tr))"
  shows "sample_time tr i < sample_time tr j"
  using assms(2,3)
proof (induction j rule: less_Suc_induct)
  case (1 i)
  have l: "length (durations (t_times tr)) = sum_list (map fst (t_times tr))"
    by (simp add: durations_def length_concat comp_def case_prod_unfold)
  have "\<forall>d \<in> set (durations (t_times tr)). 0 < d" using assms(1) by (auto simp: durations_def)
  then have "0 < durations (t_times tr) ! i" using 1 l by (simp add: Ball_def)
  then show ?case using 1 l by (simp add: sample_time_def take_Suc_conv_app_nth)
qed simp

text \<open>What each flag asks for: the last sync sample up to the given one, the first from it on, or one that no other is nearer to in time.\<close>

definition sync_spec :: "track \<Rightarrow> nat list \<Rightarrow> u32 \<Rightarrow> nat \<Rightarrow> status_t \<Rightarrow> nat \<Rightarrow> bool" where
  "sync_spec tr syncs flags start st x \<longleftrightarrow>
     (if flags = kFlagBefore then st = OK \<and> x \<in> set syncs \<and> x \<le> start \<and> (\<forall>s \<in> set syncs. s \<le> start \<longrightarrow> s \<le> x)
      else if flags = kFlagAfter then
        (if \<exists>s \<in> set syncs. start \<le> s then st = OK \<and> x \<in> set syncs \<and> start \<le> x \<and> (\<forall>s \<in> set syncs. start \<le> s \<longrightarrow> x \<le> s)
         else st = ERROR_OUT_OF_RANGE \<and> x = 0)
      else st = OK \<and> x \<in> set syncs \<and> (\<forall>s \<in> set syncs. time_dist tr x start \<le> time_dist tr s start))"

definition sync_track_ok :: "track \<Rightarrow> nat list \<Rightarrow> bool" where
  "sync_track_ok tr syncs \<longleftrightarrow> syncs \<noteq> [] \<and> hd syncs = 0 \<and> (\<forall>t \<in> set (t_times tr). 0 < snd t) \<and>
     sum_list (durations (t_times tr)) < 4294967296"

lemma sync_times:
  assumes m: "table_matches rd tb tr" and ok: "sync_track_ok tr syncs"
  shows "\<forall>i \<le> length (t_sizes tr). sample_time tr i < 4294967296"
    and "i < j \<Longrightarrow> j < length (t_sizes tr) \<Longrightarrow> sample_time tr i < sample_time tr j"
proof -
  have "sample_time tr i \<le> sum_list (durations (t_times tr))" for i
    unfolding sample_time_def by (metis append_take_drop_id le_add1 sum_list_append)
  then show "\<forall>i \<le> length (t_sizes tr). sample_time tr i < 4294967296"
    using ok by (auto simp: sync_track_ok_def intro: le_less_trans)
  show "i < j \<Longrightarrow> j < length (t_sizes tr) \<Longrightarrow> sample_time tr i < sample_time tr j"
    using sample_time_less [of tr i j] m ok by (simp add: sync_track_ok_def table_matches_def track_ok_def)
qed

lemma length_syncs: "sync_table rd tb n syncs \<Longrightarrow> length syncs \<le> n"
proof -
  assume s: "sync_table rd tb n syncs"
  then have "distinct syncs" "set syncs \<subseteq> {..<n}" by (auto simp: sync_table_def strict_sorted_iff)
  then show ?thesis using card_mono [of "{..<n}" "set syncs"] by (simp add: distinct_card)
qed

lemma sync_first:
  assumes m: "table_matches rd tb tr" and s: "sync_table rd tb (length (t_sizes tr)) syncs" and ok: "sync_track_ok tr syncs"
    and inv: "iter_inv tr it" and n: "0 < length (t_sizes tr)"
  shows "\<exists>it'. findSyncSampleNear rd tb 0 flags it = Inr (OK, 0, it') \<and> iter_inv tr it'"
proof -
  define c where "c = length syncs - 1"
  have len: "length syncs = Suc c" "syncs ! 0 = 0" using ok by (auto simp: c_def sync_track_ok_def hd_conv_nth)
  have c: "c < length (t_sizes tr)" using length_syncs [OF s] len by simp
  have "syncs_before syncs 0 = 0" by (cases syncs) (simp_all add: syncs_before_def)
  then have l: "sync_left tb 0 0 = Inr 0" using sync_left_finds [OF s, of 0 0] by simp
  have r: "read_sync rd tb (0 - 1) = Some (of_nat c)" using read_sync_wrapped [OF s] len by simp
  note near = nearer_sync_ok [OF m s inv sync_times(1) [OF m ok] c n, of "0 - 1" 0]
  have "0 < c \<Longrightarrow> time_dist tr 0 0 < time_dist tr c 0" using sync_times(2) [OF m ok, of 0 c] c by (simp add: time_dist_def)
  then have "\<exists>left it'. nearer_sync rd tb 0 (of_nat c) (0 - 1) it = Inr (OK, 0, left, it') \<and> iter_inv tr it'"
    using near len by (cases "c = 0") auto
  moreover have "mNumSyncSamples tb \<noteq> 0" using sync_table_facts(5) [OF s, of 0] len by auto
  ultimately show ?thesis using l r sync_table_facts(2) [OF s] by (auto simp: findSyncSampleNear_def Let_def)
qed

lemma sync_finish:
  assumes "\<not> mSyncSampleOffset tb < 0" and "mNumSyncSamples tb \<noteq> 0" and "sync_left tb S 0 = Inr L"
    and "read_sync rd tb (L - 1) = Some X"
    and near: "nearer_sync rd tb S X (L - 1) it = (if A \<and> C then Inr (OK, Y, L, it') else Inr (OK, X, L - 1, it'))"
    and "A \<Longrightarrow> array_at (mSyncSamples tb) L = Inr Y \<and> S \<le> Y" and "A \<Longrightarrow> Y = S \<Longrightarrow> C"
    and "L < mNumSyncSamples tb \<longleftrightarrow> A" and "X < S" and "0 < L"
  shows "findSyncSampleNear rd tb S flags it =
    (if flags = kFlagBefore then Inr (OK, if A \<and> Y = S then S else X, it')
     else if flags = kFlagAfter then (if A then Inr (OK, Y, it') else Inr (ERROR_OUT_OF_RANGE, 0, it'))
     else Inr (OK, if A \<and> C then Y else X, it'))"
proof (cases "A \<and> C")
  case True
  then have "A" "C" by simp_all
  then show ?thesis using assms by (auto simp: findSyncSampleNear_def Let_def)
next
  case False
  then have "nearer_sync rd tb S X (L - 1) it = Inr (OK, X, L - 1, it')" using near by simp
  then show ?thesis using False assms(1-4,6-) by (auto simp: findSyncSampleNear_def Let_def)
qed

lemma sync_between:
  assumes m: "table_matches rd tb tr" and s: "sync_table rd tb (length (t_sizes tr)) syncs" and ok: "sync_track_ok tr syncs"
    and inv: "iter_inv tr it" and n: "0 < start" "start < length (t_sizes tr)" and l: "l = syncs_before syncs start"
  obtains it' where "iter_inv tr it'" "0 < l" "l \<le> length syncs"
    "findSyncSampleNear rd tb (of_nat start) flags it =
      (if flags = kFlagBefore then Inr (OK, of_nat (if l < length syncs \<and> syncs ! l = start then start else syncs ! (l - 1)), it')
       else if flags = kFlagAfter then (if l < length syncs then Inr (OK, of_nat (syncs ! l), it') else Inr (ERROR_OUT_OF_RANGE, 0, it'))
       else Inr (OK, of_nat (if l < length syncs \<and> time_dist tr (syncs ! l) start < time_dist tr (syncs ! (l - 1)) start
              then syncs ! l else syncs ! (l - 1)), it'))"
proof -
  have len: "0 < length syncs" "syncs ! 0 = 0" using ok by (auto simp: sync_track_ok_def hd_conv_nth)
  then have l0: "0 < l" using syncs_before(3) [of syncs start] n(1) unfolding l by (cases "syncs_before syncs start") auto
  have ll: "l \<le> length syncs" "l < 536870912" using syncs_before(1) [of syncs start] sync_table_facts(1) [OF s] by (auto simp: l)
  define p where "p = syncs ! (l - 1)"
  have p: "p < start" "p < length (t_sizes tr)" using syncs_before(2) [of "l - 1" syncs start] l0 n by (auto simp: p_def l)
  have s32: "start < 4294967296" "p < 4294967296" using n(2) p m by (auto simp: table_matches_def track_ok_def)
  have sl: "sync_left tb (of_nat start) 0 = Inr (of_nat l)" using sync_left_finds [OF s s32(1), of 0] by (simp add: l)
  have pred: "(of_nat l - 1 :: u32) = of_nat (l - 1)" using l0 by (simp add: of_nat_diff)
  have r: "read_sync rd tb (of_nat (l - 1)) = Some (of_nat p)" using read_sync_nth [OF s, of "l - 1"] l0 ll by (simp add: p_def)
  have k: "(of_nat (l - 1) + 1 :: u32) = of_nat l" using l0 by (metis Suc_pred' add.commute of_nat_Suc)
  obtain it' where it': "iter_inv tr it'" "nearer_sync rd tb (of_nat start) (of_nat p) (of_nat (l - 1)) it =
      (if l < length syncs \<and> time_dist tr (syncs ! l) start < time_dist tr p start
       then Inr (OK, of_nat (syncs ! l), of_nat l, it') else Inr (OK, of_nat p, of_nat (l - 1), it'))"
    using nearer_sync_ok [OF m s inv sync_times(1) [OF m ok] p(2) n(2) k] ll by auto
  have num: "mNumSyncSamples tb \<noteq> 0" "(of_nat l :: u32) < mNumSyncSamples tb \<longleftrightarrow> l < length syncs"
    using sync_table_facts(5) [OF s, of 0] sync_table_facts(5) [OF s, of l] len ll by auto
  have y: "array_at (mSyncSamples tb) (of_nat l) = Inr (of_nat (syncs ! l)) \<and> (of_nat start :: u32) \<le> of_nat (syncs ! l)"
    if "l < length syncs"
    using sync_table_facts(4) [OF s that] of_nat_u32(1) [OF s32(1) sync_table_facts(3) [OF s that]]
      syncs_before(3) [of syncs start, folded l, OF that] by blast
  have pw: "(of_nat p :: u32) < of_nat start" using of_nat_u32(2) [OF s32(2,1)] p(1) by simp
  have lw: "(of_nat l :: u32) > 0" using of_nat_u32(2) [of 0 l] l0 ll by simp
  have eq: "time_dist tr (syncs ! l) start < time_dist tr p start" if "l < length syncs" "syncs ! l = start"
    using that sync_times(2) [OF m ok p(1) n(2)] by (simp add: time_dist_def)
  have yeq: "of_nat (syncs ! l) = (of_nat start :: u32) \<longleftrightarrow> syncs ! l = start" if "l < length syncs"
    using of_nat_u32(3) [OF sync_table_facts(3) [OF s that] s32(1)] .
  note fin = sync_finish [OF sync_table_facts(2) [OF s] num(1) sl r [folded pred] it'(2) [folded pred] _ _ num(2) pw lw]
  have "findSyncSampleNear rd tb (of_nat start) flags it =
      (if flags = kFlagBefore then Inr (OK, if l < length syncs \<and> (of_nat (syncs ! l) :: u32) = of_nat start then of_nat start else of_nat p, it')
       else if flags = kFlagAfter then (if l < length syncs then Inr (OK, of_nat (syncs ! l), it') else Inr (ERROR_OUT_OF_RANGE, 0, it'))
       else Inr (OK, if l < length syncs \<and> time_dist tr (syncs ! l) start < time_dist tr p start then of_nat (syncs ! l) else of_nat p, it'))"
    by (rule fin) (use y yeq eq in auto)
  then show ?thesis by (intro that [OF it'(1) l0 ll(1)]) (simp only: p_def [symmetric] yeq if_distrib [of of_nat] cong: conj_cong)
qed

lemma sync_order:
  assumes sorted: "sorted_wrt (<) syncs" and s: "s \<in> set syncs" and l: "l = syncs_before syncs start"
  shows "s < start \<Longrightarrow> 0 < l \<Longrightarrow> s \<le> syncs ! (l - 1)" and "start \<le> s \<Longrightarrow> l < length syncs \<and> syncs ! l \<le> s"
proof -
  obtain i where i: "i < length syncs" "s = syncs ! i" using s by (metis in_set_conv_nth)
  have mono: "a \<le> b \<Longrightarrow> b < length syncs \<Longrightarrow> syncs ! a \<le> syncs ! b" for a b
    using sorted_wrt_nth_less [OF sorted, of a b] by (cases "a = b") (auto simp: less_imp_le)
  have le: "l \<le> length syncs" using syncs_before(1) l by simp
  have out: "\<not> l \<le> i" if "s < start" using that syncs_before(3) [of syncs start] mono [of l i] i by (auto simp: l)
  show "s \<le> syncs ! (l - 1)" if "s < start" "0 < l" using out [OF that(1)] mono [of i "l - 1"] le i that by simp
  show "l < length syncs \<and> syncs ! l \<le> s" if "start \<le> s"
    using that syncs_before(2) [of i syncs start] mono [of l i] i by (force simp: l)
qed

lemma sync_neighbours:
  assumes m: "table_matches rd tb tr" and s: "sync_table rd tb (length (t_sizes tr)) syncs" and ok: "sync_track_ok tr syncs"
    and n: "start < length (t_sizes tr)" and l: "l = syncs_before syncs start" "0 < l" "l \<le> length syncs"
  shows "syncs ! (l - 1) \<in> set syncs" "syncs ! (l - 1) < start"
    and "z \<in> set syncs \<Longrightarrow> z < start \<Longrightarrow> z \<le> syncs ! (l - 1) \<and> time_dist tr (syncs ! (l - 1)) start \<le> time_dist tr z start"
    and "z \<in> set syncs \<Longrightarrow> start \<le> z \<Longrightarrow> l < length syncs \<and> syncs ! l \<le> z \<and> time_dist tr (syncs ! l) start \<le> time_dist tr z start"
proof -
  show p: "syncs ! (l - 1) \<in> set syncs" "syncs ! (l - 1) < start" using l(2,3) syncs_before(2) [of "l - 1" syncs start] by (auto simp: l(1))
  have srt: "sorted_wrt (<) syncs" "\<forall>z \<in> set syncs. z < length (t_sizes tr)" using s by (simp_all add: sync_table_def)
  note ord = sync_order [OF srt(1) _ l(1)]
  have t: "sample_time tr a \<le> sample_time tr b" if "a \<le> b" "b < length (t_sizes tr)" for a b
    using sync_times(2) [OF m ok, of a b] that by (cases "a = b") auto
  show "z \<le> syncs ! (l - 1) \<and> time_dist tr (syncs ! (l - 1)) start \<le> time_dist tr z start" if z: "z \<in> set syncs" "z < start"
    using ord(1) [OF z l(2)] t [of z "syncs ! (l - 1)"] t [of "syncs ! (l - 1)" start] p(2) n by (simp add: time_dist_def)
  show "l < length syncs \<and> syncs ! l \<le> z \<and> time_dist tr (syncs ! l) start \<le> time_dist tr z start" if z: "z \<in> set syncs" "start \<le> z"
    using ord(2) [OF z] syncs_before(3) [of syncs start, folded l(1)] t [of start "syncs ! l"] t [of "syncs ! l" z] srt(2) z(1)
    by (auto simp: time_dist_def)
qed

lemma sync_found:
  assumes m: "table_matches rd tb tr" and s: "sync_table rd tb (length (t_sizes tr)) syncs" and ok: "sync_track_ok tr syncs"
    and inv: "iter_inv tr it" and n: "start < length (t_sizes tr)"
  shows "\<exists>st x it'. findSyncSampleNear rd tb (of_nat start) flags it = Inr (st, of_nat x, it') \<and> iter_inv tr it' \<and>
    sync_spec tr syncs flags start st x"
proof (cases "start = 0")
  case True
  have "0 \<in> set syncs" using ok by (metis hd_in_set sync_track_ok_def)
  then have "sync_spec tr syncs flags 0 OK 0" by (auto simp: sync_spec_def time_dist_def)
  then show ?thesis using sync_first [OF m s ok inv, of flags] n True by force
next
  case False
  define l where "l = syncs_before syncs start"
  obtain it' where it': "iter_inv tr it'" "0 < l" "l \<le> length syncs" "findSyncSampleNear rd tb (of_nat start) flags it =
      (if flags = kFlagBefore then Inr (OK, of_nat (if l < length syncs \<and> syncs ! l = start then start else syncs ! (l - 1)), it')
       else if flags = kFlagAfter then (if l < length syncs then Inr (OK, of_nat (syncs ! l), it') else Inr (ERROR_OUT_OF_RANGE, 0, it'))
       else Inr (OK, of_nat (if l < length syncs \<and> time_dist tr (syncs ! l) start < time_dist tr (syncs ! (l - 1)) start
              then syncs ! l else syncs ! (l - 1)), it'))"
    using sync_between [OF m s ok inv _ n l_def] False by blast
  note nb = sync_neighbours [OF m s ok n l_def it'(2,3)]
  have y: "syncs ! l \<in> set syncs" "start \<le> syncs ! l" if "l < length syncs" using that syncs_before(3) by (auto simp: l_def)
  have ex: "(\<exists>z\<in>set syncs. start \<le> z) \<longleftrightarrow> l < length syncs" using y nb(4) by blast
  consider (before) "flags = kFlagBefore" | (after) "flags \<noteq> kFlagBefore" "flags = kFlagAfter" | (closest) "flags \<noteq> kFlagBefore" "flags \<noteq> kFlagAfter"
    by blast
  then show ?thesis
  proof cases
    case before
    define x where "x = (if l < length syncs \<and> syncs ! l = start then start else syncs ! (l - 1))"
    have "z \<le> x" if "z \<in> set syncs" "z \<le> start" for z using nb(3,4) [of z] that y by (fastforce simp: x_def le_less)
    then have "sync_spec tr syncs flags start OK x" using before nb(1,2) y by (auto simp: sync_spec_def x_def)
    then show ?thesis using it'(1,4) before x_def by auto
  next
    case after
    have "sync_spec tr syncs flags start (if l < length syncs then OK else ERROR_OUT_OF_RANGE) (if l < length syncs then syncs ! l else 0)"
      using after y nb(4) by (auto simp: sync_spec_def ex)
    then show ?thesis using it'(1,4) after by (cases "l < length syncs") force+
  next
    case closest
    define x where "x = (if l < length syncs \<and> time_dist tr (syncs ! l) start < time_dist tr (syncs ! (l - 1)) start then syncs ! l else syncs ! (l - 1))"
    have "time_dist tr x start \<le> time_dist tr z start" if "z \<in> set syncs" for z
      using nb(3,4) [OF that] by (cases "z < start") (auto simp: x_def)
    then have "sync_spec tr syncs flags start OK x" using closest nb(1) y by (auto simp: sync_spec_def x_def)
    then show ?thesis using it'(1,4) closest x_def by auto
  qed
qed

subsection \<open>The data of a sample\<close>

lemma sync_scan_left: "sync_scan tb s i = sync_left tb s i"
proof (induction tb s i rule: sync_scan.induct)
  case (1 tb s i)
  then show ?case by (subst sync_scan.simps, subst sync_left.simps) (auto simp: not_le split: sum.splits)
qed

text \<open>The search resumes at a place that is not behind the sample.\<close>

lemma sync_resume:
  assumes s: "sync_table rd tb n syncs" and i: "i < 4294967296"
  shows "\<exists>k0. (if mLastSyncSampleIndex tb < mNumSyncSamples tb
      then map_sum id (\<lambda>x. if x \<le> of_nat i then mLastSyncSampleIndex tb else 0) (array_at (mSyncSamples tb) (mLastSyncSampleIndex tb))
      else Inr 0) = Inr (of_nat k0) \<and> k0 \<le> syncs_before syncs i"
proof -
  define k where "k = unat (mLastSyncSampleIndex tb)"
  have kw: "mLastSyncSampleIndex tb = of_nat k" "k < 4294967296" using unat_u32_less by (simp_all add: k_def)
  have sorted: "sorted_wrt (<) syncs" using s by (simp add: sync_table_def)
  show ?thesis
  proof (cases "k < length syncs \<and> syncs ! k \<le> i")
    case True
    have "k \<le> syncs_before syncs i"
    proof (rule ccontr)
      assume k: "\<not> k \<le> syncs_before syncs i"
      then have "syncs ! syncs_before syncs i < syncs ! k" using sorted_wrt_nth_less [OF sorted, of "syncs_before syncs i" k] True by simp
      then show False using syncs_before(3) [of syncs i] True k by simp
    qed
    then show ?thesis using True sync_table_facts(4,5) [OF s, of k] of_nat_u32(1) [OF sync_table_facts(3) [OF s, of k] i] kw by auto
  next
    case False
    then show ?thesis using sync_table_facts(4,5) [OF s, of k] of_nat_u32(1) [OF sync_table_facts(3) [OF s, of k] i] kw
      by (intro exI [of _ 0]) auto
  qed
qed

lemma sync_flag_exact:
  assumes s: "sync_table rd tb n syncs" and i: "i < 4294967296"
  shows "\<exists>k. sync_flag tb (of_nat i) = Inr (i \<in> set syncs, tb\<lparr> mLastSyncSampleIndex := k \<rparr>)"
proof -
  define l where "l = syncs_before syncs i"
  have sorted: "sorted_wrt (<) syncs" using s by (simp add: sync_table_def)
  obtain k0 where k0: "(if mLastSyncSampleIndex tb < mNumSyncSamples tb
      then map_sum id (\<lambda>x. if x \<le> of_nat i then mLastSyncSampleIndex tb else 0) (array_at (mSyncSamples tb) (mLastSyncSampleIndex tb))
      else Inr 0) = Inr (of_nat k0)" "k0 \<le> l" using sync_resume [OF s i] by (auto simp: l_def)
  have scan: "sync_scan tb (of_nat i) (of_nat k0) = Inr (of_nat l)"
    using sync_left_finds [OF s i] k0(2) by (simp add: sync_scan_left l_def)
  have l: "l \<le> length syncs" "l < 4294967296" using syncs_before(1) [of syncs i] sync_table_facts(1) [OF s] by (auto simp: l_def)
  have mem: "i \<in> set syncs \<longleftrightarrow> l < length syncs \<and> syncs ! l = i"
    using sync_order(2) [OF sorted _ l_def, of i] syncs_before(3) [of syncs i, folded l_def] by (metis le_antisym nth_mem order_refl)
  show ?thesis
  proof (cases "l < length syncs")
    case True
    then show ?thesis using k0(1) scan sync_table_facts(2) [OF s] sync_table_facts(4,5) [OF s, of l] l(2) mem
        of_nat_u32(3) [OF sync_table_facts(3) [OF s True] i] by (auto simp: sync_flag_def)
  next
    case False
    then show ?thesis using k0(1) scan sync_table_facts(2) [OF s] sync_table_facts(5) [OF s l(2)] mem by (auto simp: sync_flag_def)
  qed
qed

lemma last_index_frame:
  "table_matches rd (tb\<lparr> mLastSyncSampleIndex := k \<rparr>) tr = table_matches rd tb tr"
  "sync_table rd (tb\<lparr> mLastSyncSampleIndex := k \<rparr>) n syncs = sync_table rd tb n syncs"
  by (simp_all add: table_matches_def sync_table_def getChunkOffset_def getSampleSizeDirect_def)

text \<open>A sequence of reads of the data of samples, and what they return by the track alone.\<close>

fun meta_all :: "data_source \<Rightarrow> SampleTable \<Rightarrow> SampleIterator \<Rightarrow> u32 list \<Rightarrow> media_fault + (status_t \<times> (int \<times> u32 \<times> u32 \<times> bool) option) list" where
  "meta_all rd tb it [] = Inr []"
| "meta_all rd tb it (i # is) =
     (case getMetaDataForSample rd tb i it of
        Inl e \<Rightarrow> Inl e
      | Inr (st, d, tb, it) \<Rightarrow> map_sum id (Cons (st, d)) (meta_all rd tb it is))"

definition meta_spec :: "track \<Rightarrow> nat list \<Rightarrow> u32 \<Rightarrow> status_t \<times> (int \<times> u32 \<times> u32 \<times> bool) option" where
  "meta_spec tr syncs i =
     (case seek_spec tr i of (st, d) \<Rightarrow> (st, map_option (\<lambda>(off, n, t). (off, n, t, unat i \<in> set syncs)) d))"

lemma meta_all_exact:
  assumes "table_matches rd tb tr" and "sync_table rd tb (length (t_sizes tr)) syncs" and "iter_inv tr it"
  shows "meta_all rd tb it is = Inr (map (meta_spec tr syncs) is)"
  using assms
proof (induction "is" arbitrary: tb it)
  case (Cons i "is")
  note m = Cons.prems(1)
  show ?case
  proof (cases "unat i < length (t_sizes tr)")
    case True
    obtain it' where it': "seekTo rd tb (of_nat (unat i)) it = Inr (OK, it')" "iter_inv tr it'" "at_sample tr (unat i) it'"
      using seekTo_exact [OF m True Cons.prems(3)] by blast
    obtain k where k: "sync_flag tb i = Inr (unat i \<in> set syncs, tb\<lparr> mLastSyncSampleIndex := k \<rparr>)"
      using sync_flag_exact [OF Cons.prems(2), of "unat i"] unat_u32_less by auto
    have "meta_all rd (tb\<lparr> mLastSyncSampleIndex := k \<rparr>) it' is = Inr (map (meta_spec tr syncs) is)"
      using Cons.prems it'(2) by (intro Cons.IH) (simp_all add: last_index_frame)
    then show ?thesis using True it' k
      by (simp add: getMetaDataForSample_def meta_spec_def seek_spec_def at_sample_def getSampleOffset_def getSampleSize_def getSampleTime_def)
  next
    case False
    have "mNumSampleSizes tb \<le> i" using m False by (simp add: table_matches_def track_ok_def word_le_nat_alt)
    then have "seekTo rd tb i it = Inr (ERROR_END_OF_STREAM, it)" by (simp add: seekTo_def)
    then show ?thesis using False Cons.IH [OF Cons.prems] by (simp add: getMetaDataForSample_def meta_spec_def seek_spec_def)
  qed
qed simp

lemma max_size_loop_exact:
  assumes m: "table_matches rd tb tr"
  shows "a + k = length (t_sizes tr) \<Longrightarrow> M < 4294967296 \<Longrightarrow>
    max_size_loop rd tb (of_nat a) k (of_nat M) = Inr (OK, of_nat (fold max (drop a (t_sizes tr)) M))"
proof (induction k arbitrary: a M)
  case (Suc k)
  define s where "s = t_sizes tr ! a"
  have s: "getSampleSizeDirect rd tb (of_nat a) = Inr (OK, of_nat s)" "s < 4294967296"
    using m Suc.prems by (auto simp: table_matches_def track_ok_def s_def)
  have "drop a (t_sizes tr) = s # drop (Suc a) (t_sizes tr)" using Suc.prems by (simp add: Cons_nth_drop_Suc s_def)
  moreover have "(if (of_nat M :: u32) < of_nat s then of_nat s else of_nat M) = (of_nat (max s M) :: u32)"
    using of_nat_u32(2) [OF Suc.prems(2) s(2)] by (auto simp: max_def)
  ultimately show ?case using Suc.IH [of "Suc a" "max s M"] Suc.prems s by (simp add: add.commute)
qed simp

lemma thumbnail_loop_exact:
  assumes m: "table_matches rd tb tr" and s: "sync_table rd tb (length (t_sizes tr)) syncs"
  shows "a + k \<le> length syncs \<Longrightarrow> (0 < a \<Longrightarrow> best \<in> set (take a syncs) \<and> (\<forall>z \<in> set (take a syncs). t_sizes tr ! z \<le> t_sizes tr ! best)) \<Longrightarrow>
    0 < a + k \<Longrightarrow> \<exists>x. thumbnail_loop rd tb (of_nat a) k (of_nat best) (if a = 0 then 0 else of_nat (t_sizes tr ! best)) = Inr (OK, of_nat x) \<and>
      x \<in> set (take (a + k) syncs) \<and> (\<forall>z \<in> set (take (a + k) syncs). t_sizes tr ! z \<le> t_sizes tr ! x)"
proof (induction k arbitrary: a best)
  case (Suc k)
  define y where "y = syncs ! a"
  have a: "a < length syncs" "a < 4294967296" using Suc.prems(1) sync_table_facts(1) [OF s] by auto
  have N: "\<forall>z \<in> set syncs. z < length (t_sizes tr)" using s by (simp add: sync_table_def)
  have arr: "array_at (mSyncSamples tb) (of_nat a) = Inr (of_nat y)" using sync_table_facts(4) [OF s a(1)] by (simp add: y_def)
  have y: "getSampleSizeDirect rd tb (of_nat y) = Inr (OK, of_nat (t_sizes tr ! y))" using m N a(1) by (auto simp: table_matches_def y_def)
  have zero: "(of_nat a :: u32) = 0 \<longleftrightarrow> a = 0" using of_nat_u32(3) [OF a(2), of 0] by simp
  have tk: "set (take (Suc a) syncs) = insert y (set (take a syncs))" using a(1) by (simp add: take_Suc_conv_app_nth y_def)
  have lt: "a \<noteq> 0 \<Longrightarrow> (of_nat (t_sizes tr ! best) :: u32) < of_nat (t_sizes tr ! y) \<longleftrightarrow> t_sizes tr ! best < t_sizes tr ! y"
  proof -
    assume "a \<noteq> 0"
    then have "best < length (t_sizes tr)" "y < length (t_sizes tr)" using Suc.prems(2) N a(1) by (auto simp: y_def dest: in_set_takeD)
    then show ?thesis using m by (intro of_nat_u32(2)) (auto simp: table_matches_def track_ok_def)
  qed
  define best' where "best' = (if a = 0 \<or> t_sizes tr ! best < t_sizes tr ! y then y else best)"
  have step: "thumbnail_loop rd tb (of_nat a) (Suc k) (of_nat best) (if a = 0 then 0 else of_nat (t_sizes tr ! best)) =
      thumbnail_loop rd tb (of_nat (Suc a)) k (of_nat best') (if Suc a = 0 then 0 else of_nat (t_sizes tr ! best'))"
    using arr y zero lt by (auto simp: best'_def add.commute)
  have "best' \<in> set (take (Suc a) syncs) \<and> (\<forall>z \<in> set (take (Suc a) syncs). t_sizes tr ! z \<le> t_sizes tr ! best')"
    using Suc.prems(2) unfolding tk best'_def by (cases "a = 0") force+
  then show ?case unfolding step using Suc.IH [of "Suc a" best'] Suc.prems(1) by simp
qed auto


text \<open>The example file with a table of sync samples behind it.\<close>

definition sync_file :: "u8 list" where "sync_file = example_file @ stss_box [0, 3]"

definition sync_rd :: data_source where "sync_rd = FileSource_readAt (open_file sync_file)"

lemma length_example_file: "length example_file = 108"
  by (simp add: example_file_def length_boxes example_track_def)

lemma sync_file_holds:
  "holds sync_rd 0 (stts_box (t_times example_track))" "holds sync_rd 24 (stsc_box (t_runs example_track))"
  "holds sync_rd 56 (stsz_box (t_sizes example_track))" "holds sync_rd 88 (stco_box False (t_offsets example_track))"
  "holds sync_rd 108 (stss_box [0, 3])"
proof -
  note f = sync_rd_def sync_file_def example_file_def
  let ?a = "stts_box (t_times example_track)" and ?b = "stsc_box (t_runs example_track)" and ?c = "stsz_box (t_sizes example_track)"
    and ?d = "stco_box False (t_offsets example_track)" and ?e = "stss_box [0, 3]"
  have l: "length ?a = 24" "length ?b = 32" "length ?c = 32" "length ?d = 20" "length ?e = 16" by (simp_all add: length_boxes example_track_def)
  show "holds sync_rd 0 ?a" using file_holds [of "[]" ?a "?b @ ?c @ ?d @ ?e"] l by (simp add: f)
  show "holds sync_rd 24 ?b" using file_holds [of ?a ?b "?c @ ?d @ ?e"] l by (simp add: f)
  show "holds sync_rd 56 ?c" using file_holds [of "?a @ ?b" ?c "?d @ ?e"] l by (simp add: f)
  show "holds sync_rd 88 ?d" using file_holds [of "?a @ ?b @ ?c" ?d ?e] l by (simp add: f)
  show "holds sync_rd 108 ?e" using file_holds [of "?a @ ?b @ ?c @ ?d" ?e "[]"] l by (simp add: f)
qed

lemma example_tables: "\<exists>tb. table_matches sync_rd tb example_track \<and> sync_table sync_rd tb (length (t_sizes example_track)) [0, 3]"
proof -
  let ?tb = "SampleTable_new\<lparr> mSyncSampleOffset := 108, mNumSyncSamples := 2, mSyncSamples := Some [0, 3] \<rparr>"
  have sizes: "(32 :: nat) \<in> {4, 8, 32}" "\<forall>n \<in> set (t_sizes example_track). n < 2 ^ 32" by (simp_all add: example_track_def)
  have box: "size_box 32 (t_sizes example_track) = stsz_box (t_sizes example_track)" by (simp add: size_box_def)
  have new: "mTimeToSample ?tb = None" "mSampleToChunkOffset ?tb < 0" "mSampleSizeOffset ?tb < 0" "mChunkOffsetOffset ?tb < 0"
    by (simp_all add: SampleTable_new_def)
  obtain tb where "table_matches sync_rd tb example_track" "mSyncSampleOffset tb = 108" "mNumSyncSamples tb = 2" "mSyncSamples tb = Some [0, 3]"
    using boxes_match [OF example_track_ok sizes _ sync_file_holds(1,2) sync_file_holds(3) [folded box] sync_file_holds(4) new,
        of "\<lambda>_. True" undefined undefined] by auto
  moreover have "length (t_sizes example_track) = 5" by (simp add: example_track_def)
  ultimately show ?thesis using sync_file_holds(5) by (auto simp: sync_table_def)
qed

lemma example_sync_ok: "sync_track_ok example_track [0, 3]" "sum_list (map fst (t_times example_track)) = length (t_sizes example_track)"
  by (simp_all add: sync_track_ok_def example_track_layout) (simp_all add: example_track_def)

lemma example_times: "sample_time example_track 0 = 0" "sample_time example_track 3 = 3000"
  by (simp_all add: sample_time_def example_track_layout)


subsection \<open>What the functions return\<close>

text \<open>
  C28. The sample at a time: an error exactly for the times after the last sample; otherwise, where sample \<open>j\<close> is
  being shown at that time, \<open>kFlagBefore\<close> gives \<open>j\<close>, \<open>kFlagAfter\<close> gives the first sample that begins at or after
  the time (or the last one), and \<open>kFlagClosest\<close> the nearer of \<open>j\<close> and \<open>j + 1\<close>, except in the last run of the
  table, where it is always \<open>j\<close>. Neither overflow nor a division by zero can occur for tracks shorter than
  \<open>2 ^ 32\<close> units.
\<close>
theorem sample_at_time:
  assumes "table_matches rd tb tr" and "sum_list (durations (t_times tr)) < 4294967296" and "req < 4294967296"
  shows "if sum_list (durations (t_times tr)) \<le> req then findSampleAtTime tb (of_nat req) flags = Inr (ERROR_OUT_OF_RANGE, 0)
    else \<exists>j. j < sum_list (map fst (t_times tr)) \<and> sample_time tr j \<le> req \<and> req < sample_time tr (j + 1) \<and>
      findSampleAtTime tb (of_nat req) flags =
        Inr (OK, of_nat (sample_choice (sum_list (map fst (butlast (t_times tr))) \<le> j) flags (length (t_sizes tr)) req j
                           (sample_time tr j) (sample_time tr (j + 1))))"
  using assms by (rule sample_found)

theorem sample_at_time_witness:
  "\<exists>tb j. findSampleAtTime tb 1800 kFlagBefore = Inr (OK, of_nat j) \<and> sample_time example_track j \<le> 1800 \<and> 1800 < sample_time example_track (j + 1)"
proof -
  obtain tb where t: "table_matches sync_rd tb example_track" using example_tables by blast
  have d: "sum_list (durations (t_times example_track)) = 4000" by (simp add: example_track_layout)
  show ?thesis using sample_at_time [OF t, of 1800 kFlagBefore] d by (auto simp: sample_choice_def)
qed

text \<open>
  The sync sample near a sample, for the three flags: the last one at or before it, the first one at or after it
  (or an error when there is none), and one with the least distance in time. The search never aborts, reads only
  inside the table, and keeps the invariant of the iterator that it moves.
\<close>
theorem sync_sample_near:
  assumes "table_matches rd tb tr" and "sync_table rd tb (length (t_sizes tr)) syncs" and "sync_track_ok tr syncs"
    and "iter_inv tr it" and "start < length (t_sizes tr)"
  shows "\<exists>st x it'. findSyncSampleNear rd tb (of_nat start) flags it = Inr (st, of_nat x, it') \<and> iter_inv tr it' \<and>
    sync_spec tr syncs flags start st x"
  using assms by (rule sync_found)

theorem sync_sample_near_witness:
  "\<exists>tb it. findSyncSampleNear sync_rd tb 1 kFlagAfter (SampleIterator_new undefined) = Inr (OK, 3, it)"
proof -
  obtain tb where t: "table_matches sync_rd tb example_track" "sync_table sync_rd tb (length (t_sizes example_track)) [0, 3]"
    using example_tables by blast
  have n: "1 < length (t_sizes example_track)" by (simp add: example_track_def)
  show ?thesis using sync_sample_near [OF t example_sync_ok(1) new_inv n, of kFlagAfter undefined]
    by (auto simp: sync_spec_def kFlagAfter_def kFlagBefore_def intro!: exI [of _ tb])
qed

text \<open>
  C23. The data of the samples. Any sequence of calls of \<open>getMetaDataForSample\<close> on a fresh iterator returns for
  each sample its position, size, time and whether it is a sync sample: neither the iterator nor the place where
  the last search of the sync table ended shows in the results.
\<close>
theorem sample_metadata:
  assumes "table_matches rd tb tr" and "sync_table rd tb (length (t_sizes tr)) syncs"
  shows "meta_all rd tb (SampleIterator_new junk) is = Inr (map (meta_spec tr syncs) is)"
  using assms new_inv by (rule meta_all_exact)

theorem sample_metadata_witness:
  "\<exists>tb. meta_all sync_rd tb (SampleIterator_new undefined) [3, 4, 0, 9] =
     Inr [(OK, Some (230, 40, 3000, True)), (OK, Some (300, 50, 3500, False)), (OK, Some (100, 10, 0, True)), (ERROR_END_OF_STREAM, None)]"
proof -
  obtain tb where t: "table_matches sync_rd tb example_track" "sync_table sync_rd tb (length (t_sizes example_track)) [0, 3]"
    using example_tables by blast
  have "map (meta_spec example_track [0, 3]) [3, 4, 0, 9] =
     [(OK, Some (230, 40, 3000, True)), (OK, Some (300, 50, 3500, False)), (OK, Some (100, 10, 0, True)), (ERROR_END_OF_STREAM, None)]"
    using example_seeks by (simp add: meta_spec_def)
  then show ?thesis using sample_metadata [OF t, of undefined "[3, 4, 0, 9]"] by metis
qed

text \<open>
  The thumbnail and the largest sample: \<open>getMaxSampleSize\<close> returns the maximum of all sizes, and
  \<open>findThumbnailSample\<close> a sync sample that is largest among the first twenty, or among all but the last one
  when there are at most twenty and more than one.
\<close>
theorem thumbnail_and_max:
  assumes m: "table_matches rd tb tr" and s: "sync_table rd tb (length (t_sizes tr)) syncs" and ne: "syncs \<noteq> []"
  defines "scan \<equiv> if 20 < length syncs then 20 else if 1 < length syncs then length syncs - 1 else length syncs"
  shows "getMaxSampleSize rd tb = Inr (OK, of_nat (fold max (t_sizes tr) 0)) \<and>
    (\<exists>x. findThumbnailSample rd tb = Inr (OK, of_nat x) \<and> x \<in> set (take scan syncs) \<and>
       (\<forall>z \<in> set (take scan syncs). t_sizes tr ! z \<le> t_sizes tr ! x))"
proof
  have n: "unat (mNumSampleSizes tb) = length (t_sizes tr)" using m by (simp add: table_matches_def track_ok_def)
  show "getMaxSampleSize rd tb = Inr (OK, of_nat (fold max (t_sizes tr) 0))"
    using max_size_loop_exact [OF m, of 0 "length (t_sizes tr)" 0] n by (simp add: getMaxSampleSize_def)
  have l: "mNumSyncSamples tb = of_nat (length syncs)" "length syncs < 4294967296" "0 \<le> mSyncSampleOffset tb"
    using s length_syncs [OF s] by (auto simp: sync_table_def holds_def)
  have c: "(20 :: u32) < of_nat (length syncs) \<longleftrightarrow> 20 < length syncs" "(1 :: u32) < of_nat (length syncs) \<longleftrightarrow> 1 < length syncs"
    using of_nat_u32(2) [of 20 "length syncs"] of_nat_u32(2) [of 1 "length syncs"] l(2) by simp_all
  have "(of_nat (length syncs) - 1 :: u32) = of_nat (length syncs - 1)" using ne by (simp add: of_nat_diff Suc_le_eq)
  then have "unat (if of_nat (length syncs) > (20 :: u32) then (20 :: u32) else if of_nat (length syncs) > (1 :: u32) then of_nat (length syncs) - 1 else of_nat (length syncs)) = scan"
    unfolding c scan_def using l(2) unat_of_nat_u32 [of "length syncs"] unat_of_nat_u32 [of "length syncs - 1"] by (auto simp del: of_nat_diff)
  then have "findThumbnailSample rd tb = thumbnail_loop rd tb (of_nat 0) scan (of_nat 0) (if (0 :: nat) = 0 then 0 else of_nat (t_sizes tr ! 0))"
    unfolding findThumbnailSample_def kMaxNumSyncSamplesToScan_def Let_def l(1) using l(3) by simp
  moreover have "0 < scan" "scan \<le> length syncs" using ne by (auto simp: scan_def)
  ultimately show "\<exists>x. findThumbnailSample rd tb = Inr (OK, of_nat x) \<and> x \<in> set (take scan syncs) \<and>
       (\<forall>z \<in> set (take scan syncs). t_sizes tr ! z \<le> t_sizes tr ! x)"
    using thumbnail_loop_exact [OF m s, of 0 scan 0] by simp
qed

theorem thumbnail_and_max_witness:
  "\<exists>tb. getMaxSampleSize sync_rd tb = Inr (OK, 50) \<and> findThumbnailSample sync_rd tb = Inr (OK, 0)"
proof -
  obtain tb where t: "table_matches sync_rd tb example_track" "sync_table sync_rd tb (length (t_sizes example_track)) [0, 3]"
    using example_tables by blast
  have "fold max (t_sizes example_track) 0 = 50" by (simp add: example_track_def)
  then show ?thesis using thumbnail_and_max [OF t] by (auto intro!: exI [of _ tb])
qed

end
