(* ===== verification/Timed_Event_Queue.thy ===== *)
theory Timed_Event_Queue
  imports Prelude_C "HOL-Library.Multiset"
begin

text \<open>
  The event queue of the player, \<open>libppplayer/TimedEventQueue.cpp\<close>: events posted with a time, cancelled by number or by a
  predicate, and fired by a thread that sleeps until the first event is due. Event objects are shared, and the
  number of an event is a field of the object, so the numbers are a store from objects to numbers.
  The code between taking and releasing \<open>mLock\<close> is one step; the calls of the clients, the thread and the
  clock interleave in a step relation. A condition variable is a flag that says whether a signal was sent since
  the thread began to wait on it; the thread may also wake up without one.
\<close>

subsection \<open>The queue\<close>

definition INT64_MIN :: int where "INT64_MIN = - 9223372036854775808"
definition INT64_MAX :: int where "INT64_MAX = 9223372036854775807"

text \<open>Event objects: those of the clients, and the \<open>StopEvent\<close>s that \<open>stop\<close> allocates.\<close>

datatype event_ref = Client nat | StopEvent nat

record QueueItem =
  event :: event_ref
  realtime_us :: int

record TimedEventQueue =
  mQueue :: "QueueItem list"
  mEventID :: "event_ref \<Rightarrow> int"
  mNextEventID :: int
  mRunning :: bool
  mStopped :: bool
  mQueueNotEmpty_signalled :: bool
  mQueueHeadChanged_signalled :: bool

definition TimedEventQueue_new :: TimedEventQueue where
  "TimedEventQueue_new = \<lparr> mQueue = [], mEventID = (\<lambda>_. 0), mNextEventID = 1, mRunning = False, mStopped = False,
     mQueueNotEmpty_signalled = False, mQueueHeadChanged_signalled = False \<rparr>"

definition setEventID :: "event_ref \<Rightarrow> int \<Rightarrow> TimedEventQueue \<Rightarrow> TimedEventQueue" where
  "setEventID ev i q = q\<lparr> mEventID := (mEventID q)(ev := i) \<rparr>"

text \<open>The loop of \<open>postTimedEvent\<close> walks over the items that are not later; the new item goes behind them.\<close>

fun insert_item :: "QueueItem \<Rightarrow> QueueItem list \<Rightarrow> QueueItem list" where
  "insert_item item [] = [item]"
| "insert_item item (x # xs) = (if realtime_us item \<ge> realtime_us x then x # insert_item item xs else item # x # xs)"

definition postTimedEvent :: "event_ref \<Rightarrow> int \<Rightarrow> TimedEventQueue \<Rightarrow> int \<times> TimedEventQueue" where
  "postTimedEvent ev t q =
     (let i = mNextEventID q;
          q = setEventID ev i (q\<lparr> mNextEventID := s32 (i + 1) \<rparr>);
          item = \<lparr> event = ev, realtime_us = t \<rparr>;
          at_begin = (case mQueue q of [] \<Rightarrow> True | x # _ \<Rightarrow> \<not> t \<ge> realtime_us x);
          q = (if at_begin then q\<lparr> mQueueHeadChanged_signalled := True \<rparr> else q)
      in (mEventID q ev, q\<lparr> mQueue := insert_item item (mQueue q), mQueueNotEmpty_signalled := True \<rparr>))"

definition postEvent :: "event_ref \<Rightarrow> TimedEventQueue \<Rightarrow> int \<times> TimedEventQueue" where
  "postEvent ev = postTimedEvent ev (INT64_MIN + 1)"

definition postEventToBack :: "event_ref \<Rightarrow> TimedEventQueue \<Rightarrow> int \<times> TimedEventQueue" where
  "postEventToBack ev = postTimedEvent ev INT64_MAX"

definition postEventWithDelay :: "int \<Rightarrow> event_ref \<Rightarrow> int \<Rightarrow> TimedEventQueue \<Rightarrow> int \<times> TimedEventQueue" where
  "postEventWithDelay now ev delay_us = postTimedEvent ev (s64 (now + delay_us))"

text \<open>
  A predicate of \<open>cancelEvents\<close> gets its cookie, the event and the number in it, and may change the cookie. The loop
  runs over the queue with the items kept so far; it returns whether the head was cancelled.
\<close>

type_synonym 'c cancel_predicate = "'c \<Rightarrow> event_ref \<Rightarrow> int \<Rightarrow> bool \<times> 'c"

fun cancel_loop ::
  "'c cancel_predicate \<Rightarrow> bool \<Rightarrow> QueueItem list \<Rightarrow> 'c \<Rightarrow> QueueItem list \<Rightarrow> TimedEventQueue \<Rightarrow> 'c \<times> TimedEventQueue" where
  "cancel_loop pred stopAfterFirstMatch kept cookie [] q = (cookie, q\<lparr> mQueue := kept \<rparr>)"
| "cancel_loop pred stopAfterFirstMatch kept cookie (x # xs) q =
     (let (matches, cookie) = pred cookie (event x) (mEventID q (event x)) in
      if \<not> matches then cancel_loop pred stopAfterFirstMatch (kept @ [x]) cookie xs q
      else
        let q = (if kept = [] then q\<lparr> mQueueHeadChanged_signalled := True \<rparr> else q);
            q = setEventID (event x) 0 q
        in if stopAfterFirstMatch then (cookie, q\<lparr> mQueue := kept @ xs \<rparr>)
           else cancel_loop pred stopAfterFirstMatch kept cookie xs q)"

definition cancelEvents :: "'c cancel_predicate \<Rightarrow> 'c \<Rightarrow> bool \<Rightarrow> TimedEventQueue \<Rightarrow> 'c \<times> TimedEventQueue" where
  "cancelEvents pred cookie stopAfterFirstMatch q = cancel_loop pred stopAfterFirstMatch [] cookie (mQueue q) q"

definition MatchesEventID :: "int cancel_predicate" where
  "MatchesEventID cookie ev i = (if i \<noteq> cookie then (False, cookie) else (True, 0))"

definition cancelEvent :: "int \<Rightarrow> TimedEventQueue \<Rightarrow> bool \<times> TimedEventQueue" where
  "cancelEvent i q =
     (if i = 0 then (False, q)
      else case cancelEvents MatchesEventID i True q of (i, q) \<Rightarrow> (i = 0, q))"

text \<open>The item whose event is returned, \<open>None\<close> for \<open>NULL\<close>.\<close>

fun remove_item :: "(event_ref \<Rightarrow> int) \<Rightarrow> int \<Rightarrow> QueueItem list \<Rightarrow> (QueueItem \<times> QueueItem list) option" where
  "remove_item ids i [] = None"
| "remove_item ids i (x # xs) =
     (if ids (event x) = i then Some (x, xs) else map_option (\<lambda>(y, ys). (y, x # ys)) (remove_item ids i xs))"

definition removeEventFromQueue_l :: "int \<Rightarrow> TimedEventQueue \<Rightarrow> QueueItem option \<times> TimedEventQueue" where
  "removeEventFromQueue_l i q =
     (case remove_item (mEventID q) i (mQueue q) of
        None \<Rightarrow> (None, q)
      | Some (x, xs) \<Rightarrow> (Some x, (setEventID (event x) 0 q)\<lparr> mQueue := xs \<rparr>))"

definition forceStop :: "TimedEventQueue \<Rightarrow> TimedEventQueue" where
  "forceStop q = q\<lparr> mStopped := True \<rparr>"

subsection \<open>The thread\<close>

text \<open>
  Where the thread is: before taking the lock, waiting for an item, waiting for the time of the item with number
  \<open>eventID\<close> since a time and until a deadline that may have been shortened to ten seconds, about to fire an event, or
  not running. The last fields are a record of what happened: how many events were posted, the events taken for firing with
  their number, time and the time of firing, and the numbers cancelled and discarded.
\<close>

datatype thread_pc =
    NotStarted
  | Top
  | WaitNotEmpty
  | WaitHead (wait_id: int) (wait_since: int) (wait_until: int) (wait_capped: bool)
  | Fire event_ref int
  | Exited

record fired_event =
  fired_id :: int
  fired_item :: QueueItem
  fired_now :: int

record teq_sys =
  teq :: TimedEventQueue
  pc :: thread_pc
  clock :: int
  stopping :: bool
  posts :: nat
  fired :: "fired_event list"
  cancelled :: "int list"
  discarded :: "int list"

definition teq_init :: "int \<Rightarrow> teq_sys" where
  "teq_init now = \<lparr> teq = TimedEventQueue_new, pc = NotStarted, clock = now, stopping = False, posts = 0, fired = [],
     cancelled = [], discarded = [] \<rparr>"

definition queue_ids :: "TimedEventQueue \<Rightarrow> int list" where
  "queue_ids q = map (\<lambda>x. mEventID q (event x)) (mQueue q)"

definition kMaxTimeoutUs :: int where "kMaxTimeoutUs = 10000000"

text \<open>The end of the locked part of \<open>threadEntry\<close>: the event is taken out, and fired if it was still there.\<close>

definition take_event :: "int \<Rightarrow> teq_sys \<Rightarrow> teq_sys" where
  "take_event eventID s =
     (case removeEventFromQueue_l eventID (teq s) of
        (None, q) \<Rightarrow> s\<lparr> teq := q, pc := Top \<rparr>
      | (Some x, q) \<Rightarrow>
          s\<lparr> teq := q, pc := Fire (event x) (clock s),
             fired := fired s @ [\<lparr> fired_id = eventID, fired_item = x, fired_now = clock s \<rparr>] \<rparr>)"

text \<open>One pass of the inner loop, up to the next wait or the end.\<close>

definition head_loop :: "int \<Rightarrow> teq_sys \<Rightarrow> teq_sys" where
  "head_loop eventID s =
     (case mQueue (teq s) of
        [] \<Rightarrow> take_event eventID s
      | x # _ \<Rightarrow>
          let eventID = mEventID (teq s) (event x);
              now_us = clock s;
              when_us = realtime_us x;
              delay_us = (if when_us < 0 \<or> when_us = INT64_MAX then 0 else when_us - now_us)
          in if delay_us \<le> 0 then take_event eventID s
             else
               let timeoutCapped = (delay_us > kMaxTimeoutUs);
                   delay_us = (if timeoutCapped then kMaxTimeoutUs else delay_us)
               in s\<lparr> teq := (teq s)\<lparr> mQueueHeadChanged_signalled := False \<rparr>,
                     pc := WaitHead eventID now_us (now_us + delay_us) timeoutCapped \<rparr>)"

definition wait_not_empty :: "teq_sys \<Rightarrow> teq_sys" where
  "wait_not_empty s =
     (if mQueue (teq s) = []
      then s\<lparr> teq := (teq s)\<lparr> mQueueNotEmpty_signalled := False \<rparr>, pc := WaitNotEmpty \<rparr>
      else head_loop 0 s)"

definition thread_top :: "teq_sys \<Rightarrow> teq_sys" where
  "thread_top s = (if mStopped (teq s) then s\<lparr> pc := Exited \<rparr> else wait_not_empty s)"

text \<open>\<open>waitRelative\<close> has returned, with \<open>-ETIMEDOUT\<close> or without.\<close>

definition head_woken :: "bool \<Rightarrow> int \<Rightarrow> bool \<Rightarrow> teq_sys \<Rightarrow> teq_sys" where
  "head_woken timedout eventID timeoutCapped s =
     (if \<not> timeoutCapped \<and> timedout then take_event eventID s else head_loop eventID s)"

text \<open>Firing: a \<open>StopEvent\<close> stops the thread; what the events of clients do are steps of clients.\<close>

definition fire :: "event_ref \<Rightarrow> teq_sys \<Rightarrow> teq_sys" where
  "fire ev s =
     (case ev of StopEvent _ \<Rightarrow> s\<lparr> teq := forceStop (teq s), pc := Top \<rparr> | Client _ \<Rightarrow> s\<lparr> pc := Top \<rparr>)"

definition post :: "event_ref \<Rightarrow> int \<Rightarrow> teq_sys \<Rightarrow> teq_sys" where
  "post ev t s = s\<lparr> teq := snd (postTimedEvent ev t (teq s)), posts := posts s + 1 \<rparr>"

definition cancel :: "'c cancel_predicate \<Rightarrow> 'c \<Rightarrow> bool \<Rightarrow> teq_sys \<Rightarrow> teq_sys" where
  "cancel pred cookie first s =
     (let q = snd (cancelEvents pred cookie first (teq s)) in
      s\<lparr> teq := q, cancelled := cancelled s @ filter (\<lambda>i. i \<notin> set (queue_ids q)) (queue_ids (teq s)) \<rparr>)"

definition start :: "teq_sys \<Rightarrow> teq_sys" where
  "start s =
     (if mRunning (teq s) then s
      else s\<lparr> teq := (teq s)\<lparr> mStopped := False, mRunning := True \<rparr>, pc := Top \<rparr>)"

text \<open>\<open>stop\<close> before and after it waits for the thread.\<close>

definition stop_post :: "bool \<Rightarrow> nat \<Rightarrow> teq_sys \<Rightarrow> teq_sys" where
  "stop_post flush a s = (post (StopEvent a) (if flush then INT64_MAX else INT64_MIN) s)\<lparr> stopping := True \<rparr>"

definition stop_joined :: "teq_sys \<Rightarrow> teq_sys" where
  "stop_joined s =
     s\<lparr> teq := (teq s)\<lparr> mQueue := [], mRunning := False \<rparr>, pc := NotStarted, stopping := False,
        discarded := discarded s @ queue_ids (teq s) \<rparr>"

text \<open>
  The steps. Clients do not post an event that is still queued, as the flags \<open>mVideoEventPending\<close> and so on of
  \<open>AwesomePlayer\<close> ensure, nor use the time that is reserved for stopping; \<open>start\<close> and \<open>stop\<close> are not called
  concurrently. The clock does not go back, and a wait times out only after its time.
\<close>

inductive teq_step :: "teq_sys \<Rightarrow> teq_sys \<Rightarrow> bool" where
  client_post: "Client a \<notin> event ` set (mQueue (teq s)) \<Longrightarrow> INT64_MIN < t \<Longrightarrow> t \<le> INT64_MAX \<Longrightarrow> teq_step s (post (Client a) t s)"
| client_cancel: "teq_step s (cancel pred (cookie :: int) first s)"
| client_force_stop: "teq_step s (s\<lparr> teq := forceStop (teq s) \<rparr>)"
| client_start: "\<not> stopping s \<Longrightarrow> teq_step s (start s)"
| client_stop: "mRunning (teq s) \<Longrightarrow> \<not> stopping s \<Longrightarrow> StopEvent a \<notin> event ` set (mQueue (teq s)) \<Longrightarrow> teq_step s (stop_post flush a s)"
| client_join: "stopping s \<Longrightarrow> pc s = Exited \<Longrightarrow> teq_step s (stop_joined s)"
| clock_tick: "clock s \<le> now \<Longrightarrow> teq_step s (s\<lparr> clock := now \<rparr>)"
| thread_at_top: "pc s = Top \<Longrightarrow> teq_step s (thread_top s)"
| thread_wakes: "pc s = WaitNotEmpty \<Longrightarrow> teq_step s (wait_not_empty s)"
| thread_head_woken: "pc s = WaitHead i w d capped \<Longrightarrow> (timedout \<Longrightarrow> d \<le> clock s) \<Longrightarrow> teq_step s (head_woken timedout i capped s)"
| thread_fires: "pc s = Fire ev now \<Longrightarrow> teq_step s (fire ev s)"

inductive teq_reachable :: "teq_sys \<Rightarrow> bool" where
  teq_reachable_init: "0 \<le> now \<Longrightarrow> teq_reachable (teq_init now)"
| teq_reachable_step: "teq_reachable s \<Longrightarrow> teq_step s t \<Longrightarrow> teq_reachable t"

inductive_cases teq_stepE: "teq_step s t"

subsection \<open>The operations on the queue\<close>

definition item_before :: "(event_ref \<Rightarrow> int) \<Rightarrow> QueueItem \<Rightarrow> QueueItem \<Rightarrow> bool" where
  "item_before ids a b \<longleftrightarrow>
     realtime_us a < realtime_us b \<or> realtime_us a = realtime_us b \<and> ids (event a) < ids (event b)"

lemma insert_item_split:
  "insert_item item xs =
     takeWhile (\<lambda>x. realtime_us x \<le> realtime_us item) xs @ item # dropWhile (\<lambda>x. realtime_us x \<le> realtime_us item) xs"
  by (induction xs) simp_all

lemma set_insert_item [simp]: "set (insert_item item xs) = insert item (set xs)"
  by (induction xs) auto

lemma sorted_insert_item:
  assumes "sorted_wrt (item_before ids) xs" and "\<forall>x \<in> set xs. ids (event x) < ids (event item)"
  shows "sorted_wrt (item_before ids) (insert_item item xs)"
  using assms by (induction xs) (force simp: item_before_def)+

lemma sorted_item_cong:
  assumes "\<forall>x \<in> set xs. ids (event x) = ids' (event x)"
  shows "sorted_wrt (item_before ids) xs = sorted_wrt (item_before ids') xs"
  using assms by (induction xs) (auto simp: item_before_def)

lemma postTimedEvent_queue:
  assumes "ev \<notin> event ` set (mQueue q)" and "postTimedEvent ev t q = (i, q')"
  shows "i = mNextEventID q" "mQueue q' = insert_item \<lparr> event = ev, realtime_us = t \<rparr> (mQueue q)"
    "mEventID q' = (mEventID q)(ev := mNextEventID q)" "mNextEventID q' = s32 (mNextEventID q + 1)"
    "mset (queue_ids q') = add_mset (mNextEventID q) (mset (queue_ids q))" "mQueueNotEmpty_signalled q'"
    "mRunning q' = mRunning q" "mStopped q' = mStopped q"
    "mQueueHeadChanged_signalled q' \<longleftrightarrow> mQueueHeadChanged_signalled q \<or> mQueue q = [] \<or> t < realtime_us (hd (mQueue q))"
proof -
  have q': "q' = snd (postTimedEvent ev t q)" "i = fst (postTimedEvent ev t q)" using assms(2) by simp_all
  show f: "i = mNextEventID q" "mQueue q' = insert_item \<lparr> event = ev, realtime_us = t \<rparr> (mQueue q)"
    "mEventID q' = (mEventID q)(ev := mNextEventID q)" "mNextEventID q' = s32 (mNextEventID q + 1)" "mQueueNotEmpty_signalled q'"
    "mRunning q' = mRunning q" "mStopped q' = mStopped q"
    by (simp_all add: q' postTimedEvent_def setEventID_def Let_def)
  have "map (\<lambda>x. mEventID q' (event x)) (mQueue q) = map (\<lambda>x. mEventID q (event x)) (mQueue q)"
    using assms(1) by (auto simp: f(3))
  moreover have "mset (map f (insert_item y xs)) = add_mset (f y) (mset (map f xs))" for f :: "QueueItem \<Rightarrow> int" and y xs
    by (induction xs) simp_all
  ultimately show "mset (queue_ids q') = add_mset (mNextEventID q) (mset (queue_ids q))"
    unfolding queue_ids_def f(2) by (simp only: QueueItem.simps f(3) fun_upd_same)
  show "mQueueHeadChanged_signalled q' \<longleftrightarrow> mQueueHeadChanged_signalled q \<or> mQueue q = [] \<or> t < realtime_us (hd (mQueue q))"
    by (auto simp: q' postTimedEvent_def setEventID_def Let_def split: list.splits)
qed

lemma remove_item_Some:
  "remove_item ids i xs = Some (x, ys) \<Longrightarrow> \<exists>as bs. xs = as @ x # bs \<and> ys = as @ bs \<and> ids (event x) = i \<and> (\<forall>a \<in> set as. ids (event a) \<noteq> i)"
proof (induction xs arbitrary: ys)
  case (Cons z zs)
  show ?case
  proof (cases "ids (event z) = i")
    case True
    then have "z = x" "zs = ys" using Cons.prems by simp_all
    then show ?thesis using True by (intro exI [of _ "[]"] exI [of _ ys]) simp
  next
    case False
    then obtain us where "remove_item ids i zs = Some (x, us)" "ys = z # us" using Cons.prems by auto
    then obtain as bs where "zs = as @ x # bs" "ys = (z # as) @ bs" "ids (event x) = i" "\<forall>a \<in> set as. ids (event a) \<noteq> i"
      using Cons.IH by fastforce
    then show ?thesis using False by (intro exI [where x = "z # as"] exI [where x = bs] conjI) simp_all
  qed
qed simp

lemma remove_item_None: "remove_item ids i xs = None \<longleftrightarrow> (\<forall>x \<in> set xs. ids (event x) \<noteq> i)"
  by (induction xs) auto

text \<open>The loop of \<open>cancelEvents\<close> keeps some of the items, with their numbers, and signals when the head goes.\<close>

lemma filter_member_Cons: "x \<notin> set xs \<Longrightarrow> filter (\<lambda>z. z = x \<or> P z) xs = filter P xs"
  by (rule filter_cong) auto

lemma cancel_loop_keeps:
  "distinct (map event (kept @ xs)) \<Longrightarrow> \<exists>ys q' c'. cancel_loop pred first kept cookie xs q = (c', q') \<and>
     mQueue q' = kept @ ys \<and> ys = filter (\<lambda>x. x \<in> set ys) xs \<and> (\<forall>x \<in> set (kept @ ys). mEventID q' (event x) = mEventID q (event x)) \<and>
     mNextEventID q' = mNextEventID q \<and> mRunning q' = mRunning q \<and> mStopped q' = mStopped q \<and>
     mQueueNotEmpty_signalled q' = mQueueNotEmpty_signalled q \<and>
     (\<not> mQueueHeadChanged_signalled q' \<longrightarrow> \<not> mQueueHeadChanged_signalled q \<and> take 1 (kept @ ys) = take 1 (kept @ xs))"
proof (induction xs arbitrary: kept cookie q)
  case (Cons x xs)
  obtain matches c where p: "pred cookie (event x) (mEventID q (event x)) = (matches, c)" by fastforce
  have x: "x \<notin> set xs" "event x \<notin> event ` set kept" "event x \<notin> event ` set xs" using Cons.prems by auto
  define q1 where "q1 = setEventID (event x) 0 (if kept = [] then q\<lparr> mQueueHeadChanged_signalled := True \<rparr> else q)"
  have q1: "mNextEventID q1 = mNextEventID q" "mRunning q1 = mRunning q" "mStopped q1 = mStopped q"
    "mQueueNotEmpty_signalled q1 = mQueueNotEmpty_signalled q" "mQueueHeadChanged_signalled q1 \<longleftrightarrow> kept = [] \<or> mQueueHeadChanged_signalled q"
    "\<forall>z \<in> set (kept @ xs). mEventID q1 (event z) = mEventID q (event z)"
    using x by (auto simp: q1_def setEventID_def image_iff)
  consider (keep) "\<not> matches" | (first) "matches" "first" | (more) "matches" "\<not> first" by blast
  then show ?case
  proof cases
    case keep
    obtain ys q' c' where "cancel_loop pred first (kept @ [x]) c xs q = (c', q') \<and>
     mQueue q' = (kept @ [x]) @ ys \<and> ys = filter (\<lambda>x. x \<in> set ys) xs \<and> (\<forall>z \<in> set ((kept @ [x]) @ ys). mEventID q' (event z) = mEventID q (event z)) \<and>
     mNextEventID q' = mNextEventID q \<and> mRunning q' = mRunning q \<and> mStopped q' = mStopped q \<and>
     mQueueNotEmpty_signalled q' = mQueueNotEmpty_signalled q \<and>
     (\<not> mQueueHeadChanged_signalled q' \<longrightarrow> \<not> mQueueHeadChanged_signalled q \<and> take 1 ((kept @ [x]) @ ys) = take 1 ((kept @ [x]) @ xs))"
      using Cons.IH [of "kept @ [x]" c q] Cons.prems by auto
    then show ?thesis using keep p x(1)
      by (intro exI [of _ "x # ys"] exI [of _ q'] exI [of _ c']) (simp add: filter_member_Cons)
  next
    case first
    have "cancel_loop pred first kept cookie (x # xs) q = (c, q1\<lparr> mQueue := kept @ xs \<rparr>)"
      using first p by (simp add: q1_def Let_def)
    moreover have "filter (\<lambda>z. z \<in> set xs) (x # xs) = xs" using x(1) by simp
    moreover have "take 1 (kept @ xs) = take 1 (kept @ x # xs)" if "kept \<noteq> []" using that by (cases kept) auto
    ultimately show ?thesis using q1
      by (intro exI [of _ xs] exI [of _ "q1\<lparr> mQueue := kept @ xs \<rparr>"] exI [of _ c]) auto
  next
    case more
    have e: "cancel_loop pred first kept cookie (x # xs) q = cancel_loop pred first kept c xs q1"
      using more p by (simp add: q1_def Let_def)
    obtain ys q' c' where r: "cancel_loop pred first kept c xs q1 = (c', q')" "mQueue q' = kept @ ys" "ys = filter (\<lambda>x. x \<in> set ys) xs"
     "\<forall>x \<in> set (kept @ ys). mEventID q' (event x) = mEventID q1 (event x)"
     "mNextEventID q' = mNextEventID q1 \<and> mRunning q' = mRunning q1 \<and> mStopped q' = mStopped q1 \<and> mQueueNotEmpty_signalled q' = mQueueNotEmpty_signalled q1"
     "\<not> mQueueHeadChanged_signalled q' \<longrightarrow> \<not> mQueueHeadChanged_signalled q1 \<and> take 1 (kept @ ys) = take 1 (kept @ xs)"
      using Cons.IH [of kept c q1] Cons.prems by auto
    have ys: "set ys \<subseteq> set xs" using r(3) by (metis filter_is_subset)
    have "filter (\<lambda>z. z \<in> set ys) (x # xs) = ys" using r(3) x(1) ys by auto
    moreover have "take 1 (kept @ xs) = take 1 (kept @ x # xs)" if "kept \<noteq> []" using that by (cases kept) auto
    moreover have "\<forall>z \<in> set (kept @ ys). mEventID q' (event z) = mEventID q (event z)" using r(4) q1(6) ys by auto
    ultimately show ?thesis unfolding e using r q1
      by (intro exI [of _ ys] exI [of _ q'] exI [of _ c']) auto
  qed
qed (auto intro!: exI [of _ "[]"])

subsection \<open>The invariant\<close>

definition wait_ok :: "teq_sys \<Rightarrow> bool" where
  "wait_ok s \<longleftrightarrow>
     (case pc s of
        WaitNotEmpty \<Rightarrow> \<not> mQueueNotEmpty_signalled (teq s) \<longrightarrow> mQueue (teq s) = []
      | WaitHead i w d capped \<Rightarrow>
          i \<le> int (posts s) \<and> w \<le> clock s \<and>
          (\<not> capped \<longrightarrow> (\<forall>x \<in> set (mQueue (teq s)). mEventID (teq s) (event x) = i \<longrightarrow> realtime_us x \<le> d)) \<and>
          (\<not> mQueueHeadChanged_signalled (teq s) \<longrightarrow>
             (\<exists>x xs. mQueue (teq s) = x # xs \<and> mEventID (teq s) (event x) = i \<and> 0 \<le> realtime_us x \<and> realtime_us x < INT64_MAX \<and>
                capped = (w + 10000000 < realtime_us x) \<and> d = min (realtime_us x) (w + 10000000)))
      | _ \<Rightarrow> True)"

definition fired_ok :: "teq_sys \<Rightarrow> bool" where
  "fired_ok s \<longleftrightarrow>
     (\<forall>f \<in> set (fired s). fired_now f \<le> clock s \<and>
        (realtime_us (fired_item f) < 0 \<or> realtime_us (fired_item f) = INT64_MAX \<or> realtime_us (fired_item f) \<le> fired_now f))"

definition item_ok :: "bool \<Rightarrow> QueueItem \<Rightarrow> bool" where
  "item_ok st x \<longleftrightarrow> realtime_us x \<le> INT64_MAX \<and> (case event x of Client _ \<Rightarrow> INT64_MIN < realtime_us x | StopEvent _ \<Rightarrow> st)"

definition teq_inv :: "teq_sys \<Rightarrow> bool" where
  "teq_inv s \<longleftrightarrow>
     mNextEventID (teq s) = int (posts s) + 1 \<and>
     sorted_wrt (item_before (mEventID (teq s))) (mQueue (teq s)) \<and>
     mset (queue_ids (teq s)) + mset (map fired_id (fired s)) + mset (cancelled s) + mset (discarded s) = mset_set {1..int (posts s)} \<and>
     (\<forall>x \<in> set (mQueue (teq s)). item_ok (stopping s) x) \<and>
     (pc s = NotStarted \<longleftrightarrow> \<not> mRunning (teq s)) \<and> (\<forall>a now. pc s = Fire (StopEvent a) now \<longrightarrow> stopping s) \<and>
     (pc s = Exited \<longrightarrow> mStopped (teq s)) \<and> wait_ok s \<and> fired_ok s"

lemma id_ledger:
  assumes "teq_inv s"
  shows "distinct (queue_ids (teq s) @ map fired_id (fired s) @ cancelled s @ discarded s)"
    "set (queue_ids (teq s) @ map fired_id (fired s) @ cancelled s @ discarded s) = {1..int (posts s)}"
proof -
  have m: "mset (queue_ids (teq s) @ map fired_id (fired s) @ cancelled s @ discarded s) = mset_set {1..int (posts s)}"
    using assms by (simp add: teq_inv_def add.assoc)
  show ids: "set (queue_ids (teq s) @ map fired_id (fired s) @ cancelled s @ discarded s) = {1..int (posts s)}"
    using arg_cong [OF m, of set_mset] by simp
  show "distinct (queue_ids (teq s) @ map fired_id (fired s) @ cancelled s @ discarded s)"
    unfolding distinct_count_atmost_1 m ids by (simp add: count_mset_set')
qed

lemma inv_queue:
  assumes "teq_inv s"
  shows "distinct (map event (mQueue (teq s)))" "inj_on (\<lambda>x. mEventID (teq s) (event x)) (set (mQueue (teq s)))"
    "\<forall>x \<in> set (mQueue (teq s)). 1 \<le> mEventID (teq s) (event x) \<and> mEventID (teq s) (event x) \<le> int (posts s)"
proof -
  have d: "distinct (map (mEventID (teq s)) (map event (mQueue (teq s))))"
    using id_ledger(1) [OF assms] by (simp add: queue_ids_def comp_def)
  then show "distinct (map event (mQueue (teq s)))" by (simp only: distinct_map)
  show "inj_on (\<lambda>x. mEventID (teq s) (event x)) (set (mQueue (teq s)))" using d by (simp add: distinct_map comp_def)
  have "set (queue_ids (teq s)) \<subseteq> {1..int (posts s)}" using id_ledger(2) [OF assms] by auto
  then show "\<forall>x \<in> set (mQueue (teq s)). 1 \<le> mEventID (teq s) (event x) \<and> mEventID (teq s) (event x) \<le> int (posts s)"
    by (auto simp: queue_ids_def)
qed

lemma mset_interval_Suc: "mset_set {1..int n + 1} = add_mset (int n + 1) (mset_set {1..int n})"
proof -
  have "{1..int n + 1} = insert (int n + 1) {1..int n}" by auto
  then show ?thesis by simp
qed

lemma post_inv:
  assumes inv: "teq_inv s" and ev: "ev \<notin> event ` set (mQueue (teq s))" and n: "int (posts s) + 2 < 2147483648"
    and kind: "item_ok st \<lparr> event = ev, realtime_us = t \<rparr>" and st: "stopping s \<Longrightarrow> st"
  shows "teq_inv ((post ev t s)\<lparr> stopping := st \<rparr>)"
proof -
  obtain i q' where p: "postTimedEvent ev t (teq s) = (i, q')" by fastforce
  note q = postTimedEvent_queue [OF ev p]
  define t' where "t' = (post ev t s)\<lparr> stopping := st \<rparr>"
  have t': "teq t' = q'" "posts t' = posts s + 1" "fired t' = fired s" "cancelled t' = cancelled s" "discarded t' = discarded s"
    "pc t' = pc s" "clock t' = clock s" "stopping t' = st" by (simp_all add: t'_def post_def p)
  have next1: "mNextEventID (teq s) = int (posts s) + 1" using inv by (simp add: teq_inv_def)
  have nx: "mNextEventID q' = int (posts s + 1) + 1" using n by (simp add: q(4) next1 s32_def)
  have keep: "\<forall>x \<in> set (mQueue (teq s)). mEventID q' (event x) = mEventID (teq s) (event x)" using ev by (auto simp: q(3))
  note ids = inv_queue(3) [OF inv]
  have "sorted_wrt (item_before (mEventID q')) (mQueue (teq s))"
    using inv sorted_item_cong [OF keep] by (simp add: teq_inv_def)
  then have sorted: "sorted_wrt (item_before (mEventID q')) (mQueue q')"
    unfolding q(2) using ids keep by (intro sorted_insert_item) (force simp: q(3) next1)+
  have ledger: "mset (queue_ids q') + mset (map fired_id (fired s)) + mset (cancelled s) + mset (discarded s) = mset_set {1..int (posts s + 1)}"
    using inv mset_interval_Suc [of "posts s"] by (simp add: q(5) next1 teq_inv_def add.commute)
  have kinds: "\<forall>x \<in> set (mQueue q'). item_ok st x"
    using inv kind st unfolding q(2) teq_inv_def by (auto simp: item_ok_def split: event_ref.splits)
  have "wait_ok t'"
  proof (cases "pc s")
    case (WaitHead i w d capped)
    have wt: "wait_ok s" "i \<le> int (posts s)" using inv WaitHead by (auto simp: teq_inv_def wait_ok_def)
    have new: "mEventID q' ev \<noteq> i" using wt(2) by (simp add: q(3) next1)
    have head: "\<exists>x xs. mQueue q' = x # xs \<and> mEventID q' (event x) = i \<and> 0 \<le> realtime_us x \<and> realtime_us x < INT64_MAX \<and>
                capped = (w + 10000000 < realtime_us x) \<and> d = min (realtime_us x) (w + 10000000)" if ns: "\<not> mQueueHeadChanged_signalled q'"
    proof -
      obtain x xs where x: "mQueue (teq s) = x # xs" "mEventID (teq s) (event x) = i" "0 \<le> realtime_us x" "realtime_us x < INT64_MAX"
                "capped = (w + 10000000 < realtime_us x)" "d = min (realtime_us x) (w + 10000000)"
        using ns wt(1) WaitHead unfolding q(9) by (auto simp: wait_ok_def)
      then show ?thesis using ns keep unfolding q(9) q(2) by simp
    qed
    show ?thesis using wt WaitHead new keep head unfolding wait_ok_def t' q(2) by auto
  qed (use q(6) in \<open>auto simp: wait_ok_def t'\<close>)
  then show ?thesis unfolding t'_def [symmetric]
    using inv nx sorted ledger kinds q(7,8) st unfolding teq_inv_def fired_ok_def t' by auto
qed

lemma cancel_inv:
  assumes inv: "teq_inv s"
  shows "teq_inv (cancel pred cookie first s)"
proof -
  define q where "q = teq s"
  obtain ys q' c' where r: "cancel_loop pred first [] cookie (mQueue q) q = (c', q')" "mQueue q' = ys" "ys = filter (\<lambda>x. x \<in> set ys) (mQueue q)"
     "\<forall>x \<in> set ys. mEventID q' (event x) = mEventID q (event x)" "mNextEventID q' = mNextEventID q" "mRunning q' = mRunning q \<and> mStopped q' = mStopped q"
     "mQueueNotEmpty_signalled q' = mQueueNotEmpty_signalled q"
     "\<not> mQueueHeadChanged_signalled q' \<longrightarrow> \<not> mQueueHeadChanged_signalled q \<and> take 1 ys = take 1 (mQueue q)"
    using cancel_loop_keeps [of "[]" "mQueue q" pred first cookie q] inv_queue(1) [OF inv] by (auto simp: q_def)
  define t' where "t' = cancel pred cookie first s"
  have t': "teq t' = q'" "posts t' = posts s" "fired t' = fired s" "discarded t' = discarded s" "pc t' = pc s" "clock t' = clock s"
    "stopping t' = stopping s" "cancelled t' = cancelled s @ filter (\<lambda>i. i \<notin> set (queue_ids q')) (queue_ids q)"
    using r(1) by (simp_all add: t'_def cancel_def cancelEvents_def q_def Let_def)
  have sub: "set ys \<subseteq> set (mQueue q)" using r(3) by (metis filter_is_subset)
  have ids: "queue_ids q' = map (\<lambda>x. mEventID q (event x)) ys" unfolding queue_ids_def r(2) using r(4) by simp
  have mem: "mEventID q (event x) \<in> set (queue_ids q') \<longleftrightarrow> x \<in> set ys" if "x \<in> set (mQueue q)" for x
    using inv_queue(2) [OF inv] that sub unfolding ids q_def by (auto dest: inj_onD)
  have "filter (\<lambda>i. i \<notin> set (queue_ids q')) (queue_ids q) = map (\<lambda>x. mEventID q (event x)) (filter (\<lambda>x. x \<notin> set ys) (mQueue q))"
    unfolding queue_ids_def [of q] filter_map comp_def using mem by (intro arg_cong [where f = "map _"] filter_cong) auto
  then have split: "mset (queue_ids q') + mset (filter (\<lambda>i. i \<notin> set (queue_ids q')) (queue_ids q)) = mset (queue_ids q)"
    unfolding ids queue_ids_def [of q] by (subst (1) r(3)) (simp flip: image_mset_union)
  have sorted: "sorted_wrt (item_before (mEventID q')) ys"
    using inv sorted_item_cong [of ys "mEventID q'" "mEventID q"] r(4) sorted_wrt_filter [of _ "mQueue q" "\<lambda>x. x \<in> set ys"] r(3)
    by (metis q_def teq_inv_def)
  have "wait_ok t'"
  proof (cases "pc s")
    case (WaitHead i w d capped)
    have wt: "wait_ok s" using inv by (simp add: teq_inv_def)
    have head: "\<exists>x xs. ys = x # xs \<and> mEventID q' (event x) = i \<and> 0 \<le> realtime_us x \<and> realtime_us x < INT64_MAX \<and>
                capped = (w + 10000000 < realtime_us x) \<and> d = min (realtime_us x) (w + 10000000)" if ns: "\<not> mQueueHeadChanged_signalled q'"
    proof -
      obtain x xs where x: "mQueue q = x # xs" "mEventID q (event x) = i" "0 \<le> realtime_us x" "realtime_us x < INT64_MAX"
                "capped = (w + 10000000 < realtime_us x)" "d = min (realtime_us x) (w + 10000000)"
        using ns wt WaitHead r(8) unfolding q_def by (auto simp: wait_ok_def)
      then obtain xs' where "ys = x # xs'" using r(8) ns by (cases ys) auto
      then show ?thesis using x r(4) by auto
    qed
    show ?thesis using wt WaitHead sub r(4) head unfolding wait_ok_def t' r(2) q_def by auto
  next
    case WaitNotEmpty
    then show ?thesis using inv sub r(7) unfolding teq_inv_def wait_ok_def t' r(2) q_def by auto
  qed (auto simp: wait_ok_def t')
  moreover have "mset (queue_ids q') + F + mset (cancelled t') + D = mset (queue_ids q) + F + mset (cancelled s) + D" for F D
    unfolding t'(8) split [symmetric] by (simp add: ac_simps)
  then have "mset (queue_ids q') + mset (map fired_id (fired s)) + mset (cancelled t') + mset (discarded s) = mset_set {1..int (posts s)}"
    using inv by (simp only: teq_inv_def q_def)
  ultimately show ?thesis unfolding t'_def [symmetric]
    using inv sorted r(5,6) sub unfolding teq_inv_def fired_ok_def t'(1-7) r(2) q_def [symmetric] by (simp add: subset_iff)
qed

lemma take_event_inv:
  assumes inv: "teq_inv s" and run: "pc s \<noteq> NotStarted"
    and due: "\<forall>x \<in> set (mQueue (teq s)). mEventID (teq s) (event x) = i \<longrightarrow> realtime_us x < 0 \<or> realtime_us x = INT64_MAX \<or> realtime_us x \<le> clock s"
  shows "teq_inv (take_event i s)"
proof (cases "remove_item (mEventID (teq s)) i (mQueue (teq s))")
  case None
  then show ?thesis using inv run by (simp add: take_event_def removeEventFromQueue_l_def teq_inv_def fired_ok_def wait_ok_def)
next
  case (Some r)
  obtain x ys where r: "r = (x, ys)" by (cases r)
  obtain as bs where x: "mQueue (teq s) = as @ x # bs" "ys = as @ bs" "mEventID (teq s) (event x) = i"
    using remove_item_Some Some r by blast
  define q' where "q' = (setEventID (event x) 0 (teq s))\<lparr> mQueue := ys \<rparr>"
  have t: "take_event i s = s\<lparr> teq := q', pc := Fire (event x) (clock s), fired := fired s @ [\<lparr> fired_id = i, fired_item = x, fired_now = clock s \<rparr>] \<rparr>"
    using Some r by (simp add: take_event_def removeEventFromQueue_l_def q'_def)
  have keep: "\<forall>z \<in> set ys. mEventID q' (event z) = mEventID (teq s) (event z)"
    using inv_queue(1) [OF inv] by (auto simp: x(1,2) q'_def setEventID_def image_iff)
  have ids: "add_mset i (mset (queue_ids q')) = mset (queue_ids (teq s))"
  proof -
    have "map (\<lambda>z. mEventID q' (event z)) ys = map (\<lambda>z. mEventID (teq s) (event z)) ys" using keep by simp
    then have "queue_ids q' = map (\<lambda>z. mEventID (teq s) (event z)) ys" by (simp add: queue_ids_def q'_def)
    then show ?thesis by (simp add: queue_ids_def x)
  qed
  have sorted: "sorted_wrt (item_before (mEventID q')) ys"
    using inv sorted_item_cong [OF keep] by (simp add: teq_inv_def x(1,2) sorted_wrt_append)
  have f: "fired_ok (take_event i s)" using inv due x unfolding t teq_inv_def fired_ok_def by simp
  have "mset (queue_ids q') + mset (map fired_id (fired s) @ [i]) + mset (cancelled s) + mset (discarded s) = mset_set {1..int (posts s)}"
    using inv unfolding teq_inv_def ids [symmetric] by simp
  moreover have "mQueue q' = ys" "mNextEventID q' = mNextEventID (teq s)" "mRunning q' = mRunning (teq s)" "set ys \<subseteq> set (mQueue (teq s))"
    by (auto simp: q'_def setEventID_def x(1,2))
  moreover have "stopping s" if "event x = StopEvent a" for a
  proof -
    have "item_ok (stopping s) x" using inv x(1) by (simp add: teq_inv_def)
    then show ?thesis using that by (simp add: item_ok_def)
  qed
  ultimately show ?thesis using inv run sorted f unfolding t teq_inv_def by (auto simp: wait_ok_def subset_iff)
qed

lemma head_loop_inv:
  assumes inv: "teq_inv s" and run: "pc s \<noteq> NotStarted"
  shows "teq_inv (head_loop i s)"
proof (cases "mQueue (teq s)")
  case Nil
  then show ?thesis using take_event_inv [OF inv run, of i] by (simp add: head_loop_def)
next
  case (Cons x xs)
  define j where "j = mEventID (teq s) (event x)"
  define delay where "delay = (if realtime_us x < 0 \<or> realtime_us x = INT64_MAX then 0 else realtime_us x - clock s)"
  have only: "z = x" if "z \<in> set (mQueue (teq s))" "mEventID (teq s) (event z) = j" for z
    using inj_onD [OF inv_queue(2) [OF inv], of z x] that Cons by (simp add: j_def)
  show ?thesis
  proof (cases "delay \<le> 0")
    case True
    have "head_loop i s = take_event j s" using True Cons by (simp add: head_loop_def j_def delay_def Let_def)
    moreover have "realtime_us x < 0 \<or> realtime_us x = INT64_MAX \<or> realtime_us x \<le> clock s" using True by (auto simp: delay_def split: if_splits)
    ultimately show ?thesis using take_event_inv [OF inv run, of j] only by auto
  next
    case False
    define capped where "capped \<longleftrightarrow> delay > kMaxTimeoutUs"
    have h: "head_loop i s = s\<lparr> teq := (teq s)\<lparr> mQueueHeadChanged_signalled := False \<rparr>,
        pc := WaitHead j (clock s) (clock s + (if capped then kMaxTimeoutUs else delay)) capped \<rparr>"
      using False Cons by (simp add: head_loop_def j_def delay_def capped_def Let_def)
    have x: "0 \<le> realtime_us x" "realtime_us x < INT64_MAX" "clock s + delay = realtime_us x" "j \<le> int (posts s)"
    proof -
      have "item_ok (stopping s) x" using inv Cons by (simp add: teq_inv_def)
      then show "0 \<le> realtime_us x" "realtime_us x < INT64_MAX" "clock s + delay = realtime_us x"
        using False by (auto simp: delay_def item_ok_def split: if_splits)
      show "j \<le> int (posts s)" using inv_queue(3) [OF inv] Cons by (simp add: j_def)
    qed
    have due: "\<forall>z \<in> set (mQueue (teq s)). mEventID (teq s) (event z) = j \<longrightarrow> realtime_us z \<le> clock s + delay"
      using only x(3) by (metis order_refl)
    have head: "\<exists>z zs. mQueue (teq s) = z # zs \<and> mEventID (teq s) (event z) = j \<and> 0 \<le> realtime_us z \<and> realtime_us z < INT64_MAX \<and>
                capped = (clock s + 10000000 < realtime_us z) \<and> clock s + (if capped then kMaxTimeoutUs else delay) = min (realtime_us z) (clock s + 10000000)"
      using x(1-3) Cons by (auto simp: j_def capped_def kMaxTimeoutUs_def)
    have "wait_ok (head_loop i s)" unfolding h wait_ok_def using x(4) due head by (cases capped) simp_all
    then show ?thesis using inv run unfolding teq_inv_def fired_ok_def h by (simp add: queue_ids_def)
  qed
qed

lemma wait_not_empty_inv:
  assumes "teq_inv s" and "pc s \<noteq> NotStarted"
  shows "teq_inv (wait_not_empty s)"
proof (cases "mQueue (teq s) = []")
  case True
  then show ?thesis using assms unfolding teq_inv_def by (simp add: wait_not_empty_def wait_ok_def fired_ok_def queue_ids_def)
next
  case False
  then show ?thesis using head_loop_inv [OF assms] by (simp add: wait_not_empty_def)
qed

lemma wait_frame:
  "wait_ok (s\<lparr> teq := (teq s)\<lparr> mStopped := b \<rparr> \<rparr>) = wait_ok s" "clock s \<le> now \<Longrightarrow> wait_ok s \<Longrightarrow> wait_ok (s\<lparr> clock := now \<rparr>)"
  unfolding wait_ok_def by (auto split: thread_pc.splits)

lemma teq_step_posts: "teq_step s t \<Longrightarrow> posts s \<le> posts t"
  by (induction rule: teq_step.induct)
     (simp_all add: post_def cancel_def start_def stop_post_def stop_joined_def thread_top_def wait_not_empty_def head_woken_def
        head_loop_def take_event_def fire_def Let_def split: list.splits option.splits prod.splits event_ref.splits)

lemma teq_step_inv:
  assumes "teq_step s t" and inv: "teq_inv s" and n: "posts t < 2147483646"
  shows "teq_inv t"
  using assms(1)
proof cases
  case (client_post a t')
  have "item_ok (stopping s) \<lparr> event = Client a, realtime_us = t' \<rparr>" using client_post by (simp add: item_ok_def)
  moreover have "(post (Client a) t' s)\<lparr> stopping := stopping s \<rparr> = post (Client a) t' s" by (simp add: post_def)
  ultimately show ?thesis using post_inv [OF inv client_post(2)] n client_post(1) by (force simp: post_def)
next
  case (client_cancel pred cookie first)
  then show ?thesis using cancel_inv [OF inv] by simp
next
  case client_force_stop
  then show ?thesis using inv unfolding teq_inv_def by (simp add: forceStop_def fired_ok_def queue_ids_def wait_frame)
next
  case client_start
  show ?thesis
  proof (cases "mRunning (teq s)")
    case False
    then show ?thesis using client_start inv unfolding teq_inv_def by (simp add: start_def fired_ok_def queue_ids_def wait_ok_def)
  qed (use client_start inv in \<open>simp add: start_def\<close>)
next
  case (client_stop a flush)
  have "item_ok True \<lparr> event = StopEvent a, realtime_us = (if flush then INT64_MAX else INT64_MIN) \<rparr>"
    by (simp add: item_ok_def INT64_MIN_def INT64_MAX_def)
  then show ?thesis using post_inv [OF inv client_stop(4)] n client_stop(1) by (simp add: stop_post_def post_def)
next
  case client_join
  then show ?thesis using inv unfolding teq_inv_def by (simp add: stop_joined_def fired_ok_def queue_ids_def wait_ok_def ac_simps)
next
  case (clock_tick now)
  then show ?thesis using inv unfolding teq_inv_def by (auto simp: fired_ok_def wait_frame)
next
  case thread_at_top
  then show ?thesis using inv wait_not_empty_inv [OF inv]
    by (auto simp: thread_top_def teq_inv_def fired_ok_def wait_ok_def)
next
  case thread_wakes
  then show ?thesis using wait_not_empty_inv [OF inv] by simp
next
  case (thread_head_woken i w d capped timedout)
  have "\<forall>x \<in> set (mQueue (teq s)). mEventID (teq s) (event x) = i \<longrightarrow> realtime_us x < 0 \<or> realtime_us x = INT64_MAX \<or> realtime_us x \<le> clock s"
    if "\<not> capped" "timedout" using inv that thread_head_woken(2,3) unfolding teq_inv_def wait_ok_def by fastforce
  then show ?thesis using thread_head_woken take_event_inv [OF inv] head_loop_inv [OF inv] by (simp add: head_woken_def)
next
  case (thread_fires ev now)
  then show ?thesis using inv unfolding teq_inv_def
    by (simp add: fire_def forceStop_def fired_ok_def wait_ok_def queue_ids_def split: event_ref.splits)
qed

lemma reachable_inv: "teq_reachable s \<Longrightarrow> posts s < 2147483646 \<Longrightarrow> teq_inv s"
proof (induction rule: teq_reachable.induct)
  case (teq_reachable_init now)
  show ?case by (simp add: teq_inv_def teq_init_def TimedEventQueue_new_def queue_ids_def wait_ok_def fired_ok_def)
next
  case (teq_reachable_step s t)
  then show ?case using teq_step_inv teq_step_posts by fastforce
qed

subsection \<open>What the queue guarantees\<close>

text \<open>A run in which an event is posted, waited for and fired, and another one cancelled.\<close>

definition example_started :: teq_sys where
  "example_started = post (Client 1) 7000 (post (Client 0) 5000 (start (teq_init 0)))"

definition example_fired :: teq_sys where
  "example_fired = head_woken True 1 False ((thread_top example_started)\<lparr> clock := 5000 \<rparr>)"

lemmas teq_exec = example_started_def example_fired_def post_def postTimedEvent_def setEventID_def start_def teq_init_def TimedEventQueue_new_def
  s32_def Let_def thread_top_def wait_not_empty_def head_loop_def head_woken_def take_event_def removeEventFromQueue_l_def kMaxTimeoutUs_def
  INT64_MIN_def INT64_MAX_def

lemma example_started_reachable: "teq_reachable example_started"
proof -
  have "teq_reachable (start (teq_init 0))"
    by (rule teq_reachable_step [OF teq_reachable_init client_start]) (simp_all add: teq_init_def)
  then have "teq_reachable (post (Client 0) 5000 (start (teq_init 0)))"
    by (rule teq_reachable_step [OF _ client_post]) (simp_all add: teq_exec)
  then show ?thesis unfolding example_started_def
    by (rule teq_reachable_step [OF _ client_post]) (simp_all add: teq_exec)
qed

lemma example_fired_reachable: "teq_reachable example_fired"
proof -
  have "teq_reachable (thread_top example_started)"
    by (rule teq_reachable_step [OF example_started_reachable thread_at_top]) (simp add: teq_exec)
  then have "teq_reachable ((thread_top example_started)\<lparr> clock := 5000 \<rparr>)"
    by (rule teq_reachable_step [OF _ clock_tick]) (simp add: teq_exec)
  then show ?thesis unfolding example_fired_def
    by (rule teq_reachable_step [OF _ thread_head_woken [where d = 5000]]) (simp_all add: teq_exec)
qed

lemma example_fired_state:
  "posts example_fired = 2" "map fired_id (fired example_fired) = [1]" "queue_ids (teq example_fired) = [2]" "cancelled example_fired = []"
  "clock example_fired = 5000" "mRunning (teq example_fired)" "\<not> stopping example_fired"
  by (simp_all add: teq_exec queue_ids_def)



text \<open>
  C17. No wake-up is lost. When the thread waits for an item and no signal is on its way, the queue is empty; when it
  waits for a time and no signal is on its way, the first item of the queue is the one it waits for, and it waits
  until the time of that item or until ten seconds (ten million microseconds) after the wait began, whichever comes
  first.
\<close>
theorem no_lost_wakeup:
  assumes "teq_reachable s" and "posts s < 2147483646"
  shows "(pc s = WaitNotEmpty \<and> \<not> mQueueNotEmpty_signalled (teq s) \<longrightarrow> mQueue (teq s) = []) \<and>
    (\<forall>i w d capped. pc s = WaitHead i w d capped \<and> \<not> mQueueHeadChanged_signalled (teq s) \<longrightarrow>
       mQueue (teq s) \<noteq> [] \<and> mEventID (teq s) (event (hd (mQueue (teq s)))) = i \<and>
       w \<le> clock s \<and> d = min (realtime_us (hd (mQueue (teq s)))) (w + 10000000) \<and>
       capped = (w + 10000000 < realtime_us (hd (mQueue (teq s)))))"
  using reachable_inv [OF assms] unfolding teq_inv_def wait_ok_def by fastforce

theorem no_lost_wakeup_witness:
  "pc (thread_top example_started) = WaitHead 1 0 5000 False \<and> mEventID (teq (thread_top example_started)) (event (hd (mQueue (teq (thread_top example_started))))) = 1"
proof -
  have "teq_reachable (thread_top example_started)"
    by (rule teq_reachable_step [OF example_started_reachable thread_at_top]) (simp add: teq_exec)
  moreover have "pc (thread_top example_started) = WaitHead 1 0 5000 False" "\<not> mQueueHeadChanged_signalled (teq (thread_top example_started))"
    "posts (thread_top example_started) < 2147483646" by (simp_all add: teq_exec)
  ultimately show ?thesis using no_lost_wakeup [of "thread_top example_started"] by blast
qed

text \<open>
  C31. No event fires early: each one is fired at or after its time, unless it was posted to the front or to the back,
  where the time is only a place in the queue.
\<close>
theorem events_fire_on_time:
  assumes "teq_reachable s" and "posts s < 2147483646" and "f \<in> set (fired s)"
    and "0 \<le> realtime_us (fired_item f)" and "realtime_us (fired_item f) \<noteq> INT64_MAX"
  shows "realtime_us (fired_item f) \<le> fired_now f \<and> fired_now f \<le> clock s"
  using reachable_inv [OF assms(1,2)] assms(3-5) by (auto simp: teq_inv_def fired_ok_def)

theorem events_fire_on_time_witness:
  "realtime_us (fired_item (hd (fired example_fired))) = 5000 \<and> 5000 \<le> fired_now (hd (fired example_fired)) \<and> fired_now (hd (fired example_fired)) \<le> 5000"
proof -
  have f: "hd (fired example_fired) \<in> set (fired example_fired)" "realtime_us (fired_item (hd (fired example_fired))) = 5000"
    by (simp_all add: teq_exec)
  have t: "0 \<le> realtime_us (fired_item (hd (fired example_fired)))" "realtime_us (fired_item (hd (fired example_fired))) \<noteq> INT64_MAX"
    by (simp_all add: f(2) INT64_MAX_def)
  show ?thesis using events_fire_on_time [OF example_fired_reachable _ f(1) t] f(2) by (simp add: example_fired_state)
qed

subsection \<open>Cancelling by number\<close>

lemma cancel_loop_id:
  assumes "i \<noteq> 0"
  shows "cancel_loop MatchesEventID True kept i xs q =
    (case remove_item (mEventID q) i xs of
       None \<Rightarrow> (i, q\<lparr> mQueue := kept @ xs \<rparr>)
     | Some (x, ys) \<Rightarrow>
         (0, (setEventID (event x) 0 (if kept = [] \<and> x = hd xs \<and> mEventID q (event (hd xs)) = i then q\<lparr> mQueueHeadChanged_signalled := True \<rparr> else q))\<lparr> mQueue := kept @ ys \<rparr>))"
proof (induction xs arbitrary: kept)
  case (Cons x xs)
  show ?case
  proof (cases "mEventID q (event x) = i")
    case False
    then show ?thesis using Cons.IH [of "kept @ [x]"]
      by (auto simp: MatchesEventID_def Let_def split: option.splits)
  qed (simp add: MatchesEventID_def Let_def)
qed simp

lemma cancelled_step: "teq_step s t \<Longrightarrow> set (cancelled s) \<subseteq> set (cancelled t)"
  by (induction rule: teq_step.induct)
     (auto simp: post_def cancel_def start_def stop_post_def stop_joined_def thread_top_def wait_not_empty_def head_woken_def
        head_loop_def take_event_def fire_def Let_def split: list.splits option.splits prod.splits event_ref.splits)

lemma steps_cancelled:
  "teq_step\<^sup>*\<^sup>* s t \<Longrightarrow> set (cancelled s) \<subseteq> set (cancelled t) \<and> posts s \<le> posts t \<and> (teq_reachable s \<longrightarrow> teq_reachable t)"
proof (induction rule: rtranclp_induct)
  case (step t u)
  then show ?case using cancelled_step [OF step(2)] teq_step_posts [OF step(2)] teq_reachable_step by force
qed simp

text \<open>
  C40. Cancelling an event by its number succeeds exactly when the event is in the queue, and removes it and nothing
  else. Once it has succeeded the event never fires, whatever happens afterwards.
\<close>
theorem cancel_event_exact:
  assumes r: "teq_reachable s" and n: "posts s < 2147483646"
    and later: "teq_step\<^sup>*\<^sup>* (cancel MatchesEventID i True s) t" "posts t < 2147483646"
  shows "fst (cancelEvent i (teq s)) = (i \<in> set (queue_ids (teq s))) \<and>
    queue_ids (snd (cancelEvent i (teq s))) = filter (\<lambda>j. j \<noteq> i) (queue_ids (teq s)) \<and>
    (fst (cancelEvent i (teq s)) \<longrightarrow> i \<notin> set (map fired_id (fired t)))"
proof -
  note inv = reachable_inv [OF r n]
  have no: "i \<notin> set (queue_ids (teq s)) \<Longrightarrow> filter (\<lambda>j. j \<noteq> i) (queue_ids (teq s)) = queue_ids (teq s)"
    by (rule filter_True) auto
  have ids: "0 \<notin> set (queue_ids (teq s))" using inv_queue(3) [OF inv] by (force simp: queue_ids_def)
  show ?thesis
  proof (cases "i = 0 \<or> i \<notin> set (queue_ids (teq s))")
    case True
    have "remove_item (mEventID (teq s)) i (mQueue (teq s)) = None" if "i \<noteq> 0"
      using True that by (auto simp: remove_item_None queue_ids_def)
    then have "cancelEvent i (teq s) = (False, teq s)"
      by (simp add: cancelEvent_def cancelEvents_def cancel_loop_id)
    then show ?thesis using True ids no by auto
  next
    case False
    then obtain x ys where rm: "remove_item (mEventID (teq s)) i (mQueue (teq s)) = Some (x, ys)"
      using remove_item_None [of "mEventID (teq s)" i "mQueue (teq s)"] by (force simp: queue_ids_def)
    obtain as bs where x: "mQueue (teq s) = as @ x # bs" "ys = as @ bs" "mEventID (teq s) (event x) = i"
      using remove_item_Some [OF rm] by blast
    obtain q' where q': "cancelEvents MatchesEventID i True (teq s) = (0, q')" "mQueue q' = ys" "mEventID q' = (mEventID (teq s))(event x := 0)"
      using False rm by (simp add: cancelEvents_def cancel_loop_id setEventID_def)
    have c: "cancelEvent i (teq s) = (True, q')" using False q'(1) by (simp add: cancelEvent_def)
    have other: "event z \<noteq> event x \<and> mEventID (teq s) (event z) \<noteq> i" if "z \<in> set ys" for z
    proof -
      have d: "distinct (map event (as @ x # bs))" "inj_on (\<lambda>z. mEventID (teq s) (event z)) (set (as @ x # bs))"
        using inv_queue(1,2) [OF inv] by (simp_all add: x(1))
      then have "event z \<noteq> event x" using that by (auto simp: x(2) image_iff)
      moreover have "z \<in> set (as @ x # bs)" using that by (auto simp: x(2))
      ultimately show ?thesis using inj_onD [OF d(2), of z x] x(3) by auto
    qed
    have "queue_ids q' = map (\<lambda>z. mEventID (teq s) (event z)) ys" unfolding queue_ids_def q'(2,3) using other by simp
    also have "\<dots> = filter (\<lambda>j. j \<noteq> i) (map (\<lambda>z. mEventID (teq s) (event z)) ys)" using other by (intro filter_True [symmetric]) auto
    also have "\<dots> = filter (\<lambda>j. j \<noteq> i) (queue_ids (teq s))" by (simp add: queue_ids_def x)
    finally have after: "queue_ids q' = filter (\<lambda>j. j \<noteq> i) (queue_ids (teq s))" .
    have "i \<in> set (cancelled (cancel MatchesEventID i True s))" using False after q'(1) by (simp add: cancel_def)
    then have "i \<in> set (cancelled t)" "teq_reachable t"
      using steps_cancelled [OF later(1)] teq_reachable_step [OF r client_cancel] by blast+
    then have "i \<notin> set (map fired_id (fired t))" using id_ledger(1) [OF reachable_inv [OF _ later(2)]] by auto
    then show ?thesis using c after False by simp
  qed
qed

theorem cancel_event_exact_witness:
  "fst (cancelEvent 2 (teq example_fired)) \<and> queue_ids (snd (cancelEvent 2 (teq example_fired))) = [] \<and>
   2 \<notin> set (map fired_id (fired (cancel MatchesEventID 2 True example_fired)))"
proof -
  have "posts (cancel MatchesEventID 2 True example_fired) < 2147483646" by (simp add: cancel_def Let_def example_fired_state)
  then show ?thesis using cancel_event_exact [OF example_fired_reachable _ rtranclp.rtrancl_refl] by (simp add: example_fired_state)
qed

text \<open>An event object that is posted twice has one number for two items: cancelling it succeeds and leaves one behind.\<close>

lemma double_post_survives_cancel:
  "let q = snd (postTimedEvent (Client 0) 9 (snd (postTimedEvent (Client 0) 5 TimedEventQueue_new)))
   in fst (cancelEvent 2 q) \<and> mQueue (snd (cancelEvent 2 q)) = [\<lparr> event = Client 0, realtime_us = 9 \<rparr>]"
  by (simp add: teq_exec cancelEvent_def cancelEvents_def MatchesEventID_def)

subsection \<open>Stopping\<close>

text \<open>The thread alone, woken only by signals.\<close>

definition thread_go :: "teq_sys \<Rightarrow> teq_sys" where
  "thread_go s =
     (case pc s of
        Top \<Rightarrow> thread_top s
      | WaitNotEmpty \<Rightarrow> if mQueueNotEmpty_signalled (teq s) then wait_not_empty s else s
      | WaitHead i w d capped \<Rightarrow> if mQueueHeadChanged_signalled (teq s) then head_woken False i capped s else s
      | Fire ev now \<Rightarrow> fire ev s
      | _ \<Rightarrow> s)"

lemma thread_go_step: "thread_go s = s \<or> teq_step s (thread_go s)"
  unfolding thread_go_def by (auto split: thread_pc.split intro: teq_step.intros)

lemma stop_head:
  assumes "mQueue (teq s) = x # xs" and "event x = StopEvent a" and "realtime_us x < 0"
  shows "pc (thread_go (thread_go (head_loop i s))) = Exited"
  using assms by (simp add: head_loop_def take_event_def removeEventFromQueue_l_def Let_def thread_go_def fire_def forceStop_def thread_top_def setEventID_def)

lemma stop_from_top:
  assumes "pc s = Top" and "mQueue (teq s) = x # xs" and "event x = StopEvent a" and "realtime_us x < 0"
  shows "\<exists>n \<le> 3. pc ((thread_go ^^ n) s) = Exited"
proof (cases "mStopped (teq s)")
  case True
  then have "pc ((thread_go ^^ 1) s) = Exited" using assms(1) by (simp add: thread_go_def thread_top_def)
  then show ?thesis by (meson one_le_numeral)
next
  case False
  then have "pc ((thread_go ^^ 3) s) = Exited" using stop_head [OF assms(2-4), of 0] assms(1,2)
    by (simp add: thread_go_def [of s] thread_top_def wait_not_empty_def numeral_3_eq_3)
  then show ?thesis by blast
qed

text \<open>
  The thread alone while time passes: when it waits for a time and no signal was sent, the clock goes on to the deadline and
  the wait times out. This is how a queue that is flushed empties itself.
\<close>

definition thread_timed :: "teq_sys \<Rightarrow> teq_sys" where
  "thread_timed s =
     (case pc s of
        WaitHead i w d capped \<Rightarrow>
          if mQueueHeadChanged_signalled (teq s) then head_woken False i capped s
          else head_woken True i capped (s\<lparr> clock := max (clock s) d \<rparr>)
      | _ \<Rightarrow> thread_go s)"

lemma thread_timed_steps: "teq_step\<^sup>*\<^sup>* s (thread_timed s)"
proof (cases "pc s")
  case (WaitHead i w d capped)
  let ?u = "s\<lparr> clock := max (clock s) d \<rparr>"
  have "teq_step s ?u" by (rule clock_tick) simp
  moreover have "teq_step ?u (head_woken True i capped ?u)" by (rule thread_head_woken [where d = d]) (use WaitHead in simp_all)
  moreover have "teq_step s (head_woken False i capped s)" using WaitHead by (rule thread_head_woken) simp
  ultimately show ?thesis using WaitHead by (auto simp: thread_timed_def intro: rtranclp.rtrancl_into_rtrancl)
qed (use thread_go_step [of s] in \<open>auto simp: thread_timed_def\<close>)

text \<open>In the state \<open>t\<close> the first item of the queue of \<open>s\<close> has been taken for firing, and nothing else has changed.\<close>

definition head_taken :: "teq_sys \<Rightarrow> teq_sys \<Rightarrow> bool" where
  "head_taken s t \<longleftrightarrow>
     (\<exists>x xs now. mQueue (teq s) = x # xs \<and> mQueue (teq t) = xs \<and> pc t = Fire (event x) now \<and>
        map fired_id (fired t) = map fired_id (fired s) @ [mEventID (teq s) (event x)] \<and>
        mEventID (teq t) = (mEventID (teq s))(event x := 0) \<and> mStopped (teq t) = mStopped (teq s))"

lemma take_head:
  assumes "mQueue (teq s) = x # xs" and "i = mEventID (teq s) (event x)"
  shows "head_taken s (take_event i s)"
  using assms by (simp add: head_taken_def take_event_def removeEventFromQueue_l_def setEventID_def)

lemma head_taken_frame:
  assumes "head_taken s' t" and "mQueue (teq s') = mQueue (teq s)" and "fired s' = fired s" and "mEventID (teq s') = mEventID (teq s)"
    and "mStopped (teq s') = mStopped (teq s)"
  shows "head_taken s t"
  using assms by (simp add: head_taken_def)

lemma funpow_front: "(f ^^ n) (f x) = (f ^^ Suc n) x"
  by (simp add: funpow_swap1)

text \<open>Every pass of the inner loop that waits brings the clock closer to the time of the first item.\<close>

lemma head_loop_takes:
  assumes "mQueue (teq s) = x # xs"
  shows "\<exists>n. head_taken s ((thread_timed ^^ n) (head_loop i s))"
  using assms
proof (induction "nat (realtime_us x - clock s)" arbitrary: s i rule: less_induct)
  case less
  define j where "j = mEventID (teq s) (event x)"
  define delay where "delay = (if realtime_us x < 0 \<or> realtime_us x = INT64_MAX then 0 else realtime_us x - clock s)"
  show ?case
  proof (cases "delay \<le> 0")
    case True
    then have "head_loop i s = take_event j s" using less.prems by (simp add: head_loop_def j_def delay_def Let_def)
    then show ?thesis using take_head [OF less.prems j_def] by (intro exI [where x = 0]) simp
  next
    case False
    define capped where "capped \<longleftrightarrow> delay > kMaxTimeoutUs"
    define d where "d = clock s + (if capped then kMaxTimeoutUs else delay)"
    define u where "u = s\<lparr> teq := (teq s)\<lparr> mQueueHeadChanged_signalled := False \<rparr>, pc := WaitHead j (clock s) d capped, clock := d \<rparr>"
    have d: "clock s < d" using False by (simp add: d_def kMaxTimeoutUs_def)
    have "head_loop i s = s\<lparr> teq := (teq s)\<lparr> mQueueHeadChanged_signalled := False \<rparr>, pc := WaitHead j (clock s) d capped \<rparr>"
      using False less.prems by (simp add: head_loop_def j_def d_def delay_def capped_def Let_def)
    then have w: "thread_timed (head_loop i s) = (if capped then head_loop j u else take_event j u)"
      using d by (simp add: thread_timed_def u_def head_woken_def max_def)
    have u: "mQueue (teq u) = x # xs" "fired u = fired s" "mEventID (teq u) = mEventID (teq s)" "mStopped (teq u) = mStopped (teq s)" "clock u = d"
      using less.prems by (simp_all add: u_def)
    have "\<exists>n. head_taken u ((thread_timed ^^ n) (thread_timed (head_loop i s)))"
    proof (cases capped)
      case True
      have "nat (realtime_us x - clock u) < nat (realtime_us x - clock s)"
        using False d by (auto simp: u(5) delay_def split: if_splits)
      then show ?thesis using less.hyps [OF _ u(1)] True w by simp
    next
      case False
      then show ?thesis using take_head [OF u(1), of j] w u(3) by (intro exI [where x = 0]) (simp add: j_def)
    qed
    then show ?thesis unfolding funpow_front using head_taken_frame [of u _ s] u less.prems by (metis (no_types, lifting))
  qed
qed

lemma fire_after:
  assumes "pc t = Fire ev now"
  shows "thread_timed t = fire ev t"
  using assms by (simp add: thread_timed_def thread_go_def)

text \<open>Wherever the thread is in its loop, it gets to the first item of the queue.\<close>

lemma takes_head:
  assumes q: "mQueue (teq s) = x # xs" and ok: "wait_ok s"
    and pc: "pc s = Top \<and> \<not> mStopped (teq s) \<or> pc s = WaitNotEmpty \<or> (\<exists>i w d capped. pc s = WaitHead i w d capped)"
  shows "\<exists>n. head_taken s ((thread_timed ^^ n) s)"
proof -
  have one: "\<exists>n. head_taken s ((thread_timed ^^ n) s)" if "\<exists>n. head_taken u ((thread_timed ^^ n) (thread_timed s))"
      "mQueue (teq u) = mQueue (teq s)" "fired u = fired s" "mEventID (teq u) = mEventID (teq s)" "mStopped (teq u) = mStopped (teq s)" for u
    using that(1) head_taken_frame [OF _ that(2-5)] unfolding funpow_front by blast
  note loop = head_loop_takes [OF q]
  from pc show ?thesis
  proof (elim disjE exE)
    assume "pc s = Top \<and> \<not> mStopped (teq s)"
    then have "thread_timed s = head_loop 0 s" using q by (simp add: thread_timed_def thread_go_def thread_top_def wait_not_empty_def)
    then show ?thesis using one [of s] loop by simp
  next
    assume "pc s = WaitNotEmpty"
    moreover from this have "mQueueNotEmpty_signalled (teq s)" using ok q by (auto simp: wait_ok_def)
    ultimately have "thread_timed s = head_loop 0 s" using q by (simp add: thread_timed_def thread_go_def wait_not_empty_def)
    then show ?thesis using one [of s] loop by simp
  next
    fix i w d capped assume wh: "pc s = WaitHead i w d capped"
    define u where "u = s\<lparr> clock := max (clock s) d \<rparr>"
    have u: "mQueue (teq u) = mQueue (teq s)" "fired u = fired s" "mEventID (teq u) = mEventID (teq s)" "mStopped (teq u) = mStopped (teq s)"
      by (simp_all add: u_def)
    consider "mQueueHeadChanged_signalled (teq s)" | "\<not> mQueueHeadChanged_signalled (teq s)" "capped" | "\<not> mQueueHeadChanged_signalled (teq s)" "\<not> capped"
      by blast
    then show ?thesis
    proof cases
      case 1
      then have "thread_timed s = head_loop i s" using wh by (simp add: thread_timed_def head_woken_def)
      then show ?thesis using one [of s] loop by simp
    next
      case 2
      then have "thread_timed s = head_loop i u" using wh by (simp add: thread_timed_def head_woken_def u_def)
      then show ?thesis using one [OF _ u] head_loop_takes [of u x xs i] q u(1) by simp
    next
      case 3
      then have "thread_timed s = take_event i u" using wh by (simp add: thread_timed_def head_woken_def u_def)
      moreover have "mEventID (teq s) (event x) = i" using 3(1) ok wh q by (auto simp: wait_ok_def)
      ultimately have "head_taken u ((thread_timed ^^ 0) (thread_timed s))" using take_head [of u x xs i] q u(1,3) by simp
      then show ?thesis using one [OF _ u] by blast
    qed
  qed
qed

text \<open>
  Flushing, once the first item can be taken: the events before the \<open>StopEvent\<close> are fired one after another, then the
  thread ends.
\<close>

lemma flush_fires_all:
  assumes "mQueue (teq s) = cs @ [st]" and "\<forall>x \<in> set cs. \<exists>c. event x = Client c" and "event st = StopEvent a"
    and "distinct (map event (cs @ [st]))" and "\<not> mStopped (teq s)" and "\<exists>n. head_taken s ((thread_timed ^^ n) s)"
  shows "\<exists>n. pc ((thread_timed ^^ n) s) = Exited \<and> mQueue (teq ((thread_timed ^^ n) s)) = [] \<and>
    map fired_id (fired ((thread_timed ^^ n) s)) = map fired_id (fired s) @ queue_ids (teq s)"
  using assms
proof (induction cs arbitrary: s)
  case Nil
  obtain n where n: "head_taken s ((thread_timed ^^ n) s)" using Nil by blast
  define t where "t = (thread_timed ^^ n) s"
  have t: "mQueue (teq t) = []" "map fired_id (fired t) = map fired_id (fired s) @ queue_ids (teq s)" "\<exists>now. pc t = Fire (StopEvent a) now"
    using n Nil unfolding t_def [symmetric] by (auto simp: head_taken_def queue_ids_def)
  have "pc (thread_timed (thread_timed t)) = Exited \<and> mQueue (teq (thread_timed (thread_timed t))) = [] \<and>
      fired (thread_timed (thread_timed t)) = fired t"
    using t by (auto simp: fire_after fire_def forceStop_def thread_timed_def thread_go_def thread_top_def)
  then show ?case using t(2) by (intro exI [where x = "Suc (Suc n)"]) (simp add: t_def)
next
  case (Cons x cs)
  obtain n where n: "head_taken s ((thread_timed ^^ n) s)" using Cons.prems by blast
  define t where "t = (thread_timed ^^ n) s"
  obtain c now where t: "mQueue (teq t) = cs @ [st]" "pc t = Fire (Client c) now" "\<not> mStopped (teq t)"
      "mEventID (teq t) = (mEventID (teq s))(event x := 0)" "map fired_id (fired t) = map fired_id (fired s) @ [mEventID (teq s) (event x)]"
    using n Cons.prems unfolding t_def [symmetric] by (auto simp: head_taken_def)
  have u: "thread_timed t = t\<lparr> pc := Top \<rparr>" using t(2) by (simp add: fire_after fire_def)
  have other: "event z \<noteq> event x" if "z \<in> set (cs @ [st])" for z using Cons.prems(4) that by (auto simp: image_iff)
  have ids: "mEventID (teq s) (event x) # queue_ids (teq t) = queue_ids (teq s)"
    using other unfolding queue_ids_def t(1,4) Cons.prems(1) by simp
  obtain y ys where "cs @ [st] = y # ys" by (cases cs) simp_all
  then have "\<exists>n. head_taken (thread_timed t) ((thread_timed ^^ n) (thread_timed t))"
    using takes_head [of "thread_timed t" y ys] t(1,3) by (simp add: u wait_ok_def)
  then obtain m where m: "pc ((thread_timed ^^ m) (thread_timed t)) = Exited" "mQueue (teq ((thread_timed ^^ m) (thread_timed t))) = []"
      "map fired_id (fired ((thread_timed ^^ m) (thread_timed t))) = map fired_id (fired t) @ queue_ids (teq t)"
    using Cons.IH [of "thread_timed t"] Cons.prems(2-4) t(1,3) by (auto simp: u)
  have "(thread_timed ^^ m) (thread_timed t) = (thread_timed ^^ (m + Suc n)) s" by (simp only: t_def funpow_add comp_def funpow.simps)
  then show ?case using m t(5) ids by (metis append.assoc append_Cons append_Nil)
qed

lemma stopped_exits:
  assumes "mStopped (teq t)" and "pc t = Top \<or> (\<exists>ev now. pc t = Fire ev now)"
  shows "\<exists>n. pc ((thread_timed ^^ n) t) = Exited"
proof (cases "pc t = Top")
  case True
  then show ?thesis using assms(1) by (intro exI [where x = 1]) (simp add: thread_timed_def thread_go_def thread_top_def)
next
  case False
  then obtain ev now where "pc t = Fire ev now" using assms(2) by blast
  then show ?thesis using assms(1)
    by (intro exI [where x = 2]) (cases ev; simp add: numeral_2_eq_2 thread_timed_def thread_go_def fire_def forceStop_def thread_top_def)
qed

lemma flush_ends_thread:
  assumes q: "mQueue (teq s) = cs @ [st]" "\<forall>x \<in> set cs. \<exists>c. event x = Client c" "event st = StopEvent a" "distinct (map event (cs @ [st]))"
    and ok: "wait_ok s" and pc: "pc s \<noteq> NotStarted" "pc s = Exited \<longrightarrow> mStopped (teq s)" "\<forall>b now. pc s \<noteq> Fire (StopEvent b) now"
  shows "\<exists>n. pc ((thread_timed ^^ n) s) = Exited \<and> (\<not> mStopped (teq s) \<longrightarrow> mQueue (teq ((thread_timed ^^ n) s)) = [] \<and>
    map fired_id (fired ((thread_timed ^^ n) s)) = map fired_id (fired s) @ queue_ids (teq s))"
proof -
  obtain y ys where y: "cs @ [st] = y # ys" by (cases cs) simp_all
  note takes = takes_head [OF q(1) [unfolded y] ok]
  show ?thesis
  proof (cases "mStopped (teq s)")
    case True
    have "\<exists>n. pc ((thread_timed ^^ n) s) = Exited" if h: "\<exists>n. head_taken s ((thread_timed ^^ n) s)"
    proof -
      obtain n where n: "head_taken s ((thread_timed ^^ n) s)" using h by blast
      then have "mStopped (teq ((thread_timed ^^ n) s))" "\<exists>ev now. pc ((thread_timed ^^ n) s) = Fire ev now"
        using True by (auto simp: head_taken_def)
      then obtain m where "pc ((thread_timed ^^ m) ((thread_timed ^^ n) s)) = Exited" using stopped_exits by blast
      then show ?thesis by (intro exI [where x = "m + n"]) (simp add: funpow_add)
    qed
    then have "\<exists>n. pc ((thread_timed ^^ n) s) = Exited"
      using takes stopped_exits [OF True] pc(1) by (cases "pc s") (auto intro: exI [where x = 0])
    then show ?thesis using True by simp
  next
    case False
    show ?thesis
    proof (cases "\<exists>c now. pc s = Fire (Client c) now")
      case True
      define u where "u = thread_timed s"
      have u: "u = s\<lparr> pc := Top \<rparr>" using True by (auto simp: u_def fire_after fire_def)
      have "\<exists>n. head_taken u ((thread_timed ^^ n) u)" using takes_head [of u y ys] q(1) False by (simp add: u y wait_ok_def)
      then have "\<exists>n. pc ((thread_timed ^^ n) u) = Exited \<and> mQueue (teq ((thread_timed ^^ n) u)) = [] \<and>
          map fired_id (fired ((thread_timed ^^ n) u)) = map fired_id (fired s) @ queue_ids (teq s)"
        using flush_fires_all [of u cs st a] q False by (simp add: u)
      then show ?thesis using False unfolding u_def funpow_front by blast
    next
      case other: False
      have "\<exists>n. head_taken s ((thread_timed ^^ n) s)"
      proof (cases "pc s")
        case (Fire ev now)
        then show ?thesis using other pc(3) by (cases ev) auto
      qed (use takes False pc in auto)
      then show ?thesis using flush_fires_all [OF q False] False by blast
    qed
  qed
qed

text \<open>\<open>stop\<close> without flushing: its event goes to the front.\<close>

lemma stop_front_ends:
  assumes r: "teq_reachable s" "posts s < 2147483646" and run: "mRunning (teq s)" "\<not> stopping s"
    and a: "StopEvent a \<notin> event ` set (mQueue (teq s))"
  shows "\<exists>n \<le> 4. pc ((thread_go ^^ n) (stop_post False a s)) = Exited"
proof -
  note inv = reachable_inv [OF r]
  obtain i q' where p: "postTimedEvent (StopEvent a) INT64_MIN (teq s) = (i, q')" by fastforce
  note q = postTimedEvent_queue [OF a p]
  define t where "t = stop_post False a s"
  have t: "teq t = q'" "pc t = pc s" by (simp_all add: t_def stop_post_def post_def p)
  have later: "INT64_MIN < realtime_us x" if "x \<in> set (mQueue (teq s))" for x
  proof -
    have "item_ok False x" using inv run(2) that by (simp add: teq_inv_def)
    then show ?thesis by (cases "event x") (simp_all add: item_ok_def)
  qed
  have head: "mQueue (teq t) = \<lparr> event = StopEvent a, realtime_us = INT64_MIN \<rparr> # mQueue (teq s)"
    unfolding t(1) q(2) using later [of "hd (mQueue (teq s))"] by (cases "mQueue (teq s)") simp_all
  have sig: "mQueueNotEmpty_signalled (teq t)" "mQueueHeadChanged_signalled (teq t)"
    unfolding t(1) q(9) using q(6) later [of "hd (mQueue (teq s))"] by (cases "mQueue (teq s)"; simp)+
  note stop = stop_head [OF head, of a] stop_from_top [OF _ head, of a]
  have go: "\<exists>n \<le> 4. pc ((thread_go ^^ n) t) = Exited" if "thread_go t = head_loop j t" for j
  proof -
    have "pc ((thread_go ^^ 3) t) = Exited" using stop(1) [of j] that by (simp add: numeral_3_eq_3 INT64_MIN_def)
    then show ?thesis by (intro exI [where x = 3]) simp
  qed
  show ?thesis unfolding t_def [symmetric]
  proof (cases "pc s")
    case NotStarted
    then show "\<exists>n \<le> 4. pc ((thread_go ^^ n) t) = Exited" using inv run by (simp add: teq_inv_def)
  next
    case Top
    then obtain n where "n \<le> 3" "pc ((thread_go ^^ n) t) = Exited" using stop(2) t(2) by (auto simp: INT64_MIN_def)
    then show "\<exists>n \<le> 4. pc ((thread_go ^^ n) t) = Exited" by (intro exI [where x = n]) simp
  next
    case WaitNotEmpty
    then show "\<exists>n \<le> 4. pc ((thread_go ^^ n) t) = Exited" using go [of 0] sig t(2) head by (simp add: thread_go_def wait_not_empty_def)
  next
    case (WaitHead i w d capped)
    then show "\<exists>n \<le> 4. pc ((thread_go ^^ n) t) = Exited" using go [of i] sig t(2) by (simp add: thread_go_def head_woken_def)
  next
    case (Fire ev now)
    define u where "u = thread_go t"
    have u: "pc u = Top" "mQueue (teq u) = mQueue (teq t)"
      using Fire t(2) by (simp_all add: u_def thread_go_def fire_def forceStop_def split: event_ref.splits)
    obtain n where "n \<le> 3" "pc ((thread_go ^^ n) u) = Exited"
      using stop_from_top [OF u(1) u(2) [unfolded head], of a] by (auto simp: INT64_MIN_def)
    then show "\<exists>n \<le> 4. pc ((thread_go ^^ n) t) = Exited"
      by (intro exI [where x = "Suc n"]) (simp add: u_def funpow_swap1)
  next
    case Exited
    then show "\<exists>n \<le> 4. pc ((thread_go ^^ n) t) = Exited" using t(2) by (intro exI [where x = 0]) simp
  qed
qed

text \<open>\<open>stop\<close> with flushing: its event goes to the back, behind every event that is pending.\<close>

lemma stop_back_ends:
  assumes r: "teq_reachable s" "posts s < 2147483645" and run: "mRunning (teq s)" "\<not> stopping s"
    and a: "StopEvent a \<notin> event ` set (mQueue (teq s))"
  shows "\<exists>n. pc ((thread_timed ^^ n) (stop_post True a s)) = Exited \<and>
    (\<not> mStopped (teq s) \<longrightarrow> mQueue (teq ((thread_timed ^^ n) (stop_post True a s))) = [] \<and>
      map fired_id (fired ((thread_timed ^^ n) (stop_post True a s))) = map fired_id (fired s) @ queue_ids (teq s) @ [int (posts s) + 1])"
proof -
  have inv: "teq_inv s" using reachable_inv [OF r(1)] r(2) by simp
  obtain i q' where p: "postTimedEvent (StopEvent a) INT64_MAX (teq s) = (i, q')" by fastforce
  note q = postTimedEvent_queue [OF a p]
  define t where "t = stop_post True a s"
  define st where "st = \<lparr> event = StopEvent a, realtime_us = INT64_MAX \<rparr>"
  have t: "teq t = q'" "pc t = pc s" "posts t = posts s + 1" "fired t = fired s" by (simp_all add: t_def stop_post_def post_def p)
  have "teq_reachable t" unfolding t_def by (rule teq_reachable_step [OF r(1) client_stop]) (use run a in simp_all)
  then have invt: "teq_inv t" using reachable_inv r(2) t(3) by simp
  have item: "item_ok False x" if "x \<in> set (mQueue (teq s))" for x using inv run(2) that by (simp add: teq_inv_def)
  have at_end: "\<forall>x \<in> set xs. realtime_us x \<le> realtime_us y \<Longrightarrow> insert_item y xs = xs @ [y]" for y xs by (induction xs) simp_all
  have queue: "mQueue (teq t) = mQueue (teq s) @ [st]"
    unfolding t(1) q(2) st_def using item by (intro at_end) (simp add: item_ok_def)
  have clients: "\<forall>x \<in> set (mQueue (teq s)). \<exists>c. event x = Client c"
    using item unfolding item_ok_def by (metis event_ref.exhaust event_ref.simps(6))
  have ids: "queue_ids (teq t) = queue_ids (teq s) @ [int (posts s) + 1]"
  proof -
    have "mNextEventID (teq s) = int (posts s) + 1" using inv by (simp only: teq_inv_def)
    then show ?thesis using a unfolding queue_ids_def queue unfolding t(1) q(3) by (auto simp: st_def image_iff)
  qed
  have pcs: "pc t \<noteq> NotStarted" "pc t = Exited \<longrightarrow> mStopped (teq t)" "\<forall>b now. pc t \<noteq> Fire (StopEvent b) now"
    using inv run unfolding t(1,2) q(8) teq_inv_def by blast+
  have "wait_ok t" using invt by (simp add: teq_inv_def)
  note flush_ends_thread [OF queue clients _ inv_queue(1) [OF invt, unfolded queue] this pcs, of a]
  then show ?thesis unfolding t_def [symmetric] ids t(4) by (simp add: st_def t(1) q(8))
qed

text \<open>
  C12. Stopping works, in both of its modes, wherever the thread is when \<open>stop\<close> posts its event. Without flushing, at
  most four steps of the thread alone, woken only by the signals that were sent, take it out of its loop, so that
  \<open>pthread_join\<close> returns. With flushing, the thread alone, while time passes, fires every pending event in the order of
  the queue, then the event of \<open>stop\<close>, and leaves its loop; if it had been told to stop by force before, it leaves its
  loop without firing them all. The queue was used for less than two thousand million events.
\<close>
theorem stop_ends_thread:
  assumes "teq_reachable s" and "posts s < 2147483645" and "mRunning (teq s)" and "\<not> stopping s"
    and "StopEvent a \<notin> event ` set (mQueue (teq s))"
  shows "(\<exists>n \<le> 4. pc ((thread_go ^^ n) (stop_post False a s)) = Exited) \<and>
    (\<exists>n. pc ((thread_timed ^^ n) (stop_post True a s)) = Exited \<and>
      (\<not> mStopped (teq s) \<longrightarrow> mQueue (teq ((thread_timed ^^ n) (stop_post True a s))) = [] \<and>
        map fired_id (fired ((thread_timed ^^ n) (stop_post True a s))) = map fired_id (fired s) @ queue_ids (teq s) @ [int (posts s) + 1]))"
  using stop_front_ends [OF assms(1) _ assms(3-5)] stop_back_ends [OF assms] assms(2) by simp

theorem stop_ends_thread_witness:
  "(\<exists>n \<le> 4. pc ((thread_go ^^ n) (stop_post False 0 example_fired)) = Exited) \<and>
   (\<exists>n. pc ((thread_timed ^^ n) (stop_post True 0 example_fired)) = Exited \<and>
     map fired_id (fired ((thread_timed ^^ n) (stop_post True 0 example_fired))) = [1, 2, 3])"
proof -
  have "StopEvent 0 \<notin> event ` set (mQueue (teq example_fired))" "\<not> mStopped (teq example_fired)" by (simp_all add: teq_exec)
  then show ?thesis using stop_ends_thread [OF example_fired_reachable, of 0] by (auto simp: example_fired_state)
qed

end
