(* ===== verification/Esds.thy ===== *)
theory Esds
  imports Sample_Table
begin

unbundle bit_operations_syntax

text \<open>
  The decoder configuration of MPEG-4 audio and video, \<open>libppplayer/ESDS.cpp\<close>: descriptors nested in one another, each with a
  tag and a length in groups of seven bits. The parser works on offsets and remaining sizes, 32-bit numbers
  that wrap; reading outside the copied data is a fault.
\<close>

subsection \<open>The parser\<close>

record ESDS =
  mData :: "u8 list"
  mSize :: u32
  mInitCheck :: status_t
  mDecoderSpecificOffset :: u32
  mDecoderSpecificLength :: u32
  mObjectTypeIndication :: u8

definition kTag_ESDescriptor :: u8 where "kTag_ESDescriptor = 0x03"
definition kTag_DecoderConfigDescriptor :: u8 where "kTag_DecoderConfigDescriptor = 0x04"
definition kTag_DecoderSpecificInfo :: u8 where "kTag_DecoderSpecificInfo = 0x05"

definition data_at :: "u8 list \<Rightarrow> u32 \<Rightarrow> media_fault + u8" where
  "data_at d offset = (if unat offset < length d then Inr (d ! unat offset) else Inl OutOfBounds)"

text \<open>The loop over the bytes of a length; \<open>None\<close> is \<open>ERROR_MALFORMED\<close>, otherwise the offset and size behind it and the length.\<close>

function skip_length :: "u8 list \<Rightarrow> u32 \<Rightarrow> u32 \<Rightarrow> u32 \<Rightarrow> media_fault + (u32 \<times> u32 \<times> u32) option" where
  "skip_length d offset n data_size =
     (if n = 0 then Inr None
      else case data_at d offset of
          Inl e \<Rightarrow> Inl e
        | Inr x \<Rightarrow>
            let data_size = push_bit 7 data_size OR ucast (x AND 0x7f)
            in if x AND 0x80 \<noteq> 0 then skip_length d (offset + 1) (n - 1) data_size
               else Inr (Some (offset + 1, n - 1, data_size)))"
  by pat_completeness auto
termination
  by (relation "measure (\<lambda>(d, offset, n, data_size). unat n)") (auto simp: unat_pred_u32 unat_gt_0)

definition skipDescriptorHeader :: "u8 list \<Rightarrow> u32 \<Rightarrow> u32 \<Rightarrow> media_fault + (u8 \<times> u32 \<times> u32) option" where
  "skipDescriptorHeader d offset n =
     (if n = 0 then Inr None
      else case data_at d offset of
          Inl e \<Rightarrow> Inl e
        | Inr tag \<Rightarrow>
      (case skip_length d (offset + 1) (n - 1) 0 of
          Inl e \<Rightarrow> Inl e
        | Inr None \<Rightarrow> Inr None
        | Inr (Some (offset, n, data_size)) \<Rightarrow> if data_size > n then Inr None else Inr (Some (tag, offset, data_size))))"

definition parseDecoderConfigDescriptor :: "u32 \<Rightarrow> u32 \<Rightarrow> ESDS \<Rightarrow> media_fault + status_t \<times> ESDS" where
  "parseDecoderConfigDescriptor offset n es =
     (if n < 13 then Inr (ERROR_MALFORMED, es)
      else case data_at (mData es) offset of
          Inl e \<Rightarrow> Inl e
        | Inr x \<Rightarrow>
      (let es = es\<lparr> mObjectTypeIndication := x \<rparr>; offset = offset + 13; n = n - 13
       in if n = 0 then Inr (OK, es\<lparr> mDecoderSpecificOffset := 0, mDecoderSpecificLength := 0 \<rparr>)
          else case skipDescriptorHeader (mData es) offset n of
              Inl e \<Rightarrow> Inl e
            | Inr None \<Rightarrow> Inr (ERROR_MALFORMED, es)
            | Inr (Some (tag, sub_offset, sub_size)) \<Rightarrow>
                if tag \<noteq> kTag_DecoderSpecificInfo then Inr (ERROR_MALFORMED, es)
                else Inr (OK, es\<lparr> mDecoderSpecificOffset := sub_offset, mDecoderSpecificLength := sub_size \<rparr>)))"

text \<open>The optional fields of the ES descriptor are skipped; \<open>None\<close> is \<open>ERROR_MALFORMED\<close>.\<close>

definition skip_dependence :: "u8 \<Rightarrow> u32 \<times> u32 \<Rightarrow> u32 \<times> u32" where
  "skip_dependence flags p = (case p of (offset, n) \<Rightarrow> if flags AND 0x80 \<noteq> 0 then (offset + 2, n - 2) else (offset, n))"

definition skip_url :: "u8 list \<Rightarrow> u8 \<Rightarrow> u32 \<times> u32 \<Rightarrow> media_fault + (u32 \<times> u32) option" where
  "skip_url d flags p =
     (case p of (offset, n) \<Rightarrow>
        if flags AND 0x40 = 0 then Inr (Some (offset, n))
        else if offset \<ge> n then Inr None
        else case data_at d offset of
            Inl e \<Rightarrow> Inl e
          | Inr len \<Rightarrow> Inr (Some (offset + (ucast len + 1), n - (ucast len + 1))))"

definition skip_ocr :: "u8 \<Rightarrow> u32 \<times> u32 \<Rightarrow> u32 \<times> u32" where
  "skip_ocr flags p = (case p of (offset, n) \<Rightarrow> if flags AND 0x20 \<noteq> 0 then (offset + 2, n - 2) else (offset, n))"

definition parseESDescriptor :: "u32 \<Rightarrow> u32 \<Rightarrow> ESDS \<Rightarrow> media_fault + status_t \<times> ESDS" where
  "parseESDescriptor offset n es =
     (if n < 3 then Inr (ERROR_MALFORMED, es)
      else
        let offset = offset + 2; n = n - 2
        in case data_at (mData es) offset of
            Inl e \<Rightarrow> Inl e
          | Inr flags \<Rightarrow>
        (case skip_url (mData es) flags (skip_dependence flags (offset + 1, n - 1)) of
            Inl e \<Rightarrow> Inl e
          | Inr None \<Rightarrow> Inr (ERROR_MALFORMED, es)
          | Inr (Some p) \<Rightarrow>
        (case skip_ocr flags p of (offset, n) \<Rightarrow>
           if offset \<ge> n then Inr (ERROR_MALFORMED, es)
           else case skipDescriptorHeader (mData es) offset n of
               Inl e \<Rightarrow> Inl e
             | Inr None \<Rightarrow> Inr (ERROR_MALFORMED, es)
             | Inr (Some (tag, sub_offset, sub_size)) \<Rightarrow>
                 if tag \<noteq> kTag_DecoderConfigDescriptor then Inr (ERROR_MALFORMED, es)
                 else parseDecoderConfigDescriptor sub_offset sub_size es)))"

definition parse_esds :: "ESDS \<Rightarrow> media_fault + status_t \<times> ESDS" where
  "parse_esds es =
     (case skipDescriptorHeader (mData es) 0 (mSize es) of
        Inl e \<Rightarrow> Inl e
      | Inr None \<Rightarrow> Inr (ERROR_MALFORMED, es)
      | Inr (Some (tag, data_offset, data_size)) \<Rightarrow>
          if tag \<noteq> kTag_ESDescriptor then Inr (ERROR_MALFORMED, es) else parseESDescriptor data_offset data_size es)"

text \<open>The constructor copies the data and parses it. (\<open>mInitCheck\<close> is not read before \<open>parse\<close> has set it.)\<close>

definition ESDS_new :: "u8 list \<Rightarrow> media_fault + ESDS" where
  "ESDS_new bytes =
     map_sum id (\<lambda>(st, es). es\<lparr> mInitCheck := st \<rparr>)
       (parse_esds \<lparr> mData = bytes, mSize = of_nat (length bytes), mInitCheck = ERROR_IO, mDecoderSpecificOffset = 0,
          mDecoderSpecificLength = 0, mObjectTypeIndication = 0 \<rparr>)"

definition getObjectTypeIndication :: "ESDS \<Rightarrow> status_t \<times> u8 option" where
  "getObjectTypeIndication es = (if mInitCheck es \<noteq> OK then (mInitCheck es, None) else (OK, Some (mObjectTypeIndication es)))"

text \<open>The pointer that is returned is an offset into \<open>mData\<close>.\<close>

definition getCodecSpecificInfo :: "ESDS \<Rightarrow> status_t \<times> (u32 \<times> u32) option" where
  "getCodecSpecificInfo es =
     (if mInitCheck es \<noteq> OK then (mInitCheck es, None) else (OK, Some (mDecoderSpecificOffset es, mDecoderSpecificLength es)))"

declare skip_length.simps [simp del]

subsection \<open>Reading stays inside\<close>

lemma u32_add1: "unat offset + 1 < 4294967296 \<Longrightarrow> unat (offset + 1 :: u32) = unat offset + 1"
  by (simp add: unat_word_ariths)

lemma u32_add: "unat a + b < 4294967296 \<Longrightarrow> unat (a + of_nat b :: u32) = unat a + b"
  by (simp add: unat_word_ariths unat_of_nat)

lemma skip_length_inside:
  assumes "unat offset + unat n \<le> length d" and "length d < 4294967296"
  shows "case skip_length d offset n ds of
      Inl _ \<Rightarrow> False
    | Inr None \<Rightarrow> True
    | Inr (Some (offset', n', _)) \<Rightarrow> unat offset' + unat n' = unat offset + unat n \<and> unat offset < unat offset'"
  using assms
proof (induction d offset n ds rule: skip_length.induct)
  case (1 d offset n ds)
  show ?case
  proof (cases "n = 0")
    case False
    then have n: "0 < unat n" by (simp add: unat_gt_0)
    have at: "data_at d offset = Inr (d ! unat offset)" using 1(2) n by (simp add: data_at_def)
    have s: "unat (offset + 1) = unat offset + 1" "unat (n - 1) = unat n - 1"
      using 1(2,3) n False u32_add1 [of offset] by (simp_all add: unat_pred_u32)
    show ?thesis using 1(1) [OF False at refl] 1(2,3) n s False at
      by (subst skip_length.simps) (cases "d ! unat offset AND 0x80 = 0", auto simp: Let_def split: sum.splits option.splits)
  qed (subst skip_length.simps, simp)
qed

lemma skip_header_inside:
  assumes "unat offset + unat n \<le> length d" and "length d < 4294967296"
  shows "case skipDescriptorHeader d offset n of
      Inl _ \<Rightarrow> False
    | Inr None \<Rightarrow> True
    | Inr (Some (_, offset', n')) \<Rightarrow> unat offset' + unat n' \<le> unat offset + unat n \<and> unat offset < unat offset'"
proof (cases "n = 0")
  case False
  then have n: "0 < unat n" by (simp add: unat_gt_0)
  have at: "data_at d offset = Inr (d ! unat offset)" using assms n by (simp add: data_at_def)
  have s: "unat (offset + 1) = unat offset + 1" "unat (n - 1) = unat n - 1"
    using assms n False u32_add1 [of offset] by (simp_all add: unat_pred_u32)
  show ?thesis using skip_length_inside [of "offset + 1" "n - 1" d 0] assms s n False at
    by (auto simp: skipDescriptorHeader_def not_less word_le_nat_alt split: sum.splits option.splits)
qed (simp add: skipDescriptorHeader_def)

lemma decoder_config_inside:
  assumes i: "unat offset + unat n \<le> length (mData es)" and l: "length (mData es) < 4294967296"
  shows "case parseDecoderConfigDescriptor offset n es of
      Inl _ \<Rightarrow> False
    | Inr (st, es') \<Rightarrow> mData es' = mData es \<and>
        (st = OK \<longrightarrow> unat (mDecoderSpecificOffset es') + unat (mDecoderSpecificLength es') \<le> length (mData es))"
proof (cases "n < 13")
  case False
  then have n: "13 \<le> unat n" by (simp add: not_less word_le_nat_alt)
  have at: "data_at (mData es) offset = Inr (mData es ! unat offset)" using i n by (simp add: data_at_def)
  have s: "unat (offset + 13) = unat offset + 13" "unat (n - 13) = unat n - 13"
    using i l n u32_add [of offset 13] False by (simp_all add: unat_sub_if')
  show ?thesis using skip_header_inside [of "offset + 13" "n - 13" "mData es"] i l n s False at
    by (auto simp: parseDecoderConfigDescriptor_def Let_def split: sum.splits option.splits)
qed (simp add: parseDecoderConfigDescriptor_def)

text \<open>The optional fields of an ES descriptor fit into it.\<close>

definition optional_fit :: "u8 list \<Rightarrow> nat \<Rightarrow> nat \<Rightarrow> bool" where
  "optional_fit d off n =
     (let flags = d ! (off + 2);
          dep = (if flags AND 0x80 \<noteq> 0 then 2 else 0);
          url = (if flags AND 0x40 \<noteq> 0 then 1 + unat (d ! (off + 3 + dep)) else 0);
          ocr = (if flags AND 0x20 \<noteq> 0 then 2 else 0)
      in 3 + dep + url + ocr \<le> n)"

lemma skip_optional_inside:
  assumes i: "unat offset + unat n \<le> length d" and l: "length d < 4294967296" and n: "3 \<le> unat n"
    and fit: "optional_fit d (unat offset) (unat n)"
  defines "flags \<equiv> d ! (unat offset + 2)"
  shows "case skip_url d flags (skip_dependence flags (offset + 2 + 1, n - 2 - 1)) of
      Inl _ \<Rightarrow> False
    | Inr None \<Rightarrow> True
    | Inr (Some p) \<Rightarrow> (case skip_ocr flags p of (offset', n') \<Rightarrow> unat offset' + unat n' \<le> length d)"
proof -
  define dep where "dep = (if flags AND 0x80 \<noteq> 0 then 2 else 0 :: nat)"
  define url where "url = (if flags AND 0x40 \<noteq> 0 then 1 + unat (d ! (unat offset + 3 + dep)) else 0)"
  define ocr where "ocr = (if flags AND 0x20 \<noteq> 0 then 2 else 0 :: nat)"
  have total: "3 + dep + url + ocr \<le> unat n" using fit by (simp only: optional_fit_def flags_def dep_def url_def ocr_def Let_def)
  have w: "unat (offset + of_nat k) = unat offset + k" "unat (n - of_nat k) = unat n - k" if "k \<le> 3 + dep + url + ocr" for k
  proof -
    have k: "k \<le> unat n" "unat offset + k < 4294967296" using that total i l by linarith+
    show "unat (offset + of_nat k) = unat offset + k" using u32_add [OF k(2)] .
    have "unat (of_nat k :: u32) = k" using k by (simp add: unat_of_nat)
    then show "unat (n - of_nat k) = unat n - k" using k(1) by (simp add: unat_sub word_le_nat_alt)
  qed
  have e1: "skip_dependence flags (offset + 2 + 1, n - 2 - 1) = (offset + of_nat (3 + dep), n - of_nat (3 + dep))"
    by (simp add: skip_dependence_def dep_def)
  show ?thesis
  proof (cases "flags AND 0x40 = 0")
    case True
    then have u: "url = 0" by (simp add: url_def)
    have "skip_ocr flags (offset + of_nat (3 + dep), n - of_nat (3 + dep)) = (offset + of_nat (3 + dep + ocr), n - of_nat (3 + dep + ocr))"
      by (simp add: skip_ocr_def ocr_def)
    then show ?thesis unfolding e1 using w [of "3 + dep + ocr"] total i True by (simp add: skip_url_def u del: of_nat_add)
  next
    case False
    then have u: "url = 1 + unat (d ! (unat offset + 3 + dep))" by (simp add: url_def)
    have o: "unat (offset + of_nat (3 + dep)) = unat offset + 3 + dep" using w(1) [of "3 + dep"] by simp
    then have at: "data_at d (offset + of_nat (3 + dep)) = Inr (d ! (unat offset + 3 + dep))"
      using total i u by (simp add: data_at_def)
    have len: "ucast (d ! (unat offset + 3 + dep)) + 1 = (of_nat url :: u32)" by (simp add: u add.commute)
    have "skip_ocr flags (offset + of_nat (3 + dep) + of_nat url, n - of_nat (3 + dep) - of_nat url) =
        (offset + of_nat (3 + dep + url + ocr), n - of_nat (3 + dep + url + ocr))"
      by (simp add: skip_ocr_def ocr_def)
    then show ?thesis unfolding e1 using w [of "3 + dep + url + ocr"] total i False at len
      by (simp add: skip_url_def del: of_nat_add)
  qed
qed

lemma es_descriptor_inside:
  assumes i: "unat offset + unat n \<le> length (mData es)" and l: "length (mData es) < 4294967296"
    and fit: "3 \<le> unat n \<longrightarrow> optional_fit (mData es) (unat offset) (unat n)"
  shows "case parseESDescriptor offset n es of
      Inl _ \<Rightarrow> False
    | Inr (st, es') \<Rightarrow> mData es' = mData es \<and>
        (st = OK \<longrightarrow> unat (mDecoderSpecificOffset es') + unat (mDecoderSpecificLength es') \<le> length (mData es))"
proof (cases "n < 3")
  case False
  then have n: "3 \<le> unat n" by (simp add: not_less word_le_nat_alt)
  define flags where "flags = mData es ! (unat offset + 2)"
  have at: "data_at (mData es) (offset + 2) = Inr flags" using i l n u32_add [of offset 2] by (simp add: data_at_def flags_def)
  note opt = skip_optional_inside [OF i l n, folded flags_def]
  show ?thesis
  proof (cases "skip_url (mData es) flags (skip_dependence flags (offset + 2 + 1, n - 2 - 1))")
    case (Inl e)
    then show ?thesis using opt fit n by simp
  next
    case (Inr r)
    show ?thesis
    proof (cases r)
      case None
      then show ?thesis using Inr at False by (simp add: parseESDescriptor_def Let_def)
    next
      case (Some p)
      obtain offset' n' where p: "skip_ocr flags p = (offset', n')" by fastforce
      have b: "unat offset' + unat n' \<le> length (mData es)" using opt fit n Inr Some p by simp
      have e: "parseESDescriptor offset n es = (if offset' \<ge> n' then Inr (ERROR_MALFORMED, es) else
          case skipDescriptorHeader (mData es) offset' n' of Inl e \<Rightarrow> Inl e | Inr None \<Rightarrow> Inr (ERROR_MALFORMED, es)
          | Inr (Some (tag, sub_offset, sub_size)) \<Rightarrow>
              if tag \<noteq> kTag_DecoderConfigDescriptor then Inr (ERROR_MALFORMED, es) else parseDecoderConfigDescriptor sub_offset sub_size es)"
        using False at Inr Some p by (simp add: parseESDescriptor_def Let_def)
      show ?thesis
      proof (cases "skipDescriptorHeader (mData es) offset' n'")
        case (Inl x)
        then show ?thesis using skip_header_inside [OF b l] by simp
      next
        case (Inr y)
        show ?thesis
        proof (cases y)
          case None
          then show ?thesis unfolding e using Inr by simp
        next
          case (Some z)
          obtain tag o2 n2 where z: "z = (tag, o2, n2)" by (cases z)
          have "unat o2 + unat n2 \<le> length (mData es)" using skip_header_inside [OF b l] Inr Some z b by simp
          from decoder_config_inside [OF this l] show ?thesis unfolding e using Inr Some z by simp
        qed
      qed
    qed
  qed
qed (simp add: parseESDescriptor_def)

text \<open>
  C22. Parsing never reads outside the data, for any bytes whose ES descriptor has room for the optional fields that its
  flags announce; and when it succeeds, the codec specific data it reports lie inside the data.
\<close>
theorem esds_safe:
  assumes l: "length bytes < 4294967296"
    and fit: "\<forall>tag off n. skipDescriptorHeader bytes 0 (of_nat (length bytes)) = Inr (Some (tag, off, n)) \<and> 3 \<le> unat n \<longrightarrow>
      optional_fit bytes (unat off) (unat n)"
  shows "\<exists>es. ESDS_new bytes = Inr es \<and> mData es = bytes \<and>
    (\<forall>off n. getCodecSpecificInfo es = (OK, Some (off, n)) \<longrightarrow> unat off + unat n \<le> length bytes)"
proof -
  define es where "es = \<lparr> mData = bytes, mSize = of_nat (length bytes), mInitCheck = ERROR_IO, mDecoderSpecificOffset = 0,
          mDecoderSpecificLength = 0, mObjectTypeIndication = 0 \<rparr>"
  have es: "mData es = bytes" "mSize es = of_nat (length bytes)" by (simp_all add: es_def)
  have u: "unat (of_nat (length bytes) :: u32) = length bytes" using l by (simp add: unat_of_nat)
  have "case parse_esds es of
      Inl _ \<Rightarrow> False
    | Inr (st, es') \<Rightarrow> mData es' = bytes \<and>
        (st = OK \<longrightarrow> unat (mDecoderSpecificOffset es') + unat (mDecoderSpecificLength es') \<le> length bytes)"
  proof (cases "skipDescriptorHeader bytes 0 (of_nat (length bytes))")
    case (Inl e)
    then show ?thesis using skip_header_inside [of 0 "of_nat (length bytes)" bytes] l u by simp
  next
    case (Inr r)
    then show ?thesis
      using skip_header_inside [of 0 "of_nat (length bytes)" bytes] l u fit es es_descriptor_inside [of _ _ es]
      by (force simp: parse_esds_def split: option.splits)
  qed
  then show ?thesis unfolding ESDS_new_def es_def [symmetric]
    by (auto simp: getCodecSpecificInfo_def split: sum.splits prod.splits)
qed

text \<open>The sizes wrap when the fields do not fit: five bytes make the parser read behind its data.\<close>

lemma esds_reads_outside: "ESDS_new [0x03, 3, 0, 0, 0x80] = Inl OutOfBounds"
  by (simp add: ESDS_new_def parse_esds_def skipDescriptorHeader_def data_at_def skip_length.simps parseESDescriptor_def
      skip_dependence_def skip_url_def skip_ocr_def kTag_ESDescriptor_def Let_def)

subsection \<open>Descriptors as bytes\<close>

text \<open>A length in \<open>k + 1\<close> groups of seven bits, the first one first, and a descriptor.\<close>

fun enc_len :: "nat \<Rightarrow> nat \<Rightarrow> u8 list" where
  "enc_len 0 n = [of_nat (n mod 128)]"
| "enc_len (Suc k) n = of_nat (128 + n div 128 ^ Suc k mod 128) # enc_len k n"

definition descriptor :: "u8 \<Rightarrow> nat \<Rightarrow> u8 list \<Rightarrow> u8 list" where
  "descriptor tag k body = tag # enc_len k (length body) @ body"

lemma length_enc_len [simp]: "length (enc_len k n) = k + 1"
  by (induction k) simp_all

lemma length_descriptor [simp]: "length (descriptor tag k body) = k + 2 + length body"
  by (simp add: descriptor_def)

lemma group_bytes:
  assumes "g < 128"
  shows "(of_nat g :: u8) AND 0x80 = 0" "(of_nat (128 + g) :: u8) AND 0x80 \<noteq> 0"
    "ucast ((of_nat g :: u8) AND 0x7f) = (of_nat g :: u32)" "ucast ((of_nat (128 + g) :: u8) AND 0x7f) = (of_nat g :: u32)"
proof -
  have m: "(0x7f :: u8) = mask 7" "(0x80 :: u8) = push_bit 7 1" by (simp_all add: mask_eq_decr_exp push_bit_eq_mult)
  have a: "unat ((of_nat g :: u8) AND 0x7f) = g" "unat ((of_nat (128 + g) :: u8) AND 0x7f) = g"
    unfolding m(1) unat_and_mask using assms by (simp_all add: unat_of_nat del: of_nat_add)
  then show "ucast ((of_nat g :: u8) AND 0x7f) = (of_nat g :: u32)" "ucast ((of_nat (128 + g) :: u8) AND 0x7f) = (of_nat g :: u32)"
    using assms by (simp_all add: word_unat_eq_iff unat_ucast_up)
  have b: "bit (w :: u8) 7 \<longleftrightarrow> 128 \<le> unat w" for w
  proof -
    have "bit w 7 \<longleftrightarrow> bit (unat w) 7" by (simp add: bit_unsigned_iff)
    then have "bit w 7 \<longleftrightarrow> odd (unat w div 2 ^ 7)" by (simp only: bit_iff_odd)
    moreover have "unat w div 2 ^ 7 < 2" using unat_bounds(1) [of w] by (simp add: less_mult_imp_div_less)
    ultimately show ?thesis by (cases "unat w div 2 ^ 7") (auto simp: div_eq_0_iff)
  qed
  have e: "bit (0x80 :: u8) n \<longleftrightarrow> n = 7" for n
    unfolding m(2) bit_push_bit_iff bit_1_iff by auto
  have "w AND 0x80 = 0 \<longleftrightarrow> \<not> bit w 7" for w :: u8
  proof
    assume "w AND 0x80 = 0"
    then have "\<not> bit (w AND 0x80) 7" by (simp only: bit_0_eq bot_apply bot_bool_def not_False_eq_True)
    then show "\<not> bit w 7" by (simp only: bit_and_iff e) simp
  next
    assume "\<not> bit w 7"
    then show "w AND 0x80 = 0" by (intro bit_word_eqI) (auto simp only: bit_and_iff e bit_0_eq bot_apply bot_bool_def)
  qed
  then show "(of_nat g :: u8) AND 0x80 = 0" "(of_nat (128 + g) :: u8) AND 0x80 \<noteq> 0"
    unfolding b using assms by (simp_all add: unat_of_nat del: of_nat_add)
qed

lemma shift_group:
  assumes "g < 128"
  shows "push_bit 7 w OR of_nat g = w * 128 + (of_nat g :: u32)"
proof -
  have "take_bit 7 (of_nat g :: u32) = of_nat g" using assms by (simp add: take_bit_of_nat take_bit_nat_eq_self)
  then have "bit (of_nat g :: u32) n \<Longrightarrow> n < 7" for n by (metis bit_take_bit_iff)
  then have "\<not> bit (push_bit 7 w) n \<or> \<not> bit (of_nat g :: u32) n" for n
    unfolding bit_push_bit_iff by (meson not_le)
  then have "push_bit 7 w + (of_nat g :: u32) = push_bit 7 w OR of_nat g" by (rule disjunctive_add)
  then show ?thesis by (simp add: push_bit_eq_mult)
qed

text \<open>Offsets as natural numbers: reading at an offset inside the data.\<close>

lemma data_at_nat: "m < length d \<Longrightarrow> length d < 4294967296 \<Longrightarrow> data_at d (of_nat m) = Inr (d ! m)"
  by (simp add: data_at_def)

lemma nth_drop_eq: "drop m d = x # xs \<Longrightarrow> m < length d \<and> d ! m = x \<and> drop (Suc m) d = xs"
  by (metis Cons_nth_drop_Suc drop_eq_Nil2 leI list.distinct(1) list.inject)

lemma skip_length_enc:
  "drop m d = enc_len k n @ rest \<Longrightarrow> length d < 4294967296 \<Longrightarrow> k + 1 \<le> s \<Longrightarrow> s < 4294967296 \<Longrightarrow>
   skip_length d (of_nat m) (of_nat s) A =
     Inr (Some (of_nat (m + k + 1), of_nat (s - (k + 1)), A * 128 ^ (k + 1) + of_nat (n mod 128 ^ (k + 1))))"
proof (induction k arbitrary: m s A)
  case 0
  have g: "n mod 128 < 128" by simp
  have d: "m < length d" "d ! m = of_nat (n mod 128)" using nth_drop_eq [of m d] 0(1) by simp_all
  have s: "(of_nat s :: u32) \<noteq> 0" using of_nat_u32(3) [of s 0] 0(3,4) by simp
  have "(of_nat s - 1 :: u32) = of_nat (s - 1)" using 0(3) by (simp add: of_nat_diff)
  then show ?case using data_at_nat [OF d(1) 0(2)] s group_bytes(1,3) [OF g] shift_group [OF g, of A] d(2)
    by (subst skip_length.simps) (simp add: add.commute)
next
  case (Suc k)
  define g where "g = n div 128 ^ Suc k mod 128"
  have g: "g < 128" by (simp add: g_def)
  have d: "m < length d" "d ! m = of_nat (128 + g)" "drop (Suc m) d = enc_len k n @ rest"
    using nth_drop_eq [of m d] Suc.prems(1) by (simp_all add: g_def del: of_nat_add)
  have s: "(of_nat s :: u32) \<noteq> 0" using of_nat_u32(3) [of s 0] Suc.prems(3,4) by simp
  have st: "(of_nat m + 1 :: u32) = of_nat (Suc m)" "(of_nat s - 1 :: u32) = of_nat (s - 1)" using Suc.prems(3) by (simp_all add: of_nat_diff)
  have mod: "n mod 128 ^ (Suc k + 1) = g * 128 ^ Suc k + n mod 128 ^ Suc k"
  proof -
    have "n mod 128 ^ (Suc k + 1) = n mod (128 ^ Suc k * 128)" by (simp only: power_add power_one_right)
    also have "\<dots> = 128 ^ Suc k * (n div 128 ^ Suc k mod 128) + n mod 128 ^ Suc k" by (rule mod_mult2_eq)
    finally show ?thesis by (simp only: g_def mult.commute)
  qed
  have "skip_length d (of_nat m) (of_nat s) A = skip_length d (of_nat (Suc m)) (of_nat (s - 1)) (A * 128 + of_nat g)"
    unfolding st [symmetric] using data_at_nat [OF d(1) Suc.prems(2)] s d(2) group_bytes(2,4) [OF g] shift_group [OF g, of A]
    by (subst skip_length.simps) (simp del: of_nat_add)
  also have "\<dots> = Inr (Some (of_nat (Suc m + k + 1), of_nat (s - 1 - (k + 1)), (A * 128 + of_nat g) * 128 ^ (k + 1) + of_nat (n mod 128 ^ (k + 1))))"
    using Suc.IH [OF d(3) Suc.prems(2), of "s - 1" "A * 128 + of_nat g"] Suc.prems(3,4) by simp
  also have "(A * 128 + of_nat g) * 128 ^ (k + 1) + of_nat (n mod 128 ^ (k + 1)) = A * 128 ^ (Suc k + 1) + (of_nat (n mod 128 ^ (Suc k + 1)) :: u32)"
    unfolding mod by (simp add: algebra_simps)
  finally show ?case by simp
qed

lemma skip_header_descriptor:
  assumes d: "drop m d = descriptor tag k body @ rest" and l: "length d < 4294967296" and n: "length body < 128 ^ (k + 1)"
    and s: "k + 2 + length body \<le> s" "s < 4294967296"
  shows "skipDescriptorHeader d (of_nat m) (of_nat s) = Inr (Some (tag, of_nat (m + k + 2), of_nat (length body)))"
proof -
  have t: "m < length d" "d ! m = tag" "drop (Suc m) d = enc_len k (length body) @ body @ rest"
    using nth_drop_eq [of m d] d by (simp_all add: descriptor_def)
  have s0: "(of_nat s :: u32) \<noteq> 0" using of_nat_u32(3) [of s 0] s by simp
  have st: "(of_nat m + 1 :: u32) = of_nat (Suc m)" "(of_nat s - 1 :: u32) = of_nat (s - 1)" using s(1) by (simp_all add: of_nat_diff)
  have "skip_length d (of_nat (Suc m)) (of_nat (s - 1)) 0 = Inr (Some (of_nat (m + k + 2), of_nat (s - 1 - (k + 1)), of_nat (length body)))"
    using skip_length_enc [OF t(3) l, of "s - 1" 0] s n by simp
  moreover have "\<not> (of_nat (length body) :: u32) > of_nat (s - 1 - (k + 1))"
    using of_nat_u32(2) [of "s - 1 - (k + 1)" "length body"] s by simp
  ultimately show ?thesis unfolding skipDescriptorHeader_def st using data_at_nat [OF t(1) l] t(2) s0 by simp
qed

subsection \<open>A decoder configuration read back\<close>

text \<open>
  The descriptors of one stream: the optional fields of the ES descriptor, the object type with the other twelve
  bytes of the decoder configuration, the codec specific data, and what follows inside each descriptor.
\<close>

record stream_config =
  sc_id :: "u8 list"
  sc_priority :: nat
  sc_dependence :: "u8 list"
  sc_url :: "u8 list option"
  sc_ocr :: "u8 list"
  sc_object_type :: u8
  sc_buffer :: "u8 list"
  sc_info :: "u8 list option"
  sc_rest :: "u8 list"

definition config_ok :: "stream_config \<Rightarrow> bool" where
  "config_ok c \<longleftrightarrow> length (sc_id c) = 2 \<and> sc_priority c < 32 \<and> length (sc_dependence c) \<in> {0, 2} \<and>
     (case sc_url c of None \<Rightarrow> True | Some u \<Rightarrow> length u < 256) \<and> length (sc_ocr c) \<in> {0, 2} \<and> length (sc_buffer c) = 12"

definition es_flags :: "stream_config \<Rightarrow> u8" where
  "es_flags c = of_nat ((if sc_dependence c = [] then 0 else 128) + (if sc_url c = None then 0 else 64) +
     (if sc_ocr c = [] then 0 else 32) + sc_priority c)"

definition url_bytes :: "stream_config \<Rightarrow> u8 list" where
  "url_bytes c = (case sc_url c of None \<Rightarrow> [] | Some u \<Rightarrow> of_nat (length u) # u)"

definition config_body :: "nat \<Rightarrow> stream_config \<Rightarrow> u8 list" where
  "config_body k c = sc_object_type c # sc_buffer c @ (case sc_info c of None \<Rightarrow> [] | Some i \<Rightarrow> descriptor kTag_DecoderSpecificInfo k i)"

definition es_head :: "stream_config \<Rightarrow> u8 list" where
  "es_head c = sc_id c @ es_flags c # sc_dependence c @ url_bytes c @ sc_ocr c"

definition es_body :: "nat \<Rightarrow> nat \<Rightarrow> stream_config \<Rightarrow> u8 list" where
  "es_body k2 k3 c = es_head c @ descriptor kTag_DecoderConfigDescriptor k2 (config_body k3 c) @ sc_rest c"

definition encode_esds :: "nat \<Rightarrow> nat \<Rightarrow> nat \<Rightarrow> stream_config \<Rightarrow> u8 list" where
  "encode_esds k1 k2 k3 c = descriptor kTag_ESDescriptor k1 (es_body k2 k3 c)"

lemma flag_bits:
  fixes a b c :: bool
  assumes "p < 32"
  defines "f \<equiv> (of_nat ((if a then 0 else 128) + (if b then 0 else 64) + (if c then 0 else 32) + p) :: u8)"
  shows "f AND 0x80 \<noteq> 0 \<longleftrightarrow> \<not> a" "f AND 0x40 \<noteq> 0 \<longleftrightarrow> \<not> b" "f AND 0x20 \<noteq> 0 \<longleftrightarrow> \<not> c"
proof -
  have "p \<in> set [0..<32]" using assms(1) by simp
  then show "f AND 0x80 \<noteq> 0 \<longleftrightarrow> \<not> a" "f AND 0x40 \<noteq> 0 \<longleftrightarrow> \<not> b" "f AND 0x20 \<noteq> 0 \<longleftrightarrow> \<not> c"
    unfolding f_def by (cases a; cases b; cases c; force simp: upt_rec)+
qed

lemma decoder_config_read:
  assumes d: "drop m (mData es) = config_body k c @ rest" and l: "length (mData es) < 4294967296" and b: "length (sc_buffer c) = 12"
    and i: "\<forall>i. sc_info c = Some i \<longrightarrow> length i < 128 ^ (k + 1)"
  shows "parseDecoderConfigDescriptor (of_nat m) (of_nat (length (config_body k c))) es =
    Inr (OK, es\<lparr> mObjectTypeIndication := sc_object_type c,
      mDecoderSpecificOffset := (case sc_info c of None \<Rightarrow> 0 | Some i \<Rightarrow> of_nat (m + 15 + k)),
      mDecoderSpecificLength := (case sc_info c of None \<Rightarrow> 0 | Some i \<Rightarrow> of_nat (length i)) \<rparr>)"
proof -
  define n where "n = length (config_body k c)"
  have n: "n = 13 + (case sc_info c of None \<Rightarrow> 0 | Some i \<Rightarrow> k + 2 + length i)" by (simp add: n_def config_body_def b split: option.split)
  have dl: "m + n \<le> length (mData es)" "n < 4294967296" using arg_cong [OF d, of length] l n by (simp_all add: n_def)
  have at: "data_at (mData es) (of_nat m) = Inr (sc_object_type c)"
    using nth_drop_eq [of m "mData es"] d data_at_nat [of m "mData es"] l by (simp add: config_body_def)
  have lt: "\<not> (of_nat n :: u32) < 13" using of_nat_u32(2) [of n 13] dl n by simp
  have st: "(of_nat m + 13 :: u32) = of_nat (m + 13)" "(of_nat n - 13 :: u32) = of_nat (n - 13)" using n by (simp_all add: of_nat_diff)
  show ?thesis
  proof (cases "sc_info c")
    case None
    then have "(of_nat (n - 13) :: u32) = 0" using n by simp
    then show ?thesis
      unfolding n_def [symmetric] parseDecoderConfigDescriptor_def st Let_def using None lt at by simp
  next
    case (Some i')
    have "drop (m + 13) (mData es) = drop 13 (config_body k c @ rest)" using d by (metis add.commute drop_drop)
    also have "\<dots> = descriptor kTag_DecoderSpecificInfo k i' @ rest" using Some b by (simp add: config_body_def)
    finally have at13: "drop (m + 13) (mData es) = descriptor kTag_DecoderSpecificInfo k i' @ rest" .
    have "skipDescriptorHeader (mData es) (of_nat (m + 13)) (of_nat (n - 13)) =
        Inr (Some (kTag_DecoderSpecificInfo, of_nat (m + 13 + k + 2), of_nat (length i')))"
      by (rule skip_header_descriptor [OF at13 l]) (use n Some dl i in simp_all)
    moreover have "(of_nat (n - 13) :: u32) \<noteq> 0" using of_nat_u32(3) [of "n - 13" 0] dl n Some by simp
    ultimately show ?thesis
      unfolding n_def [symmetric] parseDecoderConfigDescriptor_def st Let_def using Some lt at by (simp add: add.commute add.left_commute)
  qed
qed

lemma es_optional_read:
  assumes ok: "config_ok c" and d: "drop m d = es_head c @ rest" and l: "length d < 4294967296" and n: "length (es_head c) \<le> n" "n < 4294967296"
  defines "dep \<equiv> length (sc_dependence c)" and "url \<equiv> length (url_bytes c)" and "ocr \<equiv> length (sc_ocr c)"
  shows "skip_url d (es_flags c) (skip_dependence (es_flags c) (of_nat (m + 3), of_nat (n - 3))) =
    (if sc_url c \<noteq> None \<and> n - 3 - dep \<le> m + 3 + dep then Inr None
     else Inr (Some (of_nat (m + 3 + dep + url), of_nat (n - 3 - dep - url))))"
  "skip_ocr (es_flags c) (of_nat (m + 3 + dep + url), of_nat (n - 3 - dep - url)) = (of_nat (m + length (es_head c)), of_nat (n - length (es_head c)))"
proof -
  have p: "sc_priority c < 32" using ok by (simp add: config_ok_def)
  note bits = flag_bits [OF p, of "sc_dependence c = []" "sc_url c = None" "sc_ocr c = []", folded es_flags_def]
  have len: "length (es_head c) = 3 + dep + url + ocr" using ok by (simp add: es_head_def dep_def url_def ocr_def config_ok_def)
  have dep: "dep = (if sc_dependence c = [] then 0 else 2)" and ocr: "ocr = (if sc_ocr c = [] then 0 else 2)"
    using ok by (auto simp: config_ok_def dep_def ocr_def)
  have ml: "m + length (es_head c) \<le> length d" using arg_cong [OF d, of length] len by simp
  have sub: "(of_nat a - of_nat b :: u32) = of_nat (a - b)" if "b \<le> a" for a b using that by (simp add: of_nat_diff)
  show "skip_ocr (es_flags c) (of_nat (m + 3 + dep + url), of_nat (n - 3 - dep - url)) = (of_nat (m + length (es_head c)), of_nat (n - length (es_head c)))"
    using bits(3) sub [of 2 "n - 3 - dep - url"] n(1) len ocr by (simp add: skip_ocr_def)
  have e1: "skip_dependence (es_flags c) (of_nat (m + 3), of_nat (n - 3)) = (of_nat (m + 3 + dep), of_nat (n - 3 - dep))"
    using bits(1) sub [of 2 "n - 3"] n(1) len dep by (simp add: skip_dependence_def)
  show "skip_url d (es_flags c) (skip_dependence (es_flags c) (of_nat (m + 3), of_nat (n - 3))) =
    (if sc_url c \<noteq> None \<and> n - 3 - dep \<le> m + 3 + dep then Inr None
     else Inr (Some (of_nat (m + 3 + dep + url), of_nat (n - 3 - dep - url))))"
  proof (cases "sc_url c")
    case None
    then show ?thesis unfolding e1 using bits(2) by (simp add: skip_url_def url_def url_bytes_def)
  next
    case (Some u)
    have u: "length u < 256" "url = length u + 1" using ok Some by (simp_all add: config_ok_def url_def url_bytes_def)
    have "drop (m + (3 + dep)) d = drop (3 + dep) (es_head c @ rest)" using d by (metis add.commute drop_drop)
    also have "\<dots> = of_nat (length u) # u @ sc_ocr c @ rest"
      using ok Some by (simp add: es_head_def url_bytes_def config_ok_def dep_def)
    finally have at: "data_at d (of_nat (m + 3 + dep)) = Inr (of_nat (length u))"
      using nth_drop_eq [of "m + (3 + dep)" d] data_at_nat [of "m + (3 + dep)" d] l by (simp add: add.assoc)
    have cmp: "(of_nat (n - 3 - dep) :: u32) \<le> of_nat (m + 3 + dep) \<longleftrightarrow> n - 3 - dep \<le> m + 3 + dep"
      using ml len l n by (intro of_nat_u32(1)) auto
    have b: "unat (of_nat (length u) :: u8) = length u" using u(1) by (simp add: unat_of_nat)
    have "ucast (of_nat (length u) :: u8) = (of_nat (unat (of_nat (length u) :: u8)) :: u32)" by (rule of_nat_unat [symmetric])
    then have w: "ucast (of_nat (length u) :: u8) + 1 = (of_nat url :: u32)" unfolding b u(2) by simp
    show ?thesis unfolding e1 using bits(2) Some cmp at w sub [of url "n - 3 - dep"] n(1) len
      by (simp add: skip_url_def del: of_nat_add of_nat_diff) (simp add: add.assoc)
  qed
qed

lemma es_descriptor_read:
  assumes ok: "config_ok c" and d: "drop m (mData es) = es_body k2 k3 c" and l: "length (mData es) < 4294967296"
    and k: "length (config_body k3 c) < 128 ^ (k2 + 1)" "\<forall>i. sc_info c = Some i \<longrightarrow> length i < 128 ^ (k3 + 1)"
  defines "cfg \<equiv> m + length (es_head c)" and "room \<equiv> length (es_body k2 k3 c) - length (es_head c)"
  shows "parseESDescriptor (of_nat m) (of_nat (length (es_body k2 k3 c))) es =
    (if room \<le> cfg then Inr (ERROR_MALFORMED, es)
     else Inr (OK, es\<lparr> mObjectTypeIndication := sc_object_type c,
       mDecoderSpecificOffset := (case sc_info c of None \<Rightarrow> 0 | Some i \<Rightarrow> of_nat (cfg + k2 + 2 + 15 + k3)),
       mDecoderSpecificLength := (case sc_info c of None \<Rightarrow> 0 | Some i \<Rightarrow> of_nat (length i)) \<rparr>))"
proof -
  define n where "n = length (es_body k2 k3 c)"
  have head: "3 \<le> length (es_head c)" "length (es_head c) = 3 + length (sc_dependence c) + length (url_bytes c) + length (sc_ocr c)"
    using ok by (simp_all add: es_head_def config_ok_def)
  have n: "length (es_head c) \<le> n" "n < 4294967296" "m + n \<le> length (mData es)"
    using arg_cong [OF d, of length] l head(1) by (simp_all add: n_def es_body_def)
  have d': "drop m (mData es) = es_head c @ descriptor kTag_DecoderConfigDescriptor k2 (config_body k3 c) @ sc_rest c"
    using d by (simp add: es_body_def)
  have "drop (m + 2) (mData es) = drop 2 (es_head c @ descriptor kTag_DecoderConfigDescriptor k2 (config_body k3 c) @ sc_rest c)"
    using d' by (metis add.commute drop_drop)
  then have at: "data_at (mData es) (of_nat (m + 2)) = Inr (es_flags c)"
    using ok nth_drop_eq [of "m + 2" "mData es"] data_at_nat [of "m + 2" "mData es"] l by (simp add: es_head_def config_ok_def)
  have lt: "\<not> (of_nat n :: u32) < 3" using of_nat_u32(2) [of n 3] n head(1) by simp
  have st: "(of_nat m + 2 :: u32) = of_nat (m + 2)" "(of_nat (m + 2) + 1 :: u32) = of_nat (m + 3)"
    "(of_nat n - 2 - 1 :: u32) = of_nat (n - 3)" using n(1) head(1) by (simp_all add: of_nat_diff)
  note opt = es_optional_read [OF ok d' l n(1,2)]
  have cmp: "(of_nat (n - length (es_head c)) :: u32) \<le> of_nat (m + length (es_head c)) \<longleftrightarrow> room \<le> cfg"
    unfolding room_def cfg_def n_def [symmetric] using n l by (intro of_nat_u32(1)) auto
  have "drop cfg (mData es) = drop (length (es_head c)) (es_head c @ descriptor kTag_DecoderConfigDescriptor k2 (config_body k3 c) @ sc_rest c)"
    unfolding cfg_def using d' by (metis add.commute drop_drop)
  then have dc: "drop cfg (mData es) = descriptor kTag_DecoderConfigDescriptor k2 (config_body k3 c) @ sc_rest c" by simp
  have hd: "skipDescriptorHeader (mData es) (of_nat cfg) (of_nat room) =
      Inr (Some (kTag_DecoderConfigDescriptor, of_nat (cfg + k2 + 2), of_nat (length (config_body k3 c))))"
    by (rule skip_header_descriptor [OF dc l k(1)]) (use n in \<open>simp_all add: room_def n_def es_body_def\<close>)
  have "drop (cfg + k2 + 2) (mData es) = drop (k2 + 2) (descriptor kTag_DecoderConfigDescriptor k2 (config_body k3 c) @ sc_rest c)"
    using dc by (metis add.assoc add.commute drop_drop)
  also have "\<dots> = config_body k3 c @ sc_rest c" by (simp add: descriptor_def)
  finally have body: "drop (cfg + k2 + 2) (mData es) = config_body k3 c @ sc_rest c" .
  have b: "length (sc_buffer c) = 12" using ok by (simp add: config_ok_def)
  note config = decoder_config_read [OF body l b k(2)]
  show ?thesis
  proof (cases "sc_url c \<noteq> None \<and> n - 3 - length (sc_dependence c) \<le> m + 3 + length (sc_dependence c)")
    case True
    then have "room \<le> cfg" unfolding room_def cfg_def n_def [symmetric] using head(2) by linarith
    then show ?thesis unfolding n_def [symmetric] parseESDescriptor_def Let_def st using at lt True opt(1) by (simp del: of_nat_add of_nat_diff)
  next
    case False
    have c2: "of_nat (n - length (es_head c)) = (of_nat room :: u32)" "of_nat (m + length (es_head c)) = (of_nat cfg :: u32)"
      by (simp_all add: room_def cfg_def n_def)
    show ?thesis
    proof (cases "room \<le> cfg")
      case True
      then show ?thesis unfolding n_def [symmetric] parseESDescriptor_def Let_def st using at lt False cmp opt
        by (simp del: of_nat_add of_nat_diff)
    next
      case le: False
      then show ?thesis unfolding n_def [symmetric] parseESDescriptor_def Let_def st
        using at lt False cmp opt hd config c2 by (simp del: of_nat_add of_nat_diff)
    qed
  qed
qed

text \<open>
  C11. The decoder configuration of a stream is read back from its descriptors, with every combination of the
  optional fields and lengths in any number of groups: the object type and the codec specific data are exactly those of the stream.
  The condition under which the code accepts it is exact: it compares the offset of the configuration from the start of
  the data with the size that is left, so that valid descriptors with long optional fields are refused.
\<close>
theorem esds_roundtrip:
  assumes ok: "config_ok c" and l: "length (encode_esds k1 k2 k3 c) < 4294967296"
    and k: "length (es_body k2 k3 c) < 128 ^ (k1 + 1)" "length (config_body k3 c) < 128 ^ (k2 + 1)"
      "\<forall>i. sc_info c = Some i \<longrightarrow> length i < 128 ^ (k3 + 1)"
  shows "\<exists>es. ESDS_new (encode_esds k1 k2 k3 c) = Inr es \<and>
    (if length (es_body k2 k3 c) - length (es_head c) \<le> k1 + 2 + length (es_head c) then mInitCheck es = ERROR_MALFORMED
     else getObjectTypeIndication es = (OK, Some (sc_object_type c)) \<and>
       (\<exists>off n. getCodecSpecificInfo es = (OK, Some (off, n)) \<and>
          take (unat n) (drop (unat off) (mData es)) = (case sc_info c of None \<Rightarrow> [] | Some i \<Rightarrow> i)))"
proof -
  define bytes where "bytes = encode_esds k1 k2 k3 c"
  define es where "es = \<lparr> mData = bytes, mSize = of_nat (length bytes), mInitCheck = ERROR_IO, mDecoderSpecificOffset = 0,
          mDecoderSpecificLength = 0, mObjectTypeIndication = 0 \<rparr>"
  have es: "mData es = bytes" "mSize es = of_nat (length bytes)" by (simp_all add: es_def)
  have d0: "drop 0 bytes = descriptor kTag_ESDescriptor k1 (es_body k2 k3 c) @ []" by (simp add: bytes_def encode_esds_def)
  have h: "skipDescriptorHeader bytes 0 (of_nat (length bytes)) = Inr (Some (kTag_ESDescriptor, of_nat (k1 + 2), of_nat (length (es_body k2 k3 c))))"
    using skip_header_descriptor [OF d0 l [folded bytes_def] k(1), of "length bytes"] l by (simp add: bytes_def encode_esds_def)
  have body: "drop (k1 + 2) bytes = es_body k2 k3 c" by (simp add: bytes_def encode_esds_def descriptor_def)
  have new: "ESDS_new bytes = map_sum id (\<lambda>(st, es). es\<lparr> mInitCheck := st \<rparr>) (parseESDescriptor (of_nat (k1 + 2)) (of_nat (length (es_body k2 k3 c))) es)"
    unfolding ESDS_new_def es_def [symmetric] parse_esds_def es using h by simp
  note read = es_descriptor_read [OF ok, of "k1 + 2" es k2 k3, unfolded es, OF body l [folded bytes_def] k(2,3)]
  show ?thesis
  proof (cases "length (es_body k2 k3 c) - length (es_head c) \<le> k1 + 2 + length (es_head c)")
    case True
    then show ?thesis
      unfolding bytes_def [symmetric] new read by simp
  next
    case False
    define off where "off = k1 + 2 + length (es_head c) + k2 + 2 + 15 + k3"
    have "take (unat (of_nat (length i) :: u32)) (drop (unat (of_nat off :: u32)) bytes) = i" if i: "sc_info c = Some i" for i
    proof -
      define front where "front = kTag_ESDescriptor # enc_len k1 (length (es_body k2 k3 c)) @ es_head c @
        kTag_DecoderConfigDescriptor # enc_len k2 (length (config_body k3 c)) @ sc_object_type c # sc_buffer c @
        kTag_DecoderSpecificInfo # enc_len k3 (length i)"
      have "bytes = front @ i @ sc_rest c"
        using i by (simp add: bytes_def encode_esds_def descriptor_def es_body_def config_body_def front_def)
      moreover have "length front = off" using ok by (simp add: front_def off_def config_ok_def)
      ultimately have dr: "drop off bytes = i @ sc_rest c" by simp
      have "off + length i \<le> length bytes" using i ok by (simp add: off_def bytes_def encode_esds_def es_body_def config_body_def config_ok_def)
      then show ?thesis using dr l by (simp add: bytes_def)
    qed
    then show ?thesis
      unfolding bytes_def [symmetric] new read off_def [symmetric] using False es(1)
      by (simp add: getObjectTypeIndication_def getCodecSpecificInfo_def split: option.split)
  qed
qed

definition aac_config :: stream_config where
  "aac_config = \<lparr> sc_id = [0, 1], sc_priority = 0, sc_dependence = [], sc_url = None, sc_ocr = [], sc_object_type = 0x40,
     sc_buffer = replicate 12 0, sc_info = Some [0x12, 0x10], sc_rest = [6, 1, 2] \<rparr>"

lemma aac_sizes:
  "config_ok aac_config" "length (es_head aac_config) = 3" "length (config_body 3 aac_config) = 20" "length (es_body 3 3 aac_config) = 31"
  "length (encode_esds 3 3 3 aac_config) = 36" "sc_info aac_config = Some [0x12, 0x10]" "sc_object_type aac_config = 0x40"
  by (simp_all add: config_ok_def aac_config_def es_head_def url_bytes_def config_body_def es_body_def encode_esds_def)

theorem esds_roundtrip_witness:
  "\<exists>es off n. ESDS_new (encode_esds 3 3 3 aac_config) = Inr es \<and> getObjectTypeIndication es = (OK, Some 0x40) \<and>
     getCodecSpecificInfo es = (OK, Some (off, n)) \<and> take (unat n) (drop (unat off) (mData es)) = [0x12, 0x10]"
  using esds_roundtrip [OF aac_sizes(1), of 3 3 3] by (fastforce simp: aac_sizes)

theorem esds_safe_witness: "\<exists>es. ESDS_new [0x03, 3, 0, 0, 0] = Inr es \<and> mData es = [0x03, 3, 0, 0, 0]"
proof -
  have fit: "\<forall>tag off n. skipDescriptorHeader [0x03, 3, 0, 0, 0] 0 (of_nat (length [0x03, 3, 0, 0, 0 :: u8])) = Inr (Some (tag, off, n)) \<and> 3 \<le> unat n \<longrightarrow>
      optional_fit [0x03, 3, 0, 0, 0] (unat off) (unat n)"
    by (auto simp: skipDescriptorHeader_def data_at_def skip_length.simps Let_def optional_fit_def)
  show ?thesis using esds_safe [OF _ fit] by auto
qed

end
