(* ===== verification/Vector_Impl.thy ===== *)
theory Vector_Impl
  imports Prelude_C
begin

text \<open>
  The vectors of the player, \<open>libutils/VectorImpl.cpp\<close> and \<open>libutils/SharedBuffer.cpp\<close>: arrays in reference-counted buffers
  that vectors share until one of them is changed. A heap is a list of buffers, an address an index into it;
  a freed buffer is \<open>None\<close>. A cell of a buffer holds an item or is raw memory, so that constructing, copying and
  destroying items can go wrong; items of a trivial type are just bytes. Sizes are 32-bit numbers that wrap. An item passed
  to an operation is a value, so it does not live in the vector itself. \<open>realloc\<close> keeps the address here: the only pointer to a
  buffer that is reallocated is the one that is then replaced. Concurrent use of the counts is not modelled.
\<close>

subsection \<open>Buffers\<close>

datatype vec_fault = NullPointer | UseAfterFree | OutOfBuffer | Lifetime | CheckFailed

record 'a SharedBuffer =
  mRefs :: int
  mBytes :: u32
  cells :: "'a option list"

type_synonym 'a sb_heap = "'a SharedBuffer option list"

text \<open>
  The type of the items: its size, and whether constructor, copy and destructor are trivial (the traits give all three
  or none; whether a type may be moved bytewise makes no difference to the values). A vector is its storage and its count.
\<close>

record item_type =
  mItemSize :: u32
  trivial :: bool

record VectorImpl =
  mStorage :: "nat option"
  mCount :: u32

definition VectorImpl_new :: VectorImpl where
  "VectorImpl_new = \<lparr> mStorage = None, mCount = 0 \<rparr>"

definition bind_v :: "'e + 'a \<Rightarrow> ('a \<Rightarrow> 'e + 'b) \<Rightarrow> 'e + 'b" where
  "bind_v r f = (case r of Inl e \<Rightarrow> Inl e | Inr x \<Rightarrow> f x)"

definition put_cells :: "nat \<Rightarrow> 'a list \<Rightarrow> 'a list \<Rightarrow> 'a list" where
  "put_cells i xs cs = take i cs @ xs @ drop (i + length xs) cs"

definition get_cells :: "nat \<Rightarrow> nat \<Rightarrow> 'a list \<Rightarrow> vec_fault + 'a list" where
  "get_cells i n cs = (if i + n \<le> length cs then Inr (take n (drop i cs)) else Inl OutOfBuffer)"

text \<open>\<open>_do_copy\<close>, \<open>_do_destroy\<close>, and \<open>_do_move_forward\<close> and \<open>_do_move_backward\<close>, which differ only in the order that
  overlapping needs.\<close>

definition copy_cells :: "item_type \<Rightarrow> 'a option list \<Rightarrow> nat \<Rightarrow> 'a option list \<Rightarrow> vec_fault + 'a option list" where
  "copy_cells ty xs i cs =
     bind_v (get_cells i (length xs) cs) (\<lambda>old.
       if \<not> trivial ty \<and> (None \<in> set xs \<or> (\<exists>c \<in> set old. c \<noteq> None)) then Inl Lifetime else Inr (put_cells i xs cs))"

definition destroy_cells :: "item_type \<Rightarrow> nat \<Rightarrow> nat \<Rightarrow> 'a option list \<Rightarrow> vec_fault + 'a option list" where
  "destroy_cells ty i n cs =
     (if trivial ty then Inr cs
      else bind_v (get_cells i n cs) (\<lambda>old. if None \<in> set old then Inl Lifetime else Inr (put_cells i (replicate n None) cs)))"

definition move_cells :: "item_type \<Rightarrow> nat \<Rightarrow> nat \<Rightarrow> nat \<Rightarrow> 'a option list \<Rightarrow> vec_fault + 'a option list" where
  "move_cells ty dest from n cs =
     bind_v (get_cells from n cs) (\<lambda>xs.
       if trivial ty then bind_v (get_cells dest n cs) (\<lambda>_. Inr (put_cells dest xs cs))
       else if None \<in> set xs then Inl Lifetime
       else copy_cells ty xs dest (put_cells from (replicate n None) cs))"

definition buffer_at :: "'a sb_heap \<Rightarrow> nat \<Rightarrow> vec_fault + 'a SharedBuffer" where
  "buffer_at H a =
     (if a < length H then (case H ! a of None \<Rightarrow> Inl UseAfterFree | Some b \<Rightarrow> Inr b) else Inl UseAfterFree)"

text \<open>The header of a buffer has 16 bytes; the sum may wrap, and then there is less memory than \<open>mBytes\<close> says.\<close>

definition SharedBuffer_alloc :: "(nat \<Rightarrow> bool) \<Rightarrow> item_type \<Rightarrow> u32 \<Rightarrow> 'a sb_heap \<Rightarrow> (nat \<times> 'a sb_heap) option" where
  "SharedBuffer_alloc mem ty n H =
     (if mem (unat (16 + n))
      then Some (length H, H @ [Some \<lparr> mRefs = 1, mBytes = n, cells = replicate ((unat (16 + n) - 16) div unat (mItemSize ty)) None \<rparr>])
      else None)"

definition SharedBuffer_acquire :: "nat \<Rightarrow> 'a sb_heap \<Rightarrow> vec_fault + 'a sb_heap" where
  "SharedBuffer_acquire a H = bind_v (buffer_at H a) (\<lambda>b. Inr (H[a := Some (b\<lparr> mRefs := s32 (mRefs b + 1) \<rparr>)]))"

text \<open>\<open>release\<close> returns the previous count.\<close>

definition SharedBuffer_release :: "bool \<Rightarrow> nat \<Rightarrow> 'a sb_heap \<Rightarrow> vec_fault + int \<times> 'a sb_heap" where
  "SharedBuffer_release keepStorage a H =
     bind_v (buffer_at H a) (\<lambda>b.
       if mRefs b = 1
       then Inr (1, H[a := (if keepStorage then Some (b\<lparr> mRefs := 0 \<rparr>) else None)])
       else Inr (mRefs b, H[a := Some (b\<lparr> mRefs := s32 (mRefs b - 1) \<rparr>)]))"

definition SharedBuffer_dealloc :: "nat \<Rightarrow> 'a sb_heap \<Rightarrow> vec_fault + 'a sb_heap" where
  "SharedBuffer_dealloc a H = bind_v (buffer_at H a) (\<lambda>b. Inr (if mRefs b \<noteq> 0 then H else H[a := None]))"

definition SharedBuffer_editResize :: "(nat \<Rightarrow> bool) \<Rightarrow> item_type \<Rightarrow> nat \<Rightarrow> u32 \<Rightarrow> 'a sb_heap \<Rightarrow> vec_fault + (nat \<times> 'a sb_heap) option" where
  "SharedBuffer_editResize mem ty a newSize H =
     bind_v (buffer_at H a) (\<lambda>b.
       if mRefs b = 1 \<and> mBytes b = newSize then Inr (Some (a, H))
       else if mRefs b = 1 \<and> mem (unat (16 + newSize))
       then let n = (unat (16 + newSize) - 16) div unat (mItemSize ty)
            in Inr (Some (a, H[a := Some (b\<lparr> mBytes := newSize, cells := take n (cells b) @ replicate (n - length (cells b)) None \<rparr>)]))
       else
         case SharedBuffer_alloc mem ty newSize H of
           None \<Rightarrow> Inr None
         | Some (a', H1) \<Rightarrow>
             bind_v (buffer_at H1 a') (\<lambda>b'.
             let n = unat (min newSize (mBytes b)) div unat (mItemSize ty) in
             bind_v (get_cells 0 n (cells b)) (\<lambda>xs.
             bind_v (get_cells 0 n (cells b')) (\<lambda>_.
             bind_v (SharedBuffer_release False a (H1[a' := Some (b'\<lparr> cells := put_cells 0 xs (cells b') \<rparr>)])) (\<lambda>(_, H2).
             Inr (Some (a', H2)))))))"

subsection \<open>Vectors\<close>

definition capacity :: "item_type \<Rightarrow> VectorImpl \<Rightarrow> 'a sb_heap \<Rightarrow> vec_fault + u32" where
  "capacity ty v H =
     (case mStorage v of None \<Rightarrow> Inr 0 | Some a \<Rightarrow> bind_v (buffer_at H a) (\<lambda>b. Inr (mBytes b div mItemSize ty)))"

definition release_storage :: "item_type \<Rightarrow> VectorImpl \<Rightarrow> 'a sb_heap \<Rightarrow> vec_fault + 'a sb_heap" where
  "release_storage ty v H =
     (case mStorage v of
        None \<Rightarrow> Inr H
      | Some a \<Rightarrow>
          bind_v (SharedBuffer_release True a H) (\<lambda>(prev, H).
          if prev \<noteq> 1 then Inr H
          else
            bind_v (buffer_at H a) (\<lambda>b.
            bind_v (destroy_cells ty 0 (unat (mCount v)) (cells b)) (\<lambda>cs.
            SharedBuffer_dealloc a (H[a := Some (b\<lparr> cells := cs \<rparr>)])))))"

text \<open>Copying cells from one buffer to another.\<close>

definition copy_between :: "item_type \<Rightarrow> nat \<Rightarrow> nat \<Rightarrow> nat \<Rightarrow> nat \<Rightarrow> nat \<Rightarrow> 'a sb_heap \<Rightarrow> vec_fault + 'a sb_heap" where
  "copy_between ty dest i src j n H =
     bind_v (buffer_at H src) (\<lambda>b.
     bind_v (get_cells j n (cells b)) (\<lambda>xs.
     bind_v (buffer_at H dest) (\<lambda>d.
     bind_v (copy_cells ty xs i (cells d)) (\<lambda>cs.
     Inr (H[dest := Some (d\<lparr> cells := cs \<rparr>)])))))"

definition change_cells :: "nat \<Rightarrow> ('a option list \<Rightarrow> vec_fault + 'a option list) \<Rightarrow> 'a sb_heap \<Rightarrow> vec_fault + 'a sb_heap" where
  "change_cells a f H = bind_v (buffer_at H a) (\<lambda>b. bind_v (f (cells b)) (\<lambda>cs. Inr (H[a := Some (b\<lparr> cells := cs \<rparr>)])))"

text \<open>The constructor that copies and the assignment share the storage.\<close>

definition VectorImpl_copy :: "VectorImpl \<Rightarrow> 'a sb_heap \<Rightarrow> vec_fault + VectorImpl \<times> 'a sb_heap" where
  "VectorImpl_copy rhs H =
     (case mStorage rhs of None \<Rightarrow> Inr (rhs, H) | Some a \<Rightarrow> bind_v (SharedBuffer_acquire a H) (\<lambda>H. Inr (rhs, H)))"

text \<open>\<open>editArrayImpl\<close> makes the storage the vector's own; when there is no memory, the shared storage is returned.\<close>

definition editArrayImpl :: "(nat \<Rightarrow> bool) \<Rightarrow> item_type \<Rightarrow> VectorImpl \<Rightarrow> 'a sb_heap \<Rightarrow> vec_fault + VectorImpl \<times> 'a sb_heap" where
  "editArrayImpl mem ty v H =
     (case mStorage v of
        None \<Rightarrow> Inr (v, H)
      | Some a \<Rightarrow>
          bind_v (buffer_at H a) (\<lambda>b.
          if mRefs b = 1 then Inr (v, H)
          else
            bind_v (capacity ty v H) (\<lambda>cap.
            case SharedBuffer_alloc mem ty (cap * mItemSize ty) H of
              None \<Rightarrow> Inr (v, H)
            | Some (a', H) \<Rightarrow>
                bind_v (copy_between ty a' 0 a 0 (unat (mCount v)) H) (\<lambda>H.
                bind_v (release_storage ty v H) (\<lambda>H.
                Inr (v\<lparr> mStorage := Some a' \<rparr>, H))))))"

definition kMinVectorCapacity :: u32 where "kMinVectorCapacity = 4"

text \<open>A position in the storage: \<open>itemLocation\<close>.\<close>

definition itemLocation :: "VectorImpl \<Rightarrow> u32 \<Rightarrow> (nat \<times> nat) option" where
  "itemLocation v index = map_option (\<lambda>a. (a, unat index)) (mStorage v)"

text \<open>The part that growing and shrinking share: the items before \<open>k\<close> and those from \<open>j\<close> on are copied to a new storage, the latter to position \<open>p\<close>.\<close>

definition copy_around :: "item_type \<Rightarrow> nat \<Rightarrow> u32 \<Rightarrow> u32 \<Rightarrow> u32 \<Rightarrow> VectorImpl \<Rightarrow> 'a sb_heap \<Rightarrow> vec_fault + VectorImpl \<times> 'a sb_heap" where
  "copy_around ty a' k p j v H =
     bind_v (if k > 0 then (case mStorage v of None \<Rightarrow> Inl NullPointer | Some a \<Rightarrow> copy_between ty a' 0 a 0 (unat k) H) else Inr H) (\<lambda>H.
     bind_v (if mCount v > j then (case mStorage v of None \<Rightarrow> Inl NullPointer | Some a \<Rightarrow> copy_between ty a' (unat p) a (unat j) (unat (mCount v - j)) H)
             else Inr H) (\<lambda>H.
     bind_v (release_storage ty v H) (\<lambda>H. Inr (v\<lparr> mStorage := Some a' \<rparr>, H))))"

definition grow_storage :: "(nat \<Rightarrow> bool) \<Rightarrow> item_type \<Rightarrow> u32 \<Rightarrow> u32 \<Rightarrow> VectorImpl \<Rightarrow> 'a sb_heap \<Rightarrow> vec_fault + VectorImpl \<times> 'a sb_heap" where
  "grow_storage mem ty where amount v H =
     bind_v (capacity ty v H) (\<lambda>cap.
       if cap < mCount v + amount then
         let new_capacity = max kMinVectorCapacity (((mCount v + amount) * 3 + 1) div 2) in
         (case (mStorage v, mCount v = where \<and> trivial ty) of
            (Some a, True) \<Rightarrow>
              bind_v (SharedBuffer_editResize mem ty a (new_capacity * mItemSize ty) H) (\<lambda>r.
              case r of None \<Rightarrow> Inl NullPointer | Some (a', H) \<Rightarrow> Inr (v\<lparr> mStorage := Some a' \<rparr>, H))
          | _ \<Rightarrow>
              (case SharedBuffer_alloc mem ty (new_capacity * mItemSize ty) H of
                 None \<Rightarrow> Inr (v, H)
               | Some (a', H) \<Rightarrow> copy_around ty a' where (where + amount) where v H))
       else if sint (mCount v - where) > 0 then
         bind_v (editArrayImpl mem ty v H) (\<lambda>(v, H).
         case mStorage v of
           None \<Rightarrow> Inl NullPointer
         | Some a \<Rightarrow>
             map_sum id (Pair v) (change_cells a (move_cells ty (unat (where + amount)) (unat where) (unat (mCount v - where))) H))
       else Inr (v, H))"

definition grow :: "(nat \<Rightarrow> bool) \<Rightarrow> item_type \<Rightarrow> u32 \<Rightarrow> u32 \<Rightarrow> VectorImpl \<Rightarrow> 'a sb_heap \<Rightarrow> vec_fault + (nat \<times> nat) option \<times> VectorImpl \<times> 'a sb_heap" where
  "grow mem ty where amount v H =
     (let where = (if where > mCount v then mCount v else where) in
      bind_v (grow_storage mem ty where amount v H) (\<lambda>(v, H).
      let v = v\<lparr> mCount := mCount v + amount \<rparr> in Inr (itemLocation v where, v, H)))"

definition shrink_storage :: "(nat \<Rightarrow> bool) \<Rightarrow> item_type \<Rightarrow> nat \<Rightarrow> u32 \<Rightarrow> u32 \<Rightarrow> VectorImpl \<Rightarrow> 'a sb_heap \<Rightarrow> vec_fault + VectorImpl \<times> 'a sb_heap" where
  "shrink_storage mem ty a where amount v H =
     bind_v (capacity ty v H) (\<lambda>cap.
       if (mCount v - amount) * 3 < cap then
         let new_capacity = max kMinVectorCapacity ((mCount v - amount) * 2) in
         if where = mCount v - amount \<and> trivial ty then
           bind_v (SharedBuffer_editResize mem ty a (new_capacity * mItemSize ty) H) (\<lambda>r.
           case r of None \<Rightarrow> Inl NullPointer | Some (a', H) \<Rightarrow> Inr (v\<lparr> mStorage := Some a' \<rparr>, H))
         else
           (case SharedBuffer_alloc mem ty (new_capacity * mItemSize ty) H of
              None \<Rightarrow> Inr (v, H)
            | Some (a', H) \<Rightarrow> copy_around ty a' where where (where + amount) v H)
       else
         bind_v (editArrayImpl mem ty v H) (\<lambda>(v, H).
         case mStorage v of
           None \<Rightarrow> Inl NullPointer
         | Some a \<Rightarrow>
             bind_v (change_cells a (destroy_cells ty (unat where) (unat amount)) H) (\<lambda>H.
             if sint (mCount v - (where + amount)) > 0
             then map_sum id (Pair v)
                    (change_cells a (move_cells ty (unat where) (unat (where + amount)) (unat (mCount v - (where + amount)))) H)
             else Inr (v, H))))"

definition shrink :: "(nat \<Rightarrow> bool) \<Rightarrow> item_type \<Rightarrow> u32 \<Rightarrow> u32 \<Rightarrow> VectorImpl \<Rightarrow> 'a sb_heap \<Rightarrow> vec_fault + VectorImpl \<times> 'a sb_heap" where
  "shrink mem ty where amount v H =
     (case mStorage v of
        None \<Rightarrow> Inr (v, H)
      | Some a \<Rightarrow>
          let where = (if where \<ge> mCount v then mCount v - amount else where) in
          bind_v (shrink_storage mem ty a where amount v H) (\<lambda>(v, H). Inr (v\<lparr> mCount := mCount v - amount \<rparr>, H)))"

definition BAD_INDEX :: int where "BAD_INDEX = -75"
definition NO_MEMORY :: int where "NO_MEMORY = -12"
definition BAD_VALUE :: int where "BAD_VALUE = -22"
definition NAME_NOT_FOUND :: int where "NAME_NOT_FOUND = -2"

text \<open>\<open>insertAt\<close> with a prototype \<open>item\<close> (\<open>None\<close> for the default constructor, which for trivial types leaves the memory as it is).\<close>

definition fill_cells :: "item_type \<Rightarrow> 'a \<Rightarrow> 'a option \<Rightarrow> nat \<Rightarrow> nat \<Rightarrow> 'a option list \<Rightarrow> vec_fault + 'a option list" where
  "fill_cells ty dflt item i n cs =
     (case item of
        Some x \<Rightarrow> copy_cells ty (replicate n (Some x)) i cs
      | None \<Rightarrow> if trivial ty then Inr cs else copy_cells ty (replicate n (Some dflt)) i cs)"

definition insertAt :: "(nat \<Rightarrow> bool) \<Rightarrow> item_type \<Rightarrow> 'a \<Rightarrow> 'a option \<Rightarrow> u32 \<Rightarrow> u32 \<Rightarrow> VectorImpl \<Rightarrow> 'a sb_heap \<Rightarrow> vec_fault + int \<times> VectorImpl \<times> 'a sb_heap" where
  "insertAt mem ty dflt item index numItems v H =
     (if index > mCount v then Inr (BAD_INDEX, v, H)
      else
        bind_v (grow mem ty index numItems v H) (\<lambda>(loc, v, H).
        case loc of
          None \<Rightarrow> Inr (NO_MEMORY, v, H)
        | Some (a, i) \<Rightarrow>
            bind_v (change_cells a (fill_cells ty dflt item i (unat numItems)) H) (\<lambda>H. Inr (sint index, v, H))))"

definition insertArrayAt :: "(nat \<Rightarrow> bool) \<Rightarrow> item_type \<Rightarrow> 'a list \<Rightarrow> u32 \<Rightarrow> VectorImpl \<Rightarrow> 'a sb_heap \<Rightarrow> vec_fault + int \<times> VectorImpl \<times> 'a sb_heap" where
  "insertArrayAt mem ty arr index v H =
     (if index > mCount v then Inr (BAD_INDEX, v, H)
      else
        bind_v (grow mem ty index (of_nat (length arr)) v H) (\<lambda>(loc, v, H).
        case loc of
          None \<Rightarrow> Inr (NO_MEMORY, v, H)
        | Some (a, i) \<Rightarrow> bind_v (change_cells a (copy_cells ty (map Some arr) i) H) (\<lambda>H. Inr (sint index, v, H))))"

text \<open>\<open>insertVectorAt\<close> passes the storage of another vector as the array: it is read after \<open>grow\<close>.\<close>

definition insertVectorAt :: "(nat \<Rightarrow> bool) \<Rightarrow> item_type \<Rightarrow> VectorImpl \<Rightarrow> u32 \<Rightarrow> VectorImpl \<Rightarrow> 'a sb_heap \<Rightarrow> vec_fault + int \<times> VectorImpl \<times> 'a sb_heap" where
  "insertVectorAt mem ty vector index v H =
     (if index > mCount v then Inr (BAD_INDEX, v, H)
      else
        bind_v (grow mem ty index (mCount vector) v H) (\<lambda>(loc, v, H).
        case loc of
          None \<Rightarrow> Inr (NO_MEMORY, v, H)
        | Some (a, i) \<Rightarrow>
            bind_v
             (case mStorage vector of
                None \<Rightarrow> if mCount vector = 0 then Inr H else Inl NullPointer
              | Some s \<Rightarrow> copy_between ty a i s 0 (unat (mCount vector)) H)
             (\<lambda>H. Inr (sint index, v, H))))"

definition appendVector :: "(nat \<Rightarrow> bool) \<Rightarrow> item_type \<Rightarrow> VectorImpl \<Rightarrow> VectorImpl \<Rightarrow> 'a sb_heap \<Rightarrow> vec_fault + int \<times> VectorImpl \<times> 'a sb_heap" where
  "appendVector mem ty vector v H = insertVectorAt mem ty vector (mCount v) v H"

definition push :: "(nat \<Rightarrow> bool) \<Rightarrow> item_type \<Rightarrow> 'a \<Rightarrow> 'a option \<Rightarrow> VectorImpl \<Rightarrow> 'a sb_heap \<Rightarrow> vec_fault + int \<times> VectorImpl \<times> 'a sb_heap" where
  "push mem ty dflt item v H = insertAt mem ty dflt item (mCount v) 1 v H"

definition replaceAt :: "(nat \<Rightarrow> bool) \<Rightarrow> item_type \<Rightarrow> 'a \<Rightarrow> 'a option \<Rightarrow> u32 \<Rightarrow> VectorImpl \<Rightarrow> 'a sb_heap \<Rightarrow> vec_fault + int \<times> VectorImpl \<times> 'a sb_heap" where
  "replaceAt mem ty dflt item index v H =
     bind_v (editArrayImpl mem ty v H) (\<lambda>(v, H).
     case itemLocation v index of
       None \<Rightarrow> Inr (NO_MEMORY, v, H)
     | Some (a, i) \<Rightarrow>
         bind_v (change_cells a (destroy_cells ty i 1) H) (\<lambda>H.
         bind_v (change_cells a (fill_cells ty dflt item i 1) H) (\<lambda>H. Inr (sint index, v, H))))"

definition removeItemsAt :: "(nat \<Rightarrow> bool) \<Rightarrow> item_type \<Rightarrow> u32 \<Rightarrow> u32 \<Rightarrow> VectorImpl \<Rightarrow> 'a sb_heap \<Rightarrow> vec_fault + int \<times> VectorImpl \<times> 'a sb_heap" where
  "removeItemsAt mem ty index n v H =
     (if index + n > mCount v then Inr (BAD_VALUE, v, H)
      else bind_v (shrink mem ty index n v H) (\<lambda>(v, H). Inr (sint index, v, H)))"

definition pop :: "(nat \<Rightarrow> bool) \<Rightarrow> item_type \<Rightarrow> VectorImpl \<Rightarrow> 'a sb_heap \<Rightarrow> vec_fault + VectorImpl \<times> 'a sb_heap" where
  "pop mem ty v H =
     (if mCount v = 0 then Inr (v, H) else map_sum id snd (removeItemsAt mem ty (mCount v - 1) 1 v H))"

definition vector_clear :: "(nat \<Rightarrow> bool) \<Rightarrow> item_type \<Rightarrow> VectorImpl \<Rightarrow> 'a sb_heap \<Rightarrow> vec_fault + VectorImpl \<times> 'a sb_heap" where
  "vector_clear mem ty v H = shrink mem ty 0 (mCount v) v H"

definition finish_vector :: "item_type \<Rightarrow> VectorImpl \<Rightarrow> 'a sb_heap \<Rightarrow> vec_fault + VectorImpl \<times> 'a sb_heap" where
  "finish_vector ty v H = bind_v (release_storage ty v H) (\<lambda>H. Inr (v\<lparr> mStorage := None, mCount := 0 \<rparr>, H))"

definition VectorImpl_assign :: "item_type \<Rightarrow> VectorImpl \<Rightarrow> VectorImpl \<Rightarrow> 'a sb_heap \<Rightarrow> vec_fault + VectorImpl \<times> 'a sb_heap" where
  "VectorImpl_assign ty v rhs H =
     bind_v (release_storage ty v H) (\<lambda>H.
     if mCount rhs \<noteq> 0 then
       (case mStorage rhs of None \<Rightarrow> Inl NullPointer | Some a \<Rightarrow> bind_v (SharedBuffer_acquire a H) (\<lambda>H. Inr (rhs, H)))
     else Inr (v\<lparr> mStorage := None, mCount := 0 \<rparr>, H))"

definition setCapacity :: "(nat \<Rightarrow> bool) \<Rightarrow> item_type \<Rightarrow> u32 \<Rightarrow> VectorImpl \<Rightarrow> 'a sb_heap \<Rightarrow> vec_fault + int \<times> VectorImpl \<times> 'a sb_heap" where
  "setCapacity mem ty new_capacity v H =
     bind_v (capacity ty v H) (\<lambda>cap.
     if sint (new_capacity - mCount v) \<le> 0 then Inr (sint cap, v, H)
     else
       case SharedBuffer_alloc mem ty (new_capacity * mItemSize ty) H of
         None \<Rightarrow> Inr (NO_MEMORY, v, H)
       | Some (a', H) \<Rightarrow>
           bind_v (case mStorage v of None \<Rightarrow> Inr H | Some a \<Rightarrow> copy_between ty a' 0 a 0 (unat (mCount v)) H) (\<lambda>H.
           bind_v (release_storage ty v H) (\<lambda>H. Inr (sint new_capacity, v\<lparr> mStorage := Some a' \<rparr>, H))))"

subsection \<open>Cells\<close>

lemma bind_v_simps [simp]: "bind_v (Inl e) f = Inl e" "bind_v (Inr x) f = f x"
  by (simp_all add: bind_v_def)

lemma length_put_cells [simp]: "i + length xs \<le> length cs \<Longrightarrow> length (put_cells i xs cs) = length cs"
  by (simp add: put_cells_def)

definition raw :: "item_type \<Rightarrow> 'a option list \<Rightarrow> bool" where
  "raw ty cs \<longleftrightarrow> (\<not> trivial ty \<longrightarrow> set cs \<subseteq> {None})"

lemma raw_simps [simp]: "raw ty []" "raw ty (replicate n None)" "raw ty (xs @ ys) \<longleftrightarrow> raw ty xs \<and> raw ty ys"
  by (auto simp: raw_def)

lemma raw_take_drop: "raw ty cs \<Longrightarrow> raw ty (take n cs) \<and> raw ty (drop n cs)"
  by (auto simp: raw_def dest: in_set_takeD in_set_dropD)

lemma raw_trivial: "trivial ty \<Longrightarrow> raw ty cs" by (simp add: raw_def)

lemma copy_cells_raw:
  assumes "cs = pre @ old @ post" and "length old = length ys" and "raw ty old"
  shows "copy_cells ty (map Some ys) (length pre) cs = Inr (pre @ map Some ys @ post)"
  using assms by (auto simp: copy_cells_def get_cells_def put_cells_def raw_def)

lemma copy_some_raw:
  assumes "cs = pre @ old @ post" and "length old = length ys" and "raw ty old" and "None \<notin> set ys \<or> trivial ty"
  shows "copy_cells ty ys (length pre) cs = Inr (pre @ ys @ post)"
  using assms by (auto simp: copy_cells_def get_cells_def put_cells_def raw_def)

lemma destroy_cells_some:
  assumes "cs = pre @ map Some ys @ post"
  shows "\<exists>old. destroy_cells ty (length pre) (length ys) cs = Inr (pre @ old @ post) \<and> length old = length ys \<and> raw ty old"
  using assms by (cases "trivial ty") (auto simp: destroy_cells_def get_cells_def put_cells_def raw_def)

lemma raw_Nones: "raw ty cs \<Longrightarrow> \<not> trivial ty \<Longrightarrow> \<exists>n. cs = replicate n None"
  unfolding raw_def by (rule exI [where x = "length cs"], rule replicate_eqI) auto

lemma replicate_swap: "replicate m x @ replicate n x @ xs = replicate n x @ replicate m x @ xs"
  by (simp add: append_replicate_commute flip: append_assoc)

text \<open>Moving a block to the right over raw cells, and to the left.\<close>

lemma move_right:
  assumes "cs = pre @ map Some ys @ old @ post" and "raw ty old"
  shows "\<exists>gap. move_cells ty (length pre + length old) (length pre) (length ys) cs = Inr (pre @ gap @ map Some ys @ post) \<and>
    length gap = length old \<and> raw ty gap"
proof (cases "trivial ty")
  case True
  have "move_cells ty (length pre + length old) (length pre) (length ys) cs =
      Inr (pre @ take (length old) (map Some ys @ old) @ map Some ys @ post)"
    using True assms by (simp add: move_cells_def get_cells_def put_cells_def)
  then show ?thesis using True by (simp add: raw_trivial)
next
  case False
  have e: "put_cells (length pre) (replicate (length ys) None) cs = (pre @ replicate (length old) None) @ replicate (length ys) None @ post"
  proof -
    have "put_cells (length pre) (replicate (length ys) None) cs = pre @ (replicate (length ys) None @ old) @ post"
      using assms(1) by (simp add: put_cells_def)
    then show ?thesis using raw_Nones [OF assms(2) False] replicate_swap by fastforce
  qed
  have c: "copy_cells ty (map Some ys) (length (pre @ replicate (length old) (None :: 'a option))) (put_cells (length pre) (replicate (length ys) None) cs) =
      Inr ((pre @ replicate (length old) None) @ map Some ys @ post)"
    by (rule copy_cells_raw [OF e]) (simp_all)
  have "move_cells ty (length pre + length old) (length pre) (length ys) cs = Inr ((pre @ replicate (length old) None) @ map Some ys @ post)"
    using c False assms by (simp add: move_cells_def get_cells_def)
  then show ?thesis by (intro exI [where x = "replicate (length old) None"]) simp
qed

lemma move_left:
  assumes "cs = pre @ old @ map Some ys @ post" and "raw ty old"
  shows "\<exists>gap. move_cells ty (length pre) (length pre + length old) (length ys) cs = Inr (pre @ map Some ys @ gap @ post) \<and>
    length gap = length old \<and> raw ty gap"
proof (cases "trivial ty")
  case True
  have "move_cells ty (length pre) (length pre + length old) (length ys) cs =
      Inr (pre @ map Some ys @ drop (length ys) (old @ map Some ys) @ post)"
    using True assms by (simp add: move_cells_def get_cells_def put_cells_def)
  then show ?thesis using True by (simp add: raw_trivial)
next
  case False
  have e: "put_cells (length pre + length old) (replicate (length ys) None) cs = pre @ replicate (length ys) None @ (replicate (length old) None @ post)"
  proof -
    have "put_cells (length pre + length old) (replicate (length ys) None) cs = pre @ (old @ replicate (length ys) None) @ post"
      using assms(1) by (simp add: put_cells_def)
    then show ?thesis using raw_Nones [OF assms(2) False] replicate_swap by fastforce
  qed
  have c: "copy_cells ty (map Some ys) (length pre) (put_cells (length pre + length old) (replicate (length ys) None) cs) =
      Inr (pre @ map Some ys @ (replicate (length old) None @ post))"
    by (rule copy_cells_raw [OF e]) (simp_all)
  have "move_cells ty (length pre) (length pre + length old) (length ys) cs = Inr (pre @ map Some ys @ (replicate (length old) None @ post))"
    using c False assms by (simp add: move_cells_def get_cells_def)
  then show ?thesis by (intro exI [where x = "replicate (length old) None"]) simp
qed

subsection \<open>Storage\<close>

definition buf_ok :: "item_type \<Rightarrow> 'a SharedBuffer \<Rightarrow> bool" where
  "buf_ok ty b \<longleftrightarrow> 0 < unat (mItemSize ty) \<and> length (cells b) = unat (mBytes b) div unat (mItemSize ty) \<and> 
     unat (mBytes b) + 16 < 4294967296 \<and> 1 \<le> mRefs b \<and> mRefs b < 2147483648"

text \<open>A vector holds a list of items.\<close>

definition vec_ok :: "item_type \<Rightarrow> 'a sb_heap \<Rightarrow> VectorImpl \<Rightarrow> 'a list \<Rightarrow> bool" where
  "vec_ok ty H v xs \<longleftrightarrow> mCount v = of_nat (length xs) \<and>
     (case mStorage v of
        None \<Rightarrow> xs = []
      | Some a \<Rightarrow> a < length H \<and> (\<exists>b rest. H ! a = Some b \<and> buf_ok ty b \<and> cells b = map Some xs @ rest \<and> raw ty rest))"

text \<open>The size of an array of twice as many items does not overflow.\<close>

definition fits :: "item_type \<Rightarrow> nat \<Rightarrow> bool" where
  "fits ty n \<longleftrightarrow> 0 < unat (mItemSize ty) \<and> (3 * n + 8) * unat (mItemSize ty) < 2147483648"

definition drop_ref :: "VectorImpl \<Rightarrow> 'a sb_heap \<Rightarrow> 'a sb_heap" where
  "drop_ref v H =
     (case mStorage v of
        None \<Rightarrow> H
      | Some a \<Rightarrow> H[a := (if mRefs (the (H ! a)) = 1 then None else Some ((the (H ! a))\<lparr> mRefs := mRefs (the (H ! a)) - 1 \<rparr>))])"

lemma length_drop_ref [simp]: "length (drop_ref v H) = length H"
  by (simp add: drop_ref_def split: option.split)

lemma vec_okE:
  assumes "vec_ok ty H v xs" and "mStorage v = Some a"
  obtains b rest where "a < length H" "H ! a = Some b" "buf_ok ty b" "cells b = map Some xs @ rest" "raw ty rest" "mCount v = of_nat (length xs)"
  using assms by (auto simp: vec_ok_def)

lemma vec_ok_append: "vec_ok ty H v xs \<Longrightarrow> vec_ok ty (H @ [x]) v xs"
  by (auto simp: vec_ok_def nth_append split: option.splits)

lemma drop_ref_append: "vec_ok ty H v xs \<Longrightarrow> drop_ref v (H @ [x]) = drop_ref v H @ [x]"
  by (auto simp: vec_ok_def drop_ref_def nth_append list_update_append split: option.splits)

lemma div_items: "0 < s \<Longrightarrow> n * s < 4294967296 \<Longrightarrow> unat (of_nat (n * s) :: u32) div s = (n :: nat)"
  by (simp add: unat_of_nat del: of_nat_mult)

lemma alloc_ok:
  assumes "\<forall>n. mem n" and "n * unat (mItemSize ty) + 16 < 4294967296" and "0 < unat (mItemSize ty)"
  shows "SharedBuffer_alloc mem ty (of_nat n * mItemSize ty) H =
    Some (length H, H @ [Some \<lparr> mRefs = 1, mBytes = of_nat (n * unat (mItemSize ty)), cells = replicate n None \<rparr>])"
proof -
  have w: "of_nat n * mItemSize ty = of_nat (n * unat (mItemSize ty))" by simp
  have "16 + of_nat (n * unat (mItemSize ty)) = (of_nat (16 + n * unat (mItemSize ty)) :: u32)" by simp
  then have "unat (16 + of_nat (n * unat (mItemSize ty)) :: u32) = 16 + n * unat (mItemSize ty)"
    using assms(2) by (simp add: unat_of_nat del: of_nat_add of_nat_mult)
  then show ?thesis unfolding w using assms by (simp add: SharedBuffer_alloc_def del: of_nat_mult)
qed

lemma vec_length:
  assumes "vec_ok ty H v xs"
  shows "length xs < 4294967296"
proof (cases "mStorage v")
  case (Some a)
  obtain b rest where b: "buf_ok ty b" "cells b = map Some xs @ rest" using vec_okE [OF assms Some] by metis
  have "length xs \<le> length (cells b)" by (simp add: b(2))
  also have "\<dots> \<le> unat (mBytes b)" using b(1) by (simp add: buf_ok_def)
  finally show ?thesis using unat_u32_less [of "mBytes b"] by simp
qed (use assms in \<open>simp add: vec_ok_def\<close>)

lemma release_ok:
  assumes v: "vec_ok ty H v xs"
  shows "release_storage ty v H = Inr (drop_ref v H)"
proof (cases "mStorage v")
  case (Some a)
  obtain b rest where b: "a < length H" "H ! a = Some b" "buf_ok ty b" "cells b = map Some xs @ rest" "mCount v = of_nat (length xs)"
    using vec_okE [OF v Some] by metis
  show ?thesis
  proof (cases "mRefs b = 1")
    case True
    have n: "unat (mCount v) = length xs" using b(5) vec_length [OF v] by (simp add: unat_of_nat)
    obtain old where "destroy_cells ty 0 (length xs) (cells b) = Inr old"
      using destroy_cells_some [of "cells b" "[]" xs rest ty] b(4) by auto
    then show ?thesis using Some b(1,2) True n
      by (simp add: release_storage_def SharedBuffer_release_def buffer_at_def SharedBuffer_dealloc_def drop_ref_def)
  next
    case False
    have "s32 (mRefs b - 1) = mRefs b - 1" using b(3) by (intro s32_id) (simp add: buf_ok_def in_s32_def INT_MIN_def INT_MAX_def)
    then show ?thesis using Some b False by (simp add: release_storage_def SharedBuffer_release_def buffer_at_def drop_ref_def)
  qed
qed (simp add: release_storage_def drop_ref_def)

lemma copy_to_new:
  assumes v: "vec_ok ty H v xs" and a: "mStorage v = Some a" and n: "j + n \<le> length xs"
    and d: "cells d = pre @ old @ post" "length old = n" "raw ty old"
  shows "copy_between ty (length H) (length pre) a j n (H @ [Some d]) = Inr (H @ [Some (d\<lparr> cells := pre @ map Some (take n (drop j xs)) @ post \<rparr>)])"
proof -
  obtain b rest where b: "a < length H" "H ! a = Some b" "cells b = map Some xs @ rest" using vec_okE [OF v a] by metis
  have "get_cells j n (cells b) = Inr (map Some (take n (drop j xs)))" using n b(3) by (simp add: get_cells_def take_map drop_map)
  moreover have "copy_cells ty (map Some (take n (drop j xs))) (length pre) (cells d) = Inr (pre @ map Some (take n (drop j xs)) @ post)"
    using d n by (intro copy_cells_raw) simp_all
  ultimately show ?thesis using b by (simp add: copy_between_def buffer_at_def nth_append)
qed

text \<open>
  What an operation that changes a vector leaves: storage that this vector alone uses, either new (and the reference to the
  old one given up) or the one it had, when nobody shared it.
\<close>

definition held :: "item_type \<Rightarrow> VectorImpl \<Rightarrow> 'a sb_heap \<Rightarrow> 'a option list \<Rightarrow> VectorImpl \<Rightarrow> 'a sb_heap \<Rightarrow> bool" where
  "held ty v H cs v' H' \<longleftrightarrow>
     (\<exists>b'. buf_ok ty b' \<and> cells b' = cs \<and> mRefs b' = 1 \<and>
        (mStorage v' = Some (length H) \<and> H' = drop_ref v H @ [Some b'] \<or>
         (\<exists>a b. mStorage v = Some a \<and> mStorage v' = Some a \<and> a < length H \<and> H ! a = Some b \<and> mRefs b = 1 \<and> H' = H[a := Some b'])))"

lemma held_new:
  assumes "buf_ok ty b'" and "cells b' = cs" and "mRefs b' = 1" and "mStorage v' = Some (length H)" and "H' = drop_ref v H @ [Some b']"
  shows "held ty v H cs v' H'"
  using assms unfolding held_def by blast

lemma held_count [simp]: "held ty v H cs (v'\<lparr> mCount := n \<rparr>) H' = held ty v H cs v' H'"
  by (simp add: held_def)

lemma held_change:
  assumes h: "held ty v H cs v' H'" and f: "f cs = Inr cs'" "length cs' = length cs" and a: "mStorage v' = Some a"
  shows "\<exists>H''. change_cells a f H' = Inr H'' \<and> held ty v H cs' v' H''"
proof -
  obtain b' where b': "buf_ok ty b'" "cells b' = cs" "mRefs b' = 1"
    and w: "a = length H \<and> H' = drop_ref v H @ [Some b'] \<or> mStorage v = Some a \<and> a < length H \<and> (\<exists>b. H ! a = Some b \<and> mRefs b = 1) \<and> H' = H[a := Some b']"
    using h a unfolding held_def by auto
  have at: "buffer_at H' a = Inr b'" using w by (auto simp: buffer_at_def nth_append)
  have ok: "buf_ok ty (b'\<lparr> cells := cs' \<rparr>)" using b' f(2) by (simp add: buf_ok_def)
  have "change_cells a f H' = Inr (H'[a := Some (b'\<lparr> cells := cs' \<rparr>)])" by (simp add: change_cells_def at b'(2) f(1))
  moreover have "held ty v H cs' v' (H'[a := Some (b'\<lparr> cells := cs' \<rparr>)])"
  proof -
    have "\<exists>b''. buf_ok ty b'' \<and> cells b'' = cs' \<and> mRefs b'' = 1 \<and>
      (a = length H \<and> H'[a := Some (b'\<lparr> cells := cs' \<rparr>)] = drop_ref v H @ [Some b''] \<or>
       mStorage v = Some a \<and> a < length H \<and> (\<exists>b. H ! a = Some b \<and> mRefs b = 1) \<and> H'[a := Some (b'\<lparr> cells := cs' \<rparr>)] = H[a := Some b''])"
      using w by (intro exI [where x = "b'\<lparr> cells := cs' \<rparr>"]) (auto simp: ok b' list_update_append)
    then show ?thesis using a unfolding held_def by auto
  qed
  ultimately show ?thesis by blast
qed

lemma held_storage: "held ty v H cs v' H' \<Longrightarrow> \<exists>a. mStorage v' = Some a"
  by (auto simp: held_def)

lemma held_same:
  assumes "vec_ok ty H v xs" and "mStorage v = Some a" and "H ! a = Some b" and "mRefs b = 1"
  shows "held ty v H (cells b) v H"
proof -
  have "a < length H" "buf_ok ty b" using vec_okE [OF assms(1,2)] assms(3) by (metis option.inject)+
  then show ?thesis using assms unfolding held_def by (metis list_update_id)
qed

lemma capacity_ok:
  assumes "vec_ok ty H v xs" and "mStorage v = Some a" and "H ! a = Some b"
  shows "capacity ty v H = Inr (of_nat (length (cells b)))" and "length (cells b) < 4294967296"
proof -
  have b: "a < length H" "buf_ok ty b" using vec_okE [OF assms(1,2)] assms(3) by (metis option.inject)+
  have d: "unat (mBytes b div mItemSize ty) = length (cells b)" using b(2) by (simp add: buf_ok_def unat_div)
  have "of_nat (length (cells b)) = mBytes b div mItemSize ty" unfolding d [symmetric] by simp
  then show "capacity ty v H = Inr (of_nat (length (cells b)))" using assms b(1) by (simp add: capacity_def buffer_at_def)
  show "length (cells b) < 4294967296" unfolding d [symmetric] by (rule unat_u32_less)
qed

lemma buf_ok_new: "n * unat (mItemSize ty) + 16 < 4294967296 \<Longrightarrow> 0 < unat (mItemSize ty) \<Longrightarrow> length cs = n \<Longrightarrow>
    buf_ok ty \<lparr> mRefs = 1, mBytes = of_nat (n * unat (mItemSize ty)), cells = cs \<rparr>"
  by (simp add: buf_ok_def unat_of_nat del: of_nat_mult)

text \<open>Both ways to a storage of one's own.\<close>

lemma edit_ok:
  assumes v: "vec_ok ty H v xs" and a: "mStorage v = Some a" "H ! a = Some b" and m: "\<forall>n. mem n"
  shows "\<exists>v' H' rest. editArrayImpl mem ty v H = Inr (v', H') \<and> mCount v' = mCount v \<and>
    held ty v H (map Some xs @ rest) v' H' \<and> raw ty rest \<and> length xs + length rest = length (cells b)"
proof -
  obtain rest where b: "a < length H" "buf_ok ty b" "cells b = map Some xs @ rest" "raw ty rest" "mCount v = of_nat (length xs)"
    using vec_okE [OF v a(1)] a(2) by (metis option.inject)
  show ?thesis
  proof (cases "mRefs b = 1")
    case True
    have "editArrayImpl mem ty v H = Inr (v, H)" using True a b(1) by (simp add: editArrayImpl_def buffer_at_def)
    then show ?thesis using held_same [OF v a True] b by auto
  next
    case False
    have z: "0 < unat (mItemSize ty)" using b(2) by (simp add: buf_ok_def)
    have "length (cells b) * unat (mItemSize ty) \<le> unat (mBytes b)" "unat (mBytes b) + 16 < 4294967296" using b(2) by (simp_all add: buf_ok_def)
    then have s: "length (cells b) * unat (mItemSize ty) + 16 < 4294967296" by linarith
    have n: "unat (mCount v) = length xs" using b(5) vec_length [OF v] by (simp add: unat_of_nat)
    define d where "d = \<lparr> mRefs = 1, mBytes = of_nat (length (cells b) * unat (mItemSize ty)), cells = replicate (length (cells b)) (None :: 'a option) \<rparr>"
    have al: "SharedBuffer_alloc mem ty (of_nat (length (cells b)) * mItemSize ty) H = Some (length H, H @ [Some d])"
      unfolding d_def by (rule alloc_ok [OF m s z])
    have cp: "copy_between ty (length H) (length ([] :: 'a option list)) a 0 (length xs) (H @ [Some d]) =
        Inr (H @ [Some (d\<lparr> cells := [] @ map Some (take (length xs) (drop 0 xs)) @ replicate (length rest) None \<rparr>)])"
      by (rule copy_to_new [OF v a(1), where old = "replicate (length xs) None"]) (simp_all add: d_def b(3) replicate_add)
    define d' where "d' = d\<lparr> cells := map Some xs @ replicate (length rest) None \<rparr>"
    have rel: "release_storage ty v (H @ [Some d']) = Inr (drop_ref v H @ [Some d'])"
      using release_ok [OF vec_ok_append [OF v]] drop_ref_append [OF v] by metis
    have e: "editArrayImpl mem ty v H = Inr (v\<lparr> mStorage := Some (length H) \<rparr>, drop_ref v H @ [Some d'])"
      using False a b(1) al cp rel capacity_ok(1) [OF v a] n by (simp add: editArrayImpl_def buffer_at_def d'_def)
    have ok: "buf_ok ty d'" unfolding d'_def d_def SharedBuffer.simps using s z b(3) by (intro buf_ok_new) simp_all
    have "held ty v H (map Some xs @ replicate (length rest) None) (v\<lparr> mStorage := Some (length H) \<rparr>) (drop_ref v H @ [Some d'])"
      by (rule held_new [OF ok]) (simp_all add: d'_def d_def)
    then show ?thesis using e b(3)
      by (intro exI [where x = "v\<lparr> mStorage := Some (length H) \<rparr>"] exI [where x = "drop_ref v H @ [Some d']"] exI [where x = "replicate (length rest) None"] conjI) simp_all
  qed
qed

subsection \<open>Growing\<close>

lemma of_nat_diff_u32: "y \<le> x \<Longrightarrow> of_nat x - (of_nat y :: u32) = of_nat (x - y)"
  by simp

lemma sint_of_nat_u32: "x < 2147483648 \<Longrightarrow> sint (of_nat x :: u32) = int x"
  by (simp add: signed_of_nat signed_take_bit_int_eq_self)

lemma copy_around_ok:
  assumes v: "vec_ok ty H v xs" and z: "0 < unat (mItemSize ty)" "C * unat (mItemSize ty) + 16 < 4294967296"
    and k: "k \<le> p" "k \<le> j" "j \<le> length xs" "p + (length xs - j) \<le> C" "C < 4294967296"
    and d: "d = \<lparr> mRefs = 1, mBytes = of_nat (C * unat (mItemSize ty)), cells = replicate C None \<rparr>"
  shows "\<exists>v' H' rest. copy_around ty (length H) (of_nat k) (of_nat p) (of_nat j) v (H @ [Some d]) = Inr (v', H') \<and> mCount v' = mCount v \<and>
    held ty v H (map Some (take k xs) @ replicate (p - k) None @ map Some (drop j xs) @ rest) v' H' \<and> raw ty rest \<and>
    p + (length xs - j) + length rest = C"
proof -
  define l where "l = length xs - j"
  define d1 where "d1 = d\<lparr> cells := map Some (take k xs) @ replicate (p - k) None @ replicate l None @ replicate (C - (p + l)) None \<rparr>"
  define d2 where "d2 = d\<lparr> cells := map Some (take k xs) @ replicate (p - k) None @ map Some (drop j xs) @ replicate (C - (p + l)) None \<rparr>"
  have len: "length xs < 4294967296" by (rule vec_length [OF v])
  have mc: "mCount v = of_nat (length xs)" using v by (simp add: vec_ok_def)
  have split: "replicate C (None :: 'a option) = replicate k None @ replicate (p - k) None @ replicate l None @ replicate (C - (p + l)) None"
    using k by (simp add: l_def flip: replicate_add)
  have none: "mStorage v = None \<Longrightarrow> xs = []" using v by (simp add: vec_ok_def)
  have c1: "(if of_nat k > (0 :: u32) then (case mStorage v of None \<Rightarrow> Inl NullPointer | Some a \<Rightarrow> copy_between ty (length H) 0 a 0 (unat (of_nat k :: u32)) (H @ [Some d]))
      else Inr (H @ [Some d])) = Inr (H @ [Some d1])"
  proof (cases "k = 0")
    case True
    then show ?thesis using k by (simp add: d1_def d split)
  next
    case False
    then obtain a where a: "mStorage v = Some a" using none k by (cases "mStorage v") auto
    have "copy_between ty (length H) (length ([] :: 'a option list)) a 0 k (H @ [Some d]) =
        Inr (H @ [Some (d\<lparr> cells := [] @ map Some (take k (drop 0 xs)) @ replicate (p - k) None @ replicate l None @ replicate (C - (p + l)) None \<rparr>)])"
      by (rule copy_to_new [OF v a, where old = "replicate k None"]) (use k in \<open>simp_all add: d split\<close>)
    moreover have "(0 :: u32) < of_nat k" using of_nat_u32(2) [of 0 k] False k by simp
    ultimately show ?thesis using k a by (simp add: d1_def unat_of_nat_u32)
  qed
  have c2: "(if mCount v > of_nat j then (case mStorage v of None \<Rightarrow> Inl NullPointer
        | Some a \<Rightarrow> copy_between ty (length H) (unat (of_nat p :: u32)) a (unat (of_nat j :: u32)) (unat (mCount v - of_nat j)) (H @ [Some d1]))
      else Inr (H @ [Some d1])) = Inr (H @ [Some d2])"
  proof (cases "j = length xs")
    case True
    then show ?thesis using mc by (simp add: d1_def d2_def l_def)
  next
    case False
    then obtain a where a: "mStorage v = Some a" using none k by (cases "mStorage v") auto
    have pk: "length (map Some (take k xs) @ replicate (p - k) None) = p" using k by simp
    have "copy_between ty (length H) (length (map Some (take k xs) @ replicate (p - k) None)) a j l (H @ [Some d1]) =
        Inr (H @ [Some (d1\<lparr> cells := (map Some (take k xs) @ replicate (p - k) None) @ map Some (take l (drop j xs)) @ replicate (C - (p + l)) None \<rparr>)])"
      by (rule copy_to_new [OF v a, where old = "replicate l None"]) (use k in \<open>simp_all add: d1_def l_def\<close>)
    then have "copy_between ty (length H) p a j l (H @ [Some d1]) = Inr (H @ [Some d2])" unfolding pk by (simp add: d1_def d2_def l_def)
    moreover have "of_nat j < mCount v" unfolding mc using False k len by (subst of_nat_u32(2)) auto
    moreover have "unat (mCount v - of_nat j) = l" unfolding mc of_nat_diff_u32 [OF k(3)] using len by (subst unat_of_nat_u32) (auto simp: l_def)
    ultimately show ?thesis using k len a by (simp add: unat_of_nat_u32)
  qed
  have rel: "release_storage ty v (H @ [Some d2]) = Inr (drop_ref v H @ [Some d2])"
    using release_ok [OF vec_ok_append [OF v]] drop_ref_append [OF v] by metis
  have e: "copy_around ty (length H) (of_nat k) (of_nat p) (of_nat j) v (H @ [Some d]) = Inr (v\<lparr> mStorage := Some (length H) \<rparr>, drop_ref v H @ [Some d2])"
    unfolding copy_around_def c1 bind_v_simps c2 rel ..
  have ok: "buf_ok ty d2" unfolding d2_def d SharedBuffer.simps using z k by (intro buf_ok_new) (simp_all add: l_def)
  have "held ty v H (cells d2) (v\<lparr> mStorage := Some (length H) \<rparr>) (drop_ref v H @ [Some d2])"
    by (rule held_new [OF ok]) (simp_all add: d2_def d)
  then have h: "held ty v H (map Some (take k xs) @ replicate (p - k) None @ map Some (drop j xs) @ replicate (C - (p + l)) None) (v\<lparr> mStorage := Some (length H) \<rparr>) (drop_ref v H @ [Some d2])"
    by (simp add: d2_def)
  show ?thesis
    by (rule exI [where x = "v\<lparr> mStorage := Some (length H) \<rparr>"], rule exI [where x = "drop_ref v H @ [Some d2]"], rule exI [where x = "replicate (C - (p + l)) None"])
      (use e h k in \<open>simp add: l_def\<close>)
qed

text \<open>\<open>editResize\<close> gives the items of a trivial type a storage of another size.\<close>

lemma editResize_ok:
  assumes v: "vec_ok ty H v xs" and a: "mStorage v = Some a" "H ! a = Some b" and m: "\<forall>n. mem n" and t: "trivial ty"
    and s: "C * unat (mItemSize ty) + 16 < 4294967296" and c: "n \<le> length xs" "n \<le> C"
  shows "\<exists>a' H' rest. SharedBuffer_editResize mem ty a (of_nat C * mItemSize ty) H = Inr (Some (a', H')) \<and>
    held ty v H (map Some (take n xs) @ rest) (v\<lparr> mStorage := Some a' \<rparr>) H' \<and> n + length rest = C"
proof -
  have b: "a < length H" "buf_ok ty b" using vec_okE [OF v a(1)] a(2) by (metis option.inject)+
  obtain rest where r: "cells b = map Some xs @ rest" using vec_okE [OF v a(1)] a(2) by (metis option.inject)
  have z: "0 < unat (mItemSize ty)" using b(2) by (simp add: buf_ok_def)
  have w: "of_nat C * mItemSize ty = of_nat (C * unat (mItemSize ty))" by simp
  have u: "unat (16 + of_nat C * mItemSize ty) = 16 + C * unat (mItemSize ty)" "unat (of_nat C * mItemSize ty) = C * unat (mItemSize ty)"
    using unat_of_nat_u32 [of "16 + C * unat (mItemSize ty)"] unat_of_nat_u32 [of "C * unat (mItemSize ty)"] s by simp_all
  have start: "\<exists>r. take m (cells b) @ r' = map Some (take n xs) @ r \<and> n + length r = length (take m (cells b) @ r')" if "n \<le> m" for m r'
  proof -
    have "take m (cells b) = take n (cells b) @ take (m - n) (drop n (cells b))" using that by (metis le_add_diff_inverse take_add)
    then have "take m (cells b) = map Some (take n xs) @ take (m - n) (drop n (cells b))" using c(1) r by (simp add: take_map)
    then show ?thesis using c(1) by auto
  qed
  have same: "take C (cells b) @ [] = cells b" if "mBytes b = of_nat C * mItemSize ty"
    using b(2) that u(2) z by (simp add: buf_ok_def)
  consider "mRefs b = 1" "mBytes b = of_nat C * mItemSize ty" | "mRefs b = 1" "mBytes b \<noteq> of_nat C * mItemSize ty" | "mRefs b \<noteq> 1" by blast
  then show ?thesis
  proof cases
    case 1
    have h: "held ty v H (cells b) (v\<lparr> mStorage := Some a \<rparr>) H" using held_same [OF v a 1(1)] a(1) by (simp add: held_def)
    obtain r' where r': "cells b = map Some (take n xs) @ r'" "n + length r' = length (cells b)" using start [of C "[]"] same [OF 1(2)] c(2) by metis
    have "length (cells b) = C" using b(2) 1(2) u(2) z by (simp add: buf_ok_def)
    then show ?thesis using h r' 1 a b(1)
      by (intro exI [where x = a] exI [where x = H] exI [where x = r']) (simp add: SharedBuffer_editResize_def buffer_at_def)
  next
    case 2
    define b' where "b' = b\<lparr> mBytes := of_nat C * mItemSize ty, cells := take C (cells b) @ replicate (C - length (cells b)) None \<rparr>"
    obtain r' where r': "cells b' = map Some (take n xs) @ r'" "n + length r' = length (cells b')"
      using start [OF c(2), of "replicate (C - length (cells b)) None"] c(1) by (auto simp: b'_def)
    have "SharedBuffer_editResize mem ty a (of_nat C * mItemSize ty) H = Inr (Some (a, H[a := Some b']))"
      using 2 m a b(1) u z by (simp add: SharedBuffer_editResize_def buffer_at_def b'_def Let_def)
    moreover have "length (cells b') = C" by (simp add: b'_def)
    moreover have "buf_ok ty b'" using u z b(2) s by (simp add: b'_def buf_ok_def)
    then have "held ty v H (cells b') (v\<lparr> mStorage := Some a \<rparr>) (H[a := Some b'])"
      unfolding held_def using 2(1) a b(1) by (intro exI [where x = b']) (simp add: b'_def)
    ultimately show ?thesis using r' by (intro exI [where x = a] exI [where x = "H[a := Some b']"] exI [where x = r']) simp
  next
    case 3
    define q where "q = min C (length (cells b))"
    define d where "d = \<lparr> mRefs = 1, mBytes = of_nat (C * unat (mItemSize ty)), cells = replicate C (None :: 'a option) \<rparr>"
    define d' where "d' = d\<lparr> cells := take q (cells b) @ replicate (C - q) None \<rparr>"
    have al: "SharedBuffer_alloc mem ty (of_nat C * mItemSize ty) H = Some (length H, H @ [Some d])"
      unfolding d_def by (rule alloc_ok [OF m s z])
    have q: "unat (min (of_nat C * mItemSize ty) (mBytes b)) div unat (mItemSize ty) = q"
      using u(2) b(2) z by (auto simp: q_def min_def word_le_nat_alt buf_ok_def not_le less_eq_div_iff_mult_less_eq div_less_iff_less_mult)
    have rel: "SharedBuffer_release False a (H @ [Some d']) = Inr (mRefs b, drop_ref v H @ [Some d'])"
    proof -
      have "s32 (mRefs b - 1) = mRefs b - 1" using b(2) by (intro s32_id) (simp add: buf_ok_def in_s32_def INT_MIN_def INT_MAX_def)
      then show ?thesis using 3 a b(1) by (simp add: SharedBuffer_release_def buffer_at_def nth_append drop_ref_def list_update_append)
    qed
    have "SharedBuffer_editResize mem ty a (of_nat C * mItemSize ty) H = Inr (Some (length H, drop_ref v H @ [Some d']))"
      using 3 a b(1) al q rel
      by (simp add: SharedBuffer_editResize_def buffer_at_def Let_def get_cells_def q_def d_def d'_def put_cells_def list_update_append min_absorb2)
    moreover obtain r' where r': "cells d' = map Some (take n xs) @ r'" "n + length r' = length (cells d')"
      using start [of q "replicate (C - q) None"] c r by (auto simp: d'_def q_def)
    moreover have "length (cells d') = C" by (simp add: d'_def q_def)
    moreover have "buf_ok ty d'" unfolding d'_def d_def SharedBuffer.simps using z s by (intro buf_ok_new) (simp_all add: q_def)
    then have "held ty v H (cells d') (v\<lparr> mStorage := Some (length H) \<rparr>) (drop_ref v H @ [Some d'])"
      by (rule held_new) (simp_all add: d'_def d_def)
    ultimately show ?thesis by (intro exI [where x = "length H"] exI [where x = "drop_ref v H @ [Some d']"] exI [where x = r']) simp
  qed
qed

definition appends_shared :: "nat \<Rightarrow> VectorImpl \<Rightarrow> 'a sb_heap \<Rightarrow> bool" where
  "appends_shared n v H =
     (case mStorage v of
        None \<Rightarrow> False
      | Some a \<Rightarrow> mRefs (the (H ! a)) \<noteq> 1 \<and> unat (mCount v) + n \<le> length (cells (the (H ! a))))"

lemma grow_capacity:
  assumes "fits ty n"
  shows "max kMinVectorCapacity ((of_nat n * 3 + 1) div 2) = of_nat (max 4 ((3 * n + 1) div 2))"
    and "max 4 ((3 * n + 1) div 2) * unat (mItemSize ty) + 16 < 4294967296" and "n \<le> max 4 ((3 * n + 1) div 2)" and "3 * n + 8 < 2147483648"
proof -
  have f: "(3 * n + 8) * unat (mItemSize ty) < 2147483648" "0 < unat (mItemSize ty)" using assms by (simp_all add: fits_def)
  show n: "3 * n + 8 < 2147483648" using f by (metis One_nat_def Suc_leI le_less_trans mult.right_neutral mult_le_mono2)
  have "max 4 ((3 * n + 1) div 2) * unat (mItemSize ty) \<le> (3 * n + 8) * unat (mItemSize ty)" by (rule mult_le_mono1) simp
  then show "max 4 ((3 * n + 1) div 2) * unat (mItemSize ty) + 16 < 4294967296" using f(1) by linarith
  show "n \<le> max 4 ((3 * n + 1) div 2)" by simp
  have "unat ((of_nat n * 3 + 1) :: u32) = 3 * n + 1"
    using unat_of_nat_u32 [of "3 * n + 1"] n by (simp add: ac_simps)
  then have "unat ((of_nat n * 3 + 1) div 2 :: u32) = (3 * n + 1) div 2" by (simp add: unat_div)
  then have "unat (max kMinVectorCapacity ((of_nat n * 3 + 1) div 2)) = max 4 ((3 * n + 1) div 2)"
    by (simp add: max_def word_le_nat_alt kMinVectorCapacity_def)
  then show "max kMinVectorCapacity ((of_nat n * 3 + 1) div 2) = of_nat (max 4 ((3 * n + 1) div 2))" 
    unfolding word_unat_eq_iff using n by (subst unat_of_nat_u32) auto
qed

text \<open>The shape that \<open>grow\<close> leaves: a gap of \<open>n\<close> raw cells at \<open>k\<close>.\<close>

definition gapped :: "item_type \<Rightarrow> 'a list \<Rightarrow> nat \<Rightarrow> nat \<Rightarrow> 'a option list \<Rightarrow> bool" where
  "gapped ty xs k n cs \<longleftrightarrow>
     (\<exists>gap rest. cs = map Some (take k xs) @ gap @ map Some (drop k xs) @ rest \<and> length gap = n \<and> raw ty gap \<and> raw ty rest)"

lemma grow_new:
  assumes v: "vec_ok ty H v xs" and m: "\<forall>n. mem n" and k: "k \<le> length xs" and f: "fits ty (length xs + n)"
    and C: "C = max 4 ((3 * (length xs + n) + 1) div 2)"
  shows "\<exists>v' H' cs. (case (mStorage v, mCount v = of_nat k \<and> trivial ty) of
                (Some a, True) \<Rightarrow>
                  bind_v (SharedBuffer_editResize mem ty a (of_nat C * mItemSize ty) H) (\<lambda>r.
                  case r of None \<Rightarrow> Inl NullPointer | Some (a', H) \<Rightarrow> Inr (v\<lparr> mStorage := Some a' \<rparr>, H))
              | _ \<Rightarrow>
                  (case SharedBuffer_alloc mem ty (of_nat C * mItemSize ty) H of
                     None \<Rightarrow> Inr (v, H)
                   | Some (a', H) \<Rightarrow> copy_around ty a' (of_nat k) (of_nat k + of_nat n) (of_nat k) v H)) = Inr (v', H') \<and>
    mCount v' = mCount v \<and> held ty v H cs v' H' \<and> gapped ty xs k n cs"
proof -
  have mc: "mCount v = of_nat (length xs)" using v by (simp add: vec_ok_def)
  have g: "C * unat (mItemSize ty) + 16 < 4294967296" "length xs + n \<le> C" using grow_capacity(2,3) [OF f] C by simp_all
  have b: "length xs + n < 4294967296" "C < 4294967296" using grow_capacity(4) [OF f] C by simp_all
  have z: "0 < unat (mItemSize ty)" using f by (simp add: fits_def)
  show ?thesis
  proof (cases "(\<exists>a. mStorage v = Some a) \<and> k = length xs \<and> trivial ty")
    case True
    then obtain a where a: "mStorage v = Some a" and t: "trivial ty" "k = length xs" by blast
    obtain bf where bf: "H ! a = Some bf" using vec_okE [OF v a] by metis
    obtain a' H' rest where e: "SharedBuffer_editResize mem ty a (of_nat C * mItemSize ty) H = Inr (Some (a', H'))"
      and h: "held ty v H (map Some xs @ rest) (v\<lparr> mStorage := Some a' \<rparr>) H'" "length xs + length rest = C"
      using editResize_ok [OF v a bf m t(1) g(1), of "length xs"] g(2) by auto
    have "gapped ty xs k n (map Some xs @ rest)"
      unfolding gapped_def using t h(2) g(2) by (intro exI [where x = "take n rest"] exI [where x = "drop n rest"]) (simp add: raw_trivial)
    then show ?thesis using a t e h(1) mc by auto
  next
    case False
    define d where "d = \<lparr> mRefs = 1, mBytes = of_nat (C * unat (mItemSize ty)), cells = replicate C (None :: 'a option) \<rparr>"
    have al: "SharedBuffer_alloc mem ty (of_nat C * mItemSize ty) H = Some (length H, H @ [Some d])"
      unfolding d_def by (rule alloc_ok [OF m g(1) z])
    obtain v' H' rest where c: "copy_around ty (length H) (of_nat k) (of_nat (k + n)) (of_nat k) v (H @ [Some d]) = Inr (v', H')"
      and h: "mCount v' = mCount v" "held ty v H (map Some (take k xs) @ replicate n None @ map Some (drop k xs) @ rest) v' H'" "raw ty rest"
      using copy_around_ok [OF v z g(1), of k "k + n" k d] k g(2) b(2) d_def by auto
    have "gapped ty xs k n (map Some (take k xs) @ replicate n None @ map Some (drop k xs) @ rest)"
      unfolding gapped_def using h(3) by (intro exI [where x = "replicate n None"] exI [where x = rest]) simp
    moreover have "mCount v = of_nat k \<longleftrightarrow> k = length xs" unfolding mc using of_nat_u32(3) [of "length xs" k] b(1) k by auto
    ultimately show ?thesis using False al c h(1,2) by (auto split: option.split)
  qed
qed

lemma grow_ok:
  assumes v: "vec_ok ty H v xs" and m: "\<forall>n. mem n" and k: "k \<le> length xs" and n: "0 < n" and f: "fits ty (length xs + n)"
    and alone: "k < length xs \<or> \<not> appends_shared n v H"
  shows "\<exists>a v' H' cs. grow mem ty (of_nat k) (of_nat n) v H = Inr (Some (a, k), v', H') \<and> mStorage v' = Some a \<and>
    mCount v' = of_nat (length xs + n) \<and> held ty v H cs v' H' \<and> gapped ty xs k n cs"
proof -
  define C where "C = max 4 ((3 * (length xs + n) + 1) div 2)"
  define cap where "cap = (case mStorage v of None \<Rightarrow> 0 | Some a \<Rightarrow> length (cells (the (H ! a))))"
  have mc: "mCount v = of_nat (length xs)" using v by (simp add: vec_ok_def)
  have b: "length xs + n < 715827880" using grow_capacity(4) [OF f] by simp
  have cp: "capacity ty v H = Inr (of_nat cap) \<and> cap < 4294967296"
  proof (cases "mStorage v")
    case (Some a)
    obtain bf where "H ! a = Some bf" using vec_okE [OF v Some] by metis
    then show ?thesis using capacity_ok [OF v Some] Some by (simp add: cap_def)
  qed (simp add: cap_def capacity_def)
  have wh: "(if of_nat k > mCount v then mCount v else of_nat k) = (of_nat k :: u32)"
    unfolding mc using of_nat_u32(2) [of "length xs" k] k b by simp
  have ns: "mCount v + of_nat n = of_nat (length xs + n)" using mc by simp
  have lt: "(of_nat cap < mCount v + of_nat n) = (cap < length xs + n)" unfolding ns using of_nat_u32(2) [of cap "length xs + n"] cp b by simp
  have C': "max kMinVectorCapacity ((of_nat (length xs + n) * 3 + 1) div 2) = of_nat C" unfolding C_def by (rule grow_capacity(1) [OF f])
  have s: "mCount v - of_nat k = of_nat (length xs - k)" unfolding mc using k by simp
  have sp: "sint (mCount v - of_nat k) > 0 \<longleftrightarrow> k < length xs" unfolding s using b sint_of_nat_u32 [of "length xs - k"] by auto
  have su: "unat (of_nat k :: u32) = k" "unat (of_nat k + of_nat n :: u32) = k + n" "unat (mCount v - of_nat k) = length xs - k"
    unfolding s using k b unat_of_nat_u32 [of "k + n"] by (simp_all add: unat_of_nat_u32 del: of_nat_diff)
  have mid: "\<exists>v' H' cs. grow_storage mem ty (of_nat k) (of_nat n) v H = Inr (v', H') \<and> mCount v' = mCount v \<and> held ty v H cs v' H' \<and> gapped ty xs k n cs"
  proof (cases "cap < length xs + n")
    case True
    show ?thesis using grow_new [OF v m k f C_def] unfolding grow_storage_def conjunct1 [OF cp] bind_v_simps lt unfolding if_P [OF True] Let_def ns C' .
  next
    case False
    then obtain a where a: "mStorage v = Some a" using n by (cases "mStorage v") (auto simp: cap_def)
    obtain bf rest where bf: "H ! a = Some bf" "cells bf = map Some xs @ rest" "raw ty rest" using vec_okE [OF v a] by metis
    have cb: "cap = length (cells bf)" using a bf(1) by (simp add: cap_def)
    show ?thesis
    proof (cases "k < length xs")
      case True
      obtain v' H' r where e: "editArrayImpl mem ty v H = Inr (v', H')" "mCount v' = mCount v" "held ty v H (map Some xs @ r) v' H'" "raw ty r"
          and l: "length xs + length r = length (cells bf)"
        using edit_ok [OF v a bf(1) m] by blast
      obtain a' where a': "mStorage v' = Some a'" using held_storage [OF e(3)] by blast
      have nr: "n \<le> length r" using l False cb by simp
      have cs: "map Some xs @ r = map Some (take k xs) @ map Some (drop k xs) @ take n r @ drop n r"
        by (metis append.assoc append_take_drop_id map_append)
      obtain gap where g: "move_cells ty (length (map Some (take k xs)) + length (take n r)) (length (map Some (take k xs))) (length (drop k xs)) (map Some xs @ r) =
          Inr (map Some (take k xs) @ gap @ map Some (drop k xs) @ drop n r)" "length gap = length (take n r)" "raw ty gap"
        using move_right [OF cs] raw_take_drop [OF e(4)] by blast
      have g1: "move_cells ty (k + n) k (length xs - k) (map Some xs @ r) = Inr (map Some (take k xs) @ gap @ map Some (drop k xs) @ drop n r)"
        using g(1) k nr by simp
      have "\<exists>H''. change_cells a' (move_cells ty (k + n) k (length xs - k)) H' = Inr H'' \<and>
          held ty v H (map Some (take k xs) @ gap @ map Some (drop k xs) @ drop n r) v' H''"
        by (rule held_change [where f = "move_cells ty (k + n) k (length xs - k)", OF e(3) g1 _ a']) (use g(2) nr k in simp)
      moreover have "gapped ty xs k n (map Some (take k xs) @ gap @ map Some (drop k xs) @ drop n r)"
        unfolding gapped_def using g nr raw_take_drop [OF e(4)] by (intro exI [where x = gap] exI [where x = "drop n r"]) simp
      ultimately show ?thesis using False True e(1,2) a' unfolding grow_storage_def conjunct1 [OF cp] bind_v_simps lt sp su by (auto simp: su(3))
    next
      case k': False
      have sh: "mRefs bf = 1" using alone k' False cb a bf(1) mc b unat_of_nat_u32 [of "length xs"] by (auto simp: appends_shared_def)
      have "gapped ty xs k n (cells bf)"
        unfolding gapped_def using k k' bf False cb raw_take_drop [OF bf(3)] by (intro exI [where x = "take n rest"] exI [where x = "drop n rest"]) simp
      then show ?thesis using False k' held_same [OF v a bf(1) sh] unfolding grow_storage_def conjunct1 [OF cp] bind_v_simps lt sp by auto
    qed
  qed
  then obtain v' H' cs where r: "grow_storage mem ty (of_nat k) (of_nat n) v H = Inr (v', H')" "mCount v' = mCount v" "held ty v H cs v' H'" "gapped ty xs k n cs" by blast
  obtain a' where a': "mStorage v' = Some a'" using held_storage [OF r(3)] by blast
  have "grow mem ty (of_nat k) (of_nat n) v H = Inr (itemLocation (v'\<lparr> mCount := mCount v' + of_nat n \<rparr>) (of_nat k), v'\<lparr> mCount := mCount v' + of_nat n \<rparr>, H')"
    using r(1) unfolding grow_def wh by (simp add: Let_def)
  then show ?thesis using r a' su(1) ns by (simp add: itemLocation_def) blast
qed

subsection \<open>Shrinking\<close>

lemma shrink_capacity:
  assumes "fits ty n"
  shows "max kMinVectorCapacity (of_nat n * 2) = of_nat (max 4 (2 * n))" and "max 4 (2 * n) * unat (mItemSize ty) + 16 < 4294967296"
proof -
  have n: "3 * n + 8 < 2147483648" by (rule grow_capacity(4) [OF assms])
  have "max 4 (2 * n) * unat (mItemSize ty) \<le> (3 * n + 8) * unat (mItemSize ty)" by (rule mult_le_mono1) simp
  then show "max 4 (2 * n) * unat (mItemSize ty) + 16 < 4294967296" using assms unfolding fits_def by linarith
  have "unat (of_nat n * 2 :: u32) = 2 * n" using unat_of_nat_u32 [of "2 * n"] n by (simp add: mult.commute)
  then have "unat (max kMinVectorCapacity (of_nat n * 2)) = max 4 (2 * n)" by (simp add: max_def word_le_nat_alt kMinVectorCapacity_def)
  then show "max kMinVectorCapacity (of_nat n * 2) = of_nat (max 4 (2 * n))"
    unfolding word_unat_eq_iff using n by (subst unat_of_nat_u32) auto
qed

lemma fits_mono: "fits ty n \<Longrightarrow> k \<le> n \<Longrightarrow> fits ty k"
  unfolding fits_def by (meson add_le_mono1 le_less_trans mult_le_mono1 mult_le_mono2)

lemma shrink_edit:
  assumes v: "vec_ok ty H v xs" and a: "mStorage v = Some a" "H ! a = Some b" and m: "\<forall>n. mem n" and k: "k + n \<le> length xs"
    and c: "length xs < 2147483648"
  shows "\<exists>v' H' rest. bind_v (editArrayImpl mem ty v H) (\<lambda>(v, H).
         case mStorage v of
           None \<Rightarrow> Inl NullPointer
         | Some a \<Rightarrow>
             bind_v (change_cells a (destroy_cells ty k n) H) (\<lambda>H.
             if sint (mCount v - of_nat (k + n)) > 0
             then map_sum id (Pair v) (change_cells a (move_cells ty k (k + n) (unat (mCount v - of_nat (k + n)))) H)
             else Inr (v, H))) = Inr (v', H') \<and>
    mCount v' = mCount v \<and> held ty v H (map Some (take k xs @ drop (k + n) xs) @ rest) v' H' \<and> raw ty rest"
proof -
  obtain v' H' r where e: "editArrayImpl mem ty v H = Inr (v', H')" "mCount v' = mCount v" "held ty v H (map Some xs @ r) v' H'" "raw ty r"
    using edit_ok [OF v a m] by blast
  obtain a' where a': "mStorage v' = Some a'" using held_storage [OF e(3)] by blast
  have s: "mCount v' - of_nat (k + n) = of_nat (length xs - (k + n))" using v e(2) k by (simp add: vec_ok_def)
  have sp: "sint (mCount v' - of_nat (k + n)) > 0 \<longleftrightarrow> k + n < length xs"
    unfolding s using c sint_of_nat_u32 [of "length xs - (k + n)"] by auto
  have su: "unat (mCount v' - of_nat (k + n)) = length xs - (k + n)" unfolding s using c by (subst unat_of_nat_u32) auto
  have x: "xs = take k xs @ take n (drop k xs) @ drop (k + n) xs"
    by (metis append_take_drop_id drop_drop add.commute)
  have cs: "map Some xs @ r = map Some (take k xs) @ map Some (take n (drop k xs)) @ (map Some (drop (k + n) xs) @ r)"
    by (subst x) simp
  obtain old where o: "destroy_cells ty (length (map Some (take k xs))) (length (take n (drop k xs))) (map Some xs @ r) =
      Inr (map Some (take k xs) @ old @ (map Some (drop (k + n) xs) @ r))" "length old = length (take n (drop k xs))" "raw ty old"
    using destroy_cells_some [OF cs, of ty] by blast
  have o1: "destroy_cells ty k n (map Some xs @ r) = Inr (map Some (take k xs) @ old @ (map Some (drop (k + n) xs) @ r))" using o(1) k by simp
  have ol: "length old = n" using o(2) k by simp
  have "\<exists>H''. change_cells a' (destroy_cells ty k n) H' = Inr H'' \<and> held ty v H (map Some (take k xs) @ old @ (map Some (drop (k + n) xs) @ r)) v' H''"
    by (rule held_change [where f = "destroy_cells ty k n", OF e(3) o1 _ a']) (use ol k in simp)
  then obtain H2 where H2: "change_cells a' (destroy_cells ty k n) H' = Inr H2" "held ty v H (map Some (take k xs) @ old @ (map Some (drop (k + n) xs) @ r)) v' H2" by blast
  show ?thesis
  proof (cases "k + n < length xs")
    case True
    obtain gap where g: "move_cells ty (length (map Some (take k xs))) (length (map Some (take k xs)) + length old) (length (drop (k + n) xs))
        (map Some (take k xs) @ old @ map Some (drop (k + n) xs) @ r) = Inr (map Some (take k xs) @ map Some (drop (k + n) xs) @ gap @ r)"
        "length gap = length old" "raw ty gap"
      using move_left [OF refl o(3)] by blast
    have g1: "move_cells ty k (k + n) (length xs - (k + n)) (map Some (take k xs) @ old @ (map Some (drop (k + n) xs) @ r)) =
        Inr (map Some (take k xs @ drop (k + n) xs) @ (gap @ r))"
      using g(1) k ol by simp
    have "\<exists>H''. change_cells a' (move_cells ty k (k + n) (length xs - (k + n))) H2 = Inr H'' \<and>
        held ty v H (map Some (take k xs @ drop (k + n) xs) @ (gap @ r)) v' H''"
      by (rule held_change [where f = "move_cells ty k (k + n) (length xs - (k + n))", OF H2(2) g1 _ a']) (use g(2) ol k in simp)
    then obtain H3 where H3: "change_cells a' (move_cells ty k (k + n) (length xs - (k + n))) H2 = Inr H3"
      "held ty v H (map Some (take k xs @ drop (k + n) xs) @ (gap @ r)) v' H3" by blast
    show ?thesis
      by (rule exI [where x = v'], rule exI [where x = H3], rule exI [where x = "gap @ r"])
        (use H3 H2(1) e(1,2,4) a' True sp su g(3) in \<open>simp del: of_nat_add map_append\<close>)
  next
    case False
    have "held ty v H (map Some (take k xs @ drop (k + n) xs) @ (old @ r)) v' H2" using H2(2) False k by simp
    then show ?thesis
      by - (rule exI [where x = v'], rule exI [where x = H2], rule exI [where x = "old @ r"],
        use H2(1) e(1,2,4) a' False sp o(3) in \<open>simp del: of_nat_add map_append\<close>)
  qed
qed

lemma shrink_ok:
  assumes v: "vec_ok ty H v xs" and a: "mStorage v = Some a" and m: "\<forall>n. mem n" and k: "k + n \<le> length xs" and f: "fits ty (length xs)"
  shows "\<exists>v' H' rest. shrink mem ty (of_nat k) (of_nat n) v H = Inr (v', H') \<and> mCount v' = of_nat (length xs - n) \<and>
    held ty v H (map Some (take k xs @ drop (k + n) xs) @ rest) v' H' \<and> raw ty rest"
proof -
  define l where "l = length xs - n"
  define C where "C = max 4 (2 * l)"
  obtain b where b: "H ! a = Some b" using vec_okE [OF v a] by metis
  have mc: "mCount v = of_nat (length xs)" using v by (simp add: vec_ok_def)
  have fl: "fits ty l" unfolding l_def by (rule fits_mono [OF f]) simp
  have z: "0 < unat (mItemSize ty)" using f by (simp add: fits_def)
  have len: "length xs < 715827880" using grow_capacity(4) [OF f] by simp
  have ns: "mCount v - of_nat n = of_nat l" unfolding mc l_def using k by simp
  have C: "max kMinVectorCapacity (of_nat l * 2) = of_nat C" "C * unat (mItemSize ty) + 16 < 4294967296" "C < 4294967296" "l \<le> C"
    using shrink_capacity [OF fl] len unfolding C_def l_def by auto
  have wh: "(if of_nat k \<ge> mCount v then mCount v - of_nat n else of_nat k) = (of_nat k :: u32)"
  proof (cases "length xs \<le> k")
    case True
    then have "l = k" using k by (simp add: l_def)
    then show ?thesis by (simp add: ns)
  next
    case False
    then show ?thesis using of_nat_u32(1) [of "length xs" k] k len by (simp add: mc)
  qed
  have cp: "capacity ty v H = Inr (of_nat (length (cells b)))" by (rule capacity_ok(1) [OF v a b])
  have kn: "of_nat k + of_nat n = (of_nat (k + n) :: u32)" by simp
  have u: "unat (of_nat k :: u32) = k" "unat (of_nat n :: u32) = n" "unat (of_nat (k + n) :: u32) = k + n" using k len by (simp_all add: unat_of_nat_u32 del: of_nat_add)
  have "\<exists>v' H' rest. shrink_storage mem ty a (of_nat k) (of_nat n) v H = Inr (v', H') \<and> mCount v' = mCount v \<and>
    held ty v H (map Some (take k xs @ drop (k + n) xs) @ rest) v' H' \<and> raw ty rest"
  proof (cases "of_nat l * 3 < (of_nat (length (cells b)) :: u32)")
    case False
    then show ?thesis using shrink_edit [OF v a b m k] len unfolding shrink_storage_def cp bind_v_simps ns if_not_P [OF False] kn u by simp
  next
    case True
    have ss: "shrink_storage mem ty a (of_nat k) (of_nat n) v H =
        (if of_nat k = (of_nat l :: u32) \<and> trivial ty then
           bind_v (SharedBuffer_editResize mem ty a (of_nat C * mItemSize ty) H) (\<lambda>r.
           case r of None \<Rightarrow> Inl NullPointer | Some (a', H) \<Rightarrow> Inr (v\<lparr> mStorage := Some a' \<rparr>, H))
         else
           (case SharedBuffer_alloc mem ty (of_nat C * mItemSize ty) H of
              None \<Rightarrow> Inr (v, H)
            | Some (a', H) \<Rightarrow> copy_around ty a' (of_nat k) (of_nat k) (of_nat (k + n)) v H))"
      unfolding shrink_storage_def cp bind_v_simps ns if_P [OF True] kn Let_def C(1) ..
    show ?thesis
    proof (cases "k = l \<and> trivial ty")
      case True
      obtain a' H' rest where e: "SharedBuffer_editResize mem ty a (of_nat C * mItemSize ty) H = Inr (Some (a', H'))"
        and h: "held ty v H (map Some (take l xs) @ rest) (v\<lparr> mStorage := Some a' \<rparr>) H'"
        using editResize_ok [OF v a b m _ C(2) _ C(4)] True by (auto simp: l_def)
      have "take k xs @ drop (k + n) xs = take l xs" using True k by (simp add: l_def)
      then show ?thesis unfolding ss using True e h by (auto simp: raw_trivial)
    next
      case False
      define d where "d = \<lparr> mRefs = 1, mBytes = of_nat (C * unat (mItemSize ty)), cells = replicate C (None :: 'a option) \<rparr>"
      have al: "SharedBuffer_alloc mem ty (of_nat C * mItemSize ty) H = Some (length H, H @ [Some d])"
        unfolding d_def by (rule alloc_ok [OF m C(2) z])
      have kl: "(of_nat k = (of_nat l :: u32)) = (k = l)" using k len by (intro of_nat_u32(3)) (auto simp: l_def)
      have "\<exists>v' H' rest. copy_around ty (length H) (of_nat k) (of_nat k) (of_nat (k + n)) v (H @ [Some d]) = Inr (v', H') \<and> mCount v' = mCount v \<and>
          held ty v H (map Some (take k xs) @ replicate (k - k) None @ map Some (drop (k + n) xs) @ rest) v' H' \<and> raw ty rest \<and>
          k + (length xs - (k + n)) + length rest = C"
        by (rule copy_around_ok [OF v z C(2) _ _ k _ C(3) d_def]) (use C(4) k in \<open>auto simp: l_def\<close>)
      then show ?thesis unfolding ss kl if_not_P [OF False] al by auto
    qed
  qed
  then obtain v' H' rest where r: "shrink_storage mem ty a (of_nat k) (of_nat n) v H = Inr (v', H')" "mCount v' = mCount v"
    "held ty v H (map Some (take k xs @ drop (k + n) xs) @ rest) v' H'" "raw ty rest" by blast
  then show ?thesis unfolding shrink_def a wh Let_def option.case r(1) using ns
    by (intro exI [where x = "v'\<lparr> mCount := mCount v' - of_nat n \<rparr>"] exI [where x = H'] exI [where x = rest]) (simp add: l_def)
qed

subsection \<open>The operations\<close>

text \<open>The vector now holds \<open>xs\<close>, in storage of its own.\<close>

definition changed :: "item_type \<Rightarrow> VectorImpl \<Rightarrow> 'a sb_heap \<Rightarrow> 'a list \<Rightarrow> VectorImpl \<Rightarrow> 'a sb_heap \<Rightarrow> bool" where
  "changed ty v H xs v' H' \<longleftrightarrow>
     mCount v' = of_nat (length xs) \<and> (\<exists>rest. held ty v H (map Some xs @ rest) v' H' \<and> raw ty rest)"

lemma gap_filled:
  assumes g: "gapped ty xs k n cs" and h: "held ty v H cs v' H'" and a: "mStorage v' = Some a" and c: "mCount v' = of_nat (length xs + n)"
    and k: "k \<le> length xs" and y: "length ys = n"
  shows "\<exists>H''. change_cells a (copy_cells ty (map Some ys) k) H' = Inr H'' \<and> changed ty v H (take k xs @ ys @ drop k xs) v' H''"
proof -
  obtain gap rest where r: "cs = map Some (take k xs) @ gap @ (map Some (drop k xs) @ rest)" "length gap = n" "raw ty gap" "raw ty rest"
    using g unfolding gapped_def by blast
  have "copy_cells ty (map Some ys) (length (map Some (take k xs))) cs = Inr (map Some (take k xs) @ map Some ys @ (map Some (drop k xs) @ rest))"
    using r y by (intro copy_cells_raw) auto
  then have e: "copy_cells ty (map Some ys) k cs = Inr (map Some (take k xs @ ys @ drop k xs) @ rest)" using k by simp
  have "\<exists>H''. change_cells a (copy_cells ty (map Some ys) k) H' = Inr H'' \<and> held ty v H (map Some (take k xs @ ys @ drop k xs) @ rest) v' H''"
    by (rule held_change [where f = "copy_cells ty (map Some ys) k", OF h e _ a]) (use r y k in simp)
  then show ?thesis using c k y r(4) unfolding changed_def by auto
qed

lemma insertArrayAt_ok:
  assumes v: "vec_ok ty H v xs" and m: "\<forall>n. mem n" and k: "k \<le> length xs" and n: "ys \<noteq> []" and f: "fits ty (length xs + length ys)"
    and alone: "k < length xs \<or> \<not> appends_shared (length ys) v H"
  shows "\<exists>v' H'. insertArrayAt mem ty ys (of_nat k) v H = Inr (int k, v', H') \<and> changed ty v H (take k xs @ ys @ drop k xs) v' H'"
proof -
  have b: "length xs + length ys < 715827880" using grow_capacity(4) [OF f] by simp
  have idx: "\<not> of_nat k > mCount v" using v of_nat_u32(2) [of "length xs" k] k b by (simp add: vec_ok_def)
  obtain a v' H' cs where g: "grow mem ty (of_nat k) (of_nat (length ys)) v H = Inr (Some (a, k), v', H')" "mStorage v' = Some a"
      "mCount v' = of_nat (length xs + length ys)" "held ty v H cs v' H'" "gapped ty xs k (length ys) cs"
    using grow_ok [OF v m k _ f alone] n by auto
  obtain H'' where "change_cells a (copy_cells ty (map Some ys) k) H' = Inr H''" "changed ty v H (take k xs @ ys @ drop k xs) v' H''"
    using gap_filled [OF g(5,4,2,3) k refl] by blast
  moreover have "sint (of_nat k :: u32) = int k" using k b by (intro sint_of_nat_u32) simp
  ultimately show ?thesis using g(1) idx by (simp add: insertArrayAt_def)
qed

lemma insertAt_ok:
  assumes v: "vec_ok ty H v xs" and m: "\<forall>n. mem n" and k: "k \<le> length xs" and n: "0 < n" and f: "fits ty (length xs + n)"
    and alone: "k < length xs \<or> \<not> appends_shared n v H" and x: "item = Some x \<or> item = None \<and> \<not> trivial ty \<and> x = dflt"
  shows "\<exists>v' H'. insertAt mem ty dflt item (of_nat k) (of_nat n) v H = Inr (int k, v', H') \<and> changed ty v H (take k xs @ replicate n x @ drop k xs) v' H'"
proof -
  have b: "length xs + n < 715827880" using grow_capacity(4) [OF f] by simp
  have idx: "\<not> of_nat k > mCount v" using v of_nat_u32(2) [of "length xs" k] k b by (simp add: vec_ok_def)
  obtain a v' H' cs where g: "grow mem ty (of_nat k) (of_nat n) v H = Inr (Some (a, k), v', H')" "mStorage v' = Some a"
      "mCount v' = of_nat (length xs + n)" "held ty v H cs v' H'" "gapped ty xs k n cs"
    using grow_ok [OF v m k n f alone] by blast
  have fill: "fill_cells ty dflt item k n cs' = copy_cells ty (map Some (replicate n x)) k cs'" for cs'
    using x by (auto simp: fill_cells_def map_replicate)
  obtain H'' where "change_cells a (copy_cells ty (map Some (replicate n x)) k) H' = Inr H''" "changed ty v H (take k xs @ replicate n x @ drop k xs) v' H''"
    using gap_filled [OF g(5,4,2,3) k length_replicate] by blast
  moreover have "sint (of_nat k :: u32) = int k" using k b by (intro sint_of_nat_u32) simp
  moreover have "unat (of_nat n :: u32) = n" using b by (intro unat_of_nat_u32) simp
  ultimately show ?thesis using g(1) idx by (simp add: insertAt_def fill change_cells_def)
qed

lemma storage_of: "vec_ok ty H v xs \<Longrightarrow> xs \<noteq> [] \<Longrightarrow> \<exists>a b. mStorage v = Some a \<and> H ! a = Some b"
  by (auto simp: vec_ok_def split: option.splits)

lemma replaceAt_ok:
  assumes v: "vec_ok ty H v xs" and m: "\<forall>n. mem n" and k: "k < length xs" "k < 2147483648" and x: "item = Some x \<or> item = None \<and> \<not> trivial ty \<and> x = dflt"
  shows "\<exists>v' H'. replaceAt mem ty dflt item (of_nat k) v H = Inr (int k, v', H') \<and> changed ty v H (xs[k := x]) v' H'"
proof -
  obtain a b where a: "mStorage v = Some a" "H ! a = Some b" using storage_of [OF v] k by fastforce
  obtain v' H' r where e: "editArrayImpl mem ty v H = Inr (v', H')" "mCount v' = mCount v" "held ty v H (map Some xs @ r) v' H'" "raw ty r"
    using edit_ok [OF v a m] by blast
  obtain a' where a': "mStorage v' = Some a'" using held_storage [OF e(3)] by blast
  have u: "unat (of_nat k :: u32) = k" "sint (of_nat k :: u32) = int k" using k by (simp_all add: unat_of_nat_u32 sint_of_nat_u32)
  have cs: "map Some xs @ r = map Some (take k xs) @ map Some [xs ! k] @ (map Some (drop (Suc k) xs) @ r)"
    by (subst id_take_nth_drop [OF k(1)]) simp
  obtain old where o: "destroy_cells ty (length (map Some (take k xs))) (length [xs ! k]) (map Some xs @ r) =
      Inr (map Some (take k xs) @ old @ (map Some (drop (Suc k) xs) @ r))" "length old = length [xs ! k]" "raw ty old"
    using destroy_cells_some [OF cs, of ty] by blast
  have o1: "destroy_cells ty k 1 (map Some xs @ r) = Inr (map Some (take k xs) @ old @ (map Some (drop (Suc k) xs) @ r))" using o(1) k by simp
  have "\<exists>H''. change_cells a' (destroy_cells ty k 1) H' = Inr H'' \<and> held ty v H (map Some (take k xs) @ old @ (map Some (drop (Suc k) xs) @ r)) v' H''"
    by (rule held_change [where f = "destroy_cells ty k 1", OF e(3) o1 _ a']) (use o(2) k in simp)
  then obtain H2 where H2: "change_cells a' (destroy_cells ty k 1) H' = Inr H2" "held ty v H (map Some (take k xs) @ old @ (map Some (drop (Suc k) xs) @ r)) v' H2" by blast
  have "copy_cells ty (map Some [x]) (length (map Some (take k xs))) (map Some (take k xs) @ old @ (map Some (drop (Suc k) xs) @ r)) =
      Inr (map Some (take k xs) @ map Some [x] @ (map Some (drop (Suc k) xs) @ r))"
    using o by (intro copy_cells_raw [OF refl]) simp_all
  moreover have "map Some (take k xs) @ map Some [x] @ (map Some (drop (Suc k) xs) @ r) = map Some (xs[k := x]) @ r"
    using k by (simp add: upd_conv_take_nth_drop)
  ultimately have f1: "fill_cells ty dflt item k 1 (map Some (take k xs) @ old @ (map Some (drop (Suc k) xs) @ r)) = Inr (map Some (xs[k := x]) @ r)"
    using x k by (auto simp: fill_cells_def)
  have "\<exists>H''. change_cells a' (fill_cells ty dflt item k 1) H2 = Inr H'' \<and> held ty v H (map Some (xs[k := x]) @ r) v' H''"
    by (rule held_change [where f = "fill_cells ty dflt item k 1", OF H2(2) f1 _ a']) (use o(2) k in simp)
  then obtain H3 where H3: "change_cells a' (fill_cells ty dflt item k 1) H2 = Inr H3" "held ty v H (map Some (xs[k := x]) @ r) v' H3" by blast
  have "changed ty v H (xs[k := x]) v' H3" using H3(2) e(2,4) v by (auto simp: changed_def vec_ok_def)
  moreover have "replaceAt mem ty dflt item (of_nat k) v H = Inr (int k, v', H3)"
    unfolding replaceAt_def e(1) using a' u H2(1) H3(1) by (simp add: itemLocation_def)
  ultimately show ?thesis by blast
qed

lemma removeItemsAt_ok:
  assumes v: "vec_ok ty H v xs" and m: "\<forall>n. mem n" and k: "k + n \<le> length xs" and f: "fits ty (length xs)" and s: "mStorage v \<noteq> None"
  shows "\<exists>v' H'. removeItemsAt mem ty (of_nat k) (of_nat n) v H = Inr (int k, v', H') \<and> changed ty v H (take k xs @ drop (k + n) xs) v' H'"
proof -
  have b: "length xs < 715827880" using grow_capacity(4) [OF f] by simp
  have "of_nat k + of_nat n = (of_nat (k + n) :: u32)" by simp
  then have idx: "\<not> of_nat k + of_nat n > mCount v" using v of_nat_u32(2) [of "length xs" "k + n"] k b by (simp add: vec_ok_def del: of_nat_add)
  obtain a where a: "mStorage v = Some a" using s by blast
  obtain v' H' rest where e: "shrink mem ty (of_nat k) (of_nat n) v H = Inr (v', H')" "mCount v' = of_nat (length xs - n)"
      "held ty v H (map Some (take k xs @ drop (k + n) xs) @ rest) v' H'" "raw ty rest"
    using shrink_ok [OF v a m k f] by blast
  have "changed ty v H (take k xs @ drop (k + n) xs) v' H'" unfolding changed_def
    using e(2-4) k by (intro conjI exI [where x = rest]) simp_all
  moreover have "sint (of_nat k :: u32) = int k" using k b by (intro sint_of_nat_u32) simp
  ultimately show ?thesis using e(1) idx by (simp add: removeItemsAt_def)
qed

lemma setCapacity_ok:
  assumes v: "vec_ok ty H v xs" and m: "\<forall>n. mem n" and c: "length xs < c" "c < 2147483648" "c * unat (mItemSize ty) + 16 < 4294967296"
    and z: "0 < unat (mItemSize ty)"
  shows "\<exists>v' H'. setCapacity mem ty (of_nat c) v H = Inr (int c, v', H') \<and> changed ty v H xs v' H'"
proof -
  have mc: "mCount v = of_nat (length xs)" using v by (simp add: vec_ok_def)
  have s: "sint (of_nat c - mCount v) = int (c - length xs)" unfolding mc of_nat_diff_u32 [OF less_imp_le [OF c(1)]] using c by (intro sint_of_nat_u32) simp
  have n: "unat (mCount v) = length xs" unfolding mc using c by (intro unat_of_nat_u32) simp
  define d where "d = \<lparr> mRefs = 1, mBytes = of_nat (c * unat (mItemSize ty)), cells = replicate c (None :: 'a option) \<rparr>"
  define d' where "d' = d\<lparr> cells := map Some xs @ replicate (c - length xs) None \<rparr>"
  have al: "SharedBuffer_alloc mem ty (of_nat c * mItemSize ty) H = Some (length H, H @ [Some d])"
    unfolding d_def by (rule alloc_ok [OF m c(3) z])
  have cp: "(case mStorage v of None \<Rightarrow> Inr (H @ [Some d]) | Some a \<Rightarrow> copy_between ty (length H) 0 a 0 (length xs) (H @ [Some d])) = Inr (H @ [Some d'])"
  proof (cases "mStorage v")
    case None
    then show ?thesis using v by (simp add: vec_ok_def d'_def d_def)
  next
    case (Some a)
    have "copy_between ty (length H) (length ([] :: 'a option list)) a 0 (length xs) (H @ [Some d]) =
        Inr (H @ [Some (d\<lparr> cells := [] @ map Some (take (length xs) (drop 0 xs)) @ replicate (c - length xs) None \<rparr>)])"
      by (rule copy_to_new [OF v Some, where old = "replicate (length xs) None"]) (use c in \<open>simp_all add: d_def flip: replicate_add\<close>)
    then show ?thesis using Some by (simp add: d'_def)
  qed
  have rel: "release_storage ty v (H @ [Some d']) = Inr (drop_ref v H @ [Some d'])"
    using release_ok [OF vec_ok_append [OF v]] drop_ref_append [OF v] by metis
  have ok: "buf_ok ty d'" unfolding d'_def d_def SharedBuffer.simps using z c by (intro buf_ok_new) simp_all
  have "held ty v H (map Some xs @ replicate (c - length xs) None) (v\<lparr> mStorage := Some (length H) \<rparr>) (drop_ref v H @ [Some d'])"
    by (rule held_new [OF ok]) (simp_all add: d'_def d_def)
  then have h: "changed ty v H xs (v\<lparr> mStorage := Some (length H) \<rparr>) (drop_ref v H @ [Some d'])"
    unfolding changed_def using mc by auto
  obtain cap where cap: "capacity ty v H = Inr cap" using v by (auto simp: vec_ok_def capacity_def buffer_at_def split: option.splits)
  have "sint (of_nat c :: u32) = int c" using c by (intro sint_of_nat_u32)
  then have "setCapacity mem ty (of_nat c) v H = Inr (int c, v\<lparr> mStorage := Some (length H) \<rparr>, drop_ref v H @ [Some d'])"
    using c(1) unfolding setCapacity_def cap bind_v_simps s al option.case prod.case n cp rel by simp
  then show ?thesis using h by blast
qed

end
