(* ===== verification/Vector_Sharing.thy ===== *)
theory Vector_Sharing
  imports Vector_Impl
begin

text \<open>
  Many vectors that share their buffers. A world is a list of vectors with the heap of their buffers; it represents a list of
  lists when every vector holds its list and every buffer counts the vectors that use it. The operations then do on one list
  what their names say and nothing to the others.
\<close>

subsection \<open>Worlds\<close>

definition users :: "nat \<Rightarrow> VectorImpl list \<Rightarrow> nat" where
  "users a vs = length (filter (\<lambda>v. mStorage v = Some a) vs)"

definition world_ok :: "item_type \<Rightarrow> 'a sb_heap \<Rightarrow> VectorImpl list \<Rightarrow> 'a list list \<Rightarrow> bool" where
  "world_ok ty H vs xss \<longleftrightarrow>
     length vs = length xss \<and> (\<forall>i < length vs. vec_ok ty H (vs ! i) (xss ! i)) \<and>
     (\<forall>a < length H. \<forall>b. H ! a = Some b \<longrightarrow> 0 < users a vs \<and> mRefs b = int (users a vs))"

lemma users_update:
  assumes "i < length vs"
  shows "users a (vs[i := v]) + (if mStorage (vs ! i) = Some a then 1 else 0) = users a vs + (if mStorage v = Some a then 1 else 0)"
proof -
  have app: "users a (us @ w # ws) = users a us + (if mStorage w = Some a then 1 else 0) + users a ws" for us w ws
    by (simp add: users_def)
  have "users a vs = users a (take i vs) + (if mStorage (vs ! i) = Some a then 1 else 0) + users a (drop (Suc i) vs)"
    using app id_take_nth_drop [OF assms] by metis
  moreover have "users a (vs[i := v]) = users a (take i vs) + (if mStorage v = Some a then 1 else 0) + users a (drop (Suc i) vs)"
    using app upd_conv_take_nth_drop [OF assms] by metis
  ultimately show ?thesis by simp
qed

lemma users_pos: "i < length vs \<Longrightarrow> mStorage (vs ! i) = Some a \<Longrightarrow> 0 < users a vs"
  unfolding users_def by (metis (mono_tags, lifting) filter_empty_conv length_greater_0_conv nth_mem)

lemma users_two:
  assumes "i < length vs" "j < length vs" "i \<noteq> j" "mStorage (vs ! i) = Some a" "mStorage (vs ! j) = Some a"
  shows "2 \<le> users a vs"
proof -
  have "0 < users a (vs[i := VectorImpl_new])" using assms users_pos [of j "vs[i := VectorImpl_new]" a] by simp
  then show ?thesis using users_update [OF assms(1), of a VectorImpl_new] assms(4) by (simp add: VectorImpl_new_def)
qed

lemma world_vec: "world_ok ty H vs xss \<Longrightarrow> i < length vs \<Longrightarrow> vec_ok ty H (vs ! i) (xss ! i)"
  by (simp add: world_ok_def)

lemma vec_ok_frame:
  assumes "vec_ok ty H v xs" and "\<And>a. mStorage v = Some a \<Longrightarrow> a < length H' \<and> H' ! a = H ! a"
  shows "vec_ok ty H' v xs"
  using assms by (auto simp: vec_ok_def split: option.splits)

lemma vec_ok_refs:
  assumes "vec_ok ty H v xs" and "mStorage v = Some a" and "H ! a = Some b" and "H' ! a = Some (b\<lparr> mRefs := r \<rparr>)" and "a < length H'"
    and "1 \<le> r" and "r < 2147483648"
  shows "vec_ok ty H' v xs"
  using assms by (auto simp: vec_ok_def buf_ok_def)

lemma vec_buffer:
  assumes "vec_ok ty H v xs" and "mStorage v = Some a"
  shows "a < length H \<and> (\<exists>b. H ! a = Some b \<and> buf_ok ty b)"
  using assms by (auto simp: vec_ok_def)

text \<open>Giving up one reference.\<close>

lemma drop_ref_nth:
  "a < length H \<Longrightarrow> drop_ref v H ! a =
    (if mStorage v = Some a then if mRefs (the (H ! a)) = 1 then None else Some ((the (H ! a))\<lparr> mRefs := mRefs (the (H ! a)) - 1 \<rparr>) else H ! a)"
  by (auto simp: drop_ref_def nth_list_update split: option.split)

lemma drop_ref_others:
  assumes w: "world_ok ty H vs xss" and i: "i < length vs" and j: "j < length vs" "j \<noteq> i"
  shows "vec_ok ty (drop_ref (vs ! i) H) (vs ! j) (xss ! j)"
proof (cases "mStorage (vs ! j) \<noteq> None \<and> mStorage (vs ! i) = mStorage (vs ! j)")
  case True
  then obtain a where a: "mStorage (vs ! i) = Some a" "mStorage (vs ! j) = Some a" by auto
  obtain b where b: "a < length H" "H ! a = Some b" "buf_ok ty b" using vec_okE [OF world_vec [OF w i] a(1)] by metis
  have "mRefs b = int (users a vs)" using w b by (simp add: world_ok_def)
  then have r: "2 \<le> mRefs b" using users_two [OF j(1) i j(2) a(2,1)] by simp
  show ?thesis
    by (rule vec_ok_refs [OF world_vec [OF w j(1)] a(2) b(2), where r = "mRefs b - 1"]) (use a b r in \<open>simp_all add: drop_ref_def buf_ok_def\<close>)
next
  case False
  then have "a < length (drop_ref (vs ! i) H) \<and> drop_ref (vs ! i) H ! a = H ! a" if "mStorage (vs ! j) = Some a" for a
    using that vec_buffer [OF world_vec [OF w j(1)] that] by (simp add: drop_ref_nth)
  then show ?thesis by (rule vec_ok_frame [OF world_vec [OF w j(1)]])
qed

lemma drop_ref_counts:
  assumes w: "world_ok ty H vs xss" and i: "i < length vs" and a: "a < length H" "drop_ref (vs ! i) H ! a = Some b"
  shows "mRefs b = int (users a vs) - (if mStorage (vs ! i) = Some a then 1 else 0)" and "0 < mRefs b"
proof -
  have c: "0 < users a vs \<and> mRefs b' = int (users a vs)" if "H ! a = Some b'" for b' using w a(1) that by (simp add: world_ok_def)
  show "mRefs b = int (users a vs) - (if mStorage (vs ! i) = Some a then 1 else 0)" and "0 < mRefs b"
    using a c vec_buffer [OF world_vec [OF w i]] by (fastforce simp: drop_ref_nth split: if_splits)+
qed

lemma users_fresh: "world_ok ty H vs xss \<Longrightarrow> length H \<le> a \<Longrightarrow> users a vs = 0"
  unfolding users_def using vec_buffer world_vec by (fastforce simp: filter_empty_conv in_set_conv_nth)

lemma held_others:
  assumes w: "world_ok ty H vs xss" and i: "i < length vs" and h: "held ty (vs ! i) H cs v' H'" and j: "j < length vs" "j \<noteq> i"
  shows "vec_ok ty H' (vs ! j) (xss ! j)"
proof -
  consider b' where "H' = drop_ref (vs ! i) H @ [Some b']"
    | a b b' where "mStorage (vs ! i) = Some a" "a < length H" "H ! a = Some b" "mRefs b = 1" "H' = H[a := Some b']"
    using h unfolding held_def by blast
  then show ?thesis
  proof cases
    case 1
    then show ?thesis using vec_ok_append [OF drop_ref_others [OF w i j]] by simp
  next
    case 2
    have "users a vs = 1" using w 2 by (auto simp: world_ok_def)
    then have "mStorage (vs ! j) \<noteq> Some a" using users_two [OF j(1) i j(2) _ 2(1)] by auto
    then show ?thesis using 2(5) vec_buffer [OF world_vec [OF w j(1)]]
      by (intro vec_ok_frame [OF world_vec [OF w j(1)]]) (auto simp: nth_list_update)
  qed
qed

text \<open>An operation that leaves a vector with storage of its own changes nothing else.\<close>

lemma world_changed:
  assumes w: "world_ok ty H vs xss" and i: "i < length vs" and c: "changed ty (vs ! i) H xs v' H'"
  shows "world_ok ty H' (vs[i := v']) (xss[i := xs])"
proof -
  obtain rest where h: "held ty (vs ! i) H (map Some xs @ rest) v' H'" "raw ty rest" "mCount v' = of_nat (length xs)"
    using c unfolding changed_def by blast
  have len: "length vs = length xss" using w by (simp add: world_ok_def)
  have cnt: "0 < users a vs \<and> mRefs b = int (users a vs)" if "a < length H" "H ! a = Some b" for a b using w that by (simp add: world_ok_def)
  obtain b' where b': "buf_ok ty b'" "cells b' = map Some xs @ rest" "mRefs b' = 1"
    and wh: "mStorage v' = Some (length H) \<and> H' = drop_ref (vs ! i) H @ [Some b'] \<or>
       (\<exists>a b. mStorage (vs ! i) = Some a \<and> mStorage v' = Some a \<and> a < length H \<and> H ! a = Some b \<and> mRefs b = 1 \<and> H' = H[a := Some b'])"
    using h(1) unfolding held_def by blast
  have own: "vec_ok ty H' v' xs" using wh b' h(2,3) by (auto simp: vec_ok_def nth_append)
  have vecs: "vec_ok ty H' (vs[i := v'] ! j) (xss[i := xs] ! j)" if "j < length vs" for j
    using own held_others [OF w i h(1) that] that len by (cases "j = i") auto
  have counts: "0 < users a (vs[i := v']) \<and> mRefs b = int (users a (vs[i := v']))" if a: "a < length H'" "H' ! a = Some b" for a b
    using wh
  proof (elim disjE exE conjE)
    assume n: "mStorage v' = Some (length H)" "H' = drop_ref (vs ! i) H @ [Some b']"
    show ?thesis
    proof (cases "a < length H")
      case True
      then have "drop_ref (vs ! i) H ! a = Some b" using a n(2) by (simp add: nth_append)
      then show ?thesis using drop_ref_counts [OF w i True] users_update [OF i, of a v'] n(1) True by (auto split: if_splits)
    next
      case False
      then have "a = length H" "b = b'" using a n(2) by (auto simp: nth_append less_Suc_eq)
      moreover have "mStorage (vs ! i) \<noteq> Some (length H)" using vec_buffer [OF world_vec [OF w i]] by blast
      ultimately show ?thesis using users_update [OF i, of a v'] users_fresh [OF w, of a] n(1) b'(3) by (auto split: if_splits)
    qed
  next
    fix a0 b0
    assume p: "mStorage (vs ! i) = Some a0" "mStorage v' = Some a0" "a0 < length H" "H ! a0 = Some b0" "mRefs b0 = 1" "H' = H[a0 := Some b']"
    have "users a (vs[i := v']) = users a vs" using users_update [OF i, of a v'] p(1,2) by simp
    moreover have "0 < users a vs \<and> mRefs b = int (users a vs)"
      using cnt [OF p(3,4)] cnt [of a b] p(3,5,6) a b'(3) by (cases "a = a0") simp_all
    ultimately show ?thesis by simp
  qed
  show ?thesis unfolding world_ok_def using len vecs counts by simp
qed

lemma world_nothing: "world_ok ty H vs xss \<Longrightarrow> i < length vs \<Longrightarrow> world_ok ty H (vs[i := vs ! i]) (xss[i := xss ! i])"
  by (simp add: world_ok_def)

text \<open>
  The contract that the operations on one vector share: from a vector that holds \<open>xs\<close> the result is \<open>ret xs\<close>, and the vector
  holds \<open>spec xs\<close> in storage of its own, or nothing has changed.
\<close>

locale vector_operation =
  fixes ty :: item_type
    and opn :: "VectorImpl \<Rightarrow> 'a sb_heap \<Rightarrow> vec_fault + int \<times> VectorImpl \<times> 'a sb_heap"
    and pre :: "VectorImpl \<Rightarrow> 'a sb_heap \<Rightarrow> 'a list \<Rightarrow> bool"
    and ret :: "'a list \<Rightarrow> int"
    and spec :: "'a list \<Rightarrow> 'a list"
  assumes contract: "vec_ok ty H v xs \<Longrightarrow> pre v H xs \<Longrightarrow>
    \<exists>v' H'. opn v H = Inr (ret xs, v', H') \<and> (changed ty v H (spec xs) v' H' \<or> v' = v \<and> H' = H \<and> spec xs = xs)"
begin

lemma in_world:
  assumes "world_ok ty H vs xss" and "i < length vs" and "pre (vs ! i) H (xss ! i)"
  shows "\<exists>v' H'. opn (vs ! i) H = Inr (ret (xss ! i), v', H') \<and> world_ok ty H' (vs[i := v']) (xss[i := spec (xss ! i)])"
proof -
  obtain v' H' where r: "opn (vs ! i) H = Inr (ret (xss ! i), v', H')"
      "changed ty (vs ! i) H (spec (xss ! i)) v' H' \<or> v' = vs ! i \<and> H' = H \<and> spec (xss ! i) = xss ! i"
    using contract [OF world_vec [OF assms(1,2)] assms(3)] by blast
  have "world_ok ty H' (vs[i := v']) (xss[i := spec (xss ! i)])"
    using r(2) world_changed [OF assms(1,2)] world_nothing [OF assms(1,2)] by auto
  then show ?thesis using r(1) by blast
qed

end

text \<open>The operations meet the contract, when no allocation fails.\<close>

definition plenty :: "nat \<Rightarrow> bool" where "plenty n = True"

lemma plenty_all: "\<forall>n. plenty n" by (simp add: plenty_def)

definition insert_pre :: "item_type \<Rightarrow> nat \<Rightarrow> nat \<Rightarrow> VectorImpl \<Rightarrow> 'a sb_heap \<Rightarrow> 'a list \<Rightarrow> bool" where
  "insert_pre ty k n v H xs \<longleftrightarrow>
     (k \<le> length xs \<longrightarrow> 0 < n \<and> fits ty (length xs + n) \<and> (k < length xs \<or> \<not> appends_shared n v H))"

lemma count_less: "vec_ok ty H v xs \<Longrightarrow> (index > mCount v) = (length xs < unat index)"
  using vec_length [of ty H v xs] by (simp add: vec_ok_def word_less_nat_alt unat_of_nat_u32)

interpretation insert_op: vector_operation ty "insertAt plenty ty dflt (Some x) index n" "insert_pre ty (unat index) (unat n)"
  "\<lambda>xs. if length xs < unat index then BAD_INDEX else sint index"
  "\<lambda>xs. if length xs < unat index then xs else take (unat index) xs @ replicate (unat n) x @ drop (unat index) xs"
proof unfold_locales
  fix H :: "'a sb_heap" and v and xs :: "'a list"
  assume v: "vec_ok ty H v xs" and p: "insert_pre ty (unat index) (unat n) v H xs"
  show "\<exists>v' H'. insertAt plenty ty dflt (Some x) index n v H = Inr (if length xs < unat index then BAD_INDEX else sint index, v', H') \<and>
    (changed ty v H (if length xs < unat index then xs else take (unat index) xs @ replicate (unat n) x @ drop (unat index) xs) v' H' \<or>
     v' = v \<and> H' = H \<and> (if length xs < unat index then xs else take (unat index) xs @ replicate (unat n) x @ drop (unat index) xs) = xs)"
  proof (cases "length xs < unat index")
    case True
    then show ?thesis using count_less [OF v] by (simp add: insertAt_def)
  next
    case False
    then have f: "fits ty (length xs + unat n)" using p by (simp add: insert_pre_def)
    have "sint (of_nat (unat index) :: u32) = int (unat index)" using grow_capacity(4) [OF f] False by (intro sint_of_nat_u32) simp
    then show ?thesis using insertAt_ok [OF v plenty_all _ _ f, of "unat index" "Some x" x dflt] p False by (simp add: insert_pre_def not_less) blast
  qed
qed

definition replace_pre :: "nat \<Rightarrow> VectorImpl \<Rightarrow> 'a sb_heap \<Rightarrow> 'a list \<Rightarrow> bool" where
  "replace_pre k v H xs \<longleftrightarrow> k < length xs \<and> k < 2147483648"

interpretation replace_op: vector_operation ty "replaceAt plenty ty dflt (Some x) index" "replace_pre (unat index)" "\<lambda>xs. sint index" "\<lambda>xs. xs[unat index := x]"
proof unfold_locales
  fix H :: "'a sb_heap" and v and xs :: "'a list"
  assume v: "vec_ok ty H v xs" and p: "replace_pre (unat index) v H xs"
  have "sint (of_nat (unat index) :: u32) = int (unat index)" using p by (intro sint_of_nat_u32) (simp add: replace_pre_def)
  then show "\<exists>v' H'. replaceAt plenty ty dflt (Some x) index v H = Inr (sint index, v', H') \<and>
    (changed ty v H (xs[unat index := x]) v' H' \<or> v' = v \<and> H' = H \<and> xs[unat index := x] = xs)"
    using replaceAt_ok [OF v plenty_all, of "unat index" "Some x" x dflt] p by (auto simp: replace_pre_def)
qed

definition remove_pre :: "item_type \<Rightarrow> nat \<Rightarrow> nat \<Rightarrow> VectorImpl \<Rightarrow> 'a sb_heap \<Rightarrow> 'a list \<Rightarrow> bool" where
  "remove_pre ty k n v H xs \<longleftrightarrow> k + n < 4294967296 \<and> (k + n \<le> length xs \<longrightarrow> fits ty (length xs))"

interpretation remove_op: vector_operation ty "removeItemsAt plenty ty index n" "remove_pre ty (unat index) (unat n)"
  "\<lambda>xs. if length xs < unat index + unat n then BAD_VALUE else sint index"
  "\<lambda>xs. if length xs < unat index + unat n then xs else take (unat index) xs @ drop (unat index + unat n) xs"
proof unfold_locales
  fix H :: "'a sb_heap" and v and xs :: "'a list"
  assume v: "vec_ok ty H v xs" and p: "remove_pre ty (unat index) (unat n) v H xs"
  have u: "unat (index + n) = unat index + unat n" using p by (intro unat_add_small) (simp add: remove_pre_def)
  have "\<exists>v' H'. removeItemsAt plenty ty index n v H = Inr (sint index, v', H') \<and>
    (changed ty v H (take (unat index) xs @ drop (unat index + unat n) xs) v' H' \<or> v' = v \<and> H' = H \<and> take (unat index) xs @ drop (unat index + unat n) xs = xs)"
    if l: "unat index + unat n \<le> length xs"
  proof (cases "mStorage v")
    case None
    then show ?thesis using v l count_less [OF v, of "index + n"] u by (simp add: vec_ok_def removeItemsAt_def shrink_def)
  next
    case (Some a)
    have f: "fits ty (length xs)" using p l by (simp add: remove_pre_def)
    have "sint (of_nat (unat index) :: u32) = int (unat index)" using grow_capacity(4) [OF f] l by (intro sint_of_nat_u32) simp
    then show ?thesis using removeItemsAt_ok [OF v plenty_all l f] Some by auto
  qed
  then show "\<exists>v' H'. removeItemsAt plenty ty index n v H = Inr (if length xs < unat index + unat n then BAD_VALUE else sint index, v', H') \<and>
    (changed ty v H (if length xs < unat index + unat n then xs else take (unat index) xs @ drop (unat index + unat n) xs) v' H' \<or>
     v' = v \<and> H' = H \<and> (if length xs < unat index + unat n then xs else take (unat index) xs @ drop (unat index + unat n) xs) = xs)"
    using count_less [OF v, of "index + n"] u by (cases "length xs < unat index + unat n") (auto simp: removeItemsAt_def)
qed

definition shrink_pre :: "item_type \<Rightarrow> VectorImpl \<Rightarrow> 'a sb_heap \<Rightarrow> 'a list \<Rightarrow> bool" where
  "shrink_pre ty v H xs \<longleftrightarrow> fits ty (length xs)"

interpretation pop_op: vector_operation ty "\<lambda>v H. map_sum id (Pair 0) (pop plenty ty v H)" "shrink_pre ty" "\<lambda>xs. 0" butlast
proof unfold_locales
  fix H :: "'a sb_heap" and v and xs :: "'a list"
  assume v: "vec_ok ty H v xs" and p: "shrink_pre ty v H xs"
  have n: "unat (mCount v) = length xs" using v vec_length [OF v] by (simp add: vec_ok_def unat_of_nat_u32)
  show "\<exists>v' H'. map_sum id (Pair 0) (pop plenty ty v H) = Inr (0, v', H') \<and> (changed ty v H (butlast xs) v' H' \<or> v' = v \<and> H' = H \<and> butlast xs = xs)"
  proof (cases "xs = []")
    case True
    then show ?thesis using v by (auto simp: pop_def vec_ok_def)
  next
    case False
    then have m: "mCount v \<noteq> 0" using n by auto
    have i: "unat (mCount v - 1) = length xs - 1" "unat (1 :: u32) = 1" using unat_pred_u32 [OF m] n by simp_all
    have e: "\<not> length xs < unat (mCount v - 1) + unat (1 :: u32)" "remove_pre ty (unat (mCount v - 1)) (unat (1 :: u32)) v H xs"
      using False p vec_length [OF v] i by (auto simp: shrink_pre_def remove_pre_def)
    have b: "take (unat (mCount v - 1)) xs @ drop (unat (mCount v - 1) + unat (1 :: u32)) xs = butlast xs"
      using False i by (simp add: butlast_conv_take)
    show ?thesis using remove_op.contract [OF v e(2)] e(1) m unfolding b by (auto simp: pop_def)
  qed
qed

interpretation clear_op: vector_operation ty "\<lambda>v H. map_sum id (Pair 0) (vector_clear plenty ty v H)" "shrink_pre ty" "\<lambda>xs. 0" "\<lambda>xs. []"
proof unfold_locales
  fix H :: "'a sb_heap" and v and xs :: "'a list"
  assume v: "vec_ok ty H v xs" and p: "shrink_pre ty v H xs"
  have c: "mCount v = of_nat (length xs)" using v by (simp add: vec_ok_def)
  show "\<exists>v' H'. map_sum id (Pair 0) (vector_clear plenty ty v H) = Inr (0, v', H') \<and> (changed ty v H [] v' H' \<or> v' = v \<and> H' = H \<and> [] = xs)"
  proof (cases "mStorage v")
    case None
    then show ?thesis using v by (simp add: vec_ok_def vector_clear_def shrink_def)
  next
    case (Some a)
    have f: "fits ty (length xs)" using p by (simp add: shrink_pre_def)
    show ?thesis using shrink_ok [OF v Some plenty_all _ f, of 0 "length xs"] c by (auto simp: vector_clear_def changed_def)
  qed
qed

definition capacity_pre :: "item_type \<Rightarrow> nat \<Rightarrow> VectorImpl \<Rightarrow> 'a sb_heap \<Rightarrow> 'a list \<Rightarrow> bool" where
  "capacity_pre ty c v H xs \<longleftrightarrow>
     length xs < c \<and> c < 2147483648 \<and> c * unat (mItemSize ty) + 16 < 4294967296 \<and> 0 < unat (mItemSize ty)"

interpretation capacity_op: vector_operation ty "setCapacity plenty ty c" "capacity_pre ty (unat c)" "\<lambda>xs. sint c" "\<lambda>xs. xs"
proof unfold_locales
  fix H :: "'a sb_heap" and v and xs :: "'a list"
  assume v: "vec_ok ty H v xs" and p: "capacity_pre ty (unat c) v H xs"
  have "sint (of_nat (unat c) :: u32) = int (unat c)" using p by (intro sint_of_nat_u32) (simp add: capacity_pre_def)
  then show "\<exists>v' H'. setCapacity plenty ty c v H = Inr (sint c, v', H') \<and> (changed ty v H xs v' H' \<or> v' = v \<and> H' = H \<and> xs = xs)"
    using setCapacity_ok [OF v plenty_all, of "unat c"] p by (auto simp: capacity_pre_def)
qed

subsection \<open>Sharing and giving up\<close>

lemma world_new: "world_ok ty H vs xss \<Longrightarrow> world_ok ty H (vs @ [VectorImpl_new]) (xss @ [[]])"
  by (auto simp: world_ok_def nth_append less_Suc_eq vec_ok_def VectorImpl_new_def users_def)

lemma VectorImpl_cleared: "v\<lparr> mStorage := None, mCount := 0 \<rparr> = VectorImpl_new"
  by (simp add: VectorImpl_new_def)

lemma users_append: "users a (vs @ [v]) = users a vs + (if mStorage v = Some a then 1 else 0)"
  by (simp add: users_def)

lemma users_le: "users a vs \<le> length vs"
  by (simp add: users_def)

lemma world_length: "world_ok ty H vs xss \<Longrightarrow> length vs = length xss"
  by (simp add: world_ok_def)

lemma world_okI:
  assumes "length vs = length xss" and "\<And>j. j < length vs \<Longrightarrow> vec_ok ty H (vs ! j) (xss ! j)"
    and "\<And>a b. a < length H \<Longrightarrow> H ! a = Some b \<Longrightarrow> 0 < users a vs \<and> mRefs b = int (users a vs)"
  shows "world_ok ty H vs xss"
  unfolding world_ok_def using assms by blast

lemma world_snoc:
  assumes "length vs = length xss" and "\<And>j. j < length vs \<Longrightarrow> vec_ok ty H (vs ! j) (xss ! j)" and "vec_ok ty H v xs"
    and "\<And>a b. a < length H \<Longrightarrow> H ! a = Some b \<Longrightarrow> 0 < users a (vs @ [v]) \<and> mRefs b = int (users a (vs @ [v]))"
  shows "world_ok ty H (vs @ [v]) (xss @ [xs])"
proof -
  have "vec_ok ty H ((vs @ [v]) ! j) ((xss @ [xs]) ! j)" if "j < Suc (length vs)" for j
    using that assms(1-3) by (cases "j = length vs") (simp_all add: nth_append)
  then show ?thesis using assms(1,4) unfolding world_ok_def by simp
qed

lemma acquire_ok:
  assumes w: "world_ok ty H vs xss" and i: "i < length vs" and a: "mStorage (vs ! i) = Some a" and n: "length vs < 2147483647"
  shows "\<exists>b. H ! a = Some b \<and> SharedBuffer_acquire a H = Inr (H[a := Some (b\<lparr> mRefs := mRefs b + 1 \<rparr>)]) \<and> mRefs b + 1 < 2147483648"
proof -
  obtain b where b: "a < length H" "H ! a = Some b" "buf_ok ty b" using vec_buffer [OF world_vec [OF w i] a] by blast
  have r: "mRefs b = int (users a vs)" using w b by (simp add: world_ok_def)
  then have l: "mRefs b + 1 < 2147483648" using users_le [of a vs] n by simp
  then have "s32 (mRefs b + 1) = mRefs b + 1" using r by (intro s32_id) (simp add: in_s32_def INT_MIN_def INT_MAX_def)
  then show ?thesis using b l by (simp add: SharedBuffer_acquire_def buffer_at_def)
qed

lemma vec_ok_acquired:
  assumes v: "vec_ok ty H v xs" and a: "a < length H" "H ! a = Some b" "mRefs b + 1 < 2147483648" "0 < mRefs b"
  shows "vec_ok ty (H[a := Some (b\<lparr> mRefs := mRefs b + 1 \<rparr>)]) v xs"
proof (cases "mStorage v = Some a")
  case True
  show ?thesis by (rule vec_ok_refs [OF v True a(2), where r = "mRefs b + 1"]) (use a in simp_all)
next
  case False
  show ?thesis by (rule vec_ok_frame [OF v]) (use False vec_buffer [OF v] in auto)
qed

lemma acquired_counts:
  assumes "a < length H" and "H[a := Some (b\<lparr> mRefs := mRefs b + 1 \<rparr>)] ! a' = Some b'"
  obtains "a' = a" "mRefs b' = mRefs b + 1" | "a' \<noteq> a" "H ! a' = Some b'"
  using assms by (cases "a' = a") auto

lemma world_copy:
  assumes w: "world_ok ty H vs xss" and i: "i < length vs" and n: "length vs < 2147483647"
  shows "\<exists>H'. VectorImpl_copy (vs ! i) H = Inr (vs ! i, H') \<and> world_ok ty H' (vs @ [vs ! i]) (xss @ [xss ! i])"
proof (cases "mStorage (vs ! i)")
  case None
  then show ?thesis using w i by (auto simp: VectorImpl_copy_def world_ok_def nth_append less_Suc_eq users_append)
next
  case (Some a)
  obtain b where b: "H ! a = Some b" "SharedBuffer_acquire a H = Inr (H[a := Some (b\<lparr> mRefs := mRefs b + 1 \<rparr>)])" "mRefs b + 1 < 2147483648"
    using acquire_ok [OF w i Some n] by blast
  have l: "a < length H" using vec_buffer [OF world_vec [OF w i] Some] by blast
  have c: "0 < users a' vs \<and> mRefs b' = int (users a' vs)" if "a' < length H" "H ! a' = Some b'" for a' b' using w that by (simp add: world_ok_def)
  have ok: "vec_ok ty (H[a := Some (b\<lparr> mRefs := mRefs b + 1 \<rparr>)]) (vs ! j) (xss ! j)" if "j < length vs" for j
    using world_vec [OF w that] c [OF l b(1)] by (intro vec_ok_acquired l b) auto
  have cnt: "0 < users a' (vs @ [vs ! i]) \<and> mRefs b' = int (users a' (vs @ [vs ! i]))"
    if "a' < length H" "H[a := Some (b\<lparr> mRefs := mRefs b + 1 \<rparr>)] ! a' = Some b'" for a' b'
    using that(1) c [OF l b(1)] c [of a' b'] Some by (cases rule: acquired_counts [OF l that(2)]) (simp_all add: users_append)
  have "world_ok ty (H[a := Some (b\<lparr> mRefs := mRefs b + 1 \<rparr>)]) (vs @ [vs ! i]) (xss @ [xss ! i])"
    by (rule world_snoc [OF world_length [OF w] ok ok [OF i] cnt]) (simp_all only: length_list_update)
  then show ?thesis using Some b(2) by (simp add: VectorImpl_copy_def)
qed

lemma world_finish:
  assumes w: "world_ok ty H vs xss" and i: "i < length vs"
  shows "finish_vector ty (vs ! i) H = Inr (VectorImpl_new, drop_ref (vs ! i) H)"
    and "world_ok ty (drop_ref (vs ! i) H) (vs[i := VectorImpl_new]) (xss[i := []])"
proof -
  show "finish_vector ty (vs ! i) H = Inr (VectorImpl_new, drop_ref (vs ! i) H)"
    using release_ok [OF world_vec [OF w i]] by (simp add: finish_vector_def VectorImpl_new_def)
  have "0 < users a (vs[i := VectorImpl_new]) \<and> mRefs b = int (users a (vs[i := VectorImpl_new]))"
    if "a < length H" "drop_ref (vs ! i) H ! a = Some b" for a b
    using drop_ref_counts [OF w i that] users_update [OF i, of a VectorImpl_new] by (auto simp: VectorImpl_new_def split: if_splits)
  moreover have "vec_ok ty (drop_ref (vs ! i) H) (vs[i := VectorImpl_new] ! j) (xss[i := []] ! j)" if "j < length vs" for j
    using drop_ref_others [OF w i that] that w by (cases "j = i") (auto simp: vec_ok_def VectorImpl_new_def world_ok_def)
  ultimately show "world_ok ty (drop_ref (vs ! i) H) (vs[i := VectorImpl_new]) (xss[i := []])"
    using w by (simp add: world_ok_def)
qed

lemma world_assign:
  assumes w: "world_ok ty H vs xss" and i: "i < length vs" and j: "j < length vs" "j \<noteq> i" and n: "length vs < 2147483647"
  shows "\<exists>v' H'. VectorImpl_assign ty (vs ! i) (vs ! j) H = Inr (v', H') \<and> world_ok ty H' (vs[i := v']) (xss[i := xss ! j])"
proof -
  let ?H = "drop_ref (vs ! i) H" and ?vs = "vs[i := VectorImpl_new]" and ?xss = "xss[i := []]"
  have w1: "world_ok ty ?H ?vs ?xss" by (rule world_finish(2) [OF w i])
  have rel: "release_storage ty (vs ! i) H = Inr ?H" by (rule release_ok [OF world_vec [OF w i]])
  have vj: "vec_ok ty H (vs ! j) (xss ! j)" by (rule world_vec [OF w j(1)])
  have nz: "unat (mCount (vs ! j)) = length (xss ! j)" using vj vec_length [OF vj] by (simp add: vec_ok_def unat_of_nat_u32)
  show ?thesis
  proof (cases "mCount (vs ! j) = 0")
    case True
    then have "xss ! j = []" using nz by simp
    then show ?thesis using w1 rel True by (simp add: VectorImpl_assign_def VectorImpl_cleared)
  next
    case False
    then obtain a where a: "mStorage (vs ! j) = Some a" using vj by (cases "mStorage (vs ! j)") (auto simp: vec_ok_def)
    have a1: "mStorage (?vs ! j) = Some a" using a j by simp
    obtain b where b: "?H ! a = Some b" "SharedBuffer_acquire a ?H = Inr (?H[a := Some (b\<lparr> mRefs := mRefs b + 1 \<rparr>)])" "mRefs b + 1 < 2147483648"
      using acquire_ok [OF w1 _ a1] j n by auto
    let ?H2 = "?H[a := Some (b\<lparr> mRefs := mRefs b + 1 \<rparr>)]"
    have l: "a < length ?H" using vec_buffer [OF world_vec [OF w1, of j] a1] j by simp
    have c: "0 < users a' ?vs \<and> mRefs b' = int (users a' ?vs)" if "a' < length ?H" "?H ! a' = Some b'" for a' b' using w1 that by (simp add: world_ok_def)
    have ok: "vec_ok ty ?H2 (?vs ! k) (?xss ! k)" if "k < length vs" for k
      using world_vec [OF w1, of k] c [OF l b(1)] that by (intro vec_ok_acquired l b) auto
    have ok2: "vec_ok ty ?H2 (vs[i := vs ! j] ! k) (xss[i := xss ! j] ! k)" if "k < length vs" for k
      using ok [OF that] ok [OF j(1)] that j world_length [OF w] by (cases "k = i") auto
    have cnt: "0 < users a' (vs[i := vs ! j]) \<and> mRefs b' = int (users a' (vs[i := vs ! j]))"
      if "a' < length ?H" "?H2 ! a' = Some b'" for a' b'
      using that(1) c [OF l b(1)] c [of a' b'] users_update [of i ?vs a' "vs ! j"] i a
      by (cases rule: acquired_counts [OF l that(2)]) (simp_all add: VectorImpl_new_def)
    have "world_ok ty ?H2 (vs[i := vs ! j]) (xss[i := xss ! j])"
      by (rule world_okI [OF _ ok2 cnt]) (simp_all only: length_list_update world_length [OF w])
    then show ?thesis using a b(2) rel False by (auto simp: VectorImpl_assign_def)
  qed
qed

lemma copy_between_change:
  assumes "vec_ok ty H w ys" and "mStorage w = Some s"
  shows "copy_between ty a k s 0 (length ys) H = change_cells a (copy_cells ty (map Some ys) k) H"
proof -
  obtain b rest where "s < length H" "H ! s = Some b" "cells b = map Some ys @ rest" using vec_okE [OF assms] by metis
  then show ?thesis by (simp add: copy_between_def change_cells_def buffer_at_def get_cells_def)
qed

lemma world_insertVector:
  assumes w: "world_ok ty H vs xss" and i: "i < length vs" and j: "j < length vs" "j \<noteq> i" and ne: "xss ! j \<noteq> []"
    and p: "insert_pre ty (unat index) (length (xss ! j)) (vs ! i) H (xss ! i)"
  shows "\<exists>v' H'. insertVectorAt plenty ty (vs ! j) index (vs ! i) H =
      Inr (if length (xss ! i) < unat index then BAD_INDEX else sint index, v', H') \<and>
    world_ok ty H' (vs[i := v'])
      (if length (xss ! i) < unat index then xss
       else xss[i := take (unat index) (xss ! i) @ xss ! j @ drop (unat index) (xss ! i)])"
proof (cases "length (xss ! i) < unat index")
  case True
  then show ?thesis using count_less [OF world_vec [OF w i], of index] w world_nothing [OF w i] by (simp add: insertVectorAt_def)
next
  case False
  have vi: "vec_ok ty H (vs ! i) (xss ! i)" and vj: "vec_ok ty H (vs ! j) (xss ! j)" using world_vec [OF w] i j by simp_all
  have k: "unat index \<le> length (xss ! i)" using False by simp
  have f: "fits ty (length (xss ! i) + length (xss ! j))" and al: "unat index < length (xss ! i) \<or> \<not> appends_shared (length (xss ! j)) (vs ! i) H"
    using p k by (simp_all add: insert_pre_def)
  have mj: "mCount (vs ! j) = of_nat (length (xss ! j))" "unat (mCount (vs ! j)) = length (xss ! j)"
    using vj vec_length [OF vj] by (simp_all add: vec_ok_def unat_of_nat_u32)
  obtain a v' H' cs where g: "grow plenty ty index (mCount (vs ! j)) (vs ! i) H = Inr (Some (a, unat index), v', H')" "mStorage v' = Some a"
      "mCount v' = of_nat (length (xss ! i) + length (xss ! j))" "held ty (vs ! i) H cs v' H'" "gapped ty (xss ! i) (unat index) (length (xss ! j)) cs"
    using grow_ok [OF vi plenty_all k _ f al] ne mj(1) by auto
  obtain s where s: "mStorage (vs ! j) = Some s" using storage_of [OF vj ne] by blast
  obtain H'' where c: "change_cells a (copy_cells ty (map Some (xss ! j)) (unat index)) H' = Inr H''"
      "changed ty (vs ! i) H (take (unat index) (xss ! i) @ xss ! j @ drop (unat index) (xss ! i)) v' H''"
    using gap_filled [OF g(5,4,2,3) k refl] by blast
  have "insertVectorAt plenty ty (vs ! j) index (vs ! i) H = Inr (sint index, v', H'')"
    using count_less [OF vi, of index] False g(1) s mj(2) copy_between_change [OF held_others [OF w i g(4) j] s] c(1)
    by (simp add: insertVectorAt_def)
  then show ?thesis using world_changed [OF w i c(2)] False by simp
qed

subsection \<open>Sequences of operations\<close>

datatype 'a vec_op =
    NewVector
  | CopyVector nat
  | Assign nat nat
  | InsertAt nat 'a u32 u32
  | InsertVectorAt nat nat u32
  | ReplaceAt nat 'a u32
  | RemoveItemsAt nat u32 u32
  | Pop nat
  | Clear nat
  | SetCapacity nat u32
  | Finish nat

definition on_vector :: "nat \<Rightarrow> (VectorImpl \<Rightarrow> 'a sb_heap \<Rightarrow> vec_fault + int \<times> VectorImpl \<times> 'a sb_heap) \<Rightarrow>
    VectorImpl list \<Rightarrow> 'a sb_heap \<Rightarrow> vec_fault + int \<times> VectorImpl list \<times> 'a sb_heap" where
  "on_vector i f vs H = bind_v (f (vs ! i) H) (\<lambda>(r, v, H). Inr (r, vs[i := v], H))"

fun exec_op :: "(nat \<Rightarrow> bool) \<Rightarrow> item_type \<Rightarrow> 'a vec_op \<Rightarrow> VectorImpl list \<Rightarrow> 'a sb_heap \<Rightarrow> vec_fault + int \<times> VectorImpl list \<times> 'a sb_heap" where
  "exec_op mem ty NewVector vs H = Inr (0, vs @ [VectorImpl_new], H)"
| "exec_op mem ty (CopyVector i) vs H = bind_v (VectorImpl_copy (vs ! i) H) (\<lambda>(v, H). Inr (0, vs @ [v], H))"
| "exec_op mem ty (Assign i j) vs H =
     (if i = j then Inr (0, vs, H) else on_vector i (\<lambda>v H. map_sum id (Pair 0) (VectorImpl_assign ty v (vs ! j) H)) vs H)"
| "exec_op mem ty (InsertAt i x k n) vs H = on_vector i (insertAt mem ty x (Some x) k n) vs H"
| "exec_op mem ty (InsertVectorAt i j k) vs H = on_vector i (insertVectorAt mem ty (vs ! j) k) vs H"
| "exec_op mem ty (ReplaceAt i x k) vs H = on_vector i (replaceAt mem ty x (Some x) k) vs H"
| "exec_op mem ty (RemoveItemsAt i k n) vs H = on_vector i (removeItemsAt mem ty k n) vs H"
| "exec_op mem ty (Pop i) vs H = on_vector i (\<lambda>v H. map_sum id (Pair 0) (pop mem ty v H)) vs H"
| "exec_op mem ty (Clear i) vs H = on_vector i (\<lambda>v H. map_sum id (Pair 0) (vector_clear mem ty v H)) vs H"
| "exec_op mem ty (SetCapacity i c) vs H = on_vector i (setCapacity mem ty c) vs H"
| "exec_op mem ty (Finish i) vs H = on_vector i (\<lambda>v H. map_sum id (Pair 0) (finish_vector ty v H)) vs H"

text \<open>What the operations mean: lists that share nothing.\<close>

fun spec_op :: "'a vec_op \<Rightarrow> 'a list list \<Rightarrow> int \<times> 'a list list" where
  "spec_op NewVector xss = (0, xss @ [[]])"
| "spec_op (CopyVector i) xss = (0, xss @ [xss ! i])"
| "spec_op (Assign i j) xss = (0, xss[i := xss ! j])"
| "spec_op (InsertAt i x k n) xss =
     (let xs = xss ! i in
      if length xs < unat k then (BAD_INDEX, xss) else (sint k, xss[i := take (unat k) xs @ replicate (unat n) x @ drop (unat k) xs]))"
| "spec_op (InsertVectorAt i j k) xss =
     (let xs = xss ! i in
      if length xs < unat k then (BAD_INDEX, xss) else (sint k, xss[i := take (unat k) xs @ xss ! j @ drop (unat k) xs]))"
| "spec_op (ReplaceAt i x k) xss = (sint k, xss[i := (xss ! i)[unat k := x]])"
| "spec_op (RemoveItemsAt i k n) xss =
     (let xs = xss ! i in
      if length xs < unat k + unat n then (BAD_VALUE, xss) else (sint k, xss[i := take (unat k) xs @ drop (unat k + unat n) xs]))"
| "spec_op (Pop i) xss = (0, xss[i := butlast (xss ! i)])"
| "spec_op (Clear i) xss = (0, xss[i := []])"
| "spec_op (SetCapacity i c) xss = (sint c, xss)"
| "spec_op (Finish i) xss = (0, xss[i := []])"

text \<open>
  When they do: the indices are those of vectors, sizes do not overflow, something is inserted, a vector is not inserted into
  itself, and nothing is appended in place to storage that another vector shares.
\<close>

fun legal_op :: "item_type \<Rightarrow> 'a vec_op \<Rightarrow> VectorImpl list \<Rightarrow> 'a sb_heap \<Rightarrow> 'a list list \<Rightarrow> bool" where
  "legal_op ty NewVector vs H xss \<longleftrightarrow> True"
| "legal_op ty (CopyVector i) vs H xss \<longleftrightarrow> i < length vs \<and> length vs < 2147483647"
| "legal_op ty (Assign i j) vs H xss \<longleftrightarrow> i < length vs \<and> j < length vs \<and> length vs < 2147483647"
| "legal_op ty (InsertAt i x k n) vs H xss \<longleftrightarrow> i < length vs \<and> insert_pre ty (unat k) (unat n) (vs ! i) H (xss ! i)"
| "legal_op ty (InsertVectorAt i j k) vs H xss \<longleftrightarrow>
     i < length vs \<and> j < length vs \<and> j \<noteq> i \<and> xss ! j \<noteq> [] \<and> insert_pre ty (unat k) (length (xss ! j)) (vs ! i) H (xss ! i)"
| "legal_op ty (ReplaceAt i x k) vs H xss \<longleftrightarrow> i < length vs \<and> replace_pre (unat k) (vs ! i) H (xss ! i)"
| "legal_op ty (RemoveItemsAt i k n) vs H xss \<longleftrightarrow> i < length vs \<and> remove_pre ty (unat k) (unat n) (vs ! i) H (xss ! i)"
| "legal_op ty (Pop i) vs H xss \<longleftrightarrow> i < length vs \<and> shrink_pre ty (vs ! i) H (xss ! i)"
| "legal_op ty (Clear i) vs H xss \<longleftrightarrow> i < length vs \<and> shrink_pre ty (vs ! i) H (xss ! i)"
| "legal_op ty (SetCapacity i c) vs H xss \<longleftrightarrow> i < length vs \<and> capacity_pre ty (unat c) (vs ! i) H (xss ! i)"
| "legal_op ty (Finish i) vs H xss \<longleftrightarrow> i < length vs"

lemma exec_op_ok:
  assumes w: "world_ok ty H vs xss" and l: "legal_op ty p vs H xss"
  shows "\<exists>vs' H'. exec_op plenty ty p vs H = Inr (fst (spec_op p xss), vs', H') \<and> world_ok ty H' vs' (snd (spec_op p xss))"
proof (cases p)
  case NewVector
  then show ?thesis using world_new [OF w] by simp
next
  case (CopyVector i)
  then show ?thesis using world_copy [OF w] l by fastforce
next
  case (Assign i j)
  then show ?thesis using world_assign [OF w, of i j] world_nothing [OF w, of i] w l by (cases "i = j") (auto simp: on_vector_def)
next
  case (InsertAt i x k n)
  then show ?thesis using insert_op.in_world [OF w, where i = i and index = k and n = n and x = x and dflt = x] l
    by (auto simp: on_vector_def Let_def split: if_splits)
next
  case (InsertVectorAt i j k)
  then show ?thesis using world_insertVector [OF w, where i = i and j = j and index = k] l
    by (auto simp: on_vector_def Let_def split: if_splits)
next
  case (ReplaceAt i x k)
  then show ?thesis using replace_op.in_world [OF w, where i = i and index = k and x = x and dflt = x] l by (auto simp: on_vector_def)
next
  case (RemoveItemsAt i k n)
  then show ?thesis using remove_op.in_world [OF w, where i = i and index = k and n = n] l by (auto simp: on_vector_def Let_def split: if_splits)
next
  case (Pop i)
  then show ?thesis using pop_op.in_world [OF w, where i = i] l by (auto simp: on_vector_def)
next
  case (Clear i)
  then show ?thesis using clear_op.in_world [OF w, where i = i] l by (auto simp: on_vector_def)
next
  case (SetCapacity i c)
  then show ?thesis using capacity_op.in_world [OF w, where i = i and c = c] l by (auto simp: on_vector_def)
next
  case (Finish i)
  then show ?thesis using world_finish [OF w, of i] l by (auto simp: on_vector_def)
qed

fun run_ops :: "(nat \<Rightarrow> bool) \<Rightarrow> item_type \<Rightarrow> 'a vec_op list \<Rightarrow> VectorImpl list \<Rightarrow> 'a sb_heap \<Rightarrow> vec_fault + int list \<times> VectorImpl list \<times> 'a sb_heap" where
  "run_ops mem ty [] vs H = Inr ([], vs, H)"
| "run_ops mem ty (p # ps) vs H =
     bind_v (exec_op mem ty p vs H) (\<lambda>(r, vs, H). bind_v (run_ops mem ty ps vs H) (\<lambda>(rs, vs, H). Inr (r # rs, vs, H)))"

fun spec_run :: "'a vec_op list \<Rightarrow> 'a list list \<Rightarrow> int list \<times> 'a list list" where
  "spec_run [] xss = ([], xss)"
| "spec_run (p # ps) xss = (let (r, xss) = spec_op p xss; (rs, xss) = spec_run ps xss in (r # rs, xss))"

fun legal_run :: "item_type \<Rightarrow> 'a vec_op list \<Rightarrow> VectorImpl list \<Rightarrow> 'a sb_heap \<Rightarrow> 'a list list \<Rightarrow> bool" where
  "legal_run ty [] vs H xss \<longleftrightarrow> True"
| "legal_run ty (p # ps) vs H xss \<longleftrightarrow>
     legal_op ty p vs H xss \<and>
     (case exec_op plenty ty p vs H of Inl _ \<Rightarrow> True | Inr (_, vs', H') \<Rightarrow> legal_run ty ps vs' H' (snd (spec_op p xss)))"

text \<open>The items of a vector, as \<open>array()\<close> and \<open>size()\<close> show them.\<close>

definition contents :: "'a sb_heap \<Rightarrow> VectorImpl \<Rightarrow> 'a list" where
  "contents H v = (case mStorage v of None \<Rightarrow> [] | Some a \<Rightarrow> map the (take (unat (mCount v)) (cells (the (H ! a)))))"

lemma contents_ok:
  assumes v: "vec_ok ty H v xs"
  shows "contents H v = xs"
proof (cases "mStorage v")
  case None
  then show ?thesis using v by (simp add: vec_ok_def contents_def)
next
  case (Some a)
  obtain b rest where "H ! a = Some b" "cells b = map Some xs @ rest" "mCount v = of_nat (length xs)" using vec_okE [OF v Some] by metis
  then show ?thesis using Some vec_length [OF v] by (simp add: contents_def unat_of_nat_u32 comp_def)
qed

lemma run_ops_ok:
  "world_ok ty H vs xss \<Longrightarrow> legal_run ty ps vs H xss \<Longrightarrow>
    \<exists>vs' H'. run_ops plenty ty ps vs H = Inr (fst (spec_run ps xss), vs', H') \<and> world_ok ty H' vs' (snd (spec_run ps xss))"
proof (induction ps arbitrary: H vs xss)
  case (Cons p ps)
  obtain vs1 H1 where e: "exec_op plenty ty p vs H = Inr (fst (spec_op p xss), vs1, H1)" "world_ok ty H1 vs1 (snd (spec_op p xss))"
    using exec_op_ok [OF Cons.prems(1), of p] Cons.prems(2) by auto
  have "legal_run ty ps vs1 H1 (snd (spec_op p xss))" using Cons.prems(2) e(1) by simp
  from Cons.IH [OF e(2) this] show ?case using e(1) by (auto simp: split_beta Let_def)
qed simp

lemma world_contents: "world_ok ty H vs xss \<Longrightarrow> map (contents H) vs = xss"
  by (rule nth_equalityI) (auto simp: world_ok_def contents_ok)

text \<open>
  C7. Vectors refine lists. Any sequence of operations on any number of vectors that share their storage (creating, copying,
  assigning, inserting, inserting another vector, replacing, removing, popping, clearing, reserving, finishing) runs without a
  fault, returns what the operations on separate lists return and leaves every vector with the items of its list, whatever
  was shared meanwhile; and every buffer left is used, by as many vectors as its count says, so nothing leaks. Allocations
  succeed, sizes fit, and nothing is appended in place to storage that is shared.\<close>

theorem vectors_refine_lists:
  assumes "legal_run ty ps [] [] []"
  shows "\<exists>vs H. run_ops plenty ty ps [] [] = Inr (fst (spec_run ps []), vs, H) \<and> map (contents H) vs = snd (spec_run ps []) \<and>
    (\<forall>a < length H. \<forall>b. H ! a = Some b \<longrightarrow> 0 < users a vs \<and> mRefs b = int (users a vs))"
proof -
  have "world_ok ty [] [] []" by (simp add: world_ok_def)
  from run_ops_ok [OF this assms] obtain vs H
    where r: "run_ops plenty ty ps [] [] = Inr (fst (spec_run ps []), vs, H)" "world_ok ty H vs (snd (spec_run ps []))" by blast
  show ?thesis using r world_contents [OF r(2)] by (intro exI [where x = vs] exI [where x = H]) (simp add: world_ok_def)
qed

lemmas vec_eval = VectorImpl_new_def VectorImpl_copy_def VectorImpl_assign_def insertAt_def insertVectorAt_def replaceAt_def removeItemsAt_def
  pop_def vector_clear_def setCapacity_def finish_vector_def grow_def grow_storage_def shrink_def shrink_storage_def copy_around_def copy_between_def change_cells_def
  editArrayImpl_def capacity_def release_storage_def buffer_at_def SharedBuffer_alloc_def SharedBuffer_acquire_def SharedBuffer_release_def
  SharedBuffer_dealloc_def SharedBuffer_editResize_def copy_cells_def destroy_cells_def move_cells_def get_cells_def put_cells_def fill_cells_def
  itemLocation_def kMinVectorCapacity_def plenty_def insert_pre_def replace_pre_def remove_pre_def shrink_pre_def capacity_pre_def fits_def
  appends_shared_def s32_def

lemma replicate_numeral: "replicate (numeral k) x = x # replicate (pred_numeral k) x"
  by (simp add: numeral_eq_Suc)

definition example_ops :: "nat vec_op list" where
  "example_ops = [NewVector, InsertAt 0 7 0 3, CopyVector 0, ReplaceAt 1 8 1, NewVector, Assign 2 1, RemoveItemsAt 2 0 2,
     InsertVectorAt 0 1 2, Pop 1, InsertAt 2 9 5 1, Clear 1, SetCapacity 2 10, Finish 0]"

theorem vectors_refine_lists_witness:
  "\<exists>vs H. run_ops plenty \<lparr> mItemSize = 4, trivial = False \<rparr> example_ops [] [] = Inr (fst (spec_run example_ops []), vs, H) \<and>
    map (contents H) vs = [[], [], [7]]"
proof -
  have l: "legal_run \<lparr> mItemSize = 4, trivial = False \<rparr> example_ops [] [] []"
    by (simp add: example_ops_def on_vector_def vec_eval replicate_numeral Let_def)
  have s: "snd (spec_run example_ops []) = [[], [], [7]]" by code_simp
  show ?thesis using vectors_refine_lists [OF l] unfolding s by (elim ex_forward) simp
qed

subsection \<open>Where sharing shows\<close>

text \<open>Appending to a vector of a trivial type that has room writes in place, whoever else uses the storage.\<close>

lemma append_in_place:
  assumes v: "vec_ok ty H v xs" and a: "mStorage v = Some a" "H ! a = Some b" and t: "trivial ty" and r: "length xs < length (cells b)"
    and k: "k = mCount v"
  shows "insertAt mem ty d (Some x) k 1 v H =
    Inr (sint k, v\<lparr> mCount := mCount v + 1 \<rparr>, H[a := Some (b\<lparr> cells := (cells b)[length xs := Some x] \<rparr>)])"
proof -
  have l: "a < length H" using vec_okE [OF v a(1)] by metis
  have n: "unat (mCount v) = length xs" "mCount v = of_nat (length xs)" using v vec_length [OF v] by (simp_all add: vec_ok_def unat_of_nat_u32)
  have c: "capacity ty v H = Inr (of_nat (length (cells b)))" "length (cells b) < 4294967296" using capacity_ok [OF v a] by simp_all
  have "of_nat (length xs) + 1 = (of_nat (Suc (length xs)) :: u32)" by simp
  then have "\<not> of_nat (length (cells b)) < mCount v + 1" using of_nat_u32(2) [OF c(2), of "Suc (length xs)"] r c(2) unfolding n(2) by (simp add: add.commute)
  then have g: "grow mem ty (mCount v) 1 v H = Inr (Some (a, length xs), v\<lparr> mCount := mCount v + 1 \<rparr>, H)"
    using c(1) a(1) n(1) by (simp add: grow_def grow_storage_def itemLocation_def)
  have "fill_cells ty d (Some x) (length xs) 1 (cells b) = Inr ((cells b)[length xs := Some x])"
    using t r by (simp add: fill_cells_def copy_cells_def get_cells_def put_cells_def upd_conv_take_nth_drop)
  then show ?thesis using g a l k by (simp add: insertAt_def change_cells_def buffer_at_def)
qed

text \<open>
  C26. Copy on write fails for an append: \<open>_grow\<close> makes the storage its own only when it has items to move, so a vector
  of a trivial type that is copied and still has room shares the cells its copies append to. After \<open>w = v\<close>, \<open>v.push(x)\<close>
  and \<open>w.push(y)\<close>, the last item of \<open>v\<close> is \<open>y\<close>, and \<open>x\<close> is lost.\<close>

theorem shared_append_overwrites:
  assumes w: "world_ok ty H [v] [xs]" and a: "mStorage v = Some a" "H ! a = Some b" and t: "trivial ty" and r: "length xs < length (cells b)"
    and k: "k = mCount v"
  shows "\<exists>v' w' H'. run_ops mem ty [CopyVector 0, InsertAt 0 x k 1, InsertAt 1 y k 1] [v] H = Inr ([0, sint k, sint k], [v', w'], H') \<and>
    contents H' v' = xs @ [y] \<and> contents H' w' = xs @ [y]"
proof -
  let ?b1 = "b\<lparr> mRefs := 2 \<rparr>" and ?v = "v\<lparr> mCount := mCount v + 1 \<rparr>"
  let ?b2 = "?b1\<lparr> cells := (cells b)[length xs := Some x] \<rparr>" and ?b3 = "?b1\<lparr> cells := (cells b)[length xs := Some y] \<rparr>"
  let ?H1 = "H[a := Some ?b1]" and ?H2 = "H[a := Some ?b2]"
  have v: "vec_ok ty H v xs" using world_vec [OF w, of 0] by simp
  obtain rest where b: "a < length H" "buf_ok ty b" "cells b = map Some xs @ rest" "mCount v = of_nat (length xs)"
    using vec_okE [OF v a(1)] a(2) by (metis option.inject)
  have one: "mRefs b = 1" using w a b(1) by (simp add: world_ok_def users_def)
  have cp: "VectorImpl_copy v H = Inr (v, ?H1)" using a b(1) one by (simp add: VectorImpl_copy_def SharedBuffer_acquire_def buffer_at_def s32_def)
  have v1: "vec_ok ty ?H1 v xs" using a b t by (simp add: vec_ok_def buf_ok_def raw_trivial)
  have i1: "insertAt mem ty x (Some x) k 1 v ?H1 = Inr (sint k, ?v, ?H2)"
    using append_in_place [OF v1 a(1), of ?b1] a b(1) t r k by simp
  have "cells ?b2 = map Some xs @ drop (length xs) (cells ?b2)" using b(3) r by (simp add: list_update_append)
  then have v2: "vec_ok ty ?H2 v xs" using a b t by (simp add: vec_ok_def buf_ok_def raw_trivial) metis
  have i2: "insertAt mem ty y (Some y) k 1 v ?H2 = Inr (sint k, ?v, H[a := Some ?b3])"
    using append_in_place [OF v2 a(1), of ?b2] a b(1) t r k by simp
  have len: "length xs < 4294967295" using r capacity_ok(2) [OF v a] by simp
  have "unat (mCount v + 1) = Suc (length xs)" using unat_Suc_u32 [of "mCount v"] len b(4) by (simp add: unat_of_nat_u32)
  then have c: "contents (H[a := Some ?b3]) ?v = xs @ [y]" using a b(1,3) r
    by (simp add: contents_def take_Suc_conv_app_nth list_update_append nth_append comp_def)
  show ?thesis
    by (rule exI [where x = ?v], rule exI [where x = ?v], rule exI [where x = "H[a := Some ?b3]"]) (use cp i1 i2 c in \<open>simp add: on_vector_def\<close>)
qed

theorem shared_append_overwrites_witness:
  "\<exists>v' w' H'. run_ops plenty \<lparr> mItemSize = 4, trivial = True \<rparr> [CopyVector 0, InsertAt 0 2 1 1, InsertAt 1 3 1 1]
      [\<lparr> mStorage = Some 0, mCount = 1 \<rparr>] [Some \<lparr> mRefs = 1, mBytes = 16, cells = [Some (1 :: nat), None, None, None] \<rparr>] =
      Inr ([0, sint (1 :: u32), sint (1 :: u32)], [v', w'], H') \<and> contents H' v' = [1] @ [3] \<and> contents H' w' = [1] @ [3]"
  by (rule shared_append_overwrites [where a = 0 and b = "\<lparr> mRefs = 1, mBytes = 16, cells = [Some 1, None, None, None] \<rparr>"])
    (simp_all add: world_ok_def vec_ok_def buf_ok_def raw_def users_def)

text \<open>A vector appended to itself, when its storage has to grow: the storage is freed before it is read.\<close>

theorem self_append_use_after_free:
  assumes v: "vec_ok ty H v xs" and a: "mStorage v = Some a" "H ! a = Some b" and one: "mRefs b = 1" and t: "\<not> trivial ty"
    and full: "length (cells b) < 2 * length xs" and f: "fits ty (2 * length xs)"
  shows "appendVector plenty ty v v H = Inl UseAfterFree"
proof -
  have n: "unat (mCount v) = length xs" "mCount v = of_nat (length xs)" using v vec_length [OF v] by (simp_all add: vec_ok_def unat_of_nat_u32)
  have l: "a < length H" using vec_okE [OF v a(1)] by metis
  have nn: "mCount v + mCount v = of_nat (2 * length xs)" by (simp add: n(2))
  have lt: "of_nat (length (cells b)) < mCount v + mCount v"
    unfolding nn using of_nat_u32(2) [OF capacity_ok(2) [OF v a], of "2 * length xs"] grow_capacity(4) [OF f] full by linarith
  define C where "C = max 4 ((3 * (2 * length xs) + 1) div 2)"
  have C: "max kMinVectorCapacity (((mCount v + mCount v) * 3 + 1) div 2) = of_nat C"
    unfolding nn C_def by (rule grow_capacity(1) [OF f])
  have c4: "C * unat (mItemSize ty) + 16 < 4294967296" "2 * length xs \<le> C" "C < 4294967296"
    using grow_capacity(2-4) [OF f] unfolding C_def by auto
  have z: "0 < unat (mItemSize ty)" using f by (simp add: fits_def)
  define d where "d = \<lparr> mRefs = 1, mBytes = of_nat (C * unat (mItemSize ty)), cells = replicate C (None :: 'a option) \<rparr>"
  have al: "SharedBuffer_alloc plenty ty (of_nat C * mItemSize ty) H = Some (length H, H @ [Some d])"
    unfolding d_def by (rule alloc_ok [OF plenty_all c4(1) z])
  obtain v' H' rest where ca: "copy_around ty (length H) (of_nat (length xs)) (of_nat (2 * length xs)) (of_nat (length xs)) v (H @ [Some d]) = Inr (v', H')"
      "mCount v' = mCount v" and h: "held ty v H (map Some (take (length xs) xs) @ replicate (2 * length xs - length xs) None @ map Some (drop (length xs) xs) @ rest) v' H'"
    using copy_around_ok [OF v z c4(1) _ _ _ _ c4(3) d_def, of "length xs" "2 * length xs" "length xs"] c4(2) by auto
  have gone: "buffer_at H' a = Inl UseAfterFree" "\<exists>a'. mStorage v' = Some a'"
  proof -
    have "copy_around ty (length H) k p j v G = Inr (v', H') \<Longrightarrow> mStorage v' = Some (length H)" for k p j and G :: "'a sb_heap"
      by (auto simp: copy_around_def bind_v_def split: sum.splits)
    then have s: "mStorage v' = Some (length H)" using ca(1) by blast
    then have "\<exists>b'. H' = drop_ref v H @ [Some b']" using h l unfolding held_def by fastforce
    then show "buffer_at H' a = Inl UseAfterFree" using a l one by (auto simp: buffer_at_def drop_ref_def nth_append)
    show "\<exists>a'. mStorage v' = Some a'" using s by simp
  qed
  have "grow_storage plenty ty (mCount v) (mCount v) v H = Inr (v', H')"
    unfolding grow_storage_def capacity_ok(1) [OF v a] bind_v_simps if_P [OF lt] C Let_def al using t a(1) ca(1) by (simp add: nn n(2))
  then have "grow plenty ty (mCount v) (mCount v) v H = Inr (itemLocation v' (mCount v), v'\<lparr> mCount := mCount v' + mCount v \<rparr>, H')"
    by (simp add: grow_def itemLocation_def Let_def)
  then show ?thesis using gone a(1) by (auto simp: appendVector_def insertVectorAt_def itemLocation_def copy_between_def)
qed

text \<open>
  Without memory, growing fails badly: when a full vector cannot grow, \<open>_grow\<close> still counts the new item and \<open>insertAt\<close>
  constructs it behind the storage (or, for a trivial type, \<open>_grow\<close> uses the null pointer that \<open>editResize\<close> returned);
  \<open>NO_MEMORY\<close> is returned only for a vector that never had storage.\<close>

theorem push_without_memory:
  assumes v: "vec_ok ty H v xs" and m: "\<forall>n. \<not> mem n" and f: "fits ty (Suc (length xs))"
    and a: "mStorage v = Some a" "H ! a = Some b" and full: "length (cells b) = length xs"
  shows "push mem ty d (Some x) v H = Inl (if trivial ty then NullPointer else OutOfBuffer)"
proof -
  have n: "unat (mCount v) = length xs" "mCount v = of_nat (length xs)" using v vec_length [OF v] by (simp_all add: vec_ok_def unat_of_nat_u32)
  have al: "SharedBuffer_alloc mem ty c H = None" for c using m by (simp add: SharedBuffer_alloc_def)
  have l: "a < length H" "buf_ok ty b" using vec_okE [OF v a(1)] a(2) by (metis option.inject)+
  have n1: "mCount v + 1 = of_nat (Suc (length xs))" by (simp add: n(2))
  have lt: "of_nat (length (cells b)) < mCount v + 1"
    unfolding n1 using grow_capacity(4) [OF f] full by (subst of_nat_u32(2) [OF capacity_ok(2) [OF v a]]) simp_all
  define C where "C = max 4 ((3 * Suc (length xs) + 1) div 2)"
  have C: "max kMinVectorCapacity (((mCount v + 1) * 3 + 1) div 2) = of_nat C" unfolding n1 C_def by (rule grow_capacity(1) [OF f])
  show ?thesis
  proof (cases "trivial ty")
    case True
    have "of_nat C * mItemSize ty \<noteq> mBytes b"
    proof
      assume "of_nat C * mItemSize ty = mBytes b"
      then have "unat (mBytes b) = C * unat (mItemSize ty)"
        using unat_of_nat_u32 [of "C * unat (mItemSize ty)"] grow_capacity(2) [OF f] C_def by simp
      then have "length (cells b) = C" using l(2) by (simp add: buf_ok_def)
      then show False using full C_def by simp
    qed
    then have "SharedBuffer_editResize mem ty a (of_nat C * mItemSize ty) H = Inr None"
      using m al a(2) l(1) by (simp add: SharedBuffer_editResize_def buffer_at_def)
    then have "grow_storage mem ty (mCount v) 1 v H = Inl NullPointer"
      unfolding grow_storage_def capacity_ok(1) [OF v a] bind_v_simps if_P [OF lt] Let_def C using a True by simp
    then show ?thesis using True by (simp add: push_def insertAt_def grow_def)
  next
    case False
    have "grow_storage mem ty (mCount v) 1 v H = Inr (v, H)"
      unfolding grow_storage_def capacity_ok(1) [OF v a] bind_v_simps if_P [OF lt] Let_def using a False al by simp
    then have "grow mem ty (mCount v) 1 v H = Inr (Some (a, length xs), v\<lparr> mCount := mCount v + 1 \<rparr>, H)"
      using a n(1) by (simp add: grow_def itemLocation_def Let_def)
    moreover have "fill_cells ty d (Some x) (length xs) 1 (cells b) = Inl OutOfBuffer"
      using full by (simp add: fill_cells_def copy_cells_def get_cells_def)
    ultimately show ?thesis using a False l by (simp add: push_def insertAt_def change_cells_def buffer_at_def)
  qed
qed

theorem push_without_memory_witness:
  "push (\<lambda>n. False) \<lparr> mItemSize = 4, trivial = False \<rparr> 0 (Some (9 :: nat)) \<lparr> mStorage = Some 0, mCount = 1 \<rparr> [Some \<lparr> mRefs = 1, mBytes = 4, cells = [Some 1] \<rparr>] =
    Inl OutOfBuffer"
  using push_without_memory [of "\<lparr> mItemSize = 4, trivial = False \<rparr>" "[Some \<lparr> mRefs = 1, mBytes = 4, cells = [Some 1] \<rparr>]"
      "\<lparr> mStorage = Some 0, mCount = 1 \<rparr>" "[1]" "\<lambda>n. False" 0 "\<lparr> mRefs = 1, mBytes = 4, cells = [Some 1] \<rparr>" 0 "9 :: nat"]
  by (simp add: vec_ok_def buf_ok_def raw_def fits_def)

end
