(* ===== verification/Sorted_Vector.thy ===== *)
theory Sorted_Vector
  imports Vector_Sharing
begin

text \<open>
  Sorted vectors (\<open>SortedVectorImpl\<close> of \<open>libutils/VectorImpl.cpp\<close>) and vectors of pairs sorted by their key
  (\<open>utils/KeyedVector.h\<close>): the binary search and the operations that insert, replace and remove where it points. The order
  is a parameter, \<open>do_compare\<close>, with the laws of a comparison as a locale; the comparisons of \<open>utils/TypeHelpers.h\<close> meet them.
\<close>

subsection \<open>Comparisons\<close>

definition strictly_order_type :: "'a::linorder \<Rightarrow> 'a \<Rightarrow> int" where
  "strictly_order_type lhs rhs = (if lhs < rhs then 1 else 0)"

definition compare_type :: "('a \<Rightarrow> 'a \<Rightarrow> int) \<Rightarrow> 'a \<Rightarrow> 'a \<Rightarrow> int" where
  "compare_type lt lhs rhs = lt rhs lhs - lt lhs rhs"

text \<open>Pairs are ordered by their keys.\<close>

definition order_pair :: "'k::linorder \<times> 'v \<Rightarrow> 'k \<times> 'v \<Rightarrow> int" where
  "order_pair p q = strictly_order_type (fst p) (fst q)"

locale comparison =
  fixes cmp :: "'a \<Rightarrow> 'a \<Rightarrow> int"
  assumes flip: "cmp x y < 0 \<longleftrightarrow> cmp y x > 0"
    and cmp_trans: "cmp x y \<le> 0 \<Longrightarrow> cmp y z \<le> 0 \<Longrightarrow> cmp x z \<le> 0"
begin

lemma cmp_less_le: "cmp x y < 0 \<Longrightarrow> cmp y z \<le> 0 \<Longrightarrow> cmp x z < 0"
  using flip [of x y] flip [of x z] flip [of z x] cmp_trans [of y z x] by linarith

lemma cmp_le_less: "cmp x y \<le> 0 \<Longrightarrow> cmp y z < 0 \<Longrightarrow> cmp x z < 0"
  using flip [of y z] flip [of x z] flip [of z x] cmp_trans [of z x y] by linarith

definition strict :: "'a list \<Rightarrow> bool" where
  "strict xs \<longleftrightarrow> sorted_wrt (\<lambda>x y. cmp x y < 0) xs"

lemma strict_below: "strict xs \<Longrightarrow> j < k \<Longrightarrow> k < length xs \<Longrightarrow> cmp (xs ! k) x \<le> 0 \<Longrightarrow> cmp (xs ! j) x < 0"
  unfolding strict_def using cmp_less_le sorted_wrt_nth_less by blast

lemma strict_above: "strict xs \<Longrightarrow> j < k \<Longrightarrow> k < length xs \<Longrightarrow> cmp (xs ! j) x \<ge> 0 \<Longrightarrow> cmp (xs ! k) x > 0"
proof -
  assume "strict xs" "j < k" "k < length xs" "cmp (xs ! j) x \<ge> 0"
  moreover from this have "cmp (xs ! j) (xs ! k) < 0" unfolding strict_def using sorted_wrt_nth_less by blast
  ultimately have "cmp x (xs ! k) < 0" using cmp_le_less [of x "xs ! j" "xs ! k"] flip [of "xs ! j" x] by linarith
  then show ?thesis using flip by blast
qed

text \<open>Where an item belongs, and the list with the item put there.\<close>

definition rank :: "'a \<Rightarrow> 'a list \<Rightarrow> nat" where
  "rank x xs = length (takeWhile (\<lambda>y. cmp y x < 0) xs)"

definition found :: "'a \<Rightarrow> 'a list \<Rightarrow> bool" where
  "found x xs \<longleftrightarrow> rank x xs < length xs \<and> cmp (xs ! rank x xs) x = 0"

definition put_item :: "'a \<Rightarrow> 'a list \<Rightarrow> 'a list" where
  "put_item x xs = takeWhile (\<lambda>y. cmp y x < 0) xs @ x # dropWhile (\<lambda>y. cmp y x \<le> 0) xs"

definition drop_item :: "'a \<Rightarrow> 'a list \<Rightarrow> 'a list" where
  "drop_item x xs = filter (\<lambda>y. cmp y x \<noteq> 0) xs"

lemma rank_le: "rank x xs \<le> length xs"
  by (simp add: rank_def length_takeWhile_le)

lemma rankI:
  assumes "p \<le> length xs" and "\<And>j. j < p \<Longrightarrow> cmp (xs ! j) x < 0" and "p < length xs \<Longrightarrow> \<not> cmp (xs ! p) x < 0"
  shows "rank x xs = p"
  unfolding rank_def using assms by (subst takeWhile_eq_take_P_nth [of p]) auto

lemma rank_below: "j < rank x xs \<Longrightarrow> cmp (xs ! j) x < 0"
  unfolding rank_def using nth_length_takeWhile set_takeWhileD takeWhile_nth by (metis nth_mem)

lemma rank_above:
  assumes s: "strict xs" and k: "rank x xs \<le> k" "k < length xs" "\<not> (k = rank x xs \<and> found x xs)"
  shows "cmp (xs ! k) x > 0"
proof -
  have r: "rank x xs < length xs" using k by simp
  then have "\<not> cmp (xs ! rank x xs) x < 0" unfolding rank_def using nth_length_takeWhile by fastforce
  then show ?thesis using strict_above [OF s, of "rank x xs" k x] k by (cases "k = rank x xs") (auto simp: found_def)
qed

end

interpretation pair_order: comparison "compare_type order_pair :: 'k::linorder \<times> 'v \<Rightarrow> 'k \<times> 'v \<Rightarrow> int"
  by unfold_locales (auto simp: compare_type_def order_pair_def strictly_order_type_def split: if_splits)

interpretation type_order: comparison "compare_type strictly_order_type :: 'a::linorder \<Rightarrow> 'a \<Rightarrow> int"
  by unfold_locales (auto simp: compare_type_def strictly_order_type_def split: if_splits)

subsection \<open>The operations\<close>

definition item_at :: "VectorImpl \<Rightarrow> 'a sb_heap \<Rightarrow> nat \<Rightarrow> vec_fault + 'a" where
  "item_at v H i =
     (case mStorage v of
        None \<Rightarrow> Inl NullPointer
      | Some a \<Rightarrow>
          bind_v (buffer_at H a) (\<lambda>b.
          if i < length (cells b) then (case cells b ! i of None \<Rightarrow> Inl Lifetime | Some x \<Rightarrow> Inr x) else Inl OutOfBuffer))"

text \<open>\<open>_indexOrderOf\<close> returns the index, or \<open>NAME_NOT_FOUND\<close>, and the order.\<close>

function search_item :: "('a \<Rightarrow> 'a \<Rightarrow> int) \<Rightarrow> (nat \<Rightarrow> 'e + 'a) \<Rightarrow> 'a \<Rightarrow> int \<Rightarrow> int \<Rightarrow> 'e + int \<times> int" where
  "search_item cmp arr item l h =
     (if l \<le> h then
        let mid = l + (h - l) div 2 in
        bind_v (arr (nat mid)) (\<lambda>curr.
        let c = cmp curr item in
        if c = 0 then Inr (mid, mid)
        else if c < 0 then search_item cmp arr item (mid + 1) h
        else search_item cmp arr item l (mid - 1))
      else Inr (NAME_NOT_FOUND, l))"
  by pat_completeness auto
termination by (relation "measure (\<lambda>(_, _, _, l, h). nat (h - l + 1))") auto

declare search_item.simps [simp del]

definition indexOrderOf :: "('a \<Rightarrow> 'a \<Rightarrow> int) \<Rightarrow> 'a \<Rightarrow> VectorImpl \<Rightarrow> 'a sb_heap \<Rightarrow> vec_fault + int \<times> int" where
  "indexOrderOf cmp item v H = search_item cmp (item_at v H) item 0 (sint (mCount v - 1))"

definition indexOf :: "('a \<Rightarrow> 'a \<Rightarrow> int) \<Rightarrow> 'a \<Rightarrow> VectorImpl \<Rightarrow> 'a sb_heap \<Rightarrow> vec_fault + int" where
  "indexOf cmp item v H = map_sum id fst (indexOrderOf cmp item v H)"

definition orderOf :: "('a \<Rightarrow> 'a \<Rightarrow> int) \<Rightarrow> 'a \<Rightarrow> VectorImpl \<Rightarrow> 'a sb_heap \<Rightarrow> vec_fault + u32" where
  "orderOf cmp item v H = map_sum id (\<lambda>(_, order). word_of_int order) (indexOrderOf cmp item v H)"

definition sorted_add :: "(nat \<Rightarrow> bool) \<Rightarrow> item_type \<Rightarrow> ('a \<Rightarrow> 'a \<Rightarrow> int) \<Rightarrow> 'a \<Rightarrow> VectorImpl \<Rightarrow> 'a sb_heap \<Rightarrow> vec_fault + int \<times> VectorImpl \<times> 'a sb_heap" where
  "sorted_add mem ty cmp item v H =
     bind_v (indexOrderOf cmp item v H) (\<lambda>(index, order).
     if index < 0 then insertAt mem ty item (Some item) (word_of_int order) 1 v H
     else replaceAt mem ty item (Some item) (word_of_int index) v H)"

definition sorted_remove :: "(nat \<Rightarrow> bool) \<Rightarrow> item_type \<Rightarrow> ('a \<Rightarrow> 'a \<Rightarrow> int) \<Rightarrow> 'a \<Rightarrow> VectorImpl \<Rightarrow> 'a sb_heap \<Rightarrow> vec_fault + int \<times> VectorImpl \<times> 'a sb_heap" where
  "sorted_remove mem ty cmp item v H =
     bind_v (indexOf cmp item v H) (\<lambda>i.
     if i \<ge> 0 then bind_v (removeItemsAt mem ty (word_of_int i) 1 v H) (\<lambda>(_, v, H). Inr (i, v, H)) else Inr (i, v, H))"

text \<open>The loop of \<open>merge\<close> over the items \<open>i\<close>, \<open>i+1\<close>, \dots of the other vector.\<close>

fun merge_from :: "(nat \<Rightarrow> bool) \<Rightarrow> item_type \<Rightarrow> ('a \<Rightarrow> 'a \<Rightarrow> int) \<Rightarrow> VectorImpl \<Rightarrow> nat list \<Rightarrow> VectorImpl \<Rightarrow> 'a sb_heap \<Rightarrow> vec_fault + int \<times> VectorImpl \<times> 'a sb_heap" where
  "merge_from mem ty cmp vector [] v H = Inr (0, v, H)"
| "merge_from mem ty cmp vector (i # is) v H =
     bind_v (item_at vector H i) (\<lambda>x.
     bind_v (sorted_add mem ty cmp x v H) (\<lambda>(err, v, H).
     if err < 0 then Inr (err, v, H) else merge_from mem ty cmp vector is v H))"

definition merge_vector :: "(nat \<Rightarrow> bool) \<Rightarrow> item_type \<Rightarrow> ('a \<Rightarrow> 'a \<Rightarrow> int) \<Rightarrow> VectorImpl \<Rightarrow> VectorImpl \<Rightarrow> 'a sb_heap \<Rightarrow> vec_fault + int \<times> VectorImpl \<times> 'a sb_heap" where
  "merge_vector mem ty cmp vector v H = merge_from mem ty cmp vector [0..<unat (mCount vector)] v H"

definition merge_sorted :: "(nat \<Rightarrow> bool) \<Rightarrow> item_type \<Rightarrow> ('a \<Rightarrow> 'a \<Rightarrow> int) \<Rightarrow> VectorImpl \<Rightarrow> VectorImpl \<Rightarrow> 'a sb_heap \<Rightarrow> vec_fault + int \<times> VectorImpl \<times> 'a sb_heap" where
  "merge_sorted mem ty cmp vector v H =
     (if mCount vector = 0 then Inr (0, v, H)
      else
        bind_v (item_at vector H (unat (mCount vector - 1))) (\<lambda>last_item.
        bind_v (item_at v H 0) (\<lambda>first_own.
        if cmp last_item first_own \<le> 0 then insertVectorAt mem ty vector 0 v H
        else
          bind_v (item_at vector H 0) (\<lambda>first_item.
          bind_v (item_at v H (unat (mCount v - 1))) (\<lambda>last_own.
          if cmp first_item last_own \<ge> 0 then appendVector mem ty vector v H
          else merge_vector mem ty cmp vector v H)))))"

subsection \<open>Searching\<close>

lemma item_at_ok:
  assumes v: "vec_ok ty H v xs" and i: "i < length xs"
  shows "item_at v H i = Inr (xs ! i)"
proof -
  obtain a b where a: "mStorage v = Some a" "H ! a = Some b" using storage_of [OF v] i by fastforce
  obtain rest where "a < length H" "cells b = map Some xs @ rest" using vec_okE [OF v a(1)] a(2) by (metis option.inject)
  then show ?thesis using a i by (simp add: item_at_def buffer_at_def nth_append)
qed

lemma pred_count:
  assumes "vec_ok ty H v xs" and "length xs < 2147483648"
  shows "sint (mCount v - 1) = int (length xs) - 1"
proof (cases "xs = []")
  case True
  then show ?thesis using assms(1) by (simp add: vec_ok_def)
next
  case False
  have "mCount v - 1 = of_nat (length xs - 1)" using assms(1) False by (cases xs) (simp_all add: vec_ok_def)
  then show ?thesis using sint_of_nat_u32 [of "length xs - 1"] assms(2) False by (simp add: of_nat_diff Suc_leI)
qed

lemma in_drop_nth: "y \<in> set (drop q xs) \<Longrightarrow> \<exists>k \<ge> q. k < length xs \<and> y = xs ! k"
  by (metis add.commute in_set_conv_nth le_add2 length_drop less_diff_conv nth_drop nat_le_linear add_leD1 not_less_zero drop_all empty_iff list.set(1))

context comparison
begin

definition result_of :: "'a \<Rightarrow> 'a list \<Rightarrow> int \<times> int" where
  "result_of x xs = (if found x xs then int (rank x xs) else NAME_NOT_FOUND, int (rank x xs))"

lemma search_ok:
  assumes s: "strict xs" and arr: "\<And>i. i < length xs \<Longrightarrow> arr i = Inr (xs ! i)"
  shows "0 \<le> l \<Longrightarrow> h < int (length xs) \<Longrightarrow> l \<le> h + 1 \<Longrightarrow> \<forall>j. int j < l \<longrightarrow> cmp (xs ! j) x < 0 \<Longrightarrow>
    \<forall>j < length xs. h < int j \<longrightarrow> cmp (xs ! j) x > 0 \<Longrightarrow> search_item cmp arr x l h = Inr (result_of x xs)"
proof (induction "nat (h - l + 1)" arbitrary: l h rule: less_induct)
  case less
  show ?case
  proof (cases "l \<le> h")
    case False
    then have l: "l = h + 1" using less.prems by simp
    have gt: "cmp (xs ! nat l) x > 0" if "nat l < length xs" using less.prems(5)[rule_format, OF that] l less.prems(1) by simp
    then have r: "rank x xs = nat l" using less.prems(1,2,4) l by (intro rankI) force+
    then have "\<not> found x xs" unfolding found_def using gt by auto
    then show ?thesis using False r less.prems(1) by (simp add: search_item.simps result_of_def)
  next
    case True
    define mid where "mid = l + (h - l) div 2"
    have m: "l \<le> mid" "mid \<le> h" "nat mid < length xs" using True less.prems unfolding mid_def by auto
    have step: "search_item cmp arr x l h =
        (if cmp (xs ! nat mid) x = 0 then Inr (mid, mid) else if cmp (xs ! nat mid) x < 0 then search_item cmp arr x (mid + 1) h else search_item cmp arr x l (mid - 1))"
      using True arr [OF m(3)] unfolding mid_def by (subst search_item.simps) (simp add: Let_def)
    consider "cmp (xs ! nat mid) x = 0" | "cmp (xs ! nat mid) x < 0" | "cmp (xs ! nat mid) x > 0" by linarith
    then show ?thesis
    proof cases
      case 1
      have r: "rank x xs = nat mid" by (rule rankI) (use m 1 strict_below [OF s] in auto)
      then have "found x xs" unfolding found_def using m 1 by simp
      then show ?thesis using step 1 r m less.prems(1) by (simp add: result_of_def)
    next
      case 2
      have "cmp (xs ! j) x < 0" if "int j < mid + 1" for j
        using strict_below [OF s, of j "nat mid" x] that 2 m by (cases "j = nat mid") auto
      then have "search_item cmp arr x (mid + 1) h = Inr (result_of x xs)" using less.prems m by (intro less.hyps) auto
      then show ?thesis using step 2 by simp
    next
      case 3
      have "cmp (xs ! j) x > 0" if "j < length xs" "mid - 1 < int j" for j
        using strict_above [OF s, of "nat mid" j x] that 3 m less.prems(1) by (cases "j = nat mid") auto
      then have "search_item cmp arr x l (mid - 1) = Inr (result_of x xs)" using less.prems m by (intro less.hyps) auto
      then show ?thesis using step 3 by simp
    qed
  qed
qed

lemma indexOrderOf_ok:
  assumes "vec_ok ty H v xs" and "strict xs" and "length xs < 2147483648"
  shows "indexOrderOf cmp x v H = Inr (result_of x xs)"
  unfolding indexOrderOf_def pred_count [OF assms(1,3)]
  using item_at_ok [OF assms(1)] by (intro search_ok [OF assms(2)]) simp_all

lemma rank_take: "take (rank x xs) xs = takeWhile (\<lambda>y. cmp y x < 0) xs"
  unfolding rank_def by (rule takeWhile_eq_take [symmetric])

lemma dropWhile_rank:
  assumes s: "strict xs"
  shows "dropWhile (\<lambda>y. cmp y x \<le> 0) xs = drop (if found x xs then Suc (rank x xs) else rank x xs) xs"
proof -
  let ?q = "if found x xs then Suc (rank x xs) else rank x xs"
  have q: "?q \<le> length xs" using rank_le [of x xs] by (auto simp: found_def)
  have "takeWhile (\<lambda>y. cmp y x \<le> 0) xs = take ?q xs"
  proof (rule takeWhile_eq_take_P_nth)
    fix i assume "i < ?q" "i < length xs"
    then show "cmp (xs ! i) x \<le> 0" using rank_below [of i x xs] by (cases "i = rank x xs") (auto simp: found_def split: if_splits)
  next
    assume "?q < length xs"
    then show "\<not> cmp (xs ! ?q) x \<le> 0" using rank_above [OF s, of x ?q] by (auto split: if_splits)
  qed
  then show ?thesis using q by (metis append_take_drop_id same_append_eq takeWhile_dropWhile_id)
qed

lemma put_item_cases:
  assumes s: "strict xs"
  shows "put_item x xs = (if found x xs then xs[rank x xs := x] else take (rank x xs) xs @ [x] @ drop (rank x xs) xs)"
  using upd_conv_take_nth_drop [of "rank x xs" xs x] unfolding put_item_def dropWhile_rank [OF s] by (auto simp: rank_take found_def)

lemma drop_item_cases:
  assumes s: "strict xs"
  shows "drop_item x xs = (if found x xs then take (rank x xs) xs @ drop (Suc (rank x xs)) xs else xs)"
proof -
  let ?q = "if found x xs then Suc (rank x xs) else rank x xs"
  have 1: "filter (\<lambda>y. cmp y x \<noteq> 0) (take (rank x xs) xs) = take (rank x xs) xs"
    using rank_below [of _ x xs] by (fastforce simp: filter_id_conv in_set_conv_nth)
  have 2: "filter (\<lambda>y. cmp y x \<noteq> 0) (drop ?q xs) = drop ?q xs"
  proof -
    have "cmp y x \<noteq> 0" if y: "y \<in> set (drop ?q xs)" for y
    proof -
      obtain k where "?q \<le> k" "k < length xs" "y = xs ! k" using in_drop_nth [OF y] by blast
      then show ?thesis using rank_above [OF s, of x k] by (auto split: if_splits)
    qed
    then show ?thesis unfolding filter_id_conv by blast
  qed
  show ?thesis
  proof (cases "found x xs")
    case True
    then have r: "rank x xs < length xs" "cmp (xs ! rank x xs) x = 0" by (simp_all add: found_def)
    have "drop_item x xs = filter (\<lambda>y. cmp y x \<noteq> 0) (take (rank x xs) xs @ xs ! rank x xs # drop (Suc (rank x xs)) xs)"
      unfolding drop_item_def by (rule arg_cong [OF id_take_nth_drop [OF r(1)]])
    then have "drop_item x xs = filter (\<lambda>y. cmp y x \<noteq> 0) (take (rank x xs) xs) @ filter (\<lambda>y. cmp y x \<noteq> 0) (drop (Suc (rank x xs)) xs)"
      using r(2) by simp
    then show ?thesis using 1 2 True by simp
  next
    case False
    have "drop_item x xs = filter (\<lambda>y. cmp y x \<noteq> 0) (take (rank x xs) xs @ drop (rank x xs) xs)" by (simp add: drop_item_def)
    then show ?thesis using 1 2 False unfolding filter_append by simp
  qed
qed

lemma strict_put:
  assumes s: "strict xs"
  shows "strict (put_item x xs)"
proof -
  have "sorted_wrt (\<lambda>x y. cmp x y < 0) (takeWhile (\<lambda>y. cmp y x < 0) xs)" "sorted_wrt (\<lambda>x y. cmp x y < 0) (dropWhile (\<lambda>y. cmp y x \<le> 0) xs)"
    using s unfolding strict_def dropWhile_rank [OF s] rank_take [symmetric] by (simp_all add: sorted_wrt_take sorted_wrt_drop)
  moreover have "cmp x y < 0" if y: "y \<in> set (dropWhile (\<lambda>y. cmp y x \<le> 0) xs)" for y
  proof -
    obtain k where "k < length xs" "y = xs ! k" "(if found x xs then Suc (rank x xs) else rank x xs) \<le> k"
      using in_drop_nth [OF y [unfolded dropWhile_rank [OF s]]] by blast
    then show ?thesis using rank_above [OF s, of x k] flip by (auto split: if_splits)
  qed
  moreover have "cmp y x < 0" if "y \<in> set (takeWhile (\<lambda>y. cmp y x < 0) xs)" for y using set_takeWhileD [OF that] by simp
  ultimately show ?thesis unfolding strict_def put_item_def sorted_wrt_append
    using cmp_less_le [OF _ less_imp_le] by simp blast
qed

lemma rank_put: "rank x (put_item x xs) = rank x xs"
proof -
  have "\<not> cmp x x < 0" using flip [of x x] by linarith
  then show ?thesis unfolding rank_def put_item_def by (subst takeWhile_append2) (auto dest: set_takeWhileD)
qed

lemma strict_drop: "strict xs \<Longrightarrow> strict (drop_item x xs)"
  unfolding strict_def drop_item_def by (rule sorted_wrt_filter)

end

subsection \<open>Adding and removing\<close>

lemma of_int_rank: "word_of_int (int n) = (of_nat n :: u32)"
  by simp

context comparison
begin

definition add_pre :: "item_type \<Rightarrow> 'a \<Rightarrow> VectorImpl \<Rightarrow> 'a sb_heap \<Rightarrow> 'a list \<Rightarrow> bool" where
  "add_pre ty x v H xs \<longleftrightarrow> strict xs \<and> fits ty (Suc (length xs)) \<and> (rank x xs < length xs \<or> \<not> appends_shared 1 v H)"

lemma sorted_add_contract:
  assumes v: "vec_ok ty H v xs" and p: "add_pre ty x v H xs"
  shows "\<exists>v' H'. sorted_add plenty ty cmp x v H = Inr (int (rank x xs), v', H') \<and> changed ty v H (put_item x xs) v' H'"
proof -
  have s: "strict xs" and f: "fits ty (length xs + 1)" using p by (simp_all add: add_pre_def)
  have len: "length xs < 715827880" using grow_capacity(4) [OF f] by simp
  have i: "indexOrderOf cmp x v H = Inr (result_of x xs)" using len by (intro indexOrderOf_ok [OF v s]) simp
  show ?thesis
  proof (cases "found x xs")
    case True
    then have r: "rank x xs < length xs" by (simp add: found_def)
    have "\<exists>v' H'. replaceAt plenty ty x (Some x) (of_nat (rank x xs)) v H = Inr (int (rank x xs), v', H') \<and> changed ty v H (xs[rank x xs := x]) v' H'"
      using r len by (intro replaceAt_ok [OF v plenty_all]) auto
    then show ?thesis using True i put_item_cases [OF s] by (simp add: sorted_add_def result_of_def)
  next
    case False
    have "\<exists>v' H'. insertAt plenty ty x (Some x) (of_nat (rank x xs)) (of_nat 1) v H = Inr (int (rank x xs), v', H') \<and>
        changed ty v H (take (rank x xs) xs @ replicate 1 x @ drop (rank x xs) xs) v' H'"
      using p rank_le [of x xs] by (intro insertAt_ok [OF v plenty_all _ _ f]) (auto simp: add_pre_def)
    then show ?thesis using False i put_item_cases [OF s] by (simp add: sorted_add_def result_of_def NAME_NOT_FOUND_def)
  qed
qed

definition remove_item_pre :: "item_type \<Rightarrow> VectorImpl \<Rightarrow> 'a sb_heap \<Rightarrow> 'a list \<Rightarrow> bool" where
  "remove_item_pre ty v H xs \<longleftrightarrow> strict xs \<and> fits ty (length xs)"

lemma sorted_remove_contract:
  assumes v: "vec_ok ty H v xs" and p: "remove_item_pre ty v H xs"
  shows "\<exists>v' H'. sorted_remove plenty ty cmp x v H = Inr (fst (result_of x xs), v', H') \<and>
    (changed ty v H (drop_item x xs) v' H' \<or> v' = v \<and> H' = H \<and> drop_item x xs = xs)"
proof -
  have s: "strict xs" and f: "fits ty (length xs)" using p by (simp_all add: remove_item_pre_def)
  have len: "length xs < 715827880" using grow_capacity(4) [OF f] by simp
  have i: "indexOf cmp x v H = Inr (fst (result_of x xs))"
    using indexOrderOf_ok [OF v s] len by (simp add: indexOf_def)
  show ?thesis
  proof (cases "found x xs")
    case True
    then have r: "rank x xs < length xs" by (simp add: found_def)
    have "\<exists>v' H'. removeItemsAt plenty ty (of_nat (rank x xs)) (of_nat 1) v H = Inr (int (rank x xs), v', H') \<and>
        changed ty v H (take (rank x xs) xs @ drop (rank x xs + 1) xs) v' H'"
      using r storage_of [OF v] by (intro removeItemsAt_ok [OF v plenty_all _ f]) fastforce+
    then show ?thesis using True i drop_item_cases [OF s] by (auto simp: sorted_remove_def result_of_def)
  next
    case False
    then show ?thesis using i drop_item_cases [OF s] by (simp add: sorted_remove_def result_of_def NAME_NOT_FOUND_def)
  qed
qed

end

interpretation add_op: vector_operation ty "sorted_add plenty ty (compare_type order_pair) p" "pair_order.add_pre ty p"
  "\<lambda>xs. int (pair_order.rank p xs)" "pair_order.put_item p"
  using pair_order.sorted_add_contract by unfold_locales blast

interpretation drop_op: vector_operation ty "sorted_remove plenty ty (compare_type order_pair) p" "pair_order.remove_item_pre ty"
  "\<lambda>xs. fst (pair_order.result_of p xs)" "pair_order.drop_item p"
  using pair_order.sorted_remove_contract by unfold_locales blast

subsection \<open>Keyed vectors\<close>

text \<open>The \<open>VALUE\<close> of a pair made from a key alone is \<open>d\<close>.\<close>

definition indexOfKey :: "'v \<Rightarrow> 'k::linorder \<Rightarrow> VectorImpl \<Rightarrow> ('k \<times> 'v) sb_heap \<Rightarrow> vec_fault + int" where
  "indexOfKey d key v H = indexOf (compare_type order_pair) (key, d) v H"

definition valueAt :: "nat \<Rightarrow> VectorImpl \<Rightarrow> ('k \<times> 'v) sb_heap \<Rightarrow> vec_fault + 'v" where
  "valueAt index v H = map_sum id snd (item_at v H index)"

definition keyed_add :: "(nat \<Rightarrow> bool) \<Rightarrow> item_type \<Rightarrow> 'k::linorder \<Rightarrow> 'v \<Rightarrow> VectorImpl \<Rightarrow> ('k \<times> 'v) sb_heap \<Rightarrow> vec_fault + int \<times> VectorImpl \<times> ('k \<times> 'v) sb_heap" where
  "keyed_add mem ty key val v H = sorted_add mem ty (compare_type order_pair) (key, val) v H"

definition replaceValueFor :: "(nat \<Rightarrow> bool) \<Rightarrow> item_type \<Rightarrow> 'k::linorder \<Rightarrow> 'v \<Rightarrow> VectorImpl \<Rightarrow> ('k \<times> 'v) sb_heap \<Rightarrow> vec_fault + int \<times> VectorImpl \<times> ('k \<times> 'v) sb_heap" where
  "replaceValueFor mem ty key val v H =
     bind_v (sorted_remove mem ty (compare_type order_pair) (key, val) v H) (\<lambda>(_, v, H).
     sorted_add mem ty (compare_type order_pair) (key, val) v H)"

definition removeItem :: "(nat \<Rightarrow> bool) \<Rightarrow> item_type \<Rightarrow> 'v \<Rightarrow> 'k::linorder \<Rightarrow> VectorImpl \<Rightarrow> ('k \<times> 'v) sb_heap \<Rightarrow> vec_fault + int \<times> VectorImpl \<times> ('k \<times> 'v) sb_heap" where
  "removeItem mem ty d key v H = sorted_remove mem ty (compare_type order_pair) (key, d) v H"

text \<open>\<open>DefaultKeyedVector::valueFor\<close>.\<close>

definition valueFor :: "'v \<Rightarrow> 'v \<Rightarrow> 'k::linorder \<Rightarrow> VectorImpl \<Rightarrow> ('k \<times> 'v) sb_heap \<Rightarrow> vec_fault + 'v" where
  "valueFor d mDefault key v H =
     bind_v (indexOfKey d key v H) (\<lambda>i. if i \<ge> 0 then valueAt (nat i) v H else Inr mDefault)"

text \<open>Assigning through \<open>editValueAt\<close>.\<close>

definition set_pair_value :: "nat \<Rightarrow> 'v \<Rightarrow> ('k \<times> 'v) option list \<Rightarrow> vec_fault + ('k \<times> 'v) option list" where
  "set_pair_value k val cs =
     (if k < length cs then (case cs ! k of None \<Rightarrow> Inl Lifetime | Some (key, _) \<Rightarrow> Inr (cs[k := Some (key, val)])) else Inl OutOfBuffer)"

definition editValueAt :: "(nat \<Rightarrow> bool) \<Rightarrow> item_type \<Rightarrow> nat \<Rightarrow> 'v \<Rightarrow> VectorImpl \<Rightarrow> ('k \<times> 'v) sb_heap \<Rightarrow> vec_fault + VectorImpl \<times> ('k \<times> 'v) sb_heap" where
  "editValueAt mem ty index val v H =
     bind_v (editArrayImpl mem ty v H) (\<lambda>(v, H).
     case mStorage v of
       None \<Rightarrow> Inl NullPointer
     | Some a \<Rightarrow> map_sum id (Pair v) (change_cells a (set_pair_value index val) H))"

definition replaceValueAt :: "(nat \<Rightarrow> bool) \<Rightarrow> item_type \<Rightarrow> u32 \<Rightarrow> 'v \<Rightarrow> VectorImpl \<Rightarrow> ('k \<times> 'v) sb_heap \<Rightarrow> vec_fault + int \<times> VectorImpl \<times> ('k \<times> 'v) sb_heap" where
  "replaceValueAt mem ty index item v H =
     (if index < mCount v then map_sum id (Pair (sint index)) (editValueAt mem ty (unat index) item v H) else Inr (BAD_INDEX, v, H))"

lemma editValueAt_ok:
  assumes v: "vec_ok ty H v xs" and k: "k < length xs"
  shows "\<exists>v' H'. editValueAt plenty ty k val v H = Inr (v', H') \<and> changed ty v H (xs[k := (fst (xs ! k), val)]) v' H'"
proof -
  obtain a b where a: "mStorage v = Some a" "H ! a = Some b" using storage_of [OF v] k by fastforce
  obtain v' H' r where e: "editArrayImpl plenty ty v H = Inr (v', H')" "mCount v' = mCount v" "held ty v H (map Some xs @ r) v' H'" "raw ty r"
    using edit_ok [OF v a plenty_all] by blast
  obtain a' where a': "mStorage v' = Some a'" using held_storage [OF e(3)] by blast
  have s: "set_pair_value k val (map Some xs @ r) = Inr (map Some (xs[k := (fst (xs ! k), val)]) @ r)"
    using k by (simp add: set_pair_value_def nth_append list_update_append map_update split: prod.split)
  obtain H'' where h: "change_cells a' (set_pair_value k val) H' = Inr H''" "held ty v H (map Some (xs[k := (fst (xs ! k), val)]) @ r) v' H''"
    using held_change [where f = "set_pair_value k val", OF e(3) s _ a'] by auto
  have "changed ty v H (xs[k := (fst (xs ! k), val)]) v' H''" using h(2) e(2,4) v by (auto simp: changed_def vec_ok_def)
  then show ?thesis using e(1) a' h(1) by (simp add: editValueAt_def)
qed

text \<open>A sorted list of pairs as a map.\<close>

lemma pair_cmp: "compare_type order_pair p q = (if fst q < fst p then 1 else if fst p < fst q then - 1 else 0)"
  by (auto simp: compare_type_def order_pair_def strictly_order_type_def)

lemma rank_key: "pair_order.rank (k, d) xs = pair_order.rank (k, d') xs" "pair_order.found (k, d) xs = pair_order.found (k, d') xs"
proof -
  have c: "compare_type order_pair y (k, d) = compare_type order_pair y (k, d')" for y :: "'a \<times> 'b" by (simp add: pair_cmp)
  show "pair_order.rank (k, d) xs = pair_order.rank (k, d') xs" "pair_order.found (k, d) xs = pair_order.found (k, d') xs"
    unfolding pair_order.found_def pair_order.rank_def c by simp_all
qed

lemma strict_keys: "pair_order.strict xs \<longleftrightarrow> sorted_wrt (\<lambda>p q. fst p < fst q) xs"
  unfolding pair_order.strict_def pair_cmp by (intro arg_cong2 [where f = sorted_wrt]) (auto intro!: ext)

lemma strict_distinct: "pair_order.strict xs \<Longrightarrow> distinct (map fst xs)"
  unfolding strict_keys by (induction xs) force+

lemma found_map:
  assumes s: "pair_order.strict xs"
  shows "pair_order.found (k, d) xs \<longleftrightarrow> k \<in> fst ` set xs"
    and "pair_order.found (k, d) xs \<Longrightarrow> map_of xs k = Some (snd (xs ! pair_order.rank (k, d) xs))"
proof -
  show "pair_order.found (k, d) xs \<longleftrightarrow> k \<in> fst ` set xs"
  proof
    assume "pair_order.found (k, d) xs"
    then show "k \<in> fst ` set xs" unfolding pair_order.found_def pair_cmp by (auto split: if_splits)
  next
    assume "k \<in> fst ` set xs"
    then obtain i where i: "i < length xs" "fst (xs ! i) = k" by (auto simp: in_set_conv_nth)
    have "pair_order.rank (k, d) xs = i"
      using i s by (intro pair_order.rankI) (auto simp: pair_cmp strict_keys dest: sorted_wrt_nth_less)
    then show "pair_order.found (k, d) xs" using i by (simp add: pair_order.found_def pair_cmp)
  qed
  assume "pair_order.found (k, d) xs"
  then have "xs ! pair_order.rank (k, d) xs \<in> set xs" "fst (xs ! pair_order.rank (k, d) xs) = k"
    unfolding pair_order.found_def pair_cmp by (auto split: if_splits)
  then show "map_of xs k = Some (snd (xs ! pair_order.rank (k, d) xs))"
    using strict_distinct [OF s] by (metis map_of_is_SomeI prod.collapse)
qed

lemma map_of_drop_item: "map_of (pair_order.drop_item (k, d) xs) = (map_of xs)(k := None)"
proof -
  have "compare_type order_pair p (k, d) \<noteq> 0 \<longleftrightarrow> fst p \<noteq> k" for p :: "'a \<times> 'b" by (auto simp: pair_cmp)
  then show ?thesis unfolding pair_order.drop_item_def by (induction xs) (auto intro!: ext)
qed

lemma map_of_insert_mid: "map_of ys k = None \<Longrightarrow> map_of (ys @ (k, val) # zs) = (map_of (ys @ zs))(k \<mapsto> val)"
  by (auto simp: fun_eq_iff map_add_def split: option.splits)

lemma map_of_put_item:
  assumes s: "pair_order.strict xs"
  shows "map_of (pair_order.put_item (k, val) xs) = (map_of xs)(k \<mapsto> val)"
proof -
  let ?ys = "takeWhile (\<lambda>y. compare_type order_pair y (k, val) < 0) xs" and ?zs = "dropWhile (\<lambda>y. compare_type order_pair y (k, val) \<le> 0) xs"
  have "pair_order.drop_item (k, val) xs = ?ys @ ?zs"
    unfolding pair_order.drop_item_cases [OF s] pair_order.rank_take [symmetric] pair_order.dropWhile_rank [OF s]
    by (simp add: pair_order.rank_take [symmetric])
  then have "map_of (?ys @ ?zs) = (map_of xs)(k := None)" using map_of_drop_item by metis
  moreover have "map_of ?ys k = None" by (auto simp: map_of_eq_None_iff pair_cmp dest!: set_takeWhileD split: if_splits)
  ultimately show ?thesis unfolding pair_order.put_item_def by (simp only: map_of_insert_mid fun_upd_upd)
qed

text \<open>A keyed vector that shares its storage with no other, and the map it holds.\<close>

definition own :: "VectorImpl \<Rightarrow> 'a sb_heap \<Rightarrow> bool" where
  "own v H = (case mStorage v of None \<Rightarrow> True | Some a \<Rightarrow> mRefs (the (H ! a)) = 1)"

definition keyed_ok :: "item_type \<Rightarrow> ('k::linorder \<times> 'v) sb_heap \<Rightarrow> VectorImpl \<Rightarrow> ('k \<rightharpoonup> 'v) \<Rightarrow> bool" where
  "keyed_ok ty H v m \<longleftrightarrow> own v H \<and> (\<exists>xs. vec_ok ty H v xs \<and> pair_order.strict xs \<and> map_of xs = m)"

lemma changed_own:
  assumes "changed ty v H xs v' H'"
  shows "own v' H' \<and> vec_ok ty H' v' xs"
proof -
  obtain rest b' where "raw ty rest" "mCount v' = of_nat (length xs)" "buf_ok ty b'" "cells b' = map Some xs @ rest" "mRefs b' = 1"
    and "mStorage v' = Some (length H) \<and> H' = drop_ref v H @ [Some b'] \<or> (\<exists>a. mStorage v' = Some a \<and> a < length H \<and> H' = H[a := Some b'])"
    using assms unfolding changed_def held_def by blast
  then show ?thesis by (auto simp: own_def vec_ok_def nth_append)
qed

lemma own_appends: "own v H \<Longrightarrow> \<not> appends_shared n v H"
  by (auto simp: own_def appends_shared_def split: option.splits)

lemma keyed_length: "pair_order.strict xs \<Longrightarrow> card (dom (map_of xs)) = length xs"
  using distinct_card [OF strict_distinct, of xs] by (simp add: dom_map_of_conv_image_fst)

lemma keyed_add_ok:
  assumes o: "own v H" and v: "vec_ok ty H v xs" and s: "pair_order.strict xs" and f: "fits ty (Suc (length xs))"
  shows "\<exists>v' H'. keyed_add plenty ty k val v H = Inr (int (pair_order.rank (k, val) xs), v', H') \<and> changed ty v H (pair_order.put_item (k, val) xs) v' H'"
  unfolding keyed_add_def by (rule pair_order.sorted_add_contract [OF v]) (use s f own_appends [OF o] in \<open>simp add: pair_order.add_pre_def\<close>)

lemma keyed_step:
  assumes "changed ty v H xs v' H' \<or> v' = v \<and> H' = H \<and> own v H \<and> vec_ok ty H v xs" and "pair_order.strict xs"
  shows "keyed_ok ty H' v' (map_of xs)"
  using assms changed_own [of ty v H xs v' H'] unfolding keyed_ok_def by auto

lemma keyed_add_map:
  assumes o: "own v H" and v: "vec_ok ty H v xs" and s: "pair_order.strict xs" and f: "fits ty (Suc (length xs))"
  shows "\<exists>i v' H'. keyed_add plenty ty k val v H = Inr (i, v', H') \<and> 0 \<le> i \<and> keyed_ok ty H' v' ((map_of xs)(k \<mapsto> val)) \<and>
    item_at v' H' (nat i) = Inr (k, val)"
proof -
  obtain v1 H1 where a: "keyed_add plenty ty k val v H = Inr (int (pair_order.rank (k, val) xs), v1, H1)" "changed ty v H (pair_order.put_item (k, val) xs) v1 H1"
    using keyed_add_ok [OF o v s f] by blast
  have at: "pair_order.rank (k, val) xs < length (pair_order.put_item (k, val) xs)" "pair_order.put_item (k, val) xs ! pair_order.rank (k, val) xs = (k, val)"
    using pair_order.rank_le [of "(k, val)" xs] unfolding pair_order.put_item_cases [OF s] by (auto simp: nth_append pair_order.found_def)
  show ?thesis
    using a keyed_step [OF disjI1 [OF a(2)] pair_order.strict_put [OF s]] item_at_ok [OF conjunct2 [OF changed_own [OF a(2)]] at(1)] at(2)
    by (auto simp: map_of_put_item [OF s])
qed

lemma indexOfKey_ok:
  assumes "vec_ok ty H v xs" and "pair_order.strict xs" and "length xs < 2147483648"
  shows "indexOfKey d k v H = Inr (if k \<in> dom (map_of xs) then int (pair_order.rank (k, d) xs) else NAME_NOT_FOUND)"
  using pair_order.indexOrderOf_ok [OF assms] found_map(1) [OF assms(2), of k d]
  by (simp add: indexOfKey_def indexOf_def pair_order.result_of_def dom_map_of_conv_image_fst)

lemma valueFor_ok:
  assumes v: "vec_ok ty H v xs" and s: "pair_order.strict xs" and len: "length xs < 2147483648"
  shows "valueFor d dflt k v H = Inr (case map_of xs k of Some x \<Rightarrow> x | None \<Rightarrow> dflt)"
proof (cases "k \<in> dom (map_of xs)")
  case True
  then have "pair_order.found (k, d) xs" using found_map(1) [OF s] by (simp add: dom_map_of_conv_image_fst)
  then have "map_of xs k = Some (snd (xs ! pair_order.rank (k, d) xs))" "pair_order.rank (k, d) xs < length xs"
    using found_map(2) [OF s] by (simp_all add: pair_order.found_def)
  then show ?thesis using True indexOfKey_ok [OF v s len, of d k] item_at_ok [OF v] by (simp add: valueFor_def valueAt_def)
next
  case False
  then have "map_of xs k = None" by auto
  then show ?thesis using False indexOfKey_ok [OF v s len, of d k] by (simp add: valueFor_def NAME_NOT_FOUND_def)
qed

lemma found_item:
  assumes v: "vec_ok ty H v xs" and s: "pair_order.strict xs" and f: "pair_order.found (k, d) xs"
  shows "item_at v H (pair_order.rank (k, d) xs) = Inr (k, the (map_of xs k))"
proof -
  have "pair_order.rank (k, d) xs < length xs" "fst (xs ! pair_order.rank (k, d) xs) = k"
    using f unfolding pair_order.found_def pair_cmp by (auto split: if_splits)
  then show ?thesis using item_at_ok [OF v] found_map(2) [OF s f] by (metis option.sel prod.collapse)
qed

lemma keyed_remove_ok:
  assumes o: "own v H" and v: "vec_ok ty H v xs" and s: "pair_order.strict xs" and f: "fits ty (length xs)"
  shows "\<exists>i v' H'. sorted_remove plenty ty (compare_type order_pair) (k, x) v H = Inr (i, v', H') \<and>
    (if k \<in> dom (map_of xs) then 0 \<le> i \<and> item_at v H (nat i) = Inr (k, the (map_of xs k)) else i < 0) \<and>
    own v' H' \<and> vec_ok ty H' v' (pair_order.drop_item (k, x) xs)"
proof -
  obtain v' H' where q: "sorted_remove plenty ty (compare_type order_pair) (k, x) v H = Inr (fst (pair_order.result_of (k, x) xs), v', H')"
      "changed ty v H (pair_order.drop_item (k, x) xs) v' H' \<or> v' = v \<and> H' = H \<and> pair_order.drop_item (k, x) xs = xs"
    using pair_order.sorted_remove_contract [OF v] s f unfolding pair_order.remove_item_pre_def by blast
  have "if k \<in> dom (map_of xs) then 0 \<le> fst (pair_order.result_of (k, x) xs) \<and>
        item_at v H (nat (fst (pair_order.result_of (k, x) xs))) = Inr (k, the (map_of xs k)) else fst (pair_order.result_of (k, x) xs) < 0"
    using found_map(1) [OF s, of k x] found_item [OF v s, of k x]
    by (simp add: pair_order.result_of_def NAME_NOT_FOUND_def dom_map_of_conv_image_fst)
  moreover have "own v' H' \<and> vec_ok ty H' v' (pair_order.drop_item (k, x) xs)" using q(2) changed_own [of ty v H _ v' H'] o v by auto
  ultimately show ?thesis using q(1) by blast
qed

text \<open>
  C15. A keyed vector is a map. \<open>valueFor\<close> finds the value of a key by binary search, or the default; \<open>add\<close> and
  \<open>replaceValueFor\<close> map the key to the value and return the position where the item with that key and value now is;
  \<open>removeItem\<close> takes the key out and returns the position where its item was, or a negative number; the items stay sorted
  by their keys, each key once.\<close>
theorem keyed_vector_is_map:
  assumes m: "keyed_ok ty H v m" and f: "fits ty (Suc (card (dom m)))"
  shows "valueFor d dflt k v H = Inr (case m k of Some x \<Rightarrow> x | None \<Rightarrow> dflt) \<and>
    (\<exists>i v' H'. keyed_add plenty ty k val v H = Inr (i, v', H') \<and> 0 \<le> i \<and> keyed_ok ty H' v' (m(k \<mapsto> val)) \<and> item_at v' H' (nat i) = Inr (k, val)) \<and>
    (\<exists>i v' H'. removeItem plenty ty d k v H = Inr (i, v', H') \<and> keyed_ok ty H' v' (m(k := None)) \<and>
      (if k \<in> dom m then 0 \<le> i \<and> item_at v H (nat i) = Inr (k, the (m k)) else i < 0)) \<and>
    (\<exists>i v' H'. replaceValueFor plenty ty k val v H = Inr (i, v', H') \<and> 0 \<le> i \<and> keyed_ok ty H' v' (m(k \<mapsto> val)) \<and> item_at v' H' (nat i) = Inr (k, val))"
proof -
  obtain xs where o: "own v H" and v: "vec_ok ty H v xs" and s: "pair_order.strict xs" and mx: "m = map_of xs" using m unfolding keyed_ok_def by blast
  have f: "fits ty (Suc (length xs))" "fits ty (length xs)" using f fits_mono unfolding mx keyed_length [OF s] by auto
  have len: "length xs < 2147483648" using grow_capacity(4) [OF f(1)] by simp
  have look: "valueFor d dflt k v H = Inr (case m k of Some x \<Rightarrow> x | None \<Rightarrow> dflt)" unfolding mx by (rule valueFor_ok [OF v s len])
  have add: "\<exists>i v' H'. keyed_add plenty ty k val v H = Inr (i, v', H') \<and> 0 \<le> i \<and> keyed_ok ty H' v' (m(k \<mapsto> val)) \<and> item_at v' H' (nat i) = Inr (k, val)"
    unfolding mx by (rule keyed_add_map [OF o v s f(1)])
  note rem = keyed_remove_ok [OF o v s f(2), of k]
  have remove: "\<exists>i v' H'. removeItem plenty ty d k v H = Inr (i, v', H') \<and> keyed_ok ty H' v' (m(k := None)) \<and>
      (if k \<in> dom m then 0 \<le> i \<and> item_at v H (nat i) = Inr (k, the (m k)) else i < 0)"
    using rem [where x = d] pair_order.strict_drop [OF s, of "(k, d)"] map_of_drop_item [of k d xs] unfolding removeItem_def keyed_ok_def mx by metis
  have "\<exists>i v' H'. replaceValueFor plenty ty k val v H = Inr (i, v', H') \<and> 0 \<le> i \<and> keyed_ok ty H' v' (m(k \<mapsto> val)) \<and> item_at v' H' (nat i) = Inr (k, val)"
  proof -
    let ?ys = "pair_order.drop_item (k, val) xs"
    obtain i v2 H2 where q: "sorted_remove plenty ty (compare_type order_pair) (k, val) v H = Inr (i, v2, H2)" "own v2 H2" "vec_ok ty H2 v2 ?ys"
      using rem [where x = val] by blast
    have sy: "pair_order.strict ?ys" by (rule pair_order.strict_drop [OF s])
    have fy: "fits ty (Suc (length ?ys))" by (rule fits_mono [OF f(1)]) (simp add: pair_order.drop_item_def)
    have "(map_of ?ys)(k \<mapsto> val) = m(k \<mapsto> val)" by (simp add: map_of_drop_item mx)
    then show ?thesis using q(1) keyed_add_map [OF q(2,3) sy fy, of k val] by (simp add: replaceValueFor_def keyed_add_def)
  qed
  then show ?thesis using look add remove by blast
qed

theorem keyed_vector_is_map_witness:
  "valueFor 0 (7 :: nat) (5 :: nat) \<lparr> mStorage = Some 0, mCount = 2 \<rparr> [Some \<lparr> mRefs = 1, mBytes = 16, cells = [Some (3, 30), Some (5, 50)] \<rparr>] = Inr 50"
proof -
  let ?ty = "\<lparr> mItemSize = 8, trivial = False \<rparr>" and ?v = "\<lparr> mStorage = Some 0, mCount = 2 \<rparr>"
    and ?H = "[Some \<lparr> mRefs = 1, mBytes = 16, cells = [Some (3 :: nat, 30 :: nat), Some (5, 50)] \<rparr>]"
  have "vec_ok ?ty ?H ?v [(3, 30), (5, 50)]" by (simp add: vec_ok_def buf_ok_def raw_def)
  moreover have "pair_order.strict [(3 :: nat, 30 :: nat), (5, 50)]" by (simp add: strict_keys)
  ultimately have "keyed_ok ?ty ?H ?v (map_of [(3, 30), (5, 50)])" unfolding keyed_ok_def by (auto simp: own_def)
  moreover have "fits ?ty (Suc (card (dom (map_of [(3 :: nat, 30 :: nat), (5, 50)]))))"
    by (subst keyed_length) (simp_all add: strict_keys fits_def)
  ultimately show ?thesis using keyed_vector_is_map [of ?ty ?H ?v "map_of [(3, 30), (5, 50)]" 0 7 5] by simp
qed

text \<open>Merging a sorted vector into an empty one compares with an item that is not there.\<close>

theorem merge_into_empty:
  assumes "vec_ok ty H w ys" and "ys \<noteq> []"
  shows "merge_sorted mem ty cmp w VectorImpl_new H = Inl NullPointer"
proof -
  have n: "unat (mCount w) = length ys" using assms(1) vec_length [OF assms(1)] by (simp add: vec_ok_def unat_of_nat_u32)
  then have nz: "mCount w \<noteq> 0" using assms(2) by auto
  have empty: "item_at VectorImpl_new H 0 = Inl NullPointer" by (simp add: item_at_def VectorImpl_new_def)
  have "unat (mCount w - 1) < length ys" using unat_pred_u32 [OF nz] n assms(2) by simp
  then show ?thesis using nz item_at_ok [OF assms(1)] by (simp add: merge_sorted_def empty)
qed

end
