(* ===== verification/Log_Filter.thy ===== *)
theory Log_Filter
  imports Prelude_C
begin

text \<open>
  The filters of \<open>liblog/logprint.c\<close>: a log format holds a global priority and a chain of filters, newest
  first; a filter expression such as \<open>"AT:d *:i"\<close> adds rules to it, and \<open>android_log_shouldPrintLine\<close>
  asks it. Strings are lists of characters without the terminating NUL. The allocations, which the code
  does not check, are taken to succeed. The specification is a global priority and a map from tags.
\<close>

subsection \<open>Priorities and formats\<close>

type_synonym priority = int

definition ANDROID_LOG_UNKNOWN :: priority where [simp]: "ANDROID_LOG_UNKNOWN = 0"
definition ANDROID_LOG_DEFAULT :: priority where [simp]: "ANDROID_LOG_DEFAULT = 1"
definition ANDROID_LOG_VERBOSE :: priority where [simp]: "ANDROID_LOG_VERBOSE = 2"
definition ANDROID_LOG_DEBUG :: priority where [simp]: "ANDROID_LOG_DEBUG = 3"
definition ANDROID_LOG_INFO :: priority where [simp]: "ANDROID_LOG_INFO = 4"
definition ANDROID_LOG_WARN :: priority where [simp]: "ANDROID_LOG_WARN = 5"
definition ANDROID_LOG_ERROR :: priority where [simp]: "ANDROID_LOG_ERROR = 6"
definition ANDROID_LOG_FATAL :: priority where [simp]: "ANDROID_LOG_FATAL = 7"
definition ANDROID_LOG_SILENT :: priority where [simp]: "ANDROID_LOG_SILENT = 8"

datatype print_format =
    FORMAT_OFF | FORMAT_BRIEF | FORMAT_PROCESS | FORMAT_TAG | FORMAT_THREAD | FORMAT_RAW | FORMAT_TIME
  | FORMAT_THREADTIME | FORMAT_LONG

datatype colored_output = OUTPUT_COLOR_ON | OUTPUT_COLOR_OFF

record filter_info =
  mTag :: string
  mPri :: priority

record log_format =
  global_pri :: priority
  filters :: "filter_info list"
  lformat :: print_format
  color_out :: colored_output

definition filterinfo_new :: "string \<Rightarrow> priority \<Rightarrow> filter_info" where
  "filterinfo_new tag pri = \<lparr> mTag = tag, mPri = pri \<rparr>"

definition tolower :: "char \<Rightarrow> char" where
  "tolower c = (let n = of_char c :: nat in if 65 \<le> n \<and> n \<le> 90 then char_of (n + 32) else c)"

definition filterCharToPri :: "char \<Rightarrow> priority" where
  "filterCharToPri ch =
     (let c = tolower ch; n = of_char c :: int
      in if 48 \<le> n \<and> n \<le> 57 then if n \<ge> 48 + ANDROID_LOG_SILENT then ANDROID_LOG_VERBOSE else n - 48
         else if c = CHR ''v'' then ANDROID_LOG_VERBOSE
         else if c = CHR ''d'' then ANDROID_LOG_DEBUG
         else if c = CHR ''i'' then ANDROID_LOG_INFO
         else if c = CHR ''w'' then ANDROID_LOG_WARN
         else if c = CHR ''e'' then ANDROID_LOG_ERROR
         else if c = CHR ''f'' then ANDROID_LOG_FATAL
         else if c = CHR ''s'' then ANDROID_LOG_SILENT
         else if c = CHR ''*'' then ANDROID_LOG_DEFAULT
         else ANDROID_LOG_UNKNOWN)"

definition filterPriToChar :: "priority \<Rightarrow> char" where
  "filterPriToChar pri =
     (if pri = ANDROID_LOG_VERBOSE then CHR ''V''
      else if pri = ANDROID_LOG_DEBUG then CHR ''D''
      else if pri = ANDROID_LOG_INFO then CHR ''I''
      else if pri = ANDROID_LOG_WARN then CHR ''W''
      else if pri = ANDROID_LOG_ERROR then CHR ''E''
      else if pri = ANDROID_LOG_FATAL then CHR ''F''
      else if pri = ANDROID_LOG_SILENT then CHR ''S''
      else CHR ''?'')"

definition colorFromPri :: "priority \<Rightarrow> int" where
  "colorFromPri pri =
     (if pri = ANDROID_LOG_DEBUG then 75
      else if pri = ANDROID_LOG_INFO then 40
      else if pri = ANDROID_LOG_WARN then 166
      else if pri = ANDROID_LOG_ERROR \<or> pri = ANDROID_LOG_FATAL then 196
      else 231)"

subsection \<open>Filters\<close>

fun pri_in :: "priority \<Rightarrow> filter_info list \<Rightarrow> string \<Rightarrow> priority" where
  "pri_in g [] tag = g"
| "pri_in g (fi # fis) tag =
     (if tag = mTag fi then if mPri fi = ANDROID_LOG_DEFAULT then g else mPri fi else pri_in g fis tag)"

definition filterPriForTag :: "log_format \<Rightarrow> string \<Rightarrow> priority" where
  "filterPriForTag p tag = pri_in (global_pri p) (filters p) tag"

text \<open>The lines that \<open>dumpFilters\<close> prints.\<close>

definition dumpFilters :: "log_format \<Rightarrow> string list" where
  "dumpFilters p =
     map (\<lambda>fi. mTag fi @ CHR '':'' #
            [filterPriToChar (if mPri fi = ANDROID_LOG_DEFAULT then global_pri p else mPri fi)]) (filters p) @
     [''*:'' @ [filterPriToChar (global_pri p)]]"

definition android_log_shouldPrintLine :: "log_format \<Rightarrow> string \<Rightarrow> priority \<Rightarrow> bool" where
  "android_log_shouldPrintLine p tag pri \<longleftrightarrow> pri \<ge> filterPriForTag p tag"

definition android_log_format_new :: log_format where
  "android_log_format_new =
     \<lparr> global_pri = ANDROID_LOG_VERBOSE, filters = [], lformat = FORMAT_BRIEF, color_out = OUTPUT_COLOR_OFF \<rparr>"

definition android_log_setPrintFormat :: "log_format \<Rightarrow> print_format \<Rightarrow> log_format" where
  "android_log_setPrintFormat p f = p\<lparr> lformat := f \<rparr>"

definition android_log_setColoredOutput :: "log_format \<Rightarrow> log_format" where
  "android_log_setColoredOutput p = p\<lparr> color_out := OUTPUT_COLOR_ON \<rparr>"

definition android_log_formatFromString :: "string \<Rightarrow> print_format" where
  "android_log_formatFromString s =
     (if s = ''brief'' then FORMAT_BRIEF
      else if s = ''process'' then FORMAT_PROCESS
      else if s = ''tag'' then FORMAT_TAG
      else if s = ''thread'' then FORMAT_THREAD
      else if s = ''raw'' then FORMAT_RAW
      else if s = ''time'' then FORMAT_TIME
      else if s = ''threadtime'' then FORMAT_THREADTIME
      else if s = ''long'' then FORMAT_LONG
      else FORMAT_OFF)"

text \<open>\<open>strncmp\<close> compares up to the terminator.\<close>

definition strncmp_eq :: "nat \<Rightarrow> string \<Rightarrow> string \<Rightarrow> bool" where
  "strncmp_eq n s t \<longleftrightarrow> take n (s @ [NUL]) = take n (t @ [NUL])"

definition android_log_addFilterRule :: "log_format \<Rightarrow> string \<Rightarrow> log_format \<times> int" where
  "android_log_addFilterRule p expr =
     (let n = length (takeWhile (\<lambda>c. c \<noteq> CHR '':'') expr) in
      if n = 0 then (p, -1)
      else
        let pri = (if chr_at (drop n expr) = CHR '':'' then filterCharToPri (chr_at (drop (n + 1) expr)) else ANDROID_LOG_DEFAULT)
        in if chr_at (drop n expr) = CHR '':'' \<and> pri = ANDROID_LOG_UNKNOWN then (p, -1)
           else if strncmp_eq n ''*'' expr then
             (p\<lparr> global_pri := (if pri = ANDROID_LOG_DEFAULT then ANDROID_LOG_DEBUG else pri) \<rparr>, 0)
           else
             (p\<lparr> filters := filterinfo_new (take n expr) (if pri = ANDROID_LOG_DEFAULT then ANDROID_LOG_VERBOSE else pri) # filters p \<rparr>, 0))"

definition is_sep :: "char \<Rightarrow> bool" where
  "is_sep c \<longleftrightarrow> c = CHR '' '' \<or> c = CHR 0x09 \<or> c = CHR '',''"

text \<open>The tokens that the calls of \<open>strsep\<close> return, the empty ones included.\<close>

fun strsep_tokens :: "string \<Rightarrow> string \<Rightarrow> string list" where
  "strsep_tokens acc [] = [acc]"
| "strsep_tokens acc (c # cs) = (if is_sep c then acc # strsep_tokens [] cs else strsep_tokens (acc @ [c]) cs)"

fun add_rules :: "log_format \<Rightarrow> string list \<Rightarrow> log_format \<times> int" where
  "add_rules p [] = (p, 0)"
| "add_rules p (t # ts) =
     (if t \<noteq> [] then (case android_log_addFilterRule p t of (p', err) \<Rightarrow> if err < 0 then (p', -1) else add_rules p' ts)
      else add_rules p ts)"

definition android_log_addFilterString :: "log_format \<Rightarrow> string \<Rightarrow> log_format \<times> int" where
  "android_log_addFilterString p s = add_rules p (strsep_tokens [] s)"

text \<open>\<open>strip_end\<close> replaces the white space at the end by NULs.\<close>

definition isspace_c :: "char \<Rightarrow> bool" where
  "isspace_c c \<longleftrightarrow> c \<in> {CHR '' '', CHR 0x09, CHR 0x0A, CHR 0x0B, CHR 0x0C, CHR 0x0D}"

definition strip_end :: "string \<Rightarrow> string" where
  "strip_end s = rev (dropWhile isspace_c (rev s))"

text \<open>The memory that the formats hold: the formats, the filters and the copies of the tags. Freeing a format
  does not free the tags of its filters; \<open>filterinfo_free\<close>, which would free one, frees nothing else.\<close>

record log_heap =
  h_formats :: nat
  h_infos :: nat
  h_tags :: nat

definition filterinfo_free :: "filter_info option \<Rightarrow> log_heap \<Rightarrow> log_heap" where
  "filterinfo_free info h = (case info of None \<Rightarrow> h | Some _ \<Rightarrow> h\<lparr> h_tags := h_tags h - 1 \<rparr>)"

fun free_infos :: "filter_info list \<Rightarrow> log_heap \<Rightarrow> log_heap" where
  "free_infos [] h = h"
| "free_infos (fi # fis) h = free_infos fis (h\<lparr> h_infos := h_infos h - 1 \<rparr>)"

definition android_log_format_free :: "log_format \<Rightarrow> log_heap \<Rightarrow> log_heap" where
  "android_log_format_free p h = (let h' = free_infos (filters p) h in h'\<lparr> h_formats := h_formats h' - 1 \<rparr>)"

subsection \<open>The specification\<close>

text \<open>The abstract filter: a global priority and a priority for some tags.\<close>

type_synonym filter_spec = "priority \<times> (string \<rightharpoonup> priority)"

definition filter_abs :: "log_format \<Rightarrow> filter_spec" where
  "filter_abs p = (global_pri p, map_of (map (\<lambda>fi. (mTag fi, mPri fi)) (filters p)))"

definition spec_priority :: "filter_spec \<Rightarrow> string \<Rightarrow> priority" where
  "spec_priority f tag = (case snd f tag of None \<Rightarrow> fst f | Some pri \<Rightarrow> if pri = ANDROID_LOG_DEFAULT then fst f else pri)"

text \<open>A rule: a tag and a letter or digit for the priority, or none.\<close>

type_synonym rule_expr = "string \<times> char option"

definition filter_rule_ok :: "rule_expr \<Rightarrow> bool" where
  "filter_rule_ok r \<longleftrightarrow> fst r \<noteq> [] \<and> CHR '':'' \<notin> set (fst r) \<and> NUL \<notin> set (fst r) \<and> list_all (\<lambda>c. \<not> is_sep c) (fst r) \<and>
     (case snd r of None \<Rightarrow> True | Some c \<Rightarrow> filterCharToPri c \<noteq> ANDROID_LOG_UNKNOWN)"

definition print_filter_rule :: "rule_expr \<Rightarrow> string" where
  "print_filter_rule r = fst r @ (case snd r of None \<Rightarrow> [] | Some c \<Rightarrow> [CHR '':'', c])"

definition rule_pri :: "priority \<Rightarrow> rule_expr \<Rightarrow> priority" where
  "rule_pri dflt r =
     (case snd r of None \<Rightarrow> dflt | Some c \<Rightarrow> if filterCharToPri c = ANDROID_LOG_DEFAULT then dflt else filterCharToPri c)"

definition spec_rule :: "rule_expr \<Rightarrow> filter_spec \<Rightarrow> filter_spec" where
  "spec_rule r f =
     (if fst r = ''*'' then (rule_pri ANDROID_LOG_DEBUG r, snd f)
      else (fst f, (snd f)(fst r \<mapsto> rule_pri ANDROID_LOG_VERBOSE r)))"

text \<open>A filter string: each rule after any number of separators, and separators at the end.\<close>

definition filter_text :: "(string \<times> rule_expr) list \<Rightarrow> string \<Rightarrow> string" where
  "filter_text rs trail = concat (map (\<lambda>(sep, r). sep @ print_filter_rule r) rs) @ trail"

definition seps_ok :: "(string \<times> rule_expr) list \<Rightarrow> string \<Rightarrow> bool" where
  "seps_ok rs trail \<longleftrightarrow> list_all (\<lambda>(sep, r). list_all is_sep sep) rs \<and> list_all (\<lambda>(sep, r). sep \<noteq> []) (tl rs) \<and> list_all is_sep trail"

subsection \<open>Filters implement the specification\<close>

lemma pri_in_abs: "pri_in g fis tag = spec_priority (g, map_of (map (\<lambda>fi. (mTag fi, mPri fi)) fis)) tag"
  by (induction fis) (auto simp: spec_priority_def split: option.split)

lemma filterPriForTag_abs: "filterPriForTag p tag = spec_priority (filter_abs p) tag"
  by (simp add: filterPriForTag_def filter_abs_def pri_in_abs)

lemma tag_length:
  "CHR '':'' \<notin> set tag \<Longrightarrow> takeWhile (\<lambda>c. c \<noteq> CHR '':'') (tag @ CHR '':'' # s) = tag"
  "CHR '':'' \<notin> set tag \<Longrightarrow> takeWhile (\<lambda>c. c \<noteq> CHR '':'') tag = tag"
  by (auto simp: takeWhile_append)

lemma strncmp_star: "tag \<noteq> [] \<Longrightarrow> NUL \<notin> set tag \<Longrightarrow> strncmp_eq (length tag) ''*'' (tag @ s) \<longleftrightarrow> tag = ''*''"
  by (cases tag rule: list.exhaust; cases "tl tag") (auto simp: strncmp_eq_def)

lemma addFilterRule_ok:
  assumes "filter_rule_ok r"
  obtains p' where "android_log_addFilterRule p (print_filter_rule r) = (p', 0)" and "filter_abs p' = spec_rule r (filter_abs p)"
proof -
  obtain tag c where r: "r = (tag, c)" by (cases r)
  have tag: "tag \<noteq> []" "CHR '':'' \<notin> set tag" "NUL \<notin> set tag" using assms by (auto simp: filter_rule_ok_def r)
  have pri: "filterCharToPri ch \<noteq> 0" if "c = Some ch" for ch using assms that by (simp add: filter_rule_ok_def r)
  show thesis
  proof (cases c)
    case None
    have "chr_at [] \<noteq> CHR '':''" by (simp add: NUL_def)
    then show thesis using that tag strncmp_star [OF tag(1,3), of "[]"]
      by (fastforce simp: android_log_addFilterRule_def print_filter_rule_def r None tag_length filterinfo_new_def
          filter_abs_def spec_rule_def rule_pri_def Let_def)
  next
    case (Some ch)
    show thesis using that tag strncmp_star [OF tag(1,3), of "[CHR '':'', ch]"] pri [OF Some]
      by (fastforce simp: android_log_addFilterRule_def print_filter_rule_def r Some tag_length filterinfo_new_def
          filter_abs_def spec_rule_def rule_pri_def Let_def)
  qed
qed

lemma addFilterRule_bad:
  assumes "tag \<noteq> []" and "CHR '':'' \<notin> set tag" and "filterCharToPri c = ANDROID_LOG_UNKNOWN"
  shows "android_log_addFilterRule p (tag @ [CHR '':'', c]) = (p, -1)"
  using assms by (simp add: android_log_addFilterRule_def tag_length Let_def)

lemma add_rules_nonempty: "add_rules p ts = add_rules p (filter (\<lambda>t. t \<noteq> []) ts)"
  by (induction ts arbitrary: p) (auto split: prod.split)

lemma tokens_word: "list_all (\<lambda>c. \<not> is_sep c) w \<Longrightarrow> strsep_tokens acc (w @ s) = strsep_tokens (acc @ w) s"
  by (induction w arbitrary: acc) auto

lemma tokens_sep:
  "list_all is_sep sep \<Longrightarrow> sep \<noteq> [] \<Longrightarrow>
    filter (\<lambda>t. t \<noteq> []) (strsep_tokens acc (sep @ s)) = filter (\<lambda>t. t \<noteq> []) (acc # strsep_tokens [] s)"
proof (induction sep arbitrary: acc)
  case (Cons c sep)
  then show ?case by (cases "sep = []") auto
qed simp

lemma tokens_trail: "list_all is_sep trail \<Longrightarrow> filter (\<lambda>t. t \<noteq> []) (strsep_tokens acc trail) = filter (\<lambda>t. t \<noteq> []) [acc]"
  by (induction trail arbitrary: acc) auto

lemma tokens_list:
  assumes "list_all (\<lambda>(sep, w). list_all is_sep sep \<and> sep \<noteq> [] \<and> list_all (\<lambda>c. \<not> is_sep c) w \<and> w \<noteq> []) ws" and "list_all is_sep trail"
  shows "filter (\<lambda>t. t \<noteq> []) (strsep_tokens acc (concat (map (\<lambda>(sep, w). sep @ w) ws) @ trail))
    = filter (\<lambda>t. t \<noteq> []) [acc] @ map snd ws"
  using assms(1)
proof (induction ws arbitrary: acc)
  case Nil
  then show ?case using tokens_trail [OF assms(2)] by simp
next
  case (Cons sw ws)
  obtain sep w where sw: "sw = (sep, w)" by (cases sw)
  then show ?case using Cons tokens_sep [of sep acc] tokens_word [of w "[]"] by simp
qed

definition words_of :: "(string \<times> rule_expr) list \<Rightarrow> (string \<times> string) list" where
  "words_of rs = map (\<lambda>(sep, r). (sep, print_filter_rule r)) rs"

lemma filter_text_words: "filter_text rs trail = concat (map (\<lambda>(sep, w). sep @ w) (words_of rs)) @ trail"
  by (simp add: filter_text_def words_of_def comp_def split_def)

lemma pri_not_sep: "is_sep c \<Longrightarrow> filterCharToPri c = 0"
  by (auto simp: is_sep_def filterCharToPri_def tolower_def)

text \<open>The text of a rule is one token; so is that of a rule with an unknown priority that is no separator.\<close>

definition word_ok :: "rule_expr \<Rightarrow> bool" where
  "word_ok r \<longleftrightarrow> fst r \<noteq> [] \<and> list_all (\<lambda>c. \<not> is_sep c) (print_filter_rule r)"

lemma rule_word: "filter_rule_ok r \<Longrightarrow> word_ok r"
  using pri_not_sep by (auto simp: filter_rule_ok_def word_ok_def print_filter_rule_def is_sep_def split: option.splits)

lemma tokens_rules:
  assumes "list_all (\<lambda>(sep, r). word_ok r) rs" and "seps_ok rs trail"
  shows "filter (\<lambda>t. t \<noteq> []) (strsep_tokens [] (filter_text rs trail)) = map (\<lambda>(sep, r). print_filter_rule r) rs"
proof -
  have ws: "list_all (\<lambda>(sep, w). list_all is_sep sep \<and> sep \<noteq> [] \<and> list_all (\<lambda>c. \<not> is_sep c) w \<and> w \<noteq> []) (words_of rs')"
    if "list_all (\<lambda>(sep, r). word_ok r) rs'" "list_all (\<lambda>(sep, r). list_all is_sep sep) rs'" "list_all (\<lambda>(sep, r). sep \<noteq> []) rs'" for rs'
    using that by (induction rs') (auto simp: words_of_def word_ok_def print_filter_rule_def)
  show ?thesis
  proof (cases rs)
    case Nil
    then show ?thesis using tokens_trail assms(2) by (simp add: filter_text_def seps_ok_def)
  next
    case (Cons sr rs')
    obtain sep r where sr: "sr = (sep, r)" by (cases sr)
    have r: "list_all (\<lambda>c. \<not> is_sep c) (print_filter_rule r)" "print_filter_rule r \<noteq> []"
      using assms(1) Cons sr by (auto simp: word_ok_def print_filter_rule_def)
    have rest: "filter (\<lambda>t. t \<noteq> []) (strsep_tokens acc (filter_text rs' trail))
        = filter (\<lambda>t. t \<noteq> []) [acc] @ map (\<lambda>(sep, r). print_filter_rule r) rs'" for acc
      using tokens_list [OF ws [of rs'], of trail acc] assms Cons
      by (simp add: seps_ok_def filter_text_words words_of_def comp_def case_prod_beta)
    have first: "filter (\<lambda>t. t \<noteq> []) (strsep_tokens [] (sep @ s)) = filter (\<lambda>t. t \<noteq> []) (strsep_tokens [] s)" for s
      using tokens_sep [of sep "[]" s] assms(2) Cons sr by (cases "sep = []") (auto simp: seps_ok_def)
    have "filter_text rs trail = sep @ print_filter_rule r @ filter_text rs' trail" by (simp add: filter_text_def Cons sr)
    then show ?thesis using first rest [of "print_filter_rule r"] tokens_word [OF r(1), of "[]"] r(2) by (simp add: Cons sr)
  qed
qed

lemma add_rules_ok:
  assumes "list_all (\<lambda>(sep, r). filter_rule_ok r) rs"
  obtains p' where "\<And>ts. add_rules p (map (\<lambda>(sep, r). print_filter_rule r) rs @ ts) = add_rules p' ts"
    and "filter_abs p' = fold spec_rule (map snd rs) (filter_abs p)"
  using assms
proof (induction rs arbitrary: p thesis)
  case Nil
  then show ?case by simp
next
  case (Cons sr rs)
  obtain sep r where sr: "sr = (sep, r)" by (cases sr)
  have ok: "filter_rule_ok r" "list_all (\<lambda>(sep, r). filter_rule_ok r) rs" using Cons.prems(2) sr by auto
  obtain p1 where p1: "android_log_addFilterRule p (print_filter_rule r) = (p1, 0)" "filter_abs p1 = spec_rule r (filter_abs p)"
    using addFilterRule_ok [OF ok(1)] by blast
  obtain p' where p': "\<And>ts. add_rules p1 (map (\<lambda>(sep, r). print_filter_rule r) rs @ ts) = add_rules p' ts"
    "filter_abs p' = fold spec_rule (map snd rs) (filter_abs p1)" using Cons.IH [OF _ ok(2)] by blast
  have "print_filter_rule r \<noteq> []" using ok(1) by (auto simp: filter_rule_ok_def print_filter_rule_def)
  then show ?case using Cons.prems(1) [of p'] p1 p' sr by simp
qed

text \<open>
  C38. The filters refine a global priority with a map from tags: adding a string of well-formed rules,
  with any separators between them, succeeds and has the effect of the rules in their order on the
  abstract filter, so that the last rule for a tag, or for all of them, decides which lines are printed. A
  rule with an unknown priority makes the call fail with the rules before it in place.
\<close>
theorem filters_refine_spec:
  assumes rs: "list_all (\<lambda>(sep, r). filter_rule_ok r) rs" and "seps_ok rs trail"
    and bad: "tag \<noteq> []" "list_all (\<lambda>c. \<not> is_sep c \<and> c \<noteq> CHR '':'') tag" "\<not> is_sep c" "filterCharToPri c = ANDROID_LOG_UNKNOWN"
    and "seps_ok (rs @ [(sep, (tag, Some c))]) trail"
  shows "\<exists>p'. android_log_addFilterString p (filter_text rs trail) = (p', 0) \<and>
      android_log_addFilterString p (filter_text (rs @ [(sep, (tag, Some c))]) trail) = (p', -1) \<and>
      filter_abs p' = fold spec_rule (map snd rs) (filter_abs p) \<and>
      (\<forall>t pri. android_log_shouldPrintLine p' t pri \<longleftrightarrow> pri \<ge> spec_priority (fold spec_rule (map snd rs) (filter_abs p)) t)"
proof -
  obtain p' where p': "\<And>ts. add_rules p (map (\<lambda>(sep, r). print_filter_rule r) rs @ ts) = add_rules p' ts"
    "filter_abs p' = fold spec_rule (map snd rs) (filter_abs p)" using add_rules_ok [OF rs] by blast
  have words: "list_all (\<lambda>(sep, r). word_ok r) rs" using rs rule_word by (auto simp: list_all_iff)
  have "word_ok (tag, Some c)" using bad by (auto simp: word_ok_def print_filter_rule_def is_sep_def list_all_iff)
  then have words': "list_all (\<lambda>(sep, r). word_ok r) (rs @ [(sep, (tag, Some c))])" using words by simp
  have "CHR '':'' \<notin> set tag" using bad(2) by (auto simp: list_all_iff)
  note last = addFilterRule_bad [OF bad(1) this bad(4), of p']
  have "android_log_addFilterString p (filter_text rs trail) = (p', 0)"
    unfolding android_log_addFilterString_def add_rules_nonempty [of p "strsep_tokens _ _"] tokens_rules [OF words assms(2)]
    using p'(1) [of "[]"] by simp
  moreover have "android_log_addFilterString p (filter_text (rs @ [(sep, (tag, Some c))]) trail) = (p', -1)"
    unfolding android_log_addFilterString_def add_rules_nonempty [of p "strsep_tokens _ _"] tokens_rules [OF words' assms(7)]
    using p'(1) [of "[tag @ [CHR '':'', c]]"] last bad(1) by (simp add: print_filter_rule_def [of "(tag, Some c)"])
  ultimately show ?thesis using p'(2) by (auto simp: android_log_shouldPrintLine_def filterPriForTag_abs)
qed

theorem filters_refine_spec_witness:
  "\<exists>p'. android_log_addFilterString android_log_format_new ''*:s random:d '' = (p', 0) \<and>
     android_log_addFilterString android_log_format_new ''*:s random:d random:z '' = (p', -1) \<and>
     \<not> android_log_shouldPrintLine p' ''other'' ANDROID_LOG_FATAL \<and> android_log_shouldPrintLine p' ''random'' ANDROID_LOG_DEBUG"
proof -
  let ?rs = "[([], (''*'', Some CHR ''s'')), ('' '', (''random'', Some CHR ''d''))]"
  have ok: "list_all (\<lambda>(sep, r). filter_rule_ok r) ?rs" by code_simp
  have seps: "seps_ok ?rs '' ''" "seps_ok (?rs @ [('' '', (''random'', Some CHR ''z''))]) '' ''" by code_simp+
  have bad: "''random'' \<noteq> []" "list_all (\<lambda>c. \<not> is_sep c \<and> c \<noteq> CHR '':'') ''random''" "\<not> is_sep CHR ''z''"
    "filterCharToPri CHR ''z'' = ANDROID_LOG_UNKNOWN" by code_simp+
  have txt1: "filter_text ?rs '' '' = ''*:s random:d ''" by code_simp
  have txt2: "filter_text (?rs @ [('' '', (''random'', Some CHR ''z''))]) '' '' = ''*:s random:d random:z ''" by code_simp
  have spec: "spec_priority (fold spec_rule (map snd ?rs) (filter_abs android_log_format_new)) ''other'' = 8"
    "spec_priority (fold spec_rule (map snd ?rs) (filter_abs android_log_format_new)) ''random'' = 3" by code_simp+
  show ?thesis using filters_refine_spec [OF ok seps(1) bad seps(2), of android_log_format_new] spec
    unfolding txt1 txt2 by auto
qed

text \<open>The tags stay allocated.\<close>

lemma free_infos_eq: "free_infos fis h = h\<lparr> h_infos := h_infos h - length fis \<rparr>"
  by (induction fis arbitrary: h) simp_all

lemma format_free_leaks_tags:
  "android_log_format_free p \<lparr> h_formats = 1, h_infos = length (filters p), h_tags = length (filters p) \<rparr>
    = \<lparr> h_formats = 0, h_infos = 0, h_tags = length (filters p) \<rparr>"
  by (simp add: android_log_format_free_def free_infos_eq)

end
