(* ===== verification/Event_Tag_Map.thy ===== *)
theory Event_Tag_Map
  imports Prelude_C "HOL-Library.Multiset"
begin

text \<open>
  The event tag map of \<open>liblog/event_tag_map.c\<close>: a text file of tag numbers and names is mapped into
  memory, its lines are counted, parsed in place (the names are cut out by writing NUL bytes into the
  private mapping), sorted by number and searched by bisection. The mapping is a list of characters and a
  pointer into it an offset; a read or write at or beyond its end is \<open>OutOfBounds\<close>. The messages on
  \<open>stderr\<close>, and the line number that only they use, are left out: every failing path is its own error
  value. \<open>qsort\<close> is an argument, with the contract of the C standard as a locale.
\<close>

subsection \<open>The map and its entries\<close>

datatype etm_error =
    OutOfBounds | AssertFailed | NoMemory | OpenFailed | SeekFailed | MmapFailed
  | MissingEOL | MoreTags | UnexpectedChars | MissingTagString | InvalidTagChars | WrongCount | DuplicateTags

record event_tag =
  tagIndex :: int
  tagStr :: nat

record event_tag_map =
  mapAddr :: string
  tagArray :: "event_tag list"
  numTags :: int

definition isCharWhitespace :: "char \<Rightarrow> bool" where
  "isCharWhitespace c \<longleftrightarrow> c = CHR '' '' \<or> c = CHR 0x0A \<or> c = CHR 0x0D \<or> c = CHR 0x09"

definition char_in :: "char \<Rightarrow> char \<Rightarrow> char \<Rightarrow> bool" where
  "char_in a b c \<longleftrightarrow> (of_char a :: nat) \<le> of_char c \<and> (of_char c :: nat) \<le> of_char b"

definition isCharValidTag :: "char \<Rightarrow> bool" where
  "isCharValidTag c \<longleftrightarrow> char_in CHR ''A'' CHR ''Z'' c \<or> char_in CHR ''a'' CHR ''z'' c \<or> char_in CHR ''0'' CHR ''9'' c \<or>
     c = CHR ''_''"

definition isCharDigit :: "char \<Rightarrow> bool" where
  "isCharDigit c \<longleftrightarrow> char_in CHR ''0'' CHR ''9'' c"

subsection \<open>Counting the lines\<close>

text \<open>The loop of \<open>countMapLines\<close>, with the flag \<open>unknown\<close>.\<close>

fun count_loop :: "bool \<Rightarrow> string \<Rightarrow> int" where
  "count_loop unknown [] = 0"
| "count_loop unknown (c # cs) =
     (if c = CHR 0x0A then count_loop True cs
      else if unknown then
        if isCharDigit c then 1 + count_loop False cs
        else if isCharWhitespace c then count_loop True cs
        else count_loop False cs
      else count_loop False cs)"

definition countMapLines :: "event_tag_map \<Rightarrow> int" where
  "countMapLines etm = count_loop True (mapAddr etm)"

subsection \<open>Parsing the lines\<close>

definition char_at :: "string \<Rightarrow> nat \<Rightarrow> etm_error + char" where
  "char_at m i = (if i < length m then Inr (m ! i) else Inl OutOfBounds)"

text \<open>The loops \<open>while (P(*++cp));\<close>: the first character after \<open>cp\<close> that is not \<open>P\<close>.\<close>

function scan_while :: "(char \<Rightarrow> bool) \<Rightarrow> string \<Rightarrow> nat \<Rightarrow> etm_error + nat" where
  "scan_while P m cp =
     (case char_at m (cp + 1) of
        Inl e \<Rightarrow> Inl e
      | Inr c \<Rightarrow> if P c then scan_while P m (cp + 1) else Inr (cp + 1))"
  by pat_completeness auto
termination by (relation "measure (\<lambda>(_, m, cp). length m - cp)") (auto simp: char_at_def split: if_splits)

declare scan_while.simps [simp del]

definition ULONG_MAX :: int where [simp]: "ULONG_MAX = 4294967295"

definition digits_value :: "string \<Rightarrow> int" where
  "digits_value s = foldl (\<lambda>n c. 10 * n + (of_char c - 48)) 0 s"

text \<open>\<open>strtoul\<close> in base 10 on a text that starts with a digit: the value, \<open>ULONG_MAX\<close> when it does not
  fit, and the number of characters read.\<close>

definition strtoul10 :: "string \<Rightarrow> int \<times> nat" where
  "strtoul10 s = (let ds = takeWhile isCharDigit s in (min (digits_value ds) ULONG_MAX, length ds))"

definition blank_not_eol :: "char \<Rightarrow> bool" where
  "blank_not_eol c \<longleftrightarrow> c \<noteq> CHR 0x0A \<and> isCharWhitespace c"

text \<open>The end of a tag line: the NUL behind the name, and \<open>cp\<close> at the end of the line.\<close>

definition end_tag_line :: "string \<Rightarrow> nat \<Rightarrow> etm_error + (string \<times> nat)" where
  "end_tag_line m cp =
     (if m ! cp = CHR 0x0A then Inr (m[cp := NUL], cp)
      else if isCharWhitespace (m ! cp) then
        (case scan_while (\<lambda>c. c \<noteq> CHR 0x0A) (m[cp := NUL]) cp of
           Inl e \<Rightarrow> Inl e
         | Inr cp' \<Rightarrow> Inr (m[cp := NUL], cp'))
      else Inl InvalidTagChars)"

definition scanTagLine :: "string \<Rightarrow> nat \<Rightarrow> etm_error + (string \<times> event_tag \<times> nat)" where
  "scanTagLine m startp =
     (case scan_while isCharDigit m startp of
        Inl e \<Rightarrow> Inl e
      | Inr cp \<Rightarrow>
          let m1 = m[cp := NUL]; (val, n) = strtoul10 (drop startp m1)
          in if startp + n \<noteq> cp then Inl AssertFailed
             else
               (case scan_while blank_not_eol m1 cp of
                  Inl e \<Rightarrow> Inl e
                | Inr cp1 \<Rightarrow>
                    if m1 ! cp1 = CHR 0x0A then Inl MissingTagString
                    else
                      (case scan_while isCharValidTag m1 cp1 of
                         Inl e \<Rightarrow> Inl e
                       | Inr cp2 \<Rightarrow>
                           (case end_tag_line m1 cp2 of
                              Inl e \<Rightarrow> Inl e
                            | Inr (m2, cp3) \<Rightarrow> Inr (m2, \<lparr> tagIndex = val, tagStr = cp1 \<rparr>, cp3)))))"

lemma scan_while_bounds: "scan_while P m cp = Inr cp' \<Longrightarrow> cp < cp' \<and> cp' < length m"
proof (induction P m cp rule: scan_while.induct)
  case (1 P m cp)
  then show ?case by (subst (asm) (2) scan_while.simps) (force simp: char_at_def split: if_splits)
qed

lemma end_tag_line_bounds: "end_tag_line m cp = Inr (m', cp') \<Longrightarrow> cp \<le> cp' \<and> length m' = length m"
  by (auto simp: end_tag_line_def split: if_splits sum.splits dest: scan_while_bounds)

lemma scanTagLine_bounds:
  "scanTagLine m cp = Inr (m', tag, cp') \<Longrightarrow> cp < cp' \<and> length m' = length m"
  by (fastforce simp: scanTagLine_def Let_def split: sum.splits if_splits prod.splits
      dest!: scan_while_bounds end_tag_line_bounds)

text \<open>The loop of \<open>parseMapLines\<close>, with the mapping, the tag array, \<open>tagNum\<close>, \<open>lineStart\<close> and \<open>cp\<close>.\<close>

function parse_loop :: "int \<Rightarrow> string \<Rightarrow> event_tag list \<Rightarrow> nat \<Rightarrow> bool \<Rightarrow> nat \<Rightarrow>
    etm_error + (string \<times> event_tag list \<times> nat)" where
  "parse_loop n m arr tagNum lineStart cp =
     (if cp \<ge> length m then Inr (m, arr, tagNum)
      else if m ! cp = CHR 0x0A then parse_loop n m arr tagNum True (cp + 1)
      else if lineStart then
        if m ! cp = CHR ''#'' then parse_loop n m arr tagNum False (cp + 1)
        else if isCharDigit (m ! cp) then
          if int tagNum \<ge> n then Inl MoreTags
          else
            if tagNum \<ge> length arr then Inl OutOfBounds
            else
              (case scanTagLine m cp of
                 Inl e \<Rightarrow> Inl e
               | Inr (m', tag, cp') \<Rightarrow> parse_loop n m' (arr[tagNum := tag]) (tagNum + 1) True (cp' + 1))
        else if isCharWhitespace (m ! cp) then parse_loop n m arr tagNum True (cp + 1)
        else Inl UnexpectedChars
      else parse_loop n m arr tagNum False (cp + 1))"
  by pat_completeness auto
termination
  by (relation "measure (\<lambda>(_, m, _, _, _, cp). length m - cp)") (auto dest!: scanTagLine_bounds)

declare parse_loop.simps [simp del]

definition parseMapLines :: "event_tag_map \<Rightarrow> etm_error + event_tag_map" where
  "parseMapLines etm =
     (if mapAddr etm = [] then Inl OutOfBounds
      else if last (mapAddr etm) \<noteq> CHR 0x0A then Inl MissingEOL
      else
        (case parse_loop (numTags etm) (mapAddr etm) (tagArray etm) 0 True 0 of
           Inl e \<Rightarrow> Inl e
         | Inr (m, arr, tagNum) \<Rightarrow>
             if int tagNum \<noteq> numTags etm then Inl WrongCount
             else Inr (etm\<lparr> mapAddr := m, tagArray := arr \<rparr>)))"

subsection \<open>Sorting and searching\<close>

text \<open>The difference of two unsigned numbers, converted to \<open>int\<close>.\<close>

definition compareEventTags :: "event_tag \<Rightarrow> event_tag \<Rightarrow> int" where
  "compareEventTags tag1 tag2 = s32 (tagIndex tag1 - tagIndex tag2)"

type_synonym qsort_fun = "(event_tag \<Rightarrow> event_tag \<Rightarrow> int) \<Rightarrow> event_tag list \<Rightarrow> event_tag list"

fun adjacent_dup :: "event_tag list \<Rightarrow> bool" where
  "adjacent_dup (t # u # ts) \<longleftrightarrow> tagIndex u = tagIndex t \<or> adjacent_dup (u # ts)"
| "adjacent_dup ts \<longleftrightarrow> False"

definition sortTags :: "qsort_fun \<Rightarrow> event_tag_map \<Rightarrow> etm_error + event_tag_map" where
  "sortTags qsort etm =
     (let n = nat (numTags etm);
          sorted = qsort compareEventTags (take n (tagArray etm))
      in if adjacent_dup sorted then Inl DuplicateTags
         else Inr (etm\<lparr> tagArray := sorted @ drop n (tagArray etm) \<rparr>))"

text \<open>The array of \<open>numTags\<close> entries of 8 bytes; the size is computed in 32 bits.\<close>

definition calloc_tags :: "int \<Rightarrow> event_tag list" where
  "calloc_tags n = replicate (nat (8 * n mod 4294967296 div 8)) \<lparr> tagIndex = 0, tagStr = 0 \<rparr>"

definition processFile :: "qsort_fun \<Rightarrow> bool \<Rightarrow> event_tag_map \<Rightarrow> etm_error + event_tag_map" where
  "processFile qsort calloc_ok etm =
     (let n = countMapLines etm in
      if n < 0 then Inl WrongCount
      else if \<not> calloc_ok then Inl NoMemory
      else
        (case parseMapLines (etm\<lparr> numTags := n, tagArray := calloc_tags n \<rparr>) of
           Inl e \<Rightarrow> Inl e
         | Inr etm' \<Rightarrow> sortTags qsort etm'))"

function lookup_loop :: "event_tag list \<Rightarrow> int \<Rightarrow> int \<Rightarrow> int \<Rightarrow> etm_error + event_tag option" where
  "lookup_loop arr tag lo hi =
     (if lo \<le> hi then
        let mid = (lo + hi) div 2 in
        if mid < 0 \<or> mid \<ge> int (length arr) then Inl OutOfBounds
        else
          let cmp = s32 (tagIndex (arr ! nat mid) - tag)
          in if cmp < 0 then lookup_loop arr tag (mid + 1) hi
             else if cmp > 0 then lookup_loop arr tag lo (mid - 1)
             else Inr (Some (arr ! nat mid))
      else Inr None)"
  by pat_completeness auto
termination by (relation "measure (\<lambda>(_, _, lo, hi). nat (hi - lo + 1))") auto

declare lookup_loop.simps [simp del]

text \<open>The result is the offset of the name in the mapping, or \<open>None\<close> for NULL.\<close>

definition android_lookupEventTag :: "event_tag_map \<Rightarrow> int \<Rightarrow> etm_error + nat option" where
  "android_lookupEventTag etm tag =
     (case lookup_loop (tagArray etm) tag 0 (numTags etm - 1) of
        Inl e \<Rightarrow> Inl e
      | Inr r \<Rightarrow> Inr (map_option tagStr r))"

subsection \<open>Opening and closing\<close>

text \<open>The resources held: the allocated structures, the mappings, the tag arrays and the descriptors.\<close>

record etm_resources =
  r_structs :: nat
  r_mappings :: nat
  r_arrays :: nat
  r_fds :: nat

text \<open>The outcomes of the system calls: the allocations, the file that \<open>open\<close> finds, \<open>lseek\<close> and \<open>mmap\<close>
  (which refuses an empty file).\<close>

record etm_system =
  s_struct :: bool
  s_file :: "string option"
  s_seek :: bool
  s_mmap :: bool
  s_array :: bool

definition android_closeEventTagMap :: "event_tag_map option \<Rightarrow> etm_resources \<Rightarrow> etm_resources" where
  "android_closeEventTagMap etm res =
     (case etm of
        None \<Rightarrow> res
      | Some m \<Rightarrow>
          res\<lparr> r_mappings := r_mappings res - (if mapAddr m = [] then 0 else 1), r_structs := r_structs res - 1 \<rparr>)"

text \<open>The label \<open>fail\<close>: the map is closed, and the descriptor when it was opened.\<close>

definition open_fail :: "event_tag_map \<Rightarrow> bool \<Rightarrow> etm_resources \<Rightarrow> etm_resources" where
  "open_fail etm opened res =
     (let res' = android_closeEventTagMap (Some etm) res in if opened then res'\<lparr> r_fds := r_fds res' - 1 \<rparr> else res')"

definition android_openEventTagMap ::
  "qsort_fun \<Rightarrow> etm_system \<Rightarrow> etm_resources \<Rightarrow> etm_resources \<times> (etm_error + event_tag_map)" where
  "android_openEventTagMap qsort sys res =
     (if \<not> s_struct sys then (res, Inl NoMemory)
      else
        let new = \<lparr> mapAddr = [], tagArray = [], numTags = 0 \<rparr>;
            res1 = res\<lparr> r_structs := r_structs res + 1 \<rparr>
        in case s_file sys of
             None \<Rightarrow> (open_fail new False res1, Inl OpenFailed)
           | Some content \<Rightarrow>
               let res2 = res1\<lparr> r_fds := r_fds res1 + 1 \<rparr>
               in if \<not> s_seek sys then (open_fail new True res2, Inl SeekFailed)
                  else if \<not> s_mmap sys \<or> content = [] then (open_fail new True res2, Inl MmapFailed)
                  else
                    let etm = new\<lparr> mapAddr := content \<rparr>;
                        res3 = res2\<lparr> r_mappings := r_mappings res2 + 1 \<rparr>;
                        res4 = (if s_array sys then res3\<lparr> r_arrays := r_arrays res3 + 1 \<rparr> else res3)
                    in case processFile qsort (s_array sys) etm of
                         Inl e \<Rightarrow> (open_fail etm True res4, Inl e)
                       | Inr etm' \<Rightarrow> (res4, Inr etm'))"

text \<open>The lines that \<open>dumpTags\<close> prints.\<close>

definition dumpTags :: "event_tag_map \<Rightarrow> (nat \<times> int \<times> nat) list" where
  "dumpTags etm = [(i, tagIndex (tagArray etm ! i), tagStr (tagArray etm ! i)). i \<leftarrow> [0..<nat (numTags etm)]]"

subsection \<open>The format of the file\<close>

text \<open>A line: blanks, the digits of the number, blanks, the name and the description that follows; or a
  comment; or blanks only.\<close>

datatype etm_line =
    TagLine string string string string string
  | CommentLine string string
  | BlankLine string

fun print_line :: "etm_line \<Rightarrow> string" where
  "print_line (TagLine w ds sep name rest) = w @ ds @ sep @ name @ rest @ [CHR 0x0A]"
| "print_line (CommentLine w body) = w @ CHR ''#'' # body @ [CHR 0x0A]"
| "print_line (BlankLine w) = w @ [CHR 0x0A]"

definition blanks :: "string \<Rightarrow> bool" where
  "blanks s \<longleftrightarrow> list_all blank_not_eol s"

definition no_eol :: "string \<Rightarrow> bool" where
  "no_eol s \<longleftrightarrow> list_all (\<lambda>c. c \<noteq> CHR 0x0A) s"

fun line_ok :: "etm_line \<Rightarrow> bool" where
  "line_ok (TagLine w ds sep name rest) \<longleftrightarrow>
     blanks w \<and> ds \<noteq> [] \<and> list_all isCharDigit ds \<and> sep \<noteq> [] \<and> blanks sep \<and> name \<noteq> [] \<and> list_all isCharValidTag name \<and>
     no_eol rest \<and> (rest \<noteq> [] \<longrightarrow> isCharWhitespace (hd rest))"
| "line_ok (CommentLine w body) \<longleftrightarrow> blanks w \<and> no_eol body"
| "line_ok (BlankLine w) \<longleftrightarrow> blanks w"

text \<open>What is left of a line after parsing, and the tag of a line that starts at offset \<open>p\<close>.\<close>

fun cut_line :: "etm_line \<Rightarrow> string" where
  "cut_line (TagLine w ds sep name rest) = w @ ds @ NUL # tl sep @ name @ NUL # tl (rest @ [CHR 0x0A])"
| "cut_line l = print_line l"

fun line_tags :: "nat \<Rightarrow> etm_line \<Rightarrow> event_tag list" where
  "line_tags p (TagLine w ds sep name rest) =
     [\<lparr> tagIndex = min (digits_value ds) ULONG_MAX, tagStr = p + length w + length ds + length sep \<rparr>]"
| "line_tags p l = []"

fun file_tags :: "nat \<Rightarrow> etm_line list \<Rightarrow> event_tag list" where
  "file_tags p [] = []"
| "file_tags p (l # ls) = line_tags p l @ file_tags (p + length (print_line l)) ls"

fun line_entries :: "etm_line \<Rightarrow> (int \<times> string) list" where
  "line_entries (TagLine w ds sep name rest) = [(min (digits_value ds) ULONG_MAX, name)]"
| "line_entries l = []"

definition print_file :: "etm_line list \<Rightarrow> string" where
  "print_file ls = concat (map print_line ls)"

definition entries :: "etm_line list \<Rightarrow> (int \<times> string) list" where
  "entries ls = concat (map line_entries ls)"

subsection \<open>Scanning one line\<close>

lemma of_char_NUL [simp]: "of_char NUL = (0 :: nat)"
  by (simp add: NUL_def)

lemma isCharDigit_simps [simp]: "\<not> isCharDigit CHR 0x0A" "\<not> isCharDigit NUL" "\<not> isCharDigit CHR ''#''"
  by (simp_all add: isCharDigit_def char_in_def)

lemma digit_not_blank: "isCharDigit c \<Longrightarrow> \<not> isCharWhitespace c \<and> c \<noteq> CHR 0x0A \<and> c \<noteq> CHR ''#''"
  by (auto simp: isCharDigit_def isCharWhitespace_def char_in_def)

lemma blank_not_digit: "blank_not_eol c \<Longrightarrow> \<not> isCharDigit c \<and> c \<noteq> CHR 0x0A \<and> isCharWhitespace c \<and> c \<noteq> CHR ''#''"
  by (auto simp: blank_not_eol_def isCharDigit_def isCharWhitespace_def char_in_def)

lemma valid_not_blank: "isCharValidTag c \<Longrightarrow> \<not> blank_not_eol c \<and> c \<noteq> CHR 0x0A \<and> c \<noteq> NUL \<and> \<not> isCharWhitespace c"
  by (auto simp: blank_not_eol_def isCharValidTag_def isCharWhitespace_def char_in_def NUL_def)

lemma scan_while_list:
  "list_all P ws \<Longrightarrow> \<not> P d \<Longrightarrow> scan_while P (pre @ c # ws @ d # rest) (length pre) = Inr (length pre + 1 + length ws)"
proof (induction ws arbitrary: pre c)
  case Nil
  then show ?case by (subst scan_while.simps) (simp add: char_at_def nth_append)
next
  case (Cons w ws)
  have "scan_while P ((pre @ [c]) @ w # ws @ d # rest) (length (pre @ [c])) = Inr (length (pre @ [c]) + 1 + length ws)"
    by (rule Cons.IH) (use Cons.prems in auto)
  then show ?case using Cons.prems by (subst scan_while.simps) (simp add: char_at_def nth_append)
qed

lemma scan_while_at:
  assumes "m = pre @ c # ws @ d # rest" and "cp = length pre" and "list_all P ws" and "\<not> P d"
  shows "scan_while P m cp = Inr (length (pre @ c # ws))"
  using scan_while_list [OF assms(3,4), of pre c rest] assms(1,2) by simp

lemma end_tag_line_at:
  assumes "cp = length pre" and "no_eol rest" and "rest \<noteq> [] \<longrightarrow> isCharWhitespace (hd rest)"
  shows "end_tag_line (pre @ rest @ CHR 0x0A # post) cp
    = Inr (pre @ NUL # tl (rest @ [CHR 0x0A]) @ post, length pre + length rest)"
proof (cases rest)
  case Nil
  then show ?thesis using assms(1) by (simp add: end_tag_line_def)
next
  case (Cons r rs)
  then have "r \<noteq> CHR 0x0A" "isCharWhitespace r" "list_all (\<lambda>c. c \<noteq> CHR 0x0A) rs"
    using assms(2,3) by (simp_all add: no_eol_def)
  then show ?thesis using assms(1) Cons scan_while_at [OF refl refl, of "\<lambda>c. c \<noteq> CHR 0x0A" rs "CHR 0x0A" pre NUL post]
    by (simp add: end_tag_line_def)
qed

lemma scanTagLine_line:
  assumes ok: "line_ok (TagLine w ds sep name rest)"
  shows "scanTagLine (pre @ ds @ sep @ name @ rest @ CHR 0x0A # post) (length pre)
    = Inr (pre @ ds @ NUL # tl sep @ name @ NUL # tl (rest @ [CHR 0x0A]) @ post,
        \<lparr> tagIndex = min (digits_value ds) ULONG_MAX, tagStr = length (pre @ ds @ sep) \<rparr>,
        length (pre @ ds @ sep @ name @ rest))"
proof -
  obtain d0 ds' where ds: "ds = d0 # ds'" using ok by (cases ds) auto
  obtain s0 seps where sep: "sep = s0 # seps" using ok by (cases sep) auto
  obtain n0 ns where name: "name = n0 # ns" using ok by (cases name) auto
  let ?tail = "rest @ CHR 0x0A # post"
  obtain e0 tail where tail: "?tail = e0 # tail" and e0: "isCharWhitespace e0"
    using ok by (cases rest) (auto simp: isCharWhitespace_def)
  let ?m1 = "pre @ ds @ NUL # seps @ name @ ?tail"
  have 1: "scan_while isCharDigit (pre @ ds @ sep @ name @ ?tail) (length pre) = Inr (length (pre @ ds))"
    unfolding ds sep using ok blank_not_digit [of s0]
    by (intro trans [OF scan_while_at [OF _ refl, of _ pre d0 ds' s0]]) (auto simp: ds sep blanks_def)
  have m1: "(pre @ ds @ sep @ name @ ?tail)[length (pre @ ds) := NUL] = ?m1"
    using list_update_length [of "pre @ ds" s0 "seps @ name @ ?tail" NUL] by (simp add: sep)
  have tw: "takeWhile isCharDigit (ds @ NUL # xs) = ds" for xs
    using ok by (auto simp: takeWhile_append list_all_iff)
  have st: "strtoul10 (drop (length pre) ?m1) = (min (digits_value ds) ULONG_MAX, length ds)"
    by (simp add: strtoul10_def tw)
  have 2: "scan_while blank_not_eol ?m1 (length (pre @ ds)) = Inr (length (pre @ ds @ sep))"
    using ok valid_not_blank [of n0]
    by (intro trans [OF scan_while_at [of _ "pre @ ds" NUL seps n0 "ns @ ?tail"]]) (auto simp: sep name blanks_def)
  have n0: "?m1 ! length (pre @ ds @ sep) = n0" "n0 \<noteq> CHR 0x0A"
    using nth_append_length [of "pre @ ds @ NUL # seps" n0 "ns @ ?tail"] ok valid_not_blank [of n0] by (simp_all add: sep name)
  have "\<not> isCharValidTag e0" using e0 valid_not_blank [of e0] by auto
  then have 3: "scan_while isCharValidTag ?m1 (length (pre @ ds @ sep)) = Inr (length (pre @ ds @ sep @ name))"
    unfolding tail using ok
    by (intro trans [OF scan_while_at [of _ "pre @ ds @ NUL # seps" n0 ns e0 tail]]) (auto simp: sep name)
  have 4: "end_tag_line ?m1 (length (pre @ ds @ sep @ name))
      = Inr (pre @ ds @ NUL # seps @ name @ NUL # tl (rest @ [CHR 0x0A]) @ post, length (pre @ ds @ sep @ name @ rest))"
    using end_tag_line_at [of _ "pre @ ds @ NUL # seps @ name" rest post] ok by (simp add: sep)
  show ?thesis
    unfolding scanTagLine_def 1 sum.case Let_def m1 st prod.case 2 3 4 using n0 by (simp add: sep)
qed

subsection \<open>Parsing a file\<close>

lemma length_cut_line [simp]: "line_ok l \<Longrightarrow> length (cut_line l) = length (print_line l)"
  by (cases l) (auto simp: length_tl Suc_leI)

lemma parse_skip_blanks:
  assumes "blanks w"
  shows "parse_loop n (pre @ w @ rest) arr k True (length pre) = parse_loop n (pre @ w @ rest) arr k True (length (pre @ w))"
  using assms
proof (induction w arbitrary: pre)
  case (Cons c w)
  have "parse_loop n (pre @ (c # w) @ rest) arr k True (length pre)
      = parse_loop n ((pre @ [c]) @ w @ rest) arr k True (length (pre @ [c]))"
    using Cons.prems blank_not_digit [of c]
    by (subst parse_loop.simps) (simp add: blanks_def nth_append)
  also have "\<dots> = parse_loop n ((pre @ [c]) @ w @ rest) arr k True (length ((pre @ [c]) @ w))"
    by (rule Cons.IH) (use Cons.prems in \<open>simp add: blanks_def\<close>)
  finally show ?case by simp
qed simp

lemma parse_skip_text:
  assumes "no_eol body"
  shows "parse_loop n (pre @ body @ rest) arr k False (length pre) = parse_loop n (pre @ body @ rest) arr k False (length (pre @ body))"
  using assms
proof (induction body arbitrary: pre)
  case (Cons c w)
  have "parse_loop n (pre @ (c # w) @ rest) arr k False (length pre)
      = parse_loop n ((pre @ [c]) @ w @ rest) arr k False (length (pre @ [c]))"
    using Cons.prems by (subst parse_loop.simps) (simp add: no_eol_def nth_append)
  also have "\<dots> = parse_loop n ((pre @ [c]) @ w @ rest) arr k False (length ((pre @ [c]) @ w))"
    by (rule Cons.IH) (use Cons.prems in \<open>simp add: no_eol_def\<close>)
  finally show ?case by simp
qed simp

lemma parse_eol:
  "parse_loop n (pre @ CHR 0x0A # rest) arr k b (length pre) = parse_loop n (pre @ CHR 0x0A # rest) arr k True (length pre + 1)"
  by (subst parse_loop.simps) (simp add: nth_append)

definition put_tags :: "event_tag list \<Rightarrow> nat \<Rightarrow> event_tag list \<Rightarrow> event_tag list" where
  "put_tags arr k ts = take k arr @ ts @ drop (k + length ts) arr"

lemma put_tags_Nil [simp]: "put_tags arr k [] = arr"
  by (simp add: put_tags_def)

lemma put_tags_Cons: "k < length arr \<Longrightarrow> put_tags (arr[k := t]) (k + 1) ts = put_tags arr k (t # ts)"
  by (simp add: put_tags_def take_Suc_conv_app_nth)

lemma parse_tag_step:
  assumes "cp < length m" and "isCharDigit (m ! cp)" and "int k < n" and "k < length arr" and "scanTagLine m cp = Inr (m', tag, cp')"
  shows "parse_loop n m arr k True cp = parse_loop n m' (arr[k := tag]) (k + 1) True (cp' + 1)"
  using assms digit_not_blank [OF assms(2)] by (subst parse_loop.simps) simp

lemma parse_line:
  assumes ok: "line_ok l" and room: "int (k + length (line_tags (length pre) l)) \<le> n" "k + length (line_tags (length pre) l) \<le> length arr"
  shows "parse_loop n (pre @ print_line l @ post) arr k True (length pre)
    = parse_loop n (pre @ cut_line l @ post) (put_tags arr k (line_tags (length pre) l)) (k + length (line_tags (length pre) l))
        True (length (pre @ cut_line l))"
proof (cases l)
  case (TagLine w ds sep name rest)
  let ?m = "pre @ w @ ds @ sep @ name @ rest @ CHR 0x0A # post"
  have ok': "line_ok (TagLine w ds sep name rest)" using ok TagLine by simp
  obtain d ds' where ds: "ds = d # ds'" "isCharDigit d" using ok' by (cases ds) auto
  have "parse_loop n ?m arr k True (length pre) = parse_loop n ?m arr k True (length (pre @ w))"
    by (rule parse_skip_blanks) (use ok' in simp)
  also have "\<dots> = parse_loop n ((pre @ w) @ ds @ NUL # tl sep @ name @ NUL # tl (rest @ [CHR 0x0A]) @ post)
      (arr[k := \<lparr> tagIndex = min (digits_value ds) ULONG_MAX, tagStr = length ((pre @ w) @ ds @ sep) \<rparr>]) (k + 1) True
      (length ((pre @ w) @ ds @ sep @ name @ rest) + 1)"
    by (rule parse_tag_step) (use room ds scanTagLine_line [OF ok', of "pre @ w" post] in \<open>simp_all add: TagLine nth_append\<close>)
  also have "length ((pre @ w) @ ds @ sep @ name @ rest) + 1 = length (pre @ cut_line l)"
    using length_cut_line [OF ok] by (simp add: TagLine)
  also have "arr[k := \<lparr> tagIndex = min (digits_value ds) ULONG_MAX, tagStr = length ((pre @ w) @ ds @ sep) \<rparr>]
      = put_tags arr k (line_tags (length pre) l)"
    using put_tags_Cons [of k arr _ "[]"] room(2) by (simp add: TagLine add.assoc)
  finally show ?thesis by (simp add: TagLine)
next
  case (CommentLine w body)
  let ?m = "pre @ w @ CHR ''#'' # body @ CHR 0x0A # post"
  have ok': "blanks w" "no_eol body" using ok CommentLine by simp_all
  have "parse_loop n ?m arr k True (length pre) = parse_loop n ?m arr k True (length (pre @ w))"
    by (rule parse_skip_blanks) fact
  also have "\<dots> = parse_loop n ((pre @ w @ [CHR ''#'']) @ body @ CHR 0x0A # post) arr k False (length (pre @ w @ [CHR ''#'']))"
    by (subst parse_loop.simps) (simp add: nth_append)
  also have "\<dots> = parse_loop n ((pre @ w @ CHR ''#'' # body) @ CHR 0x0A # post) arr k False (length (pre @ w @ CHR ''#'' # body))"
    using parse_skip_text [OF ok'(2), of n "pre @ w @ [CHR ''#'']"] by simp
  also have "\<dots> = parse_loop n ?m arr k True (length (pre @ cut_line l))"
    by (subst parse_eol) (simp add: CommentLine)
  finally show ?thesis by (simp add: CommentLine)
next
  case (BlankLine w)
  have "parse_loop n (pre @ w @ CHR 0x0A # post) arr k True (length pre) = parse_loop n (pre @ w @ CHR 0x0A # post) arr k True (length (pre @ w))"
    by (rule parse_skip_blanks) (use ok BlankLine in simp)
  then show ?thesis using parse_eol [of n "pre @ w" post arr k True] by (simp add: BlankLine)
qed

lemma put_tags_put:
  "k + length ts + length us \<le> length arr \<Longrightarrow> put_tags (put_tags arr k ts) (k + length ts) us = put_tags arr k (ts @ us)"
  by (cases ts) (auto simp: put_tags_def min_def add.assoc add.commute add.left_commute)

lemma length_put_tags [simp]: "k + length ts \<le> length arr \<Longrightarrow> length (put_tags arr k ts) = length arr"
  by (simp add: put_tags_def)

lemma parse_lines:
  assumes "list_all line_ok ls" and "int (k + length (file_tags (length pre) ls)) \<le> n" and "k + length (file_tags (length pre) ls) \<le> length arr"
  shows "parse_loop n (pre @ print_file ls) arr k True (length pre)
    = Inr (pre @ concat (map cut_line ls), put_tags arr k (file_tags (length pre) ls), k + length (file_tags (length pre) ls))"
  using assms
proof (induction ls arbitrary: pre k arr)
  case Nil
  show ?case by (subst parse_loop.simps) (simp add: print_file_def)
next
  case (Cons l ls)
  let ?pre = "pre @ cut_line l" and ?ts = "line_tags (length pre) l"
  have len: "length pre + length (print_line l) = length ?pre" using Cons.prems(1) by simp
  have "parse_loop n (pre @ print_line l @ print_file ls) arr k True (length pre)
      = parse_loop n (?pre @ print_file ls) (put_tags arr k ?ts) (k + length ?ts) True (length ?pre)"
    using parse_line [of l k pre n arr "print_file ls"] Cons.prems by simp
  also have "\<dots> = Inr (?pre @ concat (map cut_line ls), put_tags (put_tags arr k ?ts) (k + length ?ts) (file_tags (length ?pre) ls),
      k + length ?ts + length (file_tags (length ?pre) ls))"
  proof (rule Cons.IH)
    show "list_all line_ok ls" using Cons.prems(1) by simp
    have ft: "file_tags (length pre) (l # ls) = ?ts @ file_tags (length ?pre) ls" by (simp only: file_tags.simps len)
    show "int (k + length ?ts + length (file_tags (length ?pre) ls)) \<le> n"
      using Cons.prems(2) unfolding ft by (simp only: length_append add.assoc)
    show "k + length ?ts + length (file_tags (length ?pre) ls) \<le> length (put_tags arr k ?ts)"
      using Cons.prems(3) unfolding ft by (simp only: length_append length_put_tags add.assoc)
  qed
  also have "put_tags (put_tags arr k ?ts) (k + length ?ts) (file_tags (length ?pre) ls) = put_tags arr k (?ts @ file_tags (length ?pre) ls)"
    by (rule put_tags_put) (use Cons.prems(3) len in simp)
  also have ft: "?ts @ file_tags (length ?pre) ls = file_tags (length pre) (l # ls)" by (simp only: file_tags.simps len)
  also have "k + length ?ts + length (file_tags (length ?pre) ls) = k + length (file_tags (length pre) (l # ls))"
    unfolding ft [symmetric] by simp
  finally show ?case by (simp only: print_file_def list.map concat.simps append_assoc)
qed

lemma count_skip_text: "no_eol body \<Longrightarrow> count_loop False (body @ CHR 0x0A # rest) = count_loop True rest"
  by (induction body) (auto simp: no_eol_def)

lemma count_skip_blanks: "blanks w \<Longrightarrow> count_loop True (w @ rest) = count_loop True rest"
  by (induction w) (auto simp: blanks_def dest: blank_not_digit)

lemma count_line: "line_ok l \<Longrightarrow> count_loop True (print_line l @ rest) = int (length (line_tags p l)) + count_loop True rest"
proof (cases l)
  case (TagLine w ds sep name rest')
  assume ok: "line_ok l"
  obtain d ds' where ds: "ds = d # ds'" "isCharDigit d" using ok TagLine by (cases ds) auto
  have "no_eol ds'" "no_eol sep" "no_eol name" "no_eol rest'" using ok TagLine ds(1)
    by (simp_all add: no_eol_def blanks_def list_all_iff) (metis digit_not_blank blank_not_digit valid_not_blank)+
  then have "no_eol (ds' @ sep @ name @ rest')" by (simp add: no_eol_def)
  from count_skip_text [OF this, of rest] show ?thesis using ok ds digit_not_blank [OF ds(2)]
    by (simp add: TagLine count_skip_blanks)
qed (auto simp: count_skip_blanks count_skip_text isCharWhitespace_def)

lemma count_lines: "list_all line_ok ls \<Longrightarrow> count_loop True (print_file ls) = int (length (file_tags p ls))"
  by (induction ls arbitrary: p) (auto simp: print_file_def count_line)

text \<open>The NUL-terminated string at an offset of the mapping.\<close>

definition string_at :: "string \<Rightarrow> nat \<Rightarrow> string" where
  "string_at m off = takeWhile (\<lambda>c. c \<noteq> NUL) (drop off m)"

lemma string_at_name: "list_all isCharValidTag name \<Longrightarrow> string_at (pre @ name @ NUL # post) (length pre) = name"
  using valid_not_blank by (auto simp: string_at_def takeWhile_append list_all_iff)

abbreviation named :: "string \<Rightarrow> event_tag list \<Rightarrow> (int \<times> string) list" where
  "named m ts \<equiv> map (\<lambda>t. (tagIndex t, string_at m (tagStr t))) ts"

lemma file_tags_named:
  assumes "list_all line_ok ls"
  shows "named (pre @ concat (map cut_line ls)) (file_tags (length pre) ls) = entries ls"
  using assms
proof (induction ls arbitrary: pre)
  case (Cons l ls)
  let ?m = "pre @ concat (map cut_line (l # ls))"
  have "length pre + length (print_line l) = length (pre @ cut_line l)" using Cons.prems by simp
  then have "named ?m (file_tags (length pre + length (print_line l)) ls) = entries ls"
    using Cons.IH [of "pre @ cut_line l"] Cons.prems by (simp only: list.map concat.simps append_assoc list.pred_inject)
  moreover have "named ?m (line_tags (length pre) l) = line_entries l"
  proof (cases l)
    case (TagLine w ds sep name rest)
    then have "length sep = Suc (length (tl sep))" "list_all isCharValidTag name" using Cons.prems by (auto simp: length_tl Suc_leI)
    then show ?thesis using string_at_name [of name "pre @ w @ ds @ NUL # tl sep"] by (simp add: TagLine add.assoc)
  qed simp_all
  ultimately show ?case by (simp add: entries_def)
qed (simp add: entries_def)

lemma file_tags_length: "length (file_tags p ls) \<le> length (print_file ls)"
proof (induction ls arbitrary: p)
  case (Cons l ls)
  have "length (line_tags p l) \<le> length (print_line l)" by (cases l) auto
  then show ?case using Cons [of "p + length (print_line l)"] by (simp add: print_file_def)
qed simp

lemma parseMapLines_file:
  assumes "list_all line_ok ls" and "ls \<noteq> []" and "n = int (length (file_tags 0 ls))" and "length arr = length (file_tags 0 ls)"
  shows "parseMapLines \<lparr> mapAddr = print_file ls, tagArray = arr, numTags = n \<rparr>
    = Inr \<lparr> mapAddr = concat (map cut_line ls), tagArray = file_tags 0 ls, numTags = n \<rparr>"
proof -
  obtain l ls' where "ls = ls' @ [l]" using assms(2) by (cases ls rule: rev_cases) auto
  then have last: "last (print_file ls) = CHR 0x0A" "print_file ls \<noteq> []" by (cases l; simp add: print_file_def)+
  show ?thesis using parse_lines [of ls 0 "[]" n arr] assms(1,3,4) last by (simp add: parseMapLines_def put_tags_def)
qed

subsection \<open>Sorting\<close>

text \<open>A comparison that is consistent on the elements, as the C standard requires of the argument of \<open>qsort\<close>.\<close>

definition consistent_on :: "event_tag set \<Rightarrow> (event_tag \<Rightarrow> event_tag \<Rightarrow> int) \<Rightarrow> bool" where
  "consistent_on A cmp \<longleftrightarrow> (\<forall>x \<in> A. \<forall>y \<in> A. sgn (cmp x y) = - sgn (cmp y x)) \<and>
     (\<forall>x \<in> A. \<forall>y \<in> A. \<forall>z \<in> A. cmp x y \<le> 0 \<longrightarrow> cmp y z \<le> 0 \<longrightarrow> cmp x z \<le> 0)"

text \<open>Below \<open>2\<^sup>3\<^sup>1\<close> the difference does not wrap.\<close>

lemma compareEventTags_diff:
  assumes "\<forall>t \<in> A. 0 \<le> tagIndex t \<and> tagIndex t \<le> 2147483647" and "x \<in> A" and "y \<in> A"
  shows "compareEventTags x y = tagIndex x - tagIndex y"
proof -
  have "0 \<le> tagIndex x" "tagIndex x \<le> 2147483647" "0 \<le> tagIndex y" "tagIndex y \<le> 2147483647" using assms by auto
  then have "in_s32 (tagIndex x - tagIndex y)" by (intro in_s32I) linarith+
  then show ?thesis by (simp add: compareEventTags_def s32_id)
qed

lemma compareEventTags_consistent:
  assumes "\<forall>t \<in> A. 0 \<le> tagIndex t \<and> tagIndex t \<le> 2147483647"
  shows "consistent_on A compareEventTags"
  unfolding consistent_on_def by (auto simp: compareEventTags_diff [OF assms] sgn_if)

text \<open>The contract of \<open>qsort\<close>: under a consistent comparison the elements are permuted into ascending order.\<close>

locale c_qsort =
  fixes qsort :: qsort_fun
  assumes permutes: "consistent_on (set xs) cmp \<Longrightarrow> mset (qsort cmp xs) = mset xs"
    and sorts: "consistent_on (set xs) cmp \<Longrightarrow> sorted_wrt (\<lambda>x y. cmp x y \<le> 0) (qsort cmp xs)"
begin

lemma qsort_tags:
  assumes "\<forall>t \<in> set xs. 0 \<le> tagIndex t \<and> tagIndex t \<le> 2147483647"
  shows "mset (qsort compareEventTags xs) = mset xs" "set (qsort compareEventTags xs) = set xs"
    "distinct (map tagIndex (qsort compareEventTags xs)) = distinct (map tagIndex xs)"
proof -
  show m: "mset (qsort compareEventTags xs) = mset xs" by (rule permutes [OF compareEventTags_consistent [OF assms]])
  show "set (qsort compareEventTags xs) = set xs" by (rule mset_eq_setD [OF m])
  show "distinct (map tagIndex (qsort compareEventTags xs)) = distinct (map tagIndex xs)"
    by (rule mset_eq_imp_distinct_iff) (simp add: m)
qed

lemma qsort_sorted:
  assumes "\<forall>t \<in> set xs. 0 \<le> tagIndex t \<and> tagIndex t \<le> 2147483647"
  shows "sorted (map tagIndex (qsort compareEventTags xs))"
proof -
  have "sorted_wrt (\<lambda>x y. compareEventTags x y \<le> 0) (qsort compareEventTags xs)"
    by (rule sorts [OF compareEventTags_consistent [OF assms]])
  then have "sorted_wrt (\<lambda>x y. tagIndex x \<le> tagIndex y) (qsort compareEventTags xs)"
    by (rule sorted_wrt_mono_rel [rotated]) (simp add: compareEventTags_diff [OF assms] qsort_tags(2) [OF assms])
  then show ?thesis by (simp add: sorted_map)
qed

end

text \<open>Insertion sort meets the contract.\<close>

fun insert_by :: "(event_tag \<Rightarrow> event_tag \<Rightarrow> int) \<Rightarrow> event_tag \<Rightarrow> event_tag list \<Rightarrow> event_tag list" where
  "insert_by cmp x [] = [x]"
| "insert_by cmp x (y # ys) = (if cmp x y \<le> 0 then x # y # ys else y # insert_by cmp x ys)"

fun insertion_sort :: qsort_fun where
  "insertion_sort cmp [] = []"
| "insertion_sort cmp (x # xs) = insert_by cmp x (insertion_sort cmp xs)"

lemma insert_by_mset [simp]: "mset (insert_by cmp x ys) = add_mset x (mset ys)"
  by (induction ys) simp_all

lemma insertion_sort_mset: "mset (insertion_sort cmp xs) = mset xs"
  by (induction xs) simp_all

lemma insert_by_set [simp]: "set (insert_by cmp x ys) = insert x (set ys)"
  by (induction ys) auto

lemma insert_by_sorted:
  assumes "sorted_wrt (\<lambda>x y. cmp x y \<le> 0) ys" and "\<And>y. y \<in> set ys \<Longrightarrow> sgn (cmp x y) = - sgn (cmp y x)"
    and "\<And>y z. y \<in> set ys \<Longrightarrow> z \<in> set ys \<Longrightarrow> cmp x y \<le> 0 \<Longrightarrow> cmp y z \<le> 0 \<Longrightarrow> cmp x z \<le> 0"
  shows "sorted_wrt (\<lambda>x y. cmp x y \<le> 0) (insert_by cmp x ys)"
  using assms
proof (induction ys)
  case (Cons y ys)
  have "cmp y x \<le> 0" if "\<not> cmp x y \<le> 0" using Cons.prems(2) [of y] that by (simp add: sgn_if split: if_splits)
  then show ?case using Cons by auto
qed simp

lemma insertion_sort_sorted:
  assumes "\<And>x y. x \<in> set xs \<Longrightarrow> y \<in> set xs \<Longrightarrow> sgn (cmp x y) = - sgn (cmp y x)"
    and "\<And>x y z. x \<in> set xs \<Longrightarrow> y \<in> set xs \<Longrightarrow> z \<in> set xs \<Longrightarrow> cmp x y \<le> 0 \<Longrightarrow> cmp y z \<le> 0 \<Longrightarrow> cmp x z \<le> 0"
  shows "sorted_wrt (\<lambda>x y. cmp x y \<le> 0) (insertion_sort cmp xs)"
  using assms
proof (induction xs)
  case (Cons x xs)
  have set: "set (insertion_sort cmp xs) = set xs" using mset_eq_setD [OF insertion_sort_mset] .
  have "sorted_wrt (\<lambda>x y. cmp x y \<le> 0) (insertion_sort cmp xs)"
    by (rule Cons.IH) (rule Cons.prems; simp)+
  then have "sorted_wrt (\<lambda>x y. cmp x y \<le> 0) (insert_by cmp x (insertion_sort cmp xs))"
  proof (rule insert_by_sorted)
    show "sgn (cmp x y) = - sgn (cmp y x)" if "y \<in> set (insertion_sort cmp xs)" for y
      by (rule Cons.prems(1)) (use that set in auto)
    show "cmp x z \<le> 0" if "y \<in> set (insertion_sort cmp xs)" "z \<in> set (insertion_sort cmp xs)" "cmp x y \<le> 0" "cmp y z \<le> 0" for y z
      by (rule Cons.prems(2) [of x y z]) (use that set in auto)
  qed
  then show ?case by simp
qed simp

interpretation isort: c_qsort insertion_sort
proof unfold_locales
  show "mset (insertion_sort cmp xs) = mset xs" for cmp xs by (rule insertion_sort_mset)
  show "sorted_wrt (\<lambda>x y. cmp x y \<le> 0) (insertion_sort cmp xs)" if "consistent_on (set xs) cmp" for cmp xs
    using that unfolding consistent_on_def by (intro insertion_sort_sorted) blast+
qed

subsection \<open>Searching\<close>

lemma adjacent_dup_sorted: "sorted (map tagIndex ts) \<Longrightarrow> adjacent_dup ts \<longleftrightarrow> \<not> distinct (map tagIndex ts)"
  by (induction ts rule: adjacent_dup.induct) (auto simp: order.antisym)

lemma find_Some_nth: "distinct (map tagIndex arr) \<Longrightarrow> k < length arr \<Longrightarrow> find (\<lambda>t. tagIndex t = tagIndex (arr ! k)) arr = Some (arr ! k)"
  by (induction arr arbitrary: k) (auto simp: nth_Cons split: nat.splits)

lemma lookup_loop_find:
  assumes arr: "sorted (map tagIndex arr)" "distinct (map tagIndex arr)" "\<forall>t \<in> set arr. 0 \<le> tagIndex t \<and> tagIndex t \<le> 2147483647"
    and tag: "0 \<le> tag" "tag \<le> 2147483647" and "0 \<le> lo" and "hi < int (length arr)"
    and "\<And>k. k < length arr \<Longrightarrow> tagIndex (arr ! k) = tag \<Longrightarrow> lo \<le> int k \<and> int k \<le> hi"
  shows "lookup_loop arr tag lo hi = Inr (find (\<lambda>t. tagIndex t = tag) arr)"
  using assms(6-8)
proof (induction "nat (hi - lo + 1)" arbitrary: lo hi rule: less_induct)
  case less
  show ?case
  proof (cases "lo \<le> hi")
    case False
    then have "\<forall>t \<in> set arr. tagIndex t \<noteq> tag" using less.prems(3) by (fastforce simp: in_set_conv_nth)
    then show ?thesis using False by (subst lookup_loop.simps) (simp add: find_None_iff2)
  next
    case True
    define mid where "mid = nat ((lo + hi) div 2)"
    have mid: "lo \<le> int mid" "int mid \<le> hi" "int mid = (lo + hi) div 2" "mid < length arr" using True less.prems(1,2) by (auto simp: mid_def)
    define idx where "idx = tagIndex (arr ! mid)"
    have "arr ! mid \<in> set arr" using mid(4) by simp
    then have "in_s32 (idx - tag)" using arr(3) tag unfolding idx_def by (intro in_s32I) force+
    then have step: "lookup_loop arr tag lo hi = (if idx < tag then lookup_loop arr tag (int mid + 1) hi
        else if idx > tag then lookup_loop arr tag lo (int mid - 1) else Inr (Some (arr ! mid)))"
      using True mid(4) by (subst lookup_loop.simps) (simp add: mid(3) [symmetric] s32_id idx_def Let_def)
    have le: "tagIndex (arr ! i) \<le> tagIndex (arr ! j)" if "i \<le> j" "j < length arr" for i j
      using arr(1) that by (simp add: sorted_iff_nth_mono)
    consider "idx < tag" | "idx > tag" | "idx = tag" by linarith
    then show ?thesis
    proof cases
      case 1
      have "int mid + 1 \<le> int k" if "k < length arr" "tagIndex (arr ! k) = tag" for k
        using le [of k mid] that 1 mid(4) unfolding idx_def by linarith
      then have "lookup_loop arr tag (int mid + 1) hi = Inr (find (\<lambda>t. tagIndex t = tag) arr)"
        using less.prems mid True by (intro less.hyps) auto
      then show ?thesis using step 1 by simp
    next
      case 2
      have "int k \<le> int mid - 1" if "k < length arr" "tagIndex (arr ! k) = tag" for k
        using le [of mid k] that 2 unfolding idx_def by linarith
      then have "lookup_loop arr tag lo (int mid - 1) = Inr (find (\<lambda>t. tagIndex t = tag) arr)"
        using less.prems mid True by (intro less.hyps) auto
      then show ?thesis using step 2 by simp
    next
      case 3
      then show ?thesis using step find_Some_nth [OF arr(2) mid(4)] by (simp add: idx_def)
    qed
  qed
qed

text \<open>A negative tag is larger than every number below \<open>2\<^sup>3\<^sup>1\<close>, read as an unsigned one.\<close>

lemma lookup_loop_None:
  assumes "\<forall>t \<in> set arr. s32 (tagIndex t - tag) \<noteq> 0" and "0 \<le> lo" and "hi < int (length arr)"
  shows "lookup_loop arr tag lo hi = Inr None"
  using assms(2,3)
proof (induction "nat (hi - lo + 1)" arbitrary: lo hi rule: less_induct)
  case less
  define mid where "mid = nat ((lo + hi) div 2)"
  have mid: "lo \<le> int mid" "int mid \<le> hi" "int mid = (lo + hi) div 2" "mid < length arr" if "lo \<le> hi"
    using that less.prems(1,2) by (auto simp: mid_def)
  show ?case
  proof (cases "lo \<le> hi")
    case True
    note mid = mid [OF True]
    have "s32 (tagIndex (arr ! mid) - tag) \<noteq> 0" using mid(4) assms(1) nth_mem by blast
    moreover have "lookup_loop arr tag (int mid + 1) hi = Inr None"
      by (rule less.hyps) (use less.prems mid in auto)
    moreover have "lookup_loop arr tag lo (int mid - 1) = Inr None"
      by (rule less.hyps) (use less.prems mid in auto)
    ultimately show ?thesis using True mid(4) by (subst lookup_loop.simps) (simp add: mid(3) [symmetric] Let_def)
  next
    case False
    then show ?thesis by (subst lookup_loop.simps) simp
  qed
qed

lemma s32_negative_tag:
  assumes "0 \<le> idx" and "idx \<le> 2147483647" and "in_s32 tag" and "tag < 0"
  shows "s32 (idx - tag) \<noteq> 0"
proof (cases "idx - tag \<le> 2147483647")
  case True
  then have "s32 (idx - tag) = idx - tag" using assms by (intro s32_id in_s32I) linarith+
  then show ?thesis using assms by linarith
next
  case False
  then have "s32 (idx - tag) = idx - tag - 4294967296" using in_s32D [OF assms(3)] assms(2) by (intro s32_high) linarith+
  then show ?thesis using in_s32D [OF assms(3)] assms(2) by linarith
qed

subsection \<open>From the file to the names\<close>

text \<open>The name that a lookup returns, read from the mapping.\<close>

definition tag_name :: "event_tag_map \<Rightarrow> int \<Rightarrow> etm_error + string option" where
  "tag_name etm tag =
     (case android_lookupEventTag etm tag of
        Inl e \<Rightarrow> Inl e
      | Inr r \<Rightarrow> Inr (map_option (string_at (mapAddr etm)) r))"

definition file_ok :: "etm_line list \<Rightarrow> bool" where
  "file_ok ls \<longleftrightarrow> ls \<noteq> [] \<and> list_all line_ok ls \<and> length (print_file ls) < 536870912 \<and>
     (\<forall>(i, name) \<in> set (entries ls). i \<le> 2147483647)"

lemma digits_value_nonneg: "list_all isCharDigit ds \<Longrightarrow> 0 \<le> digits_value ds"
proof -
  have "0 \<le> foldl (\<lambda>n c. 10 * n + (of_char c - 48)) n ds" if "list_all isCharDigit ds" "0 \<le> n" for n :: int
    using that
  proof (induction ds arbitrary: n)
    case (Cons c ds)
    have "48 \<le> (of_char c :: nat)" using Cons.prems(1) by (simp add: isCharDigit_def char_in_def)
    then have "48 \<le> (of_char c :: int)" by (metis of_nat_le_iff of_nat_numeral of_nat_of_char)
    then show ?case using Cons by simp
  qed simp
  then show "list_all isCharDigit ds \<Longrightarrow> 0 \<le> digits_value ds" by (simp add: digits_value_def)
qed

lemma entries_nonneg: "list_all line_ok ls \<Longrightarrow> (i, name) \<in> set (entries ls) \<Longrightarrow> 0 \<le> i"
proof (induction ls)
  case (Cons l ls)
  then show ?case by (cases l) (auto simp: entries_def digits_value_nonneg)
qed (simp add: entries_def)

lemma map_of_find: "map_of (map (\<lambda>t. (tagIndex t, f t)) ts) i = map_option f (find (\<lambda>t. tagIndex t = i) ts)"
  by (induction ts) auto

lemma map_of_mset: "mset xs = mset ys \<Longrightarrow> distinct (map fst ys) \<Longrightarrow> map_of xs = map_of ys"
  by (metis map_of_inject_set mset_eq_setD mset_eq_imp_distinct_iff mset_map)

context c_qsort
begin

lemma processFile_file:
  assumes ok: "file_ok ls"
  shows "processFile qsort True \<lparr> mapAddr = print_file ls, tagArray = [], numTags = 0 \<rparr>
    = (if distinct (map fst (entries ls))
       then Inr \<lparr> mapAddr = concat (map cut_line ls), tagArray = qsort compareEventTags (file_tags 0 ls), numTags = int (length (file_tags 0 ls)) \<rparr>
       else Inl DuplicateTags)"
    and "\<forall>t \<in> set (file_tags 0 ls). 0 \<le> tagIndex t \<and> tagIndex t \<le> 2147483647"
    and "distinct (map fst (entries ls)) = distinct (map tagIndex (file_tags 0 ls))"
proof -
  let ?ts = "file_tags 0 ls" and ?n = "int (length (file_tags 0 ls))"
  have lines: "ls \<noteq> []" "list_all line_ok ls" "length (print_file ls) < 536870912" using ok by (simp_all add: file_ok_def)
  have named: "named (concat (map cut_line ls)) ?ts = entries ls" using file_tags_named [OF lines(2), of "[]"] by simp
  then have fst: "map fst (entries ls) = map tagIndex ?ts" by (simp add: comp_def flip: named)
  then show d: "distinct (map fst (entries ls)) = distinct (map tagIndex ?ts)" by simp
  show range: "\<forall>t \<in> set ?ts. 0 \<le> tagIndex t \<and> tagIndex t \<le> 2147483647"
  proof
    fix t assume "t \<in> set ?ts"
    then have "(tagIndex t, string_at (concat (map cut_line ls)) (tagStr t)) \<in> set (entries ls)" by (simp flip: named)
    then show "0 \<le> tagIndex t \<and> tagIndex t \<le> 2147483647" using entries_nonneg [OF lines(2)] ok by (auto simp: file_ok_def)
  qed
  have "?n < 536870912" using file_tags_length [of 0 ls] lines(3) by simp
  then have arr: "length (calloc_tags ?n) = length ?ts" by (simp add: calloc_tags_def)
  show "processFile qsort True \<lparr> mapAddr = print_file ls, tagArray = [], numTags = 0 \<rparr>
    = (if distinct (map fst (entries ls))
       then Inr \<lparr> mapAddr = concat (map cut_line ls), tagArray = qsort compareEventTags ?ts, numTags = ?n \<rparr>
       else Inl DuplicateTags)"
    using parseMapLines_file [OF lines(2,1) refl arr] adjacent_dup_sorted [OF qsort_sorted [OF range]] qsort_tags(3) [OF range]
    by (simp add: processFile_def countMapLines_def count_lines [OF lines(2), of 0] sortTags_def d)
qed

lemma tag_name_file:
  assumes ok: "file_ok ls" and "distinct (map fst (entries ls))" and "in_s32 tag"
  shows "tag_name \<lparr> mapAddr = concat (map cut_line ls), tagArray = qsort compareEventTags (file_tags 0 ls),
      numTags = int (length (file_tags 0 ls)) \<rparr> tag = Inr (map_of (entries ls) tag)"
proof -
  let ?ts = "file_tags 0 ls" and ?arr = "qsort compareEventTags (file_tags 0 ls)" and ?m = "concat (map cut_line ls)"
  note range = processFile_file(2) [OF ok]
  have d: "distinct (map tagIndex ?ts)" using processFile_file(3) [OF ok] assms(2) by simp
  have len: "length ?arr = length ?ts" by (rule mset_eq_length [OF qsort_tags(1) [OF range]])
  have named: "named ?m ?ts = entries ls" using file_tags_named [of ls "[]"] ok by (simp add: file_ok_def)
  have "mset (named ?m ?arr) = mset (named ?m ?ts)" by (simp add: qsort_tags(1) [OF range])
  then have "map_of (entries ls) = map_of (named ?m ?arr)" using map_of_mset assms(2) unfolding named by metis
  then have entry: "map_of (entries ls) tag = map_option (\<lambda>t. string_at ?m (tagStr t)) (find (\<lambda>t. tagIndex t = tag) ?arr)"
    using map_of_find [of "\<lambda>t. string_at ?m (tagStr t)" ?arr tag] by simp
  have "lookup_loop ?arr tag 0 (int (length ?ts) - 1) = Inr (find (\<lambda>t. tagIndex t = tag) ?arr)"
  proof (cases "0 \<le> tag")
    case True
    then show ?thesis using qsort_sorted [OF range] qsort_tags(2,3) [OF range] d range in_s32D [OF assms(3)] len by (intro lookup_loop_find) auto
  next
    case False
    then have "\<forall>t \<in> set ?arr. s32 (tagIndex t - tag) \<noteq> 0"
      using range s32_negative_tag [OF _ _ assms(3)] qsort_tags(2) [OF range] by auto
    moreover have "find (\<lambda>t. tagIndex t = tag) ?arr = None" using False range qsort_tags(2) [OF range] by (auto simp: find_None_iff)
    ultimately show ?thesis using lookup_loop_None len by simp
  qed
  then show ?thesis by (simp add: tag_name_def android_lookupEventTag_def entry option.map_comp comp_def)
qed

lemma open_reads_file:
  assumes "file_ok ls" and "s_struct sys" "s_file sys = Some (print_file ls)" "s_seek sys" "s_mmap sys" "s_array sys"
  shows "if distinct (map fst (entries ls))
    then \<exists>etm. snd (android_openEventTagMap qsort sys res) = Inr etm \<and>
           (\<forall>tag. in_s32 tag \<longrightarrow> tag_name etm tag = Inr (map_of (entries ls) tag))
    else snd (android_openEventTagMap qsort sys res) = Inl DuplicateTags"
proof -
  have ne: "print_file ls \<noteq> []"
  proof -
    obtain l ls' where "ls = l # ls'" using assms(1) by (cases ls) (auto simp: file_ok_def)
    then show ?thesis by (cases l) (auto simp: print_file_def)
  qed
  show ?thesis
    using processFile_file(1) [OF assms(1)] tag_name_file [OF assms(1)] assms(2-6) ne
    by (simp add: android_openEventTagMap_def Let_def)
qed

end

text \<open>
  C30. Opening a well-formed tag file gives the map that the file lists: whatever \<open>qsort\<close> is used, as
  long as it meets the contract of the C standard, \<open>android_openEventTagMap\<close> of a file of tag lines, comments
  and blank lines succeeds when no number occurs twice, and then \<open>android_lookupEventTag\<close> ends for
  every \<open>int\<close>, reads nothing out of bounds, and returns exactly the name on the line with that number, NULL
  when there is none; when a number occurs twice the file is refused.
\<close>
theorem event_tag_map_reads_file:
  assumes "c_qsort qsort" and "file_ok ls" and "s_struct sys" "s_file sys = Some (print_file ls)" "s_seek sys" "s_mmap sys" "s_array sys"
  shows "if distinct (map fst (entries ls))
    then \<exists>etm. snd (android_openEventTagMap qsort sys res) = Inr etm \<and>
           (\<forall>tag. in_s32 tag \<longrightarrow> tag_name etm tag = Inr (map_of (entries ls) tag))
    else snd (android_openEventTagMap qsort sys res) = Inl DuplicateTags"
  by (rule c_qsort.open_reads_file [OF assms])

definition sample_tags :: "etm_line list" where
  "sample_tags = [CommentLine [] '' content'', TagLine [] ''2722'' '' '' ''battery_level'' '' (level|1|6)'',
     BlankLine '' '', TagLine '' '' ''42'' '' '' ''answer'' []]"

lemma sample_tags_ok: "file_ok sample_tags" "entries sample_tags = [(2722, ''battery_level''), (42, ''answer'')]"
proof -
  show e: "entries sample_tags = [(2722, ''battery_level''), (42, ''answer'')]" by code_simp
  have "list_all line_ok sample_tags" "length (print_file sample_tags) = 54" by code_simp+
  then show "file_ok sample_tags" by (simp add: file_ok_def e) (simp add: sample_tags_def)
qed

definition sample_system :: etm_system where
  "sample_system = \<lparr> s_struct = True, s_file = Some (print_file sample_tags), s_seek = True, s_mmap = True, s_array = True \<rparr>"

theorem event_tag_map_reads_file_witness:
  "\<exists>etm. snd (android_openEventTagMap insertion_sort sample_system \<lparr> r_structs = 0, r_mappings = 0, r_arrays = 0, r_fds = 0 \<rparr>) = Inr etm \<and>
     tag_name etm 42 = Inr (Some ''answer'') \<and> tag_name etm 43 = Inr None"
proof -
  have s: "in_s32 42" "in_s32 43" by (simp_all add: in_s32I)
  have sys: "s_struct sample_system" "s_file sample_system = Some (print_file sample_tags)" "s_seek sample_system"
    "s_mmap sample_system" "s_array sample_system" by (simp_all add: sample_system_def)
  from event_tag_map_reads_file [OF isort.c_qsort_axioms sample_tags_ok(1) sys] show ?thesis
    using s by (simp add: sample_tags_ok(2)) force
qed

subsection \<open>Every file\<close>

text \<open>The assertion on the end of the number holds.\<close>

lemma scan_while_range:
  "scan_while P m cp = Inr cp' \<Longrightarrow> (\<forall>i. cp < i \<and> i < cp' \<longrightarrow> P (m ! i)) \<and> \<not> P (m ! cp')"
proof (induction P m cp rule: scan_while.induct)
  case (1 P m cp)
  show ?case
  proof (cases "cp + 1 < length m \<and> P (m ! (cp + 1))")
    case True
    then have "scan_while P m (cp + 1) = Inr cp'" using 1(2) by (subst (asm) scan_while.simps) (simp add: char_at_def)
    from 1(1) [OF _ _ this] True show ?thesis by (auto simp: char_at_def) (metis Suc_eq_plus1 Suc_lessI)
  next
    case False
    then have "cp' = cp + 1 \<and> \<not> P (m ! cp')" using 1(2) by (subst (asm) scan_while.simps) (auto simp: char_at_def split: if_splits)
    then show ?thesis by auto
  qed
qed

lemma strtoul10_end:
  assumes "scan_while isCharDigit m cp = Inr cp'" and "isCharDigit (m ! cp)"
  shows "cp + snd (strtoul10 (drop cp (m[cp' := NUL]))) = cp'"
proof -
  have b: "cp < cp'" "cp' < length m" using scan_while_bounds [OF assms(1)] by auto
  have digits: "isCharDigit (m ! i)" if "cp \<le> i" "i < cp'" for i
    using scan_while_range [OF assms(1)] assms(2) that by (cases "i = cp") auto
  have "drop cp (m[cp' := NUL]) = drop cp (take cp' m) @ NUL # drop (cp' + 1) m"
    using b by (simp add: upd_conv_take_nth_drop)
  moreover have "\<forall>c \<in> set (drop cp (take cp' m)). isCharDigit c"
    using b digits by (auto simp: in_set_conv_nth)
  ultimately have "takeWhile isCharDigit (drop cp (m[cp' := NUL])) = drop cp (take cp' m)"
    by (auto simp: takeWhile_append)
  then show ?thesis using b by (simp add: strtoul10_def Let_def)
qed

lemma scan_while_error: "scan_while P m cp = Inl e \<Longrightarrow> e = OutOfBounds"
proof (induction P m cp rule: scan_while.induct)
  case (1 P m cp)
  then show ?case by (subst (asm) (2) scan_while.simps) (auto simp: char_at_def split: if_splits)
qed

lemma scanTagLine_asserts: "isCharDigit (m ! cp) \<Longrightarrow> scanTagLine m cp \<noteq> Inl AssertFailed"
  using strtoul10_end [of m cp]
  by (auto simp: scanTagLine_def end_tag_line_def Let_def split: sum.split prod.split if_split dest!: scan_while_error)

lemma parse_loop_asserts: "parse_loop n m arr k b cp \<noteq> Inl AssertFailed"
proof (induction n m arr k b cp rule: parse_loop.induct)
  case (1 n m arr k b cp)
  then show ?case
    by (subst parse_loop.simps) (auto simp: scanTagLine_asserts split: sum.split)
qed

lemma processFile_asserts: "processFile qsort ok etm \<noteq> Inl AssertFailed"
  by (auto simp: processFile_def parseMapLines_def sortTags_def parse_loop_asserts Let_def split: sum.split)

lemma parse_loop_length: "parse_loop n m arr k b cp = Inr r \<Longrightarrow> length (fst r) = length m"
proof (induction "length m - cp" arbitrary: m arr k b cp rule: less_induct)
  case less
  show ?case
  proof (cases "cp < length m")
    case False
    then show ?thesis using less.prems by (subst (asm) parse_loop.simps) auto
  next
    case True
    have nxt: "length (fst r) = length m" if "parse_loop n m arr k b' (cp + 1) = Inr r" for b'
      using less.hyps [OF _ that] True by simp
    have tag: "length (fst r) = length m"
      if "scanTagLine m cp = Inr (m', tag, cp')" "parse_loop n m' (arr[k := tag]) (k + 1) True (cp' + 1) = Inr r" for m' tag cp'
      using less.hyps [OF _ that(2)] scanTagLine_bounds [OF that(1)] True by (simp add: diff_less_mono2)
    show ?thesis using less.prems True nxt tag
      by (subst (asm) parse_loop.simps) (simp split: if_splits sum.splits prod.splits)
  qed
qed

lemma processFile_keeps:
  "processFile qsort ok etm = Inr etm' \<Longrightarrow> ok \<and> length (mapAddr etm') = length (mapAddr etm)"
  by (auto simp: processFile_def parseMapLines_def sortTags_def Let_def dest!: parse_loop_length split: if_splits sum.splits)

text \<open>
  Whatever the file holds and whichever call fails, \<open>android_openEventTagMap\<close> ends, the assertion on the end
  of a number never fails, and on every failing path the structure, the mapping and the descriptor are
  released; only the tag array, once allocated, is not. On success the map holds one structure, one
  mapping, one array and one descriptor, and closing the map releases the first two only.
\<close>
theorem event_tag_map_resources:
  "case android_openEventTagMap qsort sys res of
     (res', Inl e) \<Rightarrow> e \<noteq> AssertFailed \<and> r_structs res' = r_structs res \<and> r_mappings res' = r_mappings res \<and>
       r_fds res' = r_fds res \<and> r_arrays res' \<le> r_arrays res + 1
   | (res', Inr etm) \<Rightarrow> mapAddr etm \<noteq> [] \<and>
       android_closeEventTagMap (Some etm) res' = res\<lparr> r_arrays := r_arrays res + 1, r_fds := r_fds res + 1 \<rparr>"
proof (cases "processFile qsort (s_array sys) \<lparr> mapAddr = the (s_file sys), tagArray = [], numTags = 0 \<rparr>")
  case (Inl e)
  then have "e \<noteq> AssertFailed" using processFile_asserts by metis
  then show ?thesis using Inl
    by (cases "s_file sys") (simp_all add: android_openEventTagMap_def open_fail_def android_closeEventTagMap_def Let_def)
next
  case (Inr etm)
  have "s_array sys" "length (mapAddr etm) = length (the (s_file sys))" using processFile_keeps [OF Inr] by simp_all
  then show ?thesis using Inr
    by (cases "s_file sys") (auto simp: android_openEventTagMap_def open_fail_def android_closeEventTagMap_def Let_def)
qed

text \<open>A number that ends its line: the line end is overwritten before it is looked at, so the next line is
  taken for the name; on the last line the scan leaves the mapping.\<close>

lemma number_at_line_end:
  "map_option (\<lambda>m. tag_name m 7) (case processFile insertion_sort True \<lparr> mapAddr = ''7'' @ [CHR 0x0A] @ ''name'' @ [CHR 0x0A],
     tagArray = [], numTags = 0 \<rparr> of Inl _ \<Rightarrow> None | Inr m \<Rightarrow> Some m) = Some (Inr (Some ''name''))"
  "processFile insertion_sort True \<lparr> mapAddr = ''7'' @ [CHR 0x0A], tagArray = [], numTags = 0 \<rparr> = Inl OutOfBounds"
  by code_simp+

text \<open>The first character behind a number is overwritten without a look at it.\<close>

lemma separator_unchecked:
  "map_option (\<lambda>m. tag_name m 7) (case processFile insertion_sort True \<lparr> mapAddr = ''7name'' @ [CHR 0x0A],
     tagArray = [], numTags = 0 \<rparr> of Inl _ \<Rightarrow> None | Inr m \<Rightarrow> Some m) = Some (Inr (Some ''ame''))"
  by code_simp

text \<open>Numbers that differ by \<open>2\<^sup>3\<^sup>1\<close> are each smaller than the other.\<close>

lemma compare_inconsistent:
  "compareEventTags \<lparr> tagIndex = 0, tagStr = 0 \<rparr> \<lparr> tagIndex = 2147483648, tagStr = 0 \<rparr> < 0"
  "compareEventTags \<lparr> tagIndex = 2147483648, tagStr = 0 \<rparr> \<lparr> tagIndex = 0, tagStr = 0 \<rparr> < 0"
  by (simp_all add: compareEventTags_def s32_def)

end
