(* ===== verification/Log_Event.thy ===== *)
theory Log_Event
  imports Log_Filter Event_Tag_Map
begin

text \<open>
  Log entries of \<open>liblog/logprint.c\<close>: the wire format of a log message, and the conversion of a binary event
  to text. An event is a tree of integers, strings and lists; its bytes are converted recursively into a
  buffer with limited room. The state of the conversion is the bytes that are left, the text
  written so far and the room behind it. The recursion of \<open>android_log_printBinaryEvent\<close> has a depth, and
  a depth greater than the number of bytes is always enough; at depth 0 there is no result. Every read of the data
  checks that the bytes are there, and a read outside them has no result either, so that a call with a result has
  read only what is there.
\<close>

subsection \<open>Entries\<close>

record logger_entry =
  len :: int
  e_pid :: int
  e_tid :: int
  sec :: int
  nsec :: int
  msg :: "u8 list"

record log_entry =
  tv_sec :: int
  tv_nsec :: int
  lpriority :: priority
  pid :: int
  tid :: int
  ltag :: string
  messageLen :: int
  message :: string

definition chars_of :: "u8 list \<Rightarrow> string" where
  "chars_of = map (\<lambda>b. char_of (unat b))"

text \<open>The tag is the C string behind the priority, and the message starts behind its terminator; its
  length is computed in \<open>size_t\<close>. A payload without a terminator is read beyond its end.\<close>

definition android_log_processLogBuffer :: "logger_entry \<Rightarrow> log_entry option" where
  "android_log_processLogBuffer buf =
     (let s = chars_of (msg buf) in
      if s = [] \<or> NUL \<notin> set (tl s) then None
      else
        let tag = takeWhile (\<lambda>c. c \<noteq> NUL) (tl s)
        in Some \<lparr> tv_sec = sec buf, tv_nsec = nsec buf, lpriority = of_char (hd s), pid = e_pid buf, tid = e_tid buf,
             ltag = tag, messageLen = (len buf - int (length tag) - 3) mod 4294967296,
             message = drop (length tag + 2) s \<rparr>)"

subsection \<open>Numbers\<close>

definition le_word4 :: "u8 list \<Rightarrow> u32" where
  "le_word4 src =
     ucast (src ! 0) OR push_bit 8 (ucast (src ! 1)) OR push_bit 16 (ucast (src ! 2)) OR push_bit 24 (ucast (src ! 3))"

definition le_word8 :: "u8 list \<Rightarrow> 64 word" where
  "le_word8 src = push_bit 32 (ucast (le_word4 (drop 4 src))) OR ucast (le_word4 src)"

text \<open>Reading: \<open>None\<close> when the bytes are not there.\<close>

definition read_byte :: "u8 list \<Rightarrow> u8 option" where
  "read_byte src = (case src of [] \<Rightarrow> None | b # _ \<Rightarrow> Some b)"

definition get4LE :: "u8 list \<Rightarrow> u32 option" where
  "get4LE src = (if length src < 4 then None else Some (le_word4 src))"

definition get8LE :: "u8 list \<Rightarrow> 64 word option" where
  "get8LE src = (if length src < 8 then None else Some (le_word8 src))"

text \<open>The conversion \<open>%d\<close>.\<close>

fun nat_digits :: "nat \<Rightarrow> string" where
  "nat_digits n = (if n < 10 then [char_of (48 + n)] else nat_digits (n div 10) @ [char_of (48 + n mod 10)])"

declare nat_digits.simps [simp del]

definition print_int :: "int \<Rightarrow> string" where
  "print_int i = (if i < 0 then CHR ''-'' # nat_digits (nat (- i)) else nat_digits (nat i))"

subsection \<open>Binary events\<close>

definition EVENT_TYPE_INT :: u8 where [simp]: "EVENT_TYPE_INT = 0"
definition EVENT_TYPE_LONG :: u8 where [simp]: "EVENT_TYPE_LONG = 1"
definition EVENT_TYPE_STRING :: u8 where [simp]: "EVENT_TYPE_STRING = 2"
definition EVENT_TYPE_LIST :: u8 where [simp]: "EVENT_TYPE_LIST = 3"

record event_state =
  ev_data :: "u8 list"
  ev_out :: string
  ev_room :: nat

definition put_text :: "string \<Rightarrow> event_state \<Rightarrow> event_state" where
  "put_text t s = s\<lparr> ev_out := ev_out s @ t, ev_room := ev_room s - length t \<rparr>"

text \<open>\<open>snprintf\<close> of a text: it must fit with its terminator, else the output stops.\<close>

definition put_number :: "string \<Rightarrow> event_state \<Rightarrow> int \<times> event_state" where
  "put_number t s = (if length t < ev_room s then (0, put_text t s) else (1, s))"

definition put_char :: "char \<Rightarrow> event_state \<Rightarrow> int \<times> event_state" where
  "put_char c s = (if ev_room s > 0 then (0, put_text [c] s) else (1, s))"

text \<open>A string of \<open>n\<close> bytes: what fits of it. Without any room it is skipped.\<close>

definition read_bytes :: "nat \<Rightarrow> u8 list \<Rightarrow> u8 list option" where
  "read_bytes n src = (if n \<le> length src then Some (take n src) else None)"

definition put_bytes :: "nat \<Rightarrow> event_state \<Rightarrow> (int \<times> event_state) option" where
  "put_bytes n s =
     (if n < ev_room s then
        (case read_bytes n (ev_data s) of
           None \<Rightarrow> None
         | Some t \<Rightarrow> Some (0, (put_text (chars_of t) s)\<lparr> ev_data := drop n (ev_data s) \<rparr>))
      else if ev_room s > 0 then
        (case read_bytes (ev_room s) (ev_data s) of
           None \<Rightarrow> None
         | Some t \<Rightarrow> Some (1, put_text (chars_of t) s))
      else if n \<le> length (ev_data s) then Some (0, s\<lparr> ev_data := drop n (ev_data s) \<rparr>)
      else None)"

text \<open>The items of a list, with a comma after each but the last.\<close>

fun print_items :: "(event_state \<Rightarrow> (int \<times> event_state) option) \<Rightarrow> nat \<Rightarrow> event_state \<Rightarrow> (int \<times> event_state) option" where
  "print_items f 0 s = Some (0, s)"
| "print_items f (Suc n) s =
     (case f s of
        None \<Rightarrow> None
      | Some (result, s1) \<Rightarrow>
          if result \<noteq> 0 then Some (result, s1)
          else if n > 0 then
            (case put_char CHR '','' s1 of (full, s2) \<Rightarrow> if full \<noteq> 0 then Some (1, s2) else print_items f n s2)
          else print_items f n s1)"

definition print_list :: "(event_state \<Rightarrow> (int \<times> event_state) option) \<Rightarrow> nat \<Rightarrow> event_state \<Rightarrow> (int \<times> event_state) option" where
  "print_list f n s =
     (case put_char CHR ''['' s of (full, s1) \<Rightarrow>
        if full \<noteq> 0 then Some (1, s1)
        else
          (case print_items f n s1 of
             None \<Rightarrow> None
           | Some (result, s2) \<Rightarrow> if result \<noteq> 0 then Some (result, s2) else Some (put_char CHR '']'' s2)))"

fun android_log_printBinaryEvent :: "nat \<Rightarrow> event_state \<Rightarrow> (int \<times> event_state) option" where
  "android_log_printBinaryEvent 0 s = None"
| "android_log_printBinaryEvent (Suc depth) s =
     (if length (ev_data s) < 1 then Some (-1, s)
      else
        case read_byte (ev_data s) of
          None \<Rightarrow> None
        | Some ty \<Rightarrow>
            let d = drop 1 (ev_data s) in
            if ty = EVENT_TYPE_INT then
              if length d < 4 then Some (-1, s)
              else case get4LE d of
                  None \<Rightarrow> None
                | Some ival \<Rightarrow> Some (put_number (print_int (sint ival)) (s\<lparr> ev_data := drop 4 d \<rparr>))
            else if ty = EVENT_TYPE_LONG then
              if length d < 8 then Some (-1, s)
              else case get8LE d of
                  None \<Rightarrow> None
                | Some lval \<Rightarrow> Some (put_number (print_int (sint lval)) (s\<lparr> ev_data := drop 8 d \<rparr>))
            else if ty = EVENT_TYPE_STRING then
              if length d < 4 then Some (-1, s)
              else case get4LE d of
                  None \<Rightarrow> None
                | Some strLen \<Rightarrow>
                    if length (drop 4 d) < unat strLen then Some (-1, s)
                    else put_bytes (unat strLen) (s\<lparr> ev_data := drop 4 d \<rparr>)
            else if ty = EVENT_TYPE_LIST then
              if length d < 1 then Some (-1, s)
              else case read_byte d of
                  None \<Rightarrow> None
                | Some cnt \<Rightarrow> print_list (android_log_printBinaryEvent depth) (unat cnt) (s\<lparr> ev_data := drop 1 d \<rparr>)
            else Some (-1, s))"

subsection \<open>A binary log entry\<close>

datatype log_fault = BufferOverrun | AssertionFailed | MapFault | NoResult | ReadOverrun | BadEntry

text \<open>
  The message buffer, of \<open>messageBufLen\<close> bytes: the generated tag, if any, and the text behind it. \<open>room\<close> is
  the size of the buffer behind the tag, which is negative when the tag fills the buffer; the remaining
  length of the code is then a huge \<open>size_t\<close>. Writing beyond the buffer is \<open>BufferOverrun\<close>, reading beyond the data
  \<open>NoResult\<close> or \<open>ReadOverrun\<close>. The result is the return value and the entry. An entry that claims more bytes than its payload has
  is a \<open>BadEntry\<close>: what the code reads behind the payload is not modelled.
\<close>

definition event_message :: "int \<Rightarrow> u8 list \<Rightarrow> log_fault + string option" where
  "event_message room d =
     (let outRemaining = nat ((room - 1) mod 4294967296)
      in case android_log_printBinaryEvent (length d + 1) \<lparr> ev_data = d, ev_out = [], ev_room = outRemaining \<rparr> of
           None \<Rightarrow> Inl NoResult
         | Some (result, s) \<Rightarrow>
             if result < 0 then Inr None
             else
               let (out, rem) =
                     (if result = 1 then
                        if ev_out s \<noteq> [] then (butlast (ev_out s) @ ''!'', int (ev_room s))
                        else (''!'', (int (ev_room s) - 1) mod 4294967296)
                      else (ev_out s, int (ev_room s)))
               in if int (length out) + 1 > room then Inl BufferOverrun
                  else if int (length out) \<noteq> (room - 1 - rem) mod 4294967296 then Inl AssertionFailed
                  else Inr (Some out))"

definition tag_text :: "int \<Rightarrow> string" where
  "tag_text idx = ''['' @ print_int (s32 idx) @ '']''"

definition android_log_processBinaryLogBuffer ::
  "logger_entry \<Rightarrow> event_tag_map option \<Rightarrow> int \<Rightarrow> log_fault + (int \<times> log_entry option)" where
  "android_log_processBinaryLogBuffer buf emap messageBufLen =
     (if int (length (msg buf)) < len buf then Inl BadEntry
      else
      let d = take (nat (len buf)) (msg buf) in
      if length d < 4 then Inr (-1, None)
      else
        case get4LE d of
          None \<Rightarrow> Inl ReadOverrun
        | Some w \<Rightarrow>
        let idx = uint w;
            found = (case emap of None \<Rightarrow> Inr None | Some m \<Rightarrow> tag_name m (s32 idx))
        in case found of
             Inl _ \<Rightarrow> Inl MapFault
           | Inr nm \<Rightarrow>
               let (tag, room) =
                     (case nm of
                        Some t \<Rightarrow> (t, messageBufLen)
                      | None \<Rightarrow> (take (nat messageBufLen - 1) (tag_text idx), messageBufLen - int (length (tag_text idx)) - 1))
               in case event_message room (drop 4 d) of
                    Inl e \<Rightarrow> Inl e
                  | Inr None \<Rightarrow> Inr (-1, None)
                  | Inr (Some out) \<Rightarrow>
                      Inr (0, Some \<lparr> tv_sec = sec buf, tv_nsec = nsec buf, lpriority = ANDROID_LOG_INFO, pid = e_pid buf,
                        tid = e_tid buf, ltag = tag, messageLen = int (length out), message = out \<rparr>))"

subsection \<open>Every input\<close>

text \<open>What every call does to the state: it consumes data from the front, and what it writes is taken from
  the room.\<close>

definition steps :: "event_state \<Rightarrow> event_state \<Rightarrow> bool" where
  "steps s s' \<longleftrightarrow> (\<exists>d. ev_data s = d @ ev_data s') \<and> (\<exists>t. ev_out s' = ev_out s @ t \<and> length t + ev_room s' = ev_room s)"

definition event_returns :: "(int \<times> event_state) option \<Rightarrow> event_state \<Rightarrow> bool" where
  "event_returns r s \<longleftrightarrow> (\<exists>k s'. r = Some (k, s') \<and> k \<in> {-1, 0, 1} \<and> steps s s')"

lemma steps_refl [simp]: "steps s s"
  by (simp add: steps_def)

lemma steps_trans: "steps s s1 \<Longrightarrow> steps s1 s2 \<Longrightarrow> steps s s2"
  unfolding steps_def by (elim conjE exE) (auto intro!: exI [of _ "_ @ _"])

lemma steps_length: "steps s s' \<Longrightarrow> length (ev_data s') \<le> length (ev_data s)"
  by (auto simp: steps_def)

lemma returnsI: "k \<in> {-1, 0, 1} \<Longrightarrow> steps s s' \<Longrightarrow> event_returns (Some (k, s')) s"
  by (simp add: event_returns_def)

lemma event_returns_mono: "event_returns r s1 \<Longrightarrow> steps s s1 \<Longrightarrow> event_returns r s"
  by (auto simp: event_returns_def intro: steps_trans)

lemma put_text_steps: "length t \<le> ev_room s \<Longrightarrow> steps s (put_text t s)"
  by (simp add: steps_def put_text_def)

lemma put_char_returns: "event_returns (Some (put_char c s)) s"
  by (auto simp: put_char_def intro!: returnsI put_text_steps)

lemma put_number_returns: "event_returns (Some (put_number t s)) s"
  by (auto simp: put_number_def intro!: returnsI put_text_steps)

lemma put_bytes_returns: "n \<le> length (ev_data s) \<Longrightarrow> event_returns (put_bytes n s) s"
  by (auto simp: put_bytes_def read_bytes_def event_returns_def steps_def put_text_def chars_of_def append_take_drop_id
      intro!: exI [of _ "take n (ev_data s)"])

lemmas read_simps = read_byte_def get4LE_def get8LE_def Let_def

lemma print_items_returns:
  assumes "\<And>s. length (ev_data s) \<le> L \<Longrightarrow> event_returns (f s) s" and "length (ev_data s) \<le> L"
  shows "event_returns (print_items f n s) s"
  using assms(2)
proof (induction n arbitrary: s)
  case (Suc n)
  obtain k s1 where f: "f s = Some (k, s1)" "k \<in> {-1, 0, 1}" "steps s s1"
    using assms(1) [OF Suc.prems] by (auto simp: event_returns_def)
  obtain b s2 where c: "put_char CHR '','' s1 = (b, s2)" "steps s1 s2" using put_char_returns [of "CHR '',''" s1] by (auto simp: event_returns_def)
  have "event_returns (print_items f n s1) s" "event_returns (print_items f n s2) s" "steps s s2"
    using Suc.IH f(3) c(2) steps_trans [OF f(3) c(2)] steps_length Suc.prems by (meson le_trans event_returns_mono)+
  then show ?case using f c by (auto intro: returnsI)
qed (simp add: event_returns_def)

lemma print_list_returns:
  assumes "\<And>s. length (ev_data s) \<le> L \<Longrightarrow> event_returns (f s) s" and "length (ev_data s) \<le> L"
  shows "event_returns (print_list f n s) s"
proof -
  obtain b s1 where c: "put_char CHR ''['' s = (b, s1)" "steps s s1" using put_char_returns [of "CHR ''[''" s] by (auto simp: event_returns_def)
  then have "event_returns (print_items f n s1) s1" using print_items_returns [OF assms(1)] steps_length assms(2) by (meson le_trans)
  then obtain k s2 where i: "print_items f n s1 = Some (k, s2)" "k \<in> {-1, 0, 1}" "steps s1 s2" by (auto simp: event_returns_def)
  have s2: "steps s s2" using c(2) i(3) by (rule steps_trans)
  then have "event_returns (Some (put_char CHR '']'' s2)) s" using put_char_returns event_returns_mono by blast
  then show ?thesis using c i s2 by (auto simp: print_list_def intro: returnsI)
qed

lemma drop_steps: "ev_data s = pre @ d \<Longrightarrow> steps s (s\<lparr> ev_data := d \<rparr>)"
  by (simp add: steps_def)

lemma printBinaryEvent_returns: "length (ev_data s) < depth \<Longrightarrow> event_returns (android_log_printBinaryEvent depth s) s"
proof (induction depth arbitrary: s)
  case (Suc depth)
  show ?case
  proof (cases "ev_data s")
    case Nil
    then show ?thesis by (simp add: event_returns_def)
  next
    case (Cons ty d)
    have drop: "steps s (s\<lparr> ev_data := drop n d \<rparr>)" for n
      using drop_steps [of s "ty # take n d" "drop n d"] Cons by simp
    have tl: "steps s (s\<lparr> ev_data := d' \<rparr>)" if "d = c # d'" for c d'
      using drop_steps [of s "[ty, c]" d'] Cons that by simp
    have lst: "event_returns (print_list (android_log_printBinaryEvent depth) n (s\<lparr> ev_data := d' \<rparr>)) s" if "d = c # d'" for c d' n
    proof (rule event_returns_mono [OF print_list_returns tl [OF that]])
      show "event_returns (android_log_printBinaryEvent depth s1) s1" if "length (ev_data s1) \<le> length d'" for s1
        using Suc.IH [of s1] Suc.prems that Cons \<open>d = c # d'\<close> by simp
    qed simp
    note put = event_returns_mono [OF put_number_returns drop] event_returns_mono [OF put_bytes_returns drop]
    show ?thesis using put lst by (auto simp: Cons returnsI read_simps split: list.split)
  qed
qed simp

lemma event_message_ok:
  assumes "2 \<le> room" and "room \<le> 2147483647"
  shows "\<exists>r. event_message room d = Inr r \<and> (\<forall>out. r = Some out \<longrightarrow> int (length out) < room)"
proof -
  have rem: "(room - 1) mod 4294967296 = room - 1" using assms by simp
  obtain k s where e: "android_log_printBinaryEvent (length d + 1) \<lparr> ev_data = d, ev_out = [], ev_room = nat (room - 1) \<rparr> = Some (k, s)"
    "k \<in> {-1, 0, 1}" "length (ev_out s) + ev_room s = nat (room - 1)"
    using printBinaryEvent_returns [of "\<lparr> ev_data = d, ev_out = [], ev_room = nat (room - 1) \<rparr>" "length d + 1"]
    by (auto simp: event_returns_def steps_def)
  have r: "int (length (ev_out s)) + int (ev_room s) = room - 1" using e(3) assms by linarith
  show ?thesis
  proof (cases "k = 1 \<and> ev_out s = []")
    case True
    then have "(int (ev_room s) - 1) mod 4294967296 = room - 2" using r assms by simp
    then show ?thesis using e(1) True assms by (simp add: event_message_def rem)
  next
    case False
    have "(room - 1 - int (ev_room s)) mod 4294967296 = int (length (ev_out s))" using r assms by simp
    then show ?thesis using e(1,2) False assms r by (auto simp: event_message_def rem Let_def)
  qed
qed

lemma nat_digits_length: "n < 10 ^ k \<Longrightarrow> 0 < k \<Longrightarrow> length (nat_digits n) \<le> k"
proof (induction n arbitrary: k rule: nat_digits.induct)
  case (1 n)
  show ?case
  proof (cases "n < 10")
    case True
    then show ?thesis using "1.prems" by (simp add: nat_digits.simps [of n])
  next
    case False
    then have "1 < k" using "1.prems" by (cases "k = 1") auto
    then obtain j where k: "k = Suc j" "0 < j" by (cases k) auto
    then have "n div 10 < 10 ^ j" using "1.prems"(1) by (simp add: less_mult_imp_div_less mult.commute)
    then show ?thesis using "1.IH" [OF False, of j] False k by (simp add: nat_digits.simps [of n])
  qed
qed

lemma tag_text_length: "length (tag_text idx) \<le> 13"
proof -
  let ?i = "s32 idx"
  have "nat ?i < 10 ^ 10" "nat (- ?i) < 10 ^ 10" using s32_bounds [of idx] by auto
  then have "length (nat_digits (nat ?i)) \<le> 10" "length (nat_digits (nat (- ?i))) \<le> 10" using nat_digits_length by auto
  then show ?thesis by (simp add: tag_text_def print_int_def)
qed

text \<open>
  C34. Converting a binary log entry is safe for every payload: for an entry whose length is not more than its payload has,
  with a message buffer of at least 16 bytes, and a map whose lookups return, \<open>android_log_processBinaryLogBuffer\<close> ends
  whatever bytes the entry holds, lists nested to any depth included; every byte it reads is one of the entry's bytes,
  nothing is written beyond the buffer, the assertion holds, and the message with its terminator fits the buffer.
\<close>
theorem binary_event_safe:
  assumes "len buf \<le> int (length (msg buf))" and "16 \<le> n" and "n \<le> 2147483647"
    and "\<forall>m t. emap = Some m \<longrightarrow> (\<exists>r. tag_name m t = Inr r)"
  shows "\<exists>r e. android_log_processBinaryLogBuffer buf emap n = Inr (r, e) \<and>
    (\<forall>entry. e = Some entry \<longrightarrow> messageLen entry = int (length (message entry)) \<and> messageLen entry < n)"
proof -
  let ?d = "take (nat (len buf)) (msg buf)"
  let ?idx = "uint (le_word4 ?d)"
  obtain nm where nm: "(case emap of None \<Rightarrow> Inr None | Some m \<Rightarrow> tag_name m (s32 ?idx)) = Inr nm"
    using assms(4) by (cases emap) auto
  define room where "room = (case nm of Some t \<Rightarrow> n | None \<Rightarrow> n - int (length (tag_text ?idx)) - 1)"
  have "2 \<le> room" "room \<le> n" "room \<le> 2147483647" using assms(2,3) tag_text_length [of ?idx] by (auto simp: room_def split: option.split)
  moreover from this obtain r where "event_message room (drop 4 ?d) = Inr r" "\<forall>out. r = Some out \<longrightarrow> int (length out) < room"
    using event_message_ok by blast
  ultimately show ?thesis using nm assms(1)
    by (cases nm; cases r) (auto simp: android_log_processBinaryLogBuffer_def room_def read_simps)
qed

theorem binary_event_safe_witness:
  "\<exists>r e. android_log_processBinaryLogBuffer \<lparr> len = 9, e_pid = 1, e_tid = 1, sec = 0, nsec = 0,
     msg = [7, 0, 0, 0, 2, 255, 0, 0, 0] \<rparr> None 16 = Inr (r, e)"
  using binary_event_safe [of "\<lparr> len = 9, e_pid = 1, e_tid = 1, sec = 0, nsec = 0, msg = [7, 0, 0, 0, 2, 255, 0, 0, 0] \<rparr>" 16 None]
  by auto

subsection \<open>The text of an event\<close>

datatype event = EInt int | ELong int | EString "u8 list" | EList "event list"

definition enc4 :: "u32 \<Rightarrow> u8 list" where
  "enc4 w = [ucast w, ucast (drop_bit 8 w), ucast (drop_bit 16 w), ucast (drop_bit 24 w)]"

definition enc8 :: "64 word \<Rightarrow> u8 list" where
  "enc8 w = enc4 (ucast w) @ enc4 (ucast (drop_bit 32 w))"

fun encode_event :: "event \<Rightarrow> u8 list" where
  "encode_event (EInt i) = 0 # enc4 (word_of_int i)"
| "encode_event (ELong i) = 1 # enc8 (word_of_int i)"
| "encode_event (EString bs) = 2 # enc4 (word_of_nat (length bs)) @ bs"
| "encode_event (EList es) = 3 # word_of_nat (length es) # concat (map encode_event es)"

fun commas :: "string list \<Rightarrow> string" where
  "commas [] = []"
| "commas [t] = t"
| "commas (t # u # ts) = t @ CHR '','' # commas (u # ts)"

fun event_text :: "event \<Rightarrow> string" where
  "event_text (EInt i) = print_int i"
| "event_text (ELong i) = print_int i"
| "event_text (EString bs) = chars_of bs"
| "event_text (EList es) = CHR ''['' # commas (map event_text es) @ '']''"

fun event_ok :: "event \<Rightarrow> bool" where
  "event_ok (EInt i) \<longleftrightarrow> - 2147483648 \<le> i \<and> i \<le> 2147483647"
| "event_ok (ELong i) \<longleftrightarrow> - 9223372036854775808 \<le> i \<and> i \<le> 9223372036854775807"
| "event_ok (EString bs) \<longleftrightarrow> length bs < 4294967296"
| "event_ok (EList es) \<longleftrightarrow> length es < 256 \<and> list_all event_ok es"

lemma le_word4_enc4: "le_word4 (enc4 w @ r) = w"
proof (rule bit_word_eqI)
  fix n assume "n < LENGTH(32)"
  then consider "n < 8" | "8 \<le> n" "n < 16" | "16 \<le> n" "n < 24" | "24 \<le> n" "n < 32" by fastforce
  then show "bit (le_word4 (enc4 w @ r)) n = bit w n"
    by cases (auto simp: le_word4_def enc4_def bit_simps)
qed

lemma le_word8_enc8: "le_word8 (enc8 w @ r) = w"
proof -
  have "le_word4 (enc8 w @ r) = ucast w" "le_word4 (drop 4 (enc8 w @ r)) = ucast (drop_bit 32 w)"
    using le_word4_enc4 [of "ucast w" "enc4 (ucast (drop_bit 32 w)) @ r"] le_word4_enc4 [of "ucast (drop_bit 32 w)" r]
    by (simp_all add: enc8_def enc4_def)
  then show ?thesis unfolding le_word8_def by (intro bit_word_eqI) (auto simp: bit_simps not_le)
qed

lemma enc_length [simp]: "length (enc4 w) = 4" "length (enc8 v) = 8"
  by (simp_all add: enc8_def enc4_def)

text \<open>With enough room, an encoded event is consumed and its text appended.\<close>

definition prints :: "(event_state \<Rightarrow> (int \<times> event_state) option) \<Rightarrow> u8 list \<Rightarrow> string \<Rightarrow> bool" where
  "prints f bs t \<longleftrightarrow> (\<forall>s rest. ev_data s = bs @ rest \<and> length t < ev_room s \<longrightarrow>
     f s = Some (0, s\<lparr> ev_data := rest, ev_out := ev_out s @ t, ev_room := ev_room s - length t \<rparr>))"

lemma printsD:
  "prints f bs t \<Longrightarrow> ev_data s = bs @ rest \<Longrightarrow> length t < ev_room s \<Longrightarrow>
    f s = Some (0, s\<lparr> ev_data := rest, ev_out := ev_out s @ t, ev_room := ev_room s - length t \<rparr>)"
  by (simp add: prints_def)

lemma print_items_prints:
  assumes "\<And>e. e \<in> set es \<Longrightarrow> prints f (encode_event e) (event_text e)"
  shows "prints (print_items f (length es)) (concat (map encode_event es)) (commas (map event_text es))"
  using assms
proof (induction es rule: induct_list012)
  case 1
  then show ?case by (simp add: prints_def)
next
  case (2 e)
  then show ?case by (auto simp: prints_def)
next
  case (3 e e' es)
  have e: "prints f (encode_event e) (event_text e)" using "3.prems" by simp
  have es: "prints (print_items f (length (e' # es))) (concat (map encode_event (e' # es))) (commas (map event_text (e' # es)))"
    by (rule "3.IH"(2)) (use "3.prems" in auto)
  show ?case unfolding prints_def
  proof (intro allI impI)
    fix s :: event_state and rest
    let ?t = "event_text e" and ?u = "commas (map event_text (e' # es))"
    assume a: "ev_data s = concat (map encode_event (e # e' # es)) @ rest \<and> length (commas (map event_text (e # e' # es))) < ev_room s"
    define s1 where "s1 = s\<lparr> ev_data := concat (map encode_event (e' # es)) @ rest, ev_out := ev_out s @ ?t, ev_room := ev_room s - length ?t \<rparr>"
    define s2 where "s2 = put_text '','' s1"
    have "f s = Some (0, s1)" unfolding s1_def by (rule printsD [OF e]) (use a in auto)
    moreover have "put_char CHR '','' s1 = (0, s2)" using a by (simp add: put_char_def s2_def s1_def)
    moreover have "print_items f (length (e' # es)) s2
        = Some (0, s2\<lparr> ev_data := rest, ev_out := ev_out s2 @ ?u, ev_room := ev_room s2 - length ?u \<rparr>)"
      by (rule printsD [OF es]) (use a in \<open>auto simp: s2_def s1_def put_text_def\<close>)
    ultimately show "print_items f (length (e # e' # es)) s = Some (0, s\<lparr> ev_data := rest,
        ev_out := ev_out s @ commas (map event_text (e # e' # es)), ev_room := ev_room s - length (commas (map event_text (e # e' # es))) \<rparr>)"
      by (simp add: s2_def s1_def put_text_def)
  qed
qed

lemma print_list_prints:
  assumes "prints (print_items f n) bs t"
  shows "prints (print_list f n) bs (CHR ''['' # t @ '']'')"
  unfolding prints_def
proof (intro allI impI)
  fix s :: event_state and rest
  assume a: "ev_data s = bs @ rest \<and> length (CHR ''['' # t @ '']'') < ev_room s"
  have "print_items f n (put_text ''['' s) = Some (0, (put_text ''['' s)\<lparr> ev_data := rest, ev_out := ev_out (put_text ''['' s) @ t,
      ev_room := ev_room (put_text ''['' s) - length t \<rparr>)"
    by (rule printsD [OF assms]) (use a in \<open>auto simp: put_text_def\<close>)
  then show "print_list f n s = Some (0, s\<lparr> ev_data := rest, ev_out := ev_out s @ CHR ''['' # t @ '']'',
      ev_room := ev_room s - length (CHR ''['' # t @ '']'') \<rparr>)"
    using a by (simp add: print_list_def put_char_def put_text_def)
qed

lemma sint_word_of_int:
  "- 2147483648 \<le> i \<Longrightarrow> i \<le> 2147483647 \<Longrightarrow> sint (word_of_int i :: 32 word) = i"
  "- 9223372036854775808 \<le> i \<Longrightarrow> i \<le> 9223372036854775807 \<Longrightarrow> sint (word_of_int i :: 64 word) = i"
  by (simp_all add: sint_sbintrunc' signed_take_bit_int_eq_self)

lemma encode_member_length: "e \<in> set es \<Longrightarrow> length (encode_event e) \<le> length (concat (map encode_event es))"
  by (induction es) auto

lemma event_prints:
  "event_ok e \<Longrightarrow> length (encode_event e) \<le> depth \<Longrightarrow> prints (android_log_printBinaryEvent depth) (encode_event e) (event_text e)"
proof (induction e arbitrary: depth)
  case (EInt i)
  then obtain d where "depth = Suc d" by (cases depth) auto
  then show ?case using EInt le_word4_enc4 [of "word_of_int i"]
    by (auto simp: prints_def put_number_def put_text_def sint_word_of_int read_simps)
next
  case (ELong i)
  then obtain d where "depth = Suc d" by (cases depth) auto
  then show ?case using ELong le_word8_enc8 [of "word_of_int i"]
    by (auto simp: prints_def put_number_def put_text_def sint_word_of_int read_simps)
next
  case (EString bs)
  then obtain d where "depth = Suc d" by (cases depth) auto
  moreover have "unat (word_of_nat (length bs) :: u32) = length bs" using EString by (simp add: unat_of_nat)
  ultimately show ?case using le_word4_enc4 [of "word_of_nat (length bs)"]
    by (auto simp: prints_def put_bytes_def put_text_def chars_of_def read_bytes_def read_simps)
next
  case (EList es)
  then obtain d where d: "depth = Suc d" by (cases depth) auto
  have "prints (android_log_printBinaryEvent d) (encode_event e) (event_text e)" if "e \<in> set es" for e
    using EList.IH [OF that, of d] EList.prems encode_member_length [OF that] d that by (auto simp: list_all_iff)
  then have "prints (print_list (android_log_printBinaryEvent d) (length es)) (concat (map encode_event es)) (event_text (EList es))"
    using print_list_prints [OF print_items_prints] by simp
  moreover have "unat (word_of_nat (length es) :: u8) = length es" using EList.prems by (simp add: unat_of_nat)
  ultimately show ?case by (simp add: prints_def d read_simps)
qed

lemma event_message_text:
  assumes "event_ok e" and "int (length (event_text e)) < room - 1" and "room \<le> 2147483647"
  shows "event_message room (encode_event e @ tail) = Inr (Some (event_text e))"
proof -
  let ?s = "\<lparr> ev_data = encode_event e @ tail, ev_out = [], ev_room = nat (room - 1) \<rparr>"
  have "android_log_printBinaryEvent (length (encode_event e @ tail) + 1) ?s
      = Some (0, ?s\<lparr> ev_data := tail, ev_out := ev_out ?s @ event_text e, ev_room := ev_room ?s - length (event_text e) \<rparr>)"
    by (rule printsD [OF event_prints [OF assms(1)]]) (use assms in auto)
  moreover have "(room - 1) mod 4294967296 = room - 1" "(room - 1 - int (nat (room - 1) - length (event_text e))) mod 4294967296 = int (length (event_text e))"
    using assms(2,3) by (auto simp: of_nat_diff)
  ultimately show ?thesis using assms(2) by (simp add: event_message_def)
qed

text \<open>
  C32. From a tag file and the bytes of a log entry to the text that is shown: for a map opened from a
  well-formed tag file and an entry that carries a tag number and an encoded event, nested lists included,
  with room for the text, \<open>android_log_processBinaryLogBuffer\<close> returns 0 and an entry whose message is exactly the
  text of the event and whose tag is the name that the file lists for the number, or the number in
  brackets; the time and the process are those of the entry.
\<close>
theorem binary_event_text:
  assumes "c_qsort qsort" and "file_ok ls" and "distinct (map fst (entries ls))"
    and sys: "s_struct sys" "s_file sys = Some (print_file ls)" "s_seek sys" "s_mmap sys" "s_array sys"
    and "snd (android_openEventTagMap qsort sys res) = Inr etm"
    and "event_ok e" and buf: "msg buf = enc4 idx @ encode_event e @ tail" "len buf = int (length (msg buf))"
    and "int (length (event_text e)) + 17 \<le> n" and "n \<le> 2147483647"
  shows "android_log_processBinaryLogBuffer buf (Some etm) n = Inr (0, Some \<lparr> tv_sec = sec buf, tv_nsec = nsec buf,
    lpriority = ANDROID_LOG_INFO, pid = e_pid buf, tid = e_tid buf,
    ltag = (case map_of (entries ls) (s32 (uint idx)) of Some name \<Rightarrow> name | None \<Rightarrow> tag_text (uint idx)),
    messageLen = int (length (event_text e)), message = event_text e \<rparr>)"
proof -
  let ?idx = "uint idx"
  have nm: "tag_name etm (s32 ?idx) = Inr (map_of (entries ls) (s32 ?idx))"
    using c_qsort.open_reads_file [OF assms(1,2) sys, of res] assms(3,9) by simp
  have d: "take (nat (len buf)) (msg buf) = enc4 idx @ encode_event e @ tail" using buf by simp
  have "length (tag_text ?idx) \<le> 13" by (rule tag_text_length)
  then have room: "event_message n (encode_event e @ tail) = Inr (Some (event_text e))"
    "event_message (n - int (length (tag_text ?idx)) - 1) (encode_event e @ tail) = Inr (Some (event_text e))"
    "take (nat n - 1) (tag_text ?idx) = tag_text ?idx"
    using assms(10,13,14) by (auto intro!: event_message_text)
  show ?thesis
    unfolding android_log_processBinaryLogBuffer_def d read_simps le_word4_enc4
    using nm room buf(2) by (cases "map_of (entries ls) (s32 ?idx)") simp_all
qed

definition sample_entry :: logger_entry where
  "sample_entry = \<lparr> len = 20, e_pid = 7, e_tid = 8, sec = 100, nsec = 5,
     msg = [42, 0, 0, 0, 3, 2, 0, 0xFF, 0xFF, 0xFF, 0xFF, 2, 3, 0, 0, 0, 0x61, 0x62, 0x63, 0x0A] \<rparr>"

theorem binary_event_text_witness:
  "\<exists>etm. snd (android_openEventTagMap insertion_sort sample_system \<lparr> r_structs = 0, r_mappings = 0, r_arrays = 0, r_fds = 0 \<rparr>) = Inr etm \<and>
     android_log_processBinaryLogBuffer sample_entry (Some etm) 64 = Inr (0, Some \<lparr> tv_sec = 100, tv_nsec = 5, lpriority = 4, pid = 7,
       tid = 8, ltag = ''answer'', messageLen = 8, message = ''[-1,abc]'' \<rparr>)"
proof -
  let ?e = "EList [EInt (-1), EString [0x61, 0x62, 0x63]]"
  have sys: "s_struct sample_system" "s_file sample_system = Some (print_file sample_tags)" "s_seek sample_system"
    "s_mmap sample_system" "s_array sample_system" by (simp_all add: sample_system_def)
  have distinct: "distinct (map fst (entries sample_tags))" by (simp add: sample_tags_ok(2))
  obtain etm where o: "snd (android_openEventTagMap insertion_sort sample_system \<lparr> r_structs = 0, r_mappings = 0, r_arrays = 0, r_fds = 0 \<rparr>) = Inr etm"
    using isort.open_reads_file [OF sample_tags_ok(1) sys] distinct by (auto simp: sample_tags_ok(2))
  have buf: "msg sample_entry = enc4 42 @ encode_event ?e @ [0x0A]" "len sample_entry = int (length (msg sample_entry))"
    by code_simp+
  have t: "print_int (- 1) = ''-1''" "chars_of [0x61, 0x62, 0x63] = ''abc''" by code_simp+
  have "int (length (event_text ?e)) + 17 \<le> 64" by (simp add: t)
  from binary_event_text [OF isort.c_qsort_axioms sample_tags_ok(1) distinct sys o _ buf this] o
  show ?thesis by (simp add: t sample_tags_ok(2) s32_id in_s32I) (simp add: sample_entry_def)
qed

text \<open>Without any room a string is skipped, and the call returns 0.\<close>

lemma string_skipped:
  "android_log_printBinaryEvent 1 \<lparr> ev_data = [2, 1, 0, 0, 0, 0x61], ev_out = [], ev_room = 0 \<rparr>
    = Some (0, \<lparr> ev_data = [], ev_out = [], ev_room = 0 \<rparr>)"
  by code_simp

text \<open>A buffer of one byte is overrun by the mark for missing room.\<close>

lemma one_byte_overrun: "event_message 1 [0, 5, 0, 0, 0] = Inl BufferOverrun"
  by code_simp

end
