(* ===== verification/Meta_Data.thy ===== *)
theory Meta_Data
  imports Sorted_Vector Sample_Table Log_Event
begin

text \<open>
  The attributes that the player's components exchange, \<open>libppplayer/MetaData.cpp\<close>: a keyed vector from 32-bit keys to typed
  data. An item owns its bytes (in the object when they are at most four, else in memory of their own), so copies of items
  share nothing and an item is its type and its bytes; the vector of the items is the shared one of \<open>Vector_Impl\<close>.
\<close>

subsection \<open>Typed data\<close>

record typed_data =
  mType :: u32
  data_bytes :: "u8 list"

definition TYPE_NONE :: u32 where "TYPE_NONE = FOURCC (CHR ''n'') (CHR ''o'') (CHR ''n'') (CHR ''e'')"
definition TYPE_C_STRING :: u32 where "TYPE_C_STRING = FOURCC (CHR ''c'') (CHR ''s'') (CHR ''t'') (CHR ''r'')"
definition TYPE_INT32 :: u32 where "TYPE_INT32 = FOURCC (CHR ''i'') (CHR ''n'') (CHR ''3'') (CHR ''2'')"
definition TYPE_INT64 :: u32 where "TYPE_INT64 = FOURCC (CHR ''i'') (CHR ''n'') (CHR ''6'') (CHR ''4'')"
definition TYPE_FLOAT :: u32 where "TYPE_FLOAT = FOURCC (CHR ''f'') (CHR ''l'') (CHR ''o'') (CHR ''a'')"
definition TYPE_POINTER :: u32 where "TYPE_POINTER = FOURCC (CHR ''p'') (CHR ''t'') (CHR ''r'') (CHR '' '')"

definition typed_data_new :: typed_data where
  "typed_data_new = \<lparr> mType = 0, data_bytes = [] \<rparr>"

definition usesReservoir :: "nat \<Rightarrow> bool" where
  "usesReservoir n \<longleftrightarrow> n \<le> 4"

text \<open>The storage of the bytes is allocated without a check and then written to.\<close>

definition typed_data_setData :: "(nat \<Rightarrow> bool) \<Rightarrow> u32 \<Rightarrow> u8 list \<Rightarrow> vec_fault + typed_data" where
  "typed_data_setData mem type data =
     (if usesReservoir (length data) \<or> mem (length data) then Inr \<lparr> mType = type, data_bytes = data \<rparr> else Inl NullPointer)"

definition getData :: "typed_data \<Rightarrow> u32 \<times> u8 list" where
  "getData item = (mType item, data_bytes item)"

subsection \<open>The attributes\<close>

text \<open>The state is the vector \<open>mItems\<close>; its items are pairs of a key and 12 bytes of \<open>typed_data\<close>.\<close>

type_synonym meta_heap = "(u32 \<times> typed_data) sb_heap"

definition meta_type :: item_type where
  "meta_type = \<lparr> mItemSize = 16, trivial = False \<rparr>"

definition meta_index :: "u32 \<Rightarrow> VectorImpl \<Rightarrow> meta_heap \<Rightarrow> vec_fault + int" where
  "meta_index key v H = indexOfKey typed_data_new key v H"

definition setData :: "(nat \<Rightarrow> bool) \<Rightarrow> u32 \<Rightarrow> u32 \<Rightarrow> u8 list \<Rightarrow> VectorImpl \<Rightarrow> meta_heap \<Rightarrow> vec_fault + bool \<times> VectorImpl \<times> meta_heap" where
  "setData mem key type data v H =
     bind_v (meta_index key v H) (\<lambda>i.
     bind_v
      (if i < 0 then map_sum id (Pair False) (keyed_add mem meta_type key typed_data_new v H) else Inr (True, i, v, H))
      (\<lambda>(overwrote_existing, i, v, H).
     bind_v (typed_data_setData mem type data) (\<lambda>item.
     bind_v (editValueAt mem meta_type (unat (word_of_int i :: u32)) item v H) (\<lambda>(v, H).
     Inr (overwrote_existing, v, H)))))"

definition findData :: "u32 \<Rightarrow> VectorImpl \<Rightarrow> meta_heap \<Rightarrow> vec_fault + (u32 \<times> u8 list) option" where
  "findData key v H =
     bind_v (meta_index key v H) (\<lambda>i.
     if i < 0 then Inr None else map_sum id (Some \<circ> getData) (valueAt (nat i) v H))"

definition meta_remove :: "(nat \<Rightarrow> bool) \<Rightarrow> u32 \<Rightarrow> VectorImpl \<Rightarrow> meta_heap \<Rightarrow> vec_fault + bool \<times> VectorImpl \<times> meta_heap" where
  "meta_remove mem key v H =
     bind_v (meta_index key v H) (\<lambda>i.
     if i < 0 then Inr (False, v, H)
     else bind_v (removeItemsAt mem meta_type (word_of_int i) 1 v H) (\<lambda>(_, v, H). Inr (True, v, H)))"

definition meta_clear :: "(nat \<Rightarrow> bool) \<Rightarrow> VectorImpl \<Rightarrow> meta_heap \<Rightarrow> vec_fault + VectorImpl \<times> meta_heap" where
  "meta_clear mem v H = vector_clear mem meta_type v H"

text \<open>The setters write the bytes of the value as memory holds them, a string with its final zero.\<close>

definition setCString :: "(nat \<Rightarrow> bool) \<Rightarrow> u32 \<Rightarrow> u8 list \<Rightarrow> VectorImpl \<Rightarrow> meta_heap \<Rightarrow> vec_fault + bool \<times> VectorImpl \<times> meta_heap" where
  "setCString mem key val v H = setData mem key TYPE_C_STRING (takeWhile (\<lambda>c. c \<noteq> 0) val @ [0]) v H"

definition setInt32 :: "(nat \<Rightarrow> bool) \<Rightarrow> u32 \<Rightarrow> u32 \<Rightarrow> VectorImpl \<Rightarrow> meta_heap \<Rightarrow> vec_fault + bool \<times> VectorImpl \<times> meta_heap" where
  "setInt32 mem key val v H = setData mem key TYPE_INT32 (enc4 val) v H"

definition setInt64 :: "(nat \<Rightarrow> bool) \<Rightarrow> u32 \<Rightarrow> 64 word \<Rightarrow> VectorImpl \<Rightarrow> meta_heap \<Rightarrow> vec_fault + bool \<times> VectorImpl \<times> meta_heap" where
  "setInt64 mem key val v H = setData mem key TYPE_INT64 (enc8 val) v H"

text \<open>A float and a pointer are their 32 bits.\<close>

definition setFloat :: "(nat \<Rightarrow> bool) \<Rightarrow> u32 \<Rightarrow> u32 \<Rightarrow> VectorImpl \<Rightarrow> meta_heap \<Rightarrow> vec_fault + bool \<times> VectorImpl \<times> meta_heap" where
  "setFloat mem key val v H = setData mem key TYPE_FLOAT (enc4 val) v H"

definition setPointer :: "(nat \<Rightarrow> bool) \<Rightarrow> u32 \<Rightarrow> u32 \<Rightarrow> VectorImpl \<Rightarrow> meta_heap \<Rightarrow> vec_fault + bool \<times> VectorImpl \<times> meta_heap" where
  "setPointer mem key val v H = setData mem key TYPE_POINTER (enc4 val) v H"

definition find_typed :: "u32 \<Rightarrow> (u8 list \<Rightarrow> vec_fault + 'r) \<Rightarrow> u32 \<Rightarrow> VectorImpl \<Rightarrow> meta_heap \<Rightarrow> vec_fault + 'r option" where
  "find_typed type get key v H =
     bind_v (findData key v H) (\<lambda>r.
     case r of
       None \<Rightarrow> Inr None
     | Some (t, data) \<Rightarrow> if t \<noteq> type then Inr None else map_sum id Some (get data))"

text \<open>\<open>CHECK_EQ(size, sizeof(*value))\<close>.\<close>

definition get_word4 :: "u8 list \<Rightarrow> vec_fault + u32" where
  "get_word4 data = (if length data \<noteq> 4 then Inl vec_fault.CheckFailed else Inr (le_word4 data))"

definition get_word8 :: "u8 list \<Rightarrow> vec_fault + 64 word" where
  "get_word8 data = (if length data \<noteq> 8 then Inl vec_fault.CheckFailed else Inr (le_word8 data))"

definition findCString :: "u32 \<Rightarrow> VectorImpl \<Rightarrow> meta_heap \<Rightarrow> vec_fault + u8 list option" where
  "findCString = find_typed TYPE_C_STRING Inr"

definition findInt32 :: "u32 \<Rightarrow> VectorImpl \<Rightarrow> meta_heap \<Rightarrow> vec_fault + u32 option" where
  "findInt32 = find_typed TYPE_INT32 get_word4"

definition findInt64 :: "u32 \<Rightarrow> VectorImpl \<Rightarrow> meta_heap \<Rightarrow> vec_fault + 64 word option" where
  "findInt64 = find_typed TYPE_INT64 get_word8"

definition findFloat :: "u32 \<Rightarrow> VectorImpl \<Rightarrow> meta_heap \<Rightarrow> vec_fault + u32 option" where
  "findFloat = find_typed TYPE_FLOAT get_word4"

definition findPointer :: "u32 \<Rightarrow> VectorImpl \<Rightarrow> meta_heap \<Rightarrow> vec_fault + u32 option" where
  "findPointer = find_typed TYPE_POINTER get_word4"

subsection \<open>Attributes as a map\<close>

lemma edit_is_put:
  assumes s: "pair_order.strict xs" and f: "pair_order.found (k, d) xs"
  shows "xs[pair_order.rank (k, d) xs := (fst (xs ! pair_order.rank (k, d) xs), val)] = pair_order.put_item (k, val) xs"
proof -
  have r: "pair_order.rank (k, val) xs = pair_order.rank (k, d) xs" "pair_order.found (k, val) xs"
    using f rank_key by metis+
  have "fst (xs ! pair_order.rank (k, d) xs) = k" using f by (auto simp: pair_order.found_def pair_cmp split: if_splits)
  then show ?thesis using pair_order.put_item_cases [OF s, of "(k, val)"] r by simp
qed

lemma found_put: "pair_order.strict xs \<Longrightarrow> pair_order.found (k, d) (pair_order.put_item (k, val) xs)"
  by (simp only: found_map(1) [OF pair_order.strict_put]) (simp add: pair_order.put_item_def)

lemma meta_index_ok:
  assumes "vec_ok ty H v xs" and "pair_order.strict xs" and "length xs < 2147483648"
  shows "meta_index k v H = Inr (if k \<in> dom (map_of xs) then int (pair_order.rank (k, typed_data_new) xs) else NAME_NOT_FOUND)"
  unfolding meta_index_def by (rule indexOfKey_ok [OF assms])

lemma word_of_rank: "n < 2147483648 \<Longrightarrow> unat (word_of_int (int n) :: u32) = n"
  by (simp add: unat_of_nat_u32)

lemma edit_meta:
  assumes o: "own v H" and v: "vec_ok meta_type H v xs" and s: "pair_order.strict xs" and f: "pair_order.found (k, typed_data_new) xs"
    and len: "length xs < 2147483648"
  shows "\<exists>v' H'. editValueAt plenty meta_type (unat (word_of_int (int (pair_order.rank (k, typed_data_new) xs)) :: u32)) item v H = Inr (v', H') \<and>
    keyed_ok meta_type H' v' ((map_of xs)(k \<mapsto> item))"
proof -
  have r: "pair_order.rank (k, typed_data_new) xs < length xs" using f by (simp add: pair_order.found_def)
  obtain v' H' where e: "editValueAt plenty meta_type (pair_order.rank (k, typed_data_new) xs) item v H = Inr (v', H')"
      "changed meta_type v H (pair_order.put_item (k, item) xs) v' H'"
    using editValueAt_ok [OF v r, of item] edit_is_put [OF s f] by auto
  have "keyed_ok meta_type H' v' (map_of (pair_order.put_item (k, item) xs))"
    by (rule keyed_step [OF disjI1 [OF e(2)] pair_order.strict_put [OF s]])
  moreover have "unat (word_of_int (int (pair_order.rank (k, typed_data_new) xs)) :: u32) = pair_order.rank (k, typed_data_new) xs"
    using r len by (intro word_of_rank) simp
  ultimately show ?thesis using e(1) map_of_put_item [OF s] by auto
qed

lemma setData_ok:
  assumes m: "keyed_ok meta_type H v m" and n: "card (dom m) < 10000000"
  shows "\<exists>v' H'. setData plenty k type data v H = Inr (k \<in> dom m, v', H') \<and>
    keyed_ok meta_type H' v' (m(k \<mapsto> \<lparr> mType = type, data_bytes = data \<rparr>))"
proof -
  obtain xs where o: "own v H" and v: "vec_ok meta_type H v xs" and s: "pair_order.strict xs" and mx: "m = map_of xs" using m unfolding keyed_ok_def by blast
  have len: "length xs < 10000000" using n keyed_length [OF s] by (simp add: mx)
  have set: "typed_data_setData plenty type data = Inr \<lparr> mType = type, data_bytes = data \<rparr>" by (simp add: typed_data_setData_def plenty_def)
  have i: "meta_index k v H = Inr (if k \<in> dom m then int (pair_order.rank (k, typed_data_new) xs) else NAME_NOT_FOUND)"
    unfolding mx using len by (intro meta_index_ok [OF v s]) simp
  show ?thesis
  proof (cases "k \<in> dom m")
    case True
    then have f: "pair_order.found (k, typed_data_new) xs" using found_map(1) [OF s] by (simp add: mx dom_map_of_conv_image_fst)
    show ?thesis using edit_meta [OF o v s f, of "\<lparr> mType = type, data_bytes = data \<rparr>"] True i set len by (auto simp: setData_def mx)
  next
    case False
    let ?ys = "pair_order.put_item (k, typed_data_new) xs"
    have fi: "fits meta_type (Suc (length xs))" using len by (simp add: fits_def meta_type_def)
    obtain v1 H1 where a: "keyed_add plenty meta_type k typed_data_new v H = Inr (int (pair_order.rank (k, typed_data_new) xs), v1, H1)"
        "changed meta_type v H ?ys v1 H1"
      using keyed_add_ok [OF o v s fi] by blast
    have y: "own v1 H1" "vec_ok meta_type H1 v1 ?ys" "pair_order.strict ?ys" "pair_order.found (k, typed_data_new) ?ys"
      using changed_own [OF a(2)] pair_order.strict_put [OF s] found_put [OF s] by simp_all
    have ly: "length ?ys < 2147483648" using len unfolding pair_order.put_item_cases [OF s] by auto
    have r: "pair_order.rank (k, typed_data_new) ?ys = pair_order.rank (k, typed_data_new) xs" by (rule pair_order.rank_put)
    have mo: "(map_of ?ys)(k \<mapsto> item) = m(k \<mapsto> item)" for item by (simp add: map_of_put_item [OF s] mx)
    show ?thesis using edit_meta [OF y ly, of "\<lparr> mType = type, data_bytes = data \<rparr>"] False i set a(1)
      by (auto simp: setData_def NAME_NOT_FOUND_def r mo)
  qed
qed

lemma findData_ok:
  assumes m: "keyed_ok meta_type H v m" and n: "card (dom m) < 10000000"
  shows "findData k v H = Inr (map_option getData (m k))"
proof -
  obtain xs where v: "vec_ok meta_type H v xs" and s: "pair_order.strict xs" and mx: "m = map_of xs" using m unfolding keyed_ok_def by blast
  have i: "meta_index k v H = Inr (if k \<in> dom m then int (pair_order.rank (k, typed_data_new) xs) else NAME_NOT_FOUND)"
    unfolding mx using n keyed_length [OF s] by (intro meta_index_ok [OF v s]) (simp add: mx)
  show ?thesis
  proof (cases "k \<in> dom m")
    case True
    then have f: "pair_order.found (k, typed_data_new) xs" using found_map(1) [OF s] by (simp add: mx dom_map_of_conv_image_fst)
    then have "m k = Some (snd (xs ! pair_order.rank (k, typed_data_new) xs))" "pair_order.rank (k, typed_data_new) xs < length xs"
      using found_map(2) [OF s] by (simp_all add: mx pair_order.found_def)
    then show ?thesis using True i item_at_ok [OF v] by (simp add: findData_def valueAt_def)
  next
    case False
    then have "m k = None" by auto
    then show ?thesis using False i by (simp add: findData_def NAME_NOT_FOUND_def)
  qed
qed

lemma meta_remove_ok:
  assumes m: "keyed_ok meta_type H v m" and n: "card (dom m) < 10000000"
  shows "\<exists>v' H'. meta_remove plenty k v H = Inr (k \<in> dom m, v', H') \<and> keyed_ok meta_type H' v' (m(k := None))"
proof -
  obtain xs where o: "own v H" and v: "vec_ok meta_type H v xs" and s: "pair_order.strict xs" and mx: "m = map_of xs" using m unfolding keyed_ok_def by blast
  have len: "length xs < 10000000" using n keyed_length [OF s] by (simp add: mx)
  have i: "meta_index k v H = Inr (if k \<in> dom m then int (pair_order.rank (k, typed_data_new) xs) else NAME_NOT_FOUND)"
    unfolding mx using len by (intro meta_index_ok [OF v s]) simp
  show ?thesis
  proof (cases "k \<in> dom m")
    case True
    let ?r = "pair_order.rank (k, typed_data_new) xs"
    have f: "pair_order.found (k, typed_data_new) xs" using True found_map(1) [OF s] by (simp add: mx dom_map_of_conv_image_fst)
    then have r: "?r < length xs" by (simp add: pair_order.found_def)
    have fi: "fits meta_type (length xs)" using len by (simp add: fits_def meta_type_def)
    have "\<exists>v' H'. removeItemsAt plenty meta_type (of_nat ?r) (of_nat 1) v H = Inr (int ?r, v', H') \<and> changed meta_type v H (take ?r xs @ drop (?r + 1) xs) v' H'"
      using r storage_of [OF v] by (intro removeItemsAt_ok [OF v plenty_all _ fi]) fastforce+
    moreover have "take ?r xs @ drop (?r + 1) xs = pair_order.drop_item (k, typed_data_new) xs"
      using pair_order.drop_item_cases [OF s] f by simp
    ultimately obtain v' H' where e: "removeItemsAt plenty meta_type (of_nat ?r) 1 v H = Inr (int ?r, v', H')"
        "changed meta_type v H (pair_order.drop_item (k, typed_data_new) xs) v' H'" by auto
    have "keyed_ok meta_type H' v' (m(k := None))"
      using keyed_step [OF disjI1 [OF e(2)] pair_order.strict_drop [OF s]] by (simp add: map_of_drop_item mx)
    then show ?thesis using e(1) True i by (simp add: meta_remove_def)
  next
    case False
    then have "m(k := None) = m" by auto
    then show ?thesis using False i m by (simp add: meta_remove_def NAME_NOT_FOUND_def)
  qed
qed

lemma meta_clear_ok:
  assumes m: "keyed_ok meta_type H v m" and n: "card (dom m) < 10000000"
  shows "\<exists>v' H'. meta_clear plenty v H = Inr (v', H') \<and> keyed_ok meta_type H' v' Map.empty"
proof -
  obtain xs where o: "own v H" and v: "vec_ok meta_type H v xs" and s: "pair_order.strict xs" and mx: "m = map_of xs" using m unfolding keyed_ok_def by blast
  have "shrink_pre meta_type v H xs" using n keyed_length [OF s] by (simp add: mx shrink_pre_def fits_def meta_type_def)
  then obtain v' H' where e: "map_sum id (Pair 0) (vector_clear plenty meta_type v H) = Inr (0 :: int, v', H')"
      "changed meta_type v H [] v' H' \<or> v' = v \<and> H' = H \<and> [] = xs"
    using clear_op.contract [OF v] by blast
  have "keyed_ok meta_type H' v' (map_of ([] :: (u32 \<times> typed_data) list))"
    using e(2) o v by (intro keyed_step [where v = v and H = H]) (auto simp: pair_order.strict_def)
  then show ?thesis using e(1) by (cases "vector_clear plenty meta_type v H") (auto simp: meta_clear_def)
qed

subsection \<open>Histories\<close>

datatype meta_op = SetData u32 u32 "u8 list" | RemoveKey u32 | ClearAll

fun run_meta :: "(nat \<Rightarrow> bool) \<Rightarrow> meta_op list \<Rightarrow> VectorImpl \<Rightarrow> meta_heap \<Rightarrow> vec_fault + bool list \<times> VectorImpl \<times> meta_heap" where
  "run_meta mem [] v H = Inr ([], v, H)"
| "run_meta mem (p # ps) v H =
     bind_v
      (case p of
         SetData key type data \<Rightarrow> setData mem key type data v H
       | RemoveKey key \<Rightarrow> meta_remove mem key v H
       | ClearAll \<Rightarrow> map_sum id (Pair True) (meta_clear mem v H))
      (\<lambda>(r, v, H). bind_v (run_meta mem ps v H) (\<lambda>(rs, v, H). Inr (r # rs, v, H)))"

fun spec_meta :: "meta_op list \<Rightarrow> (u32 \<rightharpoonup> typed_data) \<Rightarrow> bool list \<times> (u32 \<rightharpoonup> typed_data)" where
  "spec_meta [] m = ([], m)"
| "spec_meta (SetData key type data # ps) m =
     (let (rs, m') = spec_meta ps (m(key \<mapsto> \<lparr> mType = type, data_bytes = data \<rparr>)) in ((key \<in> dom m) # rs, m'))"
| "spec_meta (RemoveKey key # ps) m = (let (rs, m') = spec_meta ps (m(key := None)) in ((key \<in> dom m) # rs, m'))"
| "spec_meta (ClearAll # ps) m = (let (rs, m') = spec_meta ps Map.empty in (True # rs, m'))"

lemma card_dom_upd: "finite (dom m) \<Longrightarrow> card (dom (m(k \<mapsto> x))) \<le> Suc (card (dom m))" "finite (dom m) \<Longrightarrow> card (dom (m(k := None))) \<le> card (dom m)"
  by (simp_all add: card_insert_le_m1 card_insert_if card_Diff1_le)

lemma keyed_finite: "keyed_ok ty H v m \<Longrightarrow> finite (dom m)"
  by (auto simp: keyed_ok_def finite_dom_map_of)

lemma run_meta_ok:
  "keyed_ok meta_type H v m \<Longrightarrow> card (dom m) + length ps < 10000000 \<Longrightarrow>
    \<exists>v' H'. run_meta plenty ps v H = Inr (fst (spec_meta ps m), v', H') \<and> keyed_ok meta_type H' v' (snd (spec_meta ps m)) \<and>
      card (dom (snd (spec_meta ps m))) \<le> card (dom m) + length ps"
proof (induction ps m arbitrary: v H rule: spec_meta.induct)
  case (1 m)
  then show ?case by simp
next
  case (2 key type data ps m)
  obtain v1 H1 where e: "setData plenty key type data v H = Inr (key \<in> dom m, v1, H1)" "keyed_ok meta_type H1 v1 (m(key \<mapsto> \<lparr> mType = type, data_bytes = data \<rparr>))"
    using setData_ok [OF 2(2)] 2(3) by force
  note c = card_dom_upd(1) [OF keyed_finite [OF 2(2)], of key "\<lparr> mType = type, data_bytes = data \<rparr>"]
  from 2(1) [OF e(2)] c 2(3) e(1) show ?case by (fastforce simp: split_beta Let_def)
next
  case (3 key ps m)
  obtain v1 H1 where e: "meta_remove plenty key v H = Inr (key \<in> dom m, v1, H1)" "keyed_ok meta_type H1 v1 (m(key := None))"
    using meta_remove_ok [OF 3(2)] 3(3) by force
  note c = card_dom_upd(2) [OF keyed_finite [OF 3(2)], of key]
  from 3(1) [OF e(2)] c 3(3) e(1) show ?case by (fastforce simp: split_beta Let_def)
next
  case (4 ps m)
  obtain v1 H1 where e: "meta_clear plenty v H = Inr (v1, H1)" "keyed_ok meta_type H1 v1 Map.empty"
    using meta_clear_ok [OF 4(2)] 4(3) by force
  from 4(1) [OF e(2)] 4(3) e(1) show ?case by (fastforce simp: split_beta Let_def)
qed

lemma new_keyed: "keyed_ok ty [] VectorImpl_new Map.empty"
  unfolding keyed_ok_def by (auto simp: own_def vec_ok_def VectorImpl_new_def pair_order.strict_def intro!: exI [where x = "[]"])

text \<open>
  C8. The attributes are a map. After any sequence of \<open>setData\<close>, \<open>remove\<close> and \<open>clear\<close> on a new object, \<open>findData\<close> gives
  for every key the type and the bytes last set and not removed since, and nothing for other keys; \<open>setData\<close> and \<open>remove\<close>
  said whether the key was there. (Fewer than ten million keys, as the vector's size needs, and memory for them.)\<close>

theorem meta_data_is_map:
  assumes "length ps < 10000000"
  shows "\<exists>v H. run_meta plenty ps VectorImpl_new [] = Inr (fst (spec_meta ps Map.empty), v, H) \<and>
    (\<forall>k. findData k v H = Inr (map_option getData (snd (spec_meta ps Map.empty) k)))"
proof -
  obtain v H where r: "run_meta plenty ps VectorImpl_new [] = Inr (fst (spec_meta ps Map.empty), v, H)"
      "keyed_ok meta_type H v (snd (spec_meta ps Map.empty))" "card (dom (snd (spec_meta ps Map.empty))) \<le> length ps"
    using run_meta_ok [OF new_keyed, of ps] assms by auto
  have "card (dom (snd (spec_meta ps Map.empty))) < 10000000" using r(3) assms by simp
  then show ?thesis using r(1) findData_ok [OF r(2)] by blast
qed

theorem meta_data_is_map_witness:
  "\<exists>v H. run_meta plenty [SetData 5 1 [9], SetData 3 2 [8, 7], SetData 5 4 [6], RemoveKey 3] VectorImpl_new [] = Inr ([False, False, True, True], v, H) \<and>
    findData 5 v H = Inr (Some (4, [6])) \<and> findData 3 v H = Inr None"
proof -
  let ?ps = "[SetData 5 1 [9], SetData 3 2 [8, 7], SetData 5 4 [6], RemoveKey 3]"
  obtain v H where r: "run_meta plenty ?ps VectorImpl_new [] = Inr (fst (spec_meta ?ps Map.empty), v, H)"
      "\<forall>k. findData k v H = Inr (map_option getData (snd (spec_meta ?ps Map.empty) k))"
    using meta_data_is_map [of ?ps] by auto
  have "findData 5 v H = Inr (Some (4, [6]))" "findData 3 v H = Inr None" using r(2) by (simp_all add: getData_def)
  then show ?thesis using r(1) by (intro exI [where x = v] exI [where x = H]) simp
qed

lemma meta_types_distinct: "distinct [TYPE_C_STRING, TYPE_INT32, TYPE_INT64, TYPE_FLOAT, TYPE_POINTER]"
  by (simp add: TYPE_C_STRING_def TYPE_INT32_def TYPE_INT64_def TYPE_FLOAT_def TYPE_POINTER_def FOURCC_def of_char_def)

text \<open>What the five finders say of a key.\<close>

definition all_finders ::
  "u32 \<Rightarrow> VectorImpl \<Rightarrow> meta_heap \<Rightarrow> (vec_fault + u8 list option) \<times> (vec_fault + u32 option) \<times> (vec_fault + 64 word option) \<times>
     (vec_fault + u32 option) \<times> (vec_fault + u32 option)" where
  "all_finders k v H = (findCString k v H, findInt32 k v H, findInt64 k v H, findFloat k v H, findPointer k v H)"

lemma get_words: "get_word4 (enc4 x) = Inr x" "get_word8 (enc8 y) = Inr y"
  using le_word4_enc4 [of x "[]"] le_word8_enc8 [of y "[]"] by (simp_all add: get_word4_def get_word8_def enc8_def enc4_def)

lemmas meta_finders = setInt32_def setInt64_def setFloat_def setPointer_def setCString_def all_finders_def findInt32_def findInt64_def
  findFloat_def findPointer_def findCString_def find_typed_def get_words

lemma meta_types_reversed: "distinct [TYPE_POINTER, TYPE_FLOAT, TYPE_INT64, TYPE_INT32, TYPE_C_STRING]"
  using meta_types_distinct by auto

lemma set_then_find:
  assumes m: "keyed_ok meta_type H v m" and n: "card (dom m) < 9999999"
  shows "\<exists>v' H'. setData plenty k type data v H = Inr (k \<in> dom m, v', H') \<and> findData k v' H' = Inr (Some (type, data)) \<and>
    (\<forall>j. j \<noteq> k \<longrightarrow> findData j v' H' = findData j v H)"
proof -
  obtain v' H' where e: "setData plenty k type data v H = Inr (k \<in> dom m, v', H')" "keyed_ok meta_type H' v' (m(k \<mapsto> \<lparr> mType = type, data_bytes = data \<rparr>))"
    using setData_ok [OF m] n by force
  have c: "card (dom m) < 10000000" "card (dom (m(k \<mapsto> \<lparr> mType = type, data_bytes = data \<rparr>))) < 10000000"
    using n card_dom_upd(1) [OF keyed_finite [OF m], of k "\<lparr> mType = type, data_bytes = data \<rparr>"] by simp_all
  show ?thesis using e(1) findData_ok [OF e(2) c(2)] findData_ok [OF m c(1)]
    by (intro exI [where x = v'] exI [where x = H']) (simp add: getData_def)
qed

text \<open>
  C19. Typed attributes round trip. In any attributes reached by a history of fewer than ten million operations, a value set
  as a 32-bit or 64-bit integer, as a float (its 32 bits), as a pointer or as a string is found again by the finder of that
  type, none of the four finders of the other types finds it, other keys keep their values, and the setter says whether the
  key was there.\<close>
theorem typed_roundtrip:
  assumes r: "run_meta plenty ps VectorImpl_new [] = Inr (rs, v, H)" and n: "length ps < 9999999"
  shows "(\<exists>v' H'. setInt32 plenty k x v H = Inr (k \<in> dom (snd (spec_meta ps Map.empty)), v', H') \<and>
      all_finders k v' H' = (Inr None, Inr (Some x), Inr None, Inr None, Inr None) \<and>
      (\<forall>j. j \<noteq> k \<longrightarrow> findData j v' H' = findData j v H)) \<and>
    (\<exists>v' H'. setInt64 plenty k y v H = Inr (k \<in> dom (snd (spec_meta ps Map.empty)), v', H') \<and>
      all_finders k v' H' = (Inr None, Inr None, Inr (Some y), Inr None, Inr None) \<and>
      (\<forall>j. j \<noteq> k \<longrightarrow> findData j v' H' = findData j v H)) \<and>
    (\<exists>v' H'. setFloat plenty k x v H = Inr (k \<in> dom (snd (spec_meta ps Map.empty)), v', H') \<and>
      all_finders k v' H' = (Inr None, Inr None, Inr None, Inr (Some x), Inr None) \<and>
      (\<forall>j. j \<noteq> k \<longrightarrow> findData j v' H' = findData j v H)) \<and>
    (\<exists>v' H'. setPointer plenty k x v H = Inr (k \<in> dom (snd (spec_meta ps Map.empty)), v', H') \<and>
      all_finders k v' H' = (Inr None, Inr None, Inr None, Inr None, Inr (Some x)) \<and>
      (\<forall>j. j \<noteq> k \<longrightarrow> findData j v' H' = findData j v H)) \<and>
    (\<exists>v' H'. setCString plenty k cs v H = Inr (k \<in> dom (snd (spec_meta ps Map.empty)), v', H') \<and>
      all_finders k v' H' = (Inr (Some (takeWhile (\<lambda>c. c \<noteq> 0) cs @ [0])), Inr None, Inr None, Inr None, Inr None) \<and>
      (\<forall>j. j \<noteq> k \<longrightarrow> findData j v' H' = findData j v H))"
proof -
  let ?m = "snd (spec_meta ps Map.empty)"
  have m: "keyed_ok meta_type H v ?m" "card (dom ?m) < 9999999" using run_meta_ok [OF new_keyed, of ps] r n by auto
  note f = set_then_find [OF m, of k]
  have "(\<exists>v' H'. setInt32 plenty k x v H = Inr (k \<in> dom ?m, v', H') \<and>
      all_finders k v' H' = (Inr None, Inr (Some x), Inr None, Inr None, Inr None) \<and>
      (\<forall>j. j \<noteq> k \<longrightarrow> findData j v' H' = findData j v H))"
    using f [of TYPE_INT32 "enc4 x"] by (elim ex_forward) (simp add: meta_finders meta_types_distinct [simplified] meta_types_reversed [simplified])
  moreover have "(\<exists>v' H'. setInt64 plenty k y v H = Inr (k \<in> dom ?m, v', H') \<and>
      all_finders k v' H' = (Inr None, Inr None, Inr (Some y), Inr None, Inr None) \<and>
      (\<forall>j. j \<noteq> k \<longrightarrow> findData j v' H' = findData j v H))"
    using f [of TYPE_INT64 "enc8 y"] by (elim ex_forward) (simp add: meta_finders meta_types_distinct [simplified] meta_types_reversed [simplified])
  moreover have "(\<exists>v' H'. setFloat plenty k x v H = Inr (k \<in> dom ?m, v', H') \<and>
      all_finders k v' H' = (Inr None, Inr None, Inr None, Inr (Some x), Inr None) \<and>
      (\<forall>j. j \<noteq> k \<longrightarrow> findData j v' H' = findData j v H))"
    using f [of TYPE_FLOAT "enc4 x"] by (elim ex_forward) (simp add: meta_finders meta_types_distinct [simplified] meta_types_reversed [simplified])
  moreover have "(\<exists>v' H'. setPointer plenty k x v H = Inr (k \<in> dom ?m, v', H') \<and>
      all_finders k v' H' = (Inr None, Inr None, Inr None, Inr None, Inr (Some x)) \<and>
      (\<forall>j. j \<noteq> k \<longrightarrow> findData j v' H' = findData j v H))"
    using f [of TYPE_POINTER "enc4 x"] by (elim ex_forward) (simp add: meta_finders meta_types_distinct [simplified] meta_types_reversed [simplified])
  moreover have "(\<exists>v' H'. setCString plenty k cs v H = Inr (k \<in> dom ?m, v', H') \<and>
      all_finders k v' H' = (Inr (Some (takeWhile (\<lambda>c. c \<noteq> 0) cs @ [0])), Inr None, Inr None, Inr None, Inr None) \<and>
      (\<forall>j. j \<noteq> k \<longrightarrow> findData j v' H' = findData j v H))"
    using f [of TYPE_C_STRING "takeWhile (\<lambda>c. c \<noteq> 0) cs @ [0]"] by (elim ex_forward) (simp add: meta_finders meta_types_distinct [simplified] meta_types_reversed [simplified])
  ultimately show ?thesis by blast
qed

theorem typed_roundtrip_witness:
  "\<exists>v' H'. setInt32 plenty 7 42 VectorImpl_new [] = Inr (False, v', H') \<and>
     all_finders 7 v' H' = (Inr None, Inr (Some 42), Inr None, Inr None, Inr None)"
  using typed_roundtrip [of "[]" "[]" VectorImpl_new "[]" 7 42 0 "[]"] by auto

end
