(* ===== verification/Hashmap.thy ===== *)
theory Hashmap
  imports Prelude_C "HOL-Library.Multiset"
begin

text \<open>
  The chained hash table of \<open>libcutils/hashmap.c\<close>. A bucket's linked list of \<open>Entry\<close>
  structs is the list of its entries, head first. Keys and values are opaque pointers; a value
  is \<open>None\<close> for the NULL pointer. Each allocation of the source is a boolean argument that
  says whether it succeeds. The lemmas show that the table implements a finite m over the
  key equality it was created with, through resizing and failed allocations.
\<close>

record ('k, 'v) Entry =
  e_key :: 'k
  e_hash :: u32
  e_value :: "'v option"

record ('k, 'v) Hashmap =
  buckets :: "('k, 'v) Entry list list"
  bucketCount :: size_t
  hm_hash :: "'k \<Rightarrow> u32"
  hm_equals :: "'k \<Rightarrow> 'k \<Rightarrow> bool"
  hm_locked :: bool
  hm_size :: size_t

datatype errno = ENOMEM

subsection \<open>Creation and sizing\<close>

partial_function (option) grow_buckets :: "size_t \<Rightarrow> size_t \<Rightarrow> size_t option" where
  "grow_buckets bc minimumBucketCount =
     (if bc \<le> minimumBucketCount then grow_buckets (push_bit 1 bc) minimumBucketCount
      else Some bc)"

text \<open>
  \<open>hashmapCreate\<close>: the outer \<open>None\<close> is a loop that does not end (which the lemmas below
  exclude), the inner \<open>None\<close> the NULL result of a failed allocation.
\<close>

definition hashmapCreate ::
  "bool \<Rightarrow> bool \<Rightarrow> size_t \<Rightarrow> ('k \<Rightarrow> u32) \<Rightarrow> ('k \<Rightarrow> 'k \<Rightarrow> bool) \<Rightarrow>
   ('k, 'v) Hashmap option option" where
  "hashmapCreate malloc_ok calloc_ok initialCapacity hash equals =
     (if \<not> malloc_ok then Some None
      else
        let minimumBucketCount = initialCapacity * 4 div 3 in
        case grow_buckets 1 minimumBucketCount of
          None \<Rightarrow> None
        | Some bc \<Rightarrow>
            if \<not> calloc_ok then Some None
            else Some (Some \<lparr> buckets = replicate (unat bc) [], bucketCount = bc,
                              hm_hash = hash, hm_equals = equals, hm_locked = False,
                              hm_size = 0 \<rparr>))"

definition mix_hash :: "u32 \<Rightarrow> u32" where
  "mix_hash h0 =
     (let h1 = h0 + NOT (push_bit 9 h0);
          h2 = h1 XOR drop_bit 14 h1;
          h3 = h2 + push_bit 4 h2
      in h3 XOR drop_bit 10 h3)"

definition hashKey :: "('k, 'v) Hashmap \<Rightarrow> 'k \<Rightarrow> u32" where
  "hashKey m key = mix_hash (hm_hash m key)"

definition hashmapSize :: "('k, 'v) Hashmap \<Rightarrow> size_t" where
  "hashmapSize m = hm_size m"

definition calculateIndex :: "size_t \<Rightarrow> u32 \<Rightarrow> size_t" where
  "calculateIndex bc hash = hash AND (bc - 1)"

definition move_entry ::
  "size_t \<Rightarrow> ('k, 'v) Entry \<Rightarrow> ('k, 'v) Entry list list \<Rightarrow> ('k, 'v) Entry list list" where
  "move_entry newBucketCount entry newBuckets =
     (let index = unat (calculateIndex newBucketCount (e_hash entry))
      in newBuckets[index := entry # newBuckets ! index])"

definition expandIfNecessary :: "bool \<Rightarrow> ('k, 'v) Hashmap \<Rightarrow> ('k, 'v) Hashmap" where
  "expandIfNecessary calloc_ok m =
     (if hm_size m > bucketCount m * 3 div 4 then
        let newBucketCount = push_bit 1 (bucketCount m) in
        if \<not> calloc_ok then m
        else m\<lparr> buckets := fold (fold (move_entry newBucketCount)) (buckets m)
                                (replicate (unat newBucketCount) []),
                  bucketCount := newBucketCount \<rparr>
      else m)"

text \<open>Locking blocks (\<open>None\<close>) while the mutex is held.\<close>

definition hashmapLock :: "('k, 'v) Hashmap \<Rightarrow> ('k, 'v) Hashmap option" where
  "hashmapLock m = (if hm_locked m then None else Some (m\<lparr> hm_locked := True \<rparr>))"

definition hashmapUnlock :: "('k, 'v) Hashmap \<Rightarrow> ('k, 'v) Hashmap" where
  "hashmapUnlock m = m\<lparr> hm_locked := False \<rparr>"

text \<open>\<open>hashmapFree\<close> as the list of entries it passes to \<open>free\<close>, in order.\<close>

definition hashmapFree :: "('k, 'v) Hashmap \<Rightarrow> ('k, 'v) Entry list" where
  "hashmapFree m = fold (\<lambda>chain freed. freed @ chain) (buckets m) []"

definition hashmapHash :: "u8 list \<Rightarrow> u32" where
  "hashmapHash key = fold (\<lambda>data h. h * 31 + ucast data) key (word_of_nat (length key))"

definition createEntry :: "'k \<Rightarrow> u32 \<Rightarrow> 'v option \<Rightarrow> ('k, 'v) Entry" where
  "createEntry key hash v = \<lparr> e_key = key, e_hash = hash, e_value = v \<rparr>"

definition equalKeys :: "'k \<Rightarrow> u32 \<Rightarrow> 'k \<Rightarrow> u32 \<Rightarrow> ('k \<Rightarrow> 'k \<Rightarrow> bool) \<Rightarrow> bool" where
  "equalKeys keyA hashA keyB hashB equals =
     (if keyA = keyB then True else if hashA \<noteq> hashB then False else equals keyA keyB)"

subsection \<open>Operations on one chain\<close>

fun chain_replace ::
  "('k \<Rightarrow> 'k \<Rightarrow> bool) \<Rightarrow> 'k \<Rightarrow> u32 \<Rightarrow> 'v option \<Rightarrow> ('k, 'v) Entry list \<Rightarrow>
   (('k, 'v) Entry list \<times> 'v option) option" where
  "chain_replace equals key hash v [] = None"
| "chain_replace equals key hash v (current # rest) =
     (if equalKeys (e_key current) (e_hash current) key hash equals
      then Some (current\<lparr> e_value := v \<rparr> # rest, e_value current)
      else map_option (\<lambda>(rest', old). (current # rest', old))
             (chain_replace equals key hash v rest))"

fun chain_find ::
  "('k \<Rightarrow> 'k \<Rightarrow> bool) \<Rightarrow> 'k \<Rightarrow> u32 \<Rightarrow> ('k, 'v) Entry list \<Rightarrow> ('k, 'v) Entry option" where
  "chain_find equals key hash [] = None"
| "chain_find equals key hash (entry # rest) =
     (if equalKeys (e_key entry) (e_hash entry) key hash equals then Some entry
      else chain_find equals key hash rest)"

fun chain_remove ::
  "('k \<Rightarrow> 'k \<Rightarrow> bool) \<Rightarrow> 'k \<Rightarrow> u32 \<Rightarrow> ('k, 'v) Entry list \<Rightarrow>
   (('k, 'v) Entry list \<times> 'v option) option" where
  "chain_remove equals key hash [] = None"
| "chain_remove equals key hash (current # rest) =
     (if equalKeys (e_key current) (e_hash current) key hash equals
      then Some (rest, e_value current)
      else map_option (\<lambda>(rest', v). (current # rest', v)) (chain_remove equals key hash rest))"

definition chain_of :: "('k, 'v) Hashmap \<Rightarrow> 'k \<Rightarrow> ('k, 'v) Entry list" where
  "chain_of m key = buckets m ! unat (calculateIndex (bucketCount m) (hashKey m key))"

definition set_chain ::
  "('k, 'v) Hashmap \<Rightarrow> 'k \<Rightarrow> ('k, 'v) Entry list \<Rightarrow> ('k, 'v) Hashmap" where
  "set_chain m key chain =
     m\<lparr> buckets := (buckets m)
            [unat (calculateIndex (bucketCount m) (hashKey m key)) := chain] \<rparr>"

subsection \<open>The operations of the table\<close>

text \<open>Results are the new table, the returned pointer and the value stored in \<open>errno\<close>, if any.\<close>

definition hashmapPut ::
  "bool \<Rightarrow> bool \<Rightarrow> ('k, 'v) Hashmap \<Rightarrow> 'k \<Rightarrow> 'v option \<Rightarrow>
   ('k, 'v) Hashmap \<times> 'v option \<times> errno option" where
  "hashmapPut malloc_ok calloc_ok m key v =
     (let hash = hashKey m key; chain = chain_of m key in
      case chain_replace (hm_equals m) key hash v chain of
        Some (chain', oldValue) \<Rightarrow> (set_chain m key chain', oldValue, None)
      | None \<Rightarrow>
          if \<not> malloc_ok then (m, None, Some ENOMEM)
          else
            (expandIfNecessary calloc_ok
               ((set_chain m key (chain @ [createEntry key hash v]))
                  \<lparr> hm_size := hm_size m + 1 \<rparr>),
             None, None))"

definition hashmapGet :: "('k, 'v) Hashmap \<Rightarrow> 'k \<Rightarrow> 'v option" where
  "hashmapGet m key =
     (case chain_find (hm_equals m) key (hashKey m key) (chain_of m key) of
        None \<Rightarrow> None
      | Some entry \<Rightarrow> e_value entry)"

definition hashmapContainsKey :: "('k, 'v) Hashmap \<Rightarrow> 'k \<Rightarrow> bool" where
  "hashmapContainsKey m key =
     (chain_find (hm_equals m) key (hashKey m key) (chain_of m key) \<noteq> None)"

definition hashmapMemoize ::
  "bool \<Rightarrow> bool \<Rightarrow> ('k, 'v) Hashmap \<Rightarrow> 'k \<Rightarrow> ('k \<Rightarrow> 'c \<Rightarrow> 'v option) \<Rightarrow> 'c \<Rightarrow>
   ('k, 'v) Hashmap \<times> 'v option \<times> errno option" where
  "hashmapMemoize malloc_ok calloc_ok m key initialValue context =
     (let hash = hashKey m key; chain = chain_of m key in
      case chain_find (hm_equals m) key hash chain of
        Some current \<Rightarrow> (m, e_value current, None)
      | None \<Rightarrow>
          if \<not> malloc_ok then (m, None, Some ENOMEM)
          else
            let v = initialValue key context in
            (expandIfNecessary calloc_ok
               ((set_chain m key (chain @ [(createEntry key hash None)\<lparr> e_value := v \<rparr>]))
                  \<lparr> hm_size := hm_size m + 1 \<rparr>),
             v, None))"

definition hashmapRemove ::
  "('k, 'v) Hashmap \<Rightarrow> 'k \<Rightarrow> ('k, 'v) Hashmap \<times> 'v option" where
  "hashmapRemove m key =
     (case chain_remove (hm_equals m) key (hashKey m key) (chain_of m key) of
        Some (chain', v) \<Rightarrow> ((set_chain m key chain')\<lparr> hm_size := hm_size m - 1 \<rparr>, v)
      | None \<Rightarrow> (m, None))"

text \<open>The callback threads a context and says whether to go on.\<close>

fun forEach_chain ::
  "('k \<Rightarrow> 'v option \<Rightarrow> 'c \<Rightarrow> bool \<times> 'c) \<Rightarrow> ('k, 'v) Entry list \<Rightarrow> 'c \<Rightarrow> bool \<times> 'c" where
  "forEach_chain callback [] c = (True, c)"
| "forEach_chain callback (entry # rest) c =
     (let (go, c') = callback (e_key entry) (e_value entry) c
      in if \<not> go then (False, c') else forEach_chain callback rest c')"

fun forEach_buckets ::
  "('k \<Rightarrow> 'v option \<Rightarrow> 'c \<Rightarrow> bool \<times> 'c) \<Rightarrow> ('k, 'v) Entry list list \<Rightarrow> 'c \<Rightarrow> bool \<times> 'c" where
  "forEach_buckets callback [] c = (True, c)"
| "forEach_buckets callback (chain # rest) c =
     (let (go, c') = forEach_chain callback chain c
      in if \<not> go then (False, c') else forEach_buckets callback rest c')"

definition hashmapForEach ::
  "('k, 'v) Hashmap \<Rightarrow> ('k \<Rightarrow> 'v option \<Rightarrow> 'c \<Rightarrow> bool \<times> 'c) \<Rightarrow> 'c \<Rightarrow> 'c" where
  "hashmapForEach m callback context = snd (forEach_buckets callback (buckets m) context)"

definition hashmapCurrentCapacity :: "('k, 'v) Hashmap \<Rightarrow> size_t" where
  "hashmapCurrentCapacity m = bucketCount m * 3 div 4"

fun chain_collisions :: "('k, 'v) Entry list \<Rightarrow> size_t \<Rightarrow> size_t" where
  "chain_collisions [] n = n"
| "chain_collisions [entry] n = n"
| "chain_collisions (entry # nxt # rest) n = chain_collisions (nxt # rest) (n + 1)"

definition hashmapCountCollisions :: "('k, 'v) Hashmap \<Rightarrow> size_t" where
  "hashmapCountCollisions m = fold chain_collisions (buckets m) 0"

text \<open>Keys that point to an \<open>int\<close>: the memory they are read from is an argument.\<close>

definition hashmapIntHash :: "('p \<Rightarrow> u32) \<Rightarrow> 'p \<Rightarrow> u32" where
  "hashmapIntHash mem key = mem key"

definition hashmapIntEquals :: "('p \<Rightarrow> u32) \<Rightarrow> 'p \<Rightarrow> 'p \<Rightarrow> bool" where
  "hashmapIntEquals mem keyA keyB = (mem keyA = mem keyB)"


subsection \<open>What the table means\<close>

text \<open>The entries as an association list, read through the key equality.\<close>

definition lookup_list :: "('k \<Rightarrow> 'k \<Rightarrow> bool) \<Rightarrow> ('k, 'v) Entry list \<Rightarrow> 'k \<Rightarrow> 'v option option" where
  "lookup_list equals es k = map_option e_value (find (\<lambda>e. equals (e_key e) k) es)"

definition hm_lookup :: "('k, 'v) Hashmap \<Rightarrow> 'k \<Rightarrow> 'v option option" where
  "hm_lookup m k = lookup_list (hm_equals m) (concat (buckets m)) k"

definition entries_ok :: "('k \<Rightarrow> 'k \<Rightarrow> bool) \<Rightarrow> ('k, 'v) Entry list \<Rightarrow> bool" where
  "entries_ok equals es \<longleftrightarrow>
     distinct es \<and> (\<forall>e \<in> set es. \<forall>f \<in> set es. equals (e_key e) (e_key f) \<longrightarrow> e = f)"

definition placed :: "('k \<Rightarrow> u32) \<Rightarrow> size_t \<Rightarrow> ('k, 'v) Entry list list \<Rightarrow> bool" where
  "placed hash bc bs \<longleftrightarrow>
     (\<forall>i < length bs. \<forall>e \<in> set (bs ! i).
        e_hash e = mix_hash (hash (e_key e)) \<and> unat (calculateIndex bc (e_hash e)) = i)"

definition hm_inv :: "('k \<Rightarrow> u32) \<Rightarrow> ('k \<Rightarrow> 'k \<Rightarrow> bool) \<Rightarrow> ('k, 'v) Hashmap \<Rightarrow> bool" where
  [inv_defs]: "hm_inv hash equals m \<longleftrightarrow>
     hm_hash m = hash \<and> hm_equals m = equals \<and>
     (\<exists>k < 32. bucketCount m = 2 ^ k) \<and>
     length (buckets m) = unat (bucketCount m) \<and>
     unat (hm_size m) = length (concat (buckets m)) \<and>
     placed hash (bucketCount m) (buckets m) \<and>
     entries_ok equals (concat (buckets m))"

subsection \<open>Indices and the growth loop\<close>

lemma calculateIndex_less:
  assumes "bc \<noteq> 0"
  shows "unat (calculateIndex bc h) < unat bc"
proof -
  have "calculateIndex bc h \<le> bc - 1"
    unfolding calculateIndex_def by (rule word_and_le1)
  then have "unat (calculateIndex bc h) \<le> unat (bc - 1)"
    by (simp add: word_le_nat_alt)
  also have "unat (bc - 1) = unat bc - 1"
    using assms by (simp add: unat_minus_one)
  finally show ?thesis using assms by (metis Suc_pred' le_imp_less_Suc unat_gt_0)
qed

lemma grow_buckets_pow2:
  assumes "j < 32" and "unat mn < 2 ^ 31" and "j = 0 \<or> 2 ^ (j - 1) \<le> unat mn"
  shows "\<exists>k < 32. grow_buckets (2 ^ j) mn = Some (2 ^ k) \<and> unat mn < 2 ^ k \<and>
           (k = 0 \<or> 2 ^ (k - 1) \<le> unat mn)"
  using assms
proof (induction "31 - j" arbitrary: j)
  case 0
  then have "j = 31" by simp
  then have "\<not> (2 ^ j :: u32) \<le> mn"
    using 0 by (simp add: word_le_nat_alt)
  then have "grow_buckets (2 ^ j) mn = Some (2 ^ j)"
    by (subst grow_buckets.simps) simp
  then show ?case using 0 \<open>j = 31\<close> by (intro exI [of _ j]) auto
next
  case (Suc x)
  show ?case
  proof (cases "(2 ^ j :: u32) \<le> mn")
    case True
    then have le: "2 ^ j \<le> unat mn"
      using Suc.prems(1) by (simp add: word_le_nat_alt unat_pow2_32)
    have "push_bit 1 (2 ^ j :: u32) = 2 ^ Suc j" by (simp add: push_bit_eq_mult mult.commute)
    then have "grow_buckets (2 ^ j) mn = grow_buckets (2 ^ Suc j) mn"
      using True by (subst grow_buckets.simps) (simp only: if_True)
    then show ?thesis using Suc.hyps(1) [of "Suc j"] Suc.hyps(2) Suc.prems le by simp
  next
    case False
    then have "grow_buckets (2 ^ j) mn = Some (2 ^ j)"
      by (subst grow_buckets.simps) simp
    moreover have "unat mn < 2 ^ j"
      using False Suc.prems(1) by (simp add: word_le_nat_alt unat_pow2_32)
    ultimately show ?thesis using Suc.prems by (intro exI [of _ j]) auto
  qed
qed

lemma minimum_bucket_bound: "unat ((c :: size_t) * 4 div 3) < 2 ^ 31"
proof -
  have "unat (c * 4 div 3) = unat (c * 4) div 3" by (simp add: unat_div)
  also have "\<dots> < 2 ^ 31" using unat_u32_less [of "c * 4"] by simp
  finally show ?thesis .
qed

subsection \<open>Chains as lists\<close>

lemma chain_find_find:
  "chain_find equals key h c = find (\<lambda>e. equalKeys (e_key e) (e_hash e) key h equals) c"
  by (induction c) auto

lemma chain_replace_None:
  "chain_replace equals key h v c = None \<longleftrightarrow>
   (\<forall>e \<in> set c. \<not> equalKeys (e_key e) (e_hash e) key h equals)"
  by (induction c) auto

lemma chain_replace_Some:
  assumes "chain_replace equals key h v c = Some (c', old)"
  shows "\<exists>xs e ys. c = xs @ e # ys \<and> equalKeys (e_key e) (e_hash e) key h equals \<and>
           c' = xs @ e\<lparr> e_value := v \<rparr> # ys \<and> old = e_value e"
  using assms
proof (induction c arbitrary: c')
  case (Cons a c)
  show ?case
  proof (cases "equalKeys (e_key a) (e_hash a) key h equals")
    case True
    then show ?thesis using Cons.prems by (intro exI [of _ "[]"]) auto
  next
    case False
    then obtain c'' where "chain_replace equals key h v c = Some (c'', old)" "c' = a # c''"
      using Cons.prems by auto
    with Cons.IH show ?thesis by (metis append_Cons)
  qed
qed simp

lemma chain_remove_None:
  "chain_remove equals key h c = None \<longleftrightarrow>
   (\<forall>e \<in> set c. \<not> equalKeys (e_key e) (e_hash e) key h equals)"
  by (induction c) auto

lemma chain_remove_Some:
  assumes "chain_remove equals key h c = Some (c', old)"
  shows "\<exists>xs e ys. c = xs @ e # ys \<and> equalKeys (e_key e) (e_hash e) key h equals \<and>
           c' = xs @ ys \<and> old = e_value e"
  using assms
proof (induction c arbitrary: c')
  case (Cons a c)
  show ?case
  proof (cases "equalKeys (e_key a) (e_hash a) key h equals")
    case True
    then show ?thesis using Cons.prems by (intro exI [of _ "[]"]) auto
  next
    case False
    then obtain c'' where "chain_remove equals key h c = Some (c'', old)" "c' = a # c''"
      using Cons.prems by auto
    with Cons.IH show ?thesis by (metis append_Cons)
  qed
qed simp


definition belongs :: "('k \<Rightarrow> u32) \<Rightarrow> ('k, 'v) Hashmap \<Rightarrow> 'k \<Rightarrow> ('k, 'v) Entry \<Rightarrow> bool" where
  "belongs hash m k e \<longleftrightarrow> e_hash e = mix_hash (hash (e_key e)) \<and>
     calculateIndex (bucketCount m) (e_hash e) = calculateIndex (bucketCount m) (hashKey m k)"

lemma belongs_value [simp]: "belongs hash m k (e\<lparr> e_value := v \<rparr>) = belongs hash m k e"
  by (simp add: belongs_def)

lemma hm_lookup_size [simp]: "hm_lookup (m\<lparr> hm_size := n \<rparr>) = hm_lookup m"
  by (rule ext) (simp add: hm_lookup_def)

lemma placedD:
  assumes "placed hash bc bs" and "i < length bs" and "e \<in> set (bs ! i)"
  shows "e_hash e = mix_hash (hash (e_key e))" and "unat (calculateIndex bc (e_hash e)) = i"
  using assms unfolding placed_def by blast+

lemma hm_invD:
  assumes "hm_inv hash equals m"
  shows "hm_hash m = hash" and "hm_equals m = equals" and "bucketCount m \<noteq> 0"
    and "length (buckets m) = unat (bucketCount m)"
    and "unat (hm_size m) = length (concat (buckets m))"
    and "placed hash (bucketCount m) (buckets m)" and "entries_ok equals (concat (buckets m))"
  using assms pow2_ne_0 unfolding hm_inv_def by auto

subsection \<open>The contract of the key callbacks\<close>

text \<open>
  What \<open>hashmapCreate\<close> expects of the two callbacks: \<open>equals\<close> is an equivalence and equal
  keys hash alike. Everything the table promises is proved from these four laws.
\<close>

locale key_contract =
  fixes hash :: "'k \<Rightarrow> u32"
    and equals :: "'k \<Rightarrow> 'k \<Rightarrow> bool"
  assumes equals_refl: "equals a a"
    and equals_sym: "equals a b \<Longrightarrow> equals b a"
    and equals_trans: "equals a b \<Longrightarrow> equals b c \<Longrightarrow> equals a c"
    and equals_hash: "equals a b \<Longrightarrow> hash a = hash b"
begin

lemma equalKeys_equals:
  assumes "e_hash e = mix_hash (hash (e_key e))"
  shows "equalKeys (e_key e) (e_hash e) k (mix_hash (hash k)) equals \<longleftrightarrow> equals (e_key e) k"
  using assms equals_refl equals_hash [of "e_key e" k] by (auto simp: equalKeys_def)

lemma entries_ok_replace:
  assumes "entries_ok equals (A @ e # B)"
  shows "entries_ok equals (A @ e\<lparr> e_value := v \<rparr> # B)"
proof -
  have other: "\<not> equals (e_key f) (e_key e)" "\<not> equals (e_key e) (e_key f)"
    if "f \<in> set A \<union> set B" for f
    using assms that equals_sym unfolding entries_ok_def by fastforce+
  moreover have "e\<lparr> e_value := v \<rparr> \<notin> set A \<union> set B"
    using other(1) [of "e\<lparr> e_value := v \<rparr>"] equals_refl by auto
  ultimately show ?thesis using assms unfolding entries_ok_def by auto
qed

lemma entries_ok_remove: "entries_ok equals (A @ e # B) \<Longrightarrow> entries_ok equals (A @ B)"
  unfolding entries_ok_def by auto

lemma entries_ok_insert:
  assumes "entries_ok equals (A @ B)"
    and "\<And>f. f \<in> set A \<union> set B \<Longrightarrow> \<not> equals (e_key f) (e_key e)"
  shows "entries_ok equals (A @ e # B)"
  using assms equals_refl equals_sym unfolding entries_ok_def by auto

lemma lookup_list_hit:
  assumes ok: "entries_ok equals (A @ e # B)" and eq: "equals (e_key e) k"
  shows "lookup_list equals (A @ e # B) k' =
           (if equals k k' then Some (e_value e) else lookup_list equals (A @ B) k')"
proof (cases "equals k k'")
  case True
  then have ek: "equals (e_key e) k'" using eq equals_trans by blast
  have "\<not> equals (e_key f) k'" if f: "f \<in> set A" for f
  proof
    assume "equals (e_key f) k'"
    then have "equals (e_key f) (e_key e)" using ek equals_sym equals_trans by blast
    then have "f = e" using ok f unfolding entries_ok_def by simp
    then show False using ok f unfolding entries_ok_def by simp
  qed
  then have "find (\<lambda>e. equals (e_key e) k') A = None" by (simp add: find_None_iff)
  then show ?thesis using True ek by (simp add: lookup_list_def find_append)
next
  case False
  then have "\<not> equals (e_key e) k'" using eq equals_sym equals_trans by blast
  then show ?thesis using False by (simp add: lookup_list_def find_append split: option.split)
qed

lemma lookup_list_miss:
  assumes "\<And>f. f \<in> set es \<Longrightarrow> \<not> equals (e_key f) k" and "equals k k'"
  shows "lookup_list equals es k' = None"
proof -
  have "\<not> equals (e_key f) k'" if "f \<in> set es" for f
    using assms that equals_sym equals_trans by blast
  then show ?thesis by (simp add: lookup_list_def find_None_iff)
qed

subsection \<open>The chain a key belongs to\<close>

lemma chain_index:
  assumes "hm_inv hash equals m"
  shows "unat (calculateIndex (bucketCount m) h) < length (buckets m)"
  using calculateIndex_less [OF hm_invD(3) [OF assms], of h] hm_invD(4) [OF assms] by simp

lemma in_chain_iff:
  assumes inv: "hm_inv hash equals m" and e: "e \<in> set (concat (buckets m))"
    and eq: "equals (e_key e) k"
  shows "e \<in> set (chain_of m k)"
proof -
  from e obtain i where i: "i < length (buckets m)" "e \<in> set (buckets m ! i)"
    by (metis in_set_conv_nth set_concat UN_E)
  note pl = placedD [OF hm_invD(6) [OF inv] i]
  then have "e_hash e = mix_hash (hash (e_key e))"
    and idx: "unat (calculateIndex (bucketCount m) (e_hash e)) = i" by blast+
  then have "e_hash e = hashKey m k"
    using equals_hash [OF eq] inv unfolding hashKey_def hm_inv_def by simp
  then show ?thesis using idx i by (simp add: chain_of_def)
qed

lemma chain_entry:
  assumes "hm_inv hash equals m" and "e \<in> set (chain_of m k)"
  shows "belongs hash m k e"
  using placedD [OF hm_invD(6) [OF assms(1)] chain_index [OF assms(1)]] assms(2)
  unfolding chain_of_def belongs_def by (blast intro: word_unat_eq_iff [THEN iffD2])

lemma chain_equalKeys:
  assumes "hm_inv hash equals m" and "e \<in> set (chain_of m k)"
  shows "equalKeys (e_key e) (e_hash e) k (hashKey m k) (hm_equals m) \<longleftrightarrow> equals (e_key e) k"
  using equalKeys_equals [of e k] chain_entry [OF assms] hm_invD [OF assms(1)]
  by (simp add: belongs_def hashKey_def)

lemma chain_split:
  assumes "hm_inv hash equals m"
  shows "\<exists>A B. concat (buckets m) = A @ chain_of m k @ B \<and>
           (\<forall>c. concat (buckets (set_chain m k c)) = A @ c @ B)"
  using concat_nth_split [OF chain_index [OF assms]] concat_update_split [OF chain_index [OF assms]]
  unfolding chain_of_def set_chain_def by (auto simp del: concat_append)

lemma find_chain:
  assumes inv: "hm_inv hash equals m"
  shows "chain_find (hm_equals m) k (hashKey m k) (chain_of m k) =
           find (\<lambda>e. equals (e_key e) k) (concat (buckets m))"
proof -
  obtain A B where AB: "concat (buckets m) = A @ chain_of m k @ B"
    using chain_split [OF inv, of k] by auto
  have ok: "entries_ok equals (concat (buckets m))" using inv by (simp add: hm_inv_def)
  have out: "\<not> equals (e_key f) k" if "f \<in> set A \<union> set B" for f
  proof
    assume "equals (e_key f) k"
    then have "f \<in> set (chain_of m k)"
      using in_chain_iff [OF inv, of f k] that AB by auto
    then show False using ok that unfolding AB entries_ok_def by auto
  qed
  have "find (\<lambda>e. equals (e_key e) k) (concat (buckets m)) =
        find (\<lambda>e. equals (e_key e) k) (chain_of m k)"
    unfolding AB using out by (simp add: find_append find_NoneI split: option.split)
  also have "\<dots> = chain_find (hm_equals m) k (hashKey m k) (chain_of m k)"
    unfolding chain_find_find using chain_equalKeys [OF inv] by (intro find_cong_set) simp
  finally show ?thesis by simp
qed

lemma get_lookup:
  assumes "hm_inv hash equals m"
  shows "hashmapGet m k = (case hm_lookup m k of None \<Rightarrow> None | Some v \<Rightarrow> v)"
    and "hashmapContainsKey m k \<longleftrightarrow> hm_lookup m k \<noteq> None"
  using find_chain [OF assms, of k] unfolding hashmapGet_def hashmapContainsKey_def
    hm_lookup_def lookup_list_def hm_invD(2) [OF assms]
  by (simp_all split: option.split)


subsection \<open>Resizing\<close>

lemma rehash:
  assumes "nbc \<noteq> 0" and "length nb = unat nbc" and "placed hash nbc nb"
    and "\<And>e. e \<in> set es \<Longrightarrow> e_hash e = mix_hash (hash (e_key e))"
  shows "length (fold (move_entry nbc) es nb) = unat nbc \<and>
         placed hash nbc (fold (move_entry nbc) es nb) \<and>
         mset (concat (fold (move_entry nbc) es nb)) = mset es + mset (concat nb)"
  using assms
proof (induction es arbitrary: nb)
  case (Cons e es)
  let ?i = "unat (calculateIndex nbc (e_hash e))"
  let ?nb = "move_entry nbc e nb"
  have i: "?i < length nb"
    using calculateIndex_less [OF Cons.prems(1)] Cons.prems(2) by simp
  have len: "length ?nb = unat nbc" using Cons.prems(2) by (simp add: move_entry_def Let_def)
  have pl: "placed hash nbc ?nb"
    unfolding placed_def
  proof (intro allI impI ballI)
    fix j f assume j: "j < length ?nb" and f: "f \<in> set (?nb ! j)"
    then consider "f = e" "j = ?i" | "f \<in> set (nb ! j)" "j < length nb"
      using i by (auto simp: move_entry_def Let_def nth_list_update split: if_splits)
    then show "e_hash f = mix_hash (hash (e_key f)) \<and> unat (calculateIndex nbc (e_hash f)) = j"
      using Cons.prems(4) [of e] placedD [OF Cons.prems(3)] by cases auto
  qed
  have ms: "mset (concat ?nb) = add_mset e (mset (concat nb))"
    unfolding move_entry_def Let_def concat_update_split [OF i] arg_cong [OF concat_nth_split [OF i], of mset]
    by simp
  show ?case using Cons.IH [OF Cons.prems(1) len pl] Cons.prems(4) by (simp add: ms)
qed simp

lemma entries_ok_mset: "mset xs = mset ys \<Longrightarrow> entries_ok equals xs \<Longrightarrow> entries_ok equals ys"
  using mset_eq_setD mset_eq_imp_distinct_iff unfolding entries_ok_def by metis

lemma lookup_list_mset:
  assumes "mset xs = mset ys" and "entries_ok equals xs"
  shows "lookup_list equals xs k = lookup_list equals ys k"
proof -
  have "find (\<lambda>e. equals (e_key e) k) xs = find (\<lambda>e. equals (e_key e) k) ys"
  proof (rule find_unique)
    fix x y assume "x \<in> set xs" "y \<in> set xs" "equals (e_key x) k" "equals (e_key y) k"
    then show "x = y" using assms(2) equals_sym equals_trans unfolding entries_ok_def by blast
  qed (use assms(1) mset_eq_setD in blast)
  then show ?thesis by (simp add: lookup_list_def)
qed

lemma expand_size: "hm_size (expandIfNecessary ok m) = hm_size m"
  by (simp add: expandIfNecessary_def Let_def)

lemma expand_correct:
  assumes inv: "hm_inv hash equals m" and small: "unat (hm_size m) \<le> 2 ^ 28"
  shows "hm_inv hash equals (expandIfNecessary ok m)"
    and "hm_lookup (expandIfNecessary ok m) = hm_lookup m"
proof -
  let ?m = "expandIfNecessary ok m" and ?nbc = "push_bit 1 (bucketCount m)"
  have "hm_inv hash equals ?m \<and> hm_lookup ?m = hm_lookup m"
  proof (cases "hm_size m > bucketCount m * 3 div 4 \<and> ok")
    case False
    then have "?m = m" by (auto simp: expandIfNecessary_def Let_def)
    then show ?thesis using inv by simp
  next
    case True
    obtain k where k: "k < 32" "bucketCount m = 2 ^ k" using inv unfolding hm_inv_def by auto
    have "k < 30"
    proof (rule ccontr)
      assume "\<not> k < 30"
      then have "k = 30 \<or> k = 31" using k by linarith
      then have "(2 :: nat) ^ 28 < unat (bucketCount m * 3 div 4)"
        using k by (auto simp: unat_div unat_word_ariths)
      then show False using True small by (simp add: word_less_nat_alt)
    qed
    then have nbc: "?nbc = 2 ^ Suc k" and k': "Suc k < 32"
      using k by (simp_all add: push_bit_eq_mult mult.commute)
    then have ex: "\<exists>j < 32. ?nbc = 2 ^ j" by blast
    define nb where "nb = fold (move_entry ?nbc) (concat (buckets m)) (replicate (unat ?nbc) [])"
    have m': "?m = m\<lparr> buckets := nb, bucketCount := ?nbc \<rparr>"
      using True by (simp add: expandIfNecessary_def Let_def nb_def fold_fold_concat)
    have hs: "e_hash e = mix_hash (hash (e_key e))" if "e \<in> set (concat (buckets m))" for e
      using that placedD(1) [OF hm_invD(6) [OF inv]] by (metis UN_E in_set_conv_nth set_concat)
    have "?nbc \<noteq> 0" using pow2_ne_0 [OF k'] nbc by simp
    moreover have "placed hash ?nbc (replicate (unat ?nbc) [])" by (simp add: placed_def)
    ultimately have "length nb = unat ?nbc \<and> placed hash ?nbc nb \<and>
        mset (concat nb) = mset (concat (buckets m)) + mset (concat (replicate (unat ?nbc) []))"
      unfolding nb_def by (intro rehash) (use hs in auto)
    then have nb: "length nb = unat ?nbc" "placed hash ?nbc nb"
      "mset (concat nb) = mset (concat (buckets m))" by simp_all
    have "hm_inv hash equals ?m"
      unfolding hm_inv_def m'
      using hm_invD [OF inv] nb ex entries_ok_mset [OF nb(3) [symmetric]]
        mset_eq_length [OF nb(3)] by auto
    moreover have "hm_lookup ?m = hm_lookup m"
      using lookup_list_mset [OF nb(3) [symmetric]] hm_invD [OF inv]
      by (intro ext) (simp add: m' hm_lookup_def)
    ultimately show ?thesis by blast
  qed
  then show "hm_inv hash equals ?m" and "hm_lookup ?m = hm_lookup m" by blast+
qed


subsection \<open>Insertion and removal\<close>

lemma hm_inv_set_chain:
  assumes inv: "hm_inv hash equals m"
    and c: "\<And>e. e \<in> set c \<Longrightarrow> belongs hash m k e"
    and ok: "entries_ok equals (concat (buckets (set_chain m k c)))"
    and n: "unat n = length (concat (buckets (set_chain m k c)))"
  shows "hm_inv hash equals ((set_chain m k c)\<lparr> hm_size := n \<rparr>)"
proof -
  have "placed hash (bucketCount m) (buckets (set_chain m k c))"
    unfolding placed_def
  proof (intro allI impI ballI)
    fix j e assume j: "j < length (buckets (set_chain m k c))"
      and e: "e \<in> set (buckets (set_chain m k c) ! j)"
    then consider "e \<in> set c" "j = unat (calculateIndex (bucketCount m) (hashKey m k))"
      | "e \<in> set (buckets m ! j)" "j < length (buckets m)"
      by (cases "j = unat (calculateIndex (bucketCount m) (hashKey m k))") (auto simp: set_chain_def)
    then show "e_hash e = mix_hash (hash (e_key e)) \<and>
        unat (calculateIndex (bucketCount m) (e_hash e)) = j"
      using c unfolding belongs_def by cases (metis, blast dest: placedD [OF hm_invD(6) [OF inv]])
  qed
  then show ?thesis using inv ok n unfolding hm_inv_def set_chain_def by simp
qed

lemma put_old:
  assumes inv: "hm_inv hash equals m"
    and r: "chain_replace (hm_equals m) k (hashKey m k) v (chain_of m k) = Some (c, old)"
  shows "hm_inv hash equals (set_chain m k c)"
    and "hm_lookup (set_chain m k c) = (\<lambda>k'. if equals k k' then Some v else hm_lookup m k')"
    and "hm_lookup m k = Some old"
proof -
  obtain xs e ys where c: "chain_of m k = xs @ e # ys" "c = xs @ e\<lparr> e_value := v \<rparr> # ys"
    "old = e_value e" and ek: "equalKeys (e_key e) (e_hash e) k (hashKey m k) (hm_equals m)"
    using chain_replace_Some [OF r] by auto
  have eq: "equals (e_key e) k" using chain_equalKeys [OF inv, of e k] ek c by simp
  obtain A B where AB: "concat (buckets m) = (A @ xs) @ e # (ys @ B)"
    "concat (buckets (set_chain m k c)) = (A @ xs) @ e\<lparr> e_value := v \<rparr> # (ys @ B)"
    using chain_split [OF inv, of k] c by auto
  note ok = hm_invD(7) [OF inv, unfolded AB(1)]
  have "hm_inv hash equals ((set_chain m k c)\<lparr> hm_size := hm_size m \<rparr>)"
  proof (rule hm_inv_set_chain [OF inv])
    show "belongs hash m k f" if "f \<in> set c" for f
      using that chain_entry [OF inv, of _ k] c by auto
  qed (use entries_ok_replace [OF ok] hm_invD(5) [OF inv] AB in simp_all)
  then show "hm_inv hash equals (set_chain m k c)" by (simp add: set_chain_def)
  show "hm_lookup (set_chain m k c) = (\<lambda>k'. if equals k k' then Some v else hm_lookup m k')"
  proof
    fix k'
    have "lookup_list equals (concat (buckets (set_chain m k c))) k' =
        (if equals k k' then Some v else lookup_list equals (concat (buckets m)) k')"
      unfolding AB using lookup_list_hit [OF entries_ok_replace [OF ok, of v], of k k']
        lookup_list_hit [OF ok eq, of k'] eq by auto
    then show "hm_lookup (set_chain m k c) k' = (if equals k k' then Some v else hm_lookup m k')"
      by (simp add: hm_lookup_def set_chain_def hm_invD(2) [OF inv])
  qed
  show "hm_lookup m k = Some old"
    using lookup_list_hit [OF ok eq, of k] equals_refl
    by (simp add: hm_lookup_def hm_invD(2) [OF inv] AB(1) c)
qed

lemma put_new:
  assumes inv: "hm_inv hash equals m" and small: "unat (hm_size m) < 2 ^ 28"
    and none: "\<And>f. f \<in> set (chain_of m k) \<Longrightarrow>
                 \<not> equalKeys (e_key f) (e_hash f) k (hashKey m k) (hm_equals m)"
  shows "hm_inv hash equals
           ((set_chain m k (chain_of m k @ [createEntry k (hashKey m k) v]))\<lparr> hm_size := hm_size m + 1 \<rparr>)"
    and "hm_lookup (set_chain m k (chain_of m k @ [createEntry k (hashKey m k) v])) =
           (\<lambda>k'. if equals k k' then Some v else hm_lookup m k')"
    and "hm_lookup m k = None"
    and "unat (hm_size m + 1) = Suc (unat (hm_size m))"
proof -
  let ?e = "createEntry k (hashKey m k) v"
  have e: "e_key ?e = k" "e_hash ?e = hashKey m k" "e_value ?e = v"
    by (simp_all add: createEntry_def)
  obtain A B where AB: "concat (buckets m) = (A @ chain_of m k) @ B"
    "concat (buckets (set_chain m k (chain_of m k @ [?e]))) = (A @ chain_of m k) @ ?e # B"
    using chain_split [OF inv, of k] by auto
  note ok = hm_invD(7) [OF inv]
  have miss: "\<not> equals (e_key f) k" if "f \<in> set (concat (buckets m))" for f
    using that in_chain_iff [OF inv, of f k] none chain_equalKeys [OF inv, of f k] by blast
  then have miss': "\<not> equals (e_key f) (e_key ?e)" if "f \<in> set (A @ chain_of m k) \<union> set B" for f
    using that unfolding AB(1) e(1) by auto
  have ok': "entries_ok equals ((A @ chain_of m k) @ ?e # B)"
    using entries_ok_insert [OF ok [unfolded AB(1)] miss'] by blast
  show sz: "unat (hm_size m + 1) = Suc (unat (hm_size m))"
    using small by (intro unat_Suc_u32) simp
  have "belongs hash m k ?e"
    unfolding belongs_def e by (simp add: hashKey_def hm_invD(1) [OF inv])
  then have bel: "belongs hash m k f" if "f \<in> set (chain_of m k @ [?e])" for f
    using that chain_entry [OF inv] by auto
  show "hm_inv hash equals
      ((set_chain m k (chain_of m k @ [?e]))\<lparr> hm_size := hm_size m + 1 \<rparr>)"
  proof (rule hm_inv_set_chain [OF inv])
    show "unat (hm_size m + 1) = length (concat (buckets (set_chain m k (chain_of m k @ [?e]))))"
      using sz hm_invD(5) [OF inv] unfolding AB by simp
  qed (use bel ok' AB in simp_all)
  show "hm_lookup (set_chain m k (chain_of m k @ [?e])) =
      (\<lambda>k'. if equals k k' then Some v else hm_lookup m k')"
  proof
    fix k'
    have "lookup_list equals ((A @ chain_of m k) @ ?e # B) k' =
        (if equals k k' then Some v else lookup_list equals ((A @ chain_of m k) @ B) k')"
      using lookup_list_hit [OF ok', of k k'] e equals_refl by simp
    then show "hm_lookup (set_chain m k (chain_of m k @ [?e])) k' =
        (if equals k k' then Some v else hm_lookup m k')"
      unfolding hm_lookup_def AB by (simp add: set_chain_def hm_invD(2) [OF inv] AB(1))
  qed
  show "hm_lookup m k = None"
    unfolding hm_lookup_def hm_invD(2) [OF inv] by (rule lookup_list_miss [OF miss equals_refl])
qed


lemma put_correct:
  assumes inv: "hm_inv hash equals m" and small: "unat (hm_size m) < 2 ^ 28"
    and put: "hashmapPut malloc_ok calloc_ok m k v = (m', old, err)"
  shows "hm_inv hash equals m'" and "old = hashmapGet m k"
    and "err = (if hashmapContainsKey m k \<or> malloc_ok then None else Some ENOMEM)"
    and "err \<noteq> None \<Longrightarrow> m' = m"
    and "err = None \<Longrightarrow> hm_lookup m' = (\<lambda>k'. if equals k k' then Some v else hm_lookup m k')"
    and "unat (hm_size m') \<le> Suc (unat (hm_size m))"
proof -
  let ?r = "chain_replace (hm_equals m) k (hashKey m k) v (chain_of m k)"
  have "hm_inv hash equals m' \<and> old = hashmapGet m k \<and>
      err = (if hashmapContainsKey m k \<or> malloc_ok then None else Some ENOMEM) \<and>
      (err \<noteq> None \<longrightarrow> m' = m) \<and>
      (err = None \<longrightarrow> hm_lookup m' = (\<lambda>k'. if equals k k' then Some v else hm_lookup m k')) \<and>
      unat (hm_size m') \<le> Suc (unat (hm_size m))"
  proof (cases ?r)
    case (Some p)
    then obtain c o' where r: "?r = Some (c, o')" by (cases p) auto
    with put have res: "m' = set_chain m k c" "old = o'" "err = None"
      by (auto simp: hashmapPut_def Let_def)
    then show ?thesis using put_old [OF inv r] get_lookup [OF inv, of k]
      by (simp add: set_chain_def)
  next
    case None
    then have none: "\<not> equalKeys (e_key f) (e_hash f) k (hashKey m k) (hm_equals m)"
      if "f \<in> set (chain_of m k)" for f using that by (simp add: chain_replace_None)
    note new = put_new(1,2) [where v = v, OF inv small none] put_new(3,4) [OF inv small none]
    show ?thesis
    proof (cases malloc_ok)
      case True
      let ?m = "(set_chain m k (chain_of m k @ [createEntry k (hashKey m k) v]))
                  \<lparr> hm_size := hm_size m + 1 \<rparr>"
      have res: "m' = expandIfNecessary calloc_ok ?m" "old = None" "err = None"
        using put None True by (simp_all add: hashmapPut_def Let_def)
      have "unat (hm_size ?m) \<le> 2 ^ 28" using new(4) small by simp
      note ex = expand_correct [OF new(1) this, of calloc_ok]
      have "hm_lookup ?m = (\<lambda>k'. if equals k k' then Some v else hm_lookup m k')"
        using new(2) by simp
      then show ?thesis using ex res new get_lookup [OF inv, of k] True by (simp add: expand_size)
    next
      case False
      then have "m' = m" "old = None" "err = Some ENOMEM"
        using put None by (simp_all add: hashmapPut_def Let_def)
      then show ?thesis using inv new get_lookup [OF inv, of k] False by simp
    qed
  qed
  then show "hm_inv hash equals m'" "old = hashmapGet m k"
    "err = (if hashmapContainsKey m k \<or> malloc_ok then None else Some ENOMEM)"
    "err \<noteq> None \<Longrightarrow> m' = m"
    "err = None \<Longrightarrow> hm_lookup m' = (\<lambda>k'. if equals k k' then Some v else hm_lookup m k')"
    "unat (hm_size m') \<le> Suc (unat (hm_size m))"
    by blast+
qed

lemma memoize_as_put:
  assumes inv: "hm_inv hash equals m"
  shows "hashmapMemoize malloc_ok calloc_ok m k f c =
     (if hashmapContainsKey m k then (m, hashmapGet m k, None)
      else let (m', _, err) = hashmapPut malloc_ok calloc_ok m k (f k c)
           in (m', if err = None then f k c else None, err))"
proof (cases "chain_find (hm_equals m) k (hashKey m k) (chain_of m k)")
  case None
  then have "chain_replace (hm_equals m) k (hashKey m k) (f k c) (chain_of m k) = None"
    by (simp add: chain_replace_None chain_find_find find_None_iff)
  with None show ?thesis
    by (simp add: hashmapMemoize_def hashmapPut_def hashmapContainsKey_def createEntry_def Let_def)
qed (simp add: hashmapMemoize_def hashmapContainsKey_def hashmapGet_def)

lemma remove_correct:
  assumes inv: "hm_inv hash equals m" and rem: "hashmapRemove m k = (m', v)"
  shows "hm_inv hash equals m'" and "v = hashmapGet m k"
    and "hm_lookup m' = (\<lambda>k'. if equals k k' then None else hm_lookup m k')"
    and "unat (hm_size m') = unat (hm_size m) - (if hashmapContainsKey m k then 1 else 0)"
proof -
  let ?r = "chain_remove (hm_equals m) k (hashKey m k) (chain_of m k)"
  have "hm_inv hash equals m' \<and> v = hashmapGet m k \<and>
      hm_lookup m' = (\<lambda>k'. if equals k k' then None else hm_lookup m k') \<and>
      unat (hm_size m') = unat (hm_size m) - (if hashmapContainsKey m k then 1 else 0)"
  proof (cases ?r)
    case None
    then have "chain_find (hm_equals m) k (hashKey m k) (chain_of m k) = None"
      by (simp add: chain_remove_None chain_find_find find_None_iff)
    then have none: "find (\<lambda>e. equals (e_key e) k) (concat (buckets m)) = None"
      using find_chain [OF inv] by simp
    then have "hm_lookup m k' = None" if "equals k k'" for k'
      using that unfolding hm_lookup_def hm_invD(2) [OF inv]
      by (intro lookup_list_miss [where k = k]) (auto simp: find_None_iff)
    moreover have "m' = m" "v = None" using rem None by (simp_all add: hashmapRemove_def)
    ultimately show ?thesis using inv get_lookup [OF inv, of k] equals_refl by (auto simp: fun_eq_iff)
  next
    case (Some p)
    then obtain c o' where r: "?r = Some (c, o')" by (cases p) auto
    then have res: "m' = (set_chain m k c)\<lparr> hm_size := hm_size m - 1 \<rparr>" "v = o'"
      using rem by (simp_all add: hashmapRemove_def)
    obtain xs e ys where c: "chain_of m k = xs @ e # ys" "c = xs @ ys" "o' = e_value e"
      and ek: "equalKeys (e_key e) (e_hash e) k (hashKey m k) (hm_equals m)"
      using chain_remove_Some [OF r] by auto
    have eq: "equals (e_key e) k" using chain_equalKeys [OF inv, of e k] ek c by simp
    obtain A B where AB: "concat (buckets m) = (A @ xs) @ e # (ys @ B)"
      "concat (buckets (set_chain m k c)) = (A @ xs) @ (ys @ B)"
      using chain_split [OF inv, of k] c by auto
    note ok = hm_invD(7) [OF inv, unfolded AB(1)]
    have sz: "unat (hm_size m) = Suc (length (concat (buckets (set_chain m k c))))"
      using hm_invD(5) [OF inv] unfolding AB by simp
    then have sz': "unat (hm_size m - 1) = unat (hm_size m) - 1"
      by (intro unat_pred_u32) auto
    have "hm_inv hash equals m'"
      unfolding res(1)
    proof (rule hm_inv_set_chain [OF inv])
      show "belongs hash m k f" if "f \<in> set c" for f
        using that chain_entry [OF inv, of _ k] c by auto
    qed (use entries_ok_remove [OF ok] sz sz' AB in simp_all)
    moreover have look: "hm_lookup m' = (\<lambda>k'. if equals k k' then None else hm_lookup m k')"
    proof
      fix k'
      have miss: "\<not> equals (e_key f) k" if "f \<in> set ((A @ xs) @ (ys @ B))" for f
      proof
        assume "equals (e_key f) k"
        then have "equals (e_key f) (e_key e)" using eq equals_sym equals_trans by blast
        then show False using ok that unfolding entries_ok_def by auto
      qed
      have "lookup_list equals ((A @ xs) @ (ys @ B)) k' =
          (if equals k k' then None else lookup_list equals (concat (buckets m)) k')"
        unfolding AB(1) lookup_list_hit [OF ok eq, of k']
        using lookup_list_miss [of "(A @ xs) @ (ys @ B)", OF miss] by simp
      then show "hm_lookup m' k' = (if equals k k' then None else hm_lookup m k')"
        using AB(2) hm_invD(2) [OF inv] by (simp add: hm_lookup_def res(1) set_chain_def)
    qed
    moreover have hit: "hm_lookup m k = Some o'"
      using lookup_list_hit [OF ok eq, of k] equals_refl c
      by (simp add: hm_lookup_def hm_invD(2) [OF inv] AB(1))
    ultimately show ?thesis using res sz' get_lookup [OF inv, of k] by simp
  qed
  then show "hm_inv hash equals m'" "v = hashmapGet m k"
    "hm_lookup m' = (\<lambda>k'. if equals k k' then None else hm_lookup m k')"
    "unat (hm_size m') = unat (hm_size m) - (if hashmapContainsKey m k then 1 else 0)" by blast+
qed

end

interpretation int_keys: key_contract "hashmapIntHash mem" "hashmapIntEquals mem" for mem
  by unfold_locales (auto simp: hashmapIntHash_def hashmapIntEquals_def)


subsection \<open>Sequences of operations\<close>

text \<open>
  The abstract specification of the table is a partial function from keys to values, updated
  at every key the callback calls equal. A run of operations on the table and on the
  specification stay in step.
\<close>

datatype ('k, 'v) hm_op = PutOp 'k "'v option" bool | RemoveOp 'k | MemoizeOp 'k "'v option" bool

fun hm_step :: "('k, 'v) Hashmap \<Rightarrow> ('k, 'v) hm_op \<Rightarrow> ('k, 'v) Hashmap" where
  "hm_step m (PutOp k v calloc_ok) = fst (hashmapPut True calloc_ok m k v)"
| "hm_step m (RemoveOp k) = fst (hashmapRemove m k)"
| "hm_step m (MemoizeOp k v calloc_ok) =
     fst (hashmapMemoize True calloc_ok m k (\<lambda>_ _. v) ())"

fun spec_step ::
  "('k \<Rightarrow> 'k \<Rightarrow> bool) \<Rightarrow> ('k \<Rightarrow> 'v option option) \<Rightarrow> ('k, 'v) hm_op \<Rightarrow> ('k \<Rightarrow> 'v option option)" where
  "spec_step equals s (PutOp k v _) = (\<lambda>k'. if equals k k' then Some v else s k')"
| "spec_step equals s (RemoveOp k) = (\<lambda>k'. if equals k k' then None else s k')"
| "spec_step equals s (MemoizeOp k v _) =
     (if s k = None then (\<lambda>k'. if equals k k' then Some v else s k') else s)"

context key_contract
begin

lemma hm_step_correct:
  assumes inv: "hm_inv hash equals m" and small: "unat (hm_size m) < 2 ^ 28"
  shows "hm_inv hash equals (hm_step m a)"
    and "hm_lookup (hm_step m a) = spec_step equals (hm_lookup m) a"
    and "unat (hm_size (hm_step m a)) \<le> Suc (unat (hm_size m))"
proof -
  have put: "hm_inv hash equals (fst (hashmapPut True c m k v)) \<and>
      hm_lookup (fst (hashmapPut True c m k v)) = (\<lambda>k'. if equals k k' then Some v else hm_lookup m k') \<and>
      unat (hm_size (fst (hashmapPut True c m k v))) \<le> Suc (unat (hm_size m))" for c k v
    using put_correct [OF inv small, of True c k v] by (cases "hashmapPut True c m k v") simp
  have "hm_inv hash equals (hm_step m a) \<and>
      hm_lookup (hm_step m a) = spec_step equals (hm_lookup m) a \<and>
      unat (hm_size (hm_step m a)) \<le> Suc (unat (hm_size m))"
  proof (cases a)
    case (PutOp k v c)
    then show ?thesis using put by simp
  next
    case (RemoveOp k)
    obtain m' v where "hashmapRemove m k = (m', v)" by fastforce
    then show ?thesis using remove_correct [OF inv] RemoveOp by simp
  next
    case (MemoizeOp k v c)
    then show ?thesis using put [of c k v] inv get_lookup(2) [OF inv, of k]
      by (auto simp: memoize_as_put [OF inv] split: prod.splits)
  qed
  then show "hm_inv hash equals (hm_step m a)"
    and "hm_lookup (hm_step m a) = spec_step equals (hm_lookup m) a"
    and "unat (hm_size (hm_step m a)) \<le> Suc (unat (hm_size m))" by blast+
qed

lemma hm_run_correct:
  assumes "hm_inv hash equals m" and "unat (hm_size m) + length ops \<le> 2 ^ 28"
  shows "hm_inv hash equals (foldl hm_step m ops)"
    and "hm_lookup (foldl hm_step m ops) = foldl (spec_step equals) (hm_lookup m) ops"
  using assms
proof (induction ops arbitrary: m)
  case (Cons a ops)
  {
    case 1
    then show ?case using hm_step_correct [of m a] Cons.IH(1) [of "hm_step m a"] by simp
  next
    case 2
    then show ?case using hm_step_correct [of m a] Cons.IH(2) [of "hm_step m a"] by simp
  }
qed simp_all

end

subsection \<open>Properties of the table\<close>

lemma hashmapCreate_eq:
  "\<exists>k < 32. unat (c * 4 div 3) < 2 ^ k \<and> (k = 0 \<or> 2 ^ (k - 1) \<le> unat (c * 4 div 3)) \<and>
     hashmapCreate True True c hash equals =
       Some (Some \<lparr> buckets = replicate (2 ^ k) [], bucketCount = 2 ^ k, hm_hash = hash,
                    hm_equals = equals, hm_locked = False, hm_size = 0 \<rparr>)"
  using grow_buckets_pow2 [of 0, OF _ minimum_bucket_bound [of c]]
  by (auto simp: hashmapCreate_def Let_def unat_pow2_32)

text \<open>
  C13. \<open>hashmapCreate\<close> returns for every 32-bit capacity (the doubling loop always ends, because
  the rounded capacity is computed modulo \<open>2^32\<close> and divided by 3): the bucket count is the
  least power of two above it, the table satisfies the invariant and maps every key to nothing.
\<close>

theorem hashmapCreate_total:
  fixes hash :: "'k \<Rightarrow> u32"
  shows "\<exists>(m :: ('k, 'v) Hashmap) k. hashmapCreate True True c hash equals = Some (Some m) \<and> hm_inv hash equals m \<and>
     bucketCount m = 2 ^ k \<and> k < 32 \<and> unat (c * 4 div 3) < 2 ^ k \<and>
     (k = 0 \<or> 2 ^ (k - 1) \<le> unat (c * 4 div 3)) \<and> hm_lookup m = (\<lambda>_. None)"
proof -
  obtain k where k: "k < 32" and *: "unat (c * 4 div 3) < 2 ^ k"
    "k = 0 \<or> 2 ^ (k - 1) \<le> unat (c * 4 div 3)"
    and m: "hashmapCreate True True c hash equals = Some ((Some :: ('k, 'v) Hashmap \<Rightarrow> _)
      \<lparr> buckets = replicate (2 ^ k) [], bucketCount = 2 ^ k, hm_hash = hash,
                   hm_equals = equals, hm_locked = False, hm_size = 0 \<rparr>)"
    using hashmapCreate_eq [of c hash equals] by blast
  let ?m = "\<lparr> buckets = replicate (2 ^ k) [], bucketCount = 2 ^ k, hm_hash = hash,
               hm_equals = equals, hm_locked = False, hm_size = 0 \<rparr> :: ('k, 'v) Hashmap"
  have "hm_inv hash equals ?m"
    using k by (auto simp: hm_inv_def placed_def entries_ok_def unat_pow2_32)
  moreover have "hm_lookup ?m = (\<lambda>_. None)"
    by (simp add: hm_lookup_def lookup_list_def fun_eq_iff)
  ultimately show ?thesis using k * m by (intro exI [of _ ?m] exI [of _ k]) simp
qed


text \<open>
  C4. The table refines the abstract map: from a table that satisfies the invariant, any
  sequence of puts, removals and memoizations, with the resizing allocations failing or not in
  any pattern, keeps the invariant, and what the table holds afterwards is what the same
  sequence gives on the abstract map. The bound \<open>2^28\<close> is the number of 16-byte entries a
  32-bit address space can hold.
\<close>

theorem hashmap_refines_map:
  assumes "key_contract hash equals" and "hm_inv hash equals m"
    and "unat (hm_size m) + length ops \<le> 2 ^ 28"
  shows "hm_inv hash equals (foldl hm_step m ops) \<and>
         hm_lookup (foldl hm_step m ops) = foldl (spec_step equals) (hm_lookup m) ops"
  using key_contract.hm_run_correct [OF assms] by blast

definition sample_map :: "(nat, nat) Hashmap" where
  "sample_map = \<lparr> buckets = [[], []], bucketCount = 2, hm_hash = hashmapIntHash of_nat,
     hm_equals = hashmapIntEquals of_nat, hm_locked = False, hm_size = 0 \<rparr>"

lemma sample_map_inv: "hm_inv (hashmapIntHash of_nat) (hashmapIntEquals of_nat) sample_map"
  unfolding hm_inv_def
proof (intro conjI)
  show "\<exists>k < 32. bucketCount sample_map = 2 ^ k" by (intro exI [of _ 1]) (simp add: sample_map_def)
  show "placed (hashmapIntHash of_nat) (bucketCount sample_map) (buckets sample_map)"
    unfolding placed_def by (auto simp: sample_map_def nth_Cons split: nat.splits)
qed (simp_all add: sample_map_def entries_ok_def)

lemma sample_map_size: "unat (hm_size sample_map) = 0"
  by (simp add: sample_map_def)

theorem hashmap_refines_map_witness:
  "hm_lookup (foldl hm_step sample_map [PutOp 5 (Some 7) True, PutOp 5 None True, RemoveOp 9]) =
   foldl (spec_step (hashmapIntEquals of_nat)) (hm_lookup sample_map)
     [PutOp 5 (Some 7) True, PutOp 5 None True, RemoveOp 9]"
  by (rule hashmap_refines_map [THEN conjunct2, OF int_keys.key_contract_axioms sample_map_inv])
    (simp add: sample_map_size)

text \<open>
  \<open>hashmapPut\<close> on every branch: it returns what \<open>hashmapGet\<close> returned before; if the key
  was present or the entry could be allocated, the key now maps to the new value and no other
  key changes, even when the resize allocation fails; otherwise \<open>errno\<close> is \<open>ENOMEM\<close> and the
  table is unchanged.
\<close>

theorem hashmapPut_branches:
  assumes "key_contract hash equals" and "hm_inv hash equals m" and "unat (hm_size m) < 2 ^ 28"
    and "hashmapPut malloc_ok calloc_ok m k v = (m', old, err)"
  shows "hm_inv hash equals m' \<and> old = hashmapGet m k \<and>
     (if hashmapContainsKey m k \<or> malloc_ok
      then err = None \<and> hashmapGet m' k = v \<and> hashmapContainsKey m' k \<and>
           (\<forall>k'. \<not> equals k k' \<longrightarrow> hashmapGet m' k' = hashmapGet m k')
      else err = Some ENOMEM \<and> m' = m)"
proof -
  note put = key_contract.put_correct [OF assms]
  note get' = key_contract.get_lookup [OF assms(1) put(1)]
  note get = key_contract.get_lookup [OF assms(1,2)]
  show ?thesis
    using put get get' key_contract.equals_refl [OF assms(1), of k] by simp
qed

theorem hashmapPut_branches_witness:
  "fst (snd (hashmapPut True False sample_map 3 (Some 8))) = hashmapGet sample_map 3"
proof -
  obtain m' old err where p: "hashmapPut True False sample_map 3 (Some 8) = (m', old, err)"
    by (cases "hashmapPut True False sample_map 3 (Some 8)") auto
  from hashmapPut_branches [OF int_keys.key_contract_axioms sample_map_inv _ p]
  show ?thesis by (simp add: p sample_map_size)
qed

text \<open>
  \<open>hashmapRemove\<close> returns what \<open>hashmapGet\<close> returned, makes exactly the keys equal to the
  given one absent, and decrements the size exactly when an entry was present.
\<close>

theorem hashmapRemove_exact:
  assumes "key_contract hash equals" and "hm_inv hash equals m" and "hashmapRemove m k = (m', v)"
  shows "hm_inv hash equals m' \<and> v = hashmapGet m k \<and>
     hashmapContainsKey m' k' = (hashmapContainsKey m k' \<and> \<not> equals k k') \<and>
     hashmapGet m' k' = (if equals k k' then None else hashmapGet m k') \<and>
     unat (hashmapSize m') = unat (hashmapSize m) - (if hashmapContainsKey m k then 1 else 0)"
proof -
  note rem = key_contract.remove_correct [OF assms]
  show ?thesis
    using rem key_contract.get_lookup [OF assms(1) rem(1)] key_contract.get_lookup [OF assms(1,2)]
    by (simp add: hashmapSize_def)
qed

theorem hashmapRemove_exact_witness:
  "snd (hashmapRemove (fst (hashmapPut True True sample_map 3 (Some 8))) 3) = Some 8"
proof -
  let ?m = "fst (hashmapPut True True sample_map 3 (Some 8))"
  have inv: "hm_inv (hashmapIntHash of_nat) (hashmapIntEquals of_nat) ?m"
    using int_keys.hm_step_correct(1) [OF sample_map_inv, of "PutOp 3 (Some 8) True"]
    by (simp add: sample_map_size)
  have look: "hm_lookup ?m 3 = Some (Some 8)"
    using int_keys.hm_step_correct(2) [OF sample_map_inv, of "PutOp 3 (Some 8) True"]
    by (simp add: sample_map_size hashmapIntEquals_def)
  obtain m' v where "hashmapRemove ?m 3 = (m', v)" by fastforce
  from hashmapRemove_exact [OF int_keys.key_contract_axioms inv this] this look
  show ?thesis by (simp add: int_keys.get_lookup [OF inv])
qed


text \<open>
  \<open>hashmapMemoize\<close> calls its callback exactly when the key is absent and memory is
  available: it returns the stored value of a present key and leaves the table as it is; for an
  absent key it returns the callback's value and the table then holds it; without memory it
  returns NULL with \<open>ENOMEM\<close> and does not use the callback's value.
\<close>

theorem hashmapMemoize_branches:
  assumes "key_contract hash equals" and "hm_inv hash equals m" and "unat (hm_size m) < 2 ^ 28"
    and "hashmapMemoize malloc_ok calloc_ok m k f c = (m', r, err)"
  shows "if hashmapContainsKey m k then m' = m \<and> r = hashmapGet m k \<and> err = None
     else if malloc_ok then hm_inv hash equals m' \<and> r = f k c \<and> hashmapGet m' k = f k c \<and>
       hashmapContainsKey m' k \<and> err = None \<and>
       (\<forall>k'. \<not> equals k k' \<longrightarrow> hashmapGet m' k' = hashmapGet m k')
     else m' = m \<and> r = None \<and> err = Some ENOMEM"
proof -
  obtain m1 old e1 where p: "hashmapPut malloc_ok calloc_ok m k (f k c) = (m1, old, e1)"
    by (cases "hashmapPut malloc_ok calloc_ok m k (f k c)") auto
  note put = key_contract.put_correct [OF assms(1-3) p]
  show ?thesis
    using assms(4) p put key_contract.get_lookup [OF assms(1) put(1)]
      key_contract.get_lookup [OF assms(1,2)] key_contract.equals_refl [OF assms(1), of k]
    unfolding key_contract.memoize_as_put [OF assms(1,2)] by (auto split: if_splits)
qed

theorem hashmapMemoize_branches_witness:
  "hashmapMemoize False True sample_map 4 (\<lambda>k c. Some (k + c)) 10 = (sample_map, None, Some ENOMEM)"
proof -
  obtain m' r err where
    p: "hashmapMemoize False True sample_map 4 (\<lambda>k c. Some (k + c)) 10 = (m', r, err)"
    by (cases "hashmapMemoize False True sample_map 4 (\<lambda>k c. Some (k + c)) 10") auto
  have "\<not> hashmapContainsKey sample_map 4"
    by (simp add: int_keys.get_lookup [OF sample_map_inv] hm_lookup_def lookup_list_def)
      (simp add: sample_map_def)
  then show ?thesis
    using hashmapMemoize_branches [OF int_keys.key_contract_axioms sample_map_inv _ p]
    by (simp add: p sample_map_size)
qed

lemma forEach_chain_append:
  "forEach_chain cb (xs @ ys) c =
     (let (go, c') = forEach_chain cb xs c in if go then forEach_chain cb ys c' else (False, c'))"
  by (induction xs arbitrary: c) (auto simp: Let_def split: prod.split)

lemma forEach_buckets_concat: "forEach_buckets cb bs c = forEach_chain cb (concat bs) c"
  by (induction bs arbitrary: c) (auto simp: forEach_chain_append Let_def split: prod.split)

lemma forEach_chain_all:
  "(\<And>k v c. fst (cb k v c)) \<Longrightarrow>
   forEach_chain cb es c = (True, fold (\<lambda>e c. snd (cb (e_key e) (e_value e) c)) es c)"
  by (induction es arbitrary: c) (simp_all add: case_prod_beta Let_def)

lemma chain_collisions_length:
  "chain_collisions c n = n + of_nat (length c) - (if c = [] then 0 else 1)"
  by (induction c n rule: chain_collisions.induct) (auto simp: algebra_simps)

lemma fold_collisions:
  "fold chain_collisions bs n =
     n + of_nat (length (concat bs)) - of_nat (length (filter (\<lambda>c. c \<noteq> []) bs))"
proof (induction bs arbitrary: n)
  case (Cons b bs)
  have "fold chain_collisions (b # bs) n = chain_collisions b n + of_nat (length (concat bs)) -
      of_nat (length (filter (\<lambda>c. c \<noteq> []) bs))" by (simp add: Cons.IH)
  also have "chain_collisions b n = n + of_nat (length b) - (if b = [] then 0 else 1)"
    by (rule chain_collisions_length)
  finally show ?case by (cases "b = []") (simp_all add: algebra_simps)
qed simp

text \<open>
  The traversals see every entry exactly once: \<open>hashmapForEach\<close> with a callback that never
  stops folds over the entries, \<open>hashmapFree\<close> frees each entry once and no entry twice, and
  \<open>hashmapCountCollisions\<close> is the size minus the number of buckets in use.
\<close>

theorem hashmap_traversals:
  assumes "hm_inv hash equals m" and "\<And>k v c. fst (cb k v c)"
  shows "hashmapForEach m cb c0 =
           fold (\<lambda>e c. snd (cb (e_key e) (e_value e) c)) (concat (buckets m)) c0 \<and>
         hashmapFree m = concat (buckets m) \<and> distinct (hashmapFree m) \<and>
         length (hashmapFree m) = unat (hashmapSize m) \<and>
         hashmapCountCollisions m =
           hashmapSize m - of_nat (length (filter (\<lambda>c. c \<noteq> []) (buckets m)))"
proof -
  have "fold (\<lambda>chain freed. freed @ chain) bs acc = acc @ concat bs"
    for bs and acc :: "('a, 'b) Entry list"
    by (induction bs arbitrary: acc) auto
  then have "hashmapFree m = concat (buckets m)" by (simp add: hashmapFree_def)
  moreover have "hashmapForEach m cb c0 =
      fold (\<lambda>e c. snd (cb (e_key e) (e_value e) c)) (concat (buckets m)) c0"
    using assms(2) by (simp add: hashmapForEach_def forEach_buckets_concat forEach_chain_all)
  moreover have "hm_size m = of_nat (unat (hm_size m))" by simp
  ultimately show ?thesis using hm_invD [OF assms(1)]
    by (simp add: hashmapCountCollisions_def hashmapSize_def fold_collisions entries_ok_def)
qed

theorem hashmap_traversals_witness:
  "hashmapForEach sample_map (\<lambda>k v c. (True, Suc c)) 3 = 3 \<and> hashmapFree sample_map = [] \<and>
   hashmapCountCollisions sample_map = 0"
  using hashmap_traversals [OF sample_map_inv, of "\<lambda>k v c. (True, Suc c)" 3]
  by (simp add: sample_map_def hashmapSize_def)

end
