(* ===== verification/Tz_Calendar.thy ===== *)
theory Tz_Calendar
  imports Prelude_C
begin

text \<open>
  The calendar core of \<open>libcutils/tztime.c\<close>: the Gregorian constants of \<open>tzfile.h\<close>, the
  overflow-checked increments, and \<open>timesub\<close>, which breaks an Epoch-relative time down into a
  \<open>struct tm\<close>. On the 32-bit target \<open>time_t\<close>, \<open>long\<close> and \<open>int\<close> are signed 32-bit values;
  they are integers here, with \<open>s32\<close> written where an operation can leave the range. The
  lemmas relate \<open>timesub\<close> to the civil calendar: day numbers, month lengths, weekdays.
\<close>

subsection \<open>Constants\<close>

definition SECSPERMIN :: int where [simp]: "SECSPERMIN = 60"
definition MINSPERHOUR :: int where [simp]: "MINSPERHOUR = 60"
definition HOURSPERDAY :: int where [simp]: "HOURSPERDAY = 24"
definition DAYSPERWEEK :: int where [simp]: "DAYSPERWEEK = 7"
definition DAYSPERNYEAR :: int where [simp]: "DAYSPERNYEAR = 365"
definition DAYSPERLYEAR :: int where [simp]: "DAYSPERLYEAR = 366"
definition SECSPERHOUR :: int where [simp]: "SECSPERHOUR = SECSPERMIN * MINSPERHOUR"
definition SECSPERDAY :: int where [simp]: "SECSPERDAY = SECSPERHOUR * HOURSPERDAY"
definition MONSPERYEAR :: int where [simp]: "MONSPERYEAR = 12"
definition TM_YEAR_BASE :: int where [simp]: "TM_YEAR_BASE = 1900"
definition EPOCH_YEAR :: int where [simp]: "EPOCH_YEAR = 1970"
definition EPOCH_WDAY :: int where [simp]: "EPOCH_WDAY = 4"

definition TZ_MAX_TIMES :: nat where [simp]: "TZ_MAX_TIMES = 1200"
definition TZ_MAX_TYPES :: nat where [simp]: "TZ_MAX_TYPES = 256"
definition TZ_MAX_CHARS :: nat where [simp]: "TZ_MAX_CHARS = 50"
definition TZ_MAX_LEAPS :: nat where [simp]: "TZ_MAX_LEAPS = 50"

definition isleap :: "int \<Rightarrow> bool" where
  "isleap y = (cmod y 4 = 0 \<and> (cmod y 100 \<noteq> 0 \<or> cmod y 400 = 0))"

definition mon_lengths :: "bool \<Rightarrow> int list" where
  "mon_lengths leap =
     (if leap then [31, 29, 31, 30, 31, 30, 31, 31, 30, 31, 30, 31]
      else [31, 28, 31, 30, 31, 30, 31, 31, 30, 31, 30, 31])"

definition year_lengths :: "bool \<Rightarrow> int" where
  "year_lengths leap = (if leap then DAYSPERLYEAR else DAYSPERNYEAR)"

subsection \<open>Data\<close>

record ttinfo =
  tt_gmtoff :: int
  tt_isdst :: int
  tt_abbrind :: int
  tt_ttisstd :: int
  tt_ttisgmt :: int

record lsinfo =
  ls_trans :: int
  ls_corr :: int

text \<open>\<open>struct state\<close>: the arrays are lists of the declared lengths.\<close>

record tzstate =
  leapcnt :: int
  timecnt :: int
  typecnt :: int
  charcnt :: int
  goback :: bool
  goahead :: bool
  ats :: "int list"
  types :: "int list"
  ttis :: "ttinfo list"
  chars :: "string"
  lsis :: "lsinfo list"

record tm =
  tm_sec :: int
  tm_min :: int
  tm_hour :: int
  tm_mday :: int
  tm_mon :: int
  tm_year :: int
  tm_wday :: int
  tm_yday :: int
  tm_isdst :: int

text \<open>How a function of the file can fail to deliver: a NULL (or error) result, or a read
  outside an array, which C leaves undefined.\<close>

datatype tz_fault = NullResult | OutOfBounds

subsection \<open>Overflow-checked increments\<close>

text \<open>The new number, and whether the increment overflowed.\<close>

definition increment_overflow :: "int \<Rightarrow> int \<Rightarrow> int \<times> bool" where
  "increment_overflow number delta =
     (let number1 = s32 (number + delta)
      in (number1, if delta \<ge> 0 then number1 < number else number1 > number))"

definition long_increment_overflow :: "int \<Rightarrow> int \<Rightarrow> int \<times> bool" where
  "long_increment_overflow number delta =
     (let number1 = s32 (number + delta)
      in (number1, if delta \<ge> 0 then number1 < number else number1 > number))"

definition normalize_overflow :: "int \<Rightarrow> int \<Rightarrow> int \<Rightarrow> int \<times> int \<times> bool" where
  "normalize_overflow tens units base =
     (let tensdelta = (if units \<ge> 0 then cdiv units base else -1 - cdiv (-1 - units) base);
          units' = s32 (units - s32 (tensdelta * base));
          (tens', overflow) = increment_overflow tens tensdelta
      in (tens', units', overflow))"

definition long_normalize_overflow :: "int \<Rightarrow> int \<Rightarrow> int \<Rightarrow> int \<times> int \<times> bool" where
  "long_normalize_overflow tens units base =
     (let tensdelta = (if units \<ge> 0 then cdiv units base else -1 - cdiv (-1 - units) base);
          units' = s32 (units - s32 (tensdelta * base));
          (tens', overflow) = long_increment_overflow tens tensdelta
      in (tens', units', overflow))"

definition tmcomp :: "tm \<Rightarrow> tm \<Rightarrow> int" where
  "tmcomp a b =
     (let r = s32 (tm_year a - tm_year b) in if r \<noteq> 0 then r else
      let r = s32 (tm_mon a - tm_mon b) in if r \<noteq> 0 then r else
      let r = s32 (tm_mday a - tm_mday b) in if r \<noteq> 0 then r else
      let r = s32 (tm_hour a - tm_hour b) in if r \<noteq> 0 then r else
      let r = s32 (tm_min a - tm_min b) in if r \<noteq> 0 then r else
      s32 (tm_sec a - tm_sec b))"

subsection \<open>Breaking a time down\<close>

function leaps_thru_end_of :: "int \<Rightarrow> int" where
  "leaps_thru_end_of y =
     (if y \<ge> 0 then cdiv y 4 - cdiv y 100 + cdiv y 400
      else - (leaps_thru_end_of (- (y + 1)) + 1))"
  by pat_completeness auto
termination
  by (relation "measure (\<lambda>y. if y < 0 then 1 else 0)") auto

declare leaps_thru_end_of.simps [simp del]

text \<open>The leap-second table, scanned from its end: the correction in force at \<open>t\<close> and the
  number of consecutive positive leap seconds that \<open>t\<close> falls on.\<close>

fun count_hits :: "lsinfo list \<Rightarrow> nat \<Rightarrow> int \<Rightarrow> int" where
  "count_hits ls 0 hit = hit"
| "count_hits ls (Suc i) hit =
     (if ls_trans (ls ! Suc i) = s32 (ls_trans (ls ! i) + 1) \<and>
         ls_corr (ls ! Suc i) = s32 (ls_corr (ls ! i) + 1)
      then count_hits ls i (hit + 1) else hit)"

fun leap_scan :: "lsinfo list \<Rightarrow> nat \<Rightarrow> int \<Rightarrow> tz_fault + (int \<times> int)" where
  "leap_scan ls 0 t = Inr (0, 0)"
| "leap_scan ls (Suc i) t =
     (let lp = ls ! i in
      if t \<ge> ls_trans lp then
        if t = ls_trans lp then
          if i = 0 \<and> ls_corr lp > 0 then Inr (ls_corr lp, 1)
          else if i = 0 then Inl OutOfBounds
          else if ls_corr lp > ls_corr (ls ! (i - 1)) then Inr (ls_corr lp, count_hits ls i 1)
          else Inr (ls_corr lp, 0)
        else Inr (ls_corr lp, 0)
      else leap_scan ls i t)"

partial_function (option) year_loop :: "int \<Rightarrow> int \<Rightarrow> (tz_fault + (int \<times> int)) option" where
  "year_loop y tdays =
     (if tdays < 0 \<or> tdays \<ge> year_lengths (isleap y) then
        let tdelta = cdiv tdays DAYSPERLYEAR;
            idelta = (if tdelta = 0 then (if tdays < 0 then -1 else 1) else tdelta);
            (newy, overflow) = increment_overflow y idelta
        in if overflow then Some (Inl NullResult)
           else
             let leapdays = leaps_thru_end_of (newy - 1) - leaps_thru_end_of (y - 1)
             in year_loop newy (tdays - (newy - y) * DAYSPERNYEAR - leapdays)
      else Some (Inr (y, tdays)))"

function rem_up :: "int \<Rightarrow> int \<Rightarrow> int \<times> int" where
  "rem_up r idays = (if r < 0 then rem_up (r + SECSPERDAY) (idays - 1) else (r, idays))"
  by pat_completeness auto
termination by (relation "measure (\<lambda>(r, _). nat (- r))") auto

function rem_down :: "int \<Rightarrow> int \<Rightarrow> int \<times> int" where
  "rem_down r idays =
     (if r \<ge> SECSPERDAY then rem_down (r - SECSPERDAY) (idays + 1) else (r, idays))"
  by pat_completeness auto
termination by (relation "measure (\<lambda>(r, _). nat r)") auto

function days_up :: "int \<Rightarrow> int \<Rightarrow> tz_fault + (int \<times> int)" where
  "days_up y idays =
     (if idays < 0 then
        let (y', overflow) = increment_overflow y (-1)
        in if overflow then Inl NullResult else days_up y' (idays + year_lengths (isleap y'))
      else Inr (y, idays))"
  by pat_completeness auto
termination
  by (relation "measure (\<lambda>(_, d). nat (- d))") (auto simp: year_lengths_def)

function days_down :: "int \<Rightarrow> int \<Rightarrow> tz_fault + (int \<times> int)" where
  "days_down y idays =
     (if idays \<ge> year_lengths (isleap y) then
        let (y', overflow) = increment_overflow y 1
        in if overflow then Inl NullResult else days_down y' (idays - year_lengths (isleap y))
      else Inr (y, idays))"
  by pat_completeness auto
termination
  by (relation "measure (\<lambda>(_, d). nat d)") (auto simp: year_lengths_def split: if_splits)

declare rem_up.simps [simp del] rem_down.simps [simp del] days_up.simps [simp del]
  days_down.simps [simp del]

fun month_loop :: "int list \<Rightarrow> int \<Rightarrow> int \<Rightarrow> tz_fault + (int \<times> int)" where
  "month_loop [] mon idays = Inl OutOfBounds"
| "month_loop (len # ip) mon idays =
     (if idays \<ge> len then month_loop ip (mon + 1) (idays - len) else Inr (mon, idays))"

text \<open>\<open>seconds = tdays * SECSPERDAY + 0.5\<close>, a conversion from \<open>double\<close> that truncates.\<close>

definition plus_half_to_long :: "int \<Rightarrow> int" where
  "plus_half_to_long x = (if x \<ge> 0 then x else x + 1)"

text \<open>The fields from the year, the day of the year and the second of the day.\<close>

definition fill_tm :: "int \<Rightarrow> int \<Rightarrow> int \<Rightarrow> int \<Rightarrow> tz_fault + tm" where
  "fill_tm y idays r hit =
     (let (year, overflow) = increment_overflow y (- TM_YEAR_BASE) in
      if overflow then Inl NullResult
      else
        let wday0 = cmod (EPOCH_WDAY + cmod (y - EPOCH_YEAR) DAYSPERWEEK * cmod DAYSPERNYEAR DAYSPERWEEK
               + leaps_thru_end_of (y - 1) - leaps_thru_end_of (EPOCH_YEAR - 1) + idays) DAYSPERWEEK;
            r' = cmod r SECSPERHOUR
        in case month_loop (mon_lengths (isleap y)) 0 idays of
             Inl e \<Rightarrow> Inl e
           | Inr (mon, mday0) \<Rightarrow>
               Inr \<lparr> tm_sec = cmod r' SECSPERMIN + hit, tm_min = cdiv r' SECSPERMIN,
                     tm_hour = cdiv r SECSPERHOUR, tm_mday = mday0 + 1, tm_mon = mon,
                     tm_year = year,
                     tm_wday = (if wday0 < 0 then wday0 + DAYSPERWEEK else wday0),
                     tm_yday = idays, tm_isdst = 0 \<rparr>)"

text \<open>\<open>timesub\<close>; the outer \<open>None\<close> would be a year loop that does not end.\<close>

definition timesub :: "int \<Rightarrow> int \<Rightarrow> tzstate \<Rightarrow> (tz_fault + tm) option" where
  "timesub t offset sp =
     (case leap_scan (lsis sp) (nat (leapcnt sp)) t of
        Inl e \<Rightarrow> Some (Inl e)
      | Inr (corr, hit) \<Rightarrow>
          let tdays0 = cdiv t SECSPERDAY;
              rem0 = t - tdays0 * SECSPERDAY
          in case year_loop EPOCH_YEAR tdays0 of
               None \<Rightarrow> None
             | Some (Inl e) \<Rightarrow> Some (Inl e)
             | Some (Inr (y, tdays)) \<Rightarrow>
                 let seconds = plus_half_to_long (tdays * SECSPERDAY);
                     tdays' = cdiv seconds SECSPERDAY;
                     rem1 = rem0 + (seconds - tdays' * SECSPERDAY);
                     rem2 = s32 (rem1 + s32 (offset - corr));
                     (rem3, idays1) = rem_up rem2 tdays';
                     (rem4, idays2) = rem_down rem3 idays1
                 in Some (case days_up y idays2 of
                      Inl e \<Rightarrow> Inl e
                    | Inr (y1, idays3) \<Rightarrow>
                        (case days_down y1 idays3 of
                           Inl e \<Rightarrow> Inl e
                         | Inr (y2, idays4) \<Rightarrow> fill_tm y2 idays4 rem4 hit)))"

subsection \<open>The civil calendar\<close>

text \<open>The number of days from the Epoch to January 1 of a year, and the specification of a
  broken-down time: the second it denotes.\<close>

definition leaps_floor :: "int \<Rightarrow> int" where
  "leaps_floor y = y div 4 - y div 100 + y div 400"

definition days_before_year :: "int \<Rightarrow> int" where
  "days_before_year y = 365 * (y - 1970) + leaps_floor (y - 1) - leaps_floor 1969"

definition days_before_month :: "bool \<Rightarrow> int \<Rightarrow> int" where
  "days_before_month leap mon = sum_list (take (nat mon) (mon_lengths leap))"

definition tm_day :: "tm \<Rightarrow> int" where
  "tm_day tm = (let y = tm_year tm + TM_YEAR_BASE in
     days_before_year y + days_before_month (isleap y) (tm_mon tm) + tm_mday tm - 1)"

definition tm_seconds :: "tm \<Rightarrow> int" where
  "tm_seconds tm = tm_day tm * 86400 + tm_hour tm * 3600 + tm_min tm * 60 + tm_sec tm"

definition tm_valid :: "tm \<Rightarrow> bool" where
  "tm_valid tm \<longleftrightarrow> (let leap = isleap (tm_year tm + TM_YEAR_BASE) in
     0 \<le> tm_mon tm \<and> tm_mon tm < 12 \<and>
     1 \<le> tm_mday tm \<and> tm_mday tm \<le> mon_lengths leap ! nat (tm_mon tm) \<and>
     0 \<le> tm_hour tm \<and> tm_hour tm < 24 \<and> 0 \<le> tm_min tm \<and> tm_min tm < 60 \<and>
     0 \<le> tm_sec tm \<and> tm_sec tm < 60 \<and>
     tm_yday tm = days_before_month leap (tm_mon tm) + tm_mday tm - 1 \<and>
     tm_wday tm = (4 + tm_day tm) mod 7)"

lemma isleap_iff: "isleap y \<longleftrightarrow> y mod 4 = 0 \<and> (y mod 100 \<noteq> 0 \<or> y mod 400 = 0)"
  by (simp add: isleap_def cmod_eq_0_iff)

lemma leap_rule_arith:
  fixes a b c :: int
  assumes "p400 \<Longrightarrow> p100" and "p100 \<Longrightarrow> p4"
  shows "(a + (if p4 then 1 else 0)) - (b + (if p100 then 1 else 0)) + (c + (if p400 then 1 else 0))
      = a - b + c + (if p4 \<and> (\<not> p100 \<or> p400) then 1 else 0)"
  using assms by auto

lemma leaps_floor_step: "leaps_floor y = leaps_floor (y - 1) + (if isleap y then 1 else 0)"
  unfolding leaps_floor_def isleap_iff div_pred [of 4 y, OF zero_less_numeral]
    div_pred [of 100 y, OF zero_less_numeral] div_pred [of 400 y, OF zero_less_numeral]
proof (rule leap_rule_arith)
  show "y mod 400 = 0 \<Longrightarrow> y mod 100 = 0"
    unfolding mod_eq_0_iff_dvd by (rule dvd_trans [of 100 400 y]) simp_all
  show "y mod 100 = 0 \<Longrightarrow> y mod 4 = 0"
    unfolding mod_eq_0_iff_dvd by (rule dvd_trans [of 4 100 y]) simp_all
qed

lemma leaps_thru_floor: "leaps_thru_end_of y = leaps_floor y"
proof (cases "0 \<le> y")
  case True
  then show ?thesis by (subst leaps_thru_end_of.simps) (simp add: leaps_floor_def)
next
  case False
  then have "leaps_thru_end_of y = - (leaps_floor (- (y + 1)) + 1)"
    by (subst leaps_thru_end_of.simps, subst leaps_thru_end_of.simps) (simp add: leaps_floor_def)
  also have "- (y + 1) = - 1 - y" by simp
  also have "- (leaps_floor (- 1 - y) + 1) = leaps_floor y"
    by (simp add: leaps_floor_def div_complement)
  finally show ?thesis .
qed

lemma year_lengths_bounds: "365 \<le> year_lengths b" "year_lengths b \<le> 366"
  by (simp_all add: year_lengths_def)

lemma days_before_year_Suc: "days_before_year (y + 1) = days_before_year y + year_lengths (isleap y)"
  using leaps_floor_step [of y] by (simp add: days_before_year_def year_lengths_def algebra_simps)

lemma days_before_year_pred: "days_before_year (y - 1) = days_before_year y - year_lengths (isleap (y - 1))"
  using days_before_year_Suc [of "y - 1"] by simp

lemma days_before_year_span:
  "365 * int n \<le> days_before_year (y + int n) - days_before_year y \<and>
   days_before_year (y + int n) - days_before_year y \<le> 366 * int n"
proof (induction n)
  case (Suc n)
  have "days_before_year (y + int (Suc n)) =
      days_before_year (y + int n) + year_lengths (isleap (y + int n))"
    using days_before_year_Suc [of "y + int n"] by (simp add: ac_simps)
  then show ?case using Suc year_lengths_bounds [of "isleap (y + int n)"] by simp
qed simp

lemma days_before_year_le:
  assumes "x \<le> y"
  shows "365 * (y - x) \<le> days_before_year y - days_before_year x"
    and "days_before_year y - days_before_year x \<le> 366 * (y - x)"
  using days_before_year_span [of "nat (y - x)" x] assms by simp_all

lemma days_before_year_epoch [simp]: "days_before_year 1970 = 0"
  by (simp add: days_before_year_def leaps_floor_def)

lemma days_before_year_small:
  assumes "\<bar>days_before_year y\<bar> \<le> 365 * k"
  shows "\<bar>y - 1970\<bar> \<le> k"
proof (cases "1970 \<le> y")
  case True
  then show ?thesis using days_before_year_le [OF True] assms by simp
next
  case False
  then show ?thesis using days_before_year_le [of y 1970] assms by simp
qed

lemma mon_lengths_sum: "sum_list (mon_lengths leap) = year_lengths leap"
  by (simp add: mon_lengths_def year_lengths_def)

lemma mon_lengths_facts:
  "length (mon_lengths leap) = 12" "\<forall>x \<in> set (mon_lengths leap). 28 \<le> x \<and> x \<le> 31"
  by (auto simp: mon_lengths_def)

subsection \<open>The increments\<close>

lemma increment_overflow_eq:
  assumes "in_s32 n" and "in_s32 d"
  shows "increment_overflow n d = (s32 (n + d), \<not> in_s32 (n + d))"
proof -
  consider "in_s32 (n + d)" | "INT_MAX < n + d" | "n + d < INT_MIN"
    unfolding in_s32_def by linarith
  then show ?thesis
  proof cases
    case 1
    then show ?thesis by (simp add: increment_overflow_def s32_id Let_def)
  next
    case 2
    then have "s32 (n + d) = n + d - 4294967296"
      using assms unfolding in_s32_def INT_MIN_def INT_MAX_def by (intro s32_high) auto
    then show ?thesis using 2 assms
      by (auto simp: increment_overflow_def Let_def in_s32_def INT_MIN_def INT_MAX_def)
  next
    case 3
    then have "s32 (n + d) = n + d + 4294967296"
      using assms unfolding in_s32_def INT_MIN_def INT_MAX_def by (intro s32_low) auto
    then show ?thesis using 3 assms
      by (auto simp: increment_overflow_def Let_def in_s32_def INT_MIN_def INT_MAX_def)
  qed
qed

lemma increment_in_range:
  "in_s32 n \<Longrightarrow> in_s32 d \<Longrightarrow> in_s32 (n + d) \<Longrightarrow> increment_overflow n d = (n + d, False)"
  by (simp add: increment_overflow_eq s32_id)

lemma long_increment_overflow_eq: "long_increment_overflow = increment_overflow"
  by (intro ext) (simp add: increment_overflow_def long_increment_overflow_def)

lemma long_normalize_overflow_eq: "long_normalize_overflow = normalize_overflow"
  by (intro ext)
    (simp add: normalize_overflow_def long_normalize_overflow_def long_increment_overflow_eq)

lemma floor_tensdelta:
  assumes "0 < base"
  shows "(if units \<ge> 0 then cdiv units base else -1 - cdiv (-1 - units) base) = units div base"
  using assms div_complement [of base units] by simp

lemma normalize_overflow_eq:
  assumes "0 < base" and "base \<le> INT_MAX" and "in_s32 tens" and "in_s32 units"
  shows "normalize_overflow tens units base =
     (s32 (tens + units div base), units mod base, \<not> in_s32 (tens + units div base))"
proof -
  have q: "in_s32 (units div base)"
    using div_between [OF assms(1), of units] assms(4)
    by (cases "0 \<le> units") (auto simp: in_s32_def INT_MIN_def INT_MAX_def)
  have "in_s32 (units mod base)"
    using assms(1,2) pos_mod_bound [of base units] pos_mod_sign [of base units]
    unfolding in_s32_def INT_MIN_def by linarith
  then have "s32 (units - s32 (units div base * base)) = units mod base"
    by (simp add: s32_s32_diff minus_div_mult_eq_mod s32_id)
  then show ?thesis
    using increment_overflow_eq [OF assms(3) q] floor_tensdelta [OF assms(1), of units]
    by (simp add: normalize_overflow_def Let_def)
qed

subsection \<open>The loops of timesub\<close>

text \<open>One round of the year loop, when the years stay near the Epoch.\<close>

lemma year_loop_step:
  assumes cond: "tdays < 0 \<or> tdays \<ge> year_lengths (isleap y)"
    and y: "\<bar>y\<bar> \<le> 1000000" and d: "\<bar>tdays\<bar> \<le> 1000000"
    and i: "i = (let q = cdiv tdays 366 in if q = 0 then (if tdays < 0 then -1 else 1) else q)"
  shows "year_loop y tdays = year_loop (y + i) (tdays - (days_before_year (y + i) - days_before_year y))"
proof -
  have "\<bar>cdiv tdays 366\<bar> \<le> \<bar>tdays\<bar>"
    using div_between(1) [of 366 "\<bar>tdays\<bar>"] by (cases "0 \<le> tdays") (simp_all add: cdiv_neg)
  then have i': "\<bar>i\<bar> \<le> 1000001" using i d by (auto simp: Let_def split: if_splits)
  have "increment_overflow y i = (y + i, False)"
    using y i' by (intro increment_in_range in_s32I) auto
  moreover have "tdays - (y + i - y) * 365 - (leaps_thru_end_of (y + i - 1) - leaps_thru_end_of (y - 1)) =
      tdays - (days_before_year (y + i) - days_before_year y)"
    unfolding leaps_thru_floor days_before_year_def by (simp add: algebra_simps)
  moreover have "year_loop y tdays = (case increment_overflow y i of (newy, overflow) \<Rightarrow>
      if overflow then Some (Inl NullResult)
      else year_loop newy (tdays - (newy - y) * 365 -
             (leaps_thru_end_of (newy - 1) - leaps_thru_end_of (y - 1))))"
    by (subst year_loop.simps)
      (simp only: cond if_True Let_def i DAYSPERLYEAR_def DAYSPERNYEAR_def)
  ultimately show ?thesis by (simp only: prod.case if_False)
qed

lemma year_loop_correct:
  assumes "\<bar>tdays\<bar> \<le> 500000" and "\<bar>days_before_year y + tdays\<bar> \<le> 500000"
  shows "\<exists>y' d. year_loop y tdays = Some (Inr (y', d)) \<and>
           days_before_year y' + d = days_before_year y + tdays \<and>
           0 \<le> d \<and> d < year_lengths (isleap y') \<and> \<bar>y' - 1970\<bar> \<le> 3000"
  using assms
proof (induction "if tdays < 0 \<or> tdays \<ge> year_lengths (isleap y) then nat \<bar>tdays\<bar> + 1 else 0"
    arbitrary: y tdays rule: less_induct)
  case less
  have "\<bar>days_before_year y\<bar> \<le> 365 * 3000" using less.prems by linarith
  then have y: "\<bar>y - 1970\<bar> \<le> 3000" by (rule days_before_year_small)
  show ?case
  proof (cases "tdays < 0 \<or> tdays \<ge> year_lengths (isleap y)")
    case False
    then have "year_loop y tdays = Some (Inr (y, tdays))" by (subst year_loop.simps) simp
    then show ?thesis using False y by auto
  next
    case True
    define i where "i = (let q = cdiv tdays 366 in if q = 0 then (if tdays < 0 then -1 else 1) else q)"
    define d where "d = tdays - (days_before_year (y + i) - days_before_year y)"
    have step: "year_loop y tdays = year_loop (y + i) d"
      unfolding d_def using y less.prems by (intro year_loop_step [OF True _ _ i_def]) auto
    have d: "(0 \<le> tdays \<and> 0 \<le> d \<and> d < tdays) \<or>
        (tdays < 0 \<and> tdays < d \<and> (d \<le> 0 \<or> d < year_lengths (isleap (y + i))))"
    proof (cases "0 \<le> tdays")
      case pos: True
      show ?thesis
      proof (cases "tdays < 366")
        case True
        with pos \<open>tdays < 0 \<or> _\<close> have "i = 1" "tdays = 365" "year_lengths (isleap y) = 365"
          by (auto simp: i_def year_lengths_def split: if_splits)
        then show ?thesis using days_before_year_Suc [of y] by (simp add: d_def)
      next
        case False
        then have i: "i = tdays div 366" "1 \<le> i" using pos by (auto simp: i_def Let_def)
        then have "366 * i \<le> tdays" by simp
        then show ?thesis using days_before_year_le [of y "y + i"] i pos by (simp add: d_def)
      qed
    next
      case neg: False
      show ?thesis
      proof (cases "- 366 < tdays")
        case True
        with neg have "i = - 1" by (simp add: i_def cdiv_neg Let_def)
        then show ?thesis
          using neg days_before_year_pred [of y] year_lengths_bounds [of "isleap (y - 1)"]
          by (simp add: d_def)
      next
        case False
        then have i: "i = - ((- tdays) div 366)" "i \<le> - 1" using neg by (auto simp: i_def cdiv_neg Let_def)
        then have "366 * (- i) \<le> - tdays" by simp
        then show ?thesis using days_before_year_le [of "y + i" y] i neg by (simp add: d_def)
      qed
    qed
    have sum: "days_before_year (y + i) + d = days_before_year y + tdays" by (simp add: d_def)
    have small: "\<bar>d\<bar> \<le> 500000"
      using d less.prems year_lengths_bounds [of "isleap (y + i)"] by linarith
    have meas: "(if d < 0 \<or> d \<ge> year_lengths (isleap (y + i)) then nat \<bar>d\<bar> + 1 else 0) <
        (if tdays < 0 \<or> tdays \<ge> year_lengths (isleap y) then nat \<bar>tdays\<bar> + 1 else 0)"
      using d True year_lengths_bounds [of "isleap (y + i)"] by auto
    from less.hyps [OF meas small] sum less.prems show ?thesis unfolding step by simp
  qed
qed

lemma rem_up_eq: "r < 0 \<Longrightarrow> rem_up r d = (r mod 86400, d + r div 86400)"
proof (induction r d rule: rem_up.induct)
  case (1 r d)
  show ?case
  proof (cases "r + 86400 < 0")
    case True
    then show ?thesis using 1 by (subst rem_up.simps) simp
  next
    case False
    have "r div 86400 = - 1" using False "1.prems" by (intro int_div_pos_eq [of _ _ _ "r + 86400"]) auto
    moreover have "r mod 86400 = r + 86400" using calculation minus_mult_div_eq_mod [of r 86400] by simp
    ultimately show ?thesis using "1.prems" False
      by (subst rem_up.simps) (simp add: rem_up.simps [of "r + 86400"])
  qed
qed

lemma rem_down_eq: "0 \<le> r \<Longrightarrow> rem_down r d = (r mod 86400, d + r div 86400)"
proof (induction r d rule: rem_down.induct)
  case (1 r d)
  show ?case
  proof (cases "r \<ge> 86400")
    case True
    have "rem_down r d = rem_down (r - 86400) (d + 1)"
      using True by (subst rem_down.simps) simp
    also have "\<dots> = ((r - 86400) mod 86400, d + 1 + (r - 86400) div 86400)"
      using 1 True by simp
    also have "\<dots> = (r mod 86400, d + r div 86400)"
      using div_add_self2 [of 86400 "r - 86400"] by simp
    finally show ?thesis .
  next
    case False
    then show ?thesis using "1.prems" by (subst rem_down.simps) simp
  qed
qed

lemma rem_normalise:
  "(let (r1, d1) = rem_up r d in rem_down r1 d1) = (r mod 86400, d + r div 86400)"
proof (cases "r < 0")
  case True
  then show ?thesis by (simp add: rem_up_eq rem_down_eq)
next
  case False
  then have "rem_up r d = (r, d)" by (simp add: rem_up.simps)
  then show ?thesis using False by (simp add: rem_down_eq)
qed

lemma days_up_correct:
  assumes "\<bar>y\<bar> \<le> 1000000 - k" and "- k \<le> idays" and "0 \<le> k"
  shows "\<exists>y' d. days_up y idays = Inr (y', d) \<and> days_before_year y' + d = days_before_year y + idays \<and>
     0 \<le> d \<and> \<bar>y'\<bar> \<le> 1000000 \<and> (idays \<ge> 0 \<longrightarrow> y' = y \<and> d = idays) \<and>
     (idays < 0 \<longrightarrow> d < year_lengths (isleap y'))"
  using assms
proof (induction y idays arbitrary: k rule: days_up.induct)
  case (1 y idays)
  show ?case
  proof (cases "idays < 0")
    case False
    then show ?thesis using "1.prems" by (simp add: days_up.simps)
  next
    case True
    have inc: "increment_overflow y (- 1) = (y - 1, False)"
      using increment_in_range [of y "- 1"] "1.prems" by (simp add: in_s32I)
    let ?L = "year_lengths (isleap (y - 1))"
    have step: "days_up y idays = days_up (y - 1) (idays + ?L)"
      using True by (subst days_up.simps) (simp add: inc)
    have k: "1 \<le> k" using True "1.prems" by linarith
    have "\<exists>y' d. days_up (y - 1) (idays + ?L) = Inr (y', d) \<and>
        days_before_year y' + d = days_before_year (y - 1) + (idays + ?L) \<and> 0 \<le> d \<and>
        \<bar>y'\<bar> \<le> 1000000 \<and> (idays + ?L \<ge> 0 \<longrightarrow> y' = y - 1 \<and> d = idays + ?L) \<and>
        (idays + ?L < 0 \<longrightarrow> d < year_lengths (isleap y'))"
      using "1.prems" k True year_lengths_bounds [of "isleap (y - 1)"]
      by (intro "1.IH" [OF True inc [symmetric] refl _, of "k - 1"]) auto
    then show ?thesis unfolding step days_before_year_pred using True
      by (metis add.commute add_diff_cancel_right' add_less_same_cancel1 diff_add_eq linorder_not_less)
  qed
qed

lemma days_down_correct:
  assumes "\<bar>y\<bar> \<le> 1000000" and "0 \<le> idays" and "idays \<le> 1000000"
  shows "\<exists>y' d. days_down y idays = Inr (y', d) \<and> days_before_year y' + d = days_before_year y + idays \<and>
     0 \<le> d \<and> d < year_lengths (isleap y') \<and> \<bar>y'\<bar> \<le> 2000000"
proof -
  have "\<exists>y' d. days_down y idays = Inr (y', d) \<and> days_before_year y' + d = days_before_year y + idays \<and>
     0 \<le> d \<and> d < year_lengths (isleap y') \<and> \<bar>y'\<bar> \<le> 2000000"
    if "0 \<le> idays" "\<bar>y\<bar> + idays \<le> 2000000" for y idays
    using that
  proof (induction y idays rule: days_down.induct)
    case (1 y idays)
    show ?case
    proof (cases "idays \<ge> year_lengths (isleap y)")
      case False
      then show ?thesis using "1.prems" by (simp add: days_down.simps)
    next
      case True
      have inc: "increment_overflow y 1 = (y + 1, False)"
        using increment_in_range [of y 1] "1.prems" by (simp add: in_s32I)
      have "days_down y idays = days_down (y + 1) (idays - year_lengths (isleap y))"
        using True by (subst days_down.simps) (simp add: inc)
      moreover note "1.IH" [OF True inc [symmetric] refl]
      moreover have "\<bar>y + 1\<bar> + (idays - year_lengths (isleap y)) \<le> 2000000"
        using "1.prems" year_lengths_bounds [of "isleap y"] by linarith
      ultimately show ?thesis using True days_before_year_Suc [of y] by auto
    qed
  qed
  then show ?thesis using assms by auto
qed

lemma month_loop_correct:
  assumes "0 \<le> idays" and "idays < sum_list ip" and "\<forall>x \<in> set ip. 0 < x"
  shows "\<exists>k d. month_loop ip mon idays = Inr (mon + int k, d) \<and> k < length ip \<and> 0 \<le> d \<and> d < ip ! k \<and>
           idays = sum_list (take k ip) + d"
  using assms
proof (induction ip arbitrary: mon idays)
  case (Cons a ip)
  show ?case
  proof (cases "idays \<ge> a")
    case True
    then obtain k d where "month_loop ip (mon + 1) (idays - a) = Inr (mon + 1 + int k, d)"
      "k < length ip" "0 \<le> d" "d < ip ! k" "idays - a = sum_list (take k ip) + d"
      using Cons.IH [of "idays - a" "mon + 1"] Cons.prems by auto
    then show ?thesis using True by (intro exI [of _ "Suc k"] exI [of _ d]) simp
  next
    case False
    then show ?thesis using Cons.prems by (intro exI [of _ 0] exI [of _ idays]) simp
  qed
qed simp

lemma wday_mod:
  assumes w: "w = cmod x 7"
  shows "(if w < 0 then w + 7 else w) = x mod 7"
proof (cases "0 \<le> x")
  case False
  then have "w = - ((- x) mod 7)" using w by (simp add: cmod_neg)
  moreover have "x mod 7 = (if (- x) mod 7 = 0 then 0 else 7 - (- x) mod 7)"
    using zmod_zminus1_eq_if [of "- x" 7] by simp
  ultimately show ?thesis by auto
qed (simp add: w)

lemma wday_day:
  "(4 + cmod (y - 1970) 7 * 1 + leaps_floor (y - 1) - leaps_floor 1969 + idays) mod 7 =
   (4 + (days_before_year y + idays)) mod 7"
proof -
  have "cmod (y - 1970) 7 = y - 1970 - 7 * cdiv (y - 1970) 7" by (simp add: cmod_def)
  then have "4 + cmod (y - 1970) 7 * 1 + leaps_floor (y - 1) - leaps_floor 1969 + idays =
      4 + (days_before_year y + idays) + 7 * (- cdiv (y - 1970) 7 - 52 * (y - 1970))"
    by (simp add: days_before_year_def algebra_simps)
  then show ?thesis by (simp only: mod_mult_self2)
qed

lemma fill_tm_correct:
  assumes y: "\<bar>y\<bar> \<le> 2000000" and d: "0 \<le> idays" "idays < year_lengths (isleap y)"
    and r: "0 \<le> r" "r < 86400"
  shows "\<exists>tm. fill_tm y idays r hit = Inr tm \<and> tm_year tm = y - 1900 \<and> tm_yday tm = idays \<and>
     tm_isdst tm = 0 \<and> tm_valid (tm\<lparr> tm_sec := tm_sec tm - hit \<rparr>) \<and>
     tm_seconds tm = (days_before_year y + idays) * 86400 + r + hit"
proof -
  have inc: "increment_overflow y (- 1900) = (y - 1900, False)"
    using increment_in_range [of y "- 1900"] y by (simp add: in_s32I)
  obtain k e where m: "month_loop (mon_lengths (isleap y)) 0 idays = Inr (int k, e)" "k < 12"
      "0 \<le> e" "e < mon_lengths (isleap y) ! k" "idays = sum_list (take k (mon_lengths (isleap y))) + e"
    using month_loop_correct [of idays "mon_lengths (isleap y)" 0] d mon_lengths_sum [of "isleap y"]
      mon_lengths_facts [of "isleap y"] by fastforce
  define w where "w = cmod (4 + cmod (y - 1970) 7 * 1 + leaps_floor (y - 1) - leaps_floor 1969 + idays) 7"
  define tm where "tm = \<lparr> tm_sec = (r mod 3600) mod 60 + hit, tm_min = (r mod 3600) div 60,
      tm_hour = r div 3600, tm_mday = e + 1, tm_mon = int k, tm_year = y - 1900,
      tm_wday = (if w < 0 then w + 7 else w), tm_yday = idays, tm_isdst = 0 \<rparr>"
  have fill: "fill_tm y idays r hit = Inr tm"
    using r by (simp add: fill_tm_def inc m(1) leaps_thru_floor tm_def w_def Let_def)
  have day: "tm_day tm = days_before_year y + idays"
    using m by (simp add: tm_day_def tm_def days_before_month_def)
  have wd: "tm_wday tm = (4 + tm_day tm) mod 7"
    unfolding day using wday_mod [OF w_def] wday_day [of y idays] by (simp add: tm_def)
  have hms: "r div 3600 * 3600 + (r mod 3600) div 60 * 60 + (r mod 3600) mod 60 = r"
    using mult_div_mod_eq [of 3600 r] mult_div_mod_eq [of 60 "r mod 3600"] by simp
  have "0 \<le> r div 3600" "r div 3600 < 24" "0 \<le> (r mod 3600) div 60" "(r mod 3600) div 60 < 60"
    using r by (auto simp: div_less_iff_less_mult pos_imp_zdiv_nonneg_iff)
  then have "tm_valid (tm\<lparr> tm_sec := tm_sec tm - hit \<rparr>)"
    using m r wd unfolding tm_valid_def
    by (simp add: tm_def Let_def days_before_month_def tm_day_def)
  moreover have "tm_seconds tm = (days_before_year y + idays) * 86400 + r + hit"
    using hms unfolding tm_seconds_def day by (simp add: tm_def)
  ultimately show ?thesis using fill by (intro exI [of _ tm]) (simp add: tm_def)
qed

lemma timesub_total:
  assumes t: "in_s32 t" and ls: "leap_scan (lsis sp) (nat (leapcnt sp)) t = Inr (corr, hit)"
    and off: "\<bar>offset - corr\<bar> \<le> 2147397247"
  shows "\<exists>tm. timesub t offset sp = Some (Inr tm) \<and> tm_isdst tm = 0 \<and>
     tm_valid (tm\<lparr> tm_sec := tm_sec tm - hit \<rparr>) \<and> tm_seconds tm = t + offset - corr + hit \<and>
     \<bar>tm_year tm\<bar> \<le> 2000000 + 1900"
proof -
  let ?d0 = "cdiv t 86400" and ?r0 = "t - cdiv t 86400 * 86400"
  have d0: "\<bar>?d0\<bar> \<le> 24856" and r0: "\<bar>?r0\<bar> < 86400"
  proof -
    have c: "?r0 = cmod t 86400" by (simp add: cmod_def)
    show "\<bar>?d0\<bar> \<le> 24856" "\<bar>?r0\<bar> < 86400"
      unfolding c using in_s32D [OF t] by (cases "0 \<le> t"; simp add: cdiv_neg cmod_neg)+
  qed
  obtain y d where yl: "year_loop 1970 ?d0 = Some (Inr (y, d))" "days_before_year y + d = ?d0"
    "0 \<le> d" "d < year_lengths (isleap y)" "\<bar>y - 1970\<bar> \<le> 3000"
    using year_loop_correct [of ?d0 1970] d0 by auto
  define r where "r = ?r0 + (offset - corr)"
  have "in_s32 (offset - corr)" "in_s32 r"
    using off r0 unfolding r_def by (auto intro!: in_s32I)
  then have wrap: "s32 (?r0 + s32 (offset - corr)) = r" by (simp add: s32_id r_def)
  have sec: "plus_half_to_long (d * 86400) = d * 86400" "cdiv (d * 86400) 86400 = d"
    using yl(3) by (simp_all add: plus_half_to_long_def)
  define i2 where "i2 = d + r div 86400"
  have nrm: "(let (r1, d1) = rem_up r d in rem_down r1 d1) = (r mod 86400, i2)"
    by (simp add: rem_normalise i2_def)
  have i2: "- 30000 \<le> i2" "i2 \<le> 30000"
  proof -
    have "- 24857 \<le> r div 86400" "r div 86400 \<le> 24856"
      using in_s32D [OF \<open>in_s32 r\<close>] by linarith+
    then show "- 30000 \<le> i2" "i2 \<le> 30000" using yl year_lengths_bounds [of "isleap y"]
      unfolding i2_def by linarith+
  qed
  obtain y1 d1 where up: "days_up y i2 = Inr (y1, d1)"
    "days_before_year y1 + d1 = days_before_year y + i2" "0 \<le> d1" "\<bar>y1\<bar> \<le> 1000000" "d1 \<le> 30000"
  proof -
    have "\<bar>y\<bar> \<le> 1000000 - 30000" using yl(5) by linarith
    from days_up_correct [OF this, of i2] i2 obtain y1 d1 where
      *: "days_up y i2 = Inr (y1, d1)" "days_before_year y1 + d1 = days_before_year y + i2"
        "0 \<le> d1" "\<bar>y1\<bar> \<le> 1000000" "i2 \<ge> 0 \<longrightarrow> d1 = i2" "i2 < 0 \<longrightarrow> d1 < year_lengths (isleap y1)"
      by auto
    have "d1 \<le> 30000" using *(5,6) i2 year_lengths_bounds(2) [of "isleap y1"] by linarith
    with * that show thesis by blast
  qed
  obtain y2 d2 where down: "days_down y1 d1 = Inr (y2, d2)"
    "days_before_year y2 + d2 = days_before_year y1 + d1" "0 \<le> d2" "d2 < year_lengths (isleap y2)"
    "\<bar>y2\<bar> \<le> 2000000"
    using days_down_correct [of y1 d1] up by auto
  obtain tm where tm: "fill_tm y2 d2 (r mod 86400) hit = Inr tm" "tm_year tm = y2 - 1900"
    "tm_isdst tm = 0" "tm_valid (tm\<lparr> tm_sec := tm_sec tm - hit \<rparr>)"
    "tm_seconds tm = (days_before_year y2 + d2) * 86400 + r mod 86400 + hit"
    using fill_tm_correct [OF down(5,3,4), of "r mod 86400" hit] by auto
  have "timesub t offset sp = Some (Inr tm)"
    using nrm tm(1) up(1) down(1)
    by (simp add: timesub_def ls yl(1) sec wrap Let_def case_prod_beta)
  moreover have "tm_seconds tm = t + offset - corr + hit"
  proof -
    have "(days_before_year y2 + d2) * 86400 + r mod 86400 = ?d0 * 86400 + (r div 86400) * 86400 + r mod 86400"
      using down(2) up(2) yl(2) unfolding i2_def by (simp add: algebra_simps)
    also have "\<dots> = ?d0 * 86400 + r" by simp
    finally show ?thesis using tm(5) by (simp add: r_def)
  qed
  ultimately show ?thesis using tm down by (intro exI [of _ tm]) auto
qed

subsection \<open>A time denotes one broken-down time\<close>

lemma year_unique:
  assumes "days_before_year y + d = days_before_year y' + d'"
    and "0 \<le> d" "d < year_lengths (isleap y)" and "0 \<le> d'" "d' < year_lengths (isleap y')"
  shows "y = y' \<and> d = d'"
proof -
  have *: "\<not> a < b" if "days_before_year a + e = days_before_year b + e'" "e < year_lengths (isleap a)"
    "0 \<le> e'" for a b e e'
  proof
    assume "a < b"
    then have "days_before_year (a + 1) \<le> days_before_year b"
      using days_before_year_le(1) [of "a + 1" b] by simp
    then show False using that days_before_year_Suc [of a] by simp
  qed
  have "y = y'" using * [of y d y' d'] * [of y' d' y d] assms by linarith
  then show ?thesis using assms by simp
qed

lemma sum_take_mono:
  assumes "i < j" "j \<le> length xs" "\<forall>x \<in> set xs. (0 :: int) \<le> x"
  shows "sum_list (take i xs) + xs ! i \<le> sum_list (take j xs)"
proof -
  have "take j xs = take (Suc i) xs @ drop (Suc i) (take j xs)"
    using assms(1) by (metis Suc_leI append_take_drop_id min.absorb1 take_take)
  moreover have "0 \<le> sum_list (drop (Suc i) (take j xs))"
    using assms(3) by (intro sum_list_nonneg) (auto dest: in_set_dropD in_set_takeD)
  moreover have "sum_list (take (Suc i) xs) = sum_list (take i xs) + xs ! i"
    using assms(1,2) by (simp add: take_Suc_conv_app_nth)
  ultimately show ?thesis by (metis add.commute add_increasing2 order_refl sum_list_append add_le_cancel_left)
qed

lemma month_unique:
  assumes "sum_list (take i xs) + d = sum_list (take j xs) + e" and "i < length xs" "j < length xs"
    and "0 \<le> d" "d < xs ! i" "0 \<le> e" "e < xs ! j" and nn: "\<forall>x \<in> set xs. (0 :: int) \<le> x"
  shows "i = j \<and> d = e"
proof -
  have "\<not> i < j" "\<not> j < i"
    using sum_take_mono [of i j xs] sum_take_mono [of j i xs] assms by fastforce+
  then show ?thesis using assms(1) by simp
qed

lemma tm_valid_yday:
  assumes "tm_valid tm"
  shows "tm_day tm = days_before_year (tm_year tm + 1900) + tm_yday tm"
    and "0 \<le> tm_yday tm" and "tm_yday tm < year_lengths (isleap (tm_year tm + 1900))"
proof -
  let ?ms = "mon_lengths (isleap (tm_year tm + 1900))"
  have nn: "\<forall>x \<in> set ?ms. 0 \<le> x" using mon_lengths_facts by force
  show "tm_day tm = days_before_year (tm_year tm + 1900) + tm_yday tm"
    using assms by (simp add: tm_valid_def tm_day_def Let_def)
  have "sum_list (take (nat (tm_mon tm)) ?ms) + ?ms ! nat (tm_mon tm) \<le> sum_list (take 12 ?ms)"
    using assms mon_lengths_facts(1) [of "isleap (tm_year tm + 1900)"] nn
    by (intro sum_take_mono) (auto simp: tm_valid_def Let_def)
  also have "sum_list (take 12 ?ms) = year_lengths (isleap (tm_year tm + 1900))"
    using mon_lengths_facts(1) mon_lengths_sum by simp
  finally show "tm_yday tm < year_lengths (isleap (tm_year tm + 1900))"
    using assms by (simp add: tm_valid_def Let_def days_before_month_def)
  have "0 \<le> sum_list (take (nat (tm_mon tm)) ?ms)"
    using nn by (intro sum_list_nonneg) (auto dest: in_set_takeD)
  then show "0 \<le> tm_yday tm"
    using assms by (simp add: tm_valid_def Let_def days_before_month_def)
qed

lemma tm_unique:
  assumes a: "tm_valid a" and b: "tm_valid b" and eq: "tm_seconds a = tm_seconds b"
    and dst: "tm_isdst a = tm_isdst b"
  shows "a = b"
proof -
  have sod: "0 \<le> tm_hour c * 3600 + tm_min c * 60 + tm_sec c"
    "tm_hour c * 3600 + tm_min c * 60 + tm_sec c < 86400" if "tm_valid c" for c
    using that by (auto simp: tm_valid_def Let_def)
  have day: "tm_day a = tm_day b"
    using eq sod [OF a] sod [OF b] unfolding tm_seconds_def by linarith
  then have s: "tm_hour a * 3600 + tm_min a * 60 + tm_sec a = tm_hour b * 3600 + tm_min b * 60 + tm_sec b"
    using eq unfolding tm_seconds_def by simp
  have rng: "0 \<le> tm_min c" "tm_min c < 60" "0 \<le> tm_sec c" "tm_sec c < 60" if "tm_valid c" for c
    using that unfolding tm_valid_def Let_def by auto
  have h: "tm_hour a = tm_hour b" using s rng [OF a] rng [OF b] by linarith
  have m: "tm_min a = tm_min b" using s h rng [OF a] rng [OF b] by linarith
  have hms: "tm_hour a = tm_hour b" "tm_min a = tm_min b" "tm_sec a = tm_sec b"
    using h m s by simp_all
  have y: "tm_year a = tm_year b" "tm_yday a = tm_yday b"
    using year_unique [of "tm_year a + 1900" "tm_yday a" "tm_year b + 1900" "tm_yday b"] day
      tm_valid_yday [OF a] tm_valid_yday [OF b] by auto
  have "nat (tm_mon a) = nat (tm_mon b) \<and> tm_mday a - 1 = tm_mday b - 1"
    using a b y mon_lengths_facts [of "isleap (tm_year a + 1900)"]
    by (intro month_unique [where xs = "mon_lengths (isleap (tm_year a + 1900))"])
      (auto simp: tm_valid_def Let_def days_before_month_def)
  then have "tm_mon a = tm_mon b" "tm_mday a = tm_mday b"
    using a b by (auto simp: tm_valid_def Let_def)
  moreover have "tm_wday a = tm_wday b" using a b day by (simp add: tm_valid_def Let_def)
  ultimately show ?thesis using hms y dst by simp
qed

subsection \<open>Properties of the calendar\<close>

text \<open>
  C5. \<open>timesub\<close> is exact without leap seconds: for every 32-bit time and every offset that
  keeps the second of the day in range, it returns (its loops end, it never gives NULL), and its
  result is the one valid Gregorian broken-down time, with its weekday and day of the year,
  whose seconds since the Epoch are the time plus the offset.
\<close>

theorem timesub_exact:
  assumes "in_s32 t" and "leapcnt sp = 0" and "\<bar>offset\<bar> \<le> 2147397247"
  shows "timesub t offset sp = Some (Inr tm) \<longleftrightarrow>
     tm_valid tm \<and> tm_isdst tm = 0 \<and> tm_seconds tm = t + offset"
proof -
  have ls: "leap_scan (lsis sp) (nat (leapcnt sp)) t = Inr (0, 0)" using assms(2) by simp
  obtain tm' where tm': "timesub t offset sp = Some (Inr tm')" "tm_isdst tm' = 0" "tm_valid tm'"
    "tm_seconds tm' = t + offset"
    using timesub_total [OF assms(1) ls, of offset] assms(3) by auto
  then show ?thesis using tm_unique [of tm tm'] by auto
qed

definition utc_state :: tzstate where
  "utc_state = \<lparr> leapcnt = 0, timecnt = 0, typecnt = 1, charcnt = 4, goback = False,
     goahead = False, ats = replicate TZ_MAX_TIMES 0, types = replicate TZ_MAX_TIMES 0,
     ttis = replicate TZ_MAX_TYPES \<lparr> tt_gmtoff = 0, tt_isdst = 0, tt_abbrind = 0,
              tt_ttisstd = 0, tt_ttisgmt = 0 \<rparr>,
     chars = ''UTC'' @ replicate 509 NUL, lsis = replicate TZ_MAX_LEAPS \<lparr> ls_trans = 0, ls_corr = 0 \<rparr> \<rparr>"

definition last_second_tm :: tm where
  "last_second_tm = \<lparr> tm_sec = 7, tm_min = 14, tm_hour = 3, tm_mday = 19, tm_mon = 0,
     tm_year = 138, tm_wday = 2, tm_yday = 18, tm_isdst = 0 \<rparr>"

theorem timesub_exact_witness: "timesub 2147483647 0 utc_state = Some (Inr last_second_tm)"
proof -
  have "tm_valid last_second_tm" "tm_seconds last_second_tm = 2147483647"
    by (simp_all add: tm_valid_def tm_seconds_def tm_day_def last_second_tm_def days_before_month_def
        days_before_year_def leaps_floor_def mon_lengths_def isleap_iff Let_def)
  then show ?thesis
    using timesub_exact [of 2147483647 utc_state 0 last_second_tm]
    by (simp add: utc_state_def last_second_tm_def in_s32I)
qed


text \<open>The specification of the leap-second table: the correction in force at a time, and whether
  the time is a second inserted by a positive leap second.\<close>

definition leap_corr :: "lsinfo list \<Rightarrow> int \<Rightarrow> int" where
  "leap_corr ls t =
     (case filter (\<lambda>l. ls_trans l \<le> t) ls of [] \<Rightarrow> 0 | l # r \<Rightarrow> ls_corr (last (l # r)))"

definition on_leap :: "lsinfo list \<Rightarrow> int \<Rightarrow> bool" where
  "on_leap ls t \<longleftrightarrow> (\<exists>i < length ls. ls_trans (ls ! i) = t \<and>
     ls_corr (ls ! i) > (if i = 0 then 0 else ls_corr (ls ! (i - 1))))"

definition leaps_ordered :: "lsinfo list \<Rightarrow> bool" where
  "leaps_ordered ls \<longleftrightarrow> sorted_wrt (\<lambda>a b. ls_trans a < ls_trans b) ls \<and>
     (ls \<noteq> [] \<longrightarrow> 0 < ls_corr (ls ! 0))"

lemma count_hits_pos: "hit \<le> count_hits ls i hit"
  by (induction ls i hit rule: count_hits.induct) (auto intro: order_trans)

lemma on_leap_snoc:
  assumes "leaps_ordered (xs @ [l])" and "t < ls_trans l"
  shows "on_leap (xs @ [l]) t \<longleftrightarrow> on_leap xs t"
  using assms(2) unfolding on_leap_def
  by (intro iffI; elim exE; rename_tac i; rule_tac x = i in exI)
    (auto simp: nth_append less_Suc_eq split: if_splits)

lemma on_leap_last:
  assumes "leaps_ordered (xs @ [l])" and "ls_trans l \<le> t"
  shows "on_leap (xs @ [l]) t \<longleftrightarrow>
     ls_trans l = t \<and> ls_corr l > (if xs = [] then 0 else ls_corr (last xs))"
proof
  assume "on_leap (xs @ [l]) t"
  then obtain i where i: "i < Suc (length xs)" "ls_trans ((xs @ [l]) ! i) = t"
    "ls_corr ((xs @ [l]) ! i) > (if i = 0 then 0 else ls_corr ((xs @ [l]) ! (i - 1)))"
    unfolding on_leap_def by auto
  have "\<not> i < length xs"
  proof
    assume "i < length xs"
    then have "ls_trans (xs ! i) < ls_trans l"
      using assms(1) by (auto simp: leaps_ordered_def sorted_wrt_append)
    then show False using \<open>i < length xs\<close> i(2) assms(2) by (simp add: nth_append)
  qed
  then have "i = length xs" using i(1) by simp
  then show "ls_trans l = t \<and> ls_corr l > (if xs = [] then 0 else ls_corr (last xs))"
    using i(2,3) by (auto simp: nth_append last_conv_nth split: if_splits)
next
  assume "ls_trans l = t \<and> ls_corr l > (if xs = [] then 0 else ls_corr (last xs))"
  then show "on_leap (xs @ [l]) t"
    unfolding on_leap_def
    by (intro exI [of _ "length xs"]) (auto simp: nth_append last_conv_nth)
qed

lemma leap_scan_spec:
  assumes "n \<le> length ls" and "leaps_ordered (take n ls)"
  shows "\<exists>hit. leap_scan ls n t = Inr (leap_corr (take n ls) t, hit) \<and> 0 \<le> hit \<and>
     (1 \<le> hit \<longleftrightarrow> on_leap (take n ls) t)"
  using assms
proof (induction n)
  case 0
  then show ?case by (simp add: leap_corr_def on_leap_def)
next
  case (Suc n)
  let ?xs = "take n ls" and ?l = "ls ! n"
  have snoc: "take (Suc n) ls = ?xs @ [?l]" using Suc.prems by (simp add: take_Suc_conv_app_nth)
  have ord: "leaps_ordered (?xs @ [?l])" using Suc.prems snoc by simp
  show ?case
  proof (cases "ls_trans ?l \<le> t")
    case False
    have "leaps_ordered ?xs"
      using ord by (cases ?xs) (auto simp: leaps_ordered_def sorted_wrt_append)
    then obtain hit where "leap_scan ls n t = Inr (leap_corr ?xs t, hit)" "0 \<le> hit"
      "1 \<le> hit \<longleftrightarrow> on_leap ?xs t"
      using Suc by auto
    moreover have "leap_corr (?xs @ [?l]) t = leap_corr ?xs t" using False by (simp add: leap_corr_def)
    ultimately show ?thesis
      using False on_leap_snoc [OF ord, of t] unfolding snoc by (auto simp: Let_def)
  next
    case True
    have corr: "leap_corr (?xs @ [?l]) t = ls_corr ?l"
      using True by (simp add: leap_corr_def split: list.split)
        (metis append_is_Nil_conv last_ConsR last_snoc list.distinct(1))
    have last: "n \<noteq> 0 \<Longrightarrow> ls_corr (last ?xs) = ls_corr (ls ! (n - 1))"
      using Suc.prems(1) by (subst last_conv_nth) (auto simp: min_def)
    have first: "n = 0 \<Longrightarrow> 0 < ls_corr ?l" using ord by (auto simp: leaps_ordered_def)
    have e: "?xs = [] \<longleftrightarrow> n = 0" using Suc.prems(1) by auto
    show ?thesis
      using True first last count_hits_pos [of 1 ls n] on_leap_last [OF ord True]
      unfolding snoc corr e by (auto simp: Let_def)
  qed
qed

text \<open>
  \<open>timesub\<close> with leap seconds: over a table of increasing transition times whose first
  correction is positive, it returns for every 32-bit time, reading only inside the table. The
  result is a valid Gregorian time for the time plus the offset minus the correction in force,
  with \<open>hit\<close> seconds added on top, and \<open>hit\<close> is nonzero exactly on an inserted leap second.
\<close>

theorem timesub_leap_seconds:
  assumes "in_s32 t" and "0 \<le> leapcnt sp" and "nat (leapcnt sp) \<le> length (lsis sp)"
    and "leaps_ordered (take (nat (leapcnt sp)) (lsis sp))"
    and "\<bar>offset - leap_corr (take (nat (leapcnt sp)) (lsis sp)) t\<bar> \<le> 2147397247"
  shows "\<exists>tm hit. timesub t offset sp = Some (Inr tm) \<and>
     tm_valid (tm\<lparr> tm_sec := tm_sec tm - hit \<rparr>) \<and>
     tm_seconds tm = t + offset - leap_corr (take (nat (leapcnt sp)) (lsis sp)) t + hit \<and>
     0 \<le> hit \<and> (1 \<le> hit \<longleftrightarrow> on_leap (take (nat (leapcnt sp)) (lsis sp)) t)"
  using leap_scan_spec [OF assms(3,4), of t] timesub_total [OF assms(1) _ assms(5)] by blast

definition leap_state :: tzstate where
  "leap_state = utc_state\<lparr> leapcnt := 2, lsis :=
     [\<lparr> ls_trans = 78796800, ls_corr = 1 \<rparr>, \<lparr> ls_trans = 94694401, ls_corr = 2 \<rparr>] \<rparr>"

theorem timesub_leap_seconds_witness:
  "\<exists>tm hit. timesub 94694401 0 leap_state = Some (Inr tm) \<and> 1 \<le> hit \<and>
     tm_valid (tm\<lparr> tm_sec := tm_sec tm - hit \<rparr>) \<and> tm_seconds tm = 94694399 + hit"
proof -
  have "leaps_ordered (take 2 (lsis leap_state))" "leap_corr (take 2 (lsis leap_state)) 94694401 = 2"
    by (simp_all add: leap_state_def leaps_ordered_def leap_corr_def)
  moreover have "on_leap (take 2 (lsis leap_state)) 94694401"
    unfolding on_leap_def by (intro exI [of _ 1]) (simp add: leap_state_def)
  moreover have "leapcnt leap_state = 2" "length (lsis leap_state) = 2"
    by (simp_all add: leap_state_def)
  ultimately show ?thesis
    using timesub_leap_seconds [of 94694401 leap_state 0] by (fastforce simp: in_s32I)
qed

text \<open>The guard that the ordered table makes true is needed: on the transition of a first leap
  second whose correction is not positive, the code reads \<open>lsis[-1]\<close>.\<close>

lemma timesub_reads_before_table:
  assumes "leapcnt sp = 1" and "ls_corr (lsis sp ! 0) \<le> 0" and "t = ls_trans (lsis sp ! 0)"
  shows "timesub t offset sp = Some (Inl OutOfBounds)"
  using assms by (simp add: timesub_def Let_def)

text \<open>
  \<open>normalize_overflow\<close> and \<open>long_normalize_overflow\<close> carry exactly: for every 32-bit pair
  and positive base, the units end in \<open>[0, base)\<close>, and either the result denotes the same
  quantity, or the function reports an overflow, which it does exactly when the carried tens do
  not fit in 32 bits.
\<close>

theorem normalize_overflow_exact:
  assumes "0 < base" and "base \<le> INT_MAX" and "in_s32 tens" and "in_s32 units"
    and "normalize_overflow tens units base = (tens', units', overflow)"
  shows "0 \<le> units' \<and> units' < base \<and>
     (overflow \<longleftrightarrow> \<not> in_s32 (tens + units div base)) \<and>
     (overflow \<or> tens' * base + units' = tens * base + units) \<and>
     long_normalize_overflow tens units base = (tens', units', overflow)"
proof -
  have "tens' = s32 (tens + units div base)" "units' = units mod base"
    "overflow \<longleftrightarrow> \<not> in_s32 (tens + units div base)"
    using normalize_overflow_eq [OF assms(1-4)] assms(5) by auto
  then show ?thesis
    using assms(1,5) by (auto simp: s32_id algebra_simps long_normalize_overflow_eq)
qed

theorem normalize_overflow_exact_witness:
  "normalize_overflow 5 (- 61) 60 = (3, 59, False) \<and> (3 :: int) * 60 + 59 = 5 * 60 + - 61 \<and>
   (\<exists>n u. normalize_overflow 2147483647 60 60 = (n, u, True) \<and> 0 \<le> u)"
proof -
  have 1: "normalize_overflow 5 (- 61) 60 = (3, 59, False)"
    by (simp add: normalize_overflow_eq in_s32_def INT_MIN_def INT_MAX_def s32_def)
  have 2: "normalize_overflow 2147483647 60 60 = (- 2147483648, 0, True)"
    by (simp add: normalize_overflow_eq in_s32_def INT_MIN_def INT_MAX_def s32_def)
  show ?thesis
    using 1 2 normalize_overflow_exact [OF _ _ _ _ 1] normalize_overflow_exact [OF _ _ _ _ 2]
    by (auto simp: in_s32_def INT_MIN_def INT_MAX_def)
qed

end
