(* ===== verification/Tz_Parse.thy ===== *)
theory Tz_Parse
  imports Tz_Calendar
begin

text \<open>
  The POSIX-style zone strings of \<open>libcutils/tztime.c\<close>: the scanners from \<open>getzname\<close> to \<open>getrule\<close>,
  \<open>transtime\<close>, which finds the moment a rule takes effect in a year, and \<open>tzparse\<close>, which fills
  a zone state. A pointer into the string is the rest of the string, and NULL is \<open>None\<close>. \<open>tzparse\<close>
  loads the default rules through \<open>tzload\<close>, which is an argument here: \<open>Tz_File\<close> supplies it.
\<close>

subsection \<open>Scanners\<close>

definition digit_value :: "char \<Rightarrow> int" where
  "digit_value c = int (of_char c :: nat) - 48"

definition is_digit :: "char \<Rightarrow> bool" where
  "is_digit c \<longleftrightarrow> 0 \<le> digit_value c \<and> digit_value c \<le> 9"

fun getzname :: "string \<Rightarrow> string" where
  "getzname [] = []"
| "getzname (c # strp) =
     (if \<not> is_digit c \<and> c \<noteq> CHR '','' \<and> c \<noteq> CHR ''-'' \<and> c \<noteq> CHR ''+'' then getzname strp
      else c # strp)"

fun getqzname :: "string \<Rightarrow> char \<Rightarrow> string" where
  "getqzname [] delim = []"
| "getqzname (c # strp) delim = (if c \<noteq> delim then getqzname strp delim else c # strp)"

text \<open>The \<open>do\<close> loop of \<open>getnum\<close>, entered on a digit.\<close>

fun num_loop :: "string \<Rightarrow> int \<Rightarrow> int \<Rightarrow> (int \<times> string) option" where
  "num_loop [] num mx = Some (num, [])"
| "num_loop (c # strp) num mx =
     (if is_digit c then
        let num' = num * 10 + digit_value c
        in if num' > mx then None else num_loop strp num' mx
      else Some (num, c # strp))"

definition getnum :: "string option \<Rightarrow> int \<Rightarrow> int \<Rightarrow> (int \<times> string) option" where
  "getnum strp mn mx =
     (case strp of
        None \<Rightarrow> None
      | Some s \<Rightarrow>
          if \<not> is_digit (chr_at s) then None
          else (case num_loop s 0 mx of
                  None \<Rightarrow> None
                | Some (num, s') \<Rightarrow> if num < mn then None else Some (num, s')))"

definition getsecs :: "string \<Rightarrow> (int \<times> string) option" where
  "getsecs strp =
     (case getnum (Some strp) 0 (HOURSPERDAY * DAYSPERWEEK - 1) of
        None \<Rightarrow> None
      | Some (h, s1) \<Rightarrow>
          let secs = h * SECSPERHOUR in
          if chr_at s1 \<noteq> CHR '':'' then Some (secs, s1)
          else
            (case getnum (Some (tl s1)) 0 (MINSPERHOUR - 1) of
               None \<Rightarrow> None
             | Some (m, s2) \<Rightarrow>
                 let secs = secs + m * SECSPERMIN in
                 if chr_at s2 \<noteq> CHR '':'' then Some (secs, s2)
                 else
                   (case getnum (Some (tl s2)) 0 SECSPERMIN of
                      None \<Rightarrow> None
                    | Some (n, s3) \<Rightarrow> Some (secs + n, s3))))"

definition getoffset :: "string \<Rightarrow> (int \<times> string) option" where
  "getoffset strp =
     (let neg = chr_at strp = CHR ''-'';
          s = (if neg then tl strp else if chr_at strp = CHR ''+'' then tl strp else strp)
      in case getsecs s of
           None \<Rightarrow> None
         | Some (secs, s') \<Rightarrow> Some (if neg then - secs else secs, s'))"

datatype rule_type = JULIAN_DAY | DAY_OF_YEAR | MONTH_NTH_DAY_OF_WEEK

record rule =
  r_type :: rule_type
  r_day :: int
  r_week :: int
  r_mon :: int
  r_time :: int

text \<open>The date part of a rule, and the rule with its optional time; the fields that a rule does
  not set keep the values of \<open>rulep\<close>.\<close>

definition getrule_date :: "string \<Rightarrow> rule \<Rightarrow> (rule \<times> string) option" where
  "getrule_date strp rulep =
     (if chr_at strp = CHR ''J'' then
        (case getnum (Some (tl strp)) 1 DAYSPERNYEAR of
           None \<Rightarrow> None
         | Some (d, s) \<Rightarrow> Some (rulep\<lparr> r_type := JULIAN_DAY, r_day := d \<rparr>, s))
      else if chr_at strp = CHR ''M'' then
        (case getnum (Some (tl strp)) 1 MONSPERYEAR of
           None \<Rightarrow> None
         | Some (m, s1) \<Rightarrow>
             if chr_at s1 \<noteq> CHR ''.'' then None
             else
               (case getnum (Some (tl s1)) 1 5 of
                  None \<Rightarrow> None
                | Some (w, s2) \<Rightarrow>
                    if chr_at s2 \<noteq> CHR ''.'' then None
                    else
                      (case getnum (Some (tl s2)) 0 (DAYSPERWEEK - 1) of
                         None \<Rightarrow> None
                       | Some (d, s3) \<Rightarrow>
                           Some (rulep\<lparr> r_type := MONTH_NTH_DAY_OF_WEEK, r_mon := m, r_week := w,
                                        r_day := d \<rparr>, s3))))
      else if is_digit (chr_at strp) then
        (case getnum (Some strp) 0 (DAYSPERLYEAR - 1) of
           None \<Rightarrow> None
         | Some (d, s) \<Rightarrow> Some (rulep\<lparr> r_type := DAY_OF_YEAR, r_day := d \<rparr>, s))
      else None)"

definition getrule :: "string \<Rightarrow> rule \<Rightarrow> (rule \<times> string) option" where
  "getrule strp rulep =
     (case getrule_date strp rulep of
        None \<Rightarrow> None
      | Some (r, s) \<Rightarrow>
          if chr_at s = CHR ''/'' then
            (case getsecs (tl s) of None \<Rightarrow> None | Some (t, s') \<Rightarrow> Some (r\<lparr> r_time := t \<rparr>, s'))
          else Some (r\<lparr> r_time := 2 * SECSPERHOUR \<rparr>, s))"

subsection \<open>The moment of a rule\<close>

text \<open>Zeller's congruence for the first day of the month, and the loop over the weeks.\<close>

definition zeller :: "int \<Rightarrow> int \<Rightarrow> int" where
  "zeller year mon =
     (let m1 = cmod (mon + 9) 12 + 1;
          yy0 = (if mon \<le> 2 then year - 1 else year);
          yy1 = cdiv yy0 100;
          yy2 = cmod yy0 100;
          dow = cmod (cdiv (26 * m1 - 2) 10 + 1 + yy2 + cdiv yy2 4 + cdiv yy1 4 - 2 * yy1) 7
      in if dow < 0 then dow + DAYSPERWEEK else dow)"

fun week_loop :: "nat \<Rightarrow> int \<Rightarrow> int \<Rightarrow> int" where
  "week_loop 0 d len = d"
| "week_loop (Suc n) d len = (if d + DAYSPERWEEK \<ge> len then d else week_loop n (d + DAYSPERWEEK) len)"

definition transtime :: "int \<Rightarrow> int \<Rightarrow> rule \<Rightarrow> int \<Rightarrow> int" where
  "transtime janfirst year rulep offset =
     (let leapyear = isleap year;
          val = (case r_type rulep of
              JULIAN_DAY \<Rightarrow>
                let v = s32 (janfirst + (r_day rulep - 1) * SECSPERDAY)
                in if leapyear \<and> r_day rulep \<ge> 60 then s32 (v + SECSPERDAY) else v
            | DAY_OF_YEAR \<Rightarrow> s32 (janfirst + r_day rulep * SECSPERDAY)
            | MONTH_NTH_DAY_OF_WEEK \<Rightarrow>
                let v = fold (\<lambda>len v. s32 (v + len * SECSPERDAY))
                          (take (nat (r_mon rulep - 1)) (mon_lengths leapyear)) janfirst;
                    dow = zeller year (r_mon rulep);
                    d0 = r_day rulep - dow;
                    d1 = (if d0 < 0 then d0 + DAYSPERWEEK else d0);
                    d = week_loop (nat (r_week rulep - 1)) d1
                          (mon_lengths leapyear ! nat (r_mon rulep - 1))
                in s32 (v + d * SECSPERDAY))
      in s32 (val + r_time rulep + offset))"

subsection \<open>Zone strings\<close>

definition TZDEFRULES :: string where "TZDEFRULES = ''posixrules''"
definition TZDEFRULESTRING :: string where "TZDEFRULESTRING = '',M4.1.0,M10.5.0''"
definition chars_size :: nat where [simp]: "chars_size = 512"

text \<open>A zone name, quoted by angle brackets or not: the name and the rest of the string.\<close>

definition zone_name :: "string \<Rightarrow> (string \<times> string) option" where
  "zone_name name =
     (if chr_at name = CHR ''<'' then
        let s = tl name; r = getqzname s (CHR ''>'')
        in if chr_at r \<noteq> CHR ''>'' then None else Some (take (length s - length r) s, tl r)
      else
        let r = getzname name in Some (take (length name - length r) name, r))"

text \<open>Two transitions per year, from the Epoch year on, until the table is full or the time of
  January 1 overflows.\<close>

definition add_year :: "rule \<Rightarrow> rule \<Rightarrow> int \<Rightarrow> int \<Rightarrow> int \<Rightarrow> int \<Rightarrow> tzstate \<Rightarrow> tzstate" where
  "add_year start fin stdoffset dstoffset year janfirst sp =
     (let starttime = transtime janfirst year start stdoffset;
          endtime = transtime janfirst year fin dstoffset;
          n = nat (timecnt sp)
      in if starttime > endtime
         then sp\<lparr> ats := (ats sp)[n := endtime, n + 1 := starttime],
                  types := (types sp)[n := 1, n + 1 := 0], timecnt := timecnt sp + 2 \<rparr>
         else sp\<lparr> ats := (ats sp)[n := starttime, n + 1 := endtime],
                  types := (types sp)[n := 0, n + 1 := 1], timecnt := timecnt sp + 2 \<rparr>)"

function rule_years :: "rule \<Rightarrow> rule \<Rightarrow> int \<Rightarrow> int \<Rightarrow> int \<Rightarrow> int \<Rightarrow> tzstate \<Rightarrow> tzstate" where
  "rule_years start fin stdoffset dstoffset year janfirst sp =
     (if timecnt sp + 2 \<le> int TZ_MAX_TIMES then
        let sp' = add_year start fin stdoffset dstoffset year janfirst sp;
            newfirst = s32 (janfirst + year_lengths (isleap year) * SECSPERDAY)
        in if newfirst \<le> janfirst then sp'
           else rule_years start fin stdoffset dstoffset (year + 1) newfirst sp'
      else sp)"
  by pat_completeness auto
termination
  by (relation "measure (\<lambda>(_, _, _, _, _, _, sp). nat (int TZ_MAX_TIMES - timecnt sp))")
    (auto simp: add_year_def Let_def)

declare rule_years.simps [simp del]

text \<open>The rules of the default file, adjusted to the offsets: the first standard and daylight
  offsets of the file, and the loop over its transitions.\<close>

fun first_offset :: "tzstate \<Rightarrow> bool \<Rightarrow> nat list \<Rightarrow> int" where
  "first_offset sp dst [] = 0"
| "first_offset sp dst (i # is) =
     (let j = nat (types sp ! i)
      in if (tt_isdst (ttis sp ! j) \<noteq> 0) = dst then - tt_gmtoff (ttis sp ! j)
         else first_offset sp dst is)"

fun juggle :: "int \<Rightarrow> int \<Rightarrow> nat list \<Rightarrow> int \<Rightarrow> int \<Rightarrow> tzstate \<Rightarrow> tzstate" where
  "juggle stdoffset dstoffset [] theirstd theirdst sp = sp"
| "juggle stdoffset dstoffset (i # is) theirstd theirdst sp =
     (let j = nat (types sp ! i); tt = ttis sp ! j;
          sp1 = sp\<lparr> types := (types sp)[i := tt_isdst tt] \<rparr>;
          sp2 = (if tt_ttisgmt tt \<noteq> 0 then sp1
                 else sp1\<lparr> ats := (ats sp)[i := s32 (ats sp ! i + (stdoffset - theirstd))] \<rparr>);
          theiroffset = - tt_gmtoff tt
      in if tt_isdst tt \<noteq> 0 then juggle stdoffset dstoffset is theirstd theiroffset sp2
         else juggle stdoffset dstoffset is theiroffset theirdst sp2)"

definition set_tti :: "nat \<Rightarrow> int \<Rightarrow> int \<Rightarrow> int \<Rightarrow> tzstate \<Rightarrow> tzstate" where
  "set_tti i gmtoff isdst abbrind sp =
     sp\<lparr> ttis := (ttis sp)[i := (ttis sp ! i)\<lparr> tt_gmtoff := gmtoff, tt_isdst := isdst,
                                           tt_abbrind := abbrind \<rparr>] \<rparr>"

text \<open>The abbreviations: \<open>strncpy\<close> of the names and their NULs.\<close>

definition put_string :: "nat \<Rightarrow> string \<Rightarrow> string \<Rightarrow> string" where
  "put_string i s cs = take i cs @ s @ [NUL] @ drop (i + length s + 1) cs"

definition put_names :: "string \<Rightarrow> string \<Rightarrow> tzstate \<Rightarrow> int \<times> tzstate" where
  "put_names stdname dstname sp =
     (let cnt = int (length stdname) + 1 + (if dstname \<noteq> [] then int (length dstname) + 1 else 0);
          sp1 = sp\<lparr> charcnt := cnt \<rparr>
      in if cnt > int chars_size then (-1, sp1)
         else
           let cs = put_string 0 stdname (chars sp1);
               cs' = (if dstname \<noteq> [] then put_string (length stdname + 1) dstname cs else cs)
           in (0, sp1\<lparr> chars := cs' \<rparr>))"

text \<open>The part of \<open>tzparse\<close> after the daylight name and offset.\<close>

definition parse_rules ::
  "string \<Rightarrow> string \<Rightarrow> int \<Rightarrow> string \<Rightarrow> int \<Rightarrow> rule \<Rightarrow> rule \<Rightarrow> tzstate \<Rightarrow> int \<times> tzstate" where
  "parse_rules name stdname stdoffset dstname dstoffset start0 fin0 sp =
     (if chr_at name = CHR '','' \<or> chr_at name = CHR '';'' then
        (case getrule (tl name) start0 of
           None \<Rightarrow> (-1, sp)
         | Some (start, s1) \<Rightarrow>
             if chr_at s1 \<noteq> CHR '','' then (-1, sp)
             else
               (case getrule (tl s1) fin0 of
                  None \<Rightarrow> (-1, sp)
                | Some (fin, s2) \<Rightarrow>
                    if s2 \<noteq> [] then (-1, sp)
                    else
                      let sp1 = set_tti 0 (- dstoffset) 1 (int (length stdname) + 1) (sp\<lparr> typecnt := 2 \<rparr>);
                          sp2 = set_tti 1 (- stdoffset) 0 0 sp1
                      in put_names stdname dstname
                           (rule_years start fin stdoffset dstoffset EPOCH_YEAR 0 sp2)))
      else if name \<noteq> [] then (-1, sp)
      else
        let cnt = [0..<nat (timecnt sp)];
            sp1 = juggle stdoffset dstoffset cnt (first_offset sp False cnt) (first_offset sp True cnt) sp;
            sp2 = set_tti 0 (- stdoffset) 0 0 sp1;
            sp3 = set_tti 1 (- dstoffset) 1 (int (length stdname) + 1) sp2
        in put_names stdname dstname (sp3\<lparr> typecnt := 2 \<rparr>))"

text \<open>The standard name and offset; \<open>lastditch\<close> takes the whole string as the name.\<close>

definition parse_std :: "string \<Rightarrow> bool \<Rightarrow> (string \<times> int \<times> string) option" where
  "parse_std name lastditch =
     (if lastditch then Some (take (chars_size - 1) name, 0, [])
      else
        (case zone_name name of
           None \<Rightarrow> None
         | Some (stdname, s) \<Rightarrow>
             if s = [] then None
             else (case getoffset s of None \<Rightarrow> None | Some (off, s') \<Rightarrow> Some (stdname, off, s'))))"

text \<open>The rest of \<open>tzparse\<close>, after the default rules have been loaded with \<open>load_result\<close>: \<open>s\<close> is
  what follows the standard offset. \<open>rule0\<close> is the uninitialised content of the two rule
  variables.\<close>

definition parse_dst :: "rule \<Rightarrow> int \<Rightarrow> string \<Rightarrow> int \<Rightarrow> string \<Rightarrow> tzstate \<Rightarrow> int \<times> tzstate" where
  "parse_dst rule0 load_result stdname stdoffset s sp1 =
     (let sp2 = (if load_result \<noteq> 0 then sp1\<lparr> leapcnt := 0 \<rparr> else sp1)\<lparr> timecnt := 0 \<rparr>
      in if s = [] then
           put_names stdname [] (set_tti 0 (- stdoffset) 0 0 (sp2\<lparr> typecnt := 1, timecnt := 0 \<rparr>))
         else
           (case zone_name s of
              None \<Rightarrow> (-1, sp2)
            | Some (dstname, s1) \<Rightarrow>
                (case (if s1 \<noteq> [] \<and> chr_at s1 \<noteq> CHR '','' \<and> chr_at s1 \<noteq> CHR '';'' then getoffset s1
                       else Some (stdoffset - SECSPERHOUR, s1)) of
                   None \<Rightarrow> (-1, sp2)
                 | Some (dstoffset, s2) \<Rightarrow>
                     parse_rules (if s2 = [] \<and> load_result \<noteq> 0 then TZDEFRULESTRING else s2)
                       stdname stdoffset dstname dstoffset rule0 rule0 sp2)))"

text \<open>A loader takes the global state of the module (the cache of \<open>tzload\<close>), a name, the state to
  fill and \<open>doextend\<close>. It may not return (\<open>None\<close>) or read outside an array; otherwise it gives the
  new global state, the result and the filled state.\<close>

type_synonym 'g loader =
  "'g \<Rightarrow> string \<Rightarrow> tzstate \<Rightarrow> bool \<Rightarrow> (tz_fault + ('g \<times> int \<times> tzstate)) option"

definition tzparse ::
  "'g loader \<Rightarrow> rule \<Rightarrow> 'g \<Rightarrow> string \<Rightarrow> tzstate \<Rightarrow> bool \<Rightarrow> (tz_fault + ('g \<times> int \<times> tzstate)) option" where
  "tzparse tzload rule0 g name sp lastditch =
     (case parse_std name lastditch of
        None \<Rightarrow> Some (Inr (g, -1, sp))
      | Some (stdname, stdoffset, s) \<Rightarrow>
          (case tzload g TZDEFRULES sp False of
             Some (Inr (g', load_result, sp1)) \<Rightarrow>
               Some (Inr (g', parse_dst rule0 load_result stdname stdoffset s sp1))
           | stop \<Rightarrow> stop))"

definition gmt :: string where "gmt = ''GMT''"

definition gmtload :: "'g loader \<Rightarrow> rule \<Rightarrow> 'g \<Rightarrow> tzstate \<Rightarrow> (tz_fault + ('g \<times> tzstate)) option" where
  "gmtload tzload rule0 g sp =
     (case tzload g gmt sp True of
        Some (Inr (g1, r, sp1)) \<Rightarrow>
          if r \<noteq> 0 then
            (case tzparse tzload rule0 g1 gmt sp1 True of
               Some (Inr (g2, _, sp2)) \<Rightarrow> Some (Inr (g2, sp2))
             | Some (Inl e) \<Rightarrow> Some (Inl e)
             | None \<Rightarrow> None)
          else Some (Inr (g1, sp1))
      | Some (Inl e) \<Rightarrow> Some (Inl e)
      | None \<Rightarrow> None)"

subsection \<open>The moment of a rule, in the civil calendar\<close>

text \<open>The weekday (0 for Sunday) of a day counted from the Epoch.\<close>

definition weekday :: "int \<Rightarrow> int" where
  "weekday day = (4 + day) mod 7"

lemma century_split:
  fixes y :: int
  shows "y div 4 = 25 * (y div 100) + (y mod 100) div 4" and "y div 400 = (y div 100) div 4"
proof -
  have "y = y mod 100 + 4 * (25 * (y div 100))" by simp
  then have "y div 4 = (y mod 100 + 4 * (25 * (y div 100))) div 4" by simp
  also have "\<dots> = 25 * (y div 100) + (y mod 100) div 4" by (rule div_mult_self2) simp
  finally show "y div 4 = 25 * (y div 100) + (y mod 100) div 4" .
  show "y div 400 = (y div 100) div 4" by (simp add: zdiv_zmult2_eq [symmetric])
qed

lemma century_term:
  fixes y :: int
  shows "(c + y mod 100 + (y mod 100) div 4 + (y div 100) div 4 - 2 * (y div 100)) mod 7
       = (c + y + leaps_floor y) mod 7"
proof -
  have "c + y + leaps_floor y
      = c + y mod 100 + (y mod 100) div 4 + (y div 100) div 4 - 2 * (y div 100) + 7 * (18 * (y div 100))"
    using mult_div_mod_eq [of 100 y] century_split [of y] unfolding leaps_floor_def by linarith
  then show ?thesis by (simp only: mod_mult_self2)
qed

lemma cmod_adjust:
  assumes "0 < b"
  shows "(if cmod e b < 0 then cmod e b + b else cmod e b) = e mod b"
proof (cases "0 \<le> e")
  case True
  then show ?thesis using assms by (simp add: not_less)
next
  case False
  then have "cmod e b = - ((- e) mod b)" using assms by (simp add: cmod_neg)
  moreover have "0 \<le> (- e) mod b" using assms by simp
  ultimately show ?thesis using zmod_zminus1_eq_if [of "- e" b] by simp
qed

lemma zeller_eq:
  assumes "1 \<le> year" and "1 \<le> mon" and "mon \<le> 12"
  shows "zeller year mon =
    (let y0 = (if mon \<le> 2 then year - 1 else year)
     in ((26 * ((mon + 9) mod 12 + 1) - 2) div 10 + 1 + y0 + leaps_floor y0) mod 7)"
proof -
  define y0 where "y0 = (if mon \<le> 2 then year - 1 else year)"
  have y0: "0 \<le> y0" using assms(1) by (simp add: y0_def)
  define c where "c = (26 * ((mon + 9) mod 12 + 1) - 2) div 10 + 1"
  have m: "0 \<le> (mon + 9) mod 12" by simp
  have c: "cdiv (26 * (cmod (mon + 9) 12 + 1) - 2) 10 + 1 = c"
    using assms(2) m by (simp add: c_def del: pos_mod_sign)
  let ?e = "c + y0 mod 100 + (y0 mod 100) div 4 + (y0 div 100) div 4 - 2 * (y0 div 100)"
  let ?d = "cmod ?e 7"
  have "zeller year mon = (if ?d < 0 then ?d + 7 else ?d)"
    unfolding zeller_def Let_def y0_def [symmetric] c using y0 by simp
  also have "\<dots> = ?e mod 7" by (rule cmod_adjust) simp
  also have "\<dots> = (c + y0 + leaps_floor y0) mod 7" by (rule century_term)
  finally show ?thesis by (simp only: Let_def y0_def [symmetric] c_def)
qed

lemma weekday_year:
  "weekday (days_before_year y + d) = (y + leaps_floor (y - 1) + d) mod 7"
proof -
  have "4 + (days_before_year y + d) = y + leaps_floor (y - 1) + d + 7 * (52 * y - 102789)"
    by (simp add: days_before_year_def leaps_floor_def [of 1969])
  then show ?thesis unfolding weekday_def by (simp only: mod_mult_self2)
qed

lemma months_cases:
  assumes "1 \<le> (mon::int)" and "mon \<le> 12"
  shows "mon = 1 \<or> mon = 2 \<or> mon = 3 \<or> mon = 4 \<or> mon = 5 \<or> mon = 6 \<or> mon = 7 \<or> mon = 8 \<or>
    mon = 9 \<or> mon = 10 \<or> mon = 11 \<or> mon = 12"
  using assms by presburger

lemma month_shift:
  assumes "1 \<le> mon" and "mon \<le> 12"
  shows "((26 * ((mon + 9) mod 12 + 1) - 2) div 10 + 1 + (if mon \<le> 2 then - 1 else if leap then 1 else 0)) mod 7
    = days_before_month leap (mon - 1) mod 7"
  using months_cases [OF assms]
  by (elim disjE; simp add: days_before_month_def mon_lengths_def eval_nat_numeral; cases leap; simp)

lemma zeller_weekday:
  assumes "1 \<le> year" and "1 \<le> mon" and "mon \<le> 12"
  shows "zeller year mon
    = weekday (days_before_year year + days_before_month (isleap year) (mon - 1))"
proof -
  define f where "f = (26 * ((mon + 9) mod 12 + 1) - 2) div 10 + 1"
  define k :: int where "k = (if mon \<le> 2 then - 1 else if isleap year then 1 else 0)"
  have "zeller year mon = (year + leaps_floor (year - 1) + (f + k)) mod 7"
  proof (cases "mon \<le> 2")
    case True
    then show ?thesis unfolding zeller_eq [OF assms] f_def [symmetric] Let_def
      by (simp add: k_def algebra_simps)
  next
    case False
    then show ?thesis unfolding zeller_eq [OF assms] f_def [symmetric] Let_def
      using leaps_floor_step [of year] by (simp add: k_def algebra_simps)
  qed
  also have "\<dots> = (year + leaps_floor (year - 1) + (f + k) mod 7) mod 7"
    by (simp add: mod_add_right_eq)
  also have "(f + k) mod 7 = days_before_month (isleap year) (mon - 1) mod 7"
    unfolding f_def k_def by (rule month_shift [OF assms(2,3)])
  also have "(year + leaps_floor (year - 1) + days_before_month (isleap year) (mon - 1) mod 7) mod 7
      = weekday (days_before_year year + days_before_month (isleap year) (mon - 1))"
    by (simp only: weekday_year mod_add_right_eq)
  finally show ?thesis .
qed

lemma week_loop_eq:
  assumes "0 \<le> d" and "d < 7" and "28 \<le> len" and "n \<le> 4"
  shows "week_loop n d len = (if n \<le> 3 \<or> d + 28 < len then d + 7 * int n else d + 21)"
proof -
  from assms(4) have "n = 0 \<or> n = 1 \<or> n = 2 \<or> n = 3 \<or> n = 4" by linarith
  then show ?thesis using assms(1-3) by (elim disjE) (simp_all add: eval_nat_numeral)
qed

lemma weekday_hit:
  assumes "0 \<le> k" and "k < 7" and "d1 = (if k - weekday x < 0 then k - weekday x + 7 else k - weekday x)"
  shows "0 \<le> d1" and "d1 < 7" and "weekday (x + d1 + 7 * j) = k"
proof -
  have w: "0 \<le> weekday x" "weekday x < 7" by (simp_all add: weekday_def)
  show "0 \<le> d1" "d1 < 7" using assms w by auto
  have "4 + (x + d1 + 7 * j) = (4 + x) + d1 + 7 * j" by simp
  then have "weekday (x + d1 + 7 * j) = ((4 + x) + d1) mod 7"
    unfolding weekday_def by (simp only: mod_mult_self2)
  also have "\<dots> = (weekday x + d1) mod 7" unfolding weekday_def by (simp only: mod_add_left_eq)
  also have "\<dots> = k" using assms w by auto
  finally show "weekday (x + d1 + 7 * j) = k" .
qed

text \<open>What \<open>getrule\<close> delivers, and the day of a year that a POSIX rule names: \<open>Jn\<close> is the date that
  is the \<open>n\<close>-th of a common year, \<open>n\<close> the day of the year from 0, and \<open>Mm.w.d\<close> the \<open>w\<close>-th
  (for 5 the last) weekday \<open>d\<close> of the month.\<close>

definition rule_ok :: "rule \<Rightarrow> bool" where
  "rule_ok r \<longleftrightarrow>
     (case r_type r of
        JULIAN_DAY \<Rightarrow> 1 \<le> r_day r \<and> r_day r \<le> 365
      | DAY_OF_YEAR \<Rightarrow> 0 \<le> r_day r \<and> r_day r \<le> 365
      | MONTH_NTH_DAY_OF_WEEK \<Rightarrow> 1 \<le> r_mon r \<and> r_mon r \<le> 12 \<and> 1 \<le> r_week r \<and> r_week r \<le> 5 \<and>
          0 \<le> r_day r \<and> r_day r \<le> 6) \<and>
     0 \<le> r_time r \<and> r_time r \<le> 604800"

definition rule_names_day :: "int \<Rightarrow> rule \<Rightarrow> int \<Rightarrow> bool" where
  "rule_names_day year r day \<longleftrightarrow>
     (case r_type r of
        JULIAN_DAY \<Rightarrow>
          \<exists>m d. 0 \<le> m \<and> m < 12 \<and> 1 \<le> d \<and> d \<le> mon_lengths False ! nat m \<and>
            days_before_month False m + d = r_day r \<and>
            day = days_before_year year + days_before_month (isleap year) m + d - 1
      | DAY_OF_YEAR \<Rightarrow> day = days_before_year year + r_day r
      | MONTH_NTH_DAY_OF_WEEK \<Rightarrow>
          \<exists>d. 0 \<le> d \<and> d < mon_lengths (isleap year) ! nat (r_mon r - 1) \<and>
            day = days_before_year year + days_before_month (isleap year) (r_mon r - 1) + d \<and>
            weekday day = r_day r \<and>
            (if r_week r \<le> 4 then 7 * (r_week r - 1) \<le> d \<and> d < 7 * r_week r
             else mon_lengths (isleap year) ! nat (r_mon r - 1) \<le> d + 7))"

lemma julian_date:
  assumes "1 \<le> n" and "n \<le> 365"
  shows "\<exists>m d. 0 \<le> m \<and> m < 12 \<and> 1 \<le> d \<and> d \<le> mon_lengths False ! nat m \<and>
    days_before_month False m + d = n \<and>
    days_before_month leap m = days_before_month False m + (if leap \<and> 60 \<le> n then 1 else 0)"
    (is "\<exists>m d. ?P m d")
proof -
  have tab: "?P m (n - days_before_month False m)"
    if "m \<in> {0,1,2,3,4,5,6,7,8,9,10,11}" and "days_before_month False m < n"
      and "n \<le> days_before_month False m + mon_lengths False ! nat m" for m :: int
    using that
    by (elim insertE; simp add: days_before_month_def mon_lengths_def eval_nat_numeral; cases leap; simp)
  have "n \<le> 31 \<or> 31 < n \<and> n \<le> 59 \<or> 59 < n \<and> n \<le> 90 \<or> 90 < n \<and> n \<le> 120 \<or> 120 < n \<and> n \<le> 151 \<or>
    151 < n \<and> n \<le> 181 \<or> 181 < n \<and> n \<le> 212 \<or> 212 < n \<and> n \<le> 243 \<or> 243 < n \<and> n \<le> 273 \<or>
    273 < n \<and> n \<le> 304 \<or> 304 < n \<and> n \<le> 334 \<or> 334 < n" by linarith
  then have "\<exists>m \<in> {0,1,2,3,4,5,6,7,8,9,10,11}. days_before_month False m < n \<and>
      n \<le> days_before_month False m + mon_lengths False ! nat m"
    using assms by (simp add: days_before_month_def mon_lengths_def eval_nat_numeral)
  then show ?thesis using tab by blast
qed

lemma s32_add_add: "s32 (s32 a + b + c) = s32 (a + b + c)"
  by (simp only: add.assoc s32_add)

lemma s32_fold_days:
  "fold (\<lambda>len v. s32 (v + len * 86400)) ls (s32 x) = s32 (x + sum_list ls * 86400)"
  by (induction ls arbitrary: x) (simp_all add: s32_add algebra_simps)

lemma fold_s32_days:
  "s32 (fold (\<lambda>len v. s32 (v + len * 86400)) ls x + y) = s32 (x + sum_list ls * 86400 + y)"
  by (cases ls) (simp_all add: s32_fold_days s32_add add.assoc [symmetric] distrib_right)

lemma mon_length_bounds:
  assumes "0 \<le> m" and "m < 12"
  shows "28 \<le> mon_lengths leap ! nat m" and "mon_lengths leap ! nat m \<le> 31"
  using assms mon_lengths_facts [of leap] by simp_all

lemma transtime_month:
  assumes "rule_ok r" and t: "r_type r = MONTH_NTH_DAY_OF_WEEK" and "1 \<le> year"
  shows "\<exists>day. rule_names_day year r day \<and>
    transtime (86400 * days_before_year year) year r offset = s32 (day * 86400 + r_time r + offset)"
proof -
  let ?first = "days_before_year year + days_before_month (isleap year) (r_mon r - 1)"
  let ?len = "mon_lengths (isleap year) ! nat (r_mon r - 1)"
  let ?n = "nat (r_week r - 1)"
  from assms have ok: "1 \<le> r_mon r" "r_mon r \<le> 12" "1 \<le> r_week r" "r_week r \<le> 5"
    "0 \<le> r_day r" "r_day r < 7" by (auto simp: rule_ok_def)
  define d1 where
    "d1 = (if r_day r - weekday ?first < 0 then r_day r - weekday ?first + 7 else r_day r - weekday ?first)"
  define d where "d = week_loop ?n d1 ?len"
  note hit = weekday_hit [OF ok(5,6) d1_def]
  note d1 = hit(1,2)
  have len: "28 \<le> ?len" "?len \<le> 31" using ok by (intro mon_length_bounds; simp)+
  have deq: "d = (if ?n \<le> 3 \<or> d1 + 28 < ?len then d1 + 7 * int ?n else d1 + 21)"
    unfolding d_def using d1 len ok by (intro week_loop_eq) auto
  have "transtime (86400 * days_before_year year) year r offset
      = s32 (s32 (fold (\<lambda>len v. s32 (v + len * 86400)) (take (nat (r_mon r - 1)) (mon_lengths (isleap year)))
          (86400 * days_before_year year) + d * 86400) + r_time r + offset)"
    unfolding transtime_def Let_def t zeller_weekday [OF \<open>1 \<le> year\<close> ok(1,2)] by (simp add: d_def d1_def)
  also have "\<dots> = s32 ((?first + d) * 86400 + r_time r + offset)"
    by (simp only: s32_add_add fold_s32_days days_before_month_def distrib_right mult.commute)
  finally have "transtime (86400 * days_before_year year) year r offset
      = s32 ((?first + d) * 86400 + r_time r + offset)" .
  moreover have j: "d = d1 + 7 * (if ?n \<le> 3 \<or> d1 + 28 < ?len then int ?n else 3)"
    using deq by simp
  have "weekday (?first + d) = r_day r" by (subst j) (simp only: add.assoc [symmetric] hit(3))
  then have "rule_names_day year r (?first + d)"
    unfolding rule_names_day_def t using deq d1 len ok by (auto simp: split: if_splits)
  ultimately show ?thesis by blast
qed

lemma transtime_julian:
  assumes "rule_ok r" and t: "r_type r = JULIAN_DAY"
  shows "\<exists>day. rule_names_day year r day \<and>
    transtime (86400 * days_before_year year) year r offset = s32 (day * 86400 + r_time r + offset)"
proof -
  from assms have "1 \<le> r_day r" "r_day r \<le> 365" by (auto simp: rule_ok_def)
  then obtain m d where md: "0 \<le> m" "m < 12" "1 \<le> d" "d \<le> mon_lengths False ! nat m"
      "days_before_month False m + d = r_day r"
      "days_before_month (isleap year) m
        = days_before_month False m + (if isleap year \<and> 60 \<le> r_day r then 1 else 0)"
    using julian_date [of "r_day r" "isleap year"] by blast
  let ?day = "days_before_year year + days_before_month (isleap year) m + d - 1"
  have "rule_names_day year r ?day" unfolding rule_names_day_def t using md(1-5) by (simp only: rule_type.case) blast
  moreover have "transtime (86400 * days_before_year year) year r offset
      = s32 ((days_before_year year + r_day r - 1 + (if isleap year \<and> 60 \<le> r_day r then 1 else 0)) * 86400
          + r_time r + offset)"
    unfolding transtime_def Let_def t by (simp add: s32_add_add s32_add) (simp add: algebra_simps)
  moreover have "days_before_year year + r_day r - 1 + (if isleap year \<and> 60 \<le> r_day r then 1 else 0) = ?day"
    using md(5,6) by linarith
  ultimately show ?thesis by metis
qed

lemma transtime_day_of_year:
  assumes t: "r_type r = DAY_OF_YEAR"
  shows "\<exists>day. rule_names_day year r day \<and>
    transtime (86400 * days_before_year year) year r offset = s32 (day * 86400 + r_time r + offset)"
  by (simp add: rule_names_day_def transtime_def t s32_add_add distrib_right mult.commute)

text \<open>
  \<open>transtime\<close> finds the moment a POSIX rule takes effect: given the second at which the year
  starts, it returns the rule's time of day, plus the offset, on the day the rule names (the same
  date every year for \<open>Jn\<close>, the \<open>n\<close>-th day of the year, the \<open>w\<close>-th or the last weekday of the
  month), reduced to the 32 bits of \<open>time_t\<close>. In particular its use of Zeller's congruence
  computes the weekday of the first day of a month.
\<close>
theorem transtime_names_day:
  assumes "rule_ok r" and "1 \<le> year"
  shows "\<exists>day. rule_names_day year r day \<and>
    transtime (86400 * days_before_year year) year r offset = s32 (day * 86400 + r_time r + offset)"
  using assms transtime_julian transtime_day_of_year transtime_month by (cases "r_type r") blast+

text \<open>The last Sunday of October 2010 at two in the morning, four hours behind UTC.\<close>

definition october_rule :: rule where
  "october_rule = \<lparr> r_type = MONTH_NTH_DAY_OF_WEEK, r_day = 0, r_week = 5, r_mon = 10, r_time = 7200 \<rparr>"

theorem transtime_names_day_witness:
  "\<exists>day. rule_names_day 2010 october_rule day \<and>
    transtime (86400 * days_before_year 2010) 2010 october_rule 14400 = s32 (day * 86400 + 7200 + 14400)"
  using transtime_names_day [of october_rule 2010 14400] by (simp add: october_rule_def rule_ok_def)

subsection \<open>What the scanners accept\<close>

lemma is_digit_value: "is_digit c \<Longrightarrow> 0 \<le> digit_value c \<and> digit_value c \<le> 9"
  by (simp add: is_digit_def)

lemma num_loop_bounds:
  "num_loop s num mx = Some (n, s') \<Longrightarrow> 0 \<le> num \<Longrightarrow> num \<le> mx \<Longrightarrow> num \<le> n \<and> n \<le> mx"
proof (induction s num mx rule: num_loop.induct)
  case (2 c strp num mx)
  show ?case
  proof (cases "is_digit c")
    case True
    let ?n = "num * 10 + digit_value c"
    have "num \<le> ?n" using "2.prems"(2) is_digit_value [OF True] by linarith
    moreover have "?n \<le> n \<and> n \<le> mx"
      using "2.IH" [OF True refl] "2.prems" True calculation by (auto simp: Let_def split: if_splits)
    ultimately show ?thesis by linarith
  qed (use "2.prems" in auto)
qed simp

lemma getnum_bounds:
  assumes "getnum strp mn mx = Some (n, s)" and "0 \<le> mx"
  shows "mn \<le> n \<and> n \<le> mx \<and> 0 \<le> n"
proof -
  from assms(1) obtain s0 where l: "num_loop s0 0 mx = Some (n, s)" and m: "mn \<le> n"
    by (auto simp: getnum_def split: option.splits if_splits)
  show ?thesis using num_loop_bounds [OF l] assms(2) m by auto
qed

lemma getsecs_bounds:
  assumes "getsecs s = Some (secs, s')"
  shows "0 \<le> secs \<and> secs \<le> 604800"
  using assms unfolding getsecs_def
  by (auto simp: Let_def split: option.splits prod.splits if_splits
      dest!: getnum_bounds)

lemma getoffset_bounds:
  assumes "getoffset s = Some (off, s')"
  shows "- 604800 \<le> off \<and> off \<le> 604800"
  using assms by (auto simp: getoffset_def Let_def split: option.splits if_splits dest!: getsecs_bounds)

lemma getrule_date_ok:
  assumes "getrule_date s r0 = Some (r, s')" and "0 \<le> t" and "t \<le> 604800"
  shows "rule_ok (r\<lparr> r_time := t \<rparr>)"
  using assms unfolding getrule_date_def rule_ok_def
  by (auto split: option.splits prod.splits if_splits dest!: getnum_bounds)

lemma getrule_ok:
  assumes "getrule s r0 = Some (r, s')"
  shows "rule_ok r"
proof -
  from assms obtain r1 s1 t where "getrule_date s r0 = Some (r1, s1)" "r = r1\<lparr> r_time := t \<rparr>"
      "0 \<le> t" "t \<le> 604800"
    by (auto simp: getrule_def split: option.splits prod.splits if_splits dest!: getsecs_bounds)
  then show ?thesis using getrule_date_ok by blast
qed

subsection \<open>Zone strings written out\<close>

text \<open>The decimal notation, offsets as \<open>[-]hh:mm:ss\<close>, and rules as POSIX writes them.\<close>

definition digit :: "nat \<Rightarrow> char" where
  "digit d = char_of (d + 48)"

fun decimal :: "nat \<Rightarrow> string" where
  "decimal n = (if n < 10 then [digit n] else decimal (n div 10) @ [digit (n mod 10)])"

declare decimal.simps [simp del]

definition print_secs :: "int \<Rightarrow> string" where
  "print_secs t = decimal (nat (t div 3600)) @ '':'' @ decimal (nat (t mod 3600 div 60)) @ '':'' @
     decimal (nat (t mod 60))"

definition print_offset :: "int \<Rightarrow> string" where
  "print_offset off = (if off < 0 then CHR ''-'' # print_secs (- off) else print_secs off)"

definition print_rule :: "rule \<Rightarrow> string" where
  "print_rule r =
     (case r_type r of
        JULIAN_DAY \<Rightarrow> CHR ''J'' # decimal (nat (r_day r))
      | DAY_OF_YEAR \<Rightarrow> decimal (nat (r_day r))
      | MONTH_NTH_DAY_OF_WEEK \<Rightarrow> CHR ''M'' # decimal (nat (r_mon r)) @ ''.'' @ decimal (nat (r_week r)) @
          ''.'' @ decimal (nat (r_day r))) @ ''/'' @ print_secs (r_time r)"

lemma digit_value_digit: "d < 10 \<Longrightarrow> digit_value (digit d) = int d"
  by (simp add: digit_value_def digit_def)

lemma is_digit_digit: "d < 10 \<Longrightarrow> is_digit (digit d)"
  by (simp add: is_digit_def digit_value_digit)

lemma is_digit_punct [simp]:
  "\<not> is_digit NUL" "\<not> is_digit (CHR '':'')" "\<not> is_digit (CHR ''.'')" "\<not> is_digit (CHR ''/'')"
  "\<not> is_digit (CHR '','')" "\<not> is_digit (CHR ''J'')" "\<not> is_digit (CHR ''M'')" "\<not> is_digit (CHR ''-'')"
  "\<not> is_digit (CHR ''+'')"
  by (simp_all add: is_digit_def digit_value_def NUL_def)

lemma chr_at_append [simp]: "xs \<noteq> [] \<Longrightarrow> chr_at (xs @ ys) = chr_at xs"
  by (cases xs) simp_all

lemma decimal_first: "decimal n \<noteq> [] \<and> is_digit (chr_at (decimal n))"
  by (induction n rule: decimal.induct) (subst decimal.simps, auto simp: is_digit_digit decimal.simps)

lemma num_loop_decimal:
  "int n \<le> mx \<Longrightarrow> num_loop (decimal n @ rest) 0 mx = num_loop rest (int n) mx"
proof (induction n arbitrary: rest rule: decimal.induct)
  case (1 n)
  show ?case
  proof (cases "n < 10")
    case True
    then show ?thesis using "1.prems" by (subst decimal.simps) (simp add: is_digit_digit digit_value_digit)
  next
    case False
    have le: "int (n div 10) \<le> mx" using "1.prems" by linarith
    have "num_loop (decimal n @ rest) 0 mx = num_loop (digit (n mod 10) # rest) (int (n div 10)) mx"
      using False "1.IH" [OF False le] by (subst decimal.simps) simp
    also have "int (n div 10) * 10 + int (n mod 10) = int n"
      by (metis div_mult_mod_eq of_nat_add of_nat_mult of_nat_numeral)
    then have "num_loop (digit (n mod 10) # rest) (int (n div 10)) mx = num_loop rest (int n) mx"
      using "1.prems" by (simp add: is_digit_digit digit_value_digit del: of_nat_mod of_nat_div)
    finally show ?thesis .
  qed
qed

lemma num_loop_end: "\<not> is_digit (chr_at rest) \<Longrightarrow> num_loop rest n mx = Some (n, rest)"
  by (cases rest) simp_all

lemma getnum_decimal:
  assumes "mn \<le> n" and "n \<le> mx" and "0 \<le> n" and "\<not> is_digit (chr_at rest)"
  shows "getnum (Some (decimal (nat n) @ rest)) mn mx = Some (n, rest)"
  using assms decimal_first [of "nat n"]
  by (simp add: getnum_def num_loop_decimal num_loop_end)

lemma getsecs_print:
  assumes "0 \<le> t" and "t < 604800" and "\<not> is_digit (chr_at rest)"
  shows "getsecs (print_secs t @ rest) = Some (t, rest)"
proof -
  define h m n where "h = t div 3600" and "m = t mod 3600 div 60" and "n = t mod 60"
  have b: "0 \<le> h" "h \<le> 167" "0 \<le> m" "m \<le> 59" "0 \<le> n" "n \<le> 60"
    using assms(1,2) by (auto simp: h_def m_def n_def)
  have "t mod 60 = t mod 3600 mod 60" by (simp add: mod_mod_cancel)
  then have t: "h * 3600 + m * 60 + n = t"
    using div_mult_mod_eq [of "t mod 3600" 60] div_mult_mod_eq [of t 3600]
    unfolding h_def m_def n_def by linarith
  show ?thesis
    unfolding getsecs_def print_secs_def h_def [symmetric] m_def [symmetric] n_def [symmetric]
    using b t assms(3) by (simp add: getnum_decimal)
qed

lemma print_secs_first: "print_secs t \<noteq> [] \<and> is_digit (chr_at (print_secs t))"
  using decimal_first by (simp add: print_secs_def)

lemma getoffset_print:
  assumes "\<bar>off\<bar> < 604800" and "\<not> is_digit (chr_at rest)"
  shows "getoffset (print_offset off @ rest) = Some (off, rest)"
proof (cases "off < 0")
  case True
  then show ?thesis using assms by (simp add: getoffset_def print_offset_def getsecs_print)
next
  case False
  have "chr_at (print_secs off @ rest) \<noteq> CHR ''-''" "chr_at (print_secs off @ rest) \<noteq> CHR ''+''"
    using print_secs_first [of off] by auto
  then show ?thesis using False assms by (simp add: getoffset_def print_offset_def getsecs_print)
qed

text \<open>The rule that \<open>getrule\<close> reads: what the string says, and the fields it leaves as they were.\<close>

definition rule_fields :: "rule \<Rightarrow> rule \<Rightarrow> rule" where
  "rule_fields r r0 =
     (case r_type r of MONTH_NTH_DAY_OF_WEEK \<Rightarrow> r
      | t \<Rightarrow> r0\<lparr> r_type := t, r_day := r_day r, r_time := r_time r \<rparr>)"

lemma transtime_rule_fields [simp]:
  "transtime janfirst year (rule_fields r r0) off = transtime janfirst year r off"
  by (cases "r_type r") (simp_all add: transtime_def rule_fields_def)

lemma decimal_not: "chr_at (decimal n @ rest) \<noteq> c" if "\<not> is_digit c"
  using that decimal_first [of n] by auto

lemma getrule_date_print:
  assumes "rule_ok r" and "\<not> is_digit (chr_at rest)"
  shows "\<exists>r1. getrule_date
      ((case r_type r of
        JULIAN_DAY \<Rightarrow> CHR ''J'' # decimal (nat (r_day r))
      | DAY_OF_YEAR \<Rightarrow> decimal (nat (r_day r))
      | MONTH_NTH_DAY_OF_WEEK \<Rightarrow> CHR ''M'' # decimal (nat (r_mon r)) @ ''.'' @ decimal (nat (r_week r)) @
          ''.'' @ decimal (nat (r_day r))) @ rest) r0 = Some (r1, rest) \<and>
    r1\<lparr> r_time := r_time r \<rparr> = rule_fields r r0"
proof (cases "r_type r")
  case JULIAN_DAY
  then show ?thesis using assms by (simp add: rule_ok_def getrule_date_def getnum_decimal rule_fields_def)
next
  case DAY_OF_YEAR
  then show ?thesis using assms decimal_first [of "nat (r_day r)"]
      decimal_not [of "CHR ''J''" "nat (r_day r)" rest] decimal_not [of "CHR ''M''" "nat (r_day r)" rest]
    by (simp add: rule_ok_def getrule_date_def getnum_decimal rule_fields_def)
next
  case MONTH_NTH_DAY_OF_WEEK
  then show ?thesis using assms by (simp add: rule_ok_def getrule_date_def getnum_decimal rule_fields_def)
qed

lemma getrule_print:
  assumes "rule_ok r" and "r_time r < 604800" and "\<not> is_digit (chr_at rest)"
  shows "getrule (print_rule r @ rest) r0 = Some (rule_fields r r0, rest)"
proof -
  have t: "0 \<le> r_time r" using assms(1) by (simp add: rule_ok_def)
  let ?rest = "''/'' @ print_secs (r_time r) @ rest"
  have "\<not> is_digit (chr_at ?rest)" by simp
  from getrule_date_print [OF assms(1) this, of r0] obtain r1 where
    "getrule_date (print_rule r @ rest) r0 = Some (r1, ?rest)" and
    "r1\<lparr> r_time := r_time r \<rparr> = rule_fields r r0"
    by (auto simp: print_rule_def)
  then show ?thesis using getsecs_print [OF t assms(2,3)] by (simp add: getrule_def)
qed

text \<open>Names that need no quotes.\<close>

definition zone_word :: "string \<Rightarrow> bool" where
  "zone_word s \<longleftrightarrow> s \<noteq> [] \<and> c_string s \<and>
     (\<forall>c \<in> set s. \<not> is_digit c \<and> c \<notin> {CHR '','', CHR ''-'', CHR ''+'', CHR ''<'', CHR '';''})"

lemma getzname_word:
  assumes "\<forall>c \<in> set s. \<not> is_digit c \<and> c \<notin> {CHR '','', CHR ''-'', CHR ''+''}"
    and "rest = [] \<or> is_digit (chr_at rest) \<or> chr_at rest \<in> {CHR '','', CHR ''-'', CHR ''+''}"
  shows "getzname (s @ rest) = rest"
  using assms(1)
proof (induction s)
  case Nil
  show ?case using assms(2) by (cases rest) auto
qed simp

lemma zone_name_word:
  assumes "zone_word s"
    and "rest = [] \<or> is_digit (chr_at rest) \<or> chr_at rest \<in> {CHR '','', CHR ''-'', CHR ''+''}"
  shows "zone_name (s @ rest) = Some (s, rest)"
proof -
  have "getzname (s @ rest) = rest" using assms by (intro getzname_word) (auto simp: zone_word_def)
  moreover have "chr_at (s @ rest) \<noteq> CHR ''<''" using assms(1) by (cases s) (auto simp: zone_word_def)
  ultimately show ?thesis by (simp add: zone_name_def)
qed

lemma print_offset_first:
  "print_offset off \<noteq> [] \<and> (is_digit (chr_at (print_offset off)) \<or> chr_at (print_offset off) = CHR ''-'')"
  using print_secs_first by (simp add: print_offset_def)

lemma zone_word_first:
  assumes "zone_word s"
  shows "s \<noteq> []" and "\<not> is_digit (chr_at (s @ rest))"
  using assms by (cases s; simp add: zone_word_def)+

subsection \<open>The transition table of a rule string\<close>

definition tz_arrays :: "tzstate \<Rightarrow> bool" where
  "tz_arrays sp \<longleftrightarrow> length (ats sp) = TZ_MAX_TIMES \<and> length (types sp) = TZ_MAX_TIMES \<and>
     length (ttis sp) = TZ_MAX_TYPES \<and> length (chars sp) = chars_size \<and> length (lsis sp) = TZ_MAX_LEAPS"

lemma tz_arrays_counts [simp]:
  "tz_arrays (sp\<lparr> leapcnt := n \<rparr>) = tz_arrays sp" "tz_arrays (sp\<lparr> timecnt := n \<rparr>) = tz_arrays sp"
  "tz_arrays (sp\<lparr> typecnt := n \<rparr>) = tz_arrays sp" "tz_arrays (sp\<lparr> charcnt := n \<rparr>) = tz_arrays sp"
  by (simp_all add: tz_arrays_def)

text \<open>The two transitions of a year in order: type 0 starts daylight time, type 1 ends it.\<close>

definition year_pair :: "rule \<Rightarrow> rule \<Rightarrow> int \<Rightarrow> int \<Rightarrow> int \<Rightarrow> (int \<times> int) list" where
  "year_pair start fin stdoffset dstoffset year =
     (let s = transtime (86400 * days_before_year year) year start stdoffset;
          e = transtime (86400 * days_before_year year) year fin dstoffset
      in if s > e then [(e, 1), (s, 0)] else [(s, 0), (e, 1)])"

abbreviation transitions :: "tzstate \<Rightarrow> (int \<times> int) list" where
  "transitions sp \<equiv> take (nat (timecnt sp)) (zip (ats sp) (types sp))"

lemma take_zip_update2:
  assumes "n + 1 < length xs" and "n + 1 < length ys"
  shows "take (n + 2) (zip (xs[n := a, n + 1 := b]) (ys[n := c, n + 1 := d]))
       = take n (zip xs ys) @ [(a, c), (b, d)]"
proof -
  have "take (Suc (Suc n)) (zip (xs[n := a, Suc n := b]) (ys[n := c, Suc n := d]))
      = take n (zip (xs[n := a, Suc n := b]) (ys[n := c, Suc n := d])) @ [(a, c), (b, d)]"
    using assms by (simp add: take_Suc_conv_app_nth)
  then show ?thesis by (simp add: take_zip)
qed

lemma add_year_transitions:
  assumes "tz_arrays sp" and "0 \<le> timecnt sp" and "timecnt sp + 2 \<le> 1200"
  shows "transitions (add_year start fin stdoff dstoff year (86400 * days_before_year year) sp)
      = transitions sp @ year_pair start fin stdoff dstoff year"
proof -
  have n: "nat (timecnt sp) + 1 < length (ats sp)" "nat (timecnt sp) + 1 < length (types sp)"
    using assms by (auto simp: tz_arrays_def)
  have "nat (timecnt sp + 2) = nat (timecnt sp) + 2" using assms(2) by simp
  then show ?thesis
    by (simp add: add_year_def year_pair_def Let_def take_zip_update2 [OF n, simplified])
qed

lemma add_year_fields [simp]:
  "timecnt (add_year start fin stdoff dstoff year jf sp) = timecnt sp + 2"
  "tz_arrays (add_year start fin stdoff dstoff year jf sp) = tz_arrays sp"
  "typecnt (add_year start fin stdoff dstoff year jf sp) = typecnt sp"
  "ttis (add_year start fin stdoff dstoff year jf sp) = ttis sp"
  "chars (add_year start fin stdoff dstoff year jf sp) = chars sp"
  "lsis (add_year start fin stdoff dstoff year jf sp) = lsis sp"
  "leapcnt (add_year start fin stdoff dstoff year jf sp) = leapcnt sp"
  by (simp_all add: add_year_def Let_def tz_arrays_def)

text \<open>January 1 of 2038 is the last one that \<open>time_t\<close> can hold.\<close>

lemma year_2038:
  assumes "1970 \<le> year" and "year \<le> 2038"
  shows "0 \<le> 86400 * days_before_year year" and "86400 * days_before_year year \<le> 2145916800"
proof -
  have "days_before_year 1970 \<le> days_before_year year" "days_before_year year \<le> days_before_year 2038"
    using assms days_before_year_le(1) [of 1970 year] days_before_year_le(1) [of year 2038] by simp_all
  moreover have "days_before_year 2038 = 24837" by (simp add: days_before_year_def leaps_floor_def)
  ultimately show "0 \<le> 86400 * days_before_year year" "86400 * days_before_year year \<le> 2145916800"
    by auto
qed

lemma next_january:
  assumes "1970 \<le> year" and "year < 2038"
  shows "s32 (86400 * days_before_year year + year_lengths (isleap year) * 86400)
      = 86400 * days_before_year (year + 1)"
proof -
  have "86400 * days_before_year year + year_lengths (isleap year) * 86400
      = 86400 * days_before_year (year + 1)" by (simp add: days_before_year_Suc)
  moreover have "in_s32 (86400 * days_before_year (year + 1))"
    using year_2038 [of "year + 1"] assms by (intro in_s32I) auto
  ultimately show ?thesis by (simp add: s32_id)
qed

lemma january_overflow:
  "s32 (86400 * days_before_year 2038 + year_lengths (isleap 2038) * 86400) \<le> 86400 * days_before_year 2038"
proof -
  have "days_before_year 2038 = 24837" "year_lengths (isleap 2038) = 365"
    by (simp_all add: days_before_year_def leaps_floor_def year_lengths_def isleap_iff)
  then show ?thesis by (simp add: s32_high)
qed

lemma rule_years_transitions:
  assumes "1970 \<le> year" and "year \<le> 2038" and "timecnt sp = 2 * (year - 1970)" and "tz_arrays sp"
    and r: "r = rule_years start fin stdoff dstoff year (86400 * days_before_year year) sp"
  shows "timecnt r = 138 \<and> tz_arrays r \<and> typecnt r = typecnt sp \<and> ttis r = ttis sp \<and> chars r = chars sp \<and>
    lsis r = lsis sp \<and> leapcnt r = leapcnt sp \<and>
    transitions r = transitions sp @ concat (map (year_pair start fin stdoff dstoff) [year..2038])"
  using assms(1-4) unfolding r
proof (induction "nat (2038 - year)" arbitrary: year sp)
  case 0
  then have [simp]: "year = 2038" by simp
  have "rule_years start fin stdoff dstoff year (86400 * days_before_year year) sp
      = add_year start fin stdoff dstoff year (86400 * days_before_year year) sp"
    using 0 january_overflow by (subst rule_years.simps) (simp add: Let_def)
  moreover have "transitions (add_year start fin stdoff dstoff year (86400 * days_before_year year) sp)
      = transitions sp @ year_pair start fin stdoff dstoff year"
    using 0 by (intro add_year_transitions) auto
  ultimately show ?case using 0 by simp
next
  case (Suc k)
  let ?sp = "add_year start fin stdoff dstoff year (86400 * days_before_year year) sp"
  have y: "year < 2038" using Suc.hyps(2) by simp
  have less: "86400 * days_before_year year < 86400 * days_before_year (year + 1)"
    using year_lengths_bounds(1) [of "isleap year"] by (simp add: days_before_year_Suc)
  have "rule_years start fin stdoff dstoff year (86400 * days_before_year year) sp
      = rule_years start fin stdoff dstoff (year + 1) (86400 * days_before_year (year + 1)) ?sp"
    using Suc.prems y less next_january [of year]
    by (subst rule_years.simps) (simp add: Let_def)
  moreover have "transitions ?sp = transitions sp @ year_pair start fin stdoff dstoff year"
    using Suc.prems y by (intro add_year_transitions) auto
  moreover have "[year..2038] = year # [year + 1..2038]" using y by (simp add: upto_rec1)
  moreover have k: "k = nat (2038 - (year + 1))" using Suc.hyps(2) by simp
  have "1970 \<le> year + 1" "year + 1 \<le> 2038" "timecnt ?sp = 2 * (year + 1 - 1970)" "tz_arrays ?sp"
    using Suc.prems y by simp_all
  note IH = Suc.hyps(1) [OF k this]
  ultimately show ?case using IH
    by (simp only: add_year_fields(3-) append_assoc list.map concat.simps simp_thms)
qed

text \<open>The whole table: the years in which January 1 is a \<open>time_t\<close>.\<close>

definition rule_table :: "rule \<Rightarrow> rule \<Rightarrow> int \<Rightarrow> int \<Rightarrow> (int \<times> int) list" where
  "rule_table start fin stdoff dstoff = concat (map (year_pair start fin stdoff dstoff) [1970..2038])"

lemma rule_years_table:
  assumes "timecnt sp = 0" and "tz_arrays sp" and r: "r = rule_years start fin stdoff dstoff 1970 0 sp"
  shows "timecnt r = 138" and "tz_arrays r" and "typecnt r = typecnt sp" and "ttis r = ttis sp"
    and "leapcnt r = leapcnt sp" and "transitions r = rule_table start fin stdoff dstoff"
proof -
  have r': "r = rule_years start fin stdoff dstoff 1970 (86400 * days_before_year 1970) sp"
    by (simp add: r)
  have "(1970::int) \<le> 2038" "timecnt sp = 2 * (1970 - 1970)" using assms(1) by simp_all
  from rule_years_transitions [OF order_refl this assms(2) r']
  have "timecnt r = 138 \<and> tz_arrays r \<and> typecnt r = typecnt sp \<and> ttis r = ttis sp \<and> chars r = chars sp \<and>
    lsis r = lsis sp \<and> leapcnt r = leapcnt sp \<and>
    transitions r = transitions sp @ rule_table start fin stdoff dstoff"
    unfolding rule_table_def .
  then show "timecnt r = 138" "tz_arrays r" "typecnt r = typecnt sp" "ttis r = ttis sp"
    "leapcnt r = leapcnt sp" "transitions r = rule_table start fin stdoff dstoff"
    using assms(1) by auto
qed

text \<open>An abbreviation of a zone: the C string at its index.\<close>

definition abbrev :: "tzstate \<Rightarrow> int \<Rightarrow> string" where
  "abbrev sp i = takeWhile (\<lambda>c. c \<noteq> NUL) (drop (nat i) (chars sp))"

lemma put_string_length [simp]: "i + length s < length cs \<Longrightarrow> length (put_string i s cs) = length cs"
  by (simp add: put_string_def)

lemma takeWhile_c_string: "c_string s \<Longrightarrow> takeWhile (\<lambda>c. c \<noteq> NUL) (s @ NUL # rest) = s"
  by (induction s) (auto simp: c_string_def)

lemma put_string_read:
  assumes "i \<le> length cs" and "c_string s"
  shows "takeWhile (\<lambda>c. c \<noteq> NUL) (drop i (put_string i s cs)) = s"
  using assms by (simp add: put_string_def takeWhile_c_string)

lemma put_string_read_before:
  assumes "i = length s + 1" and "i \<le> length cs" and "c_string s"
  shows "takeWhile (\<lambda>c. c \<noteq> NUL) (put_string i s' (put_string 0 s cs)) = s"
  using assms by (simp add: put_string_def takeWhile_c_string)

lemma put_names_ok:
  assumes "length stdname + length dstname + 2 \<le> chars_size" and "dstname \<noteq> []"
    and "c_string stdname" and "c_string dstname" and "length (chars sp) = chars_size"
  shows "\<exists>cs. put_names stdname dstname sp
      = (0, sp\<lparr> charcnt := int (length stdname + length dstname) + 2, chars := cs \<rparr>) \<and>
    length cs = chars_size \<and> takeWhile (\<lambda>c. c \<noteq> NUL) cs = stdname \<and>
    takeWhile (\<lambda>c. c \<noteq> NUL) (drop (length stdname + 1) cs) = dstname"
proof -
  let ?cs = "put_string (length stdname + 1) dstname (put_string 0 stdname (chars sp))"
  have "put_names stdname dstname sp
      = (0, sp\<lparr> charcnt := int (length stdname + length dstname) + 2, chars := ?cs \<rparr>)"
    using assms(1,2) by (simp add: put_names_def Let_def)
  moreover have "length ?cs = chars_size" using assms(1,5) by simp
  moreover have "takeWhile (\<lambda>c. c \<noteq> NUL) ?cs = stdname"
    using assms(1,3,5) by (intro put_string_read_before) auto
  moreover have "takeWhile (\<lambda>c. c \<noteq> NUL) (drop (length stdname + 1) ?cs) = dstname"
    using assms(1,4,5) by (intro put_string_read) auto
  ultimately show ?thesis by blast
qed

text \<open>A zone with daylight time, written out in full.\<close>

record posix_zone =
  z_std :: string
  z_stdoff :: int
  z_dst :: string
  z_dstoff :: int
  z_start :: rule
  z_end :: rule

definition zone_ok :: "posix_zone \<Rightarrow> bool" where
  "zone_ok z \<longleftrightarrow> zone_word (z_std z) \<and> zone_word (z_dst z) \<and>
     length (z_std z) + length (z_dst z) + 2 \<le> chars_size \<and>
     \<bar>z_stdoff z\<bar> < 604800 \<and> \<bar>z_dstoff z\<bar> < 604800 \<and> rule_ok (z_start z) \<and> r_time (z_start z) < 604800 \<and>
     rule_ok (z_end z) \<and> r_time (z_end z) < 604800"

definition print_zone :: "posix_zone \<Rightarrow> string" where
  "print_zone z = z_std z @ print_offset (z_stdoff z) @ z_dst z @ print_offset (z_dstoff z) @
     '','' @ print_rule (z_start z) @ '','' @ print_rule (z_end z)"

text \<open>The zone that a state describes.\<close>

definition describes :: "posix_zone \<Rightarrow> tzstate \<Rightarrow> bool" where
  "describes z sp \<longleftrightarrow> tz_arrays sp \<and> typecnt sp = 2 \<and> timecnt sp = 138 \<and>
     transitions sp = rule_table (z_start z) (z_end z) (z_stdoff z) (z_dstoff z) \<and>
     tt_gmtoff (ttis sp ! 0) = - z_dstoff z \<and> tt_isdst (ttis sp ! 0) = 1 \<and>
     abbrev sp (tt_abbrind (ttis sp ! 0)) = z_dst z \<and>
     tt_gmtoff (ttis sp ! 1) = - z_stdoff z \<and> tt_isdst (ttis sp ! 1) = 0 \<and>
     abbrev sp (tt_abbrind (ttis sp ! 1)) = z_std z"

lemma parse_std_print:
  assumes "zone_ok z"
  shows "parse_std (print_zone z) False =
    Some (z_std z, z_stdoff z, drop (length (z_std z) + length (print_offset (z_stdoff z))) (print_zone z))"
proof -
  from assms have w: "zone_word (z_std z)" "zone_word (z_dst z)" "\<bar>z_stdoff z\<bar> < 604800"
    by (auto simp: zone_ok_def)
  let ?rest = "z_dst z @ print_offset (z_dstoff z) @ '','' @ print_rule (z_start z) @ '','' @ print_rule (z_end z)"
  have "zone_name (print_zone z) = Some (z_std z, print_offset (z_stdoff z) @ ?rest)"
    unfolding print_zone_def using print_offset_first [of "z_stdoff z"] by (intro zone_name_word w) auto
  moreover have "getoffset (print_offset (z_stdoff z) @ ?rest) = Some (z_stdoff z, ?rest)"
    by (intro getoffset_print w zone_word_first)
  ultimately show ?thesis using print_offset_first [of "z_stdoff z"]
    by (simp add: parse_std_def) (simp add: print_zone_def)
qed

lemma rule_table_fields [simp]:
  "rule_table (rule_fields start r0) (rule_fields fin r1) = rule_table start fin"
proof -
  have "year_pair (rule_fields start r0) (rule_fields fin r1) = year_pair start fin"
    by (intro ext) (simp add: year_pair_def)
  then show ?thesis by (intro ext) (simp only: rule_table_def)
qed

lemma parse_rules_print:
  assumes "zone_ok z" and "tz_arrays sp" and "timecnt sp = 0"
  shows "\<exists>sp'. parse_rules ('','' @ print_rule (z_start z) @ '','' @ print_rule (z_end z))
      (z_std z) (z_stdoff z) (z_dst z) (z_dstoff z) r0 r1 sp = (0, sp') \<and> describes z sp'"
proof -
  from assms(1) have ok: "rule_ok (z_start z)" "r_time (z_start z) < 604800" "rule_ok (z_end z)"
      "r_time (z_end z) < 604800" "zone_word (z_std z)" "zone_word (z_dst z)"
      "length (z_std z) + length (z_dst z) + 2 \<le> chars_size"
    by (auto simp: zone_ok_def)
  define sp2 where "sp2 = set_tti 1 (- z_stdoff z) 0 0
    (set_tti 0 (- z_dstoff z) 1 (int (length (z_std z)) + 1) (sp\<lparr> typecnt := 2 \<rparr>))"
  have sp2: "tz_arrays sp2" "timecnt sp2 = 0" "typecnt sp2 = 2"
    "ttis sp2 ! 0 = (ttis sp ! 0)\<lparr> tt_gmtoff := - z_dstoff z, tt_isdst := 1,
       tt_abbrind := int (length (z_std z)) + 1 \<rparr>"
    "ttis sp2 ! 1 = (ttis sp ! 1)\<lparr> tt_gmtoff := - z_stdoff z, tt_isdst := 0, tt_abbrind := 0 \<rparr>"
    using assms(2,3) by (auto simp: sp2_def set_tti_def tz_arrays_def)
  define sp3 where "sp3 = rule_years (rule_fields (z_start z) r0) (rule_fields (z_end z) r1)
    (z_stdoff z) (z_dstoff z) 1970 0 sp2"
  note sp3 = rule_years_table [OF sp2(2,1) sp3_def]
  have len: "length (chars sp3) = chars_size" using sp3 by (simp add: tz_arrays_def)
  from ok(5,6) have "z_dst z \<noteq> []" "c_string (z_std z)" "c_string (z_dst z)" by (simp_all add: zone_word_def)
  from put_names_ok [OF ok(7) this len] obtain cs where
    cs: "put_names (z_std z) (z_dst z) sp3
        = (0, sp3\<lparr> charcnt := int (length (z_std z) + length (z_dst z)) + 2, chars := cs \<rparr>)" (is "_ = (0, ?r)")
      "length cs = chars_size" "takeWhile (\<lambda>c. c \<noteq> NUL) cs = z_std z"
      "takeWhile (\<lambda>c. c \<noteq> NUL) (drop (length (z_std z) + 1) cs) = z_dst z"
    by blast
  have "nat (int (length (z_std z)) + 1) = length (z_std z) + 1" by simp
  then have "describes z ?r"
    unfolding describes_def abbrev_def using sp3 sp2 cs(2-4) by (simp add: tz_arrays_def)
  moreover have "parse_rules ('','' @ print_rule (z_start z) @ '','' @ print_rule (z_end z))
      (z_std z) (z_stdoff z) (z_dst z) (z_dstoff z) r0 r1 sp = (0, ?r)"
    using getrule_print [OF ok(1,2), of "'','' @ print_rule (z_end z)" r0]
      getrule_print [OF ok(3,4), of "[]" r1] cs(1)
    by (simp add: parse_rules_def Let_def) (simp add: sp2_def sp3_def)
  ultimately show ?thesis by blast
qed

lemma print_zone_rest:
  "drop (length (z_std z) + length (print_offset (z_stdoff z))) (print_zone z)
    = z_dst z @ print_offset (z_dstoff z) @ '','' @ print_rule (z_start z) @ '','' @ print_rule (z_end z)"
  by (simp add: print_zone_def)

lemma parse_dst_print:
  assumes "zone_ok z" and "tz_arrays sp"
  shows "\<exists>sp'. parse_dst rule0 load_result (z_std z) (z_stdoff z)
      (z_dst z @ print_offset (z_dstoff z) @ '','' @ print_rule (z_start z) @ '','' @ print_rule (z_end z)) sp
    = (0, sp') \<and> describes z sp'"
proof -
  from assms(1) have w: "zone_word (z_dst z)" "\<bar>z_dstoff z\<bar> < 604800" by (auto simp: zone_ok_def)
  let ?rules = "'','' @ print_rule (z_start z) @ '','' @ print_rule (z_end z)"
  let ?sp = "(if load_result \<noteq> 0 then sp\<lparr> leapcnt := 0 \<rparr> else sp)\<lparr> timecnt := 0 \<rparr>"
  note off = print_offset_first [of "z_dstoff z"]
  have "zone_name (z_dst z @ print_offset (z_dstoff z) @ ?rules)
      = Some (z_dst z, print_offset (z_dstoff z) @ ?rules)"
    using off by (intro zone_name_word w) auto
  moreover have "getoffset (print_offset (z_dstoff z) @ ?rules) = Some (z_dstoff z, ?rules)"
    by (intro getoffset_print w) simp
  moreover have "chr_at (print_offset (z_dstoff z) @ ?rules) \<noteq> CHR '',''"
    "chr_at (print_offset (z_dstoff z) @ ?rules) \<noteq> CHR '';''"
    using off by (auto simp: is_digit_def digit_value_def)
  moreover have "z_dst z \<noteq> []" by (rule zone_word_first [OF w(1)])
  moreover have "tz_arrays ?sp" "timecnt ?sp = 0" using assms(2) by (simp_all add: tz_arrays_def)
  from parse_rules_print [OF assms(1) this, of rule0 rule0]
  obtain sp' where "parse_rules ?rules (z_std z) (z_stdoff z) (z_dst z) (z_dstoff z) rule0 rule0 ?sp = (0, sp')"
    and "describes z sp'" by blast
  ultimately show ?thesis using off unfolding parse_dst_def Let_def by simp
qed

text \<open>
  C16. \<open>tzparse\<close> reads the POSIX notation: the string written for any zone with daylight time
  (names that need no quotes and fit the 512 characters, offsets and times below 168 hours, rules of
  the three kinds) is accepted, and the state describes that zone: two types with the negated offsets,
  the daylight flag and the right abbreviations, and 138 transitions, two for every year from 1970 to
  2038 in order of time, each at the moment \<open>transtime\<close> gives. It does so whatever the loader of the
  default rules answered, as long as that returned with its arrays intact.
\<close>
theorem tzparse_reads_posix_zone:
  assumes "zone_ok z" and "tzload g TZDEFRULES sp False = Some (Inr (g', load_result, sp1))" and "tz_arrays sp1"
  shows "\<exists>sp'. tzparse tzload rule0 g (print_zone z) sp False = Some (Inr (g', 0, sp')) \<and> describes z sp'"
  using parse_dst_print [OF assms(1,3)] assms(2)
  unfolding tzparse_def parse_std_print [OF assms(1)] print_zone_rest by fastforce

text \<open>New York as of 2000, with no file of default rules.\<close>

definition new_york :: posix_zone where
  "new_york = \<lparr> z_std = ''EST'', z_stdoff = 18000, z_dst = ''EDT'', z_dstoff = 14400,
     z_start = \<lparr> r_type = MONTH_NTH_DAY_OF_WEEK, r_day = 0, r_week = 1, r_mon = 4, r_time = 7200 \<rparr>,
     z_end = october_rule \<rparr>"

definition blank_state :: tzstate where
  "blank_state = \<lparr> leapcnt = 0, timecnt = 0, typecnt = 0, charcnt = 0, goback = False, goahead = False,
     ats = replicate TZ_MAX_TIMES 0, types = replicate TZ_MAX_TIMES 0,
     ttis = replicate TZ_MAX_TYPES \<lparr> tt_gmtoff = 0, tt_isdst = 0, tt_abbrind = 0, tt_ttisstd = 0, tt_ttisgmt = 0 \<rparr>,
     chars = replicate chars_size NUL, lsis = replicate TZ_MAX_LEAPS \<lparr> ls_trans = 0, ls_corr = 0 \<rparr> \<rparr>"

definition no_files :: "unit loader" where
  "no_files g name sp doextend = Some (Inr (g, -1, sp))"

lemma blank_arrays [simp]: "tz_arrays blank_state"
  by (simp add: tz_arrays_def blank_state_def)

lemma new_york_ok: "zone_ok new_york"
  by (simp add: zone_ok_def new_york_def october_rule_def zone_word_def rule_ok_def is_digit_def
      digit_value_def c_string_def NUL_def)

theorem tzparse_reads_posix_zone_witness:
  "print_zone new_york = ''EST5:0:0EDT4:0:0,M4.1.0/2:0:0,M10.5.0/2:0:0'' \<and>
   (\<exists>sp'. tzparse no_files october_rule () (print_zone new_york) blank_state False = Some (Inr ((), 0, sp')) \<and>
     describes new_york sp')"
proof -
  have "print_zone new_york = ''EST5:0:0EDT4:0:0,M4.1.0/2:0:0,M10.5.0/2:0:0''"
    by (simp add: print_zone_def new_york_def october_rule_def print_offset_def print_secs_def print_rule_def
        decimal.simps digit_def) (simp add: char_of_def bit_0)
  then show ?thesis
    using tzparse_reads_posix_zone [OF new_york_ok, of no_files "()" blank_state "()" "-1" blank_state october_rule]
    by (simp add: no_files_def)
qed

subsection \<open>The states that parsing builds\<close>

text \<open>The type of a zone state: the counts stay inside their arrays, every transition has a type in
  the table, every type has a flag that is 0 or 1 and an abbreviation that starts inside the
  characters in use or right after them.\<close>

definition type_ok :: "int \<Rightarrow> ttinfo \<Rightarrow> bool" where
  "type_ok cnt tt \<longleftrightarrow> tt_isdst tt \<in> {0, 1} \<and> 0 \<le> tt_abbrind tt \<and> tt_abbrind tt \<le> cnt"

definition zone_wf :: "tzstate \<Rightarrow> bool" where
  "zone_wf sp \<longleftrightarrow> tz_arrays sp \<and> 0 \<le> leapcnt sp \<and> leapcnt sp \<le> 50 \<and> 0 \<le> timecnt sp \<and> timecnt sp \<le> 1200 \<and>
     1 \<le> typecnt sp \<and> typecnt sp \<le> 256 \<and> 0 \<le> charcnt sp \<and> charcnt sp \<le> 512 \<and>
     (\<forall>t \<in> set (take (nat (timecnt sp)) (types sp)). 0 \<le> t \<and> t < typecnt sp) \<and>
     (\<forall>tt \<in> set (take (nat (typecnt sp)) (ttis sp)). type_ok (charcnt sp) tt)"

lemma put_names_wf:
  assumes "put_names stdname dstname sp = (0, sp')" and "tz_arrays sp"
  shows "tz_arrays sp' \<and> charcnt sp' \<le> 512 \<and> int (length stdname) + 1 \<le> charcnt sp' \<and>
    ats sp' = ats sp \<and> types sp' = types sp \<and> ttis sp' = ttis sp \<and> timecnt sp' = timecnt sp \<and>
    typecnt sp' = typecnt sp \<and> leapcnt sp' = leapcnt sp"
proof -
  have c: "int (length stdname) + 1 + (if dstname \<noteq> [] then int (length dstname) + 1 else 0) \<le> 512"
    using assms(1) by (auto simp: put_names_def Let_def split: if_splits)
  then show ?thesis using assms by (auto simp: put_names_def Let_def tz_arrays_def split: if_splits)
qed

lemma rule_table_types: "\<forall>p \<in> set (rule_table start fin stdoff dstoff). snd p = 0 \<or> snd p = 1"
  by (auto simp: rule_table_def year_pair_def Let_def simp del: upto_rec_numeral split: if_splits)

lemma transitions_types:
  assumes "length (ats sp) = length (types sp)"
  shows "take (nat (timecnt sp)) (types sp) = map snd (transitions sp)"
  using assms by (simp add: take_map [symmetric])

lemma set_tti_fields [simp]:
  "tz_arrays (set_tti i off d a sp) = tz_arrays sp" "timecnt (set_tti i off d a sp) = timecnt sp"
  "typecnt (set_tti i off d a sp) = typecnt sp" "leapcnt (set_tti i off d a sp) = leapcnt sp"
  by (simp_all add: set_tti_def tz_arrays_def)

lemma set_tti_pair:
  assumes "tz_arrays sp" and "p = (0::nat) \<and> q = (1::nat) \<or> p = 1 \<and> q = 0"
  shows "take 2 (ttis (set_tti p o1 d1 a1 (set_tti q o2 d2 a2 sp))) =
    (if p = 0 then [(ttis sp ! 0)\<lparr> tt_gmtoff := o1, tt_isdst := d1, tt_abbrind := a1 \<rparr>,
                    (ttis sp ! 1)\<lparr> tt_gmtoff := o2, tt_isdst := d2, tt_abbrind := a2 \<rparr>]
     else [(ttis sp ! 0)\<lparr> tt_gmtoff := o2, tt_isdst := d2, tt_abbrind := a2 \<rparr>,
           (ttis sp ! 1)\<lparr> tt_gmtoff := o1, tt_isdst := d1, tt_abbrind := a1 \<rparr>])"
proof -
  obtain x y rest where "ttis sp = x # y # rest"
    using assms(1) by (cases "ttis sp"; cases "tl (ttis sp)") (auto simp: tz_arrays_def)
  then show ?thesis using assms(2) by (auto simp: set_tti_def)
qed

lemma parse_rules_wf:
  assumes "parse_rules name stdname sof dstname dof start0 fin0 sp = (0, sp')" and "tz_arrays sp"
    and "timecnt sp = 0" and "0 \<le> leapcnt sp" and "leapcnt sp \<le> 50"
  shows "zone_wf sp'"
proof (cases "chr_at name = CHR '','' \<or> chr_at name = CHR '';''")
  case True
  define sp2 where "sp2 = set_tti 1 (- sof) 0 0 (set_tti 0 (- dof) 1 (int (length stdname) + 1) (sp\<lparr> typecnt := 2 \<rparr>))"
  from True assms(1) obtain start fin where
    p: "put_names stdname dstname (rule_years start fin sof dof 1970 0 sp2) = (0, sp')"
    by (auto simp: parse_rules_def sp2_def Let_def split: option.splits prod.splits if_splits)
  define sp3 where "sp3 = rule_years start fin sof dof 1970 0 sp2"
  have "timecnt sp2 = 0" "tz_arrays sp2" "typecnt sp2 = 2" "leapcnt sp2 = leapcnt sp"
    using assms(2,3) by (simp_all add: sp2_def)
  note sp3 = rule_years_table [OF this(1,2) sp3_def, unfolded this(3,4)]
  note wf = put_names_wf [OF p [folded sp3_def] sp3(2)]
  have "take (nat (timecnt sp3)) (types sp3) = map snd (rule_table start fin sof dof)"
    using transitions_types [of sp3] sp3(2) sp3(6) by (simp add: tz_arrays_def)
  then have "\<forall>t \<in> set (take (nat (timecnt sp')) (types sp')). 0 \<le> t \<and> t < 2"
    using rule_table_types [of start fin sof dof] wf by fastforce
  moreover have "\<forall>tt \<in> set (take 2 (ttis sp')). type_ok (charcnt sp') tt"
    using set_tti_pair [of "sp\<lparr> typecnt := 2 \<rparr>" 1 0] wf sp3(4) assms(2)
    by (auto simp: sp2_def type_ok_def tz_arrays_def)
  ultimately show ?thesis using wf sp3 assms(4,5) by (simp add: zone_wf_def)
next
  case False
  define sp2 where "sp2 = set_tti 1 (- dof) 1 (int (length stdname) + 1) (set_tti 0 (- sof) 0 0 sp)"
  from False assms(1,3) have p: "put_names stdname dstname (sp2\<lparr> typecnt := 2 \<rparr>) = (0, sp')"
    by (auto simp: parse_rules_def sp2_def Let_def split: if_splits)
  have "tz_arrays (sp2\<lparr> typecnt := 2 \<rparr>)" using assms(2) by (simp add: sp2_def set_tti_def tz_arrays_def)
  note wf = put_names_wf [OF p this]
  have "\<forall>tt \<in> set (take 2 (ttis sp')). type_ok (charcnt sp') tt"
    using set_tti_pair [of sp 1 0] wf assms(2) by (auto simp: sp2_def type_ok_def)
  then show ?thesis using wf assms(2-5) by (simp add: zone_wf_def sp2_def)
qed

lemma parse_dst_wf:
  assumes "parse_dst rule0 load_result stdname sof s sp = (0, sp')" and "tz_arrays sp"
    and "load_result = 0 \<Longrightarrow> 0 \<le> leapcnt sp \<and> leapcnt sp \<le> 50"
  shows "zone_wf sp'"
proof -
  define sp2 where "sp2 = (if load_result \<noteq> 0 then sp\<lparr> leapcnt := 0 \<rparr> else sp)\<lparr> timecnt := 0 \<rparr>"
  have sp2: "tz_arrays sp2" "timecnt sp2 = 0" "0 \<le> leapcnt sp2" "leapcnt sp2 \<le> 50"
    using assms(2,3) by (auto simp: sp2_def tz_arrays_def)
  show ?thesis
  proof (cases "s = []")
    case True
    define sp3 where "sp3 = set_tti 0 (- sof) 0 0 (sp2\<lparr> typecnt := 1, timecnt := 0 \<rparr>)"
    have "put_names stdname [] sp3 = (0, sp')"
      using assms(1) True unfolding parse_dst_def sp2_def [symmetric] Let_def by (simp add: sp3_def)
    moreover have arr: "tz_arrays sp3" using sp2(1) by (simp add: sp3_def)
    ultimately have wf: "tz_arrays sp' \<and> charcnt sp' \<le> 512 \<and> int (length stdname) + 1 \<le> charcnt sp' \<and>
      ttis sp' = ttis sp3 \<and> timecnt sp' = 0 \<and> typecnt sp' = 1 \<and> leapcnt sp' = leapcnt sp2"
      using put_names_wf [of stdname "[]" sp3 sp'] by (simp add: sp3_def)
    moreover obtain x rest where "ttis sp2 = x # rest"
      using sp2(1) by (cases "ttis sp2") (auto simp: tz_arrays_def)
    ultimately show ?thesis using sp2(3,4)
      by (auto simp: zone_wf_def sp3_def set_tti_def type_ok_def)
  next
    case False
    then obtain nm dstname dof where "parse_rules nm stdname sof dstname dof rule0 rule0 sp2 = (0, sp')"
      using assms(1) unfolding parse_dst_def sp2_def [symmetric] Let_def
      by (auto split: option.splits prod.splits if_splits)
    then show ?thesis using parse_rules_wf sp2 by blast
  qed
qed

lemma put_names_arrays: "tz_arrays sp \<Longrightarrow> tz_arrays (snd (put_names stdname dstname sp))"
  by (auto simp: put_names_def Let_def tz_arrays_def)

lemma parse_rules_arrays:
  assumes "tz_arrays sp" and "timecnt sp = 0"
  shows "tz_arrays (snd (parse_rules name stdname sof dstname dof r0 r1 sp))"
proof -
  have "tz_arrays (rule_years start fin sof dof 1970 0 sp2)" if "timecnt sp2 = 0" "tz_arrays sp2" for start fin sp2
    using rule_years_table(2) [OF that refl] .
  then show ?thesis using assms
    by (auto simp: parse_rules_def Let_def intro!: put_names_arrays split: option.splits prod.splits)
qed

lemma parse_dst_arrays:
  assumes "tz_arrays sp"
  shows "tz_arrays (snd (parse_dst rule0 load_result stdname sof s sp))"
  using assms unfolding parse_dst_def Let_def
  by (auto intro!: put_names_arrays parse_rules_arrays split: option.splits prod.splits)

text \<open>What \<open>tzparse\<close> relies on in the loader of the default rules: it keeps the invariant of the
  global state and the arrays, and a zone that it reports as loaded is well-formed. (\<open>UTC\<close> is
  excluded: \<open>tzload\<close> does not look at the result of loading it.)\<close>

locale zone_loader =
  fixes load :: "'g loader" and inv :: "'g \<Rightarrow> bool"
  assumes load_wf: "inv g \<Longrightarrow> tz_arrays sp \<Longrightarrow> load g name sp doextend = Some (Inr (g', r, sp')) \<Longrightarrow>
    inv g' \<and> tz_arrays sp' \<and> (r = 0 \<and> name \<noteq> ''UTC'' \<longrightarrow> zone_wf sp')"
begin

lemma tzparse_wf:
  assumes "inv g" and "tz_arrays sp" and "tzparse load rule0 g name sp lastditch = Some (Inr (g', r, sp'))"
  shows "inv g' \<and> tz_arrays sp' \<and> (r = 0 \<longrightarrow> zone_wf sp')"
proof (cases "parse_std name lastditch")
  case None
  then show ?thesis using assms by (simp add: tzparse_def)
next
  case (Some a)
  obtain stdname sof s where a: "a = (stdname, sof, s)" by (cases a)
  from assms(3) Some a obtain lr sp1 where
    l: "load g TZDEFRULES sp False = Some (Inr (g', lr, sp1))" and
    p: "parse_dst rule0 lr stdname sof s sp1 = (r, sp')"
    by (auto simp: tzparse_def split: option.splits sum.splits prod.splits)
  have wf: "inv g'" "tz_arrays sp1" "lr = 0 \<Longrightarrow> zone_wf sp1"
    using load_wf [OF assms(1,2) l] by (auto simp: TZDEFRULES_def)
  have "tz_arrays sp'" using parse_dst_arrays [OF wf(2), of rule0 lr stdname sof s] p by simp
  moreover have "zone_wf sp'" if "r = 0"
    using parse_dst_wf [OF _ wf(2)] p that wf(3) by (auto simp: zone_wf_def)
  ultimately show ?thesis using wf(1) by blast
qed

lemma tzparse_gmt:
  assumes "tzparse load rule0 g gmt sp True = Some (Inr (g', r, sp'))"
  shows "r = 0"
  using assms
  by (auto simp: tzparse_def parse_std_def gmt_def parse_dst_def put_names_def Let_def
      split: option.splits sum.splits prod.splits)

lemma gmtload_wf:
  assumes "inv g" and "tz_arrays sp" and "gmtload load rule0 g sp = Some (Inr (g', sp'))"
  shows "inv g' \<and> zone_wf sp'"
proof -
  from assms(3) obtain g1 r sp1 where l: "load g gmt sp True = Some (Inr (g1, r, sp1))"
    by (auto simp: gmtload_def split: option.splits sum.splits)
  have wf: "inv g1" "tz_arrays sp1" "r = 0 \<Longrightarrow> zone_wf sp1"
    using load_wf [OF assms(1,2) l] by (auto simp: gmt_def)
  show ?thesis
  proof (cases "r = 0")
    case True
    then show ?thesis using assms(3) l wf by (simp add: gmtload_def)
  next
    case False
    then obtain r2 where t: "tzparse load rule0 g1 gmt sp1 True = Some (Inr (g', r2, sp'))"
      using assms(3) l by (auto simp: gmtload_def split: option.splits sum.splits)
    then show ?thesis using tzparse_wf [OF wf(1,2) t] tzparse_gmt [OF t] by simp
  qed
qed

end

end
