(* ===== verification/Tz_File.thy ===== *)
theory Tz_File
  imports Tz_Parse
begin

text \<open>
  The compiled zone files of \<open>libcutils/tztime.c\<close>: the decoders of big-endian integers, \<open>tzload\<close> with
  its cache of four zones, and \<open>tzload_uncached\<close>, which finds a zone in the zone directory or in the
  Android archive, decodes its first data block and extends it by the rule string that may follow.
  The system calls are a record of functions; \<open>time_t\<close> and \<open>long\<close> have 32 bits. A pointer into the
  buffer is the rest of the buffer.
\<close>

unbundle bit_operations_syntax

subsection \<open>Decoding\<close>

definition uc :: "char \<Rightarrow> int" where
  "uc c = int (of_char c)"

definition detzcode :: "string \<Rightarrow> int" where
  "detzcode codep =
     fold (\<lambda>c result. s32 (push_bit 8 result OR (uc c AND 0xff))) (take 4 codep)
       (if uc (chr_at codep) AND 0x80 \<noteq> 0 then -1 else 0)"

definition detzcode64 :: "string \<Rightarrow> int" where
  "detzcode64 codep =
     fold (\<lambda>c result. s32 (result * 256 + (uc c AND 0xff))) (take 8 codep)
       (if uc (chr_at codep) AND 0x80 \<noteq> 0 then -1 else 0)"

definition SECSPERREPEAT_BITS :: int where "SECSPERREPEAT_BITS = 34"
definition YEARSPERREPEAT :: int where [simp]: "YEARSPERREPEAT = 400"
definition AVGSECSPERYEAR :: int where [simp]: "AVGSECSPERYEAR = 31556952"
definition sizeof_time_t :: nat where "sizeof_time_t = 4"

definition differ_by_repeat :: "int \<Rightarrow> int \<Rightarrow> bool" where
  "differ_by_repeat t1 t0 =
     (if int sizeof_time_t * 8 - 1 < SECSPERREPEAT_BITS then False
      else t1 - t0 = YEARSPERREPEAT * AVGSECSPERYEAR)"

definition toint :: "string \<Rightarrow> int" where
  "toint s = s32 (push_bit 24 (uc (s ! 0)) OR push_bit 16 (uc (s ! 1)) OR push_bit 8 (uc (s ! 2)) OR uc (s ! 3))"

subsection \<open>Finding the file\<close>

text \<open>The system calls: the contents of a file that \<open>open\<close> opens, \<open>access\<close>, and whether \<open>lseek\<close>,
  \<open>read\<close> and \<open>close\<close> succeed.\<close>

record tz_files =
  sys_open :: "string \<Rightarrow> string option"
  sys_access :: "string \<Rightarrow> bool"
  sys_lseek :: "string \<Rightarrow> int \<Rightarrow> bool"
  sys_read_ok :: "string \<Rightarrow> bool"
  sys_close :: "string \<Rightarrow> bool"

definition TZDIR :: string where "TZDIR = ''/usr/share/zoneinfo''"
definition TZDEFAULT :: string where "TZDEFAULT = ''localtime''"
definition INDEXFILE :: string where "INDEXFILE = ''/system/usr/share/zoneinfo/zoneinfo.idx''"
definition DATAFILE :: string where "DATAFILE = ''/system/usr/share/zoneinfo/zoneinfo.dat''"
definition NAMELEN :: nat where [simp]: "NAMELEN = 40"
definition INTLEN :: nat where [simp]: "INTLEN = 4"
definition READLEN :: nat where [simp]: "READLEN = NAMELEN + 3 * INTLEN"
definition FILENAME_MAX :: nat where [simp]: "FILENAME_MAX = 1024"

definition c_str :: "string \<Rightarrow> string" where
  "c_str s = takeWhile (\<lambda>c. c \<noteq> NUL) s"

text \<open>The path of a zone and whether \<open>access\<close> is asked; no path when it is too long.\<close>

definition zone_path :: "string \<Rightarrow> (string \<times> bool) option" where
  "zone_path name0 =
     (let name = (if chr_at name0 = CHR '':'' then tl name0 else name0)
      in if chr_at name = CHR ''/'' then Some (name, True)
         else if length TZDIR + length name + 1 \<ge> FILENAME_MAX + 1 then None
         else Some (TZDIR @ ''/'' @ name, CHR ''.'' \<in> set name))"

text \<open>The records of the index: a name, an offset and a length.\<close>

function index_scan :: "string \<Rightarrow> string \<Rightarrow> (int \<times> int) option" where
  "index_scan origname idx =
     (if length idx < READLEN then None
      else if c_str (take NAMELEN idx) = origname
      then Some (toint (drop NAMELEN idx), toint (drop (NAMELEN + INTLEN) idx))
      else index_scan origname (drop READLEN idx))"
  by pat_completeness auto
termination by (relation "measure (\<lambda>(_, idx). length idx)") auto

declare index_scan.simps [simp del]

definition buf_size :: nat where [simp]: "buf_size = 29000"

text \<open>The open file: its path, the position and the number of bytes to ask for.\<close>

definition open_zone :: "tz_files \<Rightarrow> string \<Rightarrow> (string \<times> int \<times> int) option" where
  "open_zone fs origname =
     (case zone_path origname of
        None \<Rightarrow> None
      | Some (name, doaccess) \<Rightarrow>
          if doaccess \<and> \<not> sys_access fs name then None
          else if sys_open fs name \<noteq> None then Some (name, 0, int buf_size)
          else
            (case sys_open fs INDEXFILE of
               None \<Rightarrow> None
             | Some idx \<Rightarrow>
                 (case index_scan origname idx of
                    None \<Rightarrow> None
                  | Some (off, toread) \<Rightarrow>
                      if off < 0 then None
                      else if sys_open fs DATAFILE = None then None
                      else if \<not> sys_lseek fs DATAFILE off then None
                      else Some (DATAFILE, off, toread))))"

text \<open>\<open>read\<close> into the buffer, whose bytes \<open>buf0\<close> are uninitialised: its new content and the number
  of bytes read. A \<open>toread\<close> from the index is not compared with the size of the buffer.\<close>

definition sys_read_at :: "tz_files \<Rightarrow> string \<Rightarrow> string \<Rightarrow> int \<Rightarrow> int \<Rightarrow> string" where
  "sys_read_at fs name content pos toread =
     (if sys_read_ok fs name then take (nat (toread mod 4294967296)) (drop (nat pos) content) else [])"

definition read_zone :: "tz_files \<Rightarrow> string \<Rightarrow> string \<times> int \<times> int \<Rightarrow> tz_fault + (string \<times> int)" where
  "read_zone fs buf0 f =
     (case f of (name, pos, toread) \<Rightarrow>
        (case sys_open fs name of
           None \<Rightarrow> Inl NullResult
         | Some content \<Rightarrow>
             let bytes = sys_read_at fs name content pos toread
             in if length bytes > buf_size then Inl OutOfBounds
                else if \<not> sys_close fs name \<or> bytes = [] then Inl NullResult
                else Inr (bytes @ drop (length bytes) buf0, int (length bytes))))"

subsection \<open>One data block\<close>

text \<open>The counts of the header, stored into the state, and the numbers of the two flag arrays.\<close>

definition ttisgmtcnt_of :: "string \<Rightarrow> int" where "ttisgmtcnt_of buf = detzcode (drop 20 buf)"
definition ttisstdcnt_of :: "string \<Rightarrow> int" where "ttisstdcnt_of buf = detzcode (drop 24 buf)"

definition load_counts :: "string \<Rightarrow> tzstate \<Rightarrow> tzstate" where
  "load_counts buf sp =
     sp\<lparr> leapcnt := detzcode (drop 28 buf), timecnt := detzcode (drop 32 buf),
         typecnt := detzcode (drop 36 buf), charcnt := detzcode (drop 40 buf) \<rparr>"

definition sizeof_tzhead :: nat where [simp]: "sizeof_tzhead = 44"

definition counts_ok :: "int \<Rightarrow> int \<Rightarrow> tzstate \<Rightarrow> bool" where
  "counts_ok ttisstdcnt ttisgmtcnt sp \<longleftrightarrow>
     \<not> (leapcnt sp < 0 \<or> leapcnt sp > int TZ_MAX_LEAPS \<or> typecnt sp \<le> 0 \<or> typecnt sp > int TZ_MAX_TYPES \<or>
        timecnt sp < 0 \<or> timecnt sp > int TZ_MAX_TIMES \<or> charcnt sp < 0 \<or> charcnt sp > int TZ_MAX_CHARS \<or>
        (ttisstdcnt \<noteq> typecnt sp \<and> ttisstdcnt \<noteq> 0) \<or> (ttisgmtcnt \<noteq> typecnt sp \<and> ttisgmtcnt \<noteq> 0))"

definition block_size :: "nat \<Rightarrow> int \<Rightarrow> int \<Rightarrow> tzstate \<Rightarrow> int" where
  "block_size stored ttisstdcnt ttisgmtcnt sp =
     timecnt sp * int stored + timecnt sp + typecnt sp * 6 + charcnt sp + leapcnt sp * (int stored + 4) +
     ttisstdcnt + ttisgmtcnt"

definition decode :: "nat \<Rightarrow> string \<Rightarrow> int" where
  "decode stored p = (if stored = 4 then detzcode p else detzcode64 p)"

text \<open>The loops over the arrays. Each takes the number of entries left, the index, the pointer and
  the array; those that may stop with an error return whether they went through.\<close>

fun load_ats :: "nat \<Rightarrow> nat \<Rightarrow> nat \<Rightarrow> string \<Rightarrow> int list \<Rightarrow> int list \<times> string" where
  "load_ats stored 0 i p xs = (xs, p)"
| "load_ats stored (Suc n) i p xs = load_ats stored n (i + 1) (drop stored p) (xs[i := decode stored p])"

fun load_types :: "int \<Rightarrow> nat \<Rightarrow> nat \<Rightarrow> string \<Rightarrow> int list \<Rightarrow> bool \<times> int list \<times> string" where
  "load_types cnt 0 i p xs = (True, xs, p)"
| "load_types cnt (Suc n) i p xs =
     (let t = uc (chr_at p); xs' = xs[i := t]
      in if t \<ge> cnt then (False, xs', tl p) else load_types cnt n (i + 1) (tl p) xs')"

fun load_ttis :: "int \<Rightarrow> nat \<Rightarrow> nat \<Rightarrow> string \<Rightarrow> ttinfo list \<Rightarrow> bool \<times> ttinfo list \<times> string" where
  "load_ttis cnt 0 i p tts = (True, tts, p)"
| "load_ttis cnt (Suc n) i p tts =
     (let isdst = uc (chr_at (drop 4 p)); abbrind = uc (chr_at (drop 5 p));
          tt = (tts ! i)\<lparr> tt_gmtoff := detzcode p, tt_isdst := isdst \<rparr>;
          tt' = tt\<lparr> tt_abbrind := abbrind \<rparr>
      in if isdst \<noteq> 0 \<and> isdst \<noteq> 1 then (False, tts[i := tt], drop 5 p)
         else if abbrind < 0 \<or> abbrind > cnt then (False, tts[i := tt'], drop 6 p)
         else load_ttis cnt n (i + 1) (drop 6 p) (tts[i := tt']))"

fun load_lsis :: "nat \<Rightarrow> nat \<Rightarrow> nat \<Rightarrow> string \<Rightarrow> lsinfo list \<Rightarrow> lsinfo list \<times> string" where
  "load_lsis stored 0 i p ls = (ls, p)"
| "load_lsis stored (Suc n) i p ls =
     load_lsis stored n (i + 1) (drop (stored + 4) p)
       (ls[i := \<lparr> ls_trans = decode stored p, ls_corr = detzcode (drop stored p) \<rparr>])"

fun load_isstd :: "int \<Rightarrow> nat \<Rightarrow> nat \<Rightarrow> string \<Rightarrow> ttinfo list \<Rightarrow> bool \<times> ttinfo list \<times> string" where
  "load_isstd ttisstdcnt 0 i p tts = (True, tts, p)"
| "load_isstd ttisstdcnt (Suc n) i p tts =
     (if ttisstdcnt = 0 then load_isstd ttisstdcnt n (i + 1) p (tts[i := (tts ! i)\<lparr> tt_ttisstd := 0 \<rparr>])
      else
        let v = uc (chr_at p); tts' = tts[i := (tts ! i)\<lparr> tt_ttisstd := v \<rparr>]
        in if v \<noteq> 1 \<and> v \<noteq> 0 then (False, tts', tl p) else load_isstd ttisstdcnt n (i + 1) (tl p) tts')"

fun load_isgmt :: "int \<Rightarrow> nat \<Rightarrow> nat \<Rightarrow> string \<Rightarrow> ttinfo list \<Rightarrow> bool \<times> ttinfo list \<times> string" where
  "load_isgmt ttisgmtcnt 0 i p tts = (True, tts, p)"
| "load_isgmt ttisgmtcnt (Suc n) i p tts =
     (if ttisgmtcnt = 0 then load_isgmt ttisgmtcnt n (i + 1) p (tts[i := (tts ! i)\<lparr> tt_ttisgmt := 0 \<rparr>])
      else
        let v = uc (chr_at p); tts' = tts[i := (tts ! i)\<lparr> tt_ttisgmt := v \<rparr>]
        in if v \<noteq> 1 \<and> v \<noteq> 0 then (False, tts', tl p) else load_isgmt ttisgmtcnt n (i + 1) (tl p) tts')"

text \<open>Transitions that are out of order end the table; \<open>time_t\<close> is signed.\<close>

fun first_unsorted :: "nat \<Rightarrow> nat \<Rightarrow> int list \<Rightarrow> nat option" where
  "first_unsorted 0 i xs = None"
| "first_unsorted (Suc n) i xs = (if xs ! i > xs ! (i + 1) then Some (i + 1) else first_unsorted n (i + 1) xs)"

definition cut_unsorted :: "tzstate \<Rightarrow> tzstate" where
  "cut_unsorted sp =
     (case first_unsorted (nat (timecnt sp - 2)) 0 (ats sp) of
        None \<Rightarrow> sp | Some i \<Rightarrow> sp\<lparr> timecnt := int i \<rparr>)"

text \<open>The body of the loop over the two blocks up to the order of the transitions: whether it goes
  on, the state, and the pointer behind the block.\<close>

definition load_block :: "nat \<Rightarrow> string \<Rightarrow> int \<Rightarrow> tzstate \<Rightarrow> bool \<times> tzstate \<times> string" where
  "load_block stored buf nread sp0 =
     (let ttisstdcnt = ttisstdcnt_of buf; ttisgmtcnt = ttisgmtcnt_of buf;
          sp = load_counts buf sp0; p = drop sizeof_tzhead buf
      in if \<not> counts_ok ttisstdcnt ttisgmtcnt sp then (False, sp, p)
         else if nread - int sizeof_tzhead < block_size stored ttisstdcnt ttisgmtcnt sp then (False, sp, p)
         else
           let timecnt' = nat (timecnt sp); typecnt' = nat (typecnt sp); charcnt' = nat (charcnt sp);
               (ats', p1) = load_ats stored timecnt' 0 p (ats sp);
               (ok2, types', p2) = load_types (typecnt sp) timecnt' 0 p1 (types sp);
               sp2 = sp\<lparr> ats := ats', types := types' \<rparr>
           in if \<not> ok2 then (False, sp2, p2)
              else
                let (ok3, ttis', p3) = load_ttis (charcnt sp) typecnt' 0 p2 (ttis sp)
                in if \<not> ok3 then (False, sp2\<lparr> ttis := ttis' \<rparr>, p3)
                   else
                     let chars' = take charcnt' p3 @ [NUL] @ drop (charcnt' + 1) (chars sp);
                         (lsis', p5) = load_lsis stored (nat (leapcnt sp)) 0 (drop charcnt' p3) (lsis sp);
                         (ok6, ttis6, p6) = load_isstd ttisstdcnt typecnt' 0 p5 ttis';
                         sp6 = sp2\<lparr> ttis := ttis6, chars := chars', lsis := lsis' \<rparr>
                     in if \<not> ok6 then (False, sp6, p6)
                        else
                          let (ok7, ttis7, p7) = load_isgmt ttisgmtcnt typecnt' 0 p6 ttis6;
                              sp7 = sp6\<lparr> ttis := ttis7 \<rparr>
                          in if \<not> ok7 then (False, sp7, p7) else (True, cut_unsorted sp7, p7))"

text \<open>The loop: after a block of a new-style file the rest of the bytes is moved to the front.\<close>

fun load_blocks :: "nat list \<Rightarrow> string \<Rightarrow> int \<Rightarrow> tzstate \<Rightarrow> bool \<times> tzstate \<times> string \<times> int" where
  "load_blocks [] buf nread sp = (True, sp, buf, nread)"
| "load_blocks (stored # ss) buf nread sp =
     (case load_block stored buf nread sp of (ok, sp', p) \<Rightarrow>
        if \<not> ok then (False, sp', buf, nread)
        else if buf ! 4 = NUL then (True, sp', buf, nread)
        else
          let nread' = nread - int (length buf - length p);
              buf' = take (nat nread') p @ drop (nat nread') buf
          in if stored \<ge> sizeof_time_t then (True, sp', buf', nread')
             else load_blocks ss buf' nread' sp')"

subsection \<open>The rule string behind the data\<close>

fun append_times :: "(int \<times> int) list \<Rightarrow> tzstate \<Rightarrow> tzstate" where
  "append_times [] sp = sp"
| "append_times ((at, ty) # xs) sp =
     (if timecnt sp < int TZ_MAX_TIMES then
        append_times xs
          (sp\<lparr> ats := (ats sp)[nat (timecnt sp) := at],
               types := (types sp)[nat (timecnt sp) := (typecnt sp + ty) mod 256],
               timecnt := timecnt sp + 1 \<rparr>)
      else sp)"

definition extend_zone :: "tzstate \<Rightarrow> tzstate \<Rightarrow> tz_fault + tzstate" where
  "extend_zone ts sp =
     (let shift = (\<lambda>tt. tt\<lparr> tt_abbrind := tt_abbrind tt + charcnt sp \<rparr>);
          c = nat (charcnt sp); d = nat (charcnt ts);
          sp1 = sp\<lparr> chars := take c (chars sp) @ take d (chars ts) @ drop (c + d) (chars sp),
                    charcnt := charcnt sp + charcnt ts \<rparr>
      in if timecnt ts > 0 \<and> timecnt sp \<le> 0 then Inl OutOfBounds
         else
           let last = ats sp ! nat (timecnt sp - 1);
               sp2 = append_times (dropWhile (\<lambda>(at, _). at \<le> last) (transitions ts)) sp1;
               n = nat (typecnt sp2)
           in Inr (sp2\<lparr> ttis := (ttis sp2)[n := shift (ttis ts ! 0), n + 1 := shift (ttis ts ! 1)],
                        typecnt := typecnt sp2 + 2 \<rparr>))"

text \<open>The flags for zones that repeat every 400 years. Where the table is short the second operand of
  \<open>&=\<close> is read outside \<open>types\<close>, but the flag is already clear.\<close>

definition set_repeat :: "tzstate \<Rightarrow> tzstate" where
  "set_repeat sp =
     (let i = 2 * YEARSPERREPEAT; long = timecnt sp > i; n = nat (timecnt sp - 1); j = nat i
      in sp\<lparr> goback := long \<and> types sp ! j = types sp ! 0 \<and> differ_by_repeat (ats sp ! j) (ats sp ! 0),
             goahead := long \<and> types sp ! n = types sp ! (n - j) \<and>
               differ_by_repeat (ats sp ! n) (ats sp ! (n - j)) \<rparr>)"

subsection \<open>Loading\<close>

text \<open>The uninitialised variables of \<open>tzload_uncached\<close>: the buffer, the state \<open>ts\<close>, and a rule of
  \<open>tzparse\<close>.\<close>

record tz_junk =
  j_buf :: string
  j_state :: tzstate
  j_rule :: rule

definition finish_load ::
  "tz_junk \<Rightarrow> 'g loader \<Rightarrow> 'g \<Rightarrow> bool \<Rightarrow> string \<Rightarrow> int \<Rightarrow> tzstate \<Rightarrow>
    (tz_fault + ('g \<times> int \<times> tzstate)) option" where
  "finish_load junk tzload g doextend buf nread sp =
     (if doextend \<and> nread > 2 \<and> buf ! 0 = CHR 0x0A \<and> buf ! nat (nread - 1) = CHR 0x0A \<and>
         typecnt sp + 2 \<le> int TZ_MAX_TYPES then
        (case tzparse tzload (j_rule junk) g
                (c_str (drop 1 (buf[nat (nread - 1) := NUL]))) (j_state junk) False of
           Some (Inr (g', result, ts)) \<Rightarrow>
             if result = 0 \<and> typecnt ts = 2 \<and> charcnt sp + charcnt ts \<le> int TZ_MAX_CHARS then
               (case extend_zone ts sp of
                  Inl e \<Rightarrow> Some (Inl e)
                | Inr sp2 \<Rightarrow> Some (Inr (g', 0, set_repeat sp2)))
             else Some (Inr (g', 0, set_repeat sp))
         | stop \<Rightarrow> stop)
      else Some (Inr (g, 0, set_repeat sp)))"

definition tzload_uncached ::
  "tz_files \<Rightarrow> tz_junk \<Rightarrow> 'g loader \<Rightarrow> 'g \<Rightarrow> string option \<Rightarrow> tzstate \<Rightarrow> bool \<Rightarrow>
    (tz_fault + ('g \<times> int \<times> tzstate)) option" where
  "tzload_uncached fs junk tzload g name sp doextend =
     (case open_zone fs (case name of None \<Rightarrow> TZDEFAULT | Some n \<Rightarrow> n) of
        None \<Rightarrow> Some (Inr (g, -1, sp))
      | Some f \<Rightarrow>
          (case read_zone fs (j_buf junk) f of
             Inl NullResult \<Rightarrow> Some (Inr (g, -1, sp))
           | Inl OutOfBounds \<Rightarrow> Some (Inl OutOfBounds)
           | Inr (buf, nread) \<Rightarrow>
               (case load_blocks [4, 8] buf nread sp of (ok, sp1, buf1, nread1) \<Rightarrow>
                  if \<not> ok then Some (Inr (g, -1, sp1))
                  else finish_load junk tzload g doextend buf1 nread1 sp1)))"

text \<open>The cache. A name that has been freed is still in its slot while the zone that replaces it is
  loaded; reading it then is undefined.\<close>

datatype cache_name = NoName | Name string | Freed

definition CACHE_COUNT :: nat where [simp]: "CACHE_COUNT = 4"

record tz_cache =
  g_cacheNames :: "cache_name list"
  g_cacheStates :: "tzstate list"
  g_lastCache :: nat
  g_utc :: tzstate
  g_utcSet :: bool

fun cache_find :: "string \<Rightarrow> nat \<Rightarrow> cache_name list \<Rightarrow> tz_fault + nat option" where
  "cache_find name i [] = Inr None"
| "cache_find name i (NoName # ns) = cache_find name (i + 1) ns"
| "cache_find name i (Freed # ns) = Inl OutOfBounds"
| "cache_find name i (Name n # ns) = (if n = name then Inr (Some i) else cache_find name (i + 1) ns)"

definition next_slot :: "tz_cache \<Rightarrow> nat" where
  "next_slot g = (let i = g_lastCache g + 1 in if i \<ge> CACHE_COUNT then 0 else i)"

definition free_name :: "cache_name \<Rightarrow> cache_name" where
  "free_name n = (if n = NoName then NoName else Freed)"

definition evict :: "tz_cache \<Rightarrow> tz_cache" where
  "evict g = (let i = next_slot g in
     g\<lparr> g_lastCache := i, g_cacheNames := (g_cacheNames g)[i := free_name (g_cacheNames g ! i)] \<rparr>)"

definition tzload_step :: "tz_files \<Rightarrow> tz_junk \<Rightarrow> tz_cache loader \<Rightarrow> tz_cache loader" where
  "tzload_step fs junk tzload g name sp doextend =
     (if name = ''UTC'' then
        if g_utcSet g then Some (Inr (g, 0, g_utc g))
        else
          (case tzload_uncached fs junk tzload g (Some name) (g_utc g) True of
             Some (Inr (g', _, utc)) \<Rightarrow> Some (Inr (g'\<lparr> g_utc := utc, g_utcSet := True \<rparr>, 0, utc))
           | stop \<Rightarrow> stop)
      else
        (case cache_find name 0 (g_cacheNames g) of
           Inl e \<Rightarrow> Some (Inl e)
         | Inr (Some i) \<Rightarrow> Some (Inr (g, 0, g_cacheStates g ! i))
         | Inr None \<Rightarrow>
             let i = next_slot g; g1 = evict g
             in (case tzload_uncached fs junk tzload g1 (Some name) (g_cacheStates g1 ! i) True of
                   Some (Inr (g', err, st)) \<Rightarrow>
                     let g2 = g'\<lparr> g_cacheStates := (g_cacheStates g')[i := st] \<rparr>
                     in if err = 0
                        then Some (Inr (g2\<lparr> g_cacheNames := (g_cacheNames g2)[i := Name name] \<rparr>, 0, st))
                        else Some (Inr (g2\<lparr> g_cacheNames := (g_cacheNames g2)[i := NoName] \<rparr>, err, sp))
                 | stop \<Rightarrow> stop)))"

text \<open>\<open>tzload\<close> calls itself through \<open>tzparse\<close>, for the default rules; the number bounds the depth of
  the calls.\<close>

fun tzload_named :: "tz_files \<Rightarrow> tz_junk \<Rightarrow> nat \<Rightarrow> tz_cache loader" where
  "tzload_named fs junk 0 = (\<lambda>g name sp doextend. None)"
| "tzload_named fs junk (Suc n) = tzload_step fs junk (tzload_named fs junk n)"

definition tzload ::
  "tz_files \<Rightarrow> tz_junk \<Rightarrow> nat \<Rightarrow> tz_cache \<Rightarrow> string option \<Rightarrow> tzstate \<Rightarrow> bool \<Rightarrow>
    (tz_fault + (tz_cache \<times> int \<times> tzstate)) option" where
  "tzload fs junk depth g name sp doextend =
     (case name of
        Some n \<Rightarrow> tzload_named fs junk depth g n sp doextend
      | None \<Rightarrow> tzload_uncached fs junk (tzload_named fs junk depth) g None sp doextend)"

subsection \<open>What the loops compute\<close>

lemma list_update_split:
  assumes "i < length xs"
  shows "take (Suc i) (xs[i := v]) = take i xs @ [v]" and "drop (Suc (i + n)) (xs[i := v]) = drop (Suc (i + n)) xs"
  using assms by (simp_all add: take_Suc_conv_app_nth)

lemma load_ats_eq:
  "i + n \<le> length xs \<Longrightarrow> load_ats stored n i p xs =
    (take i xs @ map (\<lambda>k. decode stored (drop (k * stored) p)) [0..<n] @ drop (i + n) xs, drop (n * stored) p)"
proof (induction n arbitrary: i p xs)
  case (Suc n)
  have i: "i < length xs" using Suc.prems by simp
  show ?case using Suc.IH [of "i + 1" "xs[i := decode stored p]" "drop stored p"] Suc.prems
    by (simp add: list_update_split [OF i] map_upt_Suc ac_simps del: upt_Suc)
qed simp

lemma load_lsis_eq:
  "i + n \<le> length xs \<Longrightarrow> load_lsis stored n i p xs =
    (take i xs @ map (\<lambda>k. \<lparr> ls_trans = decode stored (drop (k * (stored + 4)) p),
        ls_corr = detzcode (drop (stored + k * (stored + 4)) p) \<rparr>) [0..<n] @ drop (i + n) xs,
     drop (n * (stored + 4)) p)"
proof (induction n arbitrary: i p xs)
  case (Suc n)
  have i: "i < length xs" using Suc.prems by simp
  show ?case
    using Suc.IH [of "i + 1" "xs[i := \<lparr> ls_trans = decode stored p, ls_corr = detzcode (drop stored p) \<rparr>]"
        "drop (stored + 4) p"] Suc.prems
    by (simp add: list_update_split [OF i] map_upt_Suc ac_simps del: upt_Suc)
qed simp

lemma load_types_eq:
  "i + n \<le> length xs \<Longrightarrow> \<forall>k < n. uc (chr_at (drop k p)) < cnt \<Longrightarrow> load_types cnt n i p xs =
    (True, take i xs @ map (\<lambda>k. uc (chr_at (drop k p))) [0..<n] @ drop (i + n) xs, drop n p)"
proof (induction n arbitrary: i p xs)
  case (Suc n)
  have i: "i < length xs" using Suc.prems by simp
  have c: "uc (chr_at p) < cnt" using Suc.prems(2) by (metis drop_0 zero_less_Suc)
  have cs: "\<forall>k < n. uc (chr_at (drop k (tl p))) < cnt" using Suc.prems(2) by (simp add: drop_Suc [symmetric])
  show ?case using Suc.IH [of "i + 1" "xs[i := uc (chr_at p)]" "tl p", OF _ cs] Suc.prems c
    by (simp add: list_update_split [OF i] map_upt_Suc drop_Suc [of _ p] Let_def del: upt_Suc)
qed simp

lemma load_types_ok:
  "load_types cnt n i p xs = (True, xs', p') \<Longrightarrow> \<forall>k < n. uc (chr_at (drop k p)) < cnt"
proof (induction n arbitrary: i p xs)
  case (Suc n)
  then have "uc (chr_at p) < cnt" and "\<forall>k < n. uc (chr_at (drop k (tl p))) < cnt"
    by (auto simp: Let_def not_le split: if_splits)
  then show ?case by (simp add: All_less_Suc2 drop_Suc)
qed simp

lemma load_types_length: "load_types cnt n i p xs = (ok, xs', p') \<Longrightarrow> length xs' = length xs"
  by (induction n arbitrary: i p xs) (auto simp: Let_def split: if_splits)

lemma uc_range: "0 \<le> uc c" "uc c < 256"
  using nat_of_char_less_256 [of c] by (simp_all add: uc_def)

text \<open>The fields of one type and the two flags of a type.\<close>

definition tti_fields :: "string \<Rightarrow> ttinfo \<Rightarrow> ttinfo" where
  "tti_fields q tt = tt\<lparr> tt_gmtoff := detzcode q, tt_isdst := uc (chr_at (drop 4 q)),
     tt_abbrind := uc (chr_at (drop 5 q)) \<rparr>"

definition tti_ok :: "int \<Rightarrow> string \<Rightarrow> bool" where
  "tti_ok cnt q \<longleftrightarrow> uc (chr_at (drop 4 q)) \<in> {0, 1} \<and> uc (chr_at (drop 5 q)) \<le> cnt"

definition flag_at :: "int \<Rightarrow> string \<Rightarrow> nat \<Rightarrow> int" where
  "flag_at cnt p k = (if cnt = 0 then 0 else uc (chr_at (drop k p)))"

lemma nth_update_later: "(xs[i := v]) ! Suc (i + k) = xs ! Suc (i + k)"
  by simp

lemma load_ttis_step:
  "tti_ok cnt p \<Longrightarrow>
    load_ttis cnt (Suc n) i p tts = load_ttis cnt n (i + 1) (drop 6 p) (tts[i := tti_fields p (tts ! i)])"
  "\<not> tti_ok cnt p \<Longrightarrow> \<not> fst (load_ttis cnt (Suc n) i p tts)"
  using uc_range(1) [of "chr_at (drop 5 p)"] by (auto simp: tti_ok_def tti_fields_def Let_def)

lemma load_ttis_eq:
  "i + n \<le> length tts \<Longrightarrow> \<forall>k < n. tti_ok cnt (drop (k * 6) p) \<Longrightarrow> load_ttis cnt n i p tts =
    (True, take i tts @ map (\<lambda>k. tti_fields (drop (k * 6) p) (tts ! (i + k))) [0..<n] @ drop (i + n) tts,
     drop (n * 6) p)"
proof (induction n arbitrary: i p tts)
  case (Suc n)
  have i: "i < length tts" using Suc.prems by simp
  let ?v = "tti_fields p (tts ! i)"
  have c: "tti_ok cnt p" and cs: "\<forall>k < n. tti_ok cnt (drop (k * 6) (drop 6 p))"
    using Suc.prems(2) by (simp_all add: All_less_Suc2 ac_simps)
  have "load_ttis cnt (Suc n) i p tts = load_ttis cnt n (i + 1) (drop 6 p) (tts[i := ?v])"
    by (rule load_ttis_step(1) [OF c])
  also have "\<dots> = (True, take (i + 1) (tts[i := ?v]) @
      map (\<lambda>k. tti_fields (drop (k * 6) (drop 6 p)) (tts[i := ?v] ! (i + 1 + k))) [0..<n] @
      drop (i + 1 + n) (tts[i := ?v]), drop (n * 6) (drop 6 p))"
    using Suc.prems(1) by (intro Suc.IH cs) simp
  finally show ?case
    by (simp add: list_update_split [OF i] nth_update_later map_upt_Suc ac_simps del: upt_Suc)
qed simp

lemma load_ttis_ok:
  "load_ttis cnt n i p tts = (True, tts', p') \<Longrightarrow> \<forall>k < n. tti_ok cnt (drop (k * 6) p)"
proof (induction n arbitrary: i p tts)
  case (Suc n)
  have c: "tti_ok cnt p" using load_ttis_step(2) [of cnt p n i tts] Suc.prems by force
  have "\<forall>k < n. tti_ok cnt (drop (k * 6) (drop 6 p))"
    using Suc.prems unfolding load_ttis_step(1) [OF c] by (rule Suc.IH)
  with c show ?case by (simp add: All_less_Suc2 ac_simps)
qed simp

lemma load_ttis_length: "load_ttis cnt n i p tts = (ok, tts', p') \<Longrightarrow> length tts' = length tts"
  by (induction n arbitrary: i p tts) (auto simp: Let_def split: if_splits)

lemma flag_at_Suc: "flag_at cnt p (Suc k) = flag_at cnt (if cnt = 0 then p else tl p) k"
  by (simp add: flag_at_def drop_Suc)

lemma load_isstd_step:
  "load_isstd cnt (Suc n) i p tts =
    (let p' = (if cnt = 0 then p else tl p); tts' = tts[i := (tts ! i)\<lparr> tt_ttisstd := flag_at cnt p 0 \<rparr>]
     in if flag_at cnt p 0 \<in> {0, 1} then load_isstd cnt n (i + 1) p' tts' else (False, tts', p'))"
  by (simp add: flag_at_def Let_def)

lemma load_isgmt_step:
  "load_isgmt cnt (Suc n) i p tts =
    (let p' = (if cnt = 0 then p else tl p); tts' = tts[i := (tts ! i)\<lparr> tt_ttisgmt := flag_at cnt p 0 \<rparr>]
     in if flag_at cnt p 0 \<in> {0, 1} then load_isgmt cnt n (i + 1) p' tts' else (False, tts', p'))"
  by (simp add: flag_at_def Let_def)

lemma load_isstd_eq:
  "i + n \<le> length tts \<Longrightarrow> \<forall>k < n. flag_at cnt p k \<in> {0, 1} \<Longrightarrow> load_isstd cnt n i p tts =
    (True, take i tts @ map (\<lambda>k. (tts ! (i + k))\<lparr> tt_ttisstd := flag_at cnt p k \<rparr>) [0..<n] @ drop (i + n) tts,
     if cnt = 0 then p else drop n p)"
proof (induction n arbitrary: i p tts)
  case (Suc n)
  have i: "i < length tts" using Suc.prems by simp
  let ?p = "if cnt = 0 then p else tl p"
  let ?tts = "tts[i := (tts ! i)\<lparr> tt_ttisstd := flag_at cnt p 0 \<rparr>]"
  have c: "flag_at cnt p 0 \<in> {0, 1}" and cs: "\<forall>k < n. flag_at cnt ?p k \<in> {0, 1}"
    using Suc.prems(2) unfolding All_less_Suc2 flag_at_Suc by blast+
  have "load_isstd cnt (Suc n) i p tts = load_isstd cnt n (i + 1) ?p ?tts"
    unfolding load_isstd_step Let_def using c by simp
  also have "\<dots> = (True, take (i + 1) ?tts @
      map (\<lambda>k. (?tts ! (i + 1 + k))\<lparr> tt_ttisstd := flag_at cnt ?p k \<rparr>) [0..<n] @ drop (i + 1 + n) ?tts,
      if cnt = 0 then ?p else drop n ?p)"
    using Suc.prems(1) by (intro Suc.IH cs) simp
  finally show ?case
    by (simp add: list_update_split [OF i] nth_update_later map_upt_Suc flag_at_Suc drop_Suc [of _ p] del: upt_Suc)
qed simp

lemma load_isgmt_eq:
  "i + n \<le> length tts \<Longrightarrow> \<forall>k < n. flag_at cnt p k \<in> {0, 1} \<Longrightarrow> load_isgmt cnt n i p tts =
    (True, take i tts @ map (\<lambda>k. (tts ! (i + k))\<lparr> tt_ttisgmt := flag_at cnt p k \<rparr>) [0..<n] @ drop (i + n) tts,
     if cnt = 0 then p else drop n p)"
proof (induction n arbitrary: i p tts)
  case (Suc n)
  have i: "i < length tts" using Suc.prems by simp
  let ?p = "if cnt = 0 then p else tl p"
  let ?tts = "tts[i := (tts ! i)\<lparr> tt_ttisgmt := flag_at cnt p 0 \<rparr>]"
  have c: "flag_at cnt p 0 \<in> {0, 1}" and cs: "\<forall>k < n. flag_at cnt ?p k \<in> {0, 1}"
    using Suc.prems(2) unfolding All_less_Suc2 flag_at_Suc by blast+
  have "load_isgmt cnt (Suc n) i p tts = load_isgmt cnt n (i + 1) ?p ?tts"
    unfolding load_isgmt_step Let_def using c by simp
  also have "\<dots> = (True, take (i + 1) ?tts @
      map (\<lambda>k. (?tts ! (i + 1 + k))\<lparr> tt_ttisgmt := flag_at cnt ?p k \<rparr>) [0..<n] @ drop (i + 1 + n) ?tts,
      if cnt = 0 then ?p else drop n ?p)"
    using Suc.prems(1) by (intro Suc.IH cs) simp
  finally show ?case
    by (simp add: list_update_split [OF i] nth_update_later map_upt_Suc flag_at_Suc drop_Suc [of _ p] del: upt_Suc)
qed simp

definition same_types :: "ttinfo list \<Rightarrow> ttinfo list \<Rightarrow> bool" where
  "same_types tts tts' \<longleftrightarrow> length tts' = length tts \<and> map tt_isdst tts' = map tt_isdst tts \<and>
     map tt_abbrind tts' = map tt_abbrind tts"

lemma map_update_same: "f y = f (xs ! j) \<Longrightarrow> map f (xs[j := y]) = map f xs"
  by (metis list_update_beyond list_update_id map_update not_le)

lemma same_types_update:
  "same_types tts (tts[j := (tts ! j)\<lparr> tt_ttisstd := v \<rparr>])"
  "same_types tts (tts[j := (tts ! j)\<lparr> tt_ttisgmt := v \<rparr>])"
  by (simp_all add: same_types_def map_update_same)

lemma same_types_trans: "same_types a b \<Longrightarrow> same_types b c \<Longrightarrow> same_types a c"
  by (simp add: same_types_def)

lemma load_isstd_keep:
  "load_isstd cnt n i p tts = (ok, tts', p') \<Longrightarrow> same_types tts tts'"
proof (induction n arbitrary: i p tts)
  case (Suc n)
  let ?tts = "tts[i := (tts ! i)\<lparr> tt_ttisstd := flag_at cnt p 0 \<rparr>]"
  have "tts' = ?tts \<or> same_types ?tts tts'"
  proof (cases "flag_at cnt p 0 \<in> {0, 1}")
    case True
    then show ?thesis using Suc.prems unfolding load_isstd_step Let_def if_P [OF True] by (blast dest: Suc.IH)
  next
    case False
    then show ?thesis using Suc.prems unfolding load_isstd_step Let_def if_not_P [OF False] by simp
  qed
  then show ?case using same_types_update(1) same_types_trans by blast
qed (simp add: same_types_def)

lemma load_isgmt_keep:
  "load_isgmt cnt n i p tts = (ok, tts', p') \<Longrightarrow> same_types tts tts'"
proof (induction n arbitrary: i p tts)
  case (Suc n)
  let ?tts = "tts[i := (tts ! i)\<lparr> tt_ttisgmt := flag_at cnt p 0 \<rparr>]"
  have "tts' = ?tts \<or> same_types ?tts tts'"
  proof (cases "flag_at cnt p 0 \<in> {0, 1}")
    case True
    then show ?thesis using Suc.prems unfolding load_isgmt_step Let_def if_P [OF True] by (blast dest: Suc.IH)
  next
    case False
    then show ?thesis using Suc.prems unfolding load_isgmt_step Let_def if_not_P [OF False] by simp
  qed
  then show ?case using same_types_update(2) same_types_trans by blast
qed (simp add: same_types_def)

subsection \<open>A whole block\<close>

text \<open>The pointers at which the arrays of a block start, and the state the block describes.\<close>

definition p_types :: "nat \<Rightarrow> string \<Rightarrow> tzstate \<Rightarrow> string" where
  "p_types stored buf sp = drop (nat (timecnt sp) * stored) (drop sizeof_tzhead buf)"
definition p_ttis :: "nat \<Rightarrow> string \<Rightarrow> tzstate \<Rightarrow> string" where
  "p_ttis stored buf sp = drop (nat (timecnt sp)) (p_types stored buf sp)"
definition p_chars :: "nat \<Rightarrow> string \<Rightarrow> tzstate \<Rightarrow> string" where
  "p_chars stored buf sp = drop (nat (typecnt sp) * 6) (p_ttis stored buf sp)"
definition p_lsis :: "nat \<Rightarrow> string \<Rightarrow> tzstate \<Rightarrow> string" where
  "p_lsis stored buf sp = drop (nat (charcnt sp)) (p_chars stored buf sp)"
definition p_isstd :: "nat \<Rightarrow> string \<Rightarrow> tzstate \<Rightarrow> string" where
  "p_isstd stored buf sp = drop (nat (leapcnt sp) * (stored + 4)) (p_lsis stored buf sp)"
definition p_isgmt :: "nat \<Rightarrow> string \<Rightarrow> tzstate \<Rightarrow> string" where
  "p_isgmt stored buf sp =
     (if ttisstdcnt_of buf = 0 then p_isstd stored buf sp
      else drop (nat (typecnt sp)) (p_isstd stored buf sp))"
definition p_end :: "nat \<Rightarrow> string \<Rightarrow> tzstate \<Rightarrow> string" where
  "p_end stored buf sp =
     (if ttisgmtcnt_of buf = 0 then p_isgmt stored buf sp
      else drop (nat (typecnt sp)) (p_isgmt stored buf sp))"

lemmas p_defs = p_types_def p_ttis_def p_chars_def p_lsis_def p_isstd_def p_isgmt_def p_end_def

definition block_type :: "nat \<Rightarrow> string \<Rightarrow> tzstate \<Rightarrow> nat \<Rightarrow> ttinfo" where
  "block_type stored buf sp k =
     (tti_fields (drop (k * 6) (p_ttis stored buf sp)) (ttis sp ! k))\<lparr>
        tt_ttisstd := flag_at (ttisstdcnt_of buf) (p_isstd stored buf sp) k,
        tt_ttisgmt := flag_at (ttisgmtcnt_of buf) (p_isgmt stored buf sp) k \<rparr>"

definition block_state :: "nat \<Rightarrow> string \<Rightarrow> tzstate \<Rightarrow> tzstate" where
  "block_state stored buf sp = (let n = nat (timecnt sp); m = nat (typecnt sp); c = nat (charcnt sp); l = nat (leapcnt sp) in
     sp\<lparr> ats := map (\<lambda>k. decode stored (drop (k * stored) (drop sizeof_tzhead buf))) [0..<n] @ drop n (ats sp),
         types := map (\<lambda>k. uc (chr_at (drop k (p_types stored buf sp)))) [0..<n] @ drop n (types sp),
         ttis := map (block_type stored buf sp) [0..<m] @ drop m (ttis sp),
         chars := take c (p_chars stored buf sp) @ [NUL] @ drop (c + 1) (chars sp),
         lsis := map (\<lambda>k. \<lparr> ls_trans = decode stored (drop (k * (stored + 4)) (p_lsis stored buf sp)),
             ls_corr = detzcode (drop (stored + k * (stored + 4)) (p_lsis stored buf sp)) \<rparr>) [0..<l] @
           drop l (lsis sp) \<rparr>)"

definition block_ok :: "nat \<Rightarrow> string \<Rightarrow> int \<Rightarrow> tzstate \<Rightarrow> bool" where
  "block_ok stored buf nread sp \<longleftrightarrow>
     counts_ok (ttisstdcnt_of buf) (ttisgmtcnt_of buf) sp \<and>
     block_size stored (ttisstdcnt_of buf) (ttisgmtcnt_of buf) sp \<le> nread - 44 \<and>
     (\<forall>k < nat (timecnt sp). uc (chr_at (drop k (p_types stored buf sp))) < typecnt sp) \<and>
     (\<forall>k < nat (typecnt sp). tti_ok (charcnt sp) (drop (k * 6) (p_ttis stored buf sp)) \<and>
        flag_at (ttisstdcnt_of buf) (p_isstd stored buf sp) k \<in> {0, 1} \<and>
        flag_at (ttisgmtcnt_of buf) (p_isgmt stored buf sp) k \<in> {0, 1})"

lemma counts_okD:
  assumes "counts_ok s g sp"
  shows "0 \<le> leapcnt sp" "leapcnt sp \<le> 50" "1 \<le> typecnt sp" "typecnt sp \<le> 256" "0 \<le> timecnt sp"
    "timecnt sp \<le> 1200" "0 \<le> charcnt sp" "charcnt sp \<le> 50" "s = typecnt sp \<or> s = 0" "g = typecnt sp \<or> g = 0"
  using assms by (auto simp: counts_ok_def)

lemma take_map_upt_drop:
  "n \<le> length xs \<Longrightarrow> k < n \<Longrightarrow> (map f [0..<n] @ drop n xs) ! k = f k"
  by (simp add: nth_append)

lemma load_block_eq:
  assumes "tz_arrays sp0" and "sp = load_counts buf sp0" and "block_ok stored buf nread sp"
  shows "load_block stored buf nread sp0 = (True, cut_unsorted (block_state stored buf sp), p_end stored buf sp)"
proof -
  note c = counts_okD [OF assms(3) [unfolded block_ok_def, THEN conjunct1]]
  from assms(1) have arr: "length (ats sp) = 1200" "length (types sp) = 1200" "length (ttis sp) = 256"
    "length (lsis sp) = 50" by (simp_all add: assms(2) load_counts_def tz_arrays_def)
  let ?n = "nat (timecnt sp)" and ?m = "nat (typecnt sp)" and ?l = "nat (leapcnt sp)"
  let ?std = "ttisstdcnt_of buf" and ?gmt = "ttisgmtcnt_of buf"
  have ats: "load_ats stored ?n 0 (drop 44 buf) (ats sp) = (map (\<lambda>k. decode stored (drop (k * stored) (drop 44 buf))) [0..<?n]
      @ drop ?n (ats sp), p_types stored buf sp)"
    using c arr by (subst load_ats_eq) (auto simp: p_types_def)
  have types: "load_types (typecnt sp) ?n 0 (p_types stored buf sp) (types sp) = (True,
      map (\<lambda>k. uc (chr_at (drop k (p_types stored buf sp)))) [0..<?n] @ drop ?n (types sp), p_ttis stored buf sp)"
    using c arr assms(3) by (subst load_types_eq) (auto simp: p_ttis_def block_ok_def)
  define tts where "tts = map (\<lambda>k. tti_fields (drop (k * 6) (p_ttis stored buf sp)) (ttis sp ! k)) [0..<?m] @ drop ?m (ttis sp)"
  have ttis: "load_ttis (charcnt sp) ?m 0 (p_ttis stored buf sp) (ttis sp) = (True, tts, p_chars stored buf sp)"
    using c arr assms(3) by (subst load_ttis_eq) (auto simp: p_chars_def block_ok_def tts_def)
  have lsis: "load_lsis stored ?l 0 (p_lsis stored buf sp) (lsis sp) = (lsis (block_state stored buf sp), p_isstd stored buf sp)"
    using c arr by (subst load_lsis_eq) (auto simp: p_isstd_def block_state_def Let_def)
  have lt: "length tts = 256" "?m \<le> 256" using c arr by (simp_all add: tts_def)
  define tts1 where "tts1 = map (\<lambda>k. (tts ! k)\<lparr> tt_ttisstd := flag_at ?std (p_isstd stored buf sp) k \<rparr>) [0..<?m] @ drop ?m tts"
  have std: "load_isstd ?std ?m 0 (p_isstd stored buf sp) tts = (True, tts1, p_isgmt stored buf sp)"
    using lt assms(3) by (subst load_isstd_eq) (auto simp: p_isgmt_def block_ok_def tts1_def)
  have "load_isgmt ?gmt ?m 0 (p_isgmt stored buf sp) tts1 = (True,
      map (\<lambda>k. (tts1 ! k)\<lparr> tt_ttisgmt := flag_at ?gmt (p_isgmt stored buf sp) k \<rparr>) [0..<?m] @ drop ?m tts1,
      p_end stored buf sp)"
    using lt assms(3) by (subst load_isgmt_eq) (auto simp: p_end_def block_ok_def tts1_def)
  also have "map (\<lambda>k. (tts1 ! k)\<lparr> tt_ttisgmt := flag_at ?gmt (p_isgmt stored buf sp) k \<rparr>) [0..<?m] @ drop ?m tts1
      = ttis (block_state stored buf sp)"
    using lt arr by (auto simp: tts1_def tts_def block_state_def block_type_def Let_def take_map_upt_drop)
  finally have gmt: "load_isgmt ?gmt ?m 0 (p_isgmt stored buf sp) tts1
      = (True, ttis (block_state stored buf sp), p_end stored buf sp)" .
  have guards: "counts_ok ?std ?gmt sp" "\<not> nread - 44 < block_size stored ?std ?gmt sp"
    using assms(3) by (auto simp: block_ok_def)
  show ?thesis
    unfolding load_block_def assms(2) [symmetric] Let_def sizeof_tzhead_def
    using guards by (simp add: ats types ttis p_lsis_def [symmetric] lsis std gmt)
      (intro arg_cong [where f = cut_unsorted] tzstate.equality; simp add: block_state_def Let_def)
qed

lemma load_isstd_ok:
  "load_isstd cnt n i p tts = (True, tts', p') \<Longrightarrow> \<forall>k < n. flag_at cnt p k \<in> {0, 1}"
proof (induction n arbitrary: i p tts)
  case (Suc n)
  have c: "flag_at cnt p 0 \<in> {0, 1}"
  proof (rule ccontr)
    assume n: "flag_at cnt p 0 \<notin> {0, 1}"
    from Suc.prems show False unfolding load_isstd_step Let_def if_not_P [OF n] by simp
  qed
  have "\<forall>k < n. flag_at cnt (if cnt = 0 then p else tl p) k \<in> {0, 1}"
    using Suc.prems unfolding load_isstd_step Let_def if_P [OF c] by (rule Suc.IH)
  with c show ?case unfolding All_less_Suc2 flag_at_Suc by blast
qed simp

lemma load_isgmt_ok:
  "load_isgmt cnt n i p tts = (True, tts', p') \<Longrightarrow> \<forall>k < n. flag_at cnt p k \<in> {0, 1}"
proof (induction n arbitrary: i p tts)
  case (Suc n)
  have c: "flag_at cnt p 0 \<in> {0, 1}"
  proof (rule ccontr)
    assume n: "flag_at cnt p 0 \<notin> {0, 1}"
    from Suc.prems show False unfolding load_isgmt_step Let_def if_not_P [OF n] by simp
  qed
  have "\<forall>k < n. flag_at cnt (if cnt = 0 then p else tl p) k \<in> {0, 1}"
    using Suc.prems unfolding load_isgmt_step Let_def if_P [OF c] by (rule Suc.IH)
  with c show ?case unfolding All_less_Suc2 flag_at_Suc by blast
qed simp

text \<open>The pointers where a loop has gone through.\<close>

lemma load_block_pointers:
  assumes "tz_arrays sp" and "counts_ok s g sp"
  shows "load_ats stored (nat (timecnt sp)) 0 (drop 44 buf) (ats sp) = (a, p1) \<Longrightarrow>
      p1 = p_types stored buf sp \<and> length a = 1200"
    and "load_types (typecnt sp) (nat (timecnt sp)) 0 (p_types stored buf sp) (types sp) = (True, t, p2) \<Longrightarrow>
      p2 = p_ttis stored buf sp"
    and "load_ttis (charcnt sp) (nat (typecnt sp)) 0 (p_ttis stored buf sp) (ttis sp) = (True, tts, p3) \<Longrightarrow>
      p3 = p_chars stored buf sp"
    and "load_lsis stored (nat (leapcnt sp)) 0 (p_lsis stored buf sp) (lsis sp) = (l, p5) \<Longrightarrow>
      p5 = p_isstd stored buf sp \<and> length l = 50"
proof -
  note c = counts_okD [OF assms(2)]
  from assms(1) have arr: "length (ats sp) = 1200" "length (types sp) = 1200" "length (ttis sp) = 256"
    "length (lsis sp) = 50" by (simp_all add: tz_arrays_def)
  show "load_ats stored (nat (timecnt sp)) 0 (drop 44 buf) (ats sp) = (a, p1) \<Longrightarrow>
      p1 = p_types stored buf sp \<and> length a = 1200"
    using load_ats_eq [of 0 "nat (timecnt sp)" "ats sp" stored "drop 44 buf"] c arr by (auto simp: p_types_def)
  show "load_types (typecnt sp) (nat (timecnt sp)) 0 (p_types stored buf sp) (types sp) = (True, t, p2) \<Longrightarrow>
      p2 = p_ttis stored buf sp"
    using load_types_eq [of 0 "nat (timecnt sp)" "types sp" "p_types stored buf sp" "typecnt sp"] c arr
    by (auto simp: p_ttis_def dest: load_types_ok)
  show "load_ttis (charcnt sp) (nat (typecnt sp)) 0 (p_ttis stored buf sp) (ttis sp) = (True, tts, p3) \<Longrightarrow>
      p3 = p_chars stored buf sp"
    using load_ttis_eq [of 0 "nat (typecnt sp)" "ttis sp" "charcnt sp" "p_ttis stored buf sp"] c arr
    by (auto simp: p_chars_def dest: load_ttis_ok)
  show "load_lsis stored (nat (leapcnt sp)) 0 (p_lsis stored buf sp) (lsis sp) = (l, p5) \<Longrightarrow>
      p5 = p_isstd stored buf sp \<and> length l = 50"
    using load_lsis_eq [of 0 "nat (leapcnt sp)" "lsis sp" stored "p_lsis stored buf sp"] c arr
    by (auto simp: p_isstd_def)
qed

lemma tz_arrays_load_counts [simp]: "tz_arrays (load_counts buf sp) = tz_arrays sp"
  by (simp add: load_counts_def tz_arrays_def)

lemma cut_unsorted_fields [simp]:
  "ats (cut_unsorted sp) = ats sp" "types (cut_unsorted sp) = types sp" "ttis (cut_unsorted sp) = ttis sp"
  "chars (cut_unsorted sp) = chars sp" "lsis (cut_unsorted sp) = lsis sp" "typecnt (cut_unsorted sp) = typecnt sp"
  "charcnt (cut_unsorted sp) = charcnt sp" "leapcnt (cut_unsorted sp) = leapcnt sp"
  by (simp_all add: cut_unsorted_def split: option.splits)

text \<open>The characters of a block lie inside the bytes that were read.\<close>

lemma p_chars_length:
  assumes "counts_ok s g sp" and "block_size stored s g sp \<le> nread - 44" and "nread \<le> int (length buf)"
    and "0 < stored"
  shows "nat (charcnt sp) \<le> length (p_chars stored buf sp)"
proof -
  note c = counts_okD [OF assms(1)]
  have "timecnt sp * int stored + timecnt sp + typecnt sp * 6 + charcnt sp + leapcnt sp * (int stored + 4)
      \<le> block_size stored s g sp" using c by (auto simp: block_size_def)
  moreover have "0 \<le> leapcnt sp * (int stored + 4)" using c by simp
  ultimately have "timecnt sp * int stored + timecnt sp + typecnt sp * 6 + charcnt sp + 44 \<le> int (length buf)"
    using assms(2,3) by linarith
  moreover obtain t y ch where n: "timecnt sp = int t" "typecnt sp = int y" "charcnt sp = int ch"
    using c zero_le_imp_eq_int [of "timecnt sp"] zero_le_imp_eq_int [of "typecnt sp"]
      zero_le_imp_eq_int [of "charcnt sp"] by auto
  ultimately have "int (t * stored + t + y * 6 + ch + 44) \<le> int (length buf)" by simp
  then have "t * stored + t + y * 6 + ch + 44 \<le> length buf" by (simp only: of_nat_le_iff)
  then show ?thesis by (simp add: p_defs n)
qed

lemma load_block_outcome:
  assumes "tz_arrays sp0" and "nread \<le> int (length buf)" and "0 < stored"
    and l: "load_block stored buf nread sp0 = (ok, sp', p)"
  shows "tz_arrays sp' \<and> (ok \<longrightarrow> block_ok stored buf nread (load_counts buf sp0))"
proof -
  define sp where "sp = load_counts buf sp0"
  define s g where "s = ttisstdcnt_of buf" and "g = ttisgmtcnt_of buf"
  have arr: "tz_arrays sp" using assms(1) by (simp add: sp_def)
  note l = l [unfolded load_block_def Let_def sizeof_tzhead_def, folded sp_def s_def g_def]
  show ?thesis
  proof (cases "counts_ok s g sp \<and> block_size stored s g sp \<le> nread - 44")
    case False
    then have "\<not> counts_ok s g sp \<or> nread - int 44 < block_size stored s g sp" by auto
    then have "(ok, sp', p) = (False, sp, drop 44 buf)" using l by (elim disjE) (simp_all only: if_True if_False simp_thms if_cancel)
    then show ?thesis using arr by simp
  next
    case True
    then have cok: "counts_ok s g sp" and size: "\<not> nread - int 44 < block_size stored s g sp" by auto
    note ptr = load_block_pointers [OF arr cok, where buf = buf and stored = stored]
    note len = p_chars_length [OF cok _ assms(2,3)]
    obtain a p1 where a: "load_ats stored (nat (timecnt sp)) 0 (drop 44 buf) (ats sp) = (a, p1)" by force
    note p1 = ptr(1) [OF a]
    obtain ok2 t p2 where t: "load_types (typecnt sp) (nat (timecnt sp)) 0 p1 (types sp) = (ok2, t, p2)"
      by (metis prod_cases3)
    have lt: "length t = 1200" using load_types_length [OF t] arr by (simp add: tz_arrays_def)
    obtain ok3 tts p3 where tt: "load_ttis (charcnt sp) (nat (typecnt sp)) 0 p2 (ttis sp) = (ok3, tts, p3)"
      by (metis prod_cases3)
    have ltt: "length tts = 256" using load_ttis_length [OF tt] arr by (simp add: tz_arrays_def)
    obtain ls p5 where ls: "load_lsis stored (nat (leapcnt sp)) 0 (drop (nat (charcnt sp)) p3) (lsis sp) = (ls, p5)"
      by force
    obtain ok6 tts6 p6 where t6: "load_isstd s (nat (typecnt sp)) 0 p5 tts = (ok6, tts6, p6)"
      by (metis prod_cases3)
    obtain ok7 tts7 p7 where t7: "load_isgmt g (nat (typecnt sp)) 0 p6 tts6 = (ok7, tts7, p7)"
      by (metis prod_cases3)
    have l67: "length tts6 = 256" "length tts7 = 256"
      using load_isstd_keep [OF t6] load_isgmt_keep [OF t7] ltt by (simp_all add: same_types_def)
    note l = l [unfolded if_not_P [OF size] a t tt ls t6 t7 prod.case]
    show ?thesis
    proof (cases "ok2 \<and> ok3")
      case False
      then show ?thesis using l cok arr p1 lt ltt by (auto simp: tz_arrays_def split: if_splits)
    next
      case True
      then have p2: "p2 = p_ttis stored buf sp" and p3: "p3 = p_chars stored buf sp"
        using ptr(2) t tt p1 ptr(3) by auto
      have p5: "p5 = p_isstd stored buf sp" "length ls = 50"
        using ptr(4) ls by (auto simp: p3 p_lsis_def)
      have lc: "length (take (nat (charcnt sp)) p3 @ [NUL] @ drop (nat (charcnt sp) + 1) (chars sp)) = 512"
        using len size arr counts_okD(8) [OF cok] by (simp add: p3 tz_arrays_def)
      have "tz_arrays sp'" using l cok True p1 lt ltt l67 p5(2) lc arr
        by (auto simp: tz_arrays_def simp del: length_append split: if_splits)
      moreover have "block_ok stored buf nread sp" if ok
      proof -
        from that l cok True have ok67: "ok6" "ok7" by (auto split: if_splits)
        have std: "\<forall>k < nat (typecnt sp). flag_at s (p_isstd stored buf sp) k \<in> {0, 1}"
          using load_isstd_ok [of s "nat (typecnt sp)" 0 p5 tts tts6 p6] t6 ok67 p5(1) by simp
        then have p6: "p6 = p_isgmt stored buf sp"
          using load_isstd_eq [of 0 "nat (typecnt sp)" tts s "p_isstd stored buf sp"] t6 ltt counts_okD [OF cok] p5(1)
          by (auto simp: p_isgmt_def s_def)
        have "\<forall>k < nat (typecnt sp). flag_at g (p_isgmt stored buf sp) k \<in> {0, 1}"
          using load_isgmt_ok [of g "nat (typecnt sp)" 0 p6 tts6 tts7 p7] t7 ok67 p6 by simp
        moreover have "\<forall>k < nat (typecnt sp). tti_ok (charcnt sp) (drop (k * 6) (p_ttis stored buf sp))"
          using load_ttis_ok [of "charcnt sp" "nat (typecnt sp)" 0 p2 "ttis sp" tts p3] tt True p2 by simp
        moreover have "\<forall>k < nat (timecnt sp). uc (chr_at (drop k (p_types stored buf sp))) < typecnt sp"
          using load_types_ok [of "typecnt sp" "nat (timecnt sp)" 0 p1 "types sp" t p2] t True p1 by simp
        ultimately show ?thesis using std cok size
          by (simp add: block_ok_def s_def [symmetric] g_def [symmetric])
      qed
      ultimately show ?thesis by (simp add: sp_def)
    qed
  qed
qed

subsection \<open>Loaded states are well-formed\<close>

lemma block_state_wf:
  assumes "tz_arrays sp" and "block_ok stored buf nread sp" and "nread \<le> int (length buf)" and "0 < stored"
  shows "zone_wf (block_state stored buf sp)"
proof -
  have cok: "counts_ok (ttisstdcnt_of buf) (ttisgmtcnt_of buf) sp"
    and size: "block_size stored (ttisstdcnt_of buf) (ttisgmtcnt_of buf) sp \<le> nread - 44"
    using assms(2) by (auto simp: block_ok_def)
  note c = counts_okD [OF cok] and len = p_chars_length [OF cok size assms(3,4)]
  have "tz_arrays (block_state stored buf sp)"
    using assms(1) c len by (simp add: block_state_def Let_def tz_arrays_def)
  moreover have "\<forall>t \<in> set (take (nat (timecnt sp)) (types (block_state stored buf sp))). 0 \<le> t \<and> t < typecnt sp"
    using assms(2) uc_range(1) by (auto simp: block_state_def Let_def block_ok_def)
  moreover have "\<forall>tt \<in> set (take (nat (typecnt sp)) (ttis (block_state stored buf sp))). type_ok (charcnt sp) tt"
    using assms(2) uc_range(1)
    by (auto simp: block_state_def Let_def block_ok_def block_type_def tti_fields_def tti_ok_def type_ok_def)
  moreover have "timecnt (block_state stored buf sp) = timecnt sp" "typecnt (block_state stored buf sp) = typecnt sp"
    "charcnt (block_state stored buf sp) = charcnt sp" "leapcnt (block_state stored buf sp) = leapcnt sp"
    by (simp_all add: block_state_def Let_def)
  ultimately show ?thesis using c by (simp add: zone_wf_def)
qed

lemma first_unsorted_bound: "first_unsorted n i xs = Some j \<Longrightarrow> i < j \<and> j \<le> i + n"
  by (induction n arbitrary: i) (fastforce split: if_splits)+

lemma cut_unsorted_wf:
  assumes "zone_wf sp"
  shows "zone_wf (cut_unsorted sp)"
proof (cases "first_unsorted (nat (timecnt sp - 2)) 0 (ats sp)")
  case None
  then show ?thesis using assms by (simp add: cut_unsorted_def)
next
  case (Some j)
  then have "int j \<le> timecnt sp" using first_unsorted_bound by fastforce
  moreover from this have "set (take j (types sp)) \<subseteq> set (take (nat (timecnt sp)) (types sp))"
    by (intro set_take_subset_set_take) simp
  ultimately show ?thesis using assms Some by (auto simp: cut_unsorted_def zone_wf_def)
qed

lemma load_block_wf:
  assumes "tz_arrays sp0" and "nread \<le> int (length buf)" and "0 < stored"
    and l: "load_block stored buf nread sp0 = (ok, sp', p)"
  shows "tz_arrays sp' \<and> (ok \<longrightarrow> zone_wf sp')"
proof -
  note out = load_block_outcome [OF assms]
  have "zone_wf sp'" if ok
  proof -
    have b: "block_ok stored buf nread (load_counts buf sp0)" using out that by simp
    have "sp' = cut_unsorted (block_state stored buf (load_counts buf sp0))"
      using load_block_eq [OF assms(1) refl b] l by simp
    then show ?thesis using block_state_wf [OF _ b assms(2,3)] assms(1) cut_unsorted_wf by simp
  qed
  then show ?thesis using out by blast
qed

lemma load_blocks_wf:
  assumes "tz_arrays sp" and "nread \<le> int (length buf)"
    and "load_blocks [4, 8] buf nread sp = (ok, sp', buf', nread')"
  shows "tz_arrays sp' \<and> (ok \<longrightarrow> zone_wf sp')"
proof -
  obtain ok1 sp1 p where l: "load_block 4 buf nread sp = (ok1, sp1, p)" by (metis prod_cases3)
  from assms(3) l have "ok = ok1 \<and> sp' = sp1" by (auto simp: Let_def sizeof_time_t_def split: if_splits)
  then show ?thesis using load_block_wf [OF assms(1,2) _ l] by simp
qed

lemma append_times_fields:
  "typecnt (append_times xs sp) = typecnt sp \<and> charcnt (append_times xs sp) = charcnt sp \<and>
   leapcnt (append_times xs sp) = leapcnt sp \<and> ttis (append_times xs sp) = ttis sp \<and>
   chars (append_times xs sp) = chars sp \<and> lsis (append_times xs sp) = lsis sp"
  by (induction xs sp rule: append_times.induct) simp_all

lemma append_times_types:
  assumes "tz_arrays sp" and "0 \<le> timecnt sp" and "timecnt sp \<le> 1200"
    and "\<forall>(a, t) \<in> set xs. 0 \<le> t \<and> t < 2" and "0 \<le> typecnt sp" and "typecnt sp + 2 \<le> 256"
    and "\<forall>t \<in> set (take (nat (timecnt sp)) (types sp)). 0 \<le> t \<and> t < typecnt sp + 2"
  shows "tz_arrays (append_times xs sp) \<and> 0 \<le> timecnt (append_times xs sp) \<and> timecnt (append_times xs sp) \<le> 1200 \<and>
    (\<forall>t \<in> set (take (nat (timecnt (append_times xs sp))) (types (append_times xs sp))). 0 \<le> t \<and> t < typecnt sp + 2)"
  using assms
proof (induction xs sp rule: append_times.induct)
  case (2 a t xs sp)
  show ?case
  proof (cases "timecnt sp < 1200")
    case True
    let ?n = "nat (timecnt sp)"
    let ?sp = "sp\<lparr> ats := (ats sp)[?n := a], types := (types sp)[?n := (typecnt sp + t) mod 256],
      timecnt := timecnt sp + 1 \<rparr>"
    have n: "?n < length (types sp)" "nat (timecnt sp + 1) = Suc ?n"
      using True "2.prems"(1,2) by (auto simp: tz_arrays_def nat_add_distrib)
    have "(typecnt sp + t) mod 256 = typecnt sp + t" using "2.prems"(4-6) by simp
    then have "set (take (Suc ?n) ((types sp)[?n := (typecnt sp + t) mod 256]))
        = insert (typecnt sp + t) (set (take ?n (types sp)))"
      using n(1) by (simp add: take_Suc_conv_app_nth)
    then have last: "\<forall>x \<in> set (take (nat (timecnt ?sp)) (types ?sp)). 0 \<le> x \<and> x < typecnt ?sp + 2"
      using "2.prems"(4,5,7) n(2) by auto
    have e: "append_times ((a, t) # xs) sp = append_times xs ?sp" and k: "typecnt ?sp = typecnt sp"
      using True by simp_all
    have lt: "timecnt sp < int TZ_MAX_TIMES" using True by simp
    have arr: "tz_arrays ?sp" using "2.prems"(1) by (simp add: tz_arrays_def)
    have cnt: "0 \<le> timecnt ?sp" "timecnt ?sp \<le> 1200" using True "2.prems"(2) by simp_all
    have xs: "\<forall>(a, t) \<in> set xs. 0 \<le> t \<and> t < 2" using "2.prems"(4) by simp
    have ty: "0 \<le> typecnt ?sp" "typecnt ?sp + 2 \<le> 256" using "2.prems"(5,6) by simp_all
    show ?thesis unfolding e using "2.IH" [OF lt arr cnt xs ty last] unfolding k .
  qed (use "2.prems" in simp)
qed simp

lemma transitions_type:
  assumes "(a, t) \<in> set (transitions ts)"
  shows "t \<in> set (take (nat (timecnt ts)) (types ts))"
  using assms by (auto simp: take_zip dest: set_zip_rightD)

lemma take_update2:
  assumes "n + 1 < length xs"
  shows "take (n + 2) (xs[n := a, n + 1 := b]) = take n xs @ [a, b]"
  using assms by (simp add: take_Suc_conv_app_nth numeral_2_eq_2)

lemma nth_in_take: "k < n \<Longrightarrow> n \<le> length xs \<Longrightarrow> xs ! k \<in> set (take n xs)"
  using nth_mem [of k "take n xs"] by simp

lemma extend_zone_wf:
  assumes "zone_wf ts" and "typecnt ts = 2" and "zone_wf sp" and "typecnt sp + 2 \<le> 256"
    and "charcnt sp + charcnt ts \<le> 50" and "extend_zone ts sp = Inr sp'"
  shows "zone_wf sp'"
proof -
  let ?c = "nat (charcnt sp)" and ?d = "nat (charcnt ts)"
  define sp1 where "sp1 = sp\<lparr> chars := take ?c (chars sp) @ take ?d (chars ts) @ drop (?c + ?d) (chars sp),
    charcnt := charcnt sp + charcnt ts \<rparr>"
  define xs where "xs = dropWhile (\<lambda>(at, _). at \<le> ats sp ! nat (timecnt sp - 1)) (transitions ts)"
  define sp2 where "sp2 = append_times xs sp1"
  define shift where "shift = (\<lambda>tt :: ttinfo. tt\<lparr> tt_abbrind := tt_abbrind tt + charcnt sp \<rparr>)"
  let ?n = "nat (typecnt sp2)"
  have sp': "sp' = sp2\<lparr> ttis := (ttis sp2)[?n := shift (ttis ts ! 0), ?n + 1 := shift (ttis ts ! 1)],
      typecnt := typecnt sp2 + 2 \<rparr>"
    using assms(6) by (simp add: extend_zone_def Let_def sp2_def sp1_def xs_def shift_def split: if_splits)
  have arr: "tz_arrays sp" "tz_arrays ts" and cnt: "0 \<le> charcnt sp" "0 \<le> charcnt ts" "0 \<le> timecnt sp"
    "timecnt sp \<le> 1200" "1 \<le> typecnt sp" using assms(1,3) by (simp_all add: zone_wf_def)
  have arr1: "tz_arrays sp1" using arr cnt assms(5) by (simp add: sp1_def tz_arrays_def)
  have xs_types: "\<forall>(a, t) \<in> set xs. 0 \<le> t \<and> t < 2"
    using assms(1,2) transitions_type by (fastforce simp: xs_def zone_wf_def dest: set_dropWhileD)
  have f1: "timecnt sp1 = timecnt sp" "typecnt sp1 = typecnt sp" "types sp1 = types sp" by (simp_all add: sp1_def)
  have ty1: "\<forall>t \<in> set (take (nat (timecnt sp1)) (types sp1)). 0 \<le> t \<and> t < typecnt sp1 + 2"
    using assms(3) unfolding f1 zone_wf_def by fastforce
  have "0 \<le> timecnt sp1" "timecnt sp1 \<le> 1200" "0 \<le> typecnt sp1" "typecnt sp1 + 2 \<le> 256"
    using cnt assms(4) by (simp_all add: f1)
  note times = append_times_types [OF arr1 this(1,2) xs_types this(3,4) ty1, folded sp2_def, unfolded f1]
  have same: "typecnt sp2 = typecnt sp" "charcnt sp2 = charcnt sp + charcnt ts" "leapcnt sp2 = leapcnt sp"
    "ttis sp2 = ttis sp" using append_times_fields [of xs sp1] by (simp_all add: sp2_def sp1_def)
  define n where "n = ?n"
  have n: "n + 1 < length (ttis sp)" "nat (typecnt sp + 2) = n + 2"
    using arr cnt assms(4) by (simp_all add: n_def same tz_arrays_def)
  have "ttis sp' = (ttis sp)[n := shift (ttis ts ! 0), n + 1 := shift (ttis ts ! 1)]"
    unfolding n_def sp' by (simp add: same)
  then have tts: "take (nat (typecnt sp + 2)) (ttis sp') = take n (ttis sp) @ [shift (ttis ts ! 0), shift (ttis ts ! 1)]"
    unfolding n(2) by (simp only: take_update2 [OF n(1)])
  have "ttis ts ! 0 \<in> set (take 2 (ttis ts))" "ttis ts ! 1 \<in> set (take 2 (ttis ts))"
    using arr(2) by (intro nth_in_take; simp add: tz_arrays_def)+
  then have new: "type_ok (charcnt ts) (ttis ts ! 0)" "type_ok (charcnt ts) (ttis ts ! 1)"
    using assms(1,2) by (simp_all add: zone_wf_def)
  have "\<forall>tt \<in> set (take n (ttis sp)). type_ok (charcnt sp) tt"
    using assms(3) by (simp add: n_def same zone_wf_def)
  then have "\<forall>tt \<in> set (take (nat (typecnt sp + 2)) (ttis sp')). type_ok (charcnt sp + charcnt ts) tt"
    using new cnt unfolding tts by (auto simp: shift_def type_ok_def)
  moreover have "tz_arrays sp'" using times by (simp add: sp' tz_arrays_def)
  ultimately show ?thesis using times same assms(3,4,5) cnt by (simp add: zone_wf_def sp')
qed

lemma set_repeat_wf [simp]: "zone_wf (set_repeat sp) = zone_wf sp" "tz_arrays (set_repeat sp) = tz_arrays sp"
  by (simp_all add: set_repeat_def zone_wf_def tz_arrays_def Let_def)

lemma read_zone_length:
  assumes "read_zone fs buf0 f = Inr (buf, nread)" and "length buf0 = buf_size"
  shows "length buf = buf_size \<and> 0 < nread \<and> nread \<le> int buf_size"
  using assms by (auto simp: read_zone_def Let_def split: option.splits prod.splits if_splits)

definition junk_ok :: "tz_junk \<Rightarrow> bool" where
  "junk_ok junk \<longleftrightarrow> length (j_buf junk) = buf_size \<and> tz_arrays (j_state junk)"

context zone_loader
begin

lemma finish_load_wf:
  assumes "inv g" and "zone_wf sp" and "tz_arrays (j_state junk)"
    and u: "finish_load junk load g doextend buf nread sp = Some (Inr (g', r, sp'))"
  shows "inv g' \<and> zone_wf sp'"
proof (cases "finish_load junk load g doextend buf nread sp = Some (Inr (g, 0, set_repeat sp))")
  case True
  then show ?thesis using u assms(1,2) by simp
next
  case False
  define s where "s = c_str (drop 1 (buf[nat (nread - 1) := NUL]))"
  have ty: "typecnt sp + 2 \<le> 256"
  proof (rule ccontr)
    assume "\<not> typecnt sp + 2 \<le> 256"
    then have "\<not> typecnt sp + 2 \<le> int TZ_MAX_TYPES" by simp
    then show False using False by (simp only: finish_load_def simp_thms if_False)
  qed
  from u False obtain g1 r1 ts where t: "tzparse load (j_rule junk) g s (j_state junk) False = Some (Inr (g1, r1, ts))"
    by (auto simp: finish_load_def s_def split: if_splits option.splits sum.splits)
  note wf = tzparse_wf [OF assms(1,3) t]
  show ?thesis
  proof (cases "r1 = 0 \<and> typecnt ts = 2 \<and> charcnt sp + charcnt ts \<le> 50")
    case True
    then obtain sp2 where "extend_zone ts sp = Inr sp2" "g' = g1" "sp' = set_repeat sp2"
      using u False t by (auto simp: finish_load_def s_def split: if_splits sum.splits)
    then show ?thesis using extend_zone_wf [of ts sp sp2] assms(2) ty wf True by simp
  next
    case no: False
    have "g' = g1 \<and> sp' = set_repeat sp"
      using u False t no by (auto simp: finish_load_def s_def split: if_splits)
    then show ?thesis using wf assms(2) by simp
  qed
qed

lemma tzload_uncached_wf:
  assumes "inv g" and "tz_arrays sp" and "junk_ok junk"
    and u: "tzload_uncached fs junk load g name sp doextend = Some (Inr (g', r, sp'))"
  shows "inv g' \<and> tz_arrays sp' \<and> (r = 0 \<longrightarrow> zone_wf sp')"
proof (cases "g' = g \<and> r = -1 \<and> sp' = sp")
  case False
  with u obtain f buf nread where f: "read_zone fs (j_buf junk) f = Inr (buf, nread)"
    and u': "(case load_blocks [4, 8] buf nread sp of (ok, sp1, buf1, nread1) \<Rightarrow>
                  if \<not> ok then Some (Inr (g, -1, sp1))
                  else finish_load junk load g doextend buf1 nread1 sp1) = Some (Inr (g', r, sp'))"
    by (auto simp: tzload_uncached_def simp del: load_blocks.simps
        split: option.splits sum.splits tz_fault.splits)
  obtain ok sp1 buf1 nread1 where b: "load_blocks [4, 8] buf nread sp = (ok, sp1, buf1, nread1)"
    by (metis prod_cases4)
  have "nread \<le> int (length buf)"
    using read_zone_length [OF f(1)] assms(3) by (simp add: junk_ok_def)
  then have sp1: "tz_arrays sp1" "ok \<Longrightarrow> zone_wf sp1" using load_blocks_wf [OF assms(2) _ b] by simp_all
  show ?thesis
  proof (cases ok)
    case True
    then have "finish_load junk load g doextend buf1 nread1 sp1 = Some (Inr (g', r, sp'))"
      using u' by (simp add: b del: load_blocks.simps)
    moreover have "tz_arrays (j_state junk)" using assms(3) by (simp add: junk_ok_def)
    ultimately have "inv g' \<and> zone_wf sp'" using finish_load_wf [OF assms(1) sp1(2)] True by blast
    then show ?thesis by (simp add: zone_wf_def)
  next
    case False
    then show ?thesis using u' sp1 assms(1) by (auto simp: b simp del: load_blocks.simps)
  qed
qed (use assms in simp)

end

text \<open>The invariant of the cache: four slots, all states with their arrays, and a well-formed zone
  under every name.\<close>

definition cache_ok :: "tz_cache \<Rightarrow> bool" where
  "cache_ok g \<longleftrightarrow> length (g_cacheNames g) = CACHE_COUNT \<and> length (g_cacheStates g) = CACHE_COUNT \<and>
     (\<forall>st \<in> set (g_cacheStates g). tz_arrays st) \<and> tz_arrays (g_utc g) \<and> g_lastCache g < CACHE_COUNT \<and>
     (\<forall>i < CACHE_COUNT. \<forall>n. g_cacheNames g ! i = Name n \<longrightarrow> zone_wf (g_cacheStates g ! i))"

lemma cache_find_Some:
  "cache_find name i ns = Inr (Some k) \<Longrightarrow> i \<le> k \<and> k < i + length ns \<and> ns ! (k - i) = Name name"
  by (induction name i ns rule: cache_find.induct) (fastforce simp: nth_Cons' split: if_splits)+

lemma next_slot_bound: "next_slot g < CACHE_COUNT"
  by (simp add: next_slot_def Let_def)

lemma cache_ok_evict:
  assumes "cache_ok g"
  shows "cache_ok (evict g)"
  using assms next_slot_bound [of g]
  by (auto simp: cache_ok_def evict_def Let_def nth_list_update free_name_def split: if_splits)

definition store_zone :: "nat \<Rightarrow> tzstate \<Rightarrow> cache_name \<Rightarrow> tz_cache \<Rightarrow> tz_cache" where
  "store_zone i st nm g = g\<lparr> g_cacheStates := (g_cacheStates g)[i := st], g_cacheNames := (g_cacheNames g)[i := nm] \<rparr>"

lemma cache_ok_store:
  assumes "cache_ok g" and "tz_arrays st" and "\<And>n. nm = Name n \<Longrightarrow> zone_wf st"
  shows "cache_ok (store_zone i st nm g)"
  using assms set_update_subset_insert [of "g_cacheStates g" i st]
  by (cases "i < 4") (auto simp: cache_ok_def store_zone_def nth_list_update split: if_splits)

lemma tzload_step_cases:
  assumes "tzload_step fs junk load g name sp doextend = Some (Inr (g', r, sp'))" and "name \<noteq> ''UTC''"
  obtains (hit) i where "cache_find name 0 (g_cacheNames g) = Inr (Some i)" "g' = g" "r = 0" "sp' = g_cacheStates g ! i"
  | (loaded) g2 where "cache_find name 0 (g_cacheNames g) = Inr None"
      "tzload_uncached fs junk load (evict g) (Some name) (g_cacheStates (evict g) ! next_slot g) True = Some (Inr (g2, 0, sp'))"
      "g' = store_zone (next_slot g) sp' (Name name) g2" "r = 0"
  | (failed) g2 st where "cache_find name 0 (g_cacheNames g) = Inr None" "r \<noteq> 0" "sp' = sp"
      "tzload_uncached fs junk load (evict g) (Some name) (g_cacheStates (evict g) ! next_slot g) True = Some (Inr (g2, r, st))"
      "g' = store_zone (next_slot g) st NoName g2"
proof -
  note l = assms(1) [unfolded tzload_step_def if_not_P [OF assms(2)] Let_def]
  consider i where "cache_find name 0 (g_cacheNames g) = Inr (Some i)" | "cache_find name 0 (g_cacheNames g) = Inr None"
    using l by (cases "cache_find name 0 (g_cacheNames g)") (auto split: option.splits)
  then show thesis
  proof cases
    case 1
    have "g' = g" "r = 0" "sp' = g_cacheStates g ! i" using l unfolding 1 by auto
    then show thesis by (rule hit [OF 1])
  next
    case 2
    let ?u = "tzload_uncached fs junk load (evict g) (Some name) (g_cacheStates (evict g) ! next_slot g) True"
    note l = l [unfolded 2 sum.case option.case]
    from l obtain g2 e st where u: "?u = Some (Inr (g2, e, st))"
      by (cases ?u) (auto split: sum.splits)
    note l = l [unfolded u sum.case option.case prod.case]
    show thesis
    proof (cases "e = 0")
      case True
      then have "sp' = st" "r = 0" "g' = store_zone (next_slot g) st (Name name) g2"
        using l by (auto simp: store_zone_def)
      then show thesis using loaded [OF 2] u True by simp
    next
      case False
      then have "sp' = sp" "r = e" "g' = store_zone (next_slot g) st NoName g2"
        using l by (auto simp: store_zone_def)
      then show thesis using failed [OF 2] u False by simp
    qed
  qed
qed

lemma tzload_step_loader:
  assumes "zone_loader load cache_ok" and "junk_ok junk"
  shows "zone_loader (tzload_step fs junk load) cache_ok"
proof
  fix g sp name doextend g' r sp'
  assume g: "cache_ok g" and sp: "tz_arrays sp"
    and l: "tzload_step fs junk load g name sp doextend = Some (Inr (g', r, sp'))"
  note wf = zone_loader.tzload_uncached_wf [OF assms(1) _ _ assms(2)]
  show "cache_ok g' \<and> tz_arrays sp' \<and> (r = 0 \<and> name \<noteq> ''UTC'' \<longrightarrow> zone_wf sp')"
  proof (cases "name = ''UTC''")
    case True
    have utc: "tz_arrays (g_utc g)" using g by (simp add: cache_ok_def)
    show ?thesis
    proof (cases "g_utcSet g")
      case False
      with True l obtain g1 where
        "tzload_uncached fs junk load g (Some name) (g_utc g) True = Some (Inr (g1, r, sp'))
          \<or> (\<exists>e. tzload_uncached fs junk load g (Some name) (g_utc g) True = Some (Inr (g1, e, sp')))"
        "g' = g1\<lparr> g_utc := sp', g_utcSet := True \<rparr>"
        by (auto simp: tzload_step_def split: option.splits sum.splits prod.splits)
      then show ?thesis using wf [OF g utc] True by (fastforce simp: cache_ok_def)
    qed (use True l g utc in \<open>auto simp: tzload_step_def\<close>)
  next
    case False
    have st: "tz_arrays (g_cacheStates (evict g) ! next_slot g)"
      using cache_ok_evict [OF g] next_slot_bound [of g] by (simp add: cache_ok_def)
    note wf = wf [OF cache_ok_evict [OF g] st]
    from l False show ?thesis
    proof (cases rule: tzload_step_cases)
      case (hit i)
      have "i < CACHE_COUNT" "g_cacheNames g ! i = Name name"
        using cache_find_Some [OF hit(1)] g by (simp_all add: cache_ok_def)
      then have "zone_wf (g_cacheStates g ! i)" using g by (auto simp: cache_ok_def)
      then show ?thesis using hit g by (simp add: zone_wf_def)
    next
      case (loaded g2)
      then show ?thesis using wf [OF loaded(2)] cache_ok_store by simp
    next
      case (failed g2 st)
      then show ?thesis using wf [OF failed(4)] cache_ok_store [of g2 st NoName] sp by simp
    qed
  qed
qed

lemma tzload_named_loader: "junk_ok junk \<Longrightarrow> zone_loader (tzload_named fs junk depth) cache_ok"
proof (induction depth)
  case 0
  show ?case by unfold_locales simp
next
  case (Suc n)
  then show ?case using tzload_step_loader by simp
qed

interpretation zone_files: zone_loader "tzload_named fs junk depth" "\<lambda>g. cache_ok g \<and> junk_ok junk" for fs junk depth
proof
  fix g sp name doextend g' r sp'
  assume g: "cache_ok g \<and> junk_ok junk" and sp: "tz_arrays sp"
    and l: "tzload_named fs junk depth g name sp doextend = Some (Inr (g', r, sp'))"
  then show "(cache_ok g' \<and> junk_ok junk) \<and> tz_arrays sp' \<and> (r = 0 \<and> name \<noteq> ''UTC'' \<longrightarrow> zone_wf sp')"
    using zone_loader.load_wf [OF tzload_named_loader _ sp l] by simp
qed

text \<open>
  C18. Every zone that \<open>tzload\<close> reports as loaded is well-typed, whatever bytes the files hold: the
  counts are within the arrays, every transition has a type of the table, and every type a daylight flag
  of 0 or 1 and an abbreviation within the characters in use. The cache keeps its invariant on every
  outcome, so what it hands out later is well-typed too. The zone \<open>UTC\<close> is the exception.
\<close>
theorem tzload_well_typed:
  assumes "cache_ok g" and "junk_ok junk" and "tz_arrays sp" and "name \<noteq> Some ''UTC''"
    and "tzload fs junk depth g name sp doextend = Some (Inr (g', r, sp'))"
  shows "cache_ok g' \<and> tz_arrays sp' \<and> (r = 0 \<longrightarrow> zone_wf sp')"
proof (cases name)
  case None
  then show ?thesis
    using zone_files.tzload_uncached_wf [of g junk sp] assms by (simp add: tzload_def)
next
  case (Some n)
  then show ?thesis using zone_files.load_wf [of g junk sp] assms by (simp add: tzload_def)
qed

subsection \<open>Big-endian integers\<close>

lemma or_byte:
  fixes r b :: int
  assumes "0 \<le> b" and "b < 256"
  shows "push_bit 8 r OR (b AND 0xff) = r * 256 + b"
proof -
  have b: "b AND 0xff = b" using assms take_bit_eq_mask [of 8 b] by (simp add: take_bit_eq_mod mask_eq_exp_minus_1)
  have "push_bit 8 r AND take_bit 8 b = 0" by (intro bit_eqI) (auto simp: bit_simps)
  then have "push_bit 8 r AND b = 0" using assms by (simp add: take_bit_eq_mod)
  then show ?thesis using disjunctive_add_eq_or [of "push_bit 8 r" b] b by (simp add: push_bit_eq_mult)
qed

lemma s32_shift_add: "s32 (s32 a * 256 + b) = s32 (a * 256 + b)"
  by (rule s32_cong) (metis mod_add_left_eq mod_mult_left_eq s32_mod)

lemma s32_init: "s32 (k * 4294967296 + v) = s32 v"
  by (rule s32_cong) simp

lemma detzcode_bytes:
  "detzcode (a # b # c # d # p) = s32 (uc a * 16777216 + uc b * 65536 + uc c * 256 + uc d)"
proof -
  define k :: int where "k = (if uc a AND 0x80 \<noteq> 0 then -1 else 0)"
  have "detzcode (a # b # c # d # p)
      = s32 (s32 (s32 (s32 (k * 256 + uc a) * 256 + uc b) * 256 + uc c) * 256 + uc d)"
    unfolding detzcode_def k_def by (simp add: or_byte uc_range)
  also have "\<dots> = s32 ((((k * 256 + uc a) * 256 + uc b) * 256 + uc c) * 256 + uc d)"
    unfolding s32_shift_add by (rule s32_cong) (metis mod_add_left_eq mod_mult_left_eq s32_mod)
  also have "(((k * 256 + uc a) * 256 + uc b) * 256 + uc c) * 256 + uc d
      = k * 4294967296 + (uc a * 16777216 + uc b * 65536 + uc c * 256 + uc d)" by simp
  finally show ?thesis by (simp only: s32_init)
qed

definition byte :: "int \<Rightarrow> char" where
  "byte n = char_of (nat n)"

definition encode4 :: "int \<Rightarrow> string" where
  "encode4 x = (let u = x mod 4294967296
     in [byte (u div 16777216), byte (u div 65536 mod 256), byte (u div 256 mod 256), byte (u mod 256)])"

lemma uc_byte: "0 \<le> n \<Longrightarrow> n < 256 \<Longrightarrow> uc (byte n) = n"
  by (simp add: uc_def byte_def)

lemma bytes_sum:
  fixes u :: int
  shows "u div 16777216 * 16777216 + u div 65536 mod 256 * 65536 + u div 256 mod 256 * 256 + u mod 256 = u"
proof -
  have "u div 65536 = u div 256 div 256" "u div 16777216 = u div 65536 div 256"
    by (simp_all add: zdiv_zmult2_eq [symmetric])
  then show ?thesis
    using div_mult_mod_eq [of u 256] div_mult_mod_eq [of "u div 256" 256] div_mult_mod_eq [of "u div 65536" 256]
    by linarith
qed

lemma detzcode_encode4: "detzcode (encode4 x @ p) = s32 x"
proof -
  define u where "u = x mod 4294967296"
  have u: "0 \<le> u" "u < 4294967296" by (simp_all add: u_def)
  then have "0 \<le> u div 16777216" "u div 16777216 < 256" by (auto simp: pos_imp_zdiv_nonneg_iff)
  then have "detzcode (encode4 x @ p) = s32 u"
    unfolding encode4_def u_def [symmetric] Let_def by (simp add: detzcode_bytes uc_byte bytes_sum)
  also have "\<dots> = s32 x" by (rule s32_cong) (simp add: u_def)
  finally show ?thesis .
qed

subsection \<open>Reading back a zone file\<close>

text \<open>A zone and its file in the format of \<open>tzfile.h\<close>, version 1, with both flag arrays.\<close>

record zone_data =
  zd_ats :: "int list"
  zd_types :: "int list"
  zd_ttis :: "ttinfo list"
  zd_chars :: string
  zd_lsis :: "lsinfo list"

definition encode_tti :: "ttinfo \<Rightarrow> string" where
  "encode_tti tt = encode4 (tt_gmtoff tt) @ [byte (tt_isdst tt), byte (tt_abbrind tt)]"

definition encode_lsi :: "lsinfo \<Rightarrow> string" where
  "encode_lsi l = encode4 (ls_trans l) @ encode4 (ls_corr l)"

definition encode_head :: "zone_data \<Rightarrow> string" where
  "encode_head z = ''TZif'' @ replicate 16 NUL @ encode4 (int (length (zd_ttis z))) @ encode4 (int (length (zd_ttis z))) @
     encode4 (int (length (zd_lsis z))) @ encode4 (int (length (zd_ats z))) @ encode4 (int (length (zd_ttis z))) @
     encode4 (int (length (zd_chars z)))"

definition encode_zone :: "zone_data \<Rightarrow> string" where
  "encode_zone z = encode_head z @ concat (map encode4 (zd_ats z)) @ map byte (zd_types z) @
     concat (map encode_tti (zd_ttis z)) @ zd_chars z @ concat (map encode_lsi (zd_lsis z)) @
     map (\<lambda>tt. byte (tt_ttisstd tt)) (zd_ttis z) @ map (\<lambda>tt. byte (tt_ttisgmt tt)) (zd_ttis z)"

definition zone_data_ok :: "zone_data \<Rightarrow> bool" where
  "zone_data_ok z \<longleftrightarrow>
     length (zd_ats z) \<le> 1200 \<and> length (zd_types z) = length (zd_ats z) \<and> 1 \<le> length (zd_ttis z) \<and>
     length (zd_ttis z) \<le> 256 \<and> length (zd_chars z) \<le> 50 \<and> length (zd_lsis z) \<le> 50 \<and>
     sorted (zd_ats z) \<and> (\<forall>t \<in> set (zd_ats z). in_s32 t) \<and>
     (\<forall>t \<in> set (zd_types z). 0 \<le> t \<and> t < int (length (zd_ttis z))) \<and>
     (\<forall>tt \<in> set (zd_ttis z). in_s32 (tt_gmtoff tt) \<and> tt_isdst tt \<in> {0, 1} \<and> 0 \<le> tt_abbrind tt \<and>
        tt_abbrind tt \<le> int (length (zd_chars z)) \<and> tt_ttisstd tt \<in> {0, 1} \<and> tt_ttisgmt tt \<in> {0, 1}) \<and>
     (\<forall>l \<in> set (zd_lsis z). in_s32 (ls_trans l) \<and> in_s32 (ls_corr l))"

text \<open>The state that holds a zone.\<close>

definition holds_zone :: "zone_data \<Rightarrow> tzstate \<Rightarrow> bool" where
  "holds_zone z sp \<longleftrightarrow>
     timecnt sp = int (length (zd_ats z)) \<and> typecnt sp = int (length (zd_ttis z)) \<and>
     charcnt sp = int (length (zd_chars z)) \<and> leapcnt sp = int (length (zd_lsis z)) \<and>
     take (length (zd_ats z)) (ats sp) = zd_ats z \<and> take (length (zd_ats z)) (types sp) = zd_types z \<and>
     take (length (zd_ttis z)) (ttis sp) = zd_ttis z \<and>
     take (length (zd_chars z) + 1) (chars sp) = zd_chars z @ [NUL] \<and>
     take (length (zd_lsis z)) (lsis sp) = zd_lsis z"

lemma length_encode [simp]: "length (encode4 x) = 4" "length (encode_tti tt) = 6" "length (encode_lsi l) = 8"
  by (simp_all add: encode4_def encode_tti_def encode_lsi_def Let_def)

lemma length_concat_const: "\<forall>x. length (f x) = n \<Longrightarrow> length (concat (map f xs)) = length xs * n"
  by (induction xs) simp_all

lemma drop_concat_const:
  assumes "\<forall>x. length (f x) = n" and "k < length xs"
  shows "drop (k * n) (concat (map f xs) @ p) = f (xs ! k) @ drop (Suc k * n) (concat (map f xs) @ p)"
  using assms(2)
proof (induction xs arbitrary: k)
  case (Cons x xs)
  show ?case
  proof (cases k)
    case 0
    then show ?thesis using assms(1) by simp
  next
    case (Suc j)
    then show ?thesis using Cons assms(1) by simp
  qed
qed simp

lemmas drop_encode_tti = drop_concat_const [of encode_tti 6, simplified]
lemmas drop_encode_lsi = drop_concat_const [of encode_lsi 8, simplified]

lemma chr_at_map_byte:
  assumes "k < length xs" and "\<forall>x \<in> set xs. 0 \<le> f x \<and> f x < 256"
  shows "uc (chr_at (drop k (map (\<lambda>x. byte (f x)) xs @ p))) = f (xs ! k)"
  using assms by (simp add: Cons_nth_drop_Suc [symmetric] uc_byte)

lemma head_counts:
  assumes "zone_data_ok z"
  shows "ttisgmtcnt_of (encode_head z @ p) = int (length (zd_ttis z))"
    and "ttisstdcnt_of (encode_head z @ p) = int (length (zd_ttis z))"
    and "load_counts (encode_head z @ p) sp = sp\<lparr> leapcnt := int (length (zd_lsis z)),
      timecnt := int (length (zd_ats z)), typecnt := int (length (zd_ttis z)), charcnt := int (length (zd_chars z)) \<rparr>"
    and "drop 44 (encode_head z @ p) = p" and "(encode_head z @ p) ! 4 = NUL"
proof -
  have s: "in_s32 (int (length (zd_ttis z)))" "in_s32 (int (length (zd_lsis z)))" "in_s32 (int (length (zd_ats z)))"
    "in_s32 (int (length (zd_chars z)))"
    using assms by (auto simp: zone_data_ok_def intro!: in_s32I)
  have r: "replicate 16 NUL = [NUL, NUL, NUL, NUL, NUL, NUL, NUL, NUL, NUL, NUL, NUL, NUL, NUL, NUL, NUL, NUL]"
    by (simp add: numeral_eq_Suc)
  note d = detzcode_encode4 s32_id [OF s(1)] s32_id [OF s(2)] s32_id [OF s(3)] s32_id [OF s(4)]
  show "ttisgmtcnt_of (encode_head z @ p) = int (length (zd_ttis z))"
    "ttisstdcnt_of (encode_head z @ p) = int (length (zd_ttis z))"
    "load_counts (encode_head z @ p) sp = sp\<lparr> leapcnt := int (length (zd_lsis z)),
      timecnt := int (length (zd_ats z)), typecnt := int (length (zd_ttis z)), charcnt := int (length (zd_chars z)) \<rparr>"
    "drop 44 (encode_head z @ p) = p" "(encode_head z @ p) ! 4 = NUL"
    unfolding ttisgmtcnt_of_def ttisstdcnt_of_def load_counts_def encode_head_def r
    by (simp_all add: drop_append d nth_append)
qed

lemma zone_pointers:
  assumes "zone_data_ok z" and sp: "timecnt sp = int (length (zd_ats z))" "typecnt sp = int (length (zd_ttis z))"
    "charcnt sp = int (length (zd_chars z))" "leapcnt sp = int (length (zd_lsis z))"
    and buf: "buf = encode_zone z @ p"
  defines "q_gmt \<equiv> map (\<lambda>tt. byte (tt_ttisgmt tt)) (zd_ttis z) @ p"
  defines "q_std \<equiv> map (\<lambda>tt. byte (tt_ttisstd tt)) (zd_ttis z) @ q_gmt"
  defines "q_lsis \<equiv> concat (map encode_lsi (zd_lsis z)) @ q_std"
  defines "q_ttis \<equiv> concat (map encode_tti (zd_ttis z)) @ zd_chars z @ q_lsis"
  defines "q_types \<equiv> map byte (zd_types z) @ q_ttis"
  shows "drop 44 buf = concat (map encode4 (zd_ats z)) @ q_types" and "p_types 4 buf sp = q_types"
    and "p_ttis 4 buf sp = q_ttis" and "p_chars 4 buf sp = zd_chars z @ q_lsis" and "p_lsis 4 buf sp = q_lsis"
    and "p_isstd 4 buf sp = q_std" and "p_isgmt 4 buf sp = q_gmt" and "p_end 4 buf sp = p"
proof -
  have ne: "int (length (zd_ttis z)) \<noteq> 0" and lt: "length (zd_types z) = length (zd_ats z)"
    using assms(1) by (auto simp: zone_data_ok_def)
  have b: "buf = encode_head z @ concat (map encode4 (zd_ats z)) @ q_types"
    by (simp add: buf encode_zone_def q_types_def q_ttis_def q_lsis_def q_std_def q_gmt_def)
  have cnts: "ttisstdcnt_of buf = int (length (zd_ttis z))" "ttisgmtcnt_of buf = int (length (zd_ttis z))"
    unfolding b by (rule head_counts [OF assms(1)])+
  show a: "drop 44 buf = concat (map encode4 (zd_ats z)) @ q_types"
    unfolding b by (rule head_counts(4) [OF assms(1)])
  show t: "p_types 4 buf sp = q_types"
    unfolding p_types_def sizeof_tzhead_def a sp by (simp add: length_concat_const [of encode4 4])
  show i: "p_ttis 4 buf sp = q_ttis" unfolding p_ttis_def t sp by (simp add: q_types_def lt)
  show c: "p_chars 4 buf sp = zd_chars z @ q_lsis"
    unfolding p_chars_def i sp by (simp add: q_ttis_def length_concat_const [of encode_tti 6])
  show l: "p_lsis 4 buf sp = q_lsis" unfolding p_lsis_def c sp by simp
  show s: "p_isstd 4 buf sp = q_std"
    unfolding p_isstd_def l sp by (simp add: q_lsis_def length_concat_const [of encode_lsi 8])
  show g: "p_isgmt 4 buf sp = q_gmt"
    unfolding p_isgmt_def s sp cnts using ne by (simp add: q_std_def)
  show "p_end 4 buf sp = p"
    unfolding p_end_def g sp cnts using ne by (simp add: q_gmt_def)
qed

lemma detzcode_long: "in_s32 x \<Longrightarrow> detzcode (encode4 x @ p) = x"
  by (simp add: detzcode_encode4 s32_id)

lemma decode_at:
  assumes "k < length xs" and "\<forall>x \<in> set xs. in_s32 x"
  shows "decode 4 (drop (k * 4) (concat (map encode4 xs) @ p)) = xs ! k"
proof -
  have "in_s32 (xs ! k)" using assms by simp
  moreover have "\<forall>x. length (encode4 x) = 4" by simp
  from drop_concat_const [OF this assms(1), of p] obtain q
    where "drop (k * 4) (concat (map encode4 xs) @ p) = encode4 (xs ! k) @ q" by blast
  ultimately show ?thesis by (simp only: decode_def detzcode_long simp_thms if_True)
qed

lemma decode_tti:
  assumes "zone_data_ok z" and "k < length (zd_ttis z)"
  shows "tti_fields (drop (k * 6) (concat (map encode_tti (zd_ttis z)) @ p)) tt0
      = tt0\<lparr> tt_gmtoff := tt_gmtoff (zd_ttis z ! k), tt_isdst := tt_isdst (zd_ttis z ! k),
            tt_abbrind := tt_abbrind (zd_ttis z ! k) \<rparr>"
    and "tti_ok (int (length (zd_chars z))) (drop (k * 6) (concat (map encode_tti (zd_ttis z)) @ p))"
proof -
  let ?tt = "zd_ttis z ! k"
  have "?tt \<in> set (zd_ttis z)" and c: "length (zd_chars z) \<le> 50" using assms by (simp_all add: zone_data_ok_def)
  then have tt: "in_s32 (tt_gmtoff ?tt)" "tt_isdst ?tt \<in> {0, 1}" "0 \<le> tt_abbrind ?tt"
    "tt_abbrind ?tt \<le> int (length (zd_chars z))" using assms(1) by (auto simp: zone_data_ok_def)
  obtain q where q: "drop (k * 6) (concat (map encode_tti (zd_ttis z)) @ p)
      = encode4 (tt_gmtoff ?tt) @ byte (tt_isdst ?tt) # byte (tt_abbrind ?tt) # q"
    using drop_encode_tti [OF assms(2)] by (simp add: encode_tti_def)
  have "uc (byte (tt_isdst ?tt)) = tt_isdst ?tt" "uc (byte (tt_abbrind ?tt)) = tt_abbrind ?tt"
    using tt c by (auto intro!: uc_byte)
  then show "tti_fields (drop (k * 6) (concat (map encode_tti (zd_ttis z)) @ p)) tt0
      = tt0\<lparr> tt_gmtoff := tt_gmtoff ?tt, tt_isdst := tt_isdst ?tt, tt_abbrind := tt_abbrind ?tt \<rparr>"
    "tti_ok (int (length (zd_chars z))) (drop (k * 6) (concat (map encode_tti (zd_ttis z)) @ p))"
    unfolding q tti_fields_def tti_ok_def using tt by (simp_all add: drop_append detzcode_long)
qed

lemma flags_byte:
  assumes "zone_data_ok z" and "k < length (zd_ttis z)"
  shows "uc (chr_at (drop k (map (\<lambda>tt. byte (tt_ttisstd tt)) (zd_ttis z) @ p))) = tt_ttisstd (zd_ttis z ! k)"
    and "uc (chr_at (drop k (map (\<lambda>tt. byte (tt_ttisgmt tt)) (zd_ttis z) @ p))) = tt_ttisgmt (zd_ttis z ! k)"
    and "tt_ttisstd (zd_ttis z ! k) \<in> {0, 1}" and "tt_ttisgmt (zd_ttis z ! k) \<in> {0, 1}"
proof -
  have "\<forall>tt \<in> set (zd_ttis z). (0 \<le> tt_ttisstd tt \<and> tt_ttisstd tt < 256) \<and> (0 \<le> tt_ttisgmt tt \<and> tt_ttisgmt tt < 256)"
    using assms(1) by (fastforce simp: zone_data_ok_def)
  then show "uc (chr_at (drop k (map (\<lambda>tt. byte (tt_ttisstd tt)) (zd_ttis z) @ p))) = tt_ttisstd (zd_ttis z ! k)"
    "uc (chr_at (drop k (map (\<lambda>tt. byte (tt_ttisgmt tt)) (zd_ttis z) @ p))) = tt_ttisgmt (zd_ttis z ! k)"
    using chr_at_map_byte [OF assms(2), of tt_ttisstd p] chr_at_map_byte [OF assms(2), of tt_ttisgmt p] by blast+
  have "zd_ttis z ! k \<in> set (zd_ttis z)" using assms(2) by simp
  then show "tt_ttisstd (zd_ttis z ! k) \<in> {0, 1}" "tt_ttisgmt (zd_ttis z ! k) \<in> {0, 1}"
    using assms(1) unfolding zone_data_ok_def by blast+
qed

lemma types_byte:
  assumes "zone_data_ok z" and "k < length (zd_ats z)"
  shows "uc (chr_at (drop k (map byte (zd_types z) @ p))) = zd_types z ! k"
    and "zd_types z ! k < int (length (zd_ttis z))"
proof -
  have k: "k < length (zd_types z)" using assms by (simp add: zone_data_ok_def)
  have "\<forall>t \<in> set (zd_types z). 0 \<le> t \<and> t < 256" using assms(1) by (fastforce simp: zone_data_ok_def)
  then show "uc (chr_at (drop k (map byte (zd_types z) @ p))) = zd_types z ! k"
    using chr_at_map_byte [OF k, of "\<lambda>x. x"] by simp
  show "zd_types z ! k < int (length (zd_ttis z))" using assms(1) k by (auto simp: zone_data_ok_def)
qed

lemma decode_lsi:
  assumes "zone_data_ok z" and "k < length (zd_lsis z)"
  shows "\<lparr> ls_trans = decode 4 (drop (k * (4 + 4)) (concat (map encode_lsi (zd_lsis z)) @ p)),
      ls_corr = detzcode (drop (4 + k * (4 + 4)) (concat (map encode_lsi (zd_lsis z)) @ p)) \<rparr> = zd_lsis z ! k"
proof -
  let ?l = "zd_lsis z ! k"
  have l: "in_s32 (ls_trans ?l)" "in_s32 (ls_corr ?l)" using assms by (auto simp: zone_data_ok_def)
  obtain q where q: "drop (k * 8) (concat (map encode_lsi (zd_lsis z)) @ p)
      = encode4 (ls_trans ?l) @ encode4 (ls_corr ?l) @ q"
    using drop_encode_lsi [OF assms(2)] by (simp add: encode_lsi_def)
  then have "drop (4 + k * 8) (concat (map encode_lsi (zd_lsis z)) @ p) = encode4 (ls_corr ?l) @ q"
    using drop_drop [of 4 "k * 8" "concat (map encode_lsi (zd_lsis z)) @ p"] by simp
  with q l show ?thesis by (simp add: decode_def detzcode_long)
qed

lemma first_unsorted_sorted: "sorted (take (i + n + 1) xs) \<Longrightarrow> i + n < length xs \<Longrightarrow> first_unsorted n i xs = None"
proof (induction n arbitrary: i)
  case (Suc n)
  have "take (i + Suc n + 1) xs ! i \<le> take (i + Suc n + 1) xs ! (i + 1)"
    using Suc.prems by (intro sorted_nth_mono) auto
  then have "xs ! i \<le> xs ! (i + 1)" by simp
  then show ?case using Suc.IH [of "i + 1"] Suc.prems by simp
qed simp

lemma cut_sorted:
  assumes "sorted (take (nat (timecnt sp)) (ats sp))" and "nat (timecnt sp) \<le> length (ats sp)"
  shows "cut_unsorted sp = sp"
proof (cases "nat (timecnt sp - 2)")
  case 0
  then show ?thesis by (simp add: cut_unsorted_def)
next
  case (Suc m)
  then have le: "nat (timecnt sp - 2) + 1 \<le> nat (timecnt sp)" by simp
  have "sorted (take (0 + nat (timecnt sp - 2) + 1) (ats sp))"
    using sorted_wrt_take [OF assms(1), of "nat (timecnt sp - 2) + 1"]
    by (simp only: take_take min_absorb1 [OF le] add_0)
  then show ?thesis using first_unsorted_sorted [of 0 "nat (timecnt sp - 2)" "ats sp"] assms(2) Suc
    by (simp add: cut_unsorted_def)
qed

lemma map_nth_eqI: "length xs = n \<Longrightarrow> (\<And>k. k < n \<Longrightarrow> f k = xs ! k) \<Longrightarrow> map f [0..<n] = xs"
  by (intro nth_equalityI) simp_all

lemma length_encode_zone:
  assumes "zone_data_ok z"
  shows "length (encode_zone z) = 44 + length (zd_ats z) * 5 + length (zd_ttis z) * 8 + length (zd_chars z) +
    length (zd_lsis z) * 8" and "length (encode_zone z) \<le> 29000"
proof -
  have "length (encode_head z) = 44" by (simp add: encode_head_def)
  then show l: "length (encode_zone z) = 44 + length (zd_ats z) * 5 + length (zd_ttis z) * 8 + length (zd_chars z) +
      length (zd_lsis z) * 8"
    using assms length_concat_const [of encode4 4] length_concat_const [of encode_tti 6]
      length_concat_const [of encode_lsi 8]
    by (simp add: encode_zone_def zone_data_ok_def)
  show "length (encode_zone z) \<le> 29000" using assms unfolding l by (simp add: zone_data_ok_def)
qed

lemma load_block_zone:
  assumes z: "zone_data_ok z" and "tz_arrays sp0" and n: "int (length (encode_zone z)) \<le> nread"
    and buf: "buf = encode_zone z @ p"
  shows "\<exists>sp. load_block 4 buf nread sp0 = (True, sp, p) \<and> holds_zone z sp"
proof -
  define sp where "sp = load_counts buf sp0"
  define r where "r = concat (map encode4 (zd_ats z)) @ map byte (zd_types z) @
     concat (map encode_tti (zd_ttis z)) @ zd_chars z @ concat (map encode_lsi (zd_lsis z)) @
     map (\<lambda>tt. byte (tt_ttisstd tt)) (zd_ttis z) @ map (\<lambda>tt. byte (tt_ttisgmt tt)) (zd_ttis z) @ p"
  have b: "buf = encode_head z @ r" by (simp add: buf encode_zone_def r_def)
  note hc = head_counts [OF z, of r, folded b]
  have cnt: "timecnt sp = int (length (zd_ats z))" "typecnt sp = int (length (zd_ttis z))"
    "charcnt sp = int (length (zd_chars z))" "leapcnt sp = int (length (zd_lsis z))"
    and arr: "ats sp = ats sp0" "types sp = types sp0" "ttis sp = ttis sp0" "chars sp = chars sp0" "lsis sp = lsis sp0"
    by (simp_all add: sp_def hc(3))
  note ptr = zone_pointers [OF z cnt buf]
  note lim = z [unfolded zone_data_ok_def]
  have flag: "flag_at (ttisstdcnt_of buf) (p_isstd 4 buf sp) k = tt_ttisstd (zd_ttis z ! k)"
    "flag_at (ttisgmtcnt_of buf) (p_isgmt 4 buf sp) k = tt_ttisgmt (zd_ttis z ! k)"
    if "k < length (zd_ttis z)" for k
    using that flags_byte(1,2) [OF z that] unfolding flag_at_def hc ptr by auto
  have "block_ok 4 buf nread sp"
  proof -
    have "counts_ok (ttisstdcnt_of buf) (ttisgmtcnt_of buf) sp" unfolding hc counts_ok_def cnt using lim by auto
    moreover have "block_size 4 (ttisstdcnt_of buf) (ttisgmtcnt_of buf) sp \<le> nread - 44"
      using n unfolding length_encode_zone(1) [OF z] block_size_def hc cnt by simp
    moreover have "\<forall>k < nat (timecnt sp). uc (chr_at (drop k (p_types 4 buf sp))) < typecnt sp"
      unfolding ptr cnt using types_byte [OF z] by (simp del: drop_append)
    moreover have "\<forall>k < nat (typecnt sp). tti_ok (charcnt sp) (drop (k * 6) (p_ttis 4 buf sp)) \<and>
        flag_at (ttisstdcnt_of buf) (p_isstd 4 buf sp) k \<in> {0, 1} \<and>
        flag_at (ttisgmtcnt_of buf) (p_isgmt 4 buf sp) k \<in> {0, 1}"
      using decode_tti(2) [OF z] flags_byte(3,4) [OF z] flag unfolding ptr(3) cnt by (simp del: drop_append)
    ultimately show ?thesis unfolding block_ok_def by blast
  qed
  from load_block_eq [OF assms(2) sp_def this]
  have l: "load_block 4 buf nread sp0 = (True, cut_unsorted (block_state 4 buf sp), p)" unfolding ptr(8) .
  define st where "st = block_state 4 buf sp"
  have f: "timecnt st = timecnt sp" "typecnt st = typecnt sp" "charcnt st = charcnt sp" "leapcnt st = leapcnt sp"
    by (simp_all add: st_def block_state_def Let_def)
  have "map (\<lambda>k. decode 4 (drop (k * 4) (drop 44 buf))) [0..<length (zd_ats z)] = zd_ats z"
    using lim unfolding ptr(1) by (intro map_nth_eqI decode_at) simp_all
  then have a: "take (length (zd_ats z)) (ats st) = zd_ats z"
    by (simp add: st_def block_state_def Let_def cnt)
  have "map (\<lambda>k. uc (chr_at (drop k (p_types 4 buf sp)))) [0..<length (zd_ats z)] = zd_types z"
    using lim types_byte(1) [OF z] unfolding ptr(2) by (intro map_nth_eqI) (simp_all del: drop_append)
  then have t: "take (length (zd_ats z)) (types st) = zd_types z"
    using lim by (simp add: st_def block_state_def Let_def cnt)
  have "map (block_type 4 buf sp) [0..<length (zd_ttis z)] = zd_ttis z"
    unfolding block_type_def using decode_tti(1) [OF z] flag unfolding ptr(3) by (intro map_nth_eqI) (simp_all del: drop_append)
  then have i: "take (length (zd_ttis z)) (ttis st) = zd_ttis z"
    by (simp add: st_def block_state_def Let_def cnt)
  have c: "take (length (zd_chars z) + 1) (chars st) = zd_chars z @ [NUL]"
    by (simp add: st_def block_state_def Let_def cnt ptr(4))
  have "map (\<lambda>k. \<lparr> ls_trans = decode 4 (drop (k * (4 + 4)) (p_lsis 4 buf sp)),
      ls_corr = detzcode (drop (4 + k * (4 + 4)) (p_lsis 4 buf sp)) \<rparr>) [0..<length (zd_lsis z)] = zd_lsis z"
    using decode_lsi [OF z] unfolding ptr(5) by (intro map_nth_eqI) (simp_all del: drop_append)
  then have s: "take (length (zd_lsis z)) (lsis st) = zd_lsis z"
    by (simp add: st_def block_state_def Let_def cnt)
  have "length (ats st) = 1200"
    using assms(2) lim by (simp add: st_def block_state_def Let_def cnt arr tz_arrays_def)
  then have "cut_unsorted st = st" using a lim by (intro cut_sorted) (simp_all add: f cnt)
  then show ?thesis using l a t i c s f cnt unfolding st_def [symmetric] by (auto simp: holds_zone_def)
qed

text \<open>A file of the zone directory that can be opened and read, under a plain name.\<close>

definition has_file :: "tz_files \<Rightarrow> string \<Rightarrow> string \<Rightarrow> bool" where
  "has_file fs name content \<longleftrightarrow>
     chr_at name \<noteq> CHR '':'' \<and> chr_at name \<noteq> CHR ''/'' \<and> CHR ''.'' \<notin> set name \<and> length name \<le> 900 \<and>
     sys_open fs (TZDIR @ ''/'' @ name) = Some content \<and> sys_read_ok fs (TZDIR @ ''/'' @ name) \<and>
     sys_close fs (TZDIR @ ''/'' @ name)"

lemma open_zone_file:
  assumes "has_file fs name content"
  shows "open_zone fs name = Some (TZDIR @ ''/'' @ name, 0, 29000)"
  using assms by (simp add: open_zone_def zone_path_def has_file_def TZDIR_def Let_def)

lemma read_zone_file:
  assumes "has_file fs name content" and "content \<noteq> []" and "length content \<le> 29000"
  shows "read_zone fs buf0 (TZDIR @ ''/'' @ name, 0, 29000)
    = Inr (content @ drop (length content) buf0, int (length content))"
proof -
  have "nat (29000 mod 4294967296) = 29000" by simp
  then have "sys_read_at fs (TZDIR @ ''/'' @ name) content 0 29000 = content"
    using assms by (simp only: sys_read_at_def has_file_def if_True nat_0 drop_0 take_all)
  then show ?thesis using assms by (simp add: read_zone_def has_file_def)
qed

lemma holds_zone_repeat [simp]: "holds_zone z (set_repeat sp) = holds_zone z sp"
  by (simp add: holds_zone_def set_repeat_def Let_def)

lemma set_repeat_off [simp]: "\<not> goback (set_repeat sp)" "\<not> goahead (set_repeat sp)"
  by (simp_all add: set_repeat_def differ_by_repeat_def sizeof_time_t_def SECSPERREPEAT_BITS_def Let_def)

lemma tzload_uncached_file:
  assumes z: "zone_data_ok z" and "tz_arrays sp" and "has_file fs name (encode_zone z)"
  shows "\<exists>sp'. tzload_uncached fs junk load g (Some name) sp doextend = Some (Inr (g, 0, sp')) \<and> holds_zone z sp' \<and>
    \<not> goback sp' \<and> \<not> goahead sp'"
proof -
  let ?buf = "encode_zone z @ drop (length (encode_zone z)) (j_buf junk)"
  let ?n = "int (length (encode_zone z))"
  obtain rest where e: "encode_zone z = encode_head z @ rest" by (simp add: encode_zone_def)
  have ne: "encode_zone z \<noteq> []" unfolding e by (simp add: encode_head_def)
  obtain sp1 where b: "load_block 4 ?buf ?n sp = (True, sp1, drop (length (encode_zone z)) (j_buf junk))"
    and h: "holds_zone z sp1" using load_block_zone [OF z assms(2) order_refl refl] by blast
  have "?buf ! 4 = NUL" unfolding e append_assoc by (rule head_counts(5) [OF z])
  then have l: "load_blocks [4, 8] ?buf ?n sp = (True, sp1, ?buf, ?n)" by (simp only: load_blocks.simps b prod.case if_True if_False simp_thms)
  have "?buf ! 0 = CHR ''T''" unfolding e by (simp add: encode_head_def)
  then have "finish_load junk load g doextend ?buf ?n sp1 = Some (Inr (g, 0, set_repeat sp1))"
    by (simp add: finish_load_def)
  then have "tzload_uncached fs junk load g (Some name) sp doextend = Some (Inr (g, 0, set_repeat sp1))"
    unfolding tzload_uncached_def option.case open_zone_file [OF assms(3)]
      read_zone_file [OF assms(3) ne length_encode_zone(2) [OF z]] sum.case prod.case l by simp
  then show ?thesis using h by simp
qed

lemma cache_find_update:
  "cache_find name k ns = Inr None \<Longrightarrow> i < length ns \<Longrightarrow>
    cache_find name k (ns[i := Name name]) = Inr (Some (k + i))"
proof (induction name k ns arbitrary: i rule: cache_find.induct)
  case (2 name k ns)
  then show ?case by (cases i) simp_all
next
  case (4 name k n ns)
  then show ?case by (cases i) (auto split: if_splits)
qed simp_all

lemma tzload_fresh:
  assumes "zone_data_ok z" and "has_file fs name (encode_zone z)" and "cache_ok g" and "name \<noteq> ''UTC''"
    and "cache_find name 0 (g_cacheNames g) = Inr None"
  shows "\<exists>sp'. tzload fs junk (Suc depth) g (Some name) sp doextend
      = Some (Inr (store_zone (next_slot g) sp' (Name name) (evict g), 0, sp')) \<and> holds_zone z sp' \<and>
    \<not> goback sp' \<and> \<not> goahead sp'"
proof -
  have "tz_arrays (g_cacheStates (evict g) ! next_slot g)"
    using cache_ok_evict [OF assms(3)] next_slot_bound [of g] by (simp add: cache_ok_def)
  from tzload_uncached_file [OF assms(1) this assms(2), of junk "tzload_named fs junk depth" "evict g" True]
  show ?thesis using assms(4,5) by (auto simp: tzload_def tzload_step_def Let_def store_zone_def)
qed

text \<open>
  C9. A zone file is read back exactly, once: for any zone within the limits of \<open>tzfile.h\<close>, with its
  transitions in order, whose version-1 file is in the zone directory, \<open>tzload\<close> of a name that is
  not cached returns 0 and a state with exactly that zone's transitions, types, abbreviations and leap
  seconds. After the call the name is in the cache, and until other loads evict it, loading it again, whatever has
  become of the files, returns the same state and leaves the cache as it is.
\<close>
theorem tzload_reads_zone_file:
  assumes "zone_data_ok z" and "has_file fs name (encode_zone z)" and "cache_ok g" and "name \<noteq> ''UTC''"
    and "cache_find name 0 (g_cacheNames g) = Inr None"
  shows "\<exists>g' sp'. tzload fs junk (Suc depth) g (Some name) sp doextend = Some (Inr (g', 0, sp')) \<and> holds_zone z sp' \<and>
    (\<forall>fs' junk' depth' sp1 doextend'.
       tzload fs' junk' (Suc depth') g' (Some name) sp1 doextend' = Some (Inr (g', 0, sp')))"
proof -
  let ?i = "next_slot g"
  have len: "length (g_cacheNames g) = 4" "length (g_cacheStates g) = 4" and i: "?i < 4"
    using assms(3) next_slot_bound [of g] by (simp_all add: cache_ok_def)
  obtain sp' where f: "tzload fs junk (Suc depth) g (Some name) sp doextend
      = Some (Inr (store_zone ?i sp' (Name name) (evict g), 0, sp'))" and h: "holds_zone z sp'"
    using tzload_fresh [OF assms] by blast
  define g' where "g' = store_zone ?i sp' (Name name) (evict g)"
  note first = f [folded g'_def]
  have "g_cacheNames g' = (g_cacheNames g)[?i := Name name]" and st: "g_cacheStates g' ! ?i = sp'"
    using i len by (simp_all add: g'_def store_zone_def evict_def Let_def)
  then have "cache_find name 0 (g_cacheNames g') = Inr (Some ?i)"
    using cache_find_update [OF assms(5), of ?i] i len by simp
  then have "tzload fs' junk' (Suc depth') g' (Some name) sp1 doextend' = Some (Inr (g', 0, sp'))"
    for fs' junk' depth' sp1 doextend'
    using assms(4) st by (simp add: tzload_def tzload_step_def)
  then show ?thesis using first h by blast
qed

text \<open>A zone with one transition, and a system with its file.\<close>

definition lima :: zone_data where
  "lima = \<lparr> zd_ats = [100], zd_types = [0], zd_ttis = [\<lparr> tt_gmtoff = -18000, tt_isdst = 0, tt_abbrind = 0,
     tt_ttisstd = 0, tt_ttisgmt = 0 \<rparr>], zd_chars = ''PET'', zd_lsis = [] \<rparr>"

definition lima_files :: tz_files where
  "lima_files = \<lparr> sys_open = (\<lambda>p. if p = TZDIR @ ''/'' @ ''Lima'' then Some (encode_zone lima) else None),
     sys_access = (\<lambda>_. False), sys_lseek = (\<lambda>_ _. False), sys_read_ok = (\<lambda>_. True), sys_close = (\<lambda>_. True) \<rparr>"

definition empty_cache :: tz_cache where
  "empty_cache = \<lparr> g_cacheNames = replicate CACHE_COUNT NoName, g_cacheStates = replicate CACHE_COUNT blank_state,
     g_lastCache = 0, g_utc = blank_state, g_utcSet = False \<rparr>"

definition blank_junk :: tz_junk where
  "blank_junk = \<lparr> j_buf = replicate buf_size NUL, j_state = blank_state, j_rule = october_rule \<rparr>"

lemma empty_cache_ok: "cache_ok empty_cache"
  by (auto simp: cache_ok_def empty_cache_def)

lemma lima_ok: "zone_data_ok lima" "has_file lima_files ''Lima'' (encode_zone lima)"
  by (simp_all add: zone_data_ok_def lima_def has_file_def lima_files_def in_s32_def INT_MIN_def INT_MAX_def)

lemma empty_cache_find: "cache_find name 0 (g_cacheNames empty_cache) = Inr None"
  by (simp add: empty_cache_def numeral_eq_Suc)

theorem tzload_reads_zone_file_witness:
  "\<exists>g' sp'. tzload lima_files blank_junk 1 empty_cache (Some ''Lima'') blank_state True = Some (Inr (g', 0, sp')) \<and>
     holds_zone lima sp' \<and>
     (\<forall>fs' junk' depth' sp1 doextend'.
       tzload fs' junk' (Suc depth') g' (Some ''Lima'') sp1 doextend' = Some (Inr (g', 0, sp')))"
  using tzload_reads_zone_file [OF lima_ok empty_cache_ok _ empty_cache_find, of blank_junk 0 blank_state True]
  by (simp del: tzload_named.simps)

theorem tzload_well_typed_witness:
  "\<exists>g' sp'. tzload lima_files blank_junk 1 empty_cache (Some ''Lima'') blank_state True = Some (Inr (g', 0, sp')) \<and>
     cache_ok g' \<and> zone_wf sp'"
proof -
  have ne: "''Lima'' \<noteq> ''UTC''" by simp
  have junk: "junk_ok blank_junk" by (simp add: junk_ok_def blank_junk_def)
  obtain g' sp' where "tzload lima_files blank_junk (Suc 0) empty_cache (Some ''Lima'') blank_state True = Some (Inr (g', 0, sp'))"
    using tzload_fresh [OF lima_ok empty_cache_ok ne empty_cache_find] by blast
  moreover from tzload_well_typed [OF empty_cache_ok junk blank_arrays _ this] have "cache_ok g' \<and> zone_wf sp'" by simp
  ultimately show ?thesis by auto
qed

text \<open>The result of loading \<open>UTC\<close> is not looked at: a file whose header counts too many transitions
  leaves those counts in the state, and \<open>tzload\<close> returns 0.\<close>

definition broken_utc :: string where
  "broken_utc = replicate 20 NUL @ concat (map encode4 [1, 1, 0, 5000, 1, 0])"

lemma tzload_utc_unchecked:
  assumes "has_file fs ''UTC'' broken_utc" and "\<not> g_utcSet g" and "tz_arrays (g_utc g)" 
  shows "\<exists>g' sp'. tzload fs junk (Suc depth) g (Some ''UTC'') sp doextend = Some (Inr (g', 0, sp')) \<and>
    timecnt sp' = 5000 \<and> \<not> zone_wf sp'"
proof -
  let ?buf = "broken_utc @ drop (length broken_utc) (j_buf junk)"
  have bytes: "broken_utc = replicate 20 NUL @ encode4 1 @ encode4 1 @ encode4 0 @ encode4 5000 @ encode4 1 @ encode4 0"
    by (simp add: broken_utc_def)
  have ne: "broken_utc \<noteq> []" "length broken_utc \<le> 29000" by (simp_all add: bytes)
  define utc where "utc = load_counts ?buf (g_utc g)"
  have "detzcode (drop 32 ?buf) = s32 5000"
    unfolding bytes by (simp add: detzcode_encode4)
  then have t: "timecnt utc = 5000" by (simp add: utc_def load_counts_def s32_id in_s32_def INT_MIN_def INT_MAX_def)
  then have "\<not> counts_ok (ttisstdcnt_of ?buf) (ttisgmtcnt_of ?buf) utc" by (simp add: counts_ok_def)
  then have "load_block 4 ?buf n (g_utc g) = (False, utc, drop 44 ?buf)" for n
    by (simp add: load_block_def utc_def [symmetric] Let_def)
  then have l: "load_blocks [4, 8] ?buf n (g_utc g) = (False, utc, ?buf, n)" for n
    by (simp only: load_blocks.simps prod.case simp_thms if_True)
  have "tzload_uncached fs junk load g (Some ''UTC'') (g_utc g) True = Some (Inr (g, -1, utc))" for load
    unfolding tzload_uncached_def option.case open_zone_file [OF assms(1)]
      read_zone_file [OF assms(1) ne] sum.case prod.case l by simp
  then have "tzload fs junk (Suc depth) g (Some ''UTC'') sp doextend
      = Some (Inr (g\<lparr> g_utc := utc, g_utcSet := True \<rparr>, 0, utc))"
    using assms(2) by (simp add: tzload_def tzload_step_def)
  then show ?thesis using t by (auto simp: zone_wf_def)
qed

end
