(* ===== verification/Tz_Cache.thy ===== *)
theory Tz_Cache
  imports Tz_File
begin

text \<open>
  The zone cache of \<open>libcutils/tztime.c\<close> over the life of a process: the caches that any sequence of calls
  of \<open>tzload\<close> leads to, from the initial one, whatever the files hold at each call. While a zone is loaded,
  the name of the evicted slot is a dangling pointer; nested calls may meet it. Between calls there is none.
\<close>

definition dangling :: "tz_cache \<Rightarrow> nat set" where
  "dangling g = {i. i < length (g_cacheNames g) \<and> g_cacheNames g ! i = Freed}"

definition dangling_in :: "nat set \<Rightarrow> tz_cache \<Rightarrow> bool" where
  "dangling_in F g \<longleftrightarrow> cache_ok g \<and> dangling g \<subseteq> F"

lemma dangling_in_ok: "dangling_in F g \<Longrightarrow> cache_ok g"
  by (simp add: dangling_in_def)

lemma dangling_evict: "dangling_in F g \<Longrightarrow> dangling_in (insert (next_slot g) F) (evict g)"
  using cache_ok_evict [of g]
  by (auto simp: dangling_in_def dangling_def evict_def Let_def nth_list_update split: if_splits)

lemma dangling_store:
  assumes "dangling_in (insert i F) g" and "nm \<noteq> Freed"
  shows "dangling (store_zone i st nm g) \<subseteq> F"
proof
  fix x assume "x \<in> dangling (store_zone i st nm g)"
  then have "x \<in> dangling g" "x \<noteq> i"
    using assms(2) by (cases "x = i"; auto simp: dangling_def store_zone_def)+
  then show "x \<in> F" using assms(1) by (auto simp: dangling_in_def)
qed

lemma dangling_utc [simp]: "dangling (g\<lparr> g_utc := u, g_utcSet := b \<rparr>) = dangling g"
  by (simp add: dangling_def)

lemma tzload_step_dangling:
  assumes load: "\<And>F. zone_loader load (dangling_in F)" and junk: "junk_ok junk" and g: "dangling_in F g"
    and l: "tzload_step fs junk load g name sp doextend = Some (Inr (g', r, sp'))"
  shows "dangling g' \<subseteq> F"
proof (cases "name = ''UTC''")
  case True
  have "tz_arrays (g_utc g)" using g by (simp add: dangling_in_def cache_ok_def)
  then have "dangling_in F g1" if "tzload_uncached fs junk load g (Some name) (g_utc g) True = Some (Inr (g1, e, u))" for g1 e u
    using zone_loader.tzload_uncached_wf [OF load g _ junk that] by blast
  then show ?thesis using l True g
    by (auto simp: tzload_step_def dangling_in_def split: if_splits option.splits sum.splits prod.splits)
next
  case False
  have st: "tz_arrays (g_cacheStates (evict g) ! next_slot g)"
    using cache_ok_evict [OF dangling_in_ok [OF g]] next_slot_bound [of g] by (simp add: cache_ok_def)
  note wf = zone_loader.tzload_uncached_wf [OF load dangling_evict [OF g] st junk]
  from l False show ?thesis
  proof (cases rule: tzload_step_cases)
    case (hit i)
    then show ?thesis using g by (simp add: dangling_in_def)
  next
    case (loaded g2)
    then show ?thesis using wf [OF loaded(2)] dangling_store by simp
  next
    case (failed g2 st)
    then show ?thesis using wf [OF failed(4)] dangling_store by simp
  qed
qed

lemma tzload_named_dangling:
  assumes "junk_ok junk"
  shows "zone_loader (tzload_named fs junk depth) (dangling_in F)"
proof (induction depth arbitrary: F)
  case 0
  show ?case by unfold_locales simp
next
  case (Suc n)
  show ?case
  proof
    fix g sp name doextend g' r sp'
    assume g: "dangling_in F g" and sp: "tz_arrays sp" and l: "tzload_named fs junk (Suc n) g name sp doextend = Some (Inr (g', r, sp'))"
    have "dangling g' \<subseteq> F" using tzload_step_dangling [OF Suc assms g] l by simp
    then show "dangling_in F g' \<and> tz_arrays sp' \<and> (r = 0 \<and> name \<noteq> ''UTC'' \<longrightarrow> zone_wf sp')"
      using zone_loader.load_wf [OF tzload_named_loader [OF assms] dangling_in_ok [OF g] sp l] by (simp add: dangling_in_def)
  qed
qed

interpretation cache_life: zone_loader "tzload_named fs junk depth" "\<lambda>g. dangling_in F g \<and> junk_ok junk" for fs junk depth F
proof
  fix g sp name doextend g' r sp'
  assume "dangling_in F g \<and> junk_ok junk" and "tz_arrays sp" and "tzload_named fs junk depth g name sp doextend = Some (Inr (g', r, sp'))"
  then show "(dangling_in F g' \<and> junk_ok junk) \<and> tz_arrays sp' \<and> (r = 0 \<and> name \<noteq> ''UTC'' \<longrightarrow> zone_wf sp')"
    using zone_loader.load_wf [OF tzload_named_dangling] by blast
qed

subsection \<open>Reachable caches\<close>

text \<open>One call of \<open>tzload\<close>, with its own files, memory and depth.\<close>

inductive cache_step :: "tz_cache \<Rightarrow> tz_cache \<Rightarrow> bool" where
  load: "junk_ok junk \<Longrightarrow> tz_arrays sp \<Longrightarrow> tzload fs junk depth g name sp doextend = Some (Inr (g', r, sp')) \<Longrightarrow> cache_step g g'"

inductive reachable :: "tz_cache \<Rightarrow> bool" where
  start: "reachable empty_cache"
| step: "reachable g \<Longrightarrow> cache_step g g' \<Longrightarrow> reachable g'"

inductive_cases cache_stepE: "cache_step g g'"

lemma cache_step_keeps:
  assumes "cache_step g g'" and "dangling_in {} g"
  shows "dangling_in {} g'"
proof -
  obtain junk sp fs depth name doextend r sp' where junk: "junk_ok junk" and sp: "tz_arrays sp"
    and l: "tzload fs junk depth g name sp doextend = Some (Inr (g', r, sp'))"
    using assms(1) by (cases rule: cache_stepE) auto
  have c: "dangling_in {} g \<and> junk_ok junk" using assms(2) junk by simp
  show ?thesis
  proof (cases name)
    case None
    then show ?thesis using cache_life.tzload_uncached_wf [OF c sp junk] l by (auto simp: tzload_def)
  next
    case (Some n)
    then show ?thesis using cache_life.load_wf [OF c sp] l by (auto simp: tzload_def)
  qed
qed

lemma reachable_clean: "reachable g \<Longrightarrow> dangling_in {} g"
proof (induction rule: reachable.induct)
  case start
  then show ?case using empty_cache_ok by (auto simp: dangling_in_def dangling_def empty_cache_def nth_Cons' numeral_eq_Suc)
next
  case (step g g')
  then show ?case using cache_step_keeps by blast
qed

lemma cache_find_clean: "Freed \<notin> set ns \<Longrightarrow> cache_find name i ns \<noteq> Inl e"
  by (induction name i ns rule: cache_find.induct) auto



end
