(* ===== verification/Tz_Local.thy ===== *)
theory Tz_Local
  imports Tz_File
begin

text \<open>
  Local time in \<open>libcutils/tztime.c\<close>: \<open>localsub\<close>, which finds the type in force at a time, \<open>gmtsub\<close>,
  and the inverse \<open>time1\<close>, \<open>time2\<close>, \<open>time2sub\<close>, which normalises a broken-down time and searches the
  whole range of \<open>time_t\<close> for it; \<open>localtime_tz\<close> and \<open>mktime_tz\<close> are the entry points. The results are
  those of \<open>timesub\<close>: \<open>None\<close> for a loop that does not end, \<open>NullResult\<close> for NULL or \<open>WRONG\<close>, and
  \<open>OutOfBounds\<close> for a read outside an array. The pointer that \<open>localsub\<close> stores in \<open>tzname\<close> is left out.
\<close>

subsection \<open>The type in force\<close>

definition nth_checked :: "'a list \<Rightarrow> int \<Rightarrow> tz_fault + 'a" where
  "nth_checked xs i = (if 0 \<le> i \<and> i < int (length xs) then Inr (xs ! nat i) else Inl OutOfBounds)"

text \<open>The first type that is not daylight time, or 0.\<close>

function first_std :: "ttinfo list \<Rightarrow> int \<Rightarrow> nat \<Rightarrow> tz_fault + nat" where
  "first_std tts cnt i =
     (case nth_checked tts (int i) of
        Inl e \<Rightarrow> Inl e
      | Inr tt \<Rightarrow>
          if tt_isdst tt \<noteq> 0 then
            if int (i + 1) \<ge> cnt then Inr 0 else first_std tts cnt (i + 1)
          else Inr i)"
  by pat_completeness auto
termination by (relation "measure (\<lambda>(_, cnt, i). nat (cnt - int i))") auto

declare first_std.simps [simp del]

function type_search :: "int list \<Rightarrow> int \<Rightarrow> int \<Rightarrow> int \<Rightarrow> tz_fault + int" where
  "type_search xs t lo hi =
     (if lo < hi then
        let mid = (lo + hi) div 2
        in case nth_checked xs mid of
             Inl e \<Rightarrow> Inl e
           | Inr a \<Rightarrow> if t < a then type_search xs t lo mid else type_search xs t (mid + 1) hi
      else Inr lo)"
  by pat_completeness auto
termination by (relation "measure (\<lambda>(_, _, lo, hi). nat (hi - lo))") auto

declare type_search.simps [simp del]

definition type_at :: "int \<Rightarrow> tzstate \<Rightarrow> tz_fault + int" where
  "type_at t sp =
     (if timecnt sp = 0 \<or> t < ats sp ! 0
      then (case first_std (ttis sp) (typecnt sp) 0 of Inl e \<Rightarrow> Inl e | Inr i \<Rightarrow> Inr (int i))
      else (case type_search (ats sp) t 1 (timecnt sp) of
              Inl e \<Rightarrow> Inl e
            | Inr lo \<Rightarrow> nth_checked (types sp) (lo - 1)))"

text \<open>\<open>localsub\<close> on a time inside the table, and with the 400-year cycles outside it. The \<open>offset\<close>
  is not used.\<close>

definition localsub_in :: "int \<Rightarrow> tzstate \<Rightarrow> (tz_fault + tm) option" where
  "localsub_in t sp =
     (case type_at t sp of
        Inl e \<Rightarrow> Some (Inl e)
      | Inr i \<Rightarrow>
          (case nth_checked (ttis sp) i of
             Inl e \<Rightarrow> Some (Inl e)
           | Inr tt \<Rightarrow>
               (case timesub t (tt_gmtoff tt) sp of
                  Some (Inr tm) \<Rightarrow> Some (Inr (tm\<lparr> tm_isdst := tt_isdst tt \<rparr>))
                | r \<Rightarrow> r)))"

definition localsub :: "int \<Rightarrow> int \<Rightarrow> tzstate \<Rightarrow> (tz_fault + tm) option" where
  "localsub t offset sp =
     (let first = ats sp ! 0; last = ats sp ! nat (timecnt sp - 1) in
      if (goback sp \<and> t < first) \<or> (goahead sp \<and> t > last) then
        let seconds = s32 (s32 (if t < first then first - t else t - last) - 1);
            icycles = cdiv (cdiv seconds YEARSPERREPEAT) AVGSECSPERYEAR + 1;
            cycle = s32 (s32 (icycles * YEARSPERREPEAT) * AVGSECSPERYEAR);
            newt = s32 (if t < first then t + cycle else t - cycle)
        in if newt < first \<or> newt > last then Some (Inl NullResult)
           else
             (case localsub_in newt sp of
                Some (Inr tm) \<Rightarrow>
                  let newy = s32 (if t < first then tm_year tm - icycles * YEARSPERREPEAT
                                  else tm_year tm + icycles * YEARSPERREPEAT)
                  in Some (Inr (tm\<lparr> tm_year := newy \<rparr>))
              | r \<Rightarrow> r)
      else localsub_in t sp)"

text \<open>\<open>gmtsub\<close> keeps its own state: \<open>gmt_is_set\<close> and \<open>gmtmem\<close>.\<close>

record 'g gmt_state =
  gmt_global :: 'g
  gmt_is_set :: bool
  gmtmem :: tzstate

definition gmtsub ::
  "'g loader \<Rightarrow> rule \<Rightarrow> 'g gmt_state \<Rightarrow> int \<Rightarrow> int \<Rightarrow> (tz_fault + ('g gmt_state \<times> tm)) option" where
  "gmtsub load rule0 g t offset =
     (let loaded = (if gmt_is_set g then Some (Inr (gmt_global g, gmtmem g))
                    else gmtload load rule0 (gmt_global g) (gmtmem g))
      in case loaded of
           Some (Inr (g1, st)) \<Rightarrow>
             (case timesub t offset st of
                Some (Inr tm) \<Rightarrow> Some (Inr (g\<lparr> gmt_global := g1, gmt_is_set := True, gmtmem := st \<rparr>, tm))
              | Some (Inl e) \<Rightarrow> Some (Inl e)
              | None \<Rightarrow> None)
         | Some (Inl e) \<Rightarrow> Some (Inl e)
         | None \<Rightarrow> None)"

text \<open>The zone of the two entry points: GMT where the zone cannot be loaded. \<open>st0\<close> is the
  uninitialised state on the stack.\<close>

definition load_or_gmt ::
  "tz_files \<Rightarrow> tz_junk \<Rightarrow> nat \<Rightarrow> tz_cache \<Rightarrow> string option \<Rightarrow> tzstate \<Rightarrow> (tz_fault + (tz_cache \<times> tzstate)) option" where
  "load_or_gmt fs junk depth g tz st0 =
     (case tzload fs junk depth g tz st0 True of
        Some (Inr (g1, r, st)) \<Rightarrow>
          if r \<noteq> 0 then gmtload (tzload_named fs junk depth) (j_rule junk) g1 st else Some (Inr (g1, st))
      | Some (Inl e) \<Rightarrow> Some (Inl e)
      | None \<Rightarrow> None)"

definition localtime_tz ::
  "tz_files \<Rightarrow> tz_junk \<Rightarrow> nat \<Rightarrow> tz_cache \<Rightarrow> int \<Rightarrow> string option \<Rightarrow> tzstate \<Rightarrow>
    (tz_fault + (tz_cache \<times> tm)) option" where
  "localtime_tz fs junk depth g t tz st0 =
     (case load_or_gmt fs junk depth g tz st0 of
        Some (Inr (g1, st)) \<Rightarrow>
          (case localsub t 0 st of
             Some (Inr tm) \<Rightarrow> Some (Inr (g1, tm))
           | Some (Inl e) \<Rightarrow> Some (Inl e)
           | None \<Rightarrow> None)
      | Some (Inl e) \<Rightarrow> Some (Inl e)
      | None \<Rightarrow> None)"

subsection \<open>Normalising a broken-down time\<close>

text \<open>The loops over the days; an overflow of the year is \<open>WRONG\<close>.\<close>

function mday_up :: "int \<Rightarrow> int \<Rightarrow> int \<Rightarrow> tz_fault + (int \<times> int)" where
  "mday_up y mon mday =
     (if mday \<le> 0 then
        (case long_increment_overflow y (-1) of (y', overflow) \<Rightarrow>
           if overflow then Inl NullResult
           else let li = s32 (y' + (if 1 < mon then 1 else 0)) in mday_up y' mon (mday + year_lengths (isleap li)))
      else Inr (y, mday))"
  by pat_completeness auto
termination by (relation "measure (\<lambda>(_, _, d). nat (1 - d))") (auto simp: year_lengths_def)

declare mday_up.simps [simp del]

function mday_down :: "int \<Rightarrow> int \<Rightarrow> int \<Rightarrow> tz_fault + (int \<times> int)" where
  "mday_down y mon mday =
     (if mday > DAYSPERLYEAR then
        let li = s32 (y + (if 1 < mon then 1 else 0)); mday' = mday - year_lengths (isleap li)
        in (case long_increment_overflow y 1 of (y', overflow) \<Rightarrow>
              if overflow then Inl NullResult else mday_down y' mon mday')
      else Inr (y, mday))"
  by pat_completeness auto
termination by (relation "measure (\<lambda>(_, _, d). nat d)") (auto simp: year_lengths_def)

declare mday_down.simps [simp del]

lemma month_step_less:
  "0 \<le> mon \<Longrightarrow> mon < 12 \<Longrightarrow> mon_lengths leap ! nat mon < mday \<Longrightarrow>
    0 < mday \<and> 0 < mon_lengths leap ! nat mon"
  using mon_length_bounds(1) [of mon leap] by simp

function mon_down :: "int \<Rightarrow> int \<Rightarrow> int \<Rightarrow> tz_fault + (int \<times> int \<times> int)" where
  "mon_down y mon mday =
     (if mon < 0 \<or> mon \<ge> MONSPERYEAR then Inl OutOfBounds
      else
        let i = mon_lengths (isleap y) ! nat mon
        in if mday \<le> i then Inr (y, mon, mday)
           else if mon + 1 \<ge> MONSPERYEAR then
             (case long_increment_overflow y 1 of (y', overflow) \<Rightarrow>
                if overflow then Inl NullResult else mon_down y' 0 (mday - i))
           else mon_down y (mon + 1) (mday - i))"
  by pat_completeness auto
termination
  by (relation "measure (\<lambda>(_, _, d). nat d)") (auto simp: not_le not_less dest!: month_step_less [rotated 2])

declare mon_down.simps [simp del]

text \<open>The part of \<open>time2sub\<close> before the search: the normalised time and \<open>saved_seconds\<close>.\<close>

definition norm_date :: "tm \<Rightarrow> tz_fault + tm" where
  "norm_date tm =
     (case long_normalize_overflow (tm_year tm) (tm_mon tm) MONSPERYEAR of (y0, mon0, overflow) \<Rightarrow>
      if overflow then Inl NullResult
      else (case long_increment_overflow y0 TM_YEAR_BASE of (y1, overflow) \<Rightarrow>
      if overflow then Inl NullResult
      else (case mday_up y1 mon0 (tm_mday tm) of
              Inl e \<Rightarrow> Inl e
            | Inr (y2, mday2) \<Rightarrow>
                (case mday_down y2 mon0 mday2 of
                   Inl e \<Rightarrow> Inl e
                 | Inr (y3, mday3) \<Rightarrow>
                     (case mon_down y3 mon0 mday3 of
                        Inl e \<Rightarrow> Inl e
                      | Inr (y4, mon, mday) \<Rightarrow>
                          (case long_increment_overflow y4 (- TM_YEAR_BASE) of (y, overflow) \<Rightarrow>
                             if overflow then Inl NullResult
                             else Inr (tm\<lparr> tm_year := y, tm_mon := mon, tm_mday := mday \<rparr>)))))))"

definition norm_hours :: "tm \<Rightarrow> tz_fault + tm" where
  "norm_hours tm =
     (case normalize_overflow (tm_hour tm) (tm_min tm) MINSPERHOUR of (h, m, overflow) \<Rightarrow>
      if overflow then Inl NullResult
      else (case normalize_overflow (tm_mday tm) h HOURSPERDAY of (d, h', overflow) \<Rightarrow>
      if overflow then Inl NullResult
      else norm_date (tm\<lparr> tm_min := m, tm_hour := h', tm_mday := d \<rparr>)))"

definition norm_secs :: "bool \<Rightarrow> tm \<Rightarrow> tz_fault + tm" where
  "norm_secs do_norm_secs tm =
     (if do_norm_secs then
        (case normalize_overflow (tm_min tm) (tm_sec tm) SECSPERMIN of (m, s, overflow) \<Rightarrow>
           if overflow then Inl NullResult else norm_hours (tm\<lparr> tm_min := m, tm_sec := s \<rparr>))
      else norm_hours tm)"

definition save_seconds :: "tm \<Rightarrow> tz_fault + (tm \<times> int)" where
  "save_seconds tm =
     (if tm_sec tm \<ge> 0 \<and> tm_sec tm < SECSPERMIN then Inr (tm, 0)
      else if tm_year tm + TM_YEAR_BASE < EPOCH_YEAR then
        (case increment_overflow (tm_sec tm) (1 - SECSPERMIN) of (s, overflow) \<Rightarrow>
           if overflow then Inl NullResult else Inr (tm\<lparr> tm_sec := SECSPERMIN - 1 \<rparr>, s))
      else Inr (tm\<lparr> tm_sec := 0 \<rparr>, tm_sec tm))"

subsection \<open>Searching for a time\<close>

definition TIME_T_MAX :: int where [simp]: "TIME_T_MAX = 2147483647"
definition TIME_T_MIN :: int where [simp]: "TIME_T_MIN = -2147483648"

definition midpoint :: "int \<Rightarrow> int \<Rightarrow> int" where
  "midpoint lo hi = (let t = cdiv lo 2 + cdiv hi 2 in if t < lo then lo else if t > hi then hi else t)"

text \<open>One round of the binary search: the next interval, or \<open>WRONG\<close>.\<close>

definition next_interval :: "int \<Rightarrow> int \<Rightarrow> int \<Rightarrow> int \<Rightarrow> (int \<times> int) option" where
  "next_interval t dir lo hi =
     (let narrow = (\<lambda>t lo hi. if lo > hi then None else if dir > 0 then Some (lo, t) else Some (t, hi))
      in if t = lo then if t = TIME_T_MAX then None else narrow (t + 1) (lo + 1) hi
         else if t = hi then if t = TIME_T_MIN then None else narrow (t - 1) lo (hi - 1)
         else narrow t lo hi)"

lemma midpoint_bounds: "lo \<le> hi \<Longrightarrow> lo \<le> midpoint lo hi \<and> midpoint lo hi \<le> hi"
  by (simp add: midpoint_def Let_def)

lemma midpoint_empty: "hi < lo \<Longrightarrow> midpoint lo hi = lo \<or> midpoint lo hi = hi"
  by (simp add: midpoint_def Let_def)

lemma next_interval_shrinks:
  assumes "next_interval (midpoint lo hi) dir lo hi = Some (lo', hi')"
  shows "lo \<le> lo' \<and> lo' \<le> hi' \<and> hi' \<le> hi \<and> hi' - lo' < hi - lo"
  using assms midpoint_bounds [of lo hi] midpoint_empty [of hi lo]
  by (cases "lo \<le> hi") (auto simp: next_interval_def Let_def split: if_splits)

text \<open>The search by an interpretation \<open>f\<close> of times: the time that \<open>f\<close> breaks down as \<open>yourtm\<close>.\<close>

function time_search ::
  "(int \<Rightarrow> (tz_fault + tm) option) \<Rightarrow> tm \<Rightarrow> int \<Rightarrow> int \<Rightarrow> (tz_fault + (int \<times> tm)) option" where
  "time_search f yourtm lo hi =
     (let t = midpoint lo hi
      in case f t of
           None \<Rightarrow> None
         | Some (Inl OutOfBounds) \<Rightarrow> Some (Inl OutOfBounds)
         | Some (Inl NullResult) \<Rightarrow>
             (case next_interval t (if t > 0 then 1 else -1) lo hi of
                None \<Rightarrow> Some (Inl NullResult)
              | Some (lo', hi') \<Rightarrow> time_search f yourtm lo' hi')
         | Some (Inr mytm) \<Rightarrow>
             if tmcomp mytm yourtm = 0 then Some (Inr (t, mytm))
             else
               (case next_interval t (tmcomp mytm yourtm) lo hi of
                  None \<Rightarrow> Some (Inl NullResult)
                | Some (lo', hi') \<Rightarrow> time_search f yourtm lo' hi'))"
  by pat_completeness auto
termination
  by (relation "measure (\<lambda>(_, _, lo, hi). nat (hi - lo))") (auto dest!: next_interval_shrinks)

declare time_search.simps [simp del]

text \<open>Right time, wrong type: the pairs of a type with the wanted flag and one without, from the end
  of the table, and the first whose difference in offset leads to the right time and type.\<close>

definition type_pairs :: "tm \<Rightarrow> tzstate \<Rightarrow> (nat \<times> nat) list" where
  "type_pairs yourtm sp =
     [(i, j). i \<leftarrow> rev [0..<nat (typecnt sp)], tt_isdst (ttis sp ! i) = tm_isdst yourtm,
              j \<leftarrow> rev [0..<nat (typecnt sp)], tt_isdst (ttis sp ! j) \<noteq> tm_isdst yourtm]"

fun hunt_type ::
  "(int \<Rightarrow> (tz_fault + tm) option) \<Rightarrow> tm \<Rightarrow> tzstate \<Rightarrow> int \<Rightarrow> (nat \<times> nat) list \<Rightarrow> (tz_fault + int) option" where
  "hunt_type f yourtm sp t [] = Some (Inl NullResult)"
| "hunt_type f yourtm sp t ((i, j) # ps) =
     (let newt = s32 (t + tt_gmtoff (ttis sp ! j) - tt_gmtoff (ttis sp ! i))
      in case f newt of
           None \<Rightarrow> None
         | Some (Inl OutOfBounds) \<Rightarrow> Some (Inl OutOfBounds)
         | Some (Inl NullResult) \<Rightarrow> hunt_type f yourtm sp t ps
         | Some (Inr mytm) \<Rightarrow>
             if tmcomp mytm yourtm \<noteq> 0 then hunt_type f yourtm sp t ps
             else if tm_isdst mytm \<noteq> tm_isdst yourtm then hunt_type f yourtm sp t ps
             else Some (Inr newt))"

text \<open>\<open>time2sub\<close>: the result, \<open>*okayp\<close>, and \<open>*tmp\<close>. \<open>WRONG\<close> is -1. When the last call fails, \<open>*okayp\<close> is false and
  \<open>*tmp\<close> is given as it was; the failing function may have written some of its fields.\<close>

definition WRONG :: int where [simp]: "WRONG = -1"

definition time2sub ::
  "(int \<Rightarrow> int \<Rightarrow> tzstate \<Rightarrow> (tz_fault + tm) option) \<Rightarrow> int \<Rightarrow> bool \<Rightarrow> tzstate \<Rightarrow> tm \<Rightarrow>
    (tz_fault + (int \<times> bool \<times> tm)) option" where
  "time2sub funcp offset do_norm_secs sp tmp =
     (let f = (\<lambda>t. funcp t offset sp); wrong = Some (Inr (WRONG, False, tmp)) in
      case (case norm_secs do_norm_secs tmp of Inl e \<Rightarrow> Inl e | Inr tm \<Rightarrow> save_seconds tm) of
        Inl OutOfBounds \<Rightarrow> Some (Inl OutOfBounds)
      | Inl NullResult \<Rightarrow> wrong
      | Inr (yourtm, saved_seconds) \<Rightarrow>
          (case (case time_search f yourtm TIME_T_MIN TIME_T_MAX of
                   None \<Rightarrow> None
                 | Some (Inl e) \<Rightarrow> Some (Inl e)
                 | Some (Inr (t, mytm)) \<Rightarrow>
                     if tm_isdst yourtm < 0 \<or> tm_isdst mytm = tm_isdst yourtm then Some (Inr t)
                     else hunt_type f yourtm sp t (type_pairs yourtm sp)) of
             None \<Rightarrow> None
           | Some (Inl OutOfBounds) \<Rightarrow> Some (Inl OutOfBounds)
           | Some (Inl NullResult) \<Rightarrow> wrong
           | Some (Inr t) \<Rightarrow>
               let newt = s32 (t + saved_seconds)
               in if (newt < t) \<noteq> (saved_seconds < 0) then wrong
                  else (case f newt of
                          None \<Rightarrow> None
                        | Some (Inl OutOfBounds) \<Rightarrow> Some (Inl OutOfBounds)
                        | Some (Inl NullResult) \<Rightarrow> Some (Inr (newt, False, tmp))
                        | Some (Inr tm) \<Rightarrow> Some (Inr (newt, True, tm)))))"

definition time2 ::
  "(int \<Rightarrow> int \<Rightarrow> tzstate \<Rightarrow> (tz_fault + tm) option) \<Rightarrow> int \<Rightarrow> tzstate \<Rightarrow> tm \<Rightarrow>
    (tz_fault + (int \<times> bool \<times> tm)) option" where
  "time2 funcp offset sp tmp =
     (case time2sub funcp offset False sp tmp of
        Some (Inr (t, okay, tmp')) \<Rightarrow>
          if okay then Some (Inr (t, okay, tmp')) else time2sub funcp offset True sp tmp'
      | r \<Rightarrow> r)"

text \<open>The types of the transitions, from the last one back, each once.\<close>

definition seen_types :: "tzstate \<Rightarrow> nat list" where
  "seen_types sp =
     foldl (\<lambda>seen ty. if nat ty \<in> set seen then seen else seen @ [nat ty]) []
       (rev (take (nat (timecnt sp)) (types sp)))"

definition shift_pairs :: "tm \<Rightarrow> tzstate \<Rightarrow> (nat \<times> nat) list" where
  "shift_pairs tmp sp =
     [(same, other). same \<leftarrow> seen_types sp, tt_isdst (ttis sp ! same) = tm_isdst tmp,
                     other \<leftarrow> seen_types sp, tt_isdst (ttis sp ! other) \<noteq> tm_isdst tmp]"

fun try_shifts ::
  "(int \<Rightarrow> int \<Rightarrow> tzstate \<Rightarrow> (tz_fault + tm) option) \<Rightarrow> int \<Rightarrow> tzstate \<Rightarrow> tm \<Rightarrow> (nat \<times> nat) list \<Rightarrow>
    (tz_fault + (int \<times> tm)) option" where
  "try_shifts funcp offset sp tmp [] = Some (Inr (WRONG, tmp))"
| "try_shifts funcp offset sp tmp ((same, other) # ps) =
     (let d = tt_gmtoff (ttis sp ! other) - tt_gmtoff (ttis sp ! same);
          tmp1 = tmp\<lparr> tm_sec := s32 (tm_sec tmp + d), tm_isdst := (if tm_isdst tmp = 0 then 1 else 0) \<rparr>
      in case time2 funcp offset sp tmp1 of
           Some (Inr (t, okay, tmp2)) \<Rightarrow>
             if okay then Some (Inr (t, tmp2))
             else try_shifts funcp offset sp
                    (tmp2\<lparr> tm_sec := s32 (tm_sec tmp2 - d), tm_isdst := (if tm_isdst tmp2 = 0 then 1 else 0) \<rparr>) ps
         | Some (Inl e) \<Rightarrow> Some (Inl e)
         | None \<Rightarrow> None)"

definition time1 ::
  "(int \<Rightarrow> int \<Rightarrow> tzstate \<Rightarrow> (tz_fault + tm) option) \<Rightarrow> int \<Rightarrow> tzstate \<Rightarrow> tm \<Rightarrow>
    (tz_fault + (int \<times> tm)) option" where
  "time1 funcp offset sp tmp0 =
     (let tmp = (if tm_isdst tmp0 > 1 then tmp0\<lparr> tm_isdst := 1 \<rparr> else tmp0)
      in case time2 funcp offset sp tmp of
           Some (Inr (t, okay, tmp1)) \<Rightarrow>
             if okay then Some (Inr (t, tmp1))
             else
               let tmp2 = (if tm_isdst tmp1 < 0 then tmp1\<lparr> tm_isdst := 0 \<rparr> else tmp1)
               in try_shifts funcp offset sp tmp2 (shift_pairs tmp2 sp)
         | Some (Inl e) \<Rightarrow> Some (Inl e)
         | None \<Rightarrow> None)"

definition mktime_tz ::
  "tz_files \<Rightarrow> tz_junk \<Rightarrow> nat \<Rightarrow> tz_cache \<Rightarrow> tm \<Rightarrow> string option \<Rightarrow> tzstate \<Rightarrow>
    (tz_fault + (tz_cache \<times> int \<times> tm)) option" where
  "mktime_tz fs junk depth g tmp tz st0 =
     (case load_or_gmt fs junk depth g tz st0 of
        Some (Inr (g1, st)) \<Rightarrow>
          (case time1 localsub 0 st tmp of
             Some (Inr (t, tmp')) \<Rightarrow> Some (Inr (g1, t, tmp'))
           | Some (Inl e) \<Rightarrow> Some (Inl e)
           | None \<Rightarrow> None)
      | Some (Inl e) \<Rightarrow> Some (Inl e)
      | None \<Rightarrow> None)"

subsection \<open>The search in the table\<close>

text \<open>The specification: the type of the last transition that is not after the time; before the first
  one, the first type of standard time, or type 0.\<close>

definition type_in_force :: "int \<Rightarrow> tzstate \<Rightarrow> int" where
  "type_in_force t sp =
     (let passed = length (filter (\<lambda>a. a \<le> t) (take (nat (timecnt sp)) (ats sp)))
      in if passed = 0
         then (case find (\<lambda>i. tt_isdst (ttis sp ! i) = 0) [0..<nat (typecnt sp)] of None \<Rightarrow> 0 | Some i \<Rightarrow> int i)
         else types sp ! (passed - 1))"

lemma filter_prefix:
  assumes "\<And>k. k < r \<Longrightarrow> P (xs ! k)" and "\<And>k. r \<le> k \<Longrightarrow> k < length xs \<Longrightarrow> \<not> P (xs ! k)" and "r \<le> length xs"
  shows "length (filter P xs) = r"
proof -
  have "filter P (take r xs) = take r xs"
    using assms(1) by (intro filter_True) (auto simp: in_set_conv_nth)
  moreover have "filter P (drop r xs) = []"
    using assms(2,3) by (auto simp: filter_empty_conv in_set_conv_nth)
  ultimately have "filter P (take r xs @ drop r xs) = take r xs" by (simp only: filter_append append_Nil2)
  then show ?thesis using assms(3) by simp
qed

lemma prefix_nth: "take (length xs) ys = xs \<Longrightarrow> k < length xs \<Longrightarrow> k < length ys \<and> ys ! k = xs ! k"
  by (metis length_take min_less_iff_conj nth_take)

lemma type_search_eq:
  assumes "sorted xs" and "0 \<le> lo" and "lo \<le> hi" and "hi \<le> int (length xs)"
    and "\<And>k. k < nat lo \<Longrightarrow> xs ! k \<le> t" and "\<And>k. nat hi \<le> k \<Longrightarrow> k < length xs \<Longrightarrow> t < xs ! k"
    and "take (length xs) ys = xs"
  shows "type_search ys t lo hi = Inr (int (length (filter (\<lambda>a. a \<le> t) xs)))"
  using assms(2-7)
proof (induction ys t lo hi rule: type_search.induct)
  case (1 ys t lo hi)
  show ?case
  proof (cases "lo < hi")
    case False
    then have "length (filter (\<lambda>a. a \<le> t) xs) = nat lo"
      using "1.prems" by (intro filter_prefix) (auto simp: not_le)
    then show ?thesis using False "1.prems" by (subst type_search.simps) simp
  next
    case True
    let ?m = "(lo + hi) div 2"
    have m: "lo \<le> ?m" "?m < hi" using True by simp_all
    have "nat ?m < length xs" "0 \<le> ?m" using m "1.prems"(1-3) by linarith+
    then have nth: "nth_checked ys ?m = Inr (xs ! nat ?m)"
      using prefix_nth [OF "1.prems"(6), of "nat ?m"] by (auto simp: nth_checked_def)
    show ?thesis
    proof (cases "t < xs ! nat ?m")
      case less: True
      have "type_search ys t lo ?m = Inr (int (length (filter (\<lambda>a. a \<le> t) xs)))"
      proof (rule "1.IH"(1) [OF True refl nth less])
        show "\<And>k. k < nat lo \<Longrightarrow> xs ! k \<le> t" by (rule "1.prems"(4))
        show "t < xs ! k" if "nat ?m \<le> k" "k < length xs" for k
          using sorted_nth_mono [OF assms(1) that] less by simp
      qed (use "1.prems" m in auto)
      then show ?thesis using True nth less by (subst type_search.simps) (simp add: Let_def)
    next
      case ge: False
      have "type_search ys t (?m + 1) hi = Inr (int (length (filter (\<lambda>a. a \<le> t) xs)))"
      proof (rule "1.IH"(2) [OF True refl nth ge])
        show "\<And>k. nat hi \<le> k \<Longrightarrow> k < length xs \<Longrightarrow> t < xs ! k" by (rule "1.prems"(5))
        show "xs ! k \<le> t" if "k < nat (?m + 1)" for k
          using sorted_nth_mono [OF assms(1), of k "nat ?m"] ge that m "1.prems" by fastforce
      qed (use "1.prems" m in auto)
      then show ?thesis using True nth ge by (subst type_search.simps) (simp add: Let_def)
    qed
  qed
qed

lemma first_std_eq:
  "n \<le> length tts \<Longrightarrow> i < n \<Longrightarrow> first_std tts (int n) i
    = Inr (case find (\<lambda>i. tt_isdst (tts ! i) = 0) [i..<n] of None \<Rightarrow> 0 | Some j \<Rightarrow> j)"
proof (induction "n - i" arbitrary: i)
  case (Suc m)
  have nth: "nth_checked tts (int i) = Inr (tts ! i)" using Suc.prems by (simp add: nth_checked_def)
  have i: "[i..<n] = i # [i + 1..<n]" using Suc.prems by (simp add: upt_conv_Cons)
  show ?case
  proof (cases "tt_isdst (tts ! i) \<noteq> 0 \<and> i + 1 < n")
    case True
    then show ?thesis using Suc.hyps(1) [of "i + 1"] Suc.hyps(2) Suc.prems(1) nth i
      by (subst first_std.simps) simp
  next
    case False
    then show ?thesis using nth i by (subst first_std.simps) auto
  qed
qed simp

definition zone_sorted :: "tzstate \<Rightarrow> bool" where
  "zone_sorted sp \<longleftrightarrow> sorted (take (nat (timecnt sp)) (ats sp))"

lemma type_at_eq:
  assumes "zone_wf sp" and "zone_sorted sp"
  shows "type_at t sp = Inr (type_in_force t sp)" and "0 \<le> type_in_force t sp" and "type_in_force t sp < typecnt sp"
proof -
  define xs where "xs = take (nat (timecnt sp)) (ats sp)"
  define passed where "passed = length (filter (\<lambda>a. a \<le> t) xs)"
  from assms(1) have arr: "tz_arrays sp" and n: "0 \<le> timecnt sp" "timecnt sp \<le> 1200" and m: "1 \<le> typecnt sp" "typecnt sp \<le> 256"
    by (simp_all add: zone_wf_def)
  have xs: "length xs = nat (timecnt sp)" "sorted xs" "take (length xs) (ats sp) = xs"
    using arr n assms(2) by (simp_all add: xs_def tz_arrays_def zone_sorted_def)
  have le: "passed \<le> nat (timecnt sp)" unfolding passed_def xs(1) [symmetric] by (rule length_filter_le)
  have in_force: "type_in_force t sp = (if passed = 0
      then (case find (\<lambda>i. tt_isdst (ttis sp ! i) = 0) [0..<nat (typecnt sp)] of None \<Rightarrow> 0 | Some i \<Rightarrow> int i)
      else types sp ! (passed - 1))"
    by (simp add: type_in_force_def passed_def xs_def Let_def)
  show "0 \<le> type_in_force t sp" "type_in_force t sp < typecnt sp"
  proof -
    have "types sp ! (passed - 1) \<in> set (take (nat (timecnt sp)) (types sp))" if "passed \<noteq> 0"
      using that le arr n by (intro nth_in_take) (auto simp: tz_arrays_def)
    then show "0 \<le> type_in_force t sp" "type_in_force t sp < typecnt sp"
      using assms(1) m unfolding in_force zone_wf_def
      by (auto split: option.splits simp: find_Some_iff)
  qed
  show "type_at t sp = Inr (type_in_force t sp)"
  proof (cases "timecnt sp = 0 \<or> t < ats sp ! 0")
    case True
    have "passed = 0"
    proof (cases "timecnt sp = 0")
      case False
      then have "ats sp ! 0 = xs ! 0" using True n by (simp add: xs_def)
      then have "t < xs ! k" if "k < length xs" for k
        using sorted_nth_mono [OF xs(2), of 0 k] that True False by simp
      then show ?thesis by (auto simp: passed_def filter_empty_conv in_set_conv_nth not_le)
    qed (simp add: passed_def xs_def)
    moreover have "first_std (ttis sp) (typecnt sp) 0
        = Inr (case find (\<lambda>i. tt_isdst (ttis sp ! i) = 0) [0..<nat (typecnt sp)] of None \<Rightarrow> 0 | Some j \<Rightarrow> j)"
      using first_std_eq [of "nat (typecnt sp)" "ttis sp" 0] m arr by (simp add: tz_arrays_def)
    ultimately show ?thesis using True by (simp add: type_at_def in_force split: option.splits)
  next
    case False
    then have n1: "1 \<le> timecnt sp" and a0: "ats sp ! 0 \<le> t" using n by auto
    then have x0: "xs ! 0 \<le> t" by (simp add: xs_def)
    have s: "type_search (ats sp) t 1 (timecnt sp) = Inr (int passed)"
      unfolding passed_def using n1 x0 xs n by (intro type_search_eq) auto
    have "0 < length xs" using n1 xs(1) by simp
    then have "xs ! 0 \<in> set (filter (\<lambda>a. a \<le> t) xs)" using x0 by (simp only: set_filter) simp
    then have p: "passed \<noteq> 0" unfolding passed_def by (metis length_pos_if_in_set less_numeral_extra(3))
    then have "nth_checked (types sp) (int passed - 1) = Inr (types sp ! (passed - 1))"
      using le n arr by (auto simp: nth_checked_def tz_arrays_def nat_diff_distrib)
    then show ?thesis using False s p by (simp add: type_at_def in_force)
  qed
qed

definition with_dst :: "int \<Rightarrow> (tz_fault + tm) option \<Rightarrow> (tz_fault + tm) option" where
  "with_dst isdst r = (case r of Some (Inr tm) \<Rightarrow> Some (Inr (tm\<lparr> tm_isdst := isdst \<rparr>)) | r \<Rightarrow> r)"

lemma localsub_eq:
  assumes "zone_wf sp" and "zone_sorted sp" and "\<not> goback sp" and "\<not> goahead sp"
  shows "0 \<le> type_in_force t sp \<and> type_in_force t sp < typecnt sp \<and>
    (let tt = ttis sp ! nat (type_in_force t sp)
     in localsub t offset sp = with_dst (tt_isdst tt) (timesub t (tt_gmtoff tt) sp))"
proof -
  note ty = type_at_eq [OF assms(1,2), of t]
  have "nth_checked (ttis sp) (type_in_force t sp) = Inr (ttis sp ! nat (type_in_force t sp))"
    using ty assms(1) by (auto simp: nth_checked_def zone_wf_def tz_arrays_def)
  then show ?thesis using ty assms(3,4)
    by (simp add: localsub_def localsub_in_def with_dst_def Let_def split: option.splits sum.splits)
qed

text \<open>
  \<open>localsub\<close> uses the type in force: in a well-formed zone with its transitions in order, the binary
  search ends at the last transition that is not after the time, no array is read out of bounds, and
  the result is that of \<open>timesub\<close> with the offset of that transition's type and its daylight flag;
  before the first transition it is the first type of standard time, or type 0 when there is none.
\<close>
theorem localsub_type_in_force:
  assumes "zone_wf sp" and "zone_sorted sp" and "\<not> goback sp" and "\<not> goahead sp"
  shows "0 \<le> type_in_force t sp \<and> type_in_force t sp < typecnt sp \<and>
    (let tt = ttis sp ! nat (type_in_force t sp)
     in localsub t offset sp = with_dst (tt_isdst tt) (timesub t (tt_gmtoff tt) sp))"
  by (rule localsub_eq [OF assms])

text \<open>A zone that has had no transition yet, one hour behind UTC.\<close>

definition azores :: tzstate where
  "azores = utc_state\<lparr> ttis := (ttis utc_state)[0 := \<lparr> tt_gmtoff = -3600, tt_isdst = 0, tt_abbrind = 0,
     tt_ttisstd = 0, tt_ttisgmt = 0 \<rparr>] \<rparr>"

lemma azores_wf: "zone_wf azores" "zone_sorted azores" "\<not> goback azores" "\<not> goahead azores"
  by (simp_all add: azores_def utc_state_def zone_wf_def tz_arrays_def zone_sorted_def type_ok_def take_Suc_conv_app_nth)

theorem localsub_type_in_force_witness:
  "type_in_force 0 azores = 0 \<and> localsub 0 0 azores = with_dst 0 (timesub 0 (-3600) azores)"
proof -
  have "[0..<nat (typecnt azores)] = [0]" by (simp add: azores_def utc_state_def)
  then have "type_in_force 0 azores = 0"
    by (simp add: type_in_force_def) (simp add: azores_def utc_state_def)
  then show ?thesis using localsub_type_in_force [OF azores_wf, of 0 0]
    by (simp add: Let_def) (simp add: azores_def utc_state_def)
qed

subsection \<open>The order of broken-down times\<close>

lemma day_seconds:
  assumes "tm_valid a"
  shows "tm_day a * 86400 \<le> tm_seconds a" and "tm_seconds a < (tm_day a + 1) * 86400"
proof -
  have "0 \<le> tm_hour a" "tm_hour a < 24" "0 \<le> tm_min a" "tm_min a < 60" "0 \<le> tm_sec a" "tm_sec a < 60"
    using assms by (simp_all add: tm_valid_def Let_def)
  then show "tm_day a * 86400 \<le> tm_seconds a" "tm_seconds a < (tm_day a + 1) * 86400"
    by (simp_all add: tm_seconds_def)
qed

lemma day_less_seconds: "tm_valid a \<Longrightarrow> tm_valid b \<Longrightarrow> tm_day a < tm_day b \<Longrightarrow> tm_seconds a < tm_seconds b"
  using day_seconds(2) [of a] day_seconds(1) [of b] by auto

lemma year_less:
  assumes "tm_valid a" and "tm_valid b" and "tm_year a < tm_year b"
  shows "tm_seconds a < tm_seconds b"
proof (rule day_less_seconds [OF assms(1,2)])
  have "tm_day a < days_before_year (tm_year a + 1900 + 1)"
    using tm_valid_yday [OF assms(1)] days_before_year_Suc [of "tm_year a + 1900"] by simp
  also have "\<dots> \<le> days_before_year (tm_year b + 1900)"
    using days_before_year_le(1) [of "tm_year a + 1900 + 1" "tm_year b + 1900"] assms(3) by simp
  also have "\<dots> \<le> tm_day b" using tm_valid_yday [OF assms(2)] by simp
  finally show "tm_day a < tm_day b" .
qed

lemma month_less:
  assumes "tm_valid a" and "tm_valid b" and "tm_year a = tm_year b" and "tm_mon a < tm_mon b"
  shows "tm_seconds a < tm_seconds b"
proof (rule day_less_seconds [OF assms(1,2)])
  let ?ms = "mon_lengths (isleap (tm_year b + 1900))"
  have "sum_list (take (nat (tm_mon a)) ?ms) + ?ms ! nat (tm_mon a) \<le> sum_list (take (nat (tm_mon b)) ?ms)"
    using assms mon_lengths_facts [of "isleap (tm_year b + 1900)"]
    by (intro sum_take_mono) (auto simp: tm_valid_def Let_def)
  moreover have "tm_mday a \<le> ?ms ! nat (tm_mon a)" "1 \<le> tm_mday b"
    using assms(1-3) by (simp_all add: tm_valid_def Let_def)
  ultimately show "tm_day a < tm_day b" using assms(3) by (simp add: tm_day_def Let_def days_before_month_def)
qed

lemma tmcomp_step:
  assumes "in_s32 (x - y)"
  shows "(if s32 (x - y) \<noteq> 0 then s32 (x - y) else r) = (if x \<noteq> y then x - y else r)"
  using assms by (simp add: s32_id)

text \<open>Where the years are far from overflow, \<open>tmcomp\<close> orders valid times as their seconds are.\<close>

lemma tmcomp_sign:
  assumes a: "tm_valid a" and b: "tm_valid b" and "in_s32 (tm_year a - tm_year b)"
  shows "sgn (tmcomp a b) = sgn (tm_seconds a - tm_seconds b)"
proof -
  have rng: "0 \<le> tm_mon c" "tm_mon c < 12" "1 \<le> tm_mday c" "tm_mday c \<le> 31" "0 \<le> tm_hour c" "tm_hour c < 24"
    "0 \<le> tm_min c" "tm_min c < 60" "0 \<le> tm_sec c" "tm_sec c < 60" if "tm_valid c" for c
    using that mon_length_bounds(2) [of "tm_mon c" "isleap (tm_year c + 1900)"] by (auto simp: tm_valid_def Let_def)
  note ra = rng [OF a] and rb = rng [OF b]
  have s: "in_s32 (tm_mon a - tm_mon b)" "in_s32 (tm_mday a - tm_mday b)" "in_s32 (tm_hour a - tm_hour b)"
    "in_s32 (tm_min a - tm_min b)" "in_s32 (tm_sec a - tm_sec b)"
    using ra rb by (auto intro!: in_s32I)
  note cmp = tmcomp_def [of a b, unfolded Let_def tmcomp_step [OF assms(3)] tmcomp_step [OF s(1)]
      tmcomp_step [OF s(2)] tmcomp_step [OF s(3)] tmcomp_step [OF s(4)] s32_id [OF s(5)]]
  consider "tm_year a \<noteq> tm_year b" | "tm_year a = tm_year b" "tm_mon a \<noteq> tm_mon b"
    | "tm_year a = tm_year b" "tm_mon a = tm_mon b" by blast
  then show ?thesis
  proof cases
    case 1
    then show ?thesis using cmp year_less [OF a b] year_less [OF b a] by (cases "tm_year a < tm_year b") auto
  next
    case 2
    then show ?thesis using cmp month_less [OF a b] month_less [OF b a] by (cases "tm_mon a < tm_mon b") auto
  next
    case 3
    then have d: "tm_day a - tm_day b = tm_mday a - tm_mday b" by (simp add: tm_day_def Let_def)
    then have diff: "tm_seconds a - tm_seconds b = (tm_mday a - tm_mday b) * 86400 + (tm_hour a - tm_hour b) * 3600
        + (tm_min a - tm_min b) * 60 + (tm_sec a - tm_sec b)" unfolding tm_seconds_def by (simp add: algebra_simps)
    have "tmcomp a b = (if tm_mday a \<noteq> tm_mday b then tm_mday a - tm_mday b else
        if tm_hour a \<noteq> tm_hour b then tm_hour a - tm_hour b else
        if tm_min a \<noteq> tm_min b then tm_min a - tm_min b else tm_sec a - tm_sec b)"
      using cmp 3 by simp
    then show ?thesis unfolding diff using ra rb by (auto simp: sgn_if)
  qed
qed

subsection \<open>The search finds the time\<close>

text \<open>One round of the search with an answer that compares as \<open>t\<close> does with the time wanted.\<close>

lemma next_interval_keeps:
  assumes "lo \<le> s" and "s \<le> hi" and "t = midpoint lo hi" and "t \<noteq> s" and "sgn dir = sgn (t - s)"
    and "in_s32 lo" and "in_s32 hi"
  obtains lo' hi' where "next_interval t dir lo hi = Some (lo', hi')" and "lo' \<le> s" and "s \<le> hi'"
    and "in_s32 lo'" and "in_s32 hi'"
proof -
  have t: "lo \<le> t" "t \<le> hi" using midpoint_bounds [of lo hi] assms(1-3) by auto
  have r: "- 2147483648 \<le> lo" "hi \<le> 2147483647" using in_s32D [OF assms(6)] in_s32D [OF assms(7)] by simp_all
  show thesis
  proof (cases "t < s")
    case True
    then have "dir < 0" using assms(5) by (simp add: sgn_if split: if_splits)
    then show thesis using True t r assms(1,2) that in_s32I
      by (cases "t = lo") (auto simp: next_interval_def Let_def)
  next
    case False
    then have "dir > 0" "s < t" using assms(4,5) by (auto simp: sgn_if split: if_splits)
    then show thesis using t r assms(1,2) that in_s32I
      by (cases "t = hi") (auto simp: next_interval_def Let_def)
  qed
qed

lemma next_interval_range:
  assumes "next_interval (midpoint lo hi) dir lo hi = Some (lo', hi')" and "in_s32 lo" and "in_s32 hi"
  shows "in_s32 lo'" and "in_s32 hi'"
  using next_interval_shrinks [OF assms(1)] in_s32D [OF assms(2)] in_s32D [OF assms(3)]
  by (auto intro!: in_s32I)

text \<open>What \<open>time2sub\<close> relies on in the function it inverts, for a clock at a constant offset: every
  \<open>time_t\<close> has a valid broken-down time that denotes it.\<close>

locale clock =
  fixes f :: "int \<Rightarrow> (tz_fault + tm) option" and off :: int and isdst :: int
  assumes breaks_down: "in_s32 t \<Longrightarrow> \<exists>tm. f t = Some (Inr tm) \<and> tm_valid tm \<and> tm_isdst tm = isdst \<and>
    tm_seconds tm = t + off \<and> \<bar>tm_year tm\<bar> \<le> 2001900"
begin

lemma compare:
  assumes "in_s32 t" and "tm_valid yourtm" and "\<bar>tm_year yourtm\<bar> \<le> 2000000000"
  obtains tm where "f t = Some (Inr tm)" and "tm_isdst tm = isdst" and "tm_valid tm" and "tm_seconds tm = t + off"
    and "sgn (tmcomp tm yourtm) = sgn (t - (tm_seconds yourtm - off))"
proof -
  obtain tm where tm: "f t = Some (Inr tm)" "tm_valid tm" "tm_isdst tm = isdst" "tm_seconds tm = t + off"
    "\<bar>tm_year tm\<bar> \<le> 2001900" using breaks_down [OF assms(1)] by blast
  have "in_s32 (tm_year tm - tm_year yourtm)" using tm(5) assms(3) by (intro in_s32I) linarith+
  from tmcomp_sign [OF tm(2) assms(2) this] show thesis using tm that by (simp add: algebra_simps)
qed

lemma search_finds:
  assumes your: "tm_valid yourtm" "\<bar>tm_year yourtm\<bar> \<le> 2000000000" and s: "s = tm_seconds yourtm - off"
    and "lo \<le> s" and "s \<le> hi" and "in_s32 lo" and "in_s32 hi"
  shows "\<exists>mytm. time_search f yourtm lo hi = Some (Inr (s, mytm)) \<and> tm_isdst mytm = isdst"
  using assms(4-7)
proof (induction "nat (hi - lo)" arbitrary: lo hi rule: less_induct)
  case less
  let ?t = "midpoint lo hi"
  have "lo \<le> ?t" "?t \<le> hi" using midpoint_bounds [of lo hi] less.prems(1,2) by auto
  then have "in_s32 ?t" using in_s32D [OF less.prems(3)] in_s32D [OF less.prems(4)] by (auto intro!: in_s32I)
  from compare [OF this your] obtain tm where tm: "f ?t = Some (Inr tm)" "tm_isdst tm = isdst"
    "sgn (tmcomp tm yourtm) = sgn (?t - s)" using s by metis
  show ?case
  proof (cases "?t = s")
    case True
    then have "tmcomp tm yourtm = 0" using tm(3) by (simp add: sgn_eq_0_iff)
    then show ?thesis using True tm by (subst time_search.simps) (simp add: Let_def)
  next
    case False
    then have nz: "tmcomp tm yourtm \<noteq> 0" using tm(3) by (auto simp: sgn_eq_0_iff)
    from next_interval_keeps [OF less.prems(1,2) refl False tm(3) less.prems(3,4)] obtain lo' hi' where
      n: "next_interval ?t (tmcomp tm yourtm) lo hi = Some (lo', hi')" "lo' \<le> s" "s \<le> hi'" "in_s32 lo'" "in_s32 hi'"
      by metis
    have "nat (hi' - lo') < nat (hi - lo)" using next_interval_shrinks [OF n(1)] by auto
    from less.hyps [OF this n(2-5)] show ?thesis
      using tm(1) nz n(1) by (subst time_search.simps) (simp add: Let_def)
  qed
qed

lemma search_fails:
  assumes your: "tm_valid yourtm" "\<bar>tm_year yourtm\<bar> \<le> 2000000000" and s: "s = tm_seconds yourtm - off" "\<not> in_s32 s"
    and "in_s32 lo" and "in_s32 hi" and "lo \<le> hi"
  shows "time_search f yourtm lo hi = Some (Inl NullResult)"
  using assms(5-7)
proof (induction "nat (hi - lo)" arbitrary: lo hi rule: less_induct)
  case less
  let ?t = "midpoint lo hi"
  have "lo \<le> ?t" "?t \<le> hi" using midpoint_bounds [of lo hi] less.prems by auto
  then have t: "in_s32 ?t" using in_s32D [OF less.prems(1)] in_s32D [OF less.prems(2)] by (auto intro!: in_s32I)
  from compare [OF this your] obtain tm where tm: "f ?t = Some (Inr tm)"
    "sgn (tmcomp tm yourtm) = sgn (?t - s)" using s(1) by metis
  have "?t \<noteq> s" using t s(2) by auto
  then have nz: "tmcomp tm yourtm \<noteq> 0" using tm(2) by (auto simp: sgn_eq_0_iff)
  show ?case
  proof (cases "next_interval ?t (tmcomp tm yourtm) lo hi")
    case None
    then show ?thesis using tm(1) nz by (subst time_search.simps) (simp add: Let_def)
  next
    case (Some a)
    obtain lo' hi' where n: "next_interval ?t (tmcomp tm yourtm) lo hi = Some (lo', hi')" using Some by (cases a) simp
    have "nat (hi' - lo') < nat (hi - lo)" "lo' \<le> hi'" using next_interval_shrinks [OF n] by auto
    from less.hyps [OF this(1) next_interval_range [OF n less.prems(1,2)] this(2)] show ?thesis
      using tm(1) nz n by (subst time_search.simps) (simp add: Let_def)
  qed
qed

end

subsection \<open>Normalised dates\<close>

text \<open>The day of a date whose month is in range, and the second a broken-down time denotes whatever
  its fields are.\<close>

definition date_day :: "int \<Rightarrow> int \<Rightarrow> int \<Rightarrow> int" where
  "date_day y mon mday = days_before_year y + days_before_month (isleap y) mon + mday - 1"

definition tm_value :: "tm \<Rightarrow> int" where
  "tm_value tm =
     date_day (tm_year tm + 1900 + tm_mon tm div 12) (tm_mon tm mod 12) (tm_mday tm) * 86400 +
     tm_hour tm * 3600 + tm_min tm * 60 + tm_sec tm"

lemma month_shift_leap:
  assumes "0 \<le> mon" and "mon < 12"
  shows "days_before_month leap mon = days_before_month False mon + (if leap \<and> 1 < mon then 1 else 0)"
proof -
  have "mon = 0 \<or> mon = 1 \<or> mon = 2 \<or> mon = 3 \<or> mon = 4 \<or> mon = 5 \<or> mon = 6 \<or> mon = 7 \<or> mon = 8 \<or>
    mon = 9 \<or> mon = 10 \<or> mon = 11" using assms by presburger
  then show ?thesis
    by (elim disjE; simp add: days_before_month_def mon_lengths_def eval_nat_numeral; cases leap; simp)
qed

lemma year_step:
  assumes "0 \<le> mon" and "mon < 12"
  shows "date_day y mon mday
    = date_day (y - 1) mon (mday + year_lengths (isleap (y - 1 + (if 1 < mon then 1 else 0))))"
  using days_before_year_Suc [of "y - 1"] month_shift_leap [OF assms, of "isleap y"]
    month_shift_leap [OF assms, of "isleap (y - 1)"]
  by (cases "1 < mon"; cases "isleap y"; cases "isleap (y - 1)") (simp_all add: date_day_def year_lengths_def)

lemma long_increment_small:
  "in_s32 y \<Longrightarrow> in_s32 d \<Longrightarrow> in_s32 (y + d) \<Longrightarrow> long_increment_overflow y d = (y + d, False)"
  unfolding long_increment_overflow_eq by (rule increment_in_range)

lemma mday_up_eq:
  assumes "0 \<le> mon" and "mon < 12"
  shows "- 2147480000 < y + mday \<Longrightarrow> - 2147480000 \<le> y \<Longrightarrow> y \<le> 2147480000 \<Longrightarrow>
    \<exists>y' mday'. mday_up y mon mday = Inr (y', mday') \<and> 0 < mday' \<and> date_day y' mon mday' = date_day y mon mday \<and>
    y' \<le> y \<and> y + mday \<le> y' + mday' \<and> mday' \<le> max mday 366"
proof (induction "nat (1 - mday)" arbitrary: y mday rule: less_induct)
  case less
  show ?case
  proof (cases "mday \<le> 0")
    case False
    then show ?thesis by (subst mday_up.simps) simp
  next
    case True
    let ?li = "y - 1 + (if 1 < mon then 1 else 0)"
    let ?d = "mday + year_lengths (isleap ?li)"
    note len = year_lengths_bounds [of "isleap ?li"]
    have s: "s32 ?li = ?li" using less.prems(2,3) by (intro s32_id in_s32I) auto
    have "long_increment_overflow y (- 1) = (y - 1, False)"
      using long_increment_small [of y "- 1"] less.prems(2,3) by (simp add: in_s32I)
    then have e: "mday_up y mon mday = mday_up (y - 1) mon ?d"
      using True s by (subst mday_up.simps) (simp add: Let_def)
    have "nat (1 - ?d) < nat (1 - mday)" "- 2147480000 < y - 1 + ?d" "- 2147480000 \<le> y - 1" "y - 1 \<le> 2147480000"
      using True len less.prems by auto
    then obtain y' mday' where r: "mday_up (y - 1) mon ?d = Inr (y', mday')" "0 < mday'"
      "date_day y' mon mday' = date_day (y - 1) mon ?d" "y' \<le> y - 1" "y - 1 + ?d \<le> y' + mday'" "mday' \<le> max ?d 366"
      using less.hyps by blast
    have "date_day y' mon mday' = date_day y mon mday" using r(3) year_step [OF assms, of y mday] by simp
    then show ?thesis using r len True e by auto
  qed
qed

lemma mday_down_eq:
  assumes "0 \<le> mon" and "mon < 12"
  shows "y + mday \<le> 2147480000 \<Longrightarrow> - 2147480000 \<le> y \<Longrightarrow> 0 < mday \<Longrightarrow>
    \<exists>y' mday'. mday_down y mon mday = Inr (y', mday') \<and> 0 < mday' \<and> mday' \<le> 366 \<and>
    date_day y' mon mday' = date_day y mon mday \<and> y \<le> y' \<and> y' + mday' \<le> y + mday"
proof (induction "nat mday" arbitrary: y mday rule: less_induct)
  case less
  show ?case
  proof (cases "mday > 366")
    case False
    then show ?thesis using less.prems by (subst mday_down.simps) simp
  next
    case True
    let ?li = "y + (if 1 < mon then 1 else 0)"
    let ?d = "mday - year_lengths (isleap ?li)"
    note len = year_lengths_bounds [of "isleap ?li"]
    have s: "s32 ?li = ?li" using less.prems by (intro s32_id in_s32I) auto
    have "long_increment_overflow y 1 = (y + 1, False)"
      using long_increment_small [of y 1] less.prems by (simp add: in_s32I)
    then have e: "mday_down y mon mday = mday_down (y + 1) mon ?d"
      using True s by (subst mday_down.simps) (simp add: Let_def)
    have "nat ?d < nat mday" "y + 1 + ?d \<le> 2147480000" "- 2147480000 \<le> y + 1" "0 < ?d"
      using True len less.prems by auto
    then obtain y' mday' where r: "mday_down (y + 1) mon ?d = Inr (y', mday')" "0 < mday'" "mday' \<le> 366"
      "date_day y' mon mday' = date_day (y + 1) mon ?d" "y + 1 \<le> y'" "y' + mday' \<le> y + 1 + ?d"
      using less.hyps by blast
    have "date_day (y + 1) mon ?d = date_day y mon mday" using year_step [OF assms, of "y + 1" ?d] by simp
    then show ?thesis using r len True e by auto
  qed
qed

lemma month_step:
  assumes "0 \<le> mon" and "mon < 12"
  shows "date_day y mon mday =
    (if mon + 1 < 12 then date_day y (mon + 1) (mday - mon_lengths (isleap y) ! nat mon)
     else date_day (y + 1) 0 (mday - mon_lengths (isleap y) ! nat mon))"
proof -
  let ?ms = "mon_lengths (isleap y)"
  have m: "nat mon < length ?ms" using assms mon_lengths_facts(1) by simp
  have "take (Suc (nat mon)) ?ms = take (nat mon) ?ms @ [?ms ! nat mon]" by (rule take_Suc_conv_app_nth [OF m])
  moreover have "nat (mon + 1) = Suc (nat mon)" using assms by simp
  ultimately have s: "days_before_month (isleap y) (mon + 1) = days_before_month (isleap y) mon + ?ms ! nat mon"
    by (simp add: days_before_month_def)
  show ?thesis
  proof (cases "mon + 1 < 12")
    case False
    then have "mon + 1 = 12" using assms by simp
    then have "days_before_month (isleap y) (mon + 1) = year_lengths (isleap y)"
      using mon_lengths_sum [of "isleap y"] mon_lengths_facts(1) [of "isleap y"] by (simp add: days_before_month_def)
    then show ?thesis using False s days_before_year_Suc [of y] by (simp add: date_day_def days_before_month_def)
  qed (simp add: date_day_def s)
qed

lemma mon_down_eq:
  "0 \<le> mon \<Longrightarrow> mon < 12 \<Longrightarrow> 0 < mday \<Longrightarrow> - 2147480000 \<le> y \<Longrightarrow> y + mday \<le> 2147480000 \<Longrightarrow>
    \<exists>y' mon' mday'. mon_down y mon mday = Inr (y', mon', mday') \<and> 0 \<le> mon' \<and> mon' < 12 \<and> 0 < mday' \<and>
    mday' \<le> mon_lengths (isleap y') ! nat mon' \<and> date_day y' mon' mday' = date_day y mon mday \<and>
    y \<le> y' \<and> y' \<le> y + mday"
proof (induction "nat mday" arbitrary: y mon mday rule: less_induct)
  case less
  let ?i = "mon_lengths (isleap y) ! nat mon"
  note len = mon_length_bounds [OF less.prems(1,2), of "isleap y"]
  show ?case
  proof (cases "mday \<le> ?i")
    case True
    then show ?thesis using less.prems by (subst mon_down.simps) (simp add: Let_def)
  next
    case False
    define y1 where "y1 = (if mon + 1 < 12 then y else y + 1)"
    define mon1 where "mon1 = (if mon + 1 < 12 then mon + 1 else 0)"
    have "long_increment_overflow y 1 = (y + 1, False)"
      using long_increment_small [of y 1] less.prems by (simp add: in_s32I)
    then have e: "mon_down y mon mday = mon_down y1 mon1 (mday - ?i)"
      using False less.prems by (subst mon_down.simps) (simp add: Let_def y1_def mon1_def)
    have "nat (mday - ?i) < nat mday" "0 \<le> mon1" "mon1 < 12" "0 < mday - ?i" "- 2147480000 \<le> y1"
      "y1 + (mday - ?i) \<le> 2147480000"
      using len False less.prems by (auto simp: y1_def mon1_def)
    then obtain y' mon' mday' where r: "mon_down y1 mon1 (mday - ?i) = Inr (y', mon', mday')" "0 \<le> mon'" "mon' < 12"
      "0 < mday'" "mday' \<le> mon_lengths (isleap y') ! nat mon'" "date_day y' mon' mday' = date_day y1 mon1 (mday - ?i)"
      "y1 \<le> y'" "y' \<le> y1 + (mday - ?i)"
      using less.hyps by blast
    have "date_day y1 mon1 (mday - ?i) = date_day y mon mday"
      using month_step [OF less.prems(1,2), of y mday] by (simp add: y1_def mon1_def)
    moreover have "y \<le> y'" "y' \<le> y + mday" using r(7,8) len(1) by (auto simp: y1_def split: if_splits)
    ultimately show ?thesis using r e by simp
  qed
qed

text \<open>Fields in range, as a normalised time has them; the weekday and the day of the year may be
  anything.\<close>

definition date_in_range :: "tm \<Rightarrow> bool" where
  "date_in_range tm \<longleftrightarrow> 0 \<le> tm_mon tm \<and> tm_mon tm < 12 \<and> 1 \<le> tm_mday tm \<and>
     tm_mday tm \<le> mon_lengths (isleap (tm_year tm + 1900)) ! nat (tm_mon tm) \<and> \<bar>tm_year tm\<bar> \<le> 2000000000"

definition in_range :: "tm \<Rightarrow> bool" where
  "in_range tm \<longleftrightarrow> date_in_range tm \<and> 0 \<le> tm_hour tm \<and> tm_hour tm < 24 \<and> 0 \<le> tm_min tm \<and> tm_min tm < 60"

abbreviation small :: "int \<Rightarrow> bool" where
  "small n \<equiv> \<bar>n\<bar> \<le> 500000000"

lemma norm_date_eq:
  assumes "small (tm_year tm)" and "small (tm_mon tm)" and "\<bar>tm_mday tm\<bar> \<le> 600000000"
  shows "\<exists>y mon mday. norm_date tm = Inr (tm\<lparr> tm_year := y, tm_mon := mon, tm_mday := mday \<rparr>) \<and>
    date_in_range (tm\<lparr> tm_year := y, tm_mon := mon, tm_mday := mday \<rparr>) \<and>
    date_day (y + 1900) mon mday
      = date_day (tm_year tm + 1900 + tm_mon tm div 12) (tm_mon tm mod 12) (tm_mday tm)"
proof -
  let ?m = "tm_mon tm mod 12" and ?q = "tm_mon tm div 12"
  have q: "- 50000000 \<le> ?q" "?q \<le> 50000000" using assms(2) by linarith+
  have m: "0 \<le> ?m" "?m < 12" by simp_all
  define y1 where "y1 = tm_year tm + ?q + 1900"
  have y1: "- 550000000 \<le> y1" "y1 \<le> 550001900" using q assms(1) by (auto simp: y1_def)
  have "in_s32 (tm_year tm)" "in_s32 (tm_mon tm)" "in_s32 (tm_year tm + ?q)"
    using assms(1,2) q by (auto intro!: in_s32I)
  then have n: "long_normalize_overflow (tm_year tm) (tm_mon tm) 12 = (tm_year tm + ?q, ?m, False)"
    using normalize_overflow_eq [of 12 "tm_year tm" "tm_mon tm"]
    by (simp add: long_normalize_overflow_eq s32_id INT_MAX_def)
  have i: "long_increment_overflow (tm_year tm + ?q) 1900 = (y1, False)"
    using long_increment_small [of "tm_year tm + ?q" 1900] assms(1) q by (simp add: y1_def in_s32I)
  have low: "- 2147480000 < y1 + tm_mday tm" using y1(1) assms(3) by linarith
  obtain y2 d2 where up: "mday_up y1 ?m (tm_mday tm) = Inr (y2, d2)" "0 < d2" "date_day y2 ?m d2 = date_day y1 ?m (tm_mday tm)"
    "y2 \<le> y1" "y1 + tm_mday tm \<le> y2 + d2" "d2 \<le> max (tm_mday tm) 366"
    using mday_up_eq [OF m low] y1 by auto
  have y2: "- 1300000000 \<le> y2" "y2 + d2 \<le> 1300000000" using up(2-6) y1 assms(3) by auto
  obtain y3 d3 where down: "mday_down y2 ?m d2 = Inr (y3, d3)" "0 < d3" "d3 \<le> 366" "date_day y3 ?m d3 = date_day y2 ?m d2"
    "y2 \<le> y3" "y3 + d3 \<le> y2 + d2"
    using mday_down_eq [OF m, of y2 d2] y2 up(2) by auto
  obtain y4 mon mday where md: "mon_down y3 ?m d3 = Inr (y4, mon, mday)" "0 \<le> mon" "mon < 12" "0 < mday"
    "mday \<le> mon_lengths (isleap y4) ! nat mon" "date_day y4 mon mday = date_day y3 ?m d3" "y3 \<le> y4" "y4 \<le> y3 + d3"
    using mon_down_eq [OF m down(2), of y3] y2 down(5,6) by auto
  have y4: "- 1300000000 \<le> y4" "y4 \<le> 1300000000" using y2 down(5,6) md(7,8) by linarith+
  then have j: "long_increment_overflow y4 (- 1900) = (y4 - 1900, False)"
    using long_increment_small [of y4 "- 1900"] by (simp add: in_s32I)
  have "norm_date tm = Inr (tm\<lparr> tm_year := y4 - 1900, tm_mon := mon, tm_mday := mday \<rparr>)"
    unfolding norm_date_def by (simp add: n i up(1) down(1) md(1) j)
  moreover have "date_in_range (tm\<lparr> tm_year := y4 - 1900, tm_mon := mon, tm_mday := mday \<rparr>)"
    using md y4 by (simp add: date_in_range_def)
  moreover have "date_day (y4 - 1900 + 1900) mon mday = date_day (tm_year tm + 1900 + ?q) ?m (tm_mday tm)"
    using md(6) down(4) up(3) by (simp add: y1_def ac_simps)
  ultimately show ?thesis by blast
qed

definition carry :: "int \<Rightarrow> int \<Rightarrow> int \<Rightarrow> int" where
  "carry tens units base = tens + units div base"

lemma normalize_small:
  assumes b: "base = 60 \<or> base = 24" and "\<bar>tens\<bar> \<le> 520000000" and "\<bar>units\<bar> \<le> 1000000000"
  shows "normalize_overflow tens units base = (carry tens units base, units mod base, False)"
    and "\<bar>carry tens units base - tens\<bar> \<le> 50000000"
proof -
  have "\<bar>units div 60\<bar> \<le> 50000000" "\<bar>units div 24\<bar> \<le> 50000000" using assms(3) by linarith+
  then have d: "- 50000000 \<le> units div base" "units div base \<le> 50000000" using b by auto
  then show "\<bar>carry tens units base - tens\<bar> \<le> 50000000" by (simp add: carry_def)
  have "in_s32 tens" "in_s32 units" "in_s32 (tens + units div base)" using assms(2,3) d by (auto intro!: in_s32I)
  then show "normalize_overflow tens units base = (carry tens units base, units mod base, False)"
    using normalize_overflow_eq [of base tens units] b by (auto simp: carry_def s32_id INT_MAX_def)
qed

lemma tm_day_date: "tm_day tm = date_day (tm_year tm + 1900) (tm_mon tm) (tm_mday tm)"
  by (simp add: tm_day_def date_day_def Let_def)

lemma norm_hours_eq:
  assumes "small (tm_year tm)" and "small (tm_mon tm)" and "small (tm_mday tm)" and "small (tm_hour tm)"
    and "\<bar>tm_min tm\<bar> \<le> 510000000"
  shows "\<exists>tm'. norm_hours tm = Inr tm' \<and> in_range tm' \<and> tm_sec tm' = tm_sec tm \<and> tm_isdst tm' = tm_isdst tm \<and>
    tm_seconds tm' = tm_value tm"
proof -
  define h where "h = carry (tm_hour tm) (tm_min tm) 60"
  define m where "m = tm_min tm mod 60"
  define d where "d = carry (tm_mday tm) h 24"
  define h' where "h' = h mod 24"
  note n1 = normalize_small [of 60 "tm_hour tm" "tm_min tm", folded h_def m_def]
  have h: "normalize_overflow (tm_hour tm) (tm_min tm) 60 = (h, m, False)" "\<bar>h\<bar> \<le> 550000000"
    using n1 assms(4,5) by auto
  note n2 = normalize_small [of 24 "tm_mday tm" h, folded d_def h'_def]
  have d: "normalize_overflow (tm_mday tm) h 24 = (d, h', False)" "\<bar>d\<bar> \<le> 550000000"
    using n2 assms(3) h(2) by auto
  let ?tm = "tm\<lparr> tm_min := m, tm_hour := h', tm_mday := d \<rparr>"
  obtain y mon mday where r: "norm_date ?tm = Inr (?tm\<lparr> tm_year := y, tm_mon := mon, tm_mday := mday \<rparr>)"
    "date_in_range (?tm\<lparr> tm_year := y, tm_mon := mon, tm_mday := mday \<rparr>)"
    "date_day (y + 1900) mon mday = date_day (tm_year tm + 1900 + tm_mon tm div 12) (tm_mon tm mod 12) d"
    using norm_date_eq [of ?tm] assms(1,2) d(2) by auto
  let ?tm' = "?tm\<lparr> tm_year := y, tm_mon := mon, tm_mday := mday \<rparr>"
  have "norm_hours tm = Inr ?tm'" unfolding norm_hours_def using r(1) by (simp add: h(1) d(1))
  moreover have "in_range ?tm'" using r(2) by (simp add: in_range_def m_def h'_def)
  moreover have "tm_seconds ?tm' = tm_value tm"
  proof -
    have "h = h div 24 * 24 + h'" "tm_min tm = tm_min tm div 60 * 60 + m"
      by (simp_all add: h'_def m_def)
    moreover have "date_day (tm_year tm + 1900 + tm_mon tm div 12) (tm_mon tm mod 12) d
        = date_day (tm_year tm + 1900 + tm_mon tm div 12) (tm_mon tm mod 12) (tm_mday tm) + h div 24"
      by (simp add: date_day_def d_def carry_def)
    moreover have "h = tm_hour tm + tm_min tm div 60" by (simp add: h_def carry_def)
    moreover have "tm_seconds ?tm' = date_day (y + 1900) mon mday * 86400 + h' * 3600 + m * 60 + tm_sec tm"
      by (simp add: tm_seconds_def tm_day_date)
    ultimately show ?thesis unfolding tm_value_def using r(3) by (simp add: algebra_simps)
  qed
  ultimately show ?thesis by auto
qed

definition all_small :: "tm \<Rightarrow> bool" where
  "all_small tm \<longleftrightarrow> small (tm_year tm) \<and> small (tm_mon tm) \<and> small (tm_mday tm) \<and> small (tm_hour tm) \<and>
     small (tm_min tm) \<and> small (tm_sec tm)"

lemma bound_add: "\<bar>d\<bar> \<le> 10000000 \<Longrightarrow> \<bar>m\<bar> \<le> 500000000 \<Longrightarrow> \<bar>m + d\<bar> \<le> 510000000" for m d :: int
  by linarith

lemma norm_secs_eq:
  assumes "all_small tm"
  shows "\<exists>tm'. norm_secs b tm = Inr tm' \<and> in_range tm' \<and> tm_isdst tm' = tm_isdst tm \<and> tm_seconds tm' = tm_value tm \<and>
    tm_sec tm' = (if b then tm_sec tm mod 60 else tm_sec tm)"
proof (cases b)
  case False
  then show ?thesis using norm_hours_eq [of tm] assms by (auto simp: norm_secs_def all_small_def)
next
  case True
  let ?m = "carry (tm_min tm) (tm_sec tm) 60"
  let ?tm = "tm\<lparr> tm_min := ?m, tm_sec := tm_sec tm mod 60 \<rparr>"
  have n: "normalize_overflow (tm_min tm) (tm_sec tm) 60 = (?m, tm_sec tm mod 60, False)"
    using normalize_small(1) [of 60 "tm_min tm" "tm_sec tm"] assms by (simp add: all_small_def)
  have sm: "\<bar>tm_sec tm\<bar> \<le> 500000000" "\<bar>tm_min tm\<bar> \<le> 500000000" using assms by (simp_all add: all_small_def)
  have "\<bar>x div 60\<bar> \<le> 10000000" if "\<bar>x\<bar> \<le> 500000000" for x :: int using that by linarith
  from this [OF sm(1)] have "\<bar>?m\<bar> \<le> 510000000" unfolding carry_def using sm(2) by (rule bound_add)
  then obtain tm' where "norm_hours ?tm = Inr tm'" "in_range tm'" "tm_sec tm' = tm_sec tm mod 60"
      "tm_isdst tm' = tm_isdst tm" "tm_seconds tm' = tm_value ?tm"
    using norm_hours_eq [of ?tm] assms by (auto simp: all_small_def)
  moreover have "tm_value ?tm = tm_value tm"
    by (simp add: tm_value_def carry_def algebra_simps)
  ultimately show ?thesis using True n by (auto simp: norm_secs_def)
qed

lemma save_seconds_eq:
  assumes "small (tm_sec tm)"
  shows "\<exists>s saved. save_seconds tm = Inr (tm\<lparr> tm_sec := s \<rparr>, saved) \<and> 0 \<le> s \<and> s < 60 \<and> s + saved = tm_sec tm \<and>
    \<bar>saved\<bar> \<le> 500000059 \<and> (0 \<le> tm_sec tm \<and> tm_sec tm < 60 \<longrightarrow> saved = 0)"
proof -
  have "increment_overflow (tm_sec tm) (- 59) = (tm_sec tm - 59, False)"
    using increment_in_range [of "tm_sec tm" "- 59"] assms by (simp add: in_s32I)
  then show ?thesis using assms by (auto simp: save_seconds_def intro: exI [of _ "tm_sec tm"])
qed

text \<open>The comparison looks at six fields only, so a time in range is searched for as the valid time with
  those fields.\<close>

definition tm_fix :: "tm \<Rightarrow> tm" where
  "tm_fix tm = tm\<lparr> tm_yday := days_before_month (isleap (tm_year tm + 1900)) (tm_mon tm) + tm_mday tm - 1,
     tm_wday := (4 + tm_day tm) mod 7 \<rparr>"

lemma tm_fix_valid: "in_range tm \<Longrightarrow> 0 \<le> tm_sec tm \<Longrightarrow> tm_sec tm < 60 \<Longrightarrow> tm_valid (tm_fix tm)"
  by (simp add: tm_fix_def tm_valid_def in_range_def date_in_range_def tm_day_def Let_def)

lemma tm_fix_fields [simp]: "tm_seconds (tm_fix tm) = tm_seconds tm" "tm_year (tm_fix tm) = tm_year tm"
    "tm_isdst (tm_fix tm) = tm_isdst tm"
  by (simp_all add: tm_fix_def tm_seconds_def tm_day_def Let_def)

lemma tm_seconds_sec: "tm_seconds (tm\<lparr> tm_sec := s \<rparr>) = tm_seconds tm - tm_sec tm + s"
  by (simp add: tm_seconds_def tm_day_def Let_def)

lemma tmcomp_fix: "tmcomp x (tm_fix tm) = tmcomp x tm"
  by (simp add: tm_fix_def tmcomp_def Let_def)

lemma time_search_fix: "time_search f (tm_fix tm) lo hi = time_search f tm lo hi"
proof (induction f "tm_fix tm" lo hi rule: time_search.induct)
  case (1 f lo hi)
  show ?case
    apply (subst (1 2) time_search.simps)
    using 1 by (simp add: tmcomp_fix Let_def split: option.splits sum.splits tz_fault.splits)
qed

context clock
begin

lemma time2sub_eq:
  assumes fn: "\<And>t. funcp t offset sp = f t" and tm: "all_small tm" "tm_isdst tm < 0 \<or> tm_isdst tm = isdst"
    and v: "v = tm_value tm - off"
  obtains tm' where "time2sub funcp offset b sp tm = Some (Inr (v, True, tm'))" "in_s32 v" "tm_valid tm'"
      "tm_seconds tm' = v + off" "tm_isdst tm' = isdst"
  | "time2sub funcp offset b sp tm = Some (Inr (WRONG, False, tm))" "in_s32 v \<Longrightarrow> \<not> b"
proof -
  obtain tm1 where n: "norm_secs b tm = Inr tm1" "in_range tm1" "tm_isdst tm1 = tm_isdst tm" "tm_seconds tm1 = tm_value tm"
    "tm_sec tm1 = (if b then tm_sec tm mod 60 else tm_sec tm)" using norm_secs_eq [OF tm(1)] by blast
  have "small (tm_sec tm1)" using n(5) tm(1) by (auto simp: all_small_def)
  then obtain s saved where sv: "save_seconds tm1 = Inr (tm1\<lparr> tm_sec := s \<rparr>, saved)" "0 \<le> s" "s < 60" "s + saved = tm_sec tm1"
    "\<bar>saved\<bar> \<le> 500000059" "0 \<le> tm_sec tm1 \<and> tm_sec tm1 < 60 \<longrightarrow> saved = 0" using save_seconds_eq by blast
  let ?your = "tm1\<lparr> tm_sec := s \<rparr>"
  have "in_range ?your" using n(2) by (simp add: in_range_def date_in_range_def)
  then have your: "tm_valid (tm_fix ?your)" "\<bar>tm_year (tm_fix ?your)\<bar> \<le> 2000000000"
    using tm_fix_valid sv(2,3) by (simp_all add: in_range_def date_in_range_def)
  have secs: "v - saved = tm_seconds (tm_fix ?your) - off"
    using n(4) sv(4) v by (simp add: tm_seconds_sec)
  have bs: "saved = 0" if b using that n(5) sv(6) by simp
  show thesis
  proof (cases "in_s32 (v - saved)")
    case True
    from in_s32D [OF this] obtain mytm where
      s: "time_search f ?your TIME_T_MIN TIME_T_MAX = Some (Inr (v - saved, mytm))" "tm_isdst mytm = isdst"
      using search_finds [OF your secs, of TIME_T_MIN TIME_T_MAX] time_search_fix [of f ?your] by (auto simp: in_s32I)
    note go = time2sub_def [of funcp offset b sp tm, unfolded Let_def fn, folded TIME_T_MIN_def TIME_T_MAX_def]
    show thesis
    proof (cases "in_s32 v")
      case in_range: True
      obtain tm' where t: "f v = Some (Inr tm')" "tm_valid tm'" "tm_isdst tm' = isdst" "tm_seconds tm' = v + off"
        using breaks_down [OF in_range] by blast
      have "time2sub funcp offset b sp tm = Some (Inr (v, True, tm'))"
        unfolding go using n(1,3) sv(1) s t(1) tm(2) in_range by (auto simp: s32_id simp del: TIME_T_MIN_def TIME_T_MAX_def)
      then show thesis using that(1) in_range t by blast
    next
      case out: False
      have "(s32 v < v - saved) \<noteq> (saved < 0)"
      proof (cases "2147483647 < v")
        case True
        then have "s32 v = v - 4294967296" "0 < saved"
          using in_s32D [OF \<open>in_s32 (v - saved)\<close>] sv(5) by (auto intro: s32_high)
        then show ?thesis using sv(5) by auto
      next
        case False
        then have "v < - 2147483648" using out by (auto simp: in_s32_def INT_MIN_def INT_MAX_def)
        then have "s32 v = v + 4294967296" "saved < 0"
          using in_s32D [OF \<open>in_s32 (v - saved)\<close>] sv(5) by (auto intro: s32_low)
        then show ?thesis using sv(5) by auto
      qed
      then have "time2sub funcp offset b sp tm = Some (Inr (WRONG, False, tm))"
        unfolding go using n(1,3) sv(1) s tm(2) by (auto simp del: TIME_T_MIN_def TIME_T_MAX_def)
      then show thesis using that(2) out by blast
    qed
  next
    case False
    have "time_search f ?your TIME_T_MIN TIME_T_MAX = Some (Inl NullResult)"
      using search_fails [OF your secs False, of TIME_T_MIN TIME_T_MAX] time_search_fix [of f ?your] by (simp add: in_s32I)
    then have "time2sub funcp offset b sp tm = Some (Inr (WRONG, False, tm))"
      unfolding time2sub_def Let_def fn using n(1) sv(1) by (simp del: TIME_T_MIN_def TIME_T_MAX_def)
    moreover have "\<not> b" if "in_s32 v" using that False bs by force
    ultimately show thesis using that(2) by blast
  qed
qed

lemma time2_eq:
  assumes fn: "\<And>t. funcp t offset sp = f t" and tm: "all_small tm" "tm_isdst tm < 0 \<or> tm_isdst tm = isdst"
    and v: "v = tm_value tm - off"
  shows "in_s32 v \<Longrightarrow> \<exists>tm'. time2 funcp offset sp tm = Some (Inr (v, True, tm')) \<and> tm_valid tm' \<and>
      tm_seconds tm' = v + off \<and> tm_isdst tm' = isdst"
    and "\<not> in_s32 v \<Longrightarrow> time2 funcp offset sp tm = Some (Inr (WRONG, False, tm))"
proof -
  note one = time2sub_eq [where funcp = funcp and offset = offset and sp = sp and tm = tm, OF fn tm v]
  show "\<exists>tm'. time2 funcp offset sp tm = Some (Inr (v, True, tm')) \<and> tm_valid tm' \<and>
      tm_seconds tm' = v + off \<and> tm_isdst tm' = isdst" if i: "in_s32 v"
  proof (rule one [of False])
    fix tm'
    assume "time2sub funcp offset False sp tm = Some (Inr (v, True, tm'))" "tm_valid tm'" "tm_seconds tm' = v + off"
      "tm_isdst tm' = isdst"
    then show ?thesis by (simp add: time2_def)
  next
    assume w: "time2sub funcp offset False sp tm = Some (Inr (WRONG, False, tm))"
    show ?thesis by (rule one [of True]) (use w i in \<open>auto simp: time2_def\<close>)
  qed
  show "time2 funcp offset sp tm = Some (Inr (WRONG, False, tm))" if o: "\<not> in_s32 v"
  proof (rule one [of False])
    assume w: "time2sub funcp offset False sp tm = Some (Inr (WRONG, False, tm))"
    show ?thesis by (rule one [of True]) (use w o in \<open>auto simp: time2_def\<close>)
  qed (use o in auto)
qed

lemma time1_eq:
  assumes fn: "\<And>t. funcp t offset sp = f t" and tm: "all_small tm" "tm_isdst tm < 0 \<or> tm_isdst tm = isdst"
    and v: "v = tm_value tm - off" and "isdst \<le> 1"
  shows "in_s32 v \<Longrightarrow> \<exists>tm'. time1 funcp offset sp tm = Some (Inr (v, tm')) \<and> tm_valid tm' \<and>
      tm_seconds tm' = v + off \<and> tm_isdst tm' = isdst"
    and "\<not> in_s32 v \<Longrightarrow> timecnt sp = 0 \<Longrightarrow> \<exists>tm'. time1 funcp offset sp tm = Some (Inr (WRONG, tm'))"
proof -
  have d: "\<not> tm_isdst tm > 1" using tm(2) assms(5) by auto
  show "\<exists>tm'. time1 funcp offset sp tm = Some (Inr (v, tm')) \<and> tm_valid tm' \<and>
      tm_seconds tm' = v + off \<and> tm_isdst tm' = isdst" if "in_s32 v"
    using time2_eq(1) [where funcp = funcp and offset = offset and sp = sp and tm = tm, OF fn tm v that] d by (auto simp: time1_def Let_def)
  show "\<exists>tm'. time1 funcp offset sp tm = Some (Inr (WRONG, tm'))" if "\<not> in_s32 v" "timecnt sp = 0"
    using time2_eq(2) [where funcp = funcp and offset = offset and sp = sp and tm = tm, OF fn tm v that(1)] d that(2)
    by (simp add: time1_def Let_def shift_pairs_def seen_types_def)
qed

end

subsection \<open>Zones with one offset\<close>

text \<open>A zone without transitions and leap seconds: its first type is in force at every time.\<close>

definition fixed_zone :: "tzstate \<Rightarrow> int \<Rightarrow> bool" where
  "fixed_zone sp off \<longleftrightarrow> zone_wf sp \<and> timecnt sp = 0 \<and> leapcnt sp = 0 \<and> \<not> goback sp \<and> \<not> goahead sp \<and>
     tt_isdst (ttis sp ! 0) = 0 \<and> tt_gmtoff (ttis sp ! 0) = off \<and> \<bar>off\<bar> \<le> 604800"

lemma fixed_zone_type:
  assumes "fixed_zone sp off"
  shows "type_in_force t sp = 0"
proof -
  have "1 \<le> typecnt sp" using assms by (simp add: fixed_zone_def zone_wf_def)
  then have "[0..<nat (typecnt sp)] = 0 # [1..<nat (typecnt sp)]" by (simp add: upt_conv_Cons)
  then show ?thesis using assms by (simp add: type_in_force_def fixed_zone_def)
qed

lemma fixed_zone_clock:
  assumes z: "fixed_zone sp off"
  shows "clock (\<lambda>t. localsub t 0 sp) off 0"
proof
  fix t :: int
  assume t: "in_s32 t"
  have wf: "zone_wf sp" "zone_sorted sp" "\<not> goback sp" "\<not> goahead sp"
    using z by (simp_all add: fixed_zone_def zone_sorted_def)
  have ls: "leap_scan (lsis sp) (nat (leapcnt sp)) t = Inr (0, 0)" using z by (simp add: fixed_zone_def)
  obtain tm where tm: "timesub t off sp = Some (Inr tm)" "tm_isdst tm = 0" "tm_valid tm" "tm_seconds tm = t + off"
    "\<bar>tm_year tm\<bar> \<le> 2001900"
    using timesub_total [OF t ls, of off] z by (auto simp: fixed_zone_def)
  have "localsub t 0 sp = with_dst 0 (timesub t off sp)"
    using localsub_eq [OF wf, of t 0] z by (simp add: fixed_zone_type [OF z] Let_def fixed_zone_def)
  then have "localsub t 0 sp = Some (Inr (tm\<lparr> tm_isdst := 0 \<rparr>))" by (simp add: tm(1) with_dst_def)
  moreover have "tm\<lparr> tm_isdst := 0 \<rparr> = tm" using tm(2) by simp
  ultimately show "\<exists>tm. localsub t 0 sp = Some (Inr tm) \<and> tm_valid tm \<and> tm_isdst tm = 0 \<and> tm_seconds tm = t + off \<and>
    \<bar>tm_year tm\<bar> \<le> 2001900" using tm by auto
qed

lemma utc_fixed: "fixed_zone utc_state 0"
  by (simp add: fixed_zone_def utc_state_def zone_wf_def tz_arrays_def type_ok_def take_Suc_conv_app_nth)

interpretation utc_clock: clock "\<lambda>t. localsub t 0 utc_state" 0 0
  by (rule fixed_zone_clock [OF utc_fixed])

text \<open>The fields of a valid time count the seconds that \<open>tm_value\<close> reads.\<close>

lemma valid_value: "tm_valid tm \<Longrightarrow> tm_value tm = tm_seconds tm"
  by (simp add: tm_value_def tm_valid_def tm_seconds_def tm_day_date Let_def)

lemma valid_small: "tm_valid tm \<Longrightarrow> \<bar>tm_year tm\<bar> \<le> 2001900 \<Longrightarrow> all_small tm"
  using mon_length_bounds(2) [of "tm_mon tm" "isleap (tm_year tm + 1900)"]
  by (simp add: tm_valid_def all_small_def Let_def)

text \<open>
  C20. \<open>time1\<close>, the body of \<open>mktime_tz\<close>, is exact in a zone with one offset (no transitions, no leap
  seconds, its first type a standard one at most a week from UTC), for a broken-down time that does not ask
  for daylight saving time (\<open>tm_isdst\<close> is zero or negative) and
  whose fields may lie far outside their ranges (up to 500 million either way): it ends, reads no array
  out of bounds, returns the number of seconds that the fields count minus the offset when this is a
  32-bit time, with the fields normalised in place, and \<open>WRONG\<close> when it is not.
\<close>
theorem mktime_exact:
  assumes "fixed_zone sp off" and "all_small tm" and "tm_isdst tm \<le> 0"
  shows "if in_s32 (tm_value tm - off)
    then \<exists>tm'. time1 localsub 0 sp tm = Some (Inr (tm_value tm - off, tm')) \<and> tm_valid tm' \<and>
           tm_seconds tm' = tm_value tm \<and> tm_isdst tm' = 0
    else \<exists>tm'. time1 localsub 0 sp tm = Some (Inr (WRONG, tm'))"
proof -
  note eq = clock.time1_eq [OF fixed_zone_clock [OF assms(1)], where funcp = localsub and offset = 0 and sp = sp and tm = tm,
      OF refl assms(2) _ refl]
  have "tm_isdst tm < 0 \<or> tm_isdst tm = 0" "timecnt sp = 0" using assms(1,3) by (auto simp: fixed_zone_def)
  then show ?thesis using eq by auto
qed

theorem mktime_exact_witness:
  "\<exists>tm'. time1 localsub 0 utc_state (last_second_tm\<lparr> tm_sec := 67, tm_min := 13 \<rparr>) = Some (Inr (2147483647, tm')) \<and>
     tm_seconds tm' = 2147483647"
proof -
  let ?tm = "last_second_tm\<lparr> tm_sec := 67, tm_min := 13 \<rparr>"
  have "tm_value ?tm = 2147483647" by (code_simp)
  then show ?thesis using mktime_exact [OF utc_fixed, of ?tm] by (auto simp: all_small_def last_second_tm_def in_s32I)
qed

text \<open>
  C24. \<open>mktime_tz\<close> inverts \<open>localtime_tz\<close> in a zone with one offset (no transitions, no leap seconds, its
  first type a standard one at most a week from UTC): there the broken-down time that
  \<open>localsub\<close> makes of a 32-bit time is mapped back by \<open>time1\<close> to that time, and is left unchanged. Zones
  with transitions are not covered.
\<close>
theorem mktime_inverts_localtime:
  assumes "fixed_zone sp off" and "in_s32 t"
  shows "\<exists>tm. localsub t 0 sp = Some (Inr tm) \<and> time1 localsub 0 sp tm = Some (Inr (t, tm))"
proof -
  note clk = fixed_zone_clock [OF assms(1)]
  obtain tm where tm: "localsub t 0 sp = Some (Inr tm)" "tm_valid tm" "tm_isdst tm = 0" "tm_seconds tm = t + off"
    "\<bar>tm_year tm\<bar> \<le> 2001900" using clock.breaks_down [OF clk assms(2)] by blast
  have "t = tm_value tm - off" using valid_value tm(2,4) by simp
  with clock.time1_eq(1) [OF clk, where funcp = localsub and offset = 0 and sp = sp and tm = tm, OF refl valid_small [OF tm(2,5)] _ this]
  obtain tm' where "time1 localsub 0 sp tm = Some (Inr (t, tm'))" "tm_valid tm'" "tm_seconds tm' = t + off" "tm_isdst tm' = 0"
    using tm(3) assms(2) by auto
  moreover from this have "tm' = tm" using tm_unique tm by simp
  ultimately show ?thesis using tm(1) by auto
qed

theorem mktime_inverts_localtime_witness:
  "\<exists>tm. localsub (- 2147483648) 0 utc_state = Some (Inr tm) \<and> time1 localsub 0 utc_state tm = Some (Inr (- 2147483648, tm))"
  by (rule mktime_inverts_localtime [OF utc_fixed]) (simp add: in_s32I)

subsection \<open>Local time from a zone file\<close>

text \<open>The type that a zone has in force, read off its data.\<close>

definition zone_type :: "zone_data \<Rightarrow> int \<Rightarrow> ttinfo" where
  "zone_type z t =
     (let passed = length (filter (\<lambda>a. a \<le> t) (zd_ats z))
      in if passed = 0
         then (case find (\<lambda>tt. tt_isdst tt = 0) (zd_ttis z) of None \<Rightarrow> zd_ttis z ! 0 | Some tt \<Rightarrow> tt)
         else zd_ttis z ! nat (zd_types z ! (passed - 1)))"

lemma find_upt:
  "find (\<lambda>i. P (xs ! i)) [0..<length xs] = Some i \<Longrightarrow> find P xs = Some (xs ! i) \<and> i < length xs"
  "find (\<lambda>i. P (xs ! i)) [0..<length xs] = None \<Longrightarrow> find P xs = None"
  by (auto simp: find_Some_iff find_None_iff in_set_conv_nth)

lemma nth_of_take: "take n xs = ys \<Longrightarrow> i < length ys \<Longrightarrow> xs ! i = ys ! i"
  by (metis length_take min_less_iff_conj nth_take)

lemma find_cong_nth: "(\<And>i. i < n \<Longrightarrow> P i = Q i) \<Longrightarrow> find P [0..<n] = find Q [0..<n]"
  by (rule find_cong) auto

lemma type_in_force_zone:
  assumes z: "zone_data_ok z" and h: "holds_zone z sp"
  shows "ttis sp ! nat (type_in_force t sp) = zone_type z t"
proof -
  let ?passed = "length (filter (\<lambda>a. a \<le> t) (zd_ats z))"
  have n: "nat (timecnt sp) = length (zd_ats z)" "nat (typecnt sp) = length (zd_ttis z)"
    and tk: "take (length (zd_ats z)) (ats sp) = zd_ats z" "take (length (zd_ats z)) (types sp) = zd_types z"
      "take (length (zd_ttis z)) (ttis sp) = zd_ttis z"
    using h by (simp_all add: holds_zone_def)
  have tt: "ttis sp ! i = zd_ttis z ! i" if "i < length (zd_ttis z)" for i using nth_of_take [OF tk(3)] that by simp
  have fnd: "find (\<lambda>i. tt_isdst (ttis sp ! i) = 0) [0..<length (zd_ttis z)]
      = find (\<lambda>i. tt_isdst (zd_ttis z ! i) = 0) [0..<length (zd_ttis z)]"
    by (rule find_cong_nth) (simp add: tt)
  show ?thesis
  proof (cases "?passed = 0")
    case True
    have "0 < length (zd_ttis z)" using z by (auto simp: zone_data_ok_def)
    then show ?thesis using True find_upt [of "\<lambda>tt. tt_isdst tt = 0" "zd_ttis z"] tt
      by (simp add: type_in_force_def zone_type_def n tk fnd split: option.split)
  next
    case False
    have len: "length (zd_types z) = length (zd_ats z)" using z by (simp add: zone_data_ok_def)
    have k: "?passed - 1 < length (zd_types z)"
      using False length_filter_le [of "\<lambda>a. a \<le> t" "zd_ats z"] len by linarith
    then have "types sp ! (?passed - 1) = zd_types z ! (?passed - 1)" using nth_of_take [OF tk(2)] by simp
    moreover have "zd_types z ! (?passed - 1) \<in> set (zd_types z)" using k by (rule nth_mem)
    then have "0 \<le> zd_types z ! (?passed - 1)" "zd_types z ! (?passed - 1) < int (length (zd_ttis z))"
      using z by (auto simp: zone_data_ok_def)
    ultimately show ?thesis using False tt by (simp add: type_in_force_def zone_type_def n tk)
  qed
qed

lemma with_dst_Some: "with_dst d (Some (Inr tm)) = Some (Inr (tm\<lparr> tm_isdst := d \<rparr>))"
  by (simp add: with_dst_def)



end
