(* ===== verification/Jstring.thy ===== *)
theory Jstring
  imports Prelude_C
begin

text \<open>
  The conversions between UTF-16 and Java's modified UTF-8 of \<open>libcutils/strdup16to8.c\<close> and
  \<open>strdup8to16.c\<close>. Strings in memory are lists of code units; reading past the end of a list or
  writing past the end of a destination buffer is a fault, so that a result \<open>Inr\<close> also says that
  the call stayed inside its buffers. The theorems give the exact sizes, the memory safety of the
  allocating versions and the round trip.
\<close>

definition SIZE_MAX :: size_t where "SIZE_MAX = 0xffffffff"

subsection \<open>UTF-16 to UTF-8\<close>

definition unit_size :: "u32 \<Rightarrow> size_t" where
  "unit_size uic = (if uic > 0x07ff then 3 else if uic > 0x7f \<or> uic = 0 then 2 else 1)"

fun strnlen_fast :: "nat \<Rightarrow> u16 list \<Rightarrow> size_t \<Rightarrow> mem_fault + size_t" where
  "strnlen_fast 0 utf16Str utf8Len = Inr utf8Len"
| "strnlen_fast (Suc len) [] utf8Len = Inl BadRead"
| "strnlen_fast (Suc len) (u # utf16Str) utf8Len =
     strnlen_fast len utf16Str (utf8Len + unit_size (ucast u))"

fun strnlen_paranoid :: "nat \<Rightarrow> u16 list \<Rightarrow> size_t \<Rightarrow> mem_fault + size_t" where
  "strnlen_paranoid 0 utf16Str utf8Len =
     Inr (if utf8Len = SIZE_MAX then SIZE_MAX - 1 else utf8Len)"
| "strnlen_paranoid (Suc len) [] utf8Len = Inl BadRead"
| "strnlen_paranoid (Suc len) (u # utf16Str) utf8Cur =
     (let utf8Len = utf8Cur + unit_size (ucast u)
      in if utf8Len < utf8Cur then Inr (SIZE_MAX - 1)
         else strnlen_paranoid len utf16Str utf8Len)"

definition strnlen16to8 :: "u16 list \<Rightarrow> size_t \<Rightarrow> mem_fault + size_t" where
  "strnlen16to8 utf16Str len =
     (if len < (SIZE_MAX - 1) div 3 then strnlen_fast (unat len) utf16Str 0
      else strnlen_paranoid (unat len) utf16Str 0)"

definition encode3 :: "u32 \<Rightarrow> u8 list" where
  "encode3 uic = [ucast (drop_bit 12 uic OR 0xe0), ucast ((drop_bit 6 uic AND 0x3f) OR 0x80),
                  ucast ((uic AND 0x3f) OR 0x80)]"

definition encode2 :: "u32 \<Rightarrow> u8 list" where
  "encode2 uic = [ucast (drop_bit 6 uic OR 0xc0), ucast ((uic AND 0x3f) OR 0x80)]"

fun strncpy_loop :: "nat \<Rightarrow> u16 list \<Rightarrow> u8 list \<Rightarrow> nat \<Rightarrow> mem_fault + (u8 list \<times> nat)" where
  "strncpy_loop 0 utf16Str buf cur = Inr (buf, cur)"
| "strncpy_loop (Suc len) [] buf cur = Inl BadRead"
| "strncpy_loop (Suc len) (u # utf16Str) buf cur =
     (let uic = (ucast u :: u32) in
      if uic > 0x07ff then
        (case store_list buf cur (encode3 uic) of
           Inl e \<Rightarrow> Inl e | Inr buf' \<Rightarrow> strncpy_loop len utf16Str buf' (cur + 3))
      else if uic > 0x7f \<or> uic = 0 then
        (case store_list buf cur (encode2 uic) of
           Inl e \<Rightarrow> Inl e | Inr buf' \<Rightarrow> strncpy_loop len utf16Str buf' (cur + 2))
      else
        (case store_list buf cur [ucast uic] of
           Inl e \<Rightarrow> Inl e
         | Inr buf' \<Rightarrow>
             if uic = 0 then Inr (buf', cur + 1) else strncpy_loop len utf16Str buf' (cur + 1)))"

definition strncpy16to8 :: "u8 list \<Rightarrow> u16 list \<Rightarrow> size_t \<Rightarrow> mem_fault + u8 list" where
  "strncpy16to8 utf8Str utf16Str len =
     (case strncpy_loop (unat len) utf16Str utf8Str 0 of
        Inl e \<Rightarrow> Inl e
      | Inr (buf, cur) \<Rightarrow> store_list buf cur [0])"

text \<open>\<open>None\<close> is the NULL pointer, as an argument and as a result.\<close>

definition strndup16to8 ::
  "bool \<Rightarrow> (nat \<Rightarrow> u8) \<Rightarrow> u16 list option \<Rightarrow> size_t \<Rightarrow> mem_fault + u8 list option" where
  "strndup16to8 malloc_ok junk s n =
     (case s of
        None \<Rightarrow> Inr None
      | Some s \<Rightarrow>
          (case strnlen16to8 s n of
             Inl e \<Rightarrow> Inl e
           | Inr len \<Rightarrow>
               if len \<ge> SIZE_MAX - 1 then Inr None
               else (case malloc_buf malloc_ok junk (unat (len + 1)) of
                       None \<Rightarrow> Inr None
                     | Some ret \<Rightarrow>
                         (case strncpy16to8 ret s n of
                            Inl e \<Rightarrow> Inl e | Inr ret' \<Rightarrow> Inr (Some ret')))))"

subsection \<open>UTF-8 to UTF-16\<close>

definition UTF16_REPLACEMENT_CHAR :: u32 where "UTF16_REPLACEMENT_CHAR = 0xfffd"
definition UNICODE_UPPER_LIMIT :: u32 where "UNICODE_UPPER_LIMIT = 0x10fffd"

definition UTF8_SEQ_LENGTH :: "u8 \<Rightarrow> nat" where
  "UTF8_SEQ_LENGTH ch =
     unat (drop_bit (unat (drop_bit 3 (ucast ch) AND (0x1e :: u32))) (0xe5000000 :: u32) AND 3) + 1"

definition UTF8_SHIFT_AND_MASK :: "u32 \<Rightarrow> u8 \<Rightarrow> u32" where
  "UTF8_SHIFT_AND_MASK unicode byte = push_bit 6 unicode OR (0x3f AND ucast byte)"

definition leaderMask :: "u32 list" where
  "leaderMask = [0xff, 0x1f, 0x0f, 0x07]"

definition continuation :: "u8 \<Rightarrow> bool" where
  "continuation b \<longleftrightarrow> b AND 0xc0 = 0x80"

fun strlen_loop :: "u8 list \<Rightarrow> size_t \<Rightarrow> int \<Rightarrow> mem_fault + size_t" where
  "strlen_loop [] len expected = Inl BadRead"
| "strlen_loop (ic # utf8Str) len expected =
     (if ic = 0 then Inr len
      else if continuation ic then
        strlen_loop utf8Str (if expected - 1 < 0 then len + 1 else len) (expected - 1)
      else
        let expected' = int (UTF8_SEQ_LENGTH ic) - 1
        in strlen_loop utf8Str (if expected' = 3 then len + 1 + 1 else len + 1) expected')"

definition strlen8to16 :: "u8 list \<Rightarrow> mem_fault + size_t" where
  "strlen8to16 utf8Str = strlen_loop utf8Str 0 0"

text \<open>The \<open>for\<close> loop over the remaining bytes of a sequence; it leaves the pointer on a byte
  that cannot continue the sequence.\<close>

fun seq_loop :: "nat \<Rightarrow> u32 \<Rightarrow> u8 list \<Rightarrow> mem_fault + (u32 \<times> u8 list)" where
  "seq_loop 0 ret p = Inr (ret, p)"
| "seq_loop (Suc n) ret [] = Inl BadRead"
| "seq_loop (Suc n) ret (b # p) =
     (if b = 0 then Inr (UTF16_REPLACEMENT_CHAR, b # p)
      else if \<not> continuation b then Inr (UTF16_REPLACEMENT_CHAR, b # p)
      else seq_loop n (UTF8_SHIFT_AND_MASK ret b) p)"

fun getUtf32FromUtf8 :: "u8 list \<Rightarrow> mem_fault + (u32 \<times> u8 list)" where
  "getUtf32FromUtf8 [] = Inl BadRead"
| "getUtf32FromUtf8 (b # p) =
     (if continuation b then Inr (UTF16_REPLACEMENT_CHAR, p)
      else
        let seq_len = UTF8_SEQ_LENGTH b;
            ret = ucast b AND leaderMask ! (seq_len - 1)
        in if b = 0 then Inr (ret, b # p) else seq_loop (seq_len - 1) ret p)"

definition utf16_units :: "u32 \<Rightarrow> u16 list" where
  "utf16_units ret =
     (if ret \<le> 0xffff then [ucast ret]
      else if ret \<le> UNICODE_UPPER_LIMIT then
        [ucast (0xd800 OR drop_bit 10 (ret - 0x10000)), ucast (0xdc00 OR ((ret - 0x10000) AND 0x3ff))]
      else [ucast UTF16_REPLACEMENT_CHAR])"

lemma seq_loop_suffix: "seq_loop n ret p = Inr (r, p') \<Longrightarrow> length p' \<le> length p"
  by (induction n ret p rule: seq_loop.induct) (auto split: if_splits)

lemma getUtf32_progress:
  "getUtf32FromUtf8 p = Inr (r, p') \<Longrightarrow> p = b # q \<Longrightarrow> b \<noteq> 0 \<Longrightarrow> length p' < length p"
  by (auto simp: Let_def split: if_splits dest: seq_loop_suffix)

lemma utf16_units_not_Nil [simp]: "utf16_units r \<noteq> []"
  by (simp add: utf16_units_def)

function strcpy_loop :: "u8 list \<Rightarrow> u16 list \<Rightarrow> nat \<Rightarrow> mem_fault + (u16 list \<times> nat)" where
  "strcpy_loop utf8Str buf dest =
     (case utf8Str of
        [] \<Rightarrow> Inl BadRead
      | c # _ \<Rightarrow>
          if c = 0 then Inr (buf, dest)
          else
            (case getUtf32FromUtf8 utf8Str of
               Inl e \<Rightarrow> Inl e
             | Inr (ret, utf8Str') \<Rightarrow>
                 (case store_list buf dest (utf16_units ret) of
                    Inl e \<Rightarrow> Inl e
                  | Inr buf' \<Rightarrow> strcpy_loop utf8Str' buf' (dest + length (utf16_units ret)))))"
  by pat_completeness auto
termination
  by (relation "measure (\<lambda>(s, _). length s)") (auto simp del: getUtf32FromUtf8.simps dest: getUtf32_progress [OF _ refl])

declare strcpy_loop.simps [simp del]

text \<open>The converted units in their buffer, and \<open>*out_len\<close>.\<close>

definition strcpy8to16 :: "u16 list \<Rightarrow> u8 list \<Rightarrow> mem_fault + (u16 list \<times> nat)" where
  "strcpy8to16 utf16Str utf8Str = strcpy_loop utf8Str utf16Str 0"

text \<open>\<open>left\<close> is the distance \<open>end - utf8Str\<close>.\<close>

lemma store_list_length: "store_list buf i xs = Inr buf' \<Longrightarrow> length buf' = length buf"
  by (induction buf i xs rule: store_list.induct) (auto split: if_splits)

lemma store_list_room: "store_list buf i xs = Inr buf' \<Longrightarrow> xs \<noteq> [] \<Longrightarrow> i < length buf"
  by (cases xs) (auto split: if_splits)

function strcpylen_loop :: "u8 list \<Rightarrow> int \<Rightarrow> u16 list \<Rightarrow> nat \<Rightarrow> mem_fault + (u16 list \<times> nat)" where
  "strcpylen_loop utf8Str left buf dest =
     (if 0 < left then
        (case getUtf32FromUtf8 utf8Str of
           Inl e \<Rightarrow> Inl e
         | Inr (ret, utf8Str') \<Rightarrow>
             (case store_list buf dest (utf16_units ret) of
                Inl e \<Rightarrow> Inl e
              | Inr buf' \<Rightarrow>
                  strcpylen_loop utf8Str' (left - (int (length utf8Str) - int (length utf8Str')))
                    buf' (dest + length (utf16_units ret))))
      else Inr (buf, dest))"
  by pat_completeness auto
termination
proof (relation "measure (\<lambda>(_, _, buf, dest). length buf - dest)", goal_cases)
  case (2 utf8Str left buf dest x a b bd)
  then have "dest < length buf" "length bd = length buf"
    using store_list_room [OF 2(4)] store_list_length [OF 2(4)] by auto
  moreover have "0 < length (utf16_units a)" by simp
  ultimately show ?case by (simp del: length_greater_0_conv)
qed simp

declare strcpylen_loop.simps [simp del]

definition strcpylen8to16 :: "u16 list \<Rightarrow> u8 list \<Rightarrow> int \<Rightarrow> mem_fault + (u16 list \<times> nat)" where
  "strcpylen8to16 utf16Str utf8Str len = strcpylen_loop utf8Str len utf16Str 0"

text \<open>A failed allocation leaves a null pointer, to which nothing can be written.\<close>

definition strdup8to16 ::
  "bool \<Rightarrow> (nat \<Rightarrow> u16) \<Rightarrow> u8 list option \<Rightarrow> mem_fault + (u16 list \<times> nat) option" where
  "strdup8to16 malloc_ok junk s =
     (case s of
        None \<Rightarrow> Inr None
      | Some s \<Rightarrow>
          (case strlen8to16 s of
             Inl e \<Rightarrow> Inl e
           | Inr len \<Rightarrow>
               if len \<noteq> 0 \<and> SIZE_MAX div len < 2 then Inr None
               else
                 (case malloc_buf malloc_ok junk (unat len) of
                    None \<Rightarrow> (case strcpy8to16 [] s of Inl e \<Rightarrow> Inl e | Inr _ \<Rightarrow> Inr None)
                  | Some ret \<Rightarrow>
                      (case strcpy8to16 ret s of Inl e \<Rightarrow> Inl e | Inr r \<Rightarrow> Inr (Some r)))))"

subsection \<open>Sizes\<close>

text \<open>The encoding of one unit, and its length.\<close>

definition encode_unit :: "u16 \<Rightarrow> u8 list" where
  "encode_unit u = (let uic = (ucast u :: u32) in
     if uic > 0x07ff then encode3 uic else if uic > 0x7f \<or> uic = 0 then encode2 uic else [ucast uic])"

definition encode :: "u16 list \<Rightarrow> u8 list" where
  "encode s = concat (map encode_unit s)"

lemma encode_simps [simp]: "encode [] = []" "encode (u # s) = encode_unit u @ encode s"
  by (simp_all add: encode_def)

lemma encode_unit_length:
  "length (encode_unit u) = unat (unit_size (ucast u))" "1 \<le> length (encode_unit u)"
  "length (encode_unit u) \<le> 3"
  by (simp_all add: encode_unit_def unit_size_def encode3_def encode2_def Let_def)

lemma encode_length: "length (encode s) \<le> 3 * length s"
proof (induction s)
  case (Cons u s)
  then show ?case using encode_unit_length(3) [of u] by simp
qed simp

lemma strnlen_fast_eq:
  "k \<le> length s \<Longrightarrow> strnlen_fast k s n = Inr (n + of_nat (length (encode (take k s))))"
proof (induction k s n rule: strnlen_fast.induct)
  case (3 len u s n)
  have "unit_size (ucast u) = of_nat (length (encode_unit u))" by (simp add: encode_unit_length(1))
  then show ?case using 3 by (simp add: ac_simps)
qed simp_all

lemma SIZE_MAX_facts:
  "unat SIZE_MAX = 4294967295" "unat (SIZE_MAX - 1) = 4294967294" "unat ((SIZE_MAX - 1) div 3) = 1431655764"
  by (simp_all add: SIZE_MAX_def unat_div)

lemma strnlen_paranoid_eq:
  assumes "k \<le> length s" and "unat n + length (encode (take k s)) = tot"
  shows "strnlen_paranoid k s n = Inr (of_nat (min tot 4294967294))"
  using assms
proof (induction k s n rule: strnlen_paranoid.induct)
  case (1 s n)
  then have "tot < 4294967296" using unat_u32_less [of n] by simp
  then have "tot \<le> 4294967294 \<or> tot = 4294967295" by linarith
  moreover have "n = SIZE_MAX \<longleftrightarrow> tot = 4294967295"
    using 1 SIZE_MAX_facts(1) by (simp add: word_unat_eq_iff)
  moreover have "n = of_nat tot" using 1 by auto
  ultimately show ?case by (auto simp: SIZE_MAX_def min_def)
next
  case (3 len u s n)
  let ?w = "unit_size (ucast u)"
  have w: "unat ?w = length (encode_unit u)" "unat ?w \<le> 3"
    using encode_unit_length [of u] by simp_all
  have add: "unat (n + ?w) = (unat n + unat ?w) mod 4294967296" by (simp add: unat_word_ariths)
  show ?case
  proof (cases "unat n + unat ?w < 4294967296")
    case True
    then have "unat (n + ?w) = unat n + unat ?w" using add by simp
    moreover from this have "\<not> n + ?w < n" by (simp add: word_less_nat_alt)
    ultimately show ?thesis using 3 w by (simp add: Let_def)
  next
    case False
    then have "(unat n + unat ?w) mod 4294967296 = unat n + unat ?w - 4294967296"
      using unat_u32_less [of n] w(2) by (subst mod_if) simp
    then have "n + ?w < n" using add w(2) False by (simp add: word_less_nat_alt)
    moreover have "4294967294 \<le> tot" using 3 False w by simp
    ultimately show ?thesis by (simp add: Let_def SIZE_MAX_def min_def)
  qed
qed simp

lemma strnlen16to8_eq:
  assumes "unat len \<le> length s"
  shows "strnlen16to8 s len = Inr (of_nat (min (length (encode (take (unat len) s))) 4294967294))"
proof (cases "len < (SIZE_MAX - 1) div 3")
  case True
  then have "unat len < 1431655764" using SIZE_MAX_facts(3) by (simp add: word_less_nat_alt)
  then have "length (encode (take (unat len) s)) \<le> 4294967294"
    using encode_length [of "take (unat len) s"] by simp
  then show ?thesis using True strnlen_fast_eq [OF assms, of 0] by (simp add: strnlen16to8_def min_def)
next
  case False
  then show ?thesis
    using strnlen_paranoid_eq [OF assms, of 0] by (simp add: strnlen16to8_def)
qed

lemma strncpy_loop_eq:
  assumes "k \<le> length s" and "cur + length (encode (take k s)) \<le> length buf"
  shows "strncpy_loop k s buf cur =
     Inr (take cur buf @ encode (take k s) @ drop (cur + length (encode (take k s))) buf,
          cur + length (encode (take k s)))"
  using assms
proof (induction k s buf cur rule: strncpy_loop.induct)
  case (3 len u s buf cur)
  let ?b = "encode_unit u" and ?r = "encode (take len s)"
  define buf' where "buf' = take cur buf @ ?b @ drop (cur + length ?b) buf"
  have room: "cur + length ?b \<le> length buf" using "3.prems"(2) by simp
  have len: "length buf' = length buf" using room by (simp add: buf'_def)
  have st: "store_list buf cur ?b = Inr buf'"
    using store_list_ok [OF room] by (simp add: buf'_def)
  have rec: "cur + length ?b + length ?r \<le> length buf'" "len \<le> length s"
    using "3.prems" len by simp_all
  have res: "take (cur + length ?b) buf' @ ?r @ drop (cur + length ?b + length ?r) buf' =
      take cur buf @ (?b @ ?r) @ drop (cur + (length ?b + length ?r)) buf"
    using room by (simp add: buf'_def ac_simps)
  consider "ucast u > (0x07ff :: u32)" | "\<not> ucast u > (0x07ff :: u32)" "ucast u > (0x7f :: u32) \<or> ucast u = (0 :: u32)"
    | "\<not> ucast u > (0x07ff :: u32)" "\<not> (ucast u > (0x7f :: u32) \<or> ucast u = (0 :: u32))" by blast
  then show ?case
  proof cases
    case 1
    then have "?b = encode3 (ucast u)" "length ?b = 3" by (simp_all add: encode_unit_def encode3_def Let_def)
    then show ?thesis using 3(1)[OF refl 1, of buf'] st rec res 1 by (simp add: Let_def ac_simps)
  next
    case 2
    then have "?b = encode2 (ucast u)" "length ?b = 2" by (simp_all add: encode_unit_def encode2_def Let_def)
    then show ?thesis using 3(2)[OF refl 2, of buf'] st rec res 2 by (simp add: Let_def ac_simps)
  next
    case c3: 3
    then have "?b = [ucast (ucast u :: u32)]" "length ?b = 1" by (simp_all add: encode_unit_def Let_def)
    then show ?thesis using 3(3)[OF refl c3, of buf'] st rec res c3 by (simp add: Let_def ac_simps)
  qed
qed simp_all

lemma strncpy16to8_eq:
  assumes "unat len \<le> length s" and "length (encode (take (unat len) s)) < length buf"
  shows "strncpy16to8 buf s len = Inr (encode (take (unat len) s) @ 0 #
     drop (Suc (length (encode (take (unat len) s)))) buf)"
  using assms strncpy_loop_eq [OF assms(1), of 0 buf]
  by (simp add: strncpy16to8_def store_list_ok list_update_append drop_Suc [symmetric]
      del: store_list.simps)

lemma strndup16to8_eq:
  assumes "unat n \<le> length s" and "length (encode (take (unat n) s)) < 4294967294"
  shows "strndup16to8 True junk (Some s) n = Inr (Some (encode (take (unat n) s) @ [0]))"
proof -
  let ?l = "length (encode (take (unat n) s))"
  have u: "unat (of_nat ?l :: size_t) = ?l" using assms(2) by (simp add: unat_of_nat)
  then have lt: "\<not> SIZE_MAX - 1 \<le> (of_nat ?l :: size_t)"
    using assms(2) SIZE_MAX_facts(2) by (simp add: word_le_nat_alt)
  have "unat (of_nat ?l + 1 :: size_t) = Suc ?l"
    using u assms(2) by (subst unat_Suc_u32) simp_all
  moreover have "strnlen16to8 s n = Inr (of_nat ?l)"
    using strnlen16to8_eq [OF assms(1)] assms(2) by (simp add: min_def)
  ultimately show ?thesis
    using lt strncpy16to8_eq [OF assms(1), of "map junk [0..<Suc ?l]"]
    by (simp add: strndup16to8_def malloc_buf_def del: upt_Suc)
qed

subsection \<open>Decoding\<close>

lemma UTF8_SEQ_LENGTH_table:
  "\<forall>n \<in> set [0..<256]. UTF8_SEQ_LENGTH (of_nat n) =
     (if n < 192 then 1 else if n < 224 then 2 else if n < 240 then 3 else 4) \<and>
     (continuation (of_nat n) \<longleftrightarrow> 128 \<le> n \<and> n < 192)"
  by code_simp

lemma UTF8_SEQ_LENGTH_eq:
  "UTF8_SEQ_LENGTH b =
     (if unat b < 192 then 1 else if unat b < 224 then 2 else if unat b < 240 then 3 else 4)"
  and continuation_iff: "continuation b \<longleftrightarrow> 128 \<le> unat b \<and> unat b < 192"
  using UTF8_SEQ_LENGTH_table [rule_format, of "unat b"] unat_bounds(1) [of b] by simp_all

lemma unat_shift_and_mask:
  assumes "unat r < 2 ^ 26"
  shows "unat (UTF8_SHIFT_AND_MASK r b) = unat r * 64 + unat b mod 64"
proof -
  have m: "(0x3f :: u32) = mask 6" by (simp add: mask_eq_exp_minus_1)
  have "unat (0x3f AND ucast b :: u32) = unat b mod 2 ^ 6"
    by (simp only: m and.commute [of "mask 6"] unat_and_mask unat_ucast_up)
  moreover have "unat (push_bit 6 r) = unat r * 2 ^ 6" using assms by (intro unat_push_bit) simp
  ultimately show ?thesis
    using or_shift [of "unat b mod 2 ^ 6" 6 "unat r"]
    by (simp only: UTF8_SHIFT_AND_MASK_def unat_or or.commute [of "unat (push_bit 6 r)"])
      (simp add: ac_simps)
qed

lemma unat_encode3:
  "map unat (encode3 (ucast (u :: u16))) =
     [unat u div 4096 + 224, unat u div 64 mod 64 + 128, unat u mod 64 + 128]"
  and unat_encode2:
  "unat u \<le> 2047 \<Longrightarrow>
     map unat (encode2 (ucast (u :: u16))) = [unat u div 64 + 192, unat u mod 64 + 128]"
proof -
  have m: "(0x3f :: u32) = mask 6" by (simp add: mask_eq_exp_minus_1)
  have lt: "unat u div 4096 < 16" "unat u div 64 mod 64 < 2 ^ 6" "unat u mod 64 < 2 ^ 6"
    using unat_bounds(2) [of u] by simp_all
  have a: "unat (drop_bit 12 (ucast u :: u32) OR 0xe0) = unat u div 4096 + 224"
    using or_shift [of "unat u div 2 ^ 12" 4 14] lt(1)
    by (simp only: unat_or unat_drop_bit unat_ucast_up) simp
  have c: "unat (drop_bit 6 (ucast u :: u32) AND 0x3f OR 0x80) = unat u div 64 mod 64 + 128"
    using or_shift [of "unat u div 2 ^ 6 mod 2 ^ 6" 6 2]
    by (simp only: m unat_or unat_drop_bit unat_ucast_up unat_and_mask) simp
  have d: "unat ((ucast u :: u32) AND 0x3f OR 0x80) = unat u mod 64 + 128"
    using or_shift [of "unat u mod 2 ^ 6" 6 2]
    by (simp only: m unat_or unat_ucast_up unat_and_mask) simp
  show "map unat (encode3 (ucast u)) =
     [unat u div 4096 + 224, unat u div 64 mod 64 + 128, unat u mod 64 + 128]"
    using a c d lt by (simp add: encode3_def unat_ucast_down)
  assume "unat u \<le> 2047"
  then have lt': "unat u div 64 < 2 ^ 6" by simp
  then have "unat (drop_bit 6 (ucast u :: u32) OR 0xc0) = unat u div 64 + 192"
    using or_shift [of "unat u div 2 ^ 6" 6 3]
    by (simp only: unat_or unat_drop_bit unat_ucast_up) simp
  then show "map unat (encode2 (ucast u)) = [unat u div 64 + 192, unat u mod 64 + 128]"
    using d lt lt' by (simp add: encode2_def unat_ucast_down)
qed

text \<open>The units a NUL-terminated string decodes to, and the count \<open>strlen8to16\<close> makes.\<close>

function decode :: "u8 list \<Rightarrow> u16 list" where
  "decode s =
     (case s of
        [] \<Rightarrow> []
      | c # _ \<Rightarrow>
          if c = 0 then []
          else (case getUtf32FromUtf8 s of
                  Inl e \<Rightarrow> [] | Inr (ret, s') \<Rightarrow> utf16_units ret @ decode s'))"
  by pat_completeness auto
termination
  by (relation "measure length")
    (auto simp del: getUtf32FromUtf8.simps dest: getUtf32_progress [OF _ refl])

declare decode.simps [simp del]

fun count8 :: "u8 list \<Rightarrow> int \<Rightarrow> nat" where
  "count8 [] expected = 0"
| "count8 (c # s) expected =
     (if c = 0 then 0
      else if continuation c then (if expected - 1 < 0 then 1 else 0) + count8 s (expected - 1)
      else (if UTF8_SEQ_LENGTH c = 4 then 2 else 1) + count8 s (int (UTF8_SEQ_LENGTH c) - 1))"

lemma strlen_loop_eq: "0 \<in> set s \<Longrightarrow> strlen_loop s n e = Inr (n + of_nat (count8 s e))"
  by (induction s n e rule: strlen_loop.induct) (auto simp: Let_def ac_simps)

lemma count8_le: "count8 s e \<le> 2 * length s"
  by (induction s e rule: count8.induct) auto

lemma seq_loop_total:
  "0 \<in> set p \<Longrightarrow> \<exists>r p'. seq_loop n ret p = Inr (r, p') \<and> 0 \<in> set p' \<and>
     (\<exists>e. count8 p (int n) = count8 p' e \<and> (e \<le> 0 \<or> \<not> continuation (hd p')))"
proof (induction n ret p rule: seq_loop.induct)
  case (1 ret p)
  then show ?case by auto
next
  case (3 n ret b p)
  show ?case
  proof (cases "b = 0 \<or> \<not> continuation b")
    case True
    then show ?thesis using "3.prems" by auto
  next
    case False
    then have "count8 (b # p) (int (Suc n)) = count8 p (int n)" by simp
    then show ?thesis using 3 False by auto
  qed
qed simp

lemma seq_loop_bound:
  "seq_loop n ret p = Inr (r, p') \<Longrightarrow> unat ret < B \<Longrightarrow> B * 64 ^ n \<le> 2 ^ 32 \<Longrightarrow>
   r = UTF16_REPLACEMENT_CHAR \<or> unat r < B * 64 ^ n"
proof (induction n ret p arbitrary: B rule: seq_loop.induct)
  case (3 n ret b p)
  show ?case
  proof (cases "b = 0 \<or> \<not> continuation b")
    case True
    then show ?thesis using "3.prems"(1) by (auto split: if_splits)
  next
    case False
    have B: "B * 64 * 64 ^ n \<le> 2 ^ 32" using "3.prems"(3) by (simp add: ac_simps)
    have "B * 64 * 1 \<le> B * 64 * 64 ^ n" by (rule mult_le_mono2) simp
    then have "B * 64 * 1 \<le> 2 ^ 32" using B by (rule order_trans)
    then have "unat ret < 2 ^ 26" using "3.prems"(2) by simp
    then have "unat (UTF8_SHIFT_AND_MASK ret b) < B * 64"
      using "3.prems"(2) by (simp only: unat_shift_and_mask)
    then have "r = UTF16_REPLACEMENT_CHAR \<or> unat r < B * 64 * 64 ^ n"
      using False "3.prems"(1) B by (intro "3.IH") simp_all
    then show ?thesis by (simp add: ac_simps)
  qed
qed simp_all

lemma utf16_units_length: "length (utf16_units r) \<le> 2" "r \<le> 0xffff \<Longrightarrow> length (utf16_units r) = 1"
  by (simp_all add: utf16_units_def)

lemma lead_bound:
  assumes "\<not> continuation b" and "UTF8_SEQ_LENGTH b \<noteq> 4"
  shows "unat (ucast b AND leaderMask ! (UTF8_SEQ_LENGTH b - 1)) * 64 ^ (UTF8_SEQ_LENGTH b - 1)
     + 64 ^ (UTF8_SEQ_LENGTH b - 1) \<le> 65536"
proof -
  have m: "(0xff :: u32) = mask 8" "(0x1f :: u32) = mask 5" "(0x0f :: u32) = mask 4"
    by (simp_all add: mask_eq_exp_minus_1)
  consider "UTF8_SEQ_LENGTH b = 1" | "UTF8_SEQ_LENGTH b = 2" | "UTF8_SEQ_LENGTH b = 3"
    using assms(2) UTF8_SEQ_LENGTH_eq [of b] by (auto split: if_splits)
  then show ?thesis
  proof cases
    case 1
    have "unat (ucast b AND (0xff :: u32)) < 2 ^ 8" unfolding m unat_and_mask by simp
    with 1 show ?thesis by (simp add: leaderMask_def)
  next
    case 2
    have "unat (ucast b AND (0x1f :: u32)) < 2 ^ 5" unfolding m unat_and_mask by simp
    with 2 show ?thesis by (simp add: leaderMask_def)
  next
    case 3
    have "unat (ucast b AND (0x0f :: u32)) < 2 ^ 4" unfolding m unat_and_mask by simp
    with 3 show ?thesis by (simp add: leaderMask_def)
  qed
qed

lemma getUtf32_total:
  assumes "0 \<in> set (c # p)" and "c \<noteq> 0" and "e \<le> 0 \<or> \<not> continuation c"
  shows "\<exists>r p' e'. getUtf32FromUtf8 (c # p) = Inr (r, p') \<and> 0 \<in> set p' \<and>
     (e' \<le> 0 \<or> \<not> continuation (hd p')) \<and>
     count8 (c # p) e \<ge> length (utf16_units r) + count8 p' e'"
proof (cases "continuation c")
  case True
  moreover have "length (utf16_units UTF16_REPLACEMENT_CHAR) = 1"
    by (simp add: utf16_units_def UTF16_REPLACEMENT_CHAR_def)
  ultimately show ?thesis using assms by (auto intro!: exI [of _ "e - 1"])
next
  case False
  let ?k = "UTF8_SEQ_LENGTH c - 1" and ?ret = "ucast c AND leaderMask ! (UTF8_SEQ_LENGTH c - 1)"
  have k: "int ?k = int (UTF8_SEQ_LENGTH c) - 1" by (simp add: UTF8_SEQ_LENGTH_eq)
  have "0 \<in> set p" using assms(1,2) by auto
  then obtain r p' e' where r: "seq_loop ?k ?ret p = Inr (r, p')" "0 \<in> set p'"
    "count8 p (int ?k) = count8 p' e'" "e' \<le> 0 \<or> \<not> continuation (hd p')"
    using seq_loop_total by blast
  have "length (utf16_units r) \<le> (if UTF8_SEQ_LENGTH c = 4 then 2 else 1)"
  proof (cases "UTF8_SEQ_LENGTH c = 4")
    case False
    have b: "(unat ?ret + 1) * 64 ^ ?k \<le> 65536"
      using lead_bound [OF \<open>\<not> continuation c\<close> False] by simp
    then have b32: "(unat ?ret + 1) * 64 ^ ?k \<le> 2 ^ 32" by (rule order_trans) simp
    have "r = UTF16_REPLACEMENT_CHAR \<or> unat r < (unat ?ret + 1) * 64 ^ ?k"
      by (rule seq_loop_bound [OF r(1) _ b32]) simp
    then have "unat r \<le> 65535" using b by (auto simp: UTF16_REPLACEMENT_CHAR_def)
    then have "r \<le> 0xffff" by (simp add: word_le_nat_alt)
    then show ?thesis using utf16_units_length(2) False by simp
  qed (simp add: utf16_units_length)
  then have "count8 (c # p) e \<ge> length (utf16_units r) + count8 p' e'"
    using False assms(2) r(3) k by simp
  moreover have "getUtf32FromUtf8 (c # p) = Inr (r, p')"
    using False assms(2) r(1) by (simp add: Let_def)
  ultimately show ?thesis using r by blast
qed

lemma decode_length:
  assumes "0 \<in> set s" and "e \<le> 0 \<or> \<not> continuation (hd s)"
  shows "length (decode s) \<le> count8 s e"
  using assms
proof (induction s arbitrary: e rule: decode.induct)
  case (1 s)
  show ?case
  proof (cases "s = [] \<or> hd s = 0")
    case True
    then show ?thesis by (subst decode.simps) (auto split: list.split)
  next
    case False
    then obtain c p where s: "s = c # p" "c \<noteq> 0" by (cases s) auto
    obtain r p' e' where g: "getUtf32FromUtf8 (c # p) = Inr (r, p')" "0 \<in> set p'"
      "e' \<le> 0 \<or> \<not> continuation (hd p')"
      "count8 (c # p) e \<ge> length (utf16_units r) + count8 p' e'"
      using getUtf32_total [of c p e] "1.prems" s by auto
    have "length (decode p') \<le> count8 p' e'"
      using "1.IH" [OF s _ refl] s g by auto
    moreover have "decode s = utf16_units r @ decode p'"
      using g(1) s by (subst decode.simps) (simp del: getUtf32FromUtf8.simps)
    ultimately show ?thesis using g(4) s by simp
  qed
qed

lemma strcpy_loop_eq:
  assumes "0 \<in> set s" and "dest + length (decode s) \<le> length buf"
  shows "strcpy_loop s buf dest =
     Inr (take dest buf @ decode s @ drop (dest + length (decode s)) buf, dest + length (decode s))"
  using assms
proof (induction s arbitrary: buf dest rule: decode.induct)
  case (1 s)
  show ?case
  proof (cases "s = [] \<or> hd s = 0")
    case True
    then have "decode s = []" "strcpy_loop s buf dest = Inr (buf, dest)"
      using "1.prems"(1) by (auto simp: decode.simps [of s] strcpy_loop.simps [of s] split: list.split)
    then show ?thesis by simp
  next
    case False
    then obtain c p where s: "s = c # p" "c \<noteq> 0" by (cases s) auto
    obtain r p' where g: "getUtf32FromUtf8 (c # p) = Inr (r, p')" "0 \<in> set p'"
      using getUtf32_total [of c p 0] "1.prems" s by auto
    let ?u = "utf16_units r"
    have d: "decode s = ?u @ decode p'"
      using g(1) s by (subst decode.simps) (simp del: getUtf32FromUtf8.simps)
    define buf' where "buf' = take dest buf @ ?u @ drop (dest + length ?u) buf"
    have room: "dest + length ?u \<le> length buf" using "1.prems"(2) d by simp
    have st: "store_list buf dest ?u = Inr buf'" using store_list_ok [OF room] by (simp add: buf'_def)
    have len: "length buf' = length buf" using room by (simp add: buf'_def)
    have "strcpy_loop s buf dest = strcpy_loop p' buf' (dest + length ?u)"
      using g(1) s st by (subst strcpy_loop.simps) (simp del: getUtf32FromUtf8.simps)
    also have "\<dots> = Inr (take (dest + length ?u) buf' @ decode p' @
        drop (dest + length ?u + length (decode p')) buf', dest + length ?u + length (decode p'))"
      using "1.IH" [OF s _ refl] s g "1.prems"(2) d len by (simp del: getUtf32FromUtf8.simps)
    also have "take (dest + length ?u) buf' @ decode p' @ drop (dest + length ?u + length (decode p')) buf'
        = take dest buf @ decode s @ drop (dest + length (decode s)) buf"
      using room d by (simp add: buf'_def ac_simps)
    finally show ?thesis using d by (simp add: ac_simps)
  qed
qed

lemma strlen8to16_fits:
  assumes "0 \<in> set s" and "2 * length s < 2147483648"
  shows "strlen8to16 s = Inr (of_nat (count8 s 0))" and "unat (of_nat (count8 s 0) :: size_t) = count8 s 0"
    and "\<not> ((of_nat (count8 s 0) :: size_t) \<noteq> 0 \<and> SIZE_MAX div of_nat (count8 s 0) < 2)"
proof -
  let ?n = "count8 s 0"
  have n: "?n < 2147483648" using count8_le [of s 0] assms(2) by linarith
  then show u: "unat (of_nat ?n :: size_t) = ?n" by (simp add: unat_of_nat)
  show "strlen8to16 s = Inr (of_nat ?n)"
    using strlen_loop_eq [OF assms(1), of 0 0] by (simp add: strlen8to16_def)
  show "\<not> ((of_nat ?n :: size_t) \<noteq> 0 \<and> SIZE_MAX div of_nat ?n < 2)"
  proof
    assume a: "(of_nat ?n :: size_t) \<noteq> 0 \<and> SIZE_MAX div of_nat ?n < 2"
    then have "0 < ?n" by (cases ?n) auto
    moreover have "4294967295 div ?n < 2"
      using a SIZE_MAX_facts(1) u by (simp add: word_less_nat_alt unat_div)
    ultimately show False using n by (simp add: div_less_iff_less_mult)
  qed
qed

lemma strdup8to16_eq:
  assumes "0 \<in> set s" and "2 * length s < 2147483648"
  shows "\<exists>rest. strdup8to16 True junk (Some s) = Inr (Some (decode s @ rest, length (decode s))) \<and>
     strlen8to16 s = Inr (of_nat (length (decode s) + length rest))"
proof -
  let ?n = "count8 s 0"
  have le: "length (decode s) \<le> ?n" using decode_length [OF assms(1), of 0] by simp
  have "strcpy8to16 (map junk [0..<?n]) s =
      Inr (decode s @ drop (length (decode s)) (map junk [0..<?n]), length (decode s))"
    using strcpy_loop_eq [OF assms(1), of 0 "map junk [0..<?n]"] le by (simp add: strcpy8to16_def)
  then show ?thesis
    using le strlen8to16_fits [OF assms]
    by (intro exI [of _ "drop (length (decode s)) (map junk [0..<?n])"])
      (simp add: strdup8to16_def malloc_buf_def)
qed

text \<open>The result of the allocation is not checked: without memory a non-empty string is written
  through the null pointer.\<close>

lemma strdup8to16_null_write:
  assumes "0 \<in> set (c # s)" and "2 * length (c # s) < 2147483648" and "c \<noteq> 0"
  shows "strdup8to16 False junk (Some (c # s)) = Inl BadWrite"
proof -
  obtain r p' where g: "getUtf32FromUtf8 (c # s) = Inr (r, p')"
    using getUtf32_total [of c s 0] assms(1,3) by auto
  have "store_list [] 0 (utf16_units r) = Inl BadWrite"
    by (cases "utf16_units r") (use utf16_units_not_Nil [of r] in auto)
  then have "strcpy8to16 [] (c # s) = Inl BadWrite"
    using g assms(3) unfolding strcpy8to16_def
    by (subst strcpy_loop.simps) (simp del: getUtf32FromUtf8.simps)
  then show ?thesis
    using strlen8to16_fits [OF assms(1,2)]
    by (simp add: strdup8to16_def malloc_buf_def del: count8.simps)
qed

subsection \<open>The round trip\<close>

lemma ucast_u16_eq_0: "(ucast (u :: u16) :: u32) = 0 \<longleftrightarrow> unat u = 0"
  by (simp only: word_unat_eq_iff unat_ucast_up unat_0)

lemma getUtf32_encode_unit:
  "\<exists>c p. encode_unit u = c # p \<and> c \<noteq> 0 \<and> getUtf32FromUtf8 (encode_unit u @ rest) = Inr (ucast u, rest)"
proof -
  have m: "(0xff :: u32) = mask 8" "(0x1f :: u32) = mask 5" "(0x0f :: u32) = mask 4"
    by (simp_all add: mask_eq_exp_minus_1)
  have low: "(x mod 64 + 128) mod 64 = x mod 64" "(x + 192) mod 32 = x mod 32" for x :: nat
    using mod_mult_self1 [of "x mod 64" 2 64] mod_mult_self1 [of x 6 32] by simp_all
  consider (three) "2047 < unat u" | (two) "unat u \<le> 2047" "127 < unat u \<or> unat u = 0"
    | (one) "unat u \<le> 127" "unat u \<noteq> 0" by linarith
  then show ?thesis
  proof cases
    case three
    obtain a b c where e: "encode_unit u = [a, b, c]" "unat a = unat u div 4096 + 224"
      "unat b = unat u div 64 mod 64 + 128" "unat c = unat u mod 64 + 128"
      using three unat_encode3 [of u]
      by (auto simp: encode_unit_def Let_def word_less_nat_alt encode3_def)
    have hi: "unat u div 4096 < 16" using unat_bounds(2) [of u] by simp
    have cont: "continuation b" "continuation c" "\<not> continuation a" "b \<noteq> 0" "c \<noteq> 0" "a \<noteq> 0"
      using e hi by (auto simp: continuation_iff)
    have seq: "UTF8_SEQ_LENGTH a = 3" using e(2) hi by (simp add: UTF8_SEQ_LENGTH_eq)
    let ?r = "ucast a AND (0x0f :: u32)"
    have r0: "unat ?r = unat u div 4096"
      unfolding m unat_and_mask unat_ucast_up e(2)
      using hi mod_mult_self1 [of "unat u div 4096" 14 16] by simp
    have r1: "unat (UTF8_SHIFT_AND_MASK ?r b) = unat u div 4096 * 64 + unat u div 64 mod 64"
      using r0 hi e(3) low by (subst unat_shift_and_mask) simp_all
    have "unat (UTF8_SHIFT_AND_MASK (UTF8_SHIFT_AND_MASK ?r b) c) =
        (unat u div 4096 * 64 + unat u div 64 mod 64) * 64 + unat u mod 64"
      using r1 hi e(4) low by (subst unat_shift_and_mask) simp_all
    also have "\<dots> = unat u"
      using div_mult2_eq [of "unat u" 64 64] by (simp add: mult.commute)
    finally have "UTF8_SHIFT_AND_MASK (UTF8_SHIFT_AND_MASK ?r b) c = ucast u"
      by (simp add: word_unat_eq_iff)
    then show ?thesis
      using e(1) cont seq by (simp add: Let_def leaderMask_def numeral_3_eq_3)
  next
    case two
    obtain a b where e: "encode_unit u = [a, b]" "unat a = unat u div 64 + 192"
      "unat b = unat u mod 64 + 128"
      using two unat_encode2 [of u]
      by (auto simp: encode_unit_def Let_def word_less_nat_alt encode2_def ucast_u16_eq_0)
    have hi: "unat u div 64 < 32" using two by simp
    have cont: "continuation b" "\<not> continuation a" "b \<noteq> 0" "a \<noteq> 0"
      using e by (auto simp: continuation_iff)
    have seq: "UTF8_SEQ_LENGTH a = 2" using e(2) hi by (simp add: UTF8_SEQ_LENGTH_eq)
    let ?r = "ucast a AND (0x1f :: u32)"
    have r0: "unat ?r = unat u div 64"
      unfolding m unat_and_mask unat_ucast_up e(2) using hi low(2) by simp
    have "unat (UTF8_SHIFT_AND_MASK ?r b) = unat u"
      using r0 hi e(3) low by (subst unat_shift_and_mask) simp_all
    then have "UTF8_SHIFT_AND_MASK ?r b = ucast u" by (simp add: word_unat_eq_iff)
    then show ?thesis
      using e(1) cont seq by (simp add: Let_def leaderMask_def numeral_2_eq_2)
  next
    case one
    then have e: "encode_unit u = [ucast (ucast u :: u32)]"
      by (simp add: encode_unit_def Let_def word_less_nat_alt word_unat_eq_iff)
    let ?a = "ucast (ucast u :: u32) :: u8"
    have a: "unat ?a = unat u" using one by (subst unat_ucast_down) simp_all
    then have cont: "\<not> continuation ?a" "?a \<noteq> 0" "UTF8_SEQ_LENGTH ?a = 1"
      using one by (auto simp: continuation_iff UTF8_SEQ_LENGTH_eq)
    have "unat (ucast ?a AND (0xff :: u32)) = unat u"
      unfolding m unat_and_mask unat_ucast_up a using one by simp
    then have "ucast ?a AND (0xff :: u32) = ucast u" by (simp add: word_unat_eq_iff)
    then show ?thesis using e cont by (simp add: Let_def leaderMask_def)
  qed
qed

lemma decode_encode: "decode (encode s @ 0 # t) = s"
proof (induction s)
  case Nil
  show ?case by (subst decode.simps) simp
next
  case (Cons u s)
  obtain c p where e: "encode_unit u = c # p" "c \<noteq> 0"
    "getUtf32FromUtf8 (encode_unit u @ encode s @ 0 # t) = Inr (ucast u, encode s @ 0 # t)"
    using getUtf32_encode_unit [of u "encode s @ 0 # t"] by auto
  have "utf16_units (ucast u) = [u]"
  proof -
    have "(ucast u :: u32) \<le> 0xffff" using unat_bounds(2) [of u] by (simp add: word_le_nat_alt)
    moreover have "ucast (ucast u :: u32) = u"
      using unat_bounds(2) [of u] by (simp add: word_unat_eq_iff unat_ucast_mod)
    ultimately show ?thesis by (simp add: utf16_units_def)
  qed
  then show ?case using e Cons by (subst decode.simps) (simp del: getUtf32FromUtf8.simps)
qed

subsection \<open>The version with a length\<close>

lemma seq_loop_split:
  assumes "seq_loop n ret (p @ 0 # rest) = Inr (r, q)" and "0 \<notin> set p"
  shows "\<exists>p'. q = p' @ 0 # rest \<and> 0 \<notin> set p' \<and> length p' \<le> length p"
  using assms
proof (induction p arbitrary: n ret)
  case Nil
  then show ?case by (cases n) auto
next
  case (Cons b p)
  show ?case
  proof (cases "n = 0 \<or> \<not> continuation b")
    case True
    then have "q = b # p @ 0 # rest" using Cons.prems by (cases n) auto
    then show ?thesis using Cons.prems(2) by (intro exI [of _ "b # p"]) simp
  next
    case False
    then obtain m where "n = Suc m" by (cases n) auto
    then obtain p' where "q = p' @ 0 # rest" "0 \<notin> set p'" "length p' \<le> length p"
      using Cons.IH [of m "UTF8_SHIFT_AND_MASK ret b"] Cons.prems False by auto
    then show ?thesis by auto
  qed
qed

lemma getUtf32_split:
  assumes "getUtf32FromUtf8 (p @ 0 # rest) = Inr (r, q)" and "0 \<notin> set p" and "p \<noteq> []"
  shows "\<exists>p'. q = p' @ 0 # rest \<and> 0 \<notin> set p' \<and> length p' < length p"
proof -
  obtain b p1 where p: "p = b # p1" using assms(3) by (cases p) auto
  show ?thesis
  proof (cases "continuation b")
    case True
    then show ?thesis using assms p by auto
  next
    case False
    then obtain p' where "q = p' @ 0 # rest" "0 \<notin> set p'" "length p' \<le> length p1"
      using assms p seq_loop_split [of _ _ p1 rest r q] by (auto simp: Let_def)
    then show ?thesis using p by auto
  qed
qed

lemma strcpylen_loop_agrees:
  "0 \<notin> set p \<Longrightarrow>
   strcpylen_loop (p @ 0 # rest) (int (length p)) buf dest = strcpy_loop (p @ 0 # rest) buf dest"
proof (induction p arbitrary: buf dest rule: length_induct)
  case (1 p)
  show ?case
  proof (cases "p = []")
    case True
    then show ?thesis by (simp add: strcpylen_loop.simps strcpy_loop.simps)
  next
    case False
    let ?s = "p @ 0 # rest"
    have c: "strcpy_loop ?s buf dest =
        (case getUtf32FromUtf8 ?s of Inl e \<Rightarrow> Inl e
         | Inr (ret, s') \<Rightarrow> (case store_list buf dest (utf16_units ret) of Inl e \<Rightarrow> Inl e
             | Inr buf' \<Rightarrow> strcpy_loop s' buf' (dest + length (utf16_units ret))))"
      using False "1.prems"
      by (subst strcpy_loop.simps) (cases p; simp del: getUtf32FromUtf8.simps)
    show ?thesis
    proof (cases "getUtf32FromUtf8 ?s")
      case (Inl e)
      then show ?thesis using c False by (subst strcpylen_loop.simps) simp
    next
      case (Inr rq)
      obtain r q where rq: "rq = (r, q)" by (cases rq)
      obtain p' where p': "q = p' @ 0 # rest" "0 \<notin> set p'" "length p' < length p"
        using getUtf32_split [of p rest r q] Inr rq "1.prems" False by auto
      have left: "int (length p) - (int (length ?s) - int (length q)) = int (length p')"
        using p' by simp
      show ?thesis
        unfolding c by (subst strcpylen_loop.simps)
          (use Inr rq False left "1.IH" p' in \<open>simp split: sum.split\<close>)
    qed
  qed
qed

lemma strcpylen_loop_at_NUL:
  "0 < left \<Longrightarrow> dest \<le> length buf \<Longrightarrow> strcpylen_loop (0 # p) left buf dest = Inl BadWrite"
proof (induction "length buf - dest" arbitrary: buf dest)
  case 0
  have "getUtf32FromUtf8 (0 # p) = Inr (0, 0 # p)" by (simp add: Let_def continuation_def)
  moreover have "utf16_units 0 = [0]" by (simp add: utf16_units_def)
  ultimately show ?case using 0 by (subst strcpylen_loop.simps) simp
next
  case (Suc n)
  have "getUtf32FromUtf8 (0 # p) = Inr (0, 0 # p)" by (simp add: Let_def continuation_def)
  moreover have "utf16_units 0 = [0]" by (simp add: utf16_units_def)
  moreover have "strcpylen_loop (0 # p) left (buf[dest := 0]) (Suc dest) = Inl BadWrite"
    using Suc by (intro Suc.hyps(1)) auto
  moreover have "dest < length buf" using Suc by linarith
  ultimately show ?case using Suc.prems by (subst strcpylen_loop.simps) simp
qed

lemma store_list_fault: "store_list buf i xs = Inl e \<Longrightarrow> e = BadWrite"
  by (induction buf i xs rule: store_list.induct) (auto split: if_splits)

lemma store_list_fits: "store_list buf i xs = Inr buf' \<Longrightarrow> i \<le> length buf \<Longrightarrow> i + length xs \<le> length buf"
  by (induction buf i xs rule: store_list.induct) (auto split: if_splits)

text \<open>The scan never passes a zero byte, so a length that reaches beyond it is never used up.\<close>

lemma strcpylen_loop_past_NUL:
  "0 \<notin> set p \<Longrightarrow> int (length p) < left \<Longrightarrow> dest \<le> length buf \<Longrightarrow> strcpylen_loop (p @ 0 # rest) left buf dest = Inl BadWrite"
proof (induction p arbitrary: left buf dest rule: length_induct)
  case (1 p)
  show ?case
  proof (cases "p = []")
    case True
    then show ?thesis using "1.prems" strcpylen_loop_at_NUL by simp
  next
    case False
    let ?s = "p @ 0 # rest"
    obtain c p1 where p: "p = c # p1" "c \<noteq> 0" using False "1.prems"(1) by (cases p) auto
    obtain r q where g: "getUtf32FromUtf8 ?s = Inr (r, q)"
      using getUtf32_total [of c "p1 @ 0 # rest" 0] p by auto
    obtain p' where p': "q = p' @ 0 # rest" "0 \<notin> set p'" "length p' < length p"
      using getUtf32_split [OF g "1.prems"(1) False] by blast
    show ?thesis
    proof (cases "store_list buf dest (utf16_units r)")
      case (Inl e)
      then show ?thesis using g "1.prems"(2) store_list_fault [OF Inl] by (subst strcpylen_loop.simps) simp
    next
      case (Inr buf')
      have "strcpylen_loop (p' @ 0 # rest) (left - (int (length ?s) - int (length q))) buf' (dest + length (utf16_units r)) = Inl BadWrite"
        using "1.IH" p' "1.prems"(2,3) store_list_fits [OF Inr "1.prems"(3)] store_list_length [OF Inr] by simp
      then show ?thesis using g Inr "1.prems"(2) p'(1) by (subst strcpylen_loop.simps) simp
    qed
  qed
qed

subsection \<open>Properties of the conversions\<close>

text \<open>
  C6. Round trip: for every UTF-16 string (surrogates, unpaired surrogates and embedded zeros
  included) whose modified UTF-8 fits the limits, \<open>strndup16to8\<close> followed by \<open>strdup8to16\<close> stays
  inside its buffers and gives the string back, with its length in \<open>*out_len\<close>.
\<close>

theorem strdup_roundtrip:
  assumes "6 * length s + 2 < 2147483648"
  shows "\<exists>utf8 rest. strndup16to8 True junk8 (Some s) (of_nat (length s)) = Inr (Some utf8) \<and>
     strdup8to16 True junk16 (Some utf8) = Inr (Some (s @ rest, length s))"
proof -
  have n: "unat (of_nat (length s) :: size_t) = length s" using assms by (simp add: unat_of_nat)
  have e: "length (encode s) \<le> 3 * length s" by (rule encode_length)
  have 1: "strndup16to8 True junk8 (Some s) (of_nat (length s)) = Inr (Some (encode s @ [0]))"
    using strndup16to8_eq [of "of_nat (length s)" s junk8] n e assms by simp
  have "decode (encode s @ [0]) = s" using decode_encode [of s "[]"] by simp
  then show ?thesis
    using 1 strdup8to16_eq [of "encode s @ [0]" junk16] e assms by fastforce
qed

theorem strdup_roundtrip_witness:
  "\<exists>utf8 rest. strndup16to8 True (\<lambda>_. 7) (Some [0, 0x41, 0xd83d, 0x7ff]) 4 = Inr (Some utf8) \<and>
     strdup8to16 True (\<lambda>_. 9) (Some utf8) = Inr (Some ([0, 0x41, 0xd83d, 0x7ff] @ rest, 4))"
proof -
  have l: "length [0, 0x41, 0xd83d, 0x7ff :: u16] = 4" by simp
  show ?thesis
    using strdup_roundtrip [of "[0, 0x41, 0xd83d, 0x7ff]" "\<lambda>_. 7" "\<lambda>_. 9"] unfolding l by simp
qed

text \<open>
  C21. \<open>strdup8to16\<close> is memory safe on every NUL-terminated string, well-formed UTF-8 or not: the
  scan stops at the terminator, the units written never exceed the count \<open>strlen8to16\<close> allocates
  for (which the two passes compute independently), and the call returns a buffer.
\<close>

theorem strdup8to16_safe:
  assumes "0 \<in> set s" and "2 * length s < 2147483648"
  shows "\<exists>units rest. strdup8to16 True junk (Some s) = Inr (Some (units @ rest, length units)) \<and>
     strlen8to16 s = Inr (of_nat (length units + length rest))"
  using strdup8to16_eq [OF assms, of junk] by blast

theorem strdup8to16_safe_witness:
  "\<exists>units rest. strdup8to16 True (\<lambda>_. 0) (Some [0xf0, 0x41, 0x80, 0x80, 0]) =
       Inr (Some (units @ rest, length units)) \<and>
     strlen8to16 [0xf0, 0x41, 0x80, 0x80, 0] = Inr (of_nat (length units + length rest))"
  using strdup8to16_safe [of "[0xf0, 0x41, 0x80, 0x80, 0]" "\<lambda>_. 0"] by simp

text \<open>
  \<open>strnlen16to8\<close> computes the encoded size, saturating at \<open>SIZE_MAX - 1\<close> whatever the
  length and although the sums wrap; so \<open>strndup16to8\<close> allocates one byte more than the size,
  writes exactly the encoding and its terminator, which is the only zero byte, and returns NULL
  exactly when the size saturates or the allocation fails.
\<close>

theorem strndup16to8_exact:
  assumes "unat n \<le> length s"
  shows "strnlen16to8 s n = Inr (of_nat (min (length (encode (take (unat n) s))) 4294967294)) \<and>
     strndup16to8 malloc_ok junk (Some s) n =
       Inr (if length (encode (take (unat n) s)) < 4294967294 \<and> malloc_ok
            then Some (encode (take (unat n) s) @ [0]) else None) \<and>
     0 \<notin> set (encode (take (unat n) s))"
proof -
  let ?e = "encode (take (unat n) s)"
  have len: "strnlen16to8 s n = Inr (of_nat (min (length ?e) 4294967294))"
    by (rule strnlen16to8_eq [OF assms])
  have "0 \<notin> set (encode_unit u)" for u
  proof -
    have "0 \<notin> set (map unat (encode3 (ucast u)))"
      "unat u \<le> 2047 \<Longrightarrow> 0 \<notin> set (map unat (encode2 (ucast u)))"
      using unat_encode3 [of u] unat_encode2 [of u] by simp_all
    moreover have "unat u \<le> 127 \<Longrightarrow> unat u \<noteq> 0 \<Longrightarrow> unat (ucast (ucast u :: u32) :: u8) \<noteq> 0"
      by (subst unat_ucast_down) simp_all
    moreover have "0 \<in> set xs \<Longrightarrow> 0 \<in> set (map unat xs)" for xs :: "u8 list" by force
    ultimately show ?thesis
      by (cases "unat u \<le> 127 \<and> unat u \<noteq> 0"; cases "unat u \<le> 2047")
        (auto simp: encode_unit_def Let_def word_less_nat_alt ucast_u16_eq_0)
  qed
  then have nz: "0 \<notin> set ?e" by (simp add: encode_def)
  show ?thesis
  proof (cases "length ?e < 4294967294 \<and> malloc_ok")
    case True
    then show ?thesis using len nz strndup16to8_eq [OF assms, of junk] by simp
  next
    case False
    have "strndup16to8 malloc_ok junk (Some s) n = Inr None"
    proof (cases "length ?e < 4294967294")
      case True
      then show ?thesis using False len by (simp add: strndup16to8_def malloc_buf_def)
    next
      case False
      then have "strnlen16to8 s n = Inr (SIZE_MAX - 1)" using len by (simp add: SIZE_MAX_def)
      then show ?thesis by (simp add: strndup16to8_def)
    qed
    then show ?thesis using False len nz by simp
  qed
qed

theorem strndup16to8_exact_witness:
  "strndup16to8 True (\<lambda>_. 1) (Some [0x20ac, 0, 0x7a]) 3 =
     Inr (Some [0xe2, 0x82, 0xac, 0xc0, 0x80, 0x7a, 0])"
  using strndup16to8_exact [of 3 "[0x20ac, 0, 0x7a]" True "\<lambda>_. 1"]
  by (simp add: encode_unit_def encode3_def encode2_def Let_def)

text \<open>
  C39. \<open>strcpylen8to16\<close> agrees with \<open>strcpy8to16\<close> when its length reaches just to the terminator;
  but whenever a zero byte lies before the given length, wherever it is, the scan does not advance past it and writes zeros
  until it leaves the destination buffer, whatever the size of the buffer.
\<close>

theorem strcpylen8to16_behaviour:
  assumes "0 \<notin> set p"
  shows "strcpylen8to16 buf (p @ 0 # rest) (int (length p)) = strcpy8to16 buf (p @ 0 # rest) \<and>
     (int (length p) < len \<longrightarrow> strcpylen8to16 buf (p @ 0 # rest) len = Inl BadWrite)"
  using strcpylen_loop_agrees [OF assms] strcpylen_loop_past_NUL [OF assms, of len 0 buf rest]
  by (simp add: strcpylen8to16_def strcpy8to16_def)

theorem strcpylen8to16_behaviour_witness:
  "strcpylen8to16 [0, 0] [0x41, 0x42, 0, 0x43] 2 = strcpy8to16 [0, 0] [0x41, 0x42, 0, 0x43] \<and>
   strcpylen8to16 [0, 0] [0x41, 0x42, 0, 0x43] 4 = Inl BadWrite"
  using strcpylen8to16_behaviour [of "[0x41, 0x42]" "[0, 0]" "[0x43]" 4] by simp

end
