(* ===== verification/Cutils_Array.thy ===== *)
theory Cutils_Array
  imports Prelude_C
begin

text \<open>
  The growable pointer array of \<open>libcutils/array.c\<close>. A pointer is a 32-bit word, NULL is 0; the
  contents are the list of the allocated slots, so an index outside it is an access outside the
  allocation. Allocations are a success flag and the arbitrary contents of new memory. A failed
  \<open>assert\<close> and an access outside the allocation are fault values. The array argument of an
  operation is an array that exists (the \<open>array != NULL\<close> of its assertions); \<open>arrayFree\<close> is
  modelled with the null case.
\<close>

type_synonym void_ptr = u32

record Array =
  arr_contents :: "void_ptr list option"
  arr_size :: int
  arr_capacity :: int

datatype array_fault = AssertFailed | BadAccess

definition INITIAL_CAPACITY :: int where "INITIAL_CAPACITY = 4"
definition MAX_CAPACITY :: int where "MAX_CAPACITY = 4294967295 div 4"

subsection \<open>Operations\<close>

definition arrayCreate :: "bool \<Rightarrow> Array option" where
  "arrayCreate calloc_ok =
     (if calloc_ok then Some \<lparr> arr_contents = None, arr_size = 0, arr_capacity = 0 \<rparr> else None)"

text \<open>The blocks that are freed: the contents, which may be NULL, and the array itself.\<close>

definition arrayFree :: "Array option \<Rightarrow> array_fault + (void_ptr list option \<times> Array)" where
  "arrayFree array = (case array of None \<Rightarrow> Inl AssertFailed | Some a \<Rightarrow> Inr (arr_contents a, a))"

partial_function (option) double_capacity :: "int \<Rightarrow> int \<Rightarrow> int option" where
  "double_capacity newCapacity cap =
     (if newCapacity < cap then
        let newCap = s32 (newCapacity * 2);
            newCap' = (if newCap < newCapacity \<or> newCap > MAX_CAPACITY then MAX_CAPACITY else newCap)
        in double_capacity newCap' cap
      else Some newCapacity)"

text \<open>The result \<open>None\<close> would be a doubling loop that does not end.\<close>

definition ensureCapacity ::
  "bool \<Rightarrow> (nat \<Rightarrow> void_ptr) \<Rightarrow> Array \<Rightarrow> int \<Rightarrow> (Array \<times> int) option" where
  "ensureCapacity malloc_ok junk array cap =
     (let oldCapacity = arr_capacity array in
      if cap > oldCapacity then
        let newCapacity0 = (if oldCapacity = 0 then INITIAL_CAPACITY else oldCapacity) in
        if cap > MAX_CAPACITY then Some (array, -1)
        else
          (case double_capacity newCapacity0 cap of
             None \<Rightarrow> None
           | Some newCapacity \<Rightarrow>
               if newCapacity < 0 \<or> newCapacity > MAX_CAPACITY then Some (array, -1)
               else
                 (case arr_contents array of
                    None \<Rightarrow>
                      if malloc_ok
                      then Some (array\<lparr> arr_capacity := newCapacity,
                                   arr_contents := Some (map junk [0..<nat newCapacity]) \<rparr>, 0)
                      else Some (array, -1)
                  | Some old \<Rightarrow>
                      if malloc_ok
                      then Some (array\<lparr> arr_capacity := newCapacity,
                                   arr_contents := Some (take (nat newCapacity) old @
                                       map junk [length old..<nat newCapacity]) \<rparr>, 0)
                      else Some (array, -1)))
      else Some (array, 0))"

definition store_slot :: "Array \<Rightarrow> int \<Rightarrow> void_ptr \<Rightarrow> array_fault + Array" where
  "store_slot array index p =
     (case arr_contents array of
        None \<Rightarrow> Inl BadAccess
      | Some c \<Rightarrow>
          if 0 \<le> index \<and> nat index < length c then Inr (array\<lparr> arr_contents := Some (c[nat index := p]) \<rparr>)
          else Inl BadAccess)"

definition load_slot :: "Array \<Rightarrow> int \<Rightarrow> array_fault + void_ptr" where
  "load_slot array index =
     (case arr_contents array of
        None \<Rightarrow> Inl BadAccess
      | Some c \<Rightarrow> if 0 \<le> index \<and> nat index < length c then Inr (c ! nat index) else Inl BadAccess)"

definition arrayAdd ::
  "bool \<Rightarrow> (nat \<Rightarrow> void_ptr) \<Rightarrow> Array \<Rightarrow> void_ptr \<Rightarrow> (array_fault + (Array \<times> int)) option" where
  "arrayAdd malloc_ok junk array pointer =
     (let sz = arr_size array in
      case ensureCapacity malloc_ok junk array (s32 (sz + 1)) of
        None \<Rightarrow> None
      | Some (array', result) \<Rightarrow>
          if result < 0 then Some (Inr (array', result))
          else Some (case store_slot array' sz pointer of
                       Inl e \<Rightarrow> Inl e
                     | Inr array'' \<Rightarrow> Inr (array''\<lparr> arr_size := s32 (arr_size array'' + 1) \<rparr>, 0)))"

definition checkBounds :: "Array \<Rightarrow> int \<Rightarrow> bool" where
  "checkBounds array index \<longleftrightarrow> index < arr_size array \<and> index \<ge> 0"

definition arrayGet :: "Array \<Rightarrow> int \<Rightarrow> array_fault + void_ptr" where
  "arrayGet array index =
     (if checkBounds array index then load_slot array index else Inl AssertFailed)"

text \<open>\<open>memmove\<close> and \<open>memset\<close> by slots.\<close>

definition move_slots :: "Array \<Rightarrow> int \<Rightarrow> int \<Rightarrow> int \<Rightarrow> array_fault + Array" where
  "move_slots array dst src n =
     (case arr_contents array of
        None \<Rightarrow> Inl BadAccess
      | Some c \<Rightarrow>
          if 0 \<le> dst \<and> 0 \<le> src \<and> 0 \<le> n \<and> dst + n \<le> int (length c) \<and> src + n \<le> int (length c)
          then Inr (array\<lparr> arr_contents := Some (take (nat dst) c @ take (nat n) (drop (nat src) c) @
                 drop (nat (dst + n)) c) \<rparr>)
          else Inl BadAccess)"

definition clear_slots :: "Array \<Rightarrow> int \<Rightarrow> int \<Rightarrow> array_fault + Array" where
  "clear_slots array start n =
     (case arr_contents array of
        None \<Rightarrow> Inl BadAccess
      | Some c \<Rightarrow>
          if 0 \<le> start \<and> 0 \<le> n \<and> start + n \<le> int (length c)
          then Inr (array\<lparr> arr_contents :=
                 Some (take (nat start) c @ replicate (nat n) 0 @ drop (nat (start + n)) c) \<rparr>)
          else Inl BadAccess)"

definition arrayRemove :: "Array \<Rightarrow> int \<Rightarrow> array_fault + (Array \<times> void_ptr)" where
  "arrayRemove array index =
     (if \<not> checkBounds array index then Inl AssertFailed
      else
        (case load_slot array index of
           Inl e \<Rightarrow> Inl e
         | Inr pointer \<Rightarrow>
             let newSize = arr_size array - 1 in
             (case (if index \<noteq> newSize then move_slots array index (index + 1) (newSize - index)
                    else Inr array) of
                Inl e \<Rightarrow> Inl e
              | Inr array' \<Rightarrow> Inr (array'\<lparr> arr_size := newSize \<rparr>, pointer))))"

definition arraySet :: "Array \<Rightarrow> int \<Rightarrow> void_ptr \<Rightarrow> array_fault + (Array \<times> void_ptr)" where
  "arraySet array index pointer =
     (if \<not> checkBounds array index then Inl AssertFailed
      else
        (case load_slot array index of
           Inl e \<Rightarrow> Inl e
         | Inr old \<Rightarrow>
             (case store_slot array index pointer of
                Inl e \<Rightarrow> Inl e
              | Inr array' \<Rightarrow> Inr (array', old))))"

text \<open>The \<open>memset\<close> starts at \<open>contents + sizeof(void*) * oldSize\<close>: the addition to a pointer
  to slots scales a second time, so it starts at slot \<open>4 * oldSize\<close>.\<close>

definition arraySetSize ::
  "bool \<Rightarrow> (nat \<Rightarrow> void_ptr) \<Rightarrow> Array \<Rightarrow> int \<Rightarrow> (array_fault + (Array \<times> int)) option" where
  "arraySetSize malloc_ok junk array newSize =
     (if newSize < 0 then Some (Inl AssertFailed)
      else
        let oldSize = arr_size array in
        if newSize > oldSize then
          (case ensureCapacity malloc_ok junk array newSize of
             None \<Rightarrow> None
           | Some (array', result) \<Rightarrow>
               if result < 0 then Some (Inr (array', result))
               else Some (case clear_slots array' (4 * oldSize) (newSize - oldSize) of
                            Inl e \<Rightarrow> Inl e
                          | Inr array'' \<Rightarrow> Inr (array''\<lparr> arr_size := newSize \<rparr>, 0)))
        else Some (Inr (array\<lparr> arr_size := newSize \<rparr>, 0)))"

definition arraySize :: "Array \<Rightarrow> int" where
  "arraySize array = arr_size array"

definition arrayUnwrap :: "Array \<Rightarrow> void_ptr list option" where
  "arrayUnwrap array = arr_contents array"

subsection \<open>Invariant\<close>

definition array_inv :: "Array \<Rightarrow> bool" where [inv_defs]:
  "array_inv a \<longleftrightarrow> 0 \<le> arr_size a \<and> arr_size a \<le> arr_capacity a \<and> arr_capacity a \<le> MAX_CAPACITY \<and>
     (case arr_contents a of None \<Rightarrow> arr_capacity a = 0 | Some c \<Rightarrow> arr_capacity a = int (length c) \<and> 0 < arr_capacity a)"

definition slots :: "Array \<Rightarrow> void_ptr list" where
  "slots a = (case arr_contents a of None \<Rightarrow> [] | Some c \<Rightarrow> c)"

definition elems :: "Array \<Rightarrow> void_ptr list" where
  "elems a = take (nat (arr_size a)) (slots a)"

lemma slots_simps [simp]:
  "slots (a\<lparr> arr_contents := Some c \<rparr>) = c" "slots (a\<lparr> arr_contents := Some c, arr_size := n \<rparr>) = c"
  "slots (a\<lparr> arr_size := n \<rparr>) = slots a"
  by (simp_all add: slots_def)

lemma MAX_CAPACITY_eq: "MAX_CAPACITY = 1073741823"
  by (simp add: MAX_CAPACITY_def)

lemma array_inv_slots:
  assumes "array_inv a"
  shows "arr_capacity a = int (length (slots a))" "length (elems a) = nat (arr_size a)"
    "0 \<le> arr_size a" "arr_size a \<le> arr_capacity a" "arr_capacity a \<le> MAX_CAPACITY" "0 \<le> arr_capacity a"
    "0 < arr_capacity a \<Longrightarrow> arr_contents a = Some (slots a)"
  using assms by (auto simp: inv_defs slots_def elems_def split: option.splits)

subsection \<open>Growing\<close>

lemma double_capacity_total:
  assumes "1 \<le> n" "n \<le> MAX_CAPACITY" "cap \<le> MAX_CAPACITY"
  shows "\<exists>m. double_capacity n cap = Some m \<and> cap \<le> m \<and> n \<le> m \<and> m \<le> MAX_CAPACITY \<and>
    (n < cap \<longrightarrow> m < 2 * cap)"
  using assms
proof (induction "nat (MAX_CAPACITY - n)" arbitrary: n rule: less_induct)
  case less
  show ?case
  proof (cases "n < cap")
    case False
    then show ?thesis using less.prems by (subst double_capacity.simps) auto
  next
    case True
    let ?m = "if 2 * n > MAX_CAPACITY then MAX_CAPACITY else 2 * n"
    have "s32 (n * 2) = n * 2"
      using less.prems by (intro s32_id in_s32I) (auto simp: MAX_CAPACITY_eq)
    then have step: "double_capacity n cap = double_capacity ?m cap"
      using True less.prems by (subst double_capacity.simps) (simp add: Let_def mult.commute)
    have m: "n < ?m" "?m \<le> MAX_CAPACITY" "?m \<le> 2 * n" using True less.prems by auto
    obtain k where "double_capacity ?m cap = Some k" "cap \<le> k" "?m \<le> k" "k \<le> MAX_CAPACITY"
      "?m < cap \<longrightarrow> k < 2 * cap"
      using less.hyps [of ?m] m less.prems by auto
    moreover have "\<not> ?m < cap \<Longrightarrow> k = ?m"
      using \<open>double_capacity ?m cap = Some k\<close> by (subst (asm) double_capacity.simps) simp
    ultimately show ?thesis using step m True by (cases "?m < cap") auto
  qed
qed

lemma ensureCapacity_cases:
  assumes "array_inv a" and "0 \<le> cap"
  shows "\<exists>a' r. ensureCapacity ok junk a cap = Some (a', r) \<and> array_inv a' \<and>
     elems a' = elems a \<and> arr_size a' = arr_size a \<and> take (length (slots a)) (slots a') = slots a \<and>
     (if cap \<le> arr_capacity a \<or> (ok \<and> cap \<le> MAX_CAPACITY) then r = 0 \<and> cap \<le> arr_capacity a' \<and>
        (cap \<le> arr_capacity a \<longrightarrow> a' = a) \<and> (0 < cap \<longrightarrow> 0 < arr_capacity a')
      else r = -1 \<and> a' = a)"
proof (cases "cap > arr_capacity a \<and> cap \<le> MAX_CAPACITY")
  case False
  then show ?thesis using assms by (auto simp: ensureCapacity_def Let_def)
next
  case True
  note i = array_inv_slots [OF assms(1)]
  let ?n = "if arr_capacity a = 0 then INITIAL_CAPACITY else arr_capacity a"
  have "1 \<le> ?n" "?n \<le> MAX_CAPACITY" "cap \<le> MAX_CAPACITY"
    using True i(5,6) by (auto simp: INITIAL_CAPACITY_def MAX_CAPACITY_eq)
  then obtain m where m: "double_capacity ?n cap = Some m" "cap \<le> m" "?n \<le> m" "m \<le> MAX_CAPACITY"
    using double_capacity_total by blast
  define a' where "a' = a\<lparr> arr_capacity := m, arr_contents := Some (slots a @ map junk [length (slots a)..<nat m]) \<rparr>"
  have lm: "length (slots a) \<le> nat m" using i(1) True m(2) by linarith
  have e: "ensureCapacity ok junk a cap = Some (if ok then (a', 0) else (a, -1))"
    using True m i lm
    by (cases "arr_contents a") (auto simp: ensureCapacity_def Let_def a'_def slots_def)
  have s: "slots a' = slots a @ map junk [length (slots a)..<nat m]" by (simp add: a'_def slots_def)
  have "nat (arr_size a) \<le> length (slots a)" using i by linarith
  then have "elems a' = elems a" unfolding elems_def s by (simp add: a'_def)
  moreover have "array_inv a'" using i m lm True by (simp add: a'_def inv_defs)
  moreover have "arr_capacity a' = m" "arr_size a' = arr_size a" by (simp_all add: a'_def)
  moreover have "take (length (slots a)) (slots a') = slots a" by (simp add: s)
  ultimately show ?thesis using e True m assms by (cases ok) auto
qed

subsection \<open>The operations on the elements\<close>

lemma elems_nth: "array_inv a \<Longrightarrow> i < nat (arr_size a) \<Longrightarrow> elems a ! i = slots a ! i"
  by (simp add: elems_def)

lemma slot_in_range:
  assumes "array_inv a" and "checkBounds a i"
  shows "arr_contents a = Some (slots a)" "0 \<le> i" "nat i < length (slots a)" "nat i < length (elems a)"
proof -
  note j = array_inv_slots [OF assms(1)]
  have b: "0 \<le> i" "i < arr_size a" using assms(2) by (simp_all add: checkBounds_def)
  then show "arr_contents a = Some (slots a)" using j(4,7) by simp
  show "0 \<le> i" "nat i < length (slots a)" "nat i < length (elems a)" using b j(1,2,4) by linarith+
qed

lemma load_slot_eq:
  "array_inv a \<Longrightarrow> checkBounds a i \<Longrightarrow> load_slot a i = Inr (elems a ! nat i)"
  using slot_in_range [of a i] elems_nth [of a "nat i"] array_inv_slots(2) [of a]
  by (simp add: load_slot_def)

lemma store_slot_eq:
  assumes "array_inv a" and "0 \<le> i" "i < arr_capacity a"
  shows "\<exists>a'. store_slot a i p = Inr a' \<and> array_inv a' \<and> slots a' = (slots a)[nat i := p] \<and>
     arr_size a' = arr_size a \<and> arr_capacity a' = arr_capacity a"
proof -
  note j = array_inv_slots [OF assms(1)]
  have c: "arr_contents a = Some (slots a)" using j(7) assms(2,3) by simp
  let ?a = "a\<lparr> arr_contents := Some ((slots a)[nat i := p]) \<rparr>"
  have "store_slot a i p = Inr ?a" using c assms(2,3) j(1) by (simp add: store_slot_def)
  moreover have "array_inv ?a" using assms(1) c by (auto simp: inv_defs)
  ultimately show ?thesis by simp
qed

lemma arrayGet_eq:
  "array_inv a \<Longrightarrow> arrayGet a i =
     (if 0 \<le> i \<and> i < int (length (elems a)) then Inr (elems a ! nat i) else Inl AssertFailed)"
  using load_slot_eq [of a i] array_inv_slots(2,3) [of a] by (auto simp: arrayGet_def checkBounds_def)

lemma arrayAdd_eq:
  assumes "array_inv a"
  shows "\<exists>a' r. arrayAdd ok junk a p = Some (Inr (a', r)) \<and> array_inv a' \<and>
     (r = 0 \<and> elems a' = elems a @ [p] \<or>
      r = -1 \<and> a' = a \<and> arr_size a = arr_capacity a \<and> (\<not> ok \<or> arr_size a = MAX_CAPACITY))"
proof -
  note i = array_inv_slots [OF assms]
  have s1: "s32 (arr_size a + 1) = arr_size a + 1"
    using i by (intro s32_id in_s32I) (auto simp: MAX_CAPACITY_eq)
  obtain b r where b: "ensureCapacity ok junk a (arr_size a + 1) = Some (b, r)" "array_inv b"
    "elems b = elems a" "arr_size b = arr_size a"
    "if arr_size a + 1 \<le> arr_capacity a \<or> (ok \<and> arr_size a + 1 \<le> MAX_CAPACITY)
     then r = 0 \<and> arr_size a + 1 \<le> arr_capacity b else r = -1 \<and> b = a"
    using ensureCapacity_cases [OF assms, of "arr_size a + 1" ok junk] i(3) by auto
  show ?thesis
  proof (cases "r = 0")
    case False
    then show ?thesis
      using b s1 i assms by (auto simp: arrayAdd_def Let_def split: if_splits)
  next
    case True
    then have room: "arr_size a < arr_capacity b" using b(5) by (auto split: if_splits)
    note j = array_inv_slots [OF b(2)]
    obtain c where c: "store_slot b (arr_size a) p = Inr c" "array_inv c"
      "slots c = (slots b)[nat (arr_size a) := p]" "arr_size c = arr_size a" "arr_capacity c = arr_capacity b"
      using store_slot_eq [OF b(2) i(3) room] b(4) by auto
    let ?d = "c\<lparr> arr_size := arr_size a + 1 \<rparr>"
    have "elems ?d = elems b @ [p]"
      using c(3) j(1) i(3) room b(4)
      by (simp add: elems_def slots_def nat_add_distrib take_Suc_conv_app_nth)
    moreover have "array_inv ?d"
      using c(2,5) room i(3) by (auto simp: inv_defs split: option.splits)
    ultimately show ?thesis
      using b c s1 True by (simp add: arrayAdd_def Let_def)
  qed
qed

lemma arraySet_eq:
  assumes "array_inv a"
  shows "if 0 \<le> i \<and> i < int (length (elems a))
     then \<exists>a'. arraySet a i p = Inr (a', elems a ! nat i) \<and> array_inv a' \<and>
            elems a' = (elems a)[nat i := p]
     else arraySet a i p = Inl AssertFailed"
proof (cases "checkBounds a i")
  case False
  then show ?thesis using array_inv_slots [OF assms] by (auto simp: arraySet_def checkBounds_def)
next
  case True
  then have "0 \<le> i" "i < arr_capacity a"
    using array_inv_slots [OF assms] by (auto simp: checkBounds_def)
  then obtain a' where "store_slot a i p = Inr a'" "array_inv a'" "slots a' = (slots a)[nat i := p]"
    "arr_size a' = arr_size a"
    using store_slot_eq [OF assms] by blast
  then show ?thesis
    using True slot_in_range [OF assms True] load_slot_eq [OF assms True]
    by (auto simp: arraySet_def elems_def take_update_swap)
qed

lemma arrayRemove_eq:
  assumes "array_inv a"
  shows "if 0 \<le> i \<and> i < int (length (elems a))
     then \<exists>a'. arrayRemove a i = Inr (a', elems a ! nat i) \<and> array_inv a' \<and>
            elems a' = take (nat i) (elems a) @ drop (Suc (nat i)) (elems a)
     else arrayRemove a i = Inl AssertFailed"
proof (cases "checkBounds a i")
  case False
  then show ?thesis using array_inv_slots [OF assms] by (auto simp: arrayRemove_def checkBounds_def)
next
  case True
  note j = array_inv_slots [OF assms] and r = slot_in_range [OF assms True]
  let ?n = "arr_size a - 1" and ?c = "slots a" and ?k = "nat i"
  have n: "i \<le> ?n" using True by (simp add: checkBounds_def)
  define c' where "c' = (if i = ?n then ?c else
      take ?k ?c @ take (nat (?n - i)) (drop (Suc ?k) ?c) @ drop (nat ?n) ?c)"
  have mv: "(if i \<noteq> ?n then move_slots a i (i + 1) (?n - i) else Inr a) = Inr (a\<lparr> arr_contents := Some c' \<rparr>)"
    using r j n by (auto simp: move_slots_def c'_def nat_add_distrib)
  let ?a' = "a\<lparr> arr_contents := Some c', arr_size := ?n \<rparr>"
  have len: "length c' = length ?c"
    using r j n by (auto simp: c'_def min_def nat_diff_distrib)
  have "arrayRemove a i = Inr (?a', elems a ! ?k)"
    using True load_slot_eq [OF assms True] mv by (simp add: arrayRemove_def Let_def)
  moreover have "array_inv ?a'"
    using assms r j n len by (auto simp: inv_defs)
  moreover have "elems ?a' = take ?k (elems a) @ drop (Suc ?k) (elems a)"
  proof (cases "i = ?n")
    case True
    then show ?thesis using r j by (simp add: elems_def c'_def)
  next
    case False
    have "nat ?n = ?k + nat (?n - i)" "nat (arr_size a) = Suc ?k + nat (?n - i)" "?k < length ?c"
      "nat (?n - i) \<le> length ?c - Suc ?k"
      using n r(2,3) j(1,4) by linarith+
    then show ?thesis
      using False r(3) j by (simp add: elems_def c'_def drop_take)
  qed
  ultimately show ?thesis using True r(4) by (auto simp: checkBounds_def)
qed

subsection \<open>Properties of the array\<close>

text \<open>The operations as a sequence of calls, each with the outcome of its allocation, and the
  list operations they stand for. The result of a call is the value the C function returns; an
  \<open>int\<close> result and a pointer result are told apart.\<close>

datatype array_op = Add bool void_ptr | Set int void_ptr | Remove int | Get int

datatype array_result = IntResult int | PtrResult void_ptr

fun array_step :: "(nat \<Rightarrow> void_ptr) \<Rightarrow> array_op \<Rightarrow> Array \<Rightarrow> (array_fault + (Array \<times> array_result)) option" where
  "array_step junk (Add ok p) a =
     map_option (map_sum id (\<lambda>(a', r). (a', IntResult r))) (arrayAdd ok junk a p)"
| "array_step junk (Set i p) a = Some (map_sum id (\<lambda>(a', r). (a', PtrResult r)) (arraySet a i p))"
| "array_step junk (Remove i) a = Some (map_sum id (\<lambda>(a', r). (a', PtrResult r)) (arrayRemove a i))"
| "array_step junk (Get i) a = Some (map_sum id (\<lambda>r. (a, PtrResult r)) (arrayGet a i))"

fun array_run :: "(nat \<Rightarrow> void_ptr) \<Rightarrow> array_op list \<Rightarrow> Array \<Rightarrow> (array_fault + (Array \<times> array_result list)) option" where
  "array_run junk [] a = Some (Inr (a, []))"
| "array_run junk (op # ops) a =
     (case array_step junk op a of
        None \<Rightarrow> None
      | Some (Inl e) \<Rightarrow> Some (Inl e)
      | Some (Inr (a', r)) \<Rightarrow>
          map_option (map_sum id (\<lambda>(a'', rs). (a'', r # rs))) (array_run junk ops a'))"

definition in_list :: "int \<Rightarrow> 'a list \<Rightarrow> bool" where
  "in_list i xs \<longleftrightarrow> 0 \<le> i \<and> i < int (length xs)"

fun list_step :: "array_op \<Rightarrow> void_ptr list \<Rightarrow> (void_ptr list \<times> array_result) set" where
  "list_step (Add ok p) xs =
     {(xs @ [p], IntResult 0)} \<union>
     (if ok \<and> int (length xs) < MAX_CAPACITY then {} else {(xs, IntResult (- 1))})"
| "list_step (Set i p) xs = (if in_list i xs then {(xs[nat i := p], PtrResult (xs ! nat i))} else {})"
| "list_step (Remove i) xs =
     (if in_list i xs then {(take (nat i) xs @ drop (Suc (nat i)) xs, PtrResult (xs ! nat i))} else {})"
| "list_step (Get i) xs = (if in_list i xs then {(xs, PtrResult (xs ! nat i))} else {})"

fun list_run :: "array_op list \<Rightarrow> void_ptr list \<Rightarrow> void_ptr list \<Rightarrow> array_result list \<Rightarrow> bool" where
  "list_run [] xs ys rs \<longleftrightarrow> ys = xs \<and> rs = []"
| "list_run (op # ops) xs ys rs \<longleftrightarrow>
     (\<exists>xs' r rs'. rs = r # rs' \<and> (xs', r) \<in> list_step op xs \<and> list_run ops xs' ys rs')"

text \<open>Some call of the sequence is out of bounds whatever the allocations did before it.\<close>

fun list_stuck :: "array_op list \<Rightarrow> void_ptr list \<Rightarrow> bool" where
  "list_stuck [] xs \<longleftrightarrow> False"
| "list_stuck (op # ops) xs \<longleftrightarrow>
     list_step op xs = {} \<or> (\<exists>(xs', r) \<in> list_step op xs. list_stuck ops xs')"

lemma array_step_refines:
  assumes "array_inv a"
  shows "\<exists>res. array_step junk op a = Some res \<and>
     (case res of Inl f \<Rightarrow> f = AssertFailed \<and> list_step op (elems a) = {}
      | Inr (a', r) \<Rightarrow> array_inv a' \<and> (elems a', r) \<in> list_step op (elems a))"
proof (cases op)
  case (Add ok p)
  have "int (length (elems a)) = arr_size a" using array_inv_slots [OF assms] by simp
  then show ?thesis using Add arrayAdd_eq [OF assms, of ok junk p] assms by fastforce
next
  case (Set i p)
  then show ?thesis using arraySet_eq [OF assms, of i p] by (auto simp: in_list_def split: if_splits)
next
  case (Remove i)
  then show ?thesis using arrayRemove_eq [OF assms, of i] by (auto simp: in_list_def split: if_splits)
next
  case (Get i)
  then show ?thesis using arrayGet_eq [OF assms, of i] assms by (auto simp: in_list_def)
qed

text \<open>
  C25. The array refines a list: every sequence of \<open>arrayAdd\<close>, \<open>arraySet\<close>, \<open>arrayRemove\<close> and
  \<open>arrayGet\<close> on a well-formed array, with allocations failing in any pattern, returns (the
  doubling loop ends), keeps the invariant, and gives the elements and results of the same list
  operations; it never accesses memory outside the allocation, and an assertion fails only on an
  index outside the list.
\<close>

theorem array_refines_list:
  assumes "array_inv a"
  shows "(\<exists>a' rs. array_run junk ops a = Some (Inr (a', rs)) \<and> array_inv a' \<and>
       list_run ops (elems a) (elems a') rs) \<or>
     array_run junk ops a = Some (Inl AssertFailed) \<and> list_stuck ops (elems a)"
  using assms
proof (induction ops arbitrary: a)
  case (Cons op ops)
  obtain res where res: "array_step junk op a = Some res"
    "case res of Inl f \<Rightarrow> f = AssertFailed \<and> list_step op (elems a) = {}
     | Inr (a', r) \<Rightarrow> array_inv a' \<and> (elems a', r) \<in> list_step op (elems a)"
    using array_step_refines [OF Cons.prems] by blast
  show ?case
  proof (cases res)
    case (Inl f)
    then show ?thesis using res by simp
  next
    case (Inr x)
    obtain a1 r where x: "x = (a1, r)" by (cases x)
    have a1: "array_inv a1" "(elems a1, r) \<in> list_step op (elems a)" using res(2) Inr x by auto
    show ?thesis using Cons.IH [OF a1(1)] a1(2) res(1) Inr x by auto
  qed
qed simp

definition array_with3 :: Array where
  "array_with3 = \<lparr> arr_contents = Some [11, 12, 13, 99], arr_size = 3, arr_capacity = 4 \<rparr>"

theorem array_refines_list_witness:
  "\<exists>a' rs. array_run (\<lambda>_. 7) [Add False 14, Add False 15, Remove 0, Get 1] array_with3 = Some (Inr (a', rs)) \<and>
     list_run [Add False 14, Add False 15, Remove 0, Get 1] [11, 12, 13] (elems a') rs"
proof -
  have "array_inv array_with3" "elems array_with3 = [11, 12, 13]"
    by (simp_all add: array_with3_def inv_defs elems_def slots_def MAX_CAPACITY_eq)
  moreover have "\<not> list_stuck [Add False 14, Add False 15, Remove 0, Get 1] [11, 12, 13]"
    by (simp add: in_list_def)
  ultimately show ?thesis
    using array_refines_list [of array_with3 "\<lambda>_. 7" "[Add False 14, Add False 15, Remove 0, Get 1]"]
    by metis
qed

text \<open>
  \<open>ensureCapacity\<close> returns for every request, keeps every slot, and succeeds exactly when the
  capacity suffices already or the allocation is possible and the request is within
  \<open>MAX_CAPACITY\<close>; the capacity after a successful growth covers the request, and a
  refused request changes nothing.
\<close>

theorem ensureCapacity_exact:
  assumes "array_inv a" and "0 \<le> cap"
  shows "\<exists>a' r. ensureCapacity ok junk a cap = Some (a', r) \<and> array_inv a' \<and>
     take (length (slots a)) (slots a') = slots a \<and> elems a' = elems a \<and>
     (r = 0 \<longleftrightarrow> cap \<le> arr_capacity a \<or> ok \<and> cap \<le> MAX_CAPACITY) \<and>
     (r = 0 \<longrightarrow> cap \<le> arr_capacity a') \<and> (r \<noteq> 0 \<longrightarrow> r = - 1 \<and> a' = a)"
  using ensureCapacity_cases [OF assms, of ok junk] by (auto split: if_splits)

theorem ensureCapacity_exact_witness:
  "\<exists>a' r. ensureCapacity True (\<lambda>_. 7) array_with3 9 = Some (a', r) \<and> r = 0 \<and> 9 \<le> arr_capacity a' \<and>
     elems a' = [11, 12, 13]"
proof -
  have "array_inv array_with3" "elems array_with3 = [11, 12, 13]"
    by (simp_all add: array_with3_def inv_defs elems_def slots_def MAX_CAPACITY_eq)
  then show ?thesis
    using ensureCapacity_exact [of array_with3 9 True "\<lambda>_. 7"] by (auto simp: MAX_CAPACITY_eq)
qed

text \<open>
  \<open>arraySetSize\<close>: shrinking keeps a prefix, and growing an empty array gives zeroed entries.
  Growing a nonempty array does not zero its first new entry: it clears slots from
  \<open>4 * oldSize\<close> on, and leaves the allocation when \<open>newSize + 3 * oldSize\<close> exceeds the capacity.
\<close>

theorem arraySetSize_behaviour:
  assumes "array_inv a" and "0 \<le> n"
  shows "(n \<le> arr_size a \<longrightarrow> (\<exists>a'. arraySetSize ok junk a n = Some (Inr (a', 0)) \<and> array_inv a' \<and>
         elems a' = take (nat n) (elems a))) \<and>
     (arr_size a = 0 \<longrightarrow> n \<le> MAX_CAPACITY \<longrightarrow>
        (\<exists>a'. arraySetSize True junk a n = Some (Inr (a', 0)) \<and> array_inv a' \<and>
           elems a' = replicate (nat n) 0)) \<and>
     (0 < arr_size a \<longrightarrow> arr_size a < n \<longrightarrow> n \<le> arr_capacity a \<longrightarrow>
        (if n + 3 * arr_size a \<le> arr_capacity a
         then \<exists>a'. arraySetSize ok junk a n = Some (Inr (a', 0)) \<and>
                elems a' ! nat (arr_size a) = slots a ! nat (arr_size a)
         else arraySetSize ok junk a n = Some (Inl BadAccess)))"
proof (intro conjI impI)
  note j = array_inv_slots [OF assms(1)]
  assume "n \<le> arr_size a"
  moreover from this have "array_inv (a\<lparr> arr_size := n \<rparr>)"
    using assms by (auto simp: inv_defs split: option.splits)
  ultimately show "\<exists>a'. arraySetSize ok junk a n = Some (Inr (a', 0)) \<and> array_inv a' \<and>
      elems a' = take (nat n) (elems a)"
    using assms(2) by (simp add: arraySetSize_def Let_def elems_def min_def nat_le_iff)
next
  note j = array_inv_slots [OF assms(1)]
  assume z: "arr_size a = 0" "n \<le> MAX_CAPACITY"
  obtain b where b: "ensureCapacity True junk a n = Some (b, 0)" "array_inv b" "arr_size b = arr_size a"
    "n \<le> arr_capacity b"
    using ensureCapacity_cases [OF assms, of True junk] z by auto
  note k = array_inv_slots [OF b(2)]
  show "\<exists>a'. arraySetSize True junk a n = Some (Inr (a', 0)) \<and> array_inv a' \<and> elems a' = replicate (nat n) 0"
  proof (cases "n = 0")
    case True
    then show ?thesis
      using z assms
      by (auto simp: arraySetSize_def Let_def elems_def inv_defs split: option.splits)
  next
    case False
    then have "arr_contents b = Some (slots b)" using k(7) b(4) assms(2) by simp
    moreover have "nat n \<le> length (slots b)" using b(4) k(1) by linarith
    ultimately show ?thesis
      using z b False assms(2) k
      by (auto simp: arraySetSize_def Let_def clear_slots_def elems_def inv_defs)
  qed
next
  note j = array_inv_slots [OF assms(1)]
  assume g: "0 < arr_size a" "arr_size a < n" "n \<le> arr_capacity a"
  have e: "ensureCapacity ok junk a n = Some (a, 0)" using g(3) by (simp add: ensureCapacity_def Let_def)
  have c: "arr_contents a = Some (slots a)" using g j(7) by linarith
  show "if n + 3 * arr_size a \<le> arr_capacity a
      then \<exists>a'. arraySetSize ok junk a n = Some (Inr (a', 0)) \<and>
             elems a' ! nat (arr_size a) = slots a ! nat (arr_size a)
      else arraySetSize ok junk a n = Some (Inl BadAccess)"
    using g e c j(1)
    by (auto simp: arraySetSize_def Let_def clear_slots_def elems_def nth_append)
qed

theorem arraySetSize_behaviour_witness:
  "arraySetSize True (\<lambda>_. 7) array_with3 4 = Some (Inl BadAccess) \<and>
   (\<exists>a'. arraySetSize True (\<lambda>_. 7) array_with3 2 = Some (Inr (a', 0)) \<and> elems a' = [11, 12])"
proof -
  have i: "array_inv array_with3" "elems array_with3 = [11, 12, 13]" "arr_size array_with3 = 3"
      "arr_capacity array_with3 = 4"
    by (simp_all add: array_with3_def inv_defs elems_def slots_def MAX_CAPACITY_eq)
  show ?thesis
    using arraySetSize_behaviour [OF i(1), of 4 True "\<lambda>_. 7"]
      arraySetSize_behaviour [OF i(1), of 2 True "\<lambda>_. 7"] i(2,3,4) by (auto simp: numeral_2_eq_2)
qed

end
