(* ===== verification/Posix_IO.thy ===== *)
theory Posix_IO
  imports Prelude_C
begin

text \<open>
  The system calls \<open>read\<close> and \<open>write\<close> that the buffers use, as contracts. A call may transfer
  fewer bytes than asked, and may fail without transferring any. The locales state what the
  buffering code relies on; the scripts below are kernels that behave in every such way, one
  event per call, and interpret the locales.
\<close>

subsection \<open>Reading\<close>

locale read_source =
  fixes rd :: "'s \<Rightarrow> nat \<Rightarrow> (int + u8 list) \<times> 's"
    and bytes_of :: "'s \<Rightarrow> u8 list"
  assumes rd_bytes: "rd s n = (Inr bs, s') \<Longrightarrow> length bs \<le> n \<and> bytes_of s = bs @ bytes_of s'"
    and rd_error: "rd s n = (Inl e, s') \<Longrightarrow> bytes_of s' = bytes_of s"
begin

lemma rd_prefix: "rd s n = (Inr bs, s') \<Longrightarrow> bs = take (length bs) (bytes_of s)"
  using rd_bytes by simp

lemma rd_conserves:
  "rd s n = (r, s') \<Longrightarrow> bytes_of s = (case r of Inl _ \<Rightarrow> [] | Inr bs \<Rightarrow> bs) @ bytes_of s'"
  using rd_bytes rd_error by (cases r) auto

end

text \<open>An event is the data that has arrived by the next call, or an error of that call. No event
  is the end of the file.\<close>

datatype read_event = Data "u8 list" | ReadError int

fun sys_read :: "read_event list \<Rightarrow> nat \<Rightarrow> (int + u8 list) \<times> read_event list" where
  "sys_read [] n = (Inr [], [])"
| "sys_read (ReadError e # s) n = (Inl e, s)"
| "sys_read (Data bs # s) n =
     (Inr (take n bs), if n < length bs then Data (drop n bs) # s else s)"

fun stream :: "read_event list \<Rightarrow> u8 list" where
  "stream [] = []"
| "stream (ReadError e # s) = stream s"
| "stream (Data bs # s) = bs @ stream s"

interpretation script: read_source sys_read stream
proof
  fix s n bs s'
  assume "sys_read s n = (Inr bs, s')"
  then show "length bs \<le> n \<and> stream s = bs @ stream s'"
    by (cases "(s, n)" rule: sys_read.cases) (auto split: if_splits)
next
  fix s n e s'
  assume "sys_read s n = (Inl e, s')"
  then show "stream s' = stream s"
    by (cases "(s, n)" rule: sys_read.cases) auto
qed

subsection \<open>Writing\<close>

locale write_sink =
  fixes wr :: "'k \<Rightarrow> u8 list \<Rightarrow> (int + nat) \<times> 'k"
    and output_of :: "'k \<Rightarrow> u8 list"
  assumes wr_bytes: "wr k bs = (Inr n, k') \<Longrightarrow> n \<le> length bs \<and> output_of k' = output_of k @ take n bs"
    and wr_error: "wr k bs = (Inl e, k') \<Longrightarrow> output_of k' = output_of k"
begin

lemma wr_extends: "wr k bs = (r, k') \<Longrightarrow> \<exists>m \<le> length bs. output_of k' = output_of k @ take m bs"
  using wr_bytes wr_error by (cases r) fastforce+

end

datatype write_event = Accept nat | WriteError int

record sink =
  plan :: "write_event list"
  written :: "u8 list"

fun sys_write :: "sink \<Rightarrow> u8 list \<Rightarrow> (int + nat) \<times> sink" where
  "sys_write k bs =
     (case plan k of
        [] \<Rightarrow> (Inr (length bs), k\<lparr> written := written k @ bs \<rparr>)
      | Accept n # p \<Rightarrow>
          (Inr (min n (length bs)), k\<lparr> plan := p, written := written k @ take n bs \<rparr>)
      | WriteError e # p \<Rightarrow> (Inl e, k\<lparr> plan := p \<rparr>))"

interpretation file_sink: write_sink sys_write written
  by unfold_locales (auto simp: min_def split: list.splits write_event.splits)

end
