(* ===== verification/Cutils_Buffer.thy ===== *)
theory Cutils_Buffer
  imports Posix_IO
begin

text \<open>
  The byte buffer of \<open>libcutils/buffer.c\<close> and \<open>buffer.h\<close>. \<open>b_data\<close> is the allocated memory;
  \<open>b_count\<close> is the union of \<open>expected\<close> and \<open>remaining\<close>. The system calls are arguments: \<open>rd\<close>
  and \<open>wr\<close> take the state of the descriptor. Failed assertions and accesses outside the
  allocation are fault values; sizes are 32-bit words.
\<close>

record Buffer =
  b_data :: "u8 list"
  b_count :: size_t
  b_size :: size_t
  b_capacity :: size_t

datatype buffer_fault = AssertFailure | MemFault mem_fault

definition ENOMEM :: int where "ENOMEM = 12"

subsection \<open>Operations\<close>

definition bufferReadComplete :: "Buffer \<Rightarrow> bool" where
  "bufferReadComplete buffer \<longleftrightarrow> b_count buffer = b_size buffer"

definition bufferWriteComplete :: "Buffer \<Rightarrow> bool" where
  "bufferWriteComplete buffer \<longleftrightarrow> b_count buffer = 0"

text \<open>The field \<open>size\<close> of a new buffer is whatever the allocated memory held.\<close>

definition bufferCreate :: "bool \<Rightarrow> bool \<Rightarrow> (nat \<Rightarrow> u8) \<Rightarrow> size_t \<Rightarrow> size_t \<Rightarrow> Buffer option" where
  "bufferCreate malloc1 malloc2 junk old_size cap =
     (if \<not> malloc1 then None
      else (case malloc_buf malloc2 junk (unat cap) of
              None \<Rightarrow> None
            | Some d \<Rightarrow> Some \<lparr> b_data = d, b_count = 0, b_size = old_size, b_capacity = cap \<rparr>))"

text \<open>The blocks that are freed.\<close>

definition bufferFree :: "Buffer \<Rightarrow> u8 list \<times> Buffer" where
  "bufferFree buffer = (b_data buffer, buffer)"

definition bufferWrap :: "bool \<Rightarrow> u8 list \<Rightarrow> size_t \<Rightarrow> size_t \<Rightarrow> Buffer option" where
  "bufferWrap malloc_ok d cap sz =
     (if malloc_ok then Some \<lparr> b_data = d, b_count = 0, b_size = sz, b_capacity = cap \<rparr> else None)"

text \<open>The new buffer, the result, and \<open>errno\<close> where the call sets it.\<close>

definition bufferPrepareForRead ::
  "bool \<Rightarrow> (nat \<Rightarrow> u8) \<Rightarrow> Buffer \<Rightarrow> size_t \<Rightarrow> Buffer \<times> int \<times> int option" where
  "bufferPrepareForRead realloc_ok junk buffer expected =
     (if expected > b_capacity buffer then
        if \<not> realloc_ok then (buffer, -1, Some ENOMEM)
        else (buffer\<lparr> b_capacity := expected,
                b_data := take (unat expected) (b_data buffer) @
                          map junk [length (b_data buffer)..<unat expected],
                b_size := 0, b_count := expected \<rparr>, 0, None)
      else (buffer\<lparr> b_size := 0, b_count := expected \<rparr>, 0, None))"

definition bufferRead ::
  "('s \<Rightarrow> nat \<Rightarrow> (int + u8 list) \<times> 's) \<Rightarrow> Buffer \<Rightarrow> 's \<Rightarrow> buffer_fault + (Buffer \<times> int \<times> 's)" where
  "bufferRead rd buffer fd =
     (if \<not> b_size buffer < b_count buffer then Inl AssertFailure
      else
        (case rd fd (unat (b_count buffer - b_size buffer)) of
           (Inl e, fd') \<Rightarrow> Inr (buffer, -1, fd')
         | (Inr bs, fd') \<Rightarrow>
             (case store_list (b_data buffer) (unat (b_size buffer)) bs of
                Inl e \<Rightarrow> Inl (MemFault e)
              | Inr d \<Rightarrow>
                  let bytesRead = int (length bs) in
                  if bytesRead > 0 then
                    let sz = b_size buffer + of_nat (length bs)
                    in Inr (buffer\<lparr> b_data := d, b_size := sz \<rparr>, s32 (uint sz), fd')
                  else Inr (buffer, bytesRead, fd'))))"

definition bufferPrepareForWrite :: "Buffer \<Rightarrow> Buffer" where
  "bufferPrepareForWrite buffer = buffer\<lparr> b_count := b_size buffer \<rparr>"

definition bufferWrite ::
  "('k \<Rightarrow> u8 list \<Rightarrow> (int + nat) \<times> 'k) \<Rightarrow> Buffer \<Rightarrow> 'k \<Rightarrow> buffer_fault + (Buffer \<times> int \<times> 'k)" where
  "bufferWrite wr buffer fd =
     (if \<not> (b_count buffer > 0 \<and> b_count buffer \<le> b_size buffer) then Inl AssertFailure
      else
        let start = unat (b_size buffer - b_count buffer); n = unat (b_count buffer) in
        if length (b_data buffer) < start + n then Inl (MemFault BadRead)
        else
          (case wr fd (take n (drop start (b_data buffer))) of
             (Inl e, fd') \<Rightarrow> Inr (buffer, -1, fd')
           | (Inr bytesWritten, fd') \<Rightarrow>
               let remaining = b_count buffer - of_nat bytesWritten
               in Inr (buffer\<lparr> b_count := remaining \<rparr>, s32 (uint remaining), fd')))"

subsection \<open>Invariant\<close>

text \<open>The recorded capacity is the allocated size, and both counts lie within it. \<open>valid\<close> is the
  data in the buffer.\<close>

definition buf_inv :: "Buffer \<Rightarrow> bool" where [inv_defs]:
  "buf_inv b \<longleftrightarrow> length (b_data b) = unat (b_capacity b) \<and> b_size b \<le> b_capacity b \<and>
     b_count b \<le> b_capacity b"

definition valid :: "Buffer \<Rightarrow> u8 list" where
  "valid b = take (unat (b_size b)) (b_data b)"

definition unsent :: "Buffer \<Rightarrow> u8 list" where
  "unsent b = drop (unat (b_size b - b_count b)) (valid b)"

lemma buf_inv_unat:
  assumes "buf_inv b"
  shows "unat (b_size b) \<le> length (b_data b)" "unat (b_count b) \<le> length (b_data b)"
    "length (valid b) = unat (b_size b)" "length (b_data b) < 4294967296"
  using assms unat_u32_less [of "b_capacity b"] by (auto simp: inv_defs word_le_nat_alt valid_def)

lemmas unat_diff_u32 = unat_diff_small [folded word_le_nat_alt]

text \<open>Clients keep calling until the buffer is complete: \<open>n\<close> calls of \<open>bufferRead\<close> or
  \<open>bufferWrite\<close>, stopping early when complete and retrying after an error.\<close>

fun read_calls ::
  "('s \<Rightarrow> nat \<Rightarrow> (int + u8 list) \<times> 's) \<Rightarrow> nat \<Rightarrow> Buffer \<Rightarrow> 's \<Rightarrow> buffer_fault + (Buffer \<times> 's)" where
  "read_calls rd 0 b s = Inr (b, s)"
| "read_calls rd (Suc n) b s =
     (if bufferReadComplete b then Inr (b, s)
      else (case bufferRead rd b s of Inl e \<Rightarrow> Inl e | Inr (b', _, s') \<Rightarrow> read_calls rd n b' s'))"

fun write_calls ::
  "('k \<Rightarrow> u8 list \<Rightarrow> (int + nat) \<times> 'k) \<Rightarrow> nat \<Rightarrow> Buffer \<Rightarrow> 'k \<Rightarrow> buffer_fault + (Buffer \<times> 'k)" where
  "write_calls wr 0 b k = Inr (b, k)"
| "write_calls wr (Suc n) b k =
     (if bufferWriteComplete b then Inr (b, k)
      else (case bufferWrite wr b k of Inl e \<Rightarrow> Inl e | Inr (b', _, k') \<Rightarrow> write_calls wr n b' k'))"

lemma bufferPrepareForRead_eq:
  assumes "buf_inv b" and "bufferPrepareForRead ok junk b n = (b', r, err)"
  shows "buf_inv b'" and "r = 0 \<longleftrightarrow> ok \<or> n \<le> b_capacity b"
    and "r = 0 \<Longrightarrow> b_size b' = 0 \<and> b_count b' = n \<and> n \<le> b_capacity b' \<and> err = None"
    and "r \<noteq> 0 \<Longrightarrow> r = -1 \<and> b' = b \<and> err = Some ENOMEM"
  using assms
  by (auto simp: bufferPrepareForRead_def inv_defs word_le_nat_alt word_less_nat_alt split: if_splits)

subsection \<open>Reading and writing through the contracts\<close>

context read_source
begin

lemma bufferRead_step:
  assumes inv: "buf_inv b" and lt: "b_size b < b_count b"
  shows "\<exists>b' r s'. bufferRead rd b s = Inr (b', r, s') \<and> buf_inv b' \<and> b_count b' = b_count b \<and>
     b_size b \<le> b_size b' \<and> b_size b' \<le> b_count b \<and> b_capacity b' = b_capacity b \<and>
     valid b' @ bytes_of s' = valid b @ bytes_of s"
proof -
  obtain x s' where rd: "rd s (unat (b_count b - b_size b)) = (x, s')" by fastforce
  note u = buf_inv_unat [OF inv]
  show ?thesis
  proof (cases x)
    case (Inl e)
    then show ?thesis using rd rd_error inv lt by (auto simp: bufferRead_def)
  next
    case (Inr bs)
    then have rb: "length bs \<le> unat (b_count b) - unat (b_size b)" "bytes_of s = bs @ bytes_of s'"
      using rd_bytes [of s "unat (b_count b - b_size b)" bs s'] rd lt by (simp_all add: unat_diff_u32)
    have sum: "unat (b_size b) + length bs \<le> unat (b_count b)"
      using rb(1) lt by (simp add: word_less_nat_alt)
    then have room: "unat (b_size b) + length bs \<le> length (b_data b)" using u(2) by linarith
    let ?d = "valid b @ bs @ drop (unat (b_size b) + length bs) (b_data b)"
    have st: "store_list (b_data b) (unat (b_size b)) bs = Inr ?d"
      using store_list_ok [OF room] by (simp add: valid_def)
    show ?thesis
    proof (cases "bs = []")
      case True
      then show ?thesis using rd Inr st rb inv lt by (auto simp: bufferRead_def Let_def)
    next
      case False
      let ?z = "b_size b + of_nat (length bs)"
      have z: "unat ?z = unat (b_size b) + length bs"
        using room u(4) by (simp add: unat_word_ariths unat_of_nat)
      let ?b = "b\<lparr> b_data := ?d, b_size := ?z \<rparr>"
      have len: "length ?d = length (b_data b)" using room u(3) by simp
      have "buf_inv ?b" using inv z len room by (auto simp: inv_defs word_le_nat_alt)
      moreover have "valid ?b = valid b @ bs" using z u(3) by (simp add: valid_def [of ?b])
      moreover have "bufferRead rd b s = Inr (?b, s32 (uint ?z), s')"
        using rd Inr st lt False by (simp add: bufferRead_def Let_def)
      moreover have "b_size b \<le> ?z" "?z \<le> b_count b" using z sum by (simp_all add: word_le_nat_alt)
      ultimately show ?thesis using rb(2) by auto
    qed
  qed
qed

lemma read_calls_correct:
  assumes "buf_inv b" and "b_size b \<le> b_count b"
  shows "\<exists>b' s'. read_calls rd n b s = Inr (b', s') \<and> buf_inv b' \<and> b_count b' = b_count b \<and>
     b_size b' \<le> b_count b \<and> valid b' @ bytes_of s' = valid b @ bytes_of s"
  using assms
proof (induction n arbitrary: b s)
  case (Suc n)
  show ?case
  proof (cases "bufferReadComplete b")
    case False
    then have "b_size b < b_count b" using Suc.prems(2) by (simp add: bufferReadComplete_def)
    then obtain b1 r s1 where 1: "bufferRead rd b s = Inr (b1, r, s1)" "buf_inv b1"
      "b_count b1 = b_count b" "b_size b1 \<le> b_count b" "valid b1 @ bytes_of s1 = valid b @ bytes_of s"
      using bufferRead_step [OF Suc.prems(1), of s] by blast
    show ?thesis using Suc.IH [OF 1(2), of s1] 1 False by auto
  qed (use Suc.prems in auto)
qed auto

end

context write_sink
begin

lemma bufferWrite_step:
  assumes inv: "buf_inv b" and pos: "0 < b_count b" and le: "b_count b \<le> b_size b"
  shows "\<exists>b' r k'. bufferWrite wr b k = Inr (b', r, k') \<and> buf_inv b' \<and> b_count b' \<le> b_size b' \<and>
     b_size b' = b_size b \<and> valid b' = valid b \<and> output_of k' @ unsent b' = output_of k @ unsent b"
proof -
  note u = buf_inv_unat [OF inv]
  let ?p = "unat (b_size b) - unat (b_count b)"
  have p: "unat (b_size b - b_count b) = ?p" using le by (simp add: unat_diff_u32)
  have cnt: "unat (b_count b) \<le> unat (b_size b)" using le by (simp add: word_le_nat_alt)
  have arg: "take (unat (b_count b)) (drop ?p (b_data b)) = unsent b"
    using cnt u(1) by (simp add: unsent_def valid_def p drop_take)
  have len: "length (unsent b) = unat (b_count b)" using cnt u(3) by (simp add: unsent_def p)
  obtain x k' where wr: "wr k (unsent b) = (x, k')" by fastforce
  have w: "bufferWrite wr b k = (case wr k (unsent b) of (Inl e, fd') \<Rightarrow> Inr (b, -1, fd')
      | (Inr n, fd') \<Rightarrow> (let remaining = b_count b - of_nat n in
           Inr (b\<lparr> b_count := remaining \<rparr>, s32 (uint remaining), fd')))"
    using pos le cnt u(1) by (simp add: bufferWrite_def Let_def p arg)
  show ?thesis
  proof (cases x)
    case (Inl e)
    then show ?thesis using wr w wr_error inv le by auto
  next
    case (Inr n)
    then have n: "n \<le> unat (b_count b)" "output_of k' = output_of k @ take n (unsent b)"
      using wr_bytes [of k "unsent b" n k'] wr len by auto
    let ?b = "b\<lparr> b_count := b_count b - of_nat n \<rparr>"
    have nn: "unat (of_nat n :: size_t) = n"
      using n(1) unat_u32_less [of "b_count b"] by (simp add: unat_of_nat)
    have c: "unat (b_count ?b) = unat (b_count b) - n"
      using n(1) nn by (simp add: unat_diff_u32 word_le_nat_alt)
    have "buf_inv ?b" "b_count ?b \<le> b_size ?b"
      using inv cnt c by (auto simp: inv_defs word_le_nat_alt)
    moreover have "unsent ?b = drop n (unsent b)"
    proof -
      have "unat (b_size ?b - b_count ?b) = ?p + n"
        using c cnt n(1) by (subst unat_diff_u32) (auto simp: word_le_nat_alt)
      then show ?thesis by (simp add: unsent_def p valid_def add.commute)
    qed
    moreover have "bufferWrite wr b k = Inr (?b, s32 (uint (b_count ?b)), k')"
      using w wr Inr by (simp add: Let_def)
    ultimately show ?thesis using n(2) by (auto simp: valid_def)
  qed
qed

lemma write_calls_correct:
  assumes "buf_inv b" and "b_count b \<le> b_size b"
  shows "\<exists>b' k'. write_calls wr n b k = Inr (b', k') \<and> buf_inv b' \<and> valid b' = valid b \<and>
     b_count b' \<le> b_size b' \<and> b_size b' = b_size b \<and> output_of k' @ unsent b' = output_of k @ unsent b"
  using assms
proof (induction n arbitrary: b k)
  case (Suc n)
  show ?case
  proof (cases "bufferWriteComplete b")
    case False
    then have "0 < b_count b" by (simp add: bufferWriteComplete_def word_gt_0)
    then obtain b1 r k1 where 1: "bufferWrite wr b k = Inr (b1, r, k1)" "buf_inv b1"
      "b_count b1 \<le> b_size b1" "b_size b1 = b_size b" "valid b1 = valid b"
      "output_of k1 @ unsent b1 = output_of k @ unsent b"
      using bufferWrite_step [OF Suc.prems(1) _ Suc.prems(2), of k] by blast
    show ?thesis using Suc.IH [OF 1(2,3), of k1] 1 False by auto
  qed (use Suc.prems in auto)
qed auto

end

subsection \<open>Progress\<close>

text \<open>A script without errors and without empty reads.\<close>

definition steady :: "read_event list \<Rightarrow> bool" where
  "steady s \<longleftrightarrow> (\<forall>e \<in> set s. case e of Data bs \<Rightarrow> bs \<noteq> [] | ReadError _ \<Rightarrow> False)"

lemma sys_read_steady:
  assumes "steady s" and "stream s \<noteq> []" and "0 < n"
  shows "\<exists>bs s'. sys_read s n = (Inr bs, s') \<and> bs \<noteq> [] \<and> steady s'"
  using assms by (cases "(s, n)" rule: sys_read.cases) (auto simp: steady_def)

lemma read_calls_complete:
  assumes "buf_inv b" "b_size b \<le> b_count b" "steady s"
    and "unat (b_count b) \<le> unat (b_size b) + length (stream s)"
    and "unat (b_count b) - unat (b_size b) \<le> n"
  shows "\<exists>b' s'. read_calls sys_read n b s = Inr (b', s') \<and> bufferReadComplete b'"
  using assms
proof (induction n arbitrary: b s)
  case 0
  then show ?case by (auto simp: bufferReadComplete_def word_le_nat_alt word_unat_eq_iff)
next
  case (Suc n)
  show ?case
  proof (cases "bufferReadComplete b")
    case False
    then have lt: "b_size b < b_count b" using Suc.prems(2) by (simp add: bufferReadComplete_def)
    then have d: "unat (b_count b - b_size b) = unat (b_count b) - unat (b_size b)"
      by (simp add: unat_diff_u32)
    have "stream s \<noteq> []" using lt Suc.prems(4) by (auto simp: word_less_nat_alt)
    then obtain bs s1 where rd: "sys_read s (unat (b_count b - b_size b)) = (Inr bs, s1)" "bs \<noteq> []" "steady s1"
      using sys_read_steady [OF Suc.prems(3), of "unat (b_count b - b_size b)"] lt d
      by (auto simp: word_less_nat_alt)
    obtain b1 r where 1: "bufferRead sys_read b s = Inr (b1, r, s1)" "buf_inv b1"
      "b_count b1 = b_count b" "b_size b1 \<le> b_count b" "valid b1 @ stream s1 = valid b @ stream s"
      using script.bufferRead_step [OF Suc.prems(1) lt, of s] rd(1)
      by (auto simp: bufferRead_def Let_def split: sum.splits if_splits)
    have "stream s = bs @ stream s1" using script.rd_bytes [OF rd(1)] by simp
    then have "valid b1 = valid b @ bs" using 1(5) by simp
    then have z: "unat (b_size b1) = unat (b_size b) + length bs"
      using buf_inv_unat(3) [OF 1(2)] buf_inv_unat(3) [OF Suc.prems(1)] by simp
    have "unat (b_count b1) \<le> unat (b_size b1) + length (stream s1)"
      using Suc.prems(4) z 1(3) \<open>stream s = bs @ stream s1\<close> by simp
    moreover have "unat (b_count b1) - unat (b_size b1) \<le> n"
      using Suc.prems(5) z 1(3) rd(2) by (cases bs) auto
    ultimately show ?thesis using Suc.IH [OF 1(2) _ rd(3)] 1 False by auto
  qed auto
qed

subsection \<open>Properties of the buffer\<close>

text \<open>
  C33. Reading: after a successful \<open>bufferPrepareForRead\<close> for \<open>n\<close> bytes, any number of
  \<open>bufferRead\<close> calls on a descriptor that delivers its data in pieces of any sizes, with errors
  in between, neither fails an assertion nor leaves the allocation, loses or repeats no byte, and
  a complete buffer holds exactly the next \<open>n\<close> bytes; with no errors and enough data, \<open>n\<close> calls
  complete it.
\<close>

theorem buffer_read_exact:
  assumes "buf_inv b" and "bufferPrepareForRead ok junk b n = (b0, 0, err)"
  shows "(\<exists>b' s'. read_calls sys_read k b0 s = Inr (b', s') \<and> buf_inv b' \<and>
        valid b' @ stream s' = stream s \<and>
        (bufferReadComplete b' \<longrightarrow> valid b' = take (unat n) (stream s))) \<and>
     (steady s \<longrightarrow> unat n \<le> length (stream s) \<longrightarrow> unat n \<le> k \<longrightarrow>
        (\<exists>b' s'. read_calls sys_read k b0 s = Inr (b', s') \<and> bufferReadComplete b'))"
proof -
  note p = bufferPrepareForRead_eq [OF assms]
  have b0: "buf_inv b0" "b_size b0 = 0" "b_count b0 = n" "valid b0 = []"
    using p(1) p(3) by (simp_all add: valid_def)
  obtain b' s' where 1: "read_calls sys_read k b0 s = Inr (b', s')" "buf_inv b'" "b_count b' = n"
    "valid b' @ stream s' = stream s"
    using script.read_calls_correct [OF b0(1), of k s] b0 by auto
  moreover have "valid b' = take (unat n) (stream s)" if "bufferReadComplete b'"
  proof -
    have "length (valid b') = unat n"
      using buf_inv_unat(3) [OF 1(2)] that 1(3) by (simp add: bufferReadComplete_def)
    then show ?thesis using 1(4) by (metis append_eq_conv_conj)
  qed
  ultimately show ?thesis
    using read_calls_complete [OF b0(1) _ , of s k] b0 by auto
qed

definition empty_buffer :: Buffer where
  "empty_buffer = \<lparr> b_data = [0, 0], b_count = 0, b_size = 0, b_capacity = 2 \<rparr>"

theorem buffer_read_exact_witness:
  "\<exists>b' s'. read_calls sys_read 3 (fst (bufferPrepareForRead True (\<lambda>_. 9) empty_buffer 3))
       [Data [1], Data [2, 3, 4]] = Inr (b', s') \<and> bufferReadComplete b' \<and> valid b' = [1, 2, 3]"
proof -
  have inv: "buf_inv empty_buffer" by (simp add: empty_buffer_def inv_defs)
  obtain b0 where b0: "bufferPrepareForRead True (\<lambda>_. 9) empty_buffer 3 = (b0, 0, None)"
    by (simp add: bufferPrepareForRead_def empty_buffer_def)
  let ?s = "[Data [1], Data [2, 3, 4]]"
  have s: "steady ?s" "stream ?s = [1, 2, 3, 4]" "unat (3 :: size_t) = 3"
    by (simp_all add: steady_def)
  show ?thesis
    using buffer_read_exact [OF inv b0, of 3 ?s] b0 s by (auto simp del: read_calls.simps)
qed

text \<open>
  Writing: after \<open>bufferPrepareForWrite\<close>, any number of \<open>bufferWrite\<close> calls on a descriptor
  that accepts any part of what it is given, or fails, neither fails an assertion nor reads
  outside the buffer; what was written followed by what remains is always the valid data, so a
  complete buffer has been written exactly once and in order.
\<close>

theorem buffer_write_exact:
  assumes "buf_inv b"
  shows "\<exists>b' k'. write_calls sys_write n (bufferPrepareForWrite b) k = Inr (b', k') \<and> buf_inv b' \<and>
     written k' @ unsent b' = written k @ valid b \<and>
     (bufferWriteComplete b' \<longrightarrow> written k' = written k @ valid b)"
proof -
  let ?b = "bufferPrepareForWrite b"
  have b: "buf_inv ?b" "b_count ?b \<le> b_size ?b" "unsent ?b = valid b" "valid ?b = valid b"
    using assms by (simp_all add: bufferPrepareForWrite_def inv_defs unsent_def valid_def)
  obtain b' k' where 1: "write_calls sys_write n ?b k = Inr (b', k')" "buf_inv b'"
    "written k' @ unsent b' = written k @ valid b"
    using file_sink.write_calls_correct [OF b(1,2), of n k] b(3) by auto
  moreover have "unsent b' = []" if "bufferWriteComplete b'"
    using that buf_inv_unat(3) [OF 1(2)] by (simp add: bufferWriteComplete_def unsent_def)
  ultimately show ?thesis by auto
qed

theorem buffer_write_exact_witness:
  "\<exists>b' k'. write_calls sys_write 4 (bufferPrepareForWrite (empty_buffer\<lparr> b_data := [5, 6], b_size := 2 \<rparr>))
       \<lparr> plan = [Accept 1, WriteError 4], written = [1] \<rparr> = Inr (b', k') \<and>
     written k' @ unsent b' = [1] @ [5, 6]"
proof -
  let ?b = "empty_buffer\<lparr> b_data := [5, 6], b_size := 2 \<rparr>"
  have "buf_inv ?b" "valid ?b = [5, 6]" by (simp_all add: empty_buffer_def inv_defs valid_def)
  then show ?thesis
    using buffer_write_exact [of ?b 4 "\<lparr> plan = [Accept 1, WriteError 4], written = [1] \<rparr>"] by auto
qed

end
