(* ===== verification/Record_Stream.thy ===== *)
theory Record_Stream
  imports Posix_IO
begin

text \<open>
  The length-prefixed record stream of \<open>libcutils/record_stream.c\<close>. Pointers are 32-bit
  addresses, so that the pointer additions of the code wrap as they do on the target; \<open>rs_mem\<close> is
  the allocated buffer, which starts at the address \<open>rs_buffer\<close>. The descriptor is the state of
  a reader \<open>rd\<close> with the contract of \<open>read_source\<close>. The theorems show that whatever the
  splitting of the data, the records come out exactly as they were framed.
\<close>

definition HEADER_SIZE :: u32 where "HEADER_SIZE = 4"

record RecordStream =
  rs_fd :: int
  rs_maxRecordLen :: size_t
  rs_mem :: "u8 list"
  rs_buffer :: u32
  rs_unconsumed :: u32
  rs_read_end :: u32
  rs_buffer_end :: u32

datatype stream_fault = AssertFailed | MemoryFault mem_fault

text \<open>The results of \<open>record_stream_get_next\<close>: 0 with a record, 0 with no record at the end of the
  file, the negative result of \<open>read\<close>, and \<open>-1\<close> with \<open>EAGAIN\<close>.\<close>

datatype next_result = Record u32 size_t | EndOfFile | ReadFailed | TryAgain

subsection \<open>Operations\<close>

text \<open>The results of the two allocations are not checked: the first is written to, the second may
  be the null pointer.\<close>

definition record_stream_new ::
  "bool \<Rightarrow> u32 option \<Rightarrow> (nat \<Rightarrow> u8) \<Rightarrow> int \<Rightarrow> size_t \<Rightarrow> stream_fault + RecordStream" where
  "record_stream_new calloc_ok addr junk fd maxRecordLen =
     (if \<not> maxRecordLen \<le> 0xffff then Inl AssertFailed
      else if \<not> calloc_ok then Inl (MemoryFault BadWrite)
      else
        let buffer = (case addr of None \<Rightarrow> 0 | Some p \<Rightarrow> p) in
        Inr \<lparr> rs_fd = fd, rs_maxRecordLen = maxRecordLen,
              rs_mem = (case addr of None \<Rightarrow> []
                        | Some _ \<Rightarrow> map junk [0..<unat (maxRecordLen + HEADER_SIZE)]),
              rs_buffer = buffer, rs_unconsumed = buffer, rs_read_end = buffer,
              rs_buffer_end = buffer + maxRecordLen + HEADER_SIZE \<rparr>)"

text \<open>The blocks that are freed.\<close>

definition record_stream_free :: "RecordStream \<Rightarrow> u8 list \<times> RecordStream" where
  "record_stream_free rs = (rs_mem rs, rs)"

text \<open>\<open>ntohl\<close> of the word at a pointer: its bytes in network order.\<close>

definition ntohl_at :: "u8 list \<Rightarrow> u32 \<Rightarrow> u32 \<Rightarrow> mem_fault + u32" where
  "ntohl_at mem base p =
     (let off = unat (p - base) in
      if off + 4 \<le> length mem
      then Inr (foldl (\<lambda>acc b. acc * 256 + ucast b) 0 (take 4 (drop off mem)))
      else Inl BadRead)"

definition getEndOfRecord :: "u8 list \<Rightarrow> u32 \<Rightarrow> u32 \<Rightarrow> u32 \<Rightarrow> mem_fault + u32 option" where
  "getEndOfRecord mem base p_begin p_end =
     (if p_end < p_begin + HEADER_SIZE then Inr None
      else
        (case ntohl_at mem base p_begin of
           Inl e \<Rightarrow> Inl e
         | Inr len \<Rightarrow>
             let p_ret = p_begin + HEADER_SIZE + len
             in if p_end < p_ret then Inr None else Inr (Some p_ret)))"

definition getNextRecord ::
  "RecordStream \<Rightarrow> mem_fault + (RecordStream \<times> (u32 \<times> size_t) option)" where
  "getNextRecord rs =
     (case getEndOfRecord (rs_mem rs) (rs_buffer rs) (rs_unconsumed rs) (rs_read_end rs) of
        Inl e \<Rightarrow> Inl e
      | Inr None \<Rightarrow> Inr (rs, None)
      | Inr (Some record_end) \<Rightarrow>
          let record_start = rs_unconsumed rs + HEADER_SIZE
          in Inr (rs\<lparr> rs_unconsumed := record_end \<rparr>,
                  Some (record_start, record_end - record_start)))"

text \<open>Moving the unconsumed bytes to the beginning of the buffer.\<close>

definition move_remainder :: "RecordStream \<Rightarrow> mem_fault + RecordStream" where
  "move_remainder rs =
     (if rs_unconsumed rs \<noteq> rs_buffer rs then
        let toMove = rs_read_end rs - rs_unconsumed rs;
            src = unat (rs_unconsumed rs - rs_buffer rs);
            rs' = rs\<lparr> rs_read_end := rs_buffer rs + toMove, rs_unconsumed := rs_buffer rs \<rparr>
        in if toMove \<noteq> 0 then
             if src + unat toMove \<le> length (rs_mem rs)
             then Inr (rs'\<lparr> rs_mem := take (unat toMove) (drop src (rs_mem rs)) @
                                drop (unat toMove) (rs_mem rs) \<rparr>)
             else Inl BadRead
           else Inr rs'
      else Inr rs)"

definition record_stream_get_next ::
  "('s \<Rightarrow> nat \<Rightarrow> (int + u8 list) \<times> 's) \<Rightarrow> RecordStream \<Rightarrow> 's
     \<Rightarrow> stream_fault + (RecordStream \<times> 's \<times> next_result)" where
  "record_stream_get_next rd rs s =
     (case getNextRecord rs of
        Inl e \<Rightarrow> Inl (MemoryFault e)
      | Inr (rs1, Some (start, len)) \<Rightarrow> Inr (rs1, s, Record start len)
      | Inr (rs1, None) \<Rightarrow>
          if rs_unconsumed rs1 = rs_buffer rs1 \<and> rs_read_end rs1 = rs_buffer_end rs1
          then Inl AssertFailed
          else
            (case move_remainder rs1 of
               Inl e \<Rightarrow> Inl (MemoryFault e)
             | Inr rs2 \<Rightarrow>
                 (case rd s (unat (rs_buffer_end rs2 - rs_read_end rs2)) of
                    (Inl e, s') \<Rightarrow> Inr (rs2, s', ReadFailed)
                  | (Inr bs, s') \<Rightarrow>
                      if bs = [] then Inr (rs2, s', EndOfFile)
                      else
                        (case store_list (rs_mem rs2) (unat (rs_read_end rs2 - rs_buffer rs2)) bs of
                           Inl e \<Rightarrow> Inl (MemoryFault e)
                         | Inr mem \<Rightarrow>
                             (case getNextRecord (rs2\<lparr> rs_mem := mem,
                                      rs_read_end := rs_read_end rs2 + of_nat (length bs) \<rparr>) of
                                Inl e \<Rightarrow> Inl (MemoryFault e)
                              | Inr (rs3, None) \<Rightarrow> Inr (rs3, s', TryAgain)
                              | Inr (rs3, Some (start, len)) \<Rightarrow> Inr (rs3, s', Record start len))))))"

subsection \<open>Framing\<close>

text \<open>The frame of a record: its length in four bytes, most significant first, and its bytes.\<close>

definition header :: "nat \<Rightarrow> u8 list" where
  "header n = [of_nat (n div 16777216), of_nat (n div 65536), of_nat (n div 256), of_nat n]"

definition frame :: "u8 list \<Rightarrow> u8 list" where
  "frame r = header (length r) @ r"

definition frames :: "u8 list list \<Rightarrow> u8 list" where
  "frames rs = concat (map frame rs)"

lemma frames_simps [simp]: "frames [] = []" "frames (r # rs) = frame r @ frames rs"
  by (simp_all add: frames_def)

lemma frame_length [simp]: "length (frame r) = length r + 4"
  by (simp add: frame_def header_def)

lemma header_value:
  assumes "n < 65536"
  shows "foldl (\<lambda>acc b. acc * 256 + ucast b) (0 :: u32) (header n) = of_nat n"
proof -
  have z: "n div 16777216 = 0" "n div 65536 = 0" using assms by simp_all
  have u: "(ucast (of_nat k :: u8) :: u32) = of_nat (k mod 256)" for k
    by (simp add: word_unat_eq_iff unat_of_nat)
  have "(of_nat (n div 256 mod 256) * 256 + of_nat (n mod 256) :: u32) =
      of_nat (n div 256 mod 256 * 256 + n mod 256)" by simp
  also have "n div 256 mod 256 * 256 + n mod 256 = n" using assms by simp
  finally show ?thesis unfolding header_def z by (simp add: u)
qed

subsection \<open>Invariant\<close>

text \<open>The buffer lies below the last three 64 KiB of the address space, as user memory does, so
  that no pointer to it plus a record length wraps.\<close>

definition rs_inv :: "RecordStream \<Rightarrow> bool" where [inv_defs]:
  "rs_inv rs \<longleftrightarrow> unat (rs_maxRecordLen rs) \<le> 65535 \<and>
     length (rs_mem rs) = unat (rs_maxRecordLen rs) + 4 \<and>
     unat (rs_buffer rs) + 196608 < 4294967296 \<and>
     unat (rs_buffer_end rs) = unat (rs_buffer rs) + length (rs_mem rs) \<and>
     rs_buffer rs \<le> rs_unconsumed rs \<and> rs_unconsumed rs \<le> rs_read_end rs \<and>
     rs_read_end rs \<le> rs_buffer_end rs"

definition start_off :: "RecordStream \<Rightarrow> nat" where
  "start_off rs = unat (rs_unconsumed rs) - unat (rs_buffer rs)"

definition end_off :: "RecordStream \<Rightarrow> nat" where
  "end_off rs = unat (rs_read_end rs) - unat (rs_buffer rs)"

definition window :: "RecordStream \<Rightarrow> u8 list" where
  "window rs = take (end_off rs - start_off rs) (drop (start_off rs) (rs_mem rs))"

definition record_bytes :: "RecordStream \<Rightarrow> u32 \<Rightarrow> size_t \<Rightarrow> u8 list" where
  "record_bytes rs p len = take (unat len) (drop (unat (p - rs_buffer rs)) (rs_mem rs))"

lemma rs_invD:
  assumes "rs_inv rs"
  shows "unat (rs_unconsumed rs) = unat (rs_buffer rs) + start_off rs"
    "unat (rs_read_end rs) = unat (rs_buffer rs) + end_off rs"
    "unat (rs_buffer_end rs) = unat (rs_buffer rs) + length (rs_mem rs)"
    "start_off rs \<le> end_off rs" "end_off rs \<le> length (rs_mem rs)" "length (rs_mem rs) \<le> 65539"
    "unat (rs_buffer rs) + 196608 < 4294967296" "length (rs_mem rs) = unat (rs_maxRecordLen rs) + 4"
    "length (window rs) = end_off rs - start_off rs"
  using assms by (auto simp: inv_defs start_off_def end_off_def window_def word_le_nat_alt)

lemma HEADER_SIZE_unat [simp]: "unat HEADER_SIZE = 4"
  by (simp add: HEADER_SIZE_def)

lemma unconsumed_plus_header:
  "rs_inv rs \<Longrightarrow> unat (rs_unconsumed rs + HEADER_SIZE) = unat (rs_buffer rs) + start_off rs + 4"
  using rs_invD [of rs] by (simp add: unat_add_small)

text \<open>What the scan sees at the start of a window that begins a sequence of frames: the address of
  the end of the first record.\<close>

lemma first_record_end:
  assumes inv: "rs_inv rs" and pre: "window rs @ rest = frame r @ after"
    and L: "length r \<le> unat (rs_maxRecordLen rs)" and four: "4 \<le> length (window rs)"
  shows "ntohl_at (rs_mem rs) (rs_buffer rs) (rs_unconsumed rs) = Inr (of_nat (length r))"
    and "unat (rs_unconsumed rs + HEADER_SIZE + of_nat (length r)) =
        unat (rs_buffer rs) + start_off rs + 4 + length r"
proof -
  note i = rs_invD [OF inv]
  have "take 4 (window rs) = take 4 (window rs @ rest)" using four by simp
  also have "\<dots> = header (length r)" using pre by (simp add: frame_def header_def)
  finally have h: "take 4 (drop (start_off rs) (rs_mem rs)) = header (length r)"
    using four i(9) by (simp add: window_def min_def split: if_splits)
  have off: "unat (rs_unconsumed rs - rs_buffer rs) = start_off rs"
    using i(1) by (simp add: unat_diff_small)
  have lr: "length r < 65536" using L i(6,8) by simp
  show "ntohl_at (rs_mem rs) (rs_buffer rs) (rs_unconsumed rs) = Inr (of_nat (length r))"
    using four i(5,9) h header_value [OF lr] by (simp add: ntohl_at_def off Let_def)
  show "unat (rs_unconsumed rs + HEADER_SIZE + of_nat (length r)) =
      unat (rs_buffer rs) + start_off rs + 4 + length r"
    using unconsumed_plus_header [OF inv] lr i by (subst unat_add_small) (simp_all add: unat_of_nat)
qed

lemma getNextRecord_short:
  assumes inv: "rs_inv rs" and pre: "window rs @ rest = frames recs"
    and len: "\<forall>r \<in> set recs. length r \<le> unat (rs_maxRecordLen rs)"
    and short: "recs = [] \<or> length (window rs) < length (hd recs) + 4"
  shows "getNextRecord rs = Inr (rs, None)"
proof -
  note i = rs_invD [OF inv]
  show ?thesis
  proof (cases "length (window rs) < 4")
    case True
    then have "rs_read_end rs < rs_unconsumed rs + HEADER_SIZE"
      using i unconsumed_plus_header [OF inv] by (simp add: word_less_nat_alt)
    then show ?thesis by (simp add: getNextRecord_def getEndOfRecord_def)
  next
    case False
    then obtain r recs' where r: "recs = r # recs'" "length (window rs) < length r + 4"
      using short pre by (cases recs) auto
    note e = first_record_end [OF inv, of rest r "frames recs'"]
    have "rs_read_end rs < rs_unconsumed rs + HEADER_SIZE + of_nat (length r)"
      using e(2) pre r len False i by (simp add: word_less_nat_alt)
    then show ?thesis
      using e(1) pre r len False by (simp add: getNextRecord_def getEndOfRecord_def Let_def)
  qed
qed

lemma getNextRecord_full:
  assumes inv: "rs_inv rs" and pre: "window rs @ rest = frame r @ after"
    and L: "length r \<le> unat (rs_maxRecordLen rs)" and full: "length r + 4 \<le> length (window rs)"
  shows "\<exists>rs' p n. getNextRecord rs = Inr (rs', Some (p, n)) \<and> rs_inv rs' \<and> record_bytes rs' p n = r \<and>
     window rs' @ rest = after \<and> rs_maxRecordLen rs' = rs_maxRecordLen rs"
proof -
  note i = rs_invD [OF inv] and e = first_record_end [OF inv pre L]
  let ?q = "rs_unconsumed rs + HEADER_SIZE + of_nat (length r)"
  let ?p = "rs_unconsumed rs + HEADER_SIZE" and ?rs = "rs\<lparr> rs_unconsumed := ?q \<rparr>"
  have q: "unat ?q = unat (rs_buffer rs) + start_off rs + 4 + length r" using e(2) full by simp
  have p: "unat ?p = unat (rs_buffer rs) + start_off rs + 4" by (rule unconsumed_plus_header [OF inv])
  have n: "unat (?q - ?p) = length r" using L i(6,8) by (simp add: unat_of_nat)
  have "\<not> rs_read_end rs < ?p" "\<not> rs_read_end rs < ?q"
    using i p q full by (simp_all add: word_less_nat_alt)
  then have g: "getNextRecord rs = Inr (?rs, Some (?p, ?q - ?p))"
    using e(1) full by (simp add: getNextRecord_def getEndOfRecord_def Let_def)
  have inv': "rs_inv ?rs"
    using inv q i full by (auto simp: inv_defs word_le_nat_alt)
  have so: "start_off ?rs = start_off rs + (4 + length r)" "end_off ?rs = end_off rs"
    using q by (simp_all add: start_off_def end_off_def)
  have w: "window rs = frame r @ window ?rs"
  proof -
    have "window ?rs = drop (4 + length r) (window rs)"
      unfolding window_def so by (simp add: drop_take add.commute add.left_commute)
    moreover have "take (4 + length r) (window rs) = frame r"
    proof -
      have "take (4 + length r) (window rs) = take (4 + length r) (window rs @ rest)" using full by simp
      then show ?thesis using pre by simp
    qed
    ultimately show ?thesis by (metis append_take_drop_id)
  qed
  have "record_bytes ?rs ?p (?q - ?p) = r"
  proof -
    have o: "unat (?p - rs_buffer rs) = start_off rs + 4" using p by (simp add: unat_diff_small)
    have "take (length r) (drop 4 (window rs)) = r" using w by (simp add: frame_def header_def)
    moreover have "take (length r) (drop 4 (window rs)) =
        take (length r) (drop (start_off rs + 4) (rs_mem rs))"
      using full i(9) by (simp add: window_def drop_take min_def add.commute)
    ultimately show ?thesis unfolding record_bytes_def n by (simp add: o)
  qed
  then show ?thesis using g inv' w pre by auto
qed

lemma move_remainder_eq:
  assumes inv: "rs_inv rs"
  shows "\<exists>rs'. move_remainder rs = Inr rs' \<and> rs_inv rs' \<and> window rs' = window rs \<and>
     rs_unconsumed rs' = rs_buffer rs' \<and> end_off rs' = length (window rs) \<and>
     rs_maxRecordLen rs' = rs_maxRecordLen rs"
proof -
  note i = rs_invD [OF inv]
  show ?thesis
  proof (cases "rs_unconsumed rs = rs_buffer rs")
    case True
    then show ?thesis using inv i by (simp add: move_remainder_def start_off_def)
  next
    case False
    let ?m = "rs_read_end rs - rs_unconsumed rs"
    let ?mem = "window rs @ drop (length (window rs)) (rs_mem rs)"
    let ?rs = "rs\<lparr> rs_read_end := rs_buffer rs + ?m, rs_unconsumed := rs_buffer rs, rs_mem := ?mem \<rparr>"
    have m: "unat ?m = length (window rs)" using i by (simp add: unat_diff_small)
    have src: "unat (rs_unconsumed rs - rs_buffer rs) = start_off rs"
      using i(1) by (simp add: unat_diff_small)
    have w: "take (unat ?m) (drop (start_off rs) (rs_mem rs)) = window rs"
      using m i(9) by (simp add: window_def)
    have b: "unat (rs_buffer rs + ?m) = unat (rs_buffer rs) + length (window rs)"
      using m i by (subst unat_add_small) simp_all
    have len: "length (window rs) \<le> length (rs_mem rs)" using i by simp
    have "move_remainder rs = Inr ?rs"
    proof (cases "?m = 0")
      case True
      then have "window rs = []" using m by simp
      then show ?thesis using False True by (simp add: move_remainder_def Let_def)
    next
      case nz: False
      then show ?thesis using False src w m i by (simp add: move_remainder_def Let_def)
    qed
    moreover have "rs_inv ?rs"
      using inv b len i by (auto simp: inv_defs word_le_nat_alt)
    moreover have "end_off ?rs = length (window rs)" "start_off ?rs = 0"
      using b by (simp_all add: end_off_def start_off_def)
    moreover from this have "window ?rs = window rs" unfolding window_def [of ?rs] by simp
    ultimately show ?thesis by (intro exI [of _ ?rs]) simp
  qed
qed

text \<open>The scan in general: what it delivers, or that the window does not hold the first record.\<close>

definition scanned :: "RecordStream \<Rightarrow> u8 list \<Rightarrow> u8 list list \<Rightarrow> RecordStream \<Rightarrow> (u32 \<times> size_t) option \<Rightarrow> bool" where
  "scanned rs rest recs rs' out \<longleftrightarrow> rs_inv rs' \<and> rs_maxRecordLen rs' = rs_maxRecordLen rs \<and>
     (case out of
        None \<Rightarrow> rs' = rs \<and> (recs = [] \<or> length (window rs) < length (hd recs) + 4)
      | Some (p, n) \<Rightarrow> \<exists>r recs'. recs = r # recs' \<and> record_bytes rs' p n = r \<and>
            window rs' @ rest = frames recs')"

lemma getNextRecord_scanned:
  assumes inv: "rs_inv rs" and pre: "window rs @ rest = frames recs"
    and len: "\<forall>r \<in> set recs. length r \<le> unat (rs_maxRecordLen rs)"
  shows "\<exists>rs' out. getNextRecord rs = Inr (rs', out) \<and> scanned rs rest recs rs' out"
proof (cases "recs = [] \<or> length (window rs) < length (hd recs) + 4")
  case True
  then show ?thesis using getNextRecord_short [OF assms] inv by (auto simp: scanned_def)
next
  case False
  then obtain r recs' where r: "recs = r # recs'" "length r + 4 \<le> length (window rs)"
    by (cases recs) auto
  have "length r \<le> unat (rs_maxRecordLen rs)" "window rs @ rest = frame r @ frames recs'"
    using len pre r by simp_all
  then obtain rs' p n where "getNextRecord rs = Inr (rs', Some (p, n))" "rs_inv rs'"
    "record_bytes rs' p n = r" "window rs' @ rest = frames recs'" "rs_maxRecordLen rs' = rs_maxRecordLen rs"
    using getNextRecord_full [OF inv _ _ r(2)] by blast
  then show ?thesis using r by (auto simp: scanned_def)
qed

lemma unscanned_not_full:
  assumes inv: "rs_inv rs" and pre: "window rs @ rest = frames recs"
    and len: "\<forall>r \<in> set recs. length r \<le> unat (rs_maxRecordLen rs)"
    and short: "recs = [] \<or> length (window rs) < length (hd recs) + 4"
  shows "\<not> (rs_unconsumed rs = rs_buffer rs \<and> rs_read_end rs = rs_buffer_end rs)"
proof
  note i = rs_invD [OF inv]
  assume "rs_unconsumed rs = rs_buffer rs \<and> rs_read_end rs = rs_buffer_end rs"
  then have "length (window rs) = length (rs_mem rs)"
    using i(3,9) by (simp add: start_off_def end_off_def)
  moreover have "length (window rs) < length (rs_mem rs)"
    using short len i(8) pre by (cases recs) auto
  ultimately show False by simp
qed

lemma append_to_window:
  assumes inv: "rs_inv rs" and start: "rs_unconsumed rs = rs_buffer rs"
    and bs: "length bs \<le> unat (rs_buffer_end rs - rs_read_end rs)"
  shows "\<exists>mem. store_list (rs_mem rs) (unat (rs_read_end rs - rs_buffer rs)) bs = Inr mem \<and>
     (let rs' = rs\<lparr> rs_mem := mem, rs_read_end := rs_read_end rs + of_nat (length bs) \<rparr>
      in rs_inv rs' \<and> window rs' = window rs @ bs)"
proof -
  note j = rs_invD [OF inv]
  have b: "length bs \<le> length (rs_mem rs) - end_off rs" using bs j by (simp add: unat_diff_small)
  have off: "unat (rs_read_end rs - rs_buffer rs) = end_off rs" using j by (simp add: unat_diff_small)
  let ?mem = "take (end_off rs) (rs_mem rs) @ bs @ drop (end_off rs + length bs) (rs_mem rs)"
  let ?rs = "rs\<lparr> rs_mem := ?mem, rs_read_end := rs_read_end rs + of_nat (length bs) \<rparr>"
  have st: "store_list (rs_mem rs) (end_off rs) bs = Inr ?mem"
    using store_list_ok [of "end_off rs" bs "rs_mem rs"] b j(5) by simp
  have "unat (of_nat (length bs) :: u32) = length bs" using b j by (simp add: unat_of_nat)
  then have re: "unat (rs_read_end rs + of_nat (length bs)) = unat (rs_buffer rs) + (end_off rs + length bs)"
    using j b by (subst unat_add_small) simp_all
  have "rs_inv ?rs" using inv re b j by (auto simp: inv_defs word_le_nat_alt)
  moreover have "start_off ?rs = 0" "start_off rs = 0" "end_off ?rs = end_off rs + length bs"
    using start re by (simp_all add: start_off_def end_off_def)
  then have "window ?rs = window rs @ bs" using j(5) b by (simp add: window_def)
  ultimately show ?thesis using st off by (auto simp: Let_def)
qed

context read_source
begin

text \<open>One call, when the buffered and the coming bytes are the frames of \<open>recs\<close>.\<close>

lemma get_next_step:
  assumes inv: "rs_inv rs" and pre: "window rs @ bytes_of s = frames recs"
    and len: "\<forall>r \<in> set recs. length r \<le> unat (rs_maxRecordLen rs)"
  shows "\<exists>rs' s' res. record_stream_get_next rd rs s = Inr (rs', s', res) \<and> rs_inv rs' \<and>
     rs_maxRecordLen rs' = rs_maxRecordLen rs \<and>
     (case res of
        Record p n \<Rightarrow> \<exists>r recs'. recs = r # recs' \<and> record_bytes rs' p n = r \<and>
            window rs' @ bytes_of s' = frames recs'
      | _ \<Rightarrow> window rs' @ bytes_of s' = frames recs)"
proof -
  obtain rs1 out where g: "getNextRecord rs = Inr (rs1, out)" "scanned rs (bytes_of s) recs rs1 out"
    using getNextRecord_scanned [OF assms] by blast
  show ?thesis
  proof (cases out)
    case (Some x)
    then show ?thesis using g by (cases x) (auto simp: record_stream_get_next_def scanned_def)
  next
    case None
    then have short: "rs1 = rs" "recs = [] \<or> length (window rs) < length (hd recs) + 4"
      using g(2) by (auto simp: scanned_def)
    note noassert = unscanned_not_full [OF inv pre len short(2)]
    obtain rs2 where m: "move_remainder rs = Inr rs2" "rs_inv rs2" "window rs2 = window rs"
      "rs_unconsumed rs2 = rs_buffer rs2" "rs_maxRecordLen rs2 = rs_maxRecordLen rs"
      using move_remainder_eq [OF inv] by blast
    obtain x s' where rd: "rd s (unat (rs_buffer_end rs2 - rs_read_end rs2)) = (x, s')" by fastforce
    have keep: "bytes_of s = (case x of Inl _ \<Rightarrow> [] | Inr bs \<Rightarrow> bs) @ bytes_of s'"
      by (rule rd_conserves [OF rd])
    show ?thesis
    proof (cases "x = Inr [] \<or> (\<exists>e. x = Inl e)")
      case True
      then show ?thesis
        using g(1) None short(1) noassert m rd keep pre by (auto simp: record_stream_get_next_def)
    next
      case False
      then obtain bs where x: "x = Inr bs" "bs \<noteq> []" by (cases x) auto
      have "length bs \<le> unat (rs_buffer_end rs2 - rs_read_end rs2)"
        using rd_bytes [of s _ bs s'] rd x(1) by auto
      then obtain mem rs' where st: "store_list (rs_mem rs2) (unat (rs_read_end rs2 - rs_buffer rs2)) bs = Inr mem"
        "rs' = rs2\<lparr> rs_mem := mem, rs_read_end := rs_read_end rs2 + of_nat (length bs) \<rparr>"
        "rs_inv rs'" "window rs' = window rs2 @ bs"
        using append_to_window [OF m(2,4)] unfolding Let_def by blast
      have max: "rs_maxRecordLen rs' = rs_maxRecordLen rs" using st(2) m(5) by simp
      have pre': "window rs' @ bytes_of s' = frames recs" using st(4) m(3) keep x(1) pre by simp
      obtain rs3 out' where h: "getNextRecord rs' = Inr (rs3, out')"
        "scanned rs' (bytes_of s') recs rs3 out'"
        using getNextRecord_scanned [OF st(3) pre'] len max by auto
      then show ?thesis
        using g(1) None short(1) noassert m(1) rd x st(1,2) max pre'
        by (cases out') (auto simp: record_stream_get_next_def scanned_def)
    qed
  qed
qed

end

subsection \<open>Properties of the record stream\<close>

text \<open>A client that calls until the end of the file, collecting the records; it calls again after
  \<open>EAGAIN\<close> and after an error of \<open>read\<close>. The first argument bounds the number of calls.\<close>

fun drain ::
  "nat \<Rightarrow> RecordStream \<Rightarrow> read_event list \<Rightarrow> stream_fault + (u8 list list \<times> bool)" where
  "drain 0 rs s = Inr ([], False)"
| "drain (Suc n) rs s =
     (case record_stream_get_next sys_read rs s of
        Inl e \<Rightarrow> Inl e
      | Inr (rs', s', Record p len) \<Rightarrow>
          map_sum id (\<lambda>(out, done). (record_bytes rs' p len # out, done)) (drain n rs' s')
      | Inr (rs', s', EndOfFile) \<Rightarrow> Inr ([], True)
      | Inr (rs', s', ReadFailed) \<Rightarrow> drain n rs' s'
      | Inr (rs', s', TryAgain) \<Rightarrow> drain n rs' s')"

text \<open>A script whose data events are not empty: an empty read is the end of the file.\<close>

definition no_empty :: "read_event list \<Rightarrow> bool" where
  "no_empty s \<longleftrightarrow> Data [] \<notin> set s"

lemma sys_read_no_empty:
  assumes "no_empty s" and "sys_read s n = (r, s')" and "0 < n"
  shows "no_empty s'" and "r = Inr [] \<longleftrightarrow> s = []"
    and "s \<noteq> [] \<Longrightarrow> length (stream s') + length s' < length (stream s) + length s"
  using assms by (cases "(s, n)" rule: sys_read.cases; auto simp: no_empty_def split: if_splits)+

text \<open>The reads of a call: none, or one with room in the buffer.\<close>

lemma get_next_source:
  assumes inv: "rs_inv rs" and pre: "window rs @ stream s = frames recs"
    and len: "\<forall>r \<in> set recs. length r \<le> unat (rs_maxRecordLen rs)"
    and ne: "no_empty s" and call: "record_stream_get_next sys_read rs s = Inr (rs', s', res)"
  shows "no_empty s' \<and> length (stream s') + length s' \<le> length (stream s) + length s \<and>
     (case res of Record p n \<Rightarrow> True | EndOfFile \<Rightarrow> s = [] \<and> recs = []
      | _ \<Rightarrow> length (stream s') + length s' < length (stream s) + length s)"
proof -
  obtain rs1 out where g: "getNextRecord rs = Inr (rs1, out)" "scanned rs (stream s) recs rs1 out"
    using getNextRecord_scanned [OF inv pre len] by blast
  show ?thesis
  proof (cases out)
    case (Some x)
    then show ?thesis using g call ne by (cases x) (auto simp: record_stream_get_next_def)
  next
    case None
    then have short: "rs1 = rs" "recs = [] \<or> length (window rs) < length (hd recs) + 4"
      using g(2) by (auto simp: scanned_def)
    note noassert = unscanned_not_full [OF inv pre len short(2)]
    obtain rs2 where m: "move_remainder rs = Inr rs2" "rs_inv rs2" "window rs2 = window rs"
      "rs_unconsumed rs2 = rs_buffer rs2" "end_off rs2 = length (window rs)"
      "rs_maxRecordLen rs2 = rs_maxRecordLen rs"
      using move_remainder_eq [OF inv] by blast
    note i = rs_invD [OF m(2)]
    have "length (window rs) < length (rs_mem rs2)"
      using short(2) len i(8) m(6) pre by (cases recs) auto
    then have room: "0 < unat (rs_buffer_end rs2 - rs_read_end rs2)"
      using i m(5) by (simp add: unat_diff_small)
    obtain x s1 where rd: "sys_read s (unat (rs_buffer_end rs2 - rs_read_end rs2)) = (x, s1)" by fastforce
    note rn = sys_read_no_empty [OF ne rd room]
    have nil: "s = [] \<Longrightarrow> recs = []"
    proof (rule ccontr)
      assume "s = []" "recs \<noteq> []"
      then have "window rs = frames recs" using pre by simp
      then show False using \<open>recs \<noteq> []\<close> short(2) by (cases recs) auto
    qed
    show ?thesis
    proof (cases "s = []")
      case True
      then show ?thesis
        using call g(1) None short(1) noassert m(1) rd nil
        by (auto simp: record_stream_get_next_def no_empty_def)
    next
      case False
      have "s' = s1 \<and> res \<noteq> EndOfFile"
        using call g(1) None short(1) noassert m(1) rd rn(2) False
        by (auto simp: record_stream_get_next_def split: sum.splits if_splits option.splits prod.splits)
      then show ?thesis using rn(1) rn(3) [OF False] by (cases res) auto
    qed
  qed
qed

text \<open>
  C10. Framing: whatever sizes the data arrives in and whichever reads fail in between, calling
  \<open>record_stream_get_next\<close> until the end of the file delivers exactly the framed records, in order
  and each once, and then reports the end; no call fails its assertion or leaves the buffer. The
  number of calls is bounded by the records, the bytes and the read events.
\<close>

theorem record_stream_delivers:
  assumes "rs_inv rs" and "window rs @ stream s = frames recs" and "no_empty s"
    and "\<forall>r \<in> set recs. length r \<le> unat (rs_maxRecordLen rs)"
    and "length recs + length (stream s) + length s < n"
  shows "drain n rs s = Inr (recs, True)"
  using assms
proof (induction n arbitrary: rs s recs)
  case (Suc n)
  obtain rs' s' res where c: "record_stream_get_next sys_read rs s = Inr (rs', s', res)" "rs_inv rs'"
    "rs_maxRecordLen rs' = rs_maxRecordLen rs"
    "case res of Record p k \<Rightarrow> \<exists>r recs'. recs = r # recs' \<and> record_bytes rs' p k = r \<and>
        window rs' @ stream s' = frames recs'
     | _ \<Rightarrow> window rs' @ stream s' = frames recs"
    using script.get_next_step [OF Suc.prems(1,2,4)] by blast
  note d = get_next_source [OF Suc.prems(1,2,4,3) c(1)]
  show ?case
  proof (cases res)
    case (Record p k)
    then obtain r recs' where r: "recs = r # recs'" "record_bytes rs' p k = r"
      "window rs' @ stream s' = frames recs'"
      using c(4) by auto
    then have "drain n rs' s' = Inr (recs', True)"
      using d c(3) Suc.prems(4,5) Suc.IH [OF c(2) r(3)] by auto
    then show ?thesis using Record c(1) r by simp
  next
    case EndOfFile
    then show ?thesis using c(1) d by simp
  qed (use c d Suc.prems(4,5) Suc.IH [OF c(2), of s' recs] in auto)
qed simp

definition two_byte_stream :: RecordStream where
  "two_byte_stream = \<lparr> rs_fd = 3, rs_maxRecordLen = 2, rs_mem = [0, 0, 0, 0, 0, 0], rs_buffer = 4096,
     rs_unconsumed = 4096, rs_read_end = 4096, rs_buffer_end = 4102 \<rparr>"

theorem record_stream_delivers_witness:
  "drain 30 two_byte_stream [Data [0, 0, 0, 2, 7], ReadError 4, Data [8, 0, 0, 0, 1, 9]]
     = Inr ([[7, 8], [9]], True)"
proof -
  let ?s = "[Data [0, 0, 0, 2, 7], ReadError 4, Data [8, 0, 0, 0, 1, 9]]"
  have "rs_inv two_byte_stream" "window two_byte_stream = []" "no_empty ?s"
    "rs_maxRecordLen two_byte_stream = 2"
    by (simp_all add: two_byte_stream_def inv_defs window_def end_off_def start_off_def no_empty_def)
  moreover have "stream ?s = frames [[7, 8], [9]]"
    by (simp add: frame_def header_def)
  ultimately show ?thesis
    using record_stream_delivers [of two_byte_stream ?s "[[7, 8], [9]]" 30] by simp
qed

text \<open>
  A new stream satisfies the invariant and has nothing buffered, when the allocations succeed
  at an address of user memory; a maximal record length above 65535 fails the assertion.
\<close>

theorem record_stream_new_inv:
  assumes "unat p + 196608 < 4294967296"
  shows "if maxRecordLen \<le> 0xffff
     then \<exists>rs. record_stream_new True (Some p) junk fd maxRecordLen = Inr rs \<and> rs_inv rs \<and>
            window rs = [] \<and> rs_maxRecordLen rs = maxRecordLen \<and> rs_fd rs = fd
     else record_stream_new calloc_ok addr junk fd maxRecordLen = Inl AssertFailed"
proof (cases "maxRecordLen \<le> 0xffff")
  case True
  then have l: "unat maxRecordLen \<le> 65535" by (simp add: word_le_nat_alt)
  have h: "unat (maxRecordLen + HEADER_SIZE) = unat maxRecordLen + 4"
    using l by (simp add: unat_add_small)
  have e: "unat (p + maxRecordLen + HEADER_SIZE) = unat p + (unat maxRecordLen + 4)"
    using assms l by (simp add: unat_add_small)
  then have "p \<le> p + maxRecordLen + HEADER_SIZE" by (simp add: word_le_nat_alt)
  then show ?thesis
    using True l h e assms
    by (simp add: record_stream_new_def Let_def inv_defs window_def end_off_def start_off_def)
qed (simp add: record_stream_new_def)

theorem record_stream_new_inv_witness:
  "\<exists>rs. record_stream_new True (Some 4096) (\<lambda>_. 0) 5 100 = Inr rs \<and> rs_inv rs \<and> window rs = []"
  using record_stream_new_inv [of 4096 100 "\<lambda>_. 0" 5] by auto

text \<open>The guard on record lengths is needed. A length field near \<open>2 ^ 32\<close> makes the end of the
  record wrap around to an address before its start, and the scan accepts it.\<close>

lemma getEndOfRecord_wraps:
  assumes "4 \<le> length mem" and "take 4 mem = [0xff, 0xff, 0xff, 0xff]"
    and "unat base + 4 < 4294967296" and "base + HEADER_SIZE \<le> p_end"
  shows "getEndOfRecord mem base base p_end = Inr (Some (base + 3))"
proof -
  have n: "ntohl_at mem base base = Inr 0xffffffff" using assms(1,2) by (simp add: ntohl_at_def)
  have "base + 3 \<le> base + HEADER_SIZE"
    using assms(3) by (simp add: word_le_nat_alt unat_add_small HEADER_SIZE_def)
  then have ok: "\<not> p_end < base + 3" "\<not> p_end < base + HEADER_SIZE" using assms(4) by auto
  have eq: "base + HEADER_SIZE + 0xffffffff = base + 3" by (simp add: HEADER_SIZE_def)
  show ?thesis
    unfolding getEndOfRecord_def n sum.case eq Let_def using ok by (simp only: if_False)
qed

end
