(* ===== verification/Mem_Stream.thy ===== *)
theory Mem_Stream
  imports Prelude_C
begin

text \<open>
  The memory-backed stream of \<open>libcutils/open_memstream.c\<close> (its \<open>HAVE_FUNOPEN\<close> part). The block
  at \<open>*bufp\<close> is the list \<open>ms_buf\<close>, empty for the null pointer; \<open>ms_sizep\<close> is the value
  published at \<open>*sizep\<close>. Between operations the character at the write offset is replaced by a
  NUL and kept in \<open>saved\<close>. The theorems relate this to a file: a list of bytes and a position.
\<close>

record MemStream =
  ms_buf :: "u8 list"
  ms_sizep :: size_t
  ms_allocSize :: size_t
  ms_eof :: size_t
  ms_offset :: size_t
  ms_saved :: u8

datatype memstream_fault = AssertFailed | MemFault mem_fault

definition kInitialSize :: size_t where "kInitialSize = 1024"
definition EINVAL :: int where "EINVAL = 22"

datatype whence = SEEK_SET | SEEK_CUR | SEEK_END

subsection \<open>Operations\<close>

definition ensureCapacity :: "bool \<Rightarrow> (nat \<Rightarrow> u8) \<Rightarrow> MemStream \<Rightarrow> int \<Rightarrow> MemStream \<times> int" where
  "ensureCapacity realloc_ok junk stream writeSize =
     (let neededSize = ms_offset stream + of_int writeSize + 1 in
      if neededSize \<le> ms_allocSize stream then (stream, 0)
      else
        let newSize0 = (if ms_allocSize stream = 0 then kInitialSize
                        else ms_allocSize stream + ms_allocSize stream div 2);
            newSize = (if newSize0 < neededSize then neededSize else newSize0)
        in if \<not> realloc_ok then (stream, -1)
           else (stream\<lparr> ms_buf := take (unat newSize) (ms_buf stream) @
                                  map junk [length (ms_buf stream)..<unat newSize],
                         ms_allocSize := newSize \<rparr>, 0))"

text \<open>\<open>memset\<close> and \<open>memcpy\<close> write through \<open>store_list\<close>; a single character is read or written
  inside the block or it is a fault.\<close>

definition write_memstream ::
  "bool \<Rightarrow> (nat \<Rightarrow> u8) \<Rightarrow> MemStream \<Rightarrow> u8 list \<Rightarrow> memstream_fault + (MemStream \<times> int)" where
  "write_memstream realloc_ok junk stream0 buf =
     (let size = int (length buf); (stream, r) = ensureCapacity realloc_ok junk stream0 size in
      if r < 0 then Inr (stream, -1)
      else
        let eof = ms_eof stream; offset = ms_offset stream in
        (case (if eof < offset
               then store_list (ms_buf stream) (unat eof) (replicate (unat (offset - eof)) 0)
               else Inr (ms_buf stream)) of
           Inl e \<Rightarrow> Inl (MemFault e)
         | Inr b1 \<Rightarrow>
             (case store_list b1 (unat offset) buf of
                Inl e \<Rightarrow> Inl (MemFault e)
              | Inr b2 \<Rightarrow>
                  let offset' = offset + of_int size in
                  if offset' > eof then
                    if \<not> offset' < ms_allocSize stream then Inl AssertFailed
                    else
                      (case store_list b2 (unat offset') [0] of
                         Inl e \<Rightarrow> Inl (MemFault e)
                       | Inr b3 \<Rightarrow> Inr (stream\<lparr> ms_buf := b3, ms_offset := offset', ms_eof := offset',
                                            ms_sizep := offset' \<rparr>, size))
                  else if unat offset' < length b2 then
                    (case store_list b2 (unat offset') [0] of
                       Inl e \<Rightarrow> Inl (MemFault e)
                     | Inr b3 \<Rightarrow> Inr (stream\<lparr> ms_buf := b3, ms_offset := offset',
                                          ms_saved := b2 ! unat offset', ms_sizep := offset' \<rparr>, size))
                  else Inl (MemFault BadRead))))"

text \<open>The new stream, the result, and \<open>errno\<close> where it is set.\<close>

definition seek_memstream ::
  "MemStream \<Rightarrow> int \<Rightarrow> whence \<Rightarrow> memstream_fault + (MemStream \<times> int \<times> int option)" where
  "seek_memstream stream offset whence =
     (let newPosn = (case whence of
            SEEK_CUR \<Rightarrow> s32 (offset + uint (ms_offset stream))
          | SEEK_END \<Rightarrow> s32 (offset + uint (ms_eof stream))
          | SEEK_SET \<Rightarrow> offset)
      in if newPosn < 0 \<or> s32 (uint (of_int newPosn :: size_t)) \<noteq> newPosn
         then Inr (stream, -1, Some EINVAL)
         else
           (case (if ms_offset stream < ms_eof stream
                  then store_list (ms_buf stream) (unat (ms_offset stream)) [ms_saved stream]
                  else Inr (ms_buf stream)) of
              Inl e \<Rightarrow> Inl (MemFault e)
            | Inr b1 \<Rightarrow>
                let stream1 = stream\<lparr> ms_buf := b1, ms_offset := of_int newPosn \<rparr> in
                if ms_offset stream1 < ms_eof stream1 then
                  if unat (ms_offset stream1) < length b1 then
                    (case store_list b1 (unat (ms_offset stream1)) [0] of
                       Inl e \<Rightarrow> Inl (MemFault e)
                     | Inr b2 \<Rightarrow> Inr (stream1\<lparr> ms_buf := b2, ms_saved := b1 ! unat (ms_offset stream1),
                                        ms_sizep := ms_offset stream1 \<rparr>, newPosn, None))
                  else Inl (MemFault BadRead)
                else Inr (stream1\<lparr> ms_sizep := ms_eof stream1 \<rparr>, newPosn, None)))"

text \<open>The block that is freed; the data stays with the caller.\<close>

definition close_memstream :: "MemStream \<Rightarrow> u8 list \<times> int" where
  "close_memstream stream = (ms_buf stream, 0)"

text \<open>The stream, or NULL with \<open>errno\<close> where it is set. The flags say whether the two pointers are
  given and whether \<open>calloc\<close> and \<open>funopen\<close> succeed.\<close>

definition open_memstream :: "bool \<Rightarrow> bool \<Rightarrow> bool \<Rightarrow> MemStream option \<times> int option" where
  "open_memstream pointers_given calloc_ok funopen_ok =
     (if \<not> pointers_given then (None, Some EINVAL)
      else if \<not> calloc_ok then (None, None)
      else if \<not> funopen_ok then (None, None)
      else (Some \<lparr> ms_buf = [], ms_sizep = 0, ms_allocSize = 0, ms_eof = 0, ms_offset = 0,
                   ms_saved = 0 \<rparr>, None))"

subsection \<open>The file a stream stands for\<close>

definition file_of :: "MemStream \<Rightarrow> u8 list" where
  "file_of st = (let c = take (unat (ms_eof st)) (ms_buf st) in
     if ms_offset st < ms_eof st then c[unat (ms_offset st) := ms_saved st] else c)"

definition ms_inv :: "MemStream \<Rightarrow> bool" where [inv_defs]:
  "ms_inv st \<longleftrightarrow> length (ms_buf st) = unat (ms_allocSize st) \<and>
     unat (ms_offset st) < 2147483648 \<and>
     (if ms_allocSize st = 0 then ms_eof st = 0 else ms_eof st < ms_allocSize st) \<and>
     ms_sizep st = min (ms_offset st) (ms_eof st) \<and>
     (ms_allocSize st \<noteq> 0 \<longrightarrow> ms_buf st ! unat (ms_eof st) = 0 \<and>
        ms_buf st ! unat (ms_sizep st) = 0)"

fun file_write :: "u8 list \<times> nat \<Rightarrow> u8 list \<Rightarrow> u8 list \<times> nat" where
  "file_write (f, pos) bs =
     (let g = f @ replicate (pos - length f) 0
      in (take pos g @ bs @ drop (pos + length bs) g, pos + length bs))"

fun file_seek :: "u8 list \<times> nat \<Rightarrow> int \<Rightarrow> whence \<Rightarrow> nat option" where
  "file_seek (f, pos) offset whence =
     (let p = offset + (case whence of SEEK_SET \<Rightarrow> 0 | SEEK_CUR \<Rightarrow> int pos | SEEK_END \<Rightarrow> int (length f))
      in if 0 \<le> p \<and> p \<le> INT_MAX then Some (nat p) else None)"

lemma ms_invD:
  assumes "ms_inv st"
  shows "length (ms_buf st) = unat (ms_allocSize st)" "unat (ms_offset st) < 2147483648"
    "unat (ms_eof st) \<le> length (ms_buf st)" "length (file_of st) = unat (ms_eof st)"
    "unat (ms_sizep st) = min (unat (ms_offset st)) (unat (ms_eof st))"
    "ms_buf st \<noteq> [] \<Longrightarrow> unat (ms_eof st) < length (ms_buf st) \<and> ms_buf st ! unat (ms_eof st) = 0"
proof -
  have le: "unat (ms_eof st) \<le> length (ms_buf st)"
    using assms by (auto simp: inv_defs word_less_nat_alt split: if_splits)
  then show "unat (ms_eof st) \<le> length (ms_buf st)" "length (file_of st) = unat (ms_eof st)"
    by (auto simp: file_of_def Let_def)
  show "length (ms_buf st) = unat (ms_allocSize st)" "unat (ms_offset st) < 2147483648"
    "ms_buf st \<noteq> [] \<Longrightarrow> unat (ms_eof st) < length (ms_buf st) \<and> ms_buf st ! unat (ms_eof st) = 0"
    using assms by (auto simp: inv_defs word_less_nat_alt split: if_splits)
  show "unat (ms_sizep st) = min (unat (ms_offset st)) (unat (ms_eof st))"
    using assms by (auto simp: inv_defs min_def word_le_nat_alt)
qed

text \<open>Growing keeps the file and gives room for the write and its NUL.\<close>

lemma ensureCapacity_eq:
  assumes inv: "ms_inv st" and n: "unat (ms_offset st) + n < 2147483648"
    and e: "ensureCapacity ok junk st (int n) = (st', r)"
  shows "r \<noteq> 0 \<Longrightarrow> r = -1 \<and> st' = st \<and> \<not> ok"
    and "ok \<Longrightarrow> r = 0"
    and "r = 0 \<Longrightarrow> unat (ms_offset st) + n < length (ms_buf st') \<and>
        length (ms_buf st') = unat (ms_allocSize st') \<and>
        take (length (ms_buf st)) (ms_buf st') = ms_buf st \<and>
        ms_eof st' = ms_eof st \<and> ms_offset st' = ms_offset st \<and> ms_saved st' = ms_saved st"
proof -
  note i = ms_invD [OF inv]
  let ?need = "ms_offset st + of_int (int n) + 1"
  have un: "unat (of_nat n :: size_t) = n" using n by (simp add: unat_of_nat)
  have u1: "unat (ms_offset st + of_nat n) = unat (ms_offset st) + n"
    using n un by (simp add: unat_word_ariths)
  then have need: "unat ?need = unat (ms_offset st) + n + 1"
    using n by (simp add: unat_Suc_u32)
  show "r \<noteq> 0 \<Longrightarrow> r = -1 \<and> st' = st \<and> \<not> ok" "ok \<Longrightarrow> r = 0"
    using e by (auto simp: ensureCapacity_def Let_def split: if_splits)
  assume r: "r = 0"
  show "unat (ms_offset st) + n < length (ms_buf st') \<and> length (ms_buf st') = unat (ms_allocSize st') \<and>
      take (length (ms_buf st)) (ms_buf st') = ms_buf st \<and>
      ms_eof st' = ms_eof st \<and> ms_offset st' = ms_offset st \<and> ms_saved st' = ms_saved st"
  proof (cases "?need \<le> ms_allocSize st")
    case True
    then show ?thesis
      using e r need i(1) by (auto simp: ensureCapacity_def Let_def word_le_nat_alt)
  next
    case False
    define new where "new = (let new0 = (if ms_allocSize st = 0 then kInitialSize
        else ms_allocSize st + ms_allocSize st div 2) in if new0 < ?need then ?need else new0)"
    have ge: "unat ?need \<le> unat new" by (simp add: new_def Let_def word_less_nat_alt)
    have lt: "length (ms_buf st) \<le> unat new"
      using False ge i(1) by (simp add: word_le_nat_alt)
    have st': "st' = st\<lparr> ms_buf := take (unat new) (ms_buf st) @ map junk [length (ms_buf st)..<unat new],
        ms_allocSize := new \<rparr>"
      using e r False unfolding ensureCapacity_def Let_def new_def by (auto split: if_splits)
    show ?thesis using st' lt ge need by simp
  qed
qed

text \<open>The bytes before the position, with the gap filled, and those that a write overwrites.\<close>

lemma file_take:
  assumes "ms_inv st" and "take (length (ms_buf st)) B = ms_buf st"
  shows "take (unat (ms_offset st)) (file_of st @ replicate (unat (ms_offset st) - unat (ms_eof st)) 0) =
     take (unat (ms_offset st)) (take (unat (ms_eof st)) B) @
       replicate (unat (ms_offset st) - unat (ms_eof st)) 0"
proof -
  have "take (unat (ms_eof st)) (ms_buf st) = take (unat (ms_eof st)) B"
    using assms(2) ms_invD(3) [OF assms(1)] by (metis min.absorb1 take_take)
  then show ?thesis
    using ms_invD(4) [OF assms(1)] by (auto simp: file_of_def Let_def word_less_nat_alt)
qed

lemma file_of_stomped:
  assumes "ms_offset st < ms_eof st" and "ms_buf st = xs[unat (ms_offset st) := z]"
    and "ms_saved st = xs ! unat (ms_offset st)"
  shows "file_of st = take (unat (ms_eof st)) xs"
  using assms by (simp add: file_of_def Let_def take_update_swap [symmetric])

lemma file_of_plain: "\<not> ms_offset st < ms_eof st \<Longrightarrow> file_of st = take (unat (ms_eof st)) (ms_buf st)"
  by (simp add: file_of_def Let_def)

lemma fill_gap:
  fixes offset eof :: size_t
  assumes "unat offset \<le> length B"
  shows "(if eof < offset then store_list B (unat eof) (replicate (unat (offset - eof)) 0) else Inr B) =
     Inr (take (unat offset) (take (unat eof) B) @ replicate (unat offset - unat eof) 0 @ drop (unat offset) B)"
proof (cases "eof < offset")
  case True
  then have "unat (offset - eof) = unat offset - unat eof" "unat eof < unat offset"
    by (auto simp: word_less_nat_alt unat_diff_small)
  then show ?thesis using True store_list_ok [of "unat eof" "replicate (unat offset - unat eof) 0" B] assms
    by simp
next
  case False
  then show ?thesis by (simp add: word_less_nat_alt)
qed

lemma file_drop:
  assumes "ms_inv st" and "take (length (ms_buf st)) B = ms_buf st"
    and "unat (ms_offset st) < k" "k \<le> unat (ms_eof st)"
  shows "drop k (file_of st) = drop k (take (unat (ms_eof st)) B)"
proof -
  have "take (unat (ms_eof st)) (ms_buf st) = take (unat (ms_eof st)) B"
    using assms(2) ms_invD(3) [OF assms(1)] by (metis min.absorb1 take_take)
  then show ?thesis using assms(3) by (simp add: file_of_def Let_def)
qed

lemma write_memstream_ok:
  assumes inv: "ms_inv st" and n: "unat (ms_offset st) + length bs < 2147483648"
    and ne: "bs \<noteq> [] \<or> ms_eof st \<le> ms_offset st"
  shows "\<exists>st'. write_memstream True junk st bs = Inr (st', int (length bs)) \<and> ms_inv st' \<and>
     (file_of st', unat (ms_offset st')) = file_write (file_of st, unat (ms_offset st)) bs"
proof -
  obtain st1 r where cap: "ensureCapacity True junk st (int (length bs)) = (st1, r)" by fastforce
  note c = ensureCapacity_eq [OF inv n cap] and i = ms_invD [OF inv]
  let ?O = "unat (ms_offset st)" and ?E = "unat (ms_eof st)" and ?B = "ms_buf st1" and ?n = "length bs"
  have r: "r = 0" using c(2) by simp
  have st1: "?O + ?n < length ?B" "length ?B = unat (ms_allocSize st1)"
    "take (length (ms_buf st)) ?B = ms_buf st" "ms_eof st1 = ms_eof st" "ms_offset st1 = ms_offset st"
    using c(3) [OF r] by auto
  define pre where "pre = take ?O (take ?E ?B) @ replicate (?O - ?E) 0"
  have EB: "?E < length ?B"
  proof (cases "ms_buf st = []")
    case True
    then show ?thesis using i(3) st1(1) by (cases ?B) simp_all
  next
    case False
    then show ?thesis using i(6) st1(3) by (metis length_take min_less_iff_conj)
  qed
  have pre: "length pre = ?O" using EB st1(1) by (simp add: pre_def)
  let ?b2 = "pre @ bs @ drop (?O + ?n) ?B"
  have off: "unat (ms_offset st + of_nat ?n) = ?O + ?n"
    using n by (simp add: unat_word_ariths unat_of_nat)
  have b1: "(if ms_eof st < ms_offset st
       then store_list ?B ?E (replicate (unat (ms_offset st - ms_eof st)) 0) else Inr ?B) =
      Inr (pre @ drop ?O ?B)"
    using fill_gap [of "ms_offset st" ?B "ms_eof st"] st1(1) by (simp add: pre_def)
  have b2: "store_list (pre @ drop ?O ?B) ?O bs = Inr ?b2"
    using store_list_ok [of ?O bs "pre @ drop ?O ?B"] pre st1(1) by (simp add: add.commute)
  have len: "length ?b2 = length ?B" using pre st1(1) by simp
  let ?b3 = "?b2[?O + ?n := 0]"
  have b3: "store_list ?b2 (?O + ?n) [0] = Inr ?b3" using len st1(1) by simp
  have fw: "fst (file_write (file_of st, ?O) bs) = pre @ bs @ drop (?O + ?n) (file_of st)"
    using file_take [OF inv st1(3)] i(4) by (simp add: Let_def pre_def)
  show ?thesis
  proof (cases "?E < ?O + ?n")
    case True
    let ?st = "st1\<lparr> ms_buf := ?b3, ms_offset := ms_offset st + of_nat ?n,
       ms_eof := ms_offset st + of_nat ?n, ms_sizep := ms_offset st + of_nat ?n \<rparr>"
    have lt: "ms_eof st < ms_offset st + of_nat ?n" "ms_offset st + of_nat ?n < ms_allocSize st1"
      using True off st1(1,2) by (simp_all add: word_less_nat_alt)
    have w: "write_memstream True junk st bs = Inr (?st, int ?n)"
      unfolding write_memstream_def cap Let_def prod.case r st1(4,5) b1 sum.case b2
      using lt off b3 by simp
    have "file_of ?st = pre @ bs" using off pre by (simp add: file_of_def Let_def)
    moreover have "drop (?O + ?n) (file_of st) = []" using True i(4) by simp
    moreover have "ms_inv ?st" using lt off n len st1(1,2) by (auto simp: inv_defs)
    ultimately show ?thesis using w fw off by (simp add: Let_def)
  next
    case False
    let ?st = "st1\<lparr> ms_buf := ?b3, ms_offset := ms_offset st + of_nat ?n,
       ms_saved := ?b2 ! (?O + ?n), ms_sizep := ms_offset st + of_nat ?n \<rparr>"
    have nlt: "\<not> ms_eof st < ms_offset st + of_nat ?n" using False off by (simp add: word_less_nat_alt)
    have w: "write_memstream True junk st bs = Inr (?st, int ?n)"
      unfolding write_memstream_def cap Let_def prod.case r st1(4,5) b1 sum.case b2
      using nlt off b3 len st1(1) by simp
    have nm: "ms_buf st \<noteq> []" if "?O + ?n < ?E" using that i(3) by auto
    have "drop (?O + ?n) (file_of st) = drop (?O + ?n) (take ?E ?B)"
    proof (cases "bs = []")
      case True
      then have "?E \<le> ?O" using ne by (simp add: word_le_nat_alt)
      then show ?thesis using i(4) by simp
    next
      case b: False
      then show ?thesis using file_drop [OF inv st1(3), of "?O + ?n"] False by simp
    qed
    moreover have "take ?E ?b2 = pre @ bs @ drop (?O + ?n) (take ?E ?B)"
      using pre False by (simp add: take_drop)
    moreover have "file_of ?st = take ?E ?b2"
    proof (cases "?O + ?n < ?E")
      case True
      then have "ms_offset ?st < ms_eof ?st" using off st1(4) by (simp add: word_less_nat_alt)
      moreover have "ms_buf ?st = ?b2[unat (ms_offset ?st) := 0]"
        "ms_saved ?st = ?b2 ! unat (ms_offset ?st)" by (simp_all add: off)
      ultimately have "file_of ?st = take (unat (ms_eof ?st)) ?b2" by (rule file_of_stomped)
      then show ?thesis by (simp add: st1(4))
    next
      case e: False
      then have "\<not> ms_offset ?st < ms_eof ?st" using off st1(4) by (simp add: word_less_nat_alt)
      then have "file_of ?st = take ?E ?b3" using file_of_plain [of ?st] st1(4) by simp
      then show ?thesis using e by simp
    qed
    moreover have "ms_inv ?st"
    proof -
      have "?b3 ! ?E = 0" if "?O + ?n < ?E"
      proof -
        have "?b3 ! ?E = ?B ! ?E" using that pre EB by (auto simp: nth_append)
        also have "\<dots> = ms_buf st ! ?E" using i(6) nm [OF that] st1(3) by (metis nth_take)
        finally show ?thesis using i(6) nm [OF that] by simp
      qed
      moreover have "?b3 ! (?O + ?n) = 0" using len st1(1) by simp
      moreover have "min (ms_offset st + of_nat ?n) (ms_eof st) = ms_offset st + of_nat ?n"
        using nlt by (simp add: min_def not_less)
      ultimately show ?thesis
        using EB len st1(2,4) off n False
        by (cases "?O + ?n = ?E") (auto simp: inv_defs word_less_nat_alt)
    qed
    ultimately show ?thesis using w fw off by (simp add: Let_def)
  qed
qed

lemma seek_position:
  assumes inv: "ms_inv st" and off: "in_s32 off"
    and p: "p = (case w of SEEK_CUR \<Rightarrow> s32 (off + uint (ms_offset st))
          | SEEK_END \<Rightarrow> s32 (off + uint (ms_eof st)) | SEEK_SET \<Rightarrow> off)"
    and eof: "unat (ms_eof st) < 2147483648"
  shows "(0 \<le> p \<and> s32 (uint (of_int p :: size_t)) = p) \<longleftrightarrow>
       file_seek (file_of st, unat (ms_offset st)) off w \<noteq> None"
    and "0 \<le> p \<Longrightarrow> file_seek (file_of st, unat (ms_offset st)) off w = Some (nat p)"
    and "0 \<le> p \<Longrightarrow> unat (of_int p :: size_t) = nat p \<and> nat p < 2147483648"
proof -
  let ?base = "case w of SEEK_SET \<Rightarrow> 0 | SEEK_CUR \<Rightarrow> uint (ms_offset st) | SEEK_END \<Rightarrow> uint (ms_eof st)"
  have u: "uint x < 2147483648" if "unat x < 2147483648" for x :: size_t
  proof -
    have "int (unat x) < 2147483648" using that by linarith
    then show ?thesis by simp
  qed
  have b: "0 \<le> ?base" "?base < 2147483648"
    using u [OF ms_invD(2) [OF inv]] u [OF eof] by (auto split: whence.split)
  have o: "- 2147483648 \<le> off" "off \<le> 2147483647" using in_s32D [OF off] by auto
  have pb: "p = s32 (off + ?base)" using p off by (cases w) (simp_all add: s32_id)
  have pr: "p = (if off + ?base \<le> 2147483647 then off + ?base else off + ?base - 4294967296)"
    unfolding pb using o b s32_id [OF in_s32I, of "off + ?base"] s32_high [of "off + ?base"]
    by (cases "off + ?base \<le> 2147483647") auto
  have nn: "0 \<le> p \<longleftrightarrow> 0 \<le> off + ?base \<and> off + ?base \<le> 2147483647" using pr o b by auto
  have fs: "file_seek (file_of st, unat (ms_offset st)) off w =
      (if 0 \<le> off + ?base \<and> off + ?base \<le> 2147483647 then Some (nat (off + ?base)) else None)"
    using ms_invD(4) [OF inv] by (cases w) (simp_all add: INT_MAX_def Let_def)
  have le: "0 \<le> p \<Longrightarrow> p \<le> 2147483647" using pr nn by auto
  show pu: "unat (of_int p :: size_t) = nat p \<and> nat p < 2147483648" if nn0: "0 \<le> p"
  proof -
    obtain n where "p = int n" by (rule nonneg_int_cases [OF nn0])
    then show ?thesis using le [OF nn0] by (simp add: unat_of_nat)
  qed
  show "0 \<le> p \<Longrightarrow> file_seek (file_of st, unat (ms_offset st)) off w = Some (nat p)"
    using fs nn pr by simp
  have "s32 (uint (of_int p :: size_t)) = p" if nn0: "0 \<le> p"
  proof -
    have "uint (of_int p :: size_t) = int (unat (of_int p :: size_t))" by simp
    also have "\<dots> = p" unfolding conjunct1 [OF pu [OF nn0]] using nn0 by simp
    finally show ?thesis using nn0 le [OF nn0] s32_id [of p] by (simp add: in_s32I)
  qed
  then show "(0 \<le> p \<and> s32 (uint (of_int p :: size_t)) = p) \<longleftrightarrow>
      file_seek (file_of st, unat (ms_offset st)) off w \<noteq> None"
    using fs nn by auto
qed

lemma seek_memstream_ok:
  assumes inv: "ms_inv st" and off: "in_s32 off" and eof: "unat (ms_eof st) < 2147483648"
  shows "case file_seek (file_of st, unat (ms_offset st)) off w of
       None \<Rightarrow> seek_memstream st off w = Inr (st, -1, Some EINVAL)
     | Some p \<Rightarrow> \<exists>st'. seek_memstream st off w = Inr (st', int p, None) \<and> ms_inv st' \<and>
         file_of st' = file_of st \<and> unat (ms_offset st') = p"
proof -
  define p where "p = (case w of SEEK_CUR \<Rightarrow> s32 (off + uint (ms_offset st))
          | SEEK_END \<Rightarrow> s32 (off + uint (ms_eof st)) | SEEK_SET \<Rightarrow> off)"
  note q = seek_position [OF inv off p_def eof] and i = ms_invD [OF inv]
  show ?thesis
  proof (cases "0 \<le> p \<and> s32 (uint (of_int p :: size_t)) = p")
    case False
    then have "seek_memstream st off w = Inr (st, -1, Some EINVAL)"
      unfolding seek_memstream_def p_def [symmetric] Let_def by auto
    then show ?thesis using False q(1) by auto
  next
    case True
    let ?O = "unat (ms_offset st)" and ?E = "unat (ms_eof st)" and ?P = "of_int p :: size_t"
    have P: "unat ?P = nat p" "nat p < 2147483648" using q(3) True by auto
    define b1 where "b1 = (if ms_offset st < ms_eof st then (ms_buf st)[?O := ms_saved st] else ms_buf st)"
    have len: "length b1 = length (ms_buf st)" by (simp add: b1_def)
    have st1: "(if ms_offset st < ms_eof st then store_list (ms_buf st) ?O [ms_saved st]
        else Inr (ms_buf st)) = Inr b1"
      using i(3) by (auto simp: b1_def word_less_nat_alt)
    have keep: "take ?E b1 = file_of st"
      by (simp add: b1_def file_of_def Let_def take_update_swap)
    have end0: "b1 ! ?E = 0 \<and> ?E < length b1" if "ms_allocSize st \<noteq> 0"
    proof -
      have "ms_buf st \<noteq> []" using that i(1) by (auto simp: unat_eq_0)
      then show ?thesis using i(6) by (auto simp: b1_def word_less_nat_alt)
    qed
    have body: "seek_memstream st off w =
        (let stream1 = st\<lparr> ms_buf := b1, ms_offset := ?P \<rparr> in
         if ms_offset stream1 < ms_eof stream1 then
           if unat (ms_offset stream1) < length b1 then
             (case store_list b1 (unat (ms_offset stream1)) [0] of
                Inl e \<Rightarrow> Inl (MemFault e)
              | Inr b2 \<Rightarrow> Inr (stream1\<lparr> ms_buf := b2, ms_saved := b1 ! unat (ms_offset stream1),
                                 ms_sizep := ms_offset stream1 \<rparr>, p, None))
           else Inl (MemFault BadRead)
         else Inr (stream1\<lparr> ms_sizep := ms_eof stream1 \<rparr>, p, None))"
      unfolding seek_memstream_def p_def [symmetric] using True st1 by (simp add: Let_def)
    have "\<exists>st'. seek_memstream st off w = Inr (st', p, None) \<and> ms_inv st' \<and>
        file_of st' = file_of st \<and> ms_offset st' = ?P"
    proof (cases "?P < ms_eof st")
      case lt: True
      let ?st = "st\<lparr> ms_buf := b1[nat p := 0], ms_offset := ?P, ms_saved := b1 ! nat p, ms_sizep := ?P \<rparr>"
      have pe: "nat p < ?E" using lt P by (simp add: word_less_nat_alt)
      then have nb: "ms_allocSize st \<noteq> 0" using i(1,3) by (auto simp: unat_eq_0)
      have "seek_memstream st off w = Inr (?st, p, None)"
        unfolding body using lt P pe i(3) len by (simp add: Let_def)
      moreover have "file_of ?st = take (unat (ms_eof ?st)) b1"
        using lt P by (intro file_of_stomped) simp_all
      moreover have "ms_inv ?st"
        using inv lt P pe end0 [OF nb] len by (auto simp: inv_defs min_def)
      ultimately show ?thesis using keep by auto
    next
      case ge: False
      let ?st = "st\<lparr> ms_buf := b1, ms_offset := ?P, ms_sizep := ms_eof st \<rparr>"
      have "seek_memstream st off w = Inr (?st, p, None)"
        unfolding body using ge by (simp add: Let_def)
      moreover have "file_of ?st = take ?E b1" using ge file_of_plain [of ?st] by simp
      moreover have "ms_inv ?st"
        using inv ge P end0 len by (auto simp: inv_defs min_def)
      ultimately show ?thesis using keep by auto
    qed
    then show ?thesis using q(2) True P(1) by auto
  qed
qed

subsection \<open>Properties of the memory stream\<close>

text \<open>What the caller sees at \<open>*bufp\<close> and \<open>*sizep\<close>.\<close>

lemma published:
  assumes "ms_inv st"
  shows "take (unat (ms_sizep st)) (ms_buf st) = take (min (unat (ms_offset st)) (length (file_of st))) (file_of st)"
    and "ms_buf st \<noteq> [] \<Longrightarrow> ms_buf st ! unat (ms_sizep st) = 0"
proof -
  note i = ms_invD [OF assms]
  show "take (unat (ms_sizep st)) (ms_buf st) =
      take (min (unat (ms_offset st)) (length (file_of st))) (file_of st)"
    using i(4,5) by (auto simp: file_of_def Let_def word_less_nat_alt min_def)
  show "ms_buf st \<noteq> [] \<Longrightarrow> ms_buf st ! unat (ms_sizep st) = 0"
    using assms i(1) by (auto simp: inv_defs)
qed

text \<open>Sequences of writes and seeks. On the file, a write has to stay below 2 GiB, and a write of no
  bytes inside the file is left out: see \<open>empty_write_loses_byte\<close> below.\<close>

datatype mem_op = Write "u8 list" | Seek int whence

fun mem_run :: "(nat \<Rightarrow> u8) \<Rightarrow> mem_op list \<Rightarrow> MemStream \<Rightarrow> memstream_fault + MemStream" where
  "mem_run junk [] st = Inr st"
| "mem_run junk (Write bs # ops) st =
     (case write_memstream True junk st bs of Inl e \<Rightarrow> Inl e | Inr (st', _) \<Rightarrow> mem_run junk ops st')"
| "mem_run junk (Seek off w # ops) st =
     (case seek_memstream st off w of Inl e \<Rightarrow> Inl e | Inr (st', _) \<Rightarrow> mem_run junk ops st')"

fun file_run :: "mem_op list \<Rightarrow> u8 list \<times> nat \<Rightarrow> (u8 list \<times> nat) option" where
  "file_run [] (f, p) = Some (f, p)"
| "file_run (Write bs # ops) (f, p) =
     (if p + length bs < 2147483648 \<and> (bs \<noteq> [] \<or> length f \<le> p)
      then file_run ops (file_write (f, p) bs) else None)"
| "file_run (Seek off w # ops) (f, p) =
     (if in_s32 off
      then file_run ops (f, case file_seek (f, p) off w of None \<Rightarrow> p | Some q \<Rightarrow> q) else None)"

lemma file_write_length:
  "length (fst (file_write (f, p) bs)) = max (length f) (p + length bs)"
  by (auto simp: Let_def max_def min_def)

text \<open>
  C27. The memory stream refines a file: over any sequence of writes and seeks that stays below
  2 GiB and has no write of zero bytes at a position inside the data (where the stream loses a byte), with memory
  available, with seeks past the end, back into the data and out of range, it never leaves its block
  or fails its assertion, and it ends with the contents and position of the file; \<open>*bufp\<close>
  holds the file up to the position or the end, followed by a NUL at \<open>*sizep\<close>.
\<close>
theorem memstream_refines_file:
  assumes "ms_inv st" and "length (file_of st) < 2147483648"
    and "file_run ops (file_of st, unat (ms_offset st)) = Some (f, p)"
  shows "\<exists>st'. mem_run junk ops st = Inr st' \<and> ms_inv st' \<and> file_of st' = f \<and> unat (ms_offset st') = p \<and>
     take (unat (ms_sizep st')) (ms_buf st') = take (min p (length f)) f \<and>
     (ms_buf st' \<noteq> [] \<longrightarrow> ms_buf st' ! unat (ms_sizep st') = 0)"
  using assms
proof (induction ops arbitrary: st)
  case Nil
  then show ?case using published [of st] by auto
next
  case (Cons op ops)
  have eof: "unat (ms_eof st) < 2147483648" "length (file_of st) = unat (ms_eof st)"
    using Cons.prems(2) ms_invD(4) [OF Cons.prems(1)] by auto
  show ?case
  proof (cases op)
    case (Write bs)
    then have g: "unat (ms_offset st) + length bs < 2147483648" "bs \<noteq> [] \<or> ms_eof st \<le> ms_offset st"
      "file_run ops (file_write (file_of st, unat (ms_offset st)) bs) = Some (f, p)"
      using Cons.prems(3) eof(2) by (auto simp: word_le_nat_alt split: if_splits)
    obtain st1 where 1: "write_memstream True junk st bs = Inr (st1, int (length bs))" "ms_inv st1"
      "(file_of st1, unat (ms_offset st1)) = file_write (file_of st, unat (ms_offset st)) bs"
      using write_memstream_ok [OF Cons.prems(1) g(1,2)] by blast
    have "length (file_of st1) < 2147483648"
      using 1(3) file_write_length [of "file_of st" "unat (ms_offset st)" bs] g(1) Cons.prems(2)
      by (metis fst_conv max_less_iff_conj)
    then show ?thesis using Cons.IH [OF 1(2)] 1 g(3) Write by simp
  next
    case (Seek off w)
    then have g: "in_s32 off"
      "file_run ops (file_of st, case file_seek (file_of st, unat (ms_offset st)) off w of
          None \<Rightarrow> unat (ms_offset st) | Some q \<Rightarrow> q) = Some (f, p)"
      using Cons.prems(3) by (auto split: if_splits)
    note s = seek_memstream_ok [OF Cons.prems(1) g(1) eof(1), of w]
    show ?thesis
    proof (cases "file_seek (file_of st, unat (ms_offset st)) off w")
      case None
      then show ?thesis using s g(2) Seek Cons.IH [OF Cons.prems(1,2)] by simp
    next
      case (Some q)
      then obtain st1 where "seek_memstream st off w = Inr (st1, int q, None)" "ms_inv st1"
        "file_of st1 = file_of st" "unat (ms_offset st1) = q"
        using s by auto
      then show ?thesis using Some g(2) Seek Cons.IH [of st1] Cons.prems(2) by simp
    qed
  qed
qed

definition new_stream :: MemStream where
  "new_stream = \<lparr> ms_buf = [], ms_sizep = 0, ms_allocSize = 0, ms_eof = 0, ms_offset = 0, ms_saved = 0 \<rparr>"

theorem memstream_refines_file_witness:
  "\<exists>st'. mem_run (\<lambda>_. 7) [Write [104, 105, 33], Seek 0 SEEK_SET, Write [72], Seek 5 SEEK_CUR, Write [1]] new_stream
       = Inr st' \<and> file_of st' = [72, 105, 33, 0, 0, 0, 1]"
proof -
  have "ms_inv new_stream" "file_of new_stream = []" "unat (ms_offset new_stream) = 0"
    by (simp_all add: new_stream_def inv_defs file_of_def)
  moreover have "file_run [Write [104, 105, 33], Seek 0 SEEK_SET, Write [72], Seek 5 SEEK_CUR, Write [1]] ([], 0) =
      Some ([72, 105, 33, 0, 0, 0, 1], 7)"
    by (simp add: in_s32_def INT_MIN_def INT_MAX_def Let_def numeral_3_eq_3)
  ultimately show ?thesis
    using memstream_refines_file [of new_stream
        "[Write [104, 105, 33], Seek 0 SEEK_SET, Write [72], Seek 5 SEEK_CUR, Write [1]]"
        "[72, 105, 33, 0, 0, 0, 1]" 7 "\<lambda>_. 7"]
    by (auto simp del: file_run.simps mem_run.simps)
qed

text \<open>
  A write for which there is no memory returns \<open>-1\<close> and changes nothing; a new stream is an
  empty file, and \<open>open_memstream\<close> returns NULL exactly when a pointer is missing, with
  \<open>EINVAL\<close>, or an allocation fails.
\<close>

theorem memstream_errors:
  assumes "ms_inv st" and "unat (ms_offset st) + length bs < 2147483648"
  shows "(unat (ms_allocSize st) \<le> unat (ms_offset st) + length bs \<longrightarrow>
        write_memstream False junk st bs = Inr (st, -1)) \<and>
     open_memstream True True True = (Some new_stream, None) \<and> ms_inv new_stream \<and>
     file_of new_stream = [] \<and> open_memstream False calloc_ok funopen_ok = (None, Some EINVAL) \<and>
     open_memstream True False funopen_ok = (None, None) \<and> open_memstream True True False = (None, None)"
proof -
  have n: "unat (ms_offset st + of_nat (length bs) + 1) = unat (ms_offset st) + length bs + 1"
    using assms(2) by (simp add: unat_word_ariths unat_of_nat)
  have "write_memstream False junk st bs = Inr (st, -1)"
    if "unat (ms_allocSize st) \<le> unat (ms_offset st) + length bs"
  proof -
    have "\<not> ms_offset st + of_nat (length bs) + 1 \<le> ms_allocSize st"
      using that n by (simp add: word_le_nat_alt)
    then show ?thesis by (simp add: write_memstream_def ensureCapacity_def Let_def)
  qed
  then show ?thesis
    by (simp add: open_memstream_def new_stream_def inv_defs file_of_def)
qed

theorem memstream_errors_witness: "write_memstream False (\<lambda>_. 7) new_stream [1, 2] = Inr (new_stream, -1)"
  using memstream_errors [of new_stream "[1, 2]" "\<lambda>_. 7"]
  by (simp add: new_stream_def inv_defs)

text \<open>A write of no bytes inside the data saves the NUL in place of the byte it stands for.\<close>

lemma empty_write_loses_byte:
  assumes inv: "ms_inv st" and lt: "ms_offset st < ms_eof st"
  shows "\<exists>st'. write_memstream ok junk st [] = Inr (st', 0) \<and>
     file_of st' = (file_of st)[unat (ms_offset st) := 0]"
proof -
  note i = ms_invD [OF inv]
  have le: "unat (ms_offset st) < unat (ms_eof st)" using lt by (simp add: word_less_nat_alt)
  then have nb: "ms_buf st \<noteq> []" using i(3) by auto
  then have o: "unat (ms_offset st) < unat (ms_eof st)" "unat (ms_eof st) < length (ms_buf st)"
    using le i(6) by auto
  have z: "ms_buf st ! unat (ms_offset st) = 0"
    using published(2) [OF inv nb] i(5) o by (auto simp: min_def)
  have "ms_offset st + 1 \<le> ms_allocSize st"
    using o i(1,2) by (simp add: word_le_nat_alt unat_Suc_u32)
  then have cap: "ensureCapacity ok junk st 0 = (st, 0)" by (simp add: ensureCapacity_def Let_def)
  let ?st = "st\<lparr> ms_buf := (ms_buf st)[unat (ms_offset st) := 0], ms_saved := 0, ms_sizep := ms_offset st \<rparr>"
  have "write_memstream ok junk st [] = Inr (?st, 0)"
    using cap lt o z not_less_iff_gr_or_eq [of "ms_eof st" "ms_offset st"]
    by (simp add: write_memstream_def Let_def)
  moreover have "file_of ?st = (file_of st)[unat (ms_offset st) := 0]"
    using lt by (simp add: file_of_def Let_def take_update_swap)
  ultimately show ?thesis by blast
qed

end
