(* ===== verification/Config_Utils.thy ===== *)
theory Config_Utils
  imports Prelude_C
begin

text \<open>
  The configuration trees of \<open>libcutils/config_utils.c\<close>: the tree operations, the lexer, the
  recursive-descent parser, and \<open>load_file.c\<close>, which reads the text. A \<open>cnode\<close> is a name, a
  value and the list of its children in the order of their \<open>next\<close> links; a pointer to a child
  is its index. The lexer writes NULs into the text at positions it has already passed, which only
  ends the token strings, so a token is its list of characters. The text given to the lexer is a C string,
  a list without NUL (\<open>config_load_file\<close> cuts the file's contents there). The allocations of \<open>config_node\<close>
  are taken to succeed, as the callers take them.
\<close>

datatype cnode = CNode (node_name: string) (node_value: string) (children: "cnode list")

subsection \<open>Trees\<close>

definition config_node :: "string option \<Rightarrow> string option \<Rightarrow> cnode" where
  "config_node name val =
     CNode (case name of Some n \<Rightarrow> n | None \<Rightarrow> '''') (case val of Some v \<Rightarrow> v | None \<Rightarrow> '''') []"

text \<open>The walk over the whole list of children, keeping the last match.\<close>

fun find_loop :: "cnode list \<Rightarrow> string \<Rightarrow> nat \<Rightarrow> nat option \<Rightarrow> nat option" where
  "find_loop [] name i match = match"
| "find_loop (node # ns) name i match =
     find_loop ns name (i + 1) (if node_name node = name then Some i else match)"

definition config_find :: "cnode \<Rightarrow> string \<Rightarrow> nat option" where
  "config_find root name = find_loop (children root) name 0 None"

definition config_create :: "cnode \<Rightarrow> string \<Rightarrow> cnode \<times> nat" where
  "config_create root name =
     (CNode (node_name root) (node_value root) (children root @ [config_node (Some name) None]),
      length (children root))"

definition config_bool :: "cnode \<Rightarrow> string \<Rightarrow> int \<Rightarrow> int" where
  "config_bool root name def =
     (case config_find root name of
        None \<Rightarrow> def
      | Some i \<Rightarrow> if chr_at (node_value (children root ! i)) \<in> {CHR ''y'', CHR ''Y'', CHR ''1''}
                  then 1 else 0)"

definition config_str :: "cnode \<Rightarrow> string \<Rightarrow> string \<Rightarrow> string" where
  "config_str root name def =
     (case config_find root name of None \<Rightarrow> def | Some i \<Rightarrow> node_value (children root ! i))"

definition set_child :: "cnode \<Rightarrow> nat \<Rightarrow> cnode \<Rightarrow> cnode" where
  "set_child root i node = CNode (node_name root) (node_value root) ((children root)[i := node])"

definition set_value :: "cnode \<Rightarrow> string \<Rightarrow> cnode" where
  "set_value node v = CNode (node_name node) v (children node)"

definition config_set :: "cnode \<Rightarrow> string \<Rightarrow> string \<Rightarrow> cnode" where
  "config_set root name val =
     (case config_find root name of
        Some i \<Rightarrow> set_child root i (set_value (children root ! i) val)
      | None \<Rightarrow>
          let (root', i) = config_create root name
          in set_child root' i (set_value (children root' ! i) val))"

subsection \<open>Lexer\<close>

datatype token = T_EOF | T_TEXT | T_DOT | T_OBRACE | T_CBRACE

record cstate =
  cs_data :: string
  cs_text :: string
  cs_next :: char

definition isspace :: "char \<Rightarrow> bool" where
  "isspace c \<longleftrightarrow> c \<in> {CHR '' '', CHR 0x09, CHR 0x0A, CHR 0x0B, CHR 0x0C, CHR 0x0D}"

definition newline :: char where "newline = CHR 0x0A"

definition special :: "char \<Rightarrow> bool" where
  "special c \<longleftrightarrow> c \<in> {CHR ''.'', CHR ''{'', CHR ''}''}"

fun skip_comment :: "string \<Rightarrow> string" where
  "skip_comment [] = []"
| "skip_comment (c # data) = (if c = newline then c # data else skip_comment data)"

text \<open>The rest of a value up to the end of the line, and of a word.\<close>

definition strip_trailing :: "string \<Rightarrow> string" where
  "strip_trailing s = rev (dropWhile isspace (rev s))"

definition lex_value :: "cstate \<Rightarrow> char \<Rightarrow> string \<Rightarrow> token \<times> cstate" where
  "lex_value cs c data =
     (let line = takeWhile (\<lambda>d. d \<noteq> newline) data; rest = dropWhile (\<lambda>d. d \<noteq> newline) data
      in case rest of
           [] \<Rightarrow> (T_TEXT, cs\<lparr> cs_data := [], cs_text := c # data \<rparr>)
         | _ # data' \<Rightarrow> (T_TEXT, cs\<lparr> cs_data := data', cs_text := c # strip_trailing line \<rparr>))"

definition lex_word :: "cstate \<Rightarrow> char \<Rightarrow> string \<Rightarrow> token \<times> cstate" where
  "lex_word cs c data =
     (let inside = (\<lambda>d. \<not> isspace d \<and> \<not> special d);
          word = c # takeWhile inside data; rest = dropWhile inside data
      in case rest of
           [] \<Rightarrow> (T_TEXT, cs\<lparr> cs_data := [], cs_text := word \<rparr>)
         | d # data' \<Rightarrow>
             if isspace d then (T_TEXT, cs\<lparr> cs_data := data', cs_text := word \<rparr>)
             else (T_TEXT, cs\<lparr> cs_data := data', cs_text := word, cs_next := d \<rparr>))"

lemma skip_comment_length: "length (skip_comment data) \<le> length data"
  by (induction data) auto

function lex_loop :: "bool \<Rightarrow> cstate \<Rightarrow> string \<Rightarrow> token \<times> cstate" where
  "lex_loop val cs [] = (T_EOF, cs)"
| "lex_loop val cs (c # data) =
     (if isspace c then lex_loop val cs data
      else if c = CHR ''#'' then
        (case skip_comment data of
           [] \<Rightarrow> (T_EOF, cs\<lparr> cs_data := [] \<rparr>)
         | d # data' \<Rightarrow> lex_loop val (cs\<lparr> cs_data := data' \<rparr>) (d # data'))
      else if c = CHR ''.'' then (T_DOT, cs\<lparr> cs_data := data \<rparr>)
      else if c = CHR ''{'' then (T_OBRACE, cs\<lparr> cs_data := data \<rparr>)
      else if c = CHR ''}'' then (T_CBRACE, cs\<lparr> cs_data := data \<rparr>)
      else if val then lex_value cs c data
      else lex_word cs c data)"
  by pat_completeness auto
termination
proof (relation "measure (\<lambda>(_, _, s). length s)", goal_cases)
  case (3 val cs c data d data')
  then show ?case using skip_comment_length [of data] by simp
qed simp_all

definition lex :: "cstate \<Rightarrow> bool \<Rightarrow> token \<times> cstate" where
  "lex cs val =
     (if cs_next cs \<noteq> NUL
      then lex_loop val (cs\<lparr> cs_next := NUL \<rparr>) (cs_next cs # cs_data cs)
      else lex_loop val cs (cs_data cs))"

subsection \<open>Parser\<close>

text \<open>The result, the lexer state and the updated node; \<open>None\<close> when the fuel, which bounds the
  number of calls and loop rounds, does not suffice.\<close>

fun parse_block :: "nat \<Rightarrow> cstate \<Rightarrow> cnode \<Rightarrow> (int \<times> cstate \<times> cnode) option"
and parse_expr :: "nat \<Rightarrow> cstate \<Rightarrow> cnode \<Rightarrow> (int \<times> cstate \<times> cnode) option"
and expr_loop :: "nat \<Rightarrow> cstate \<Rightarrow> cnode \<Rightarrow> (int \<times> cstate \<times> cnode) option" where
  "parse_block 0 cs node = None"
| "parse_block (Suc n) cs node =
     (case lex cs False of
        (T_TEXT, cs1) \<Rightarrow>
          (case parse_expr n cs1 node of
             None \<Rightarrow> None
           | Some (r, cs2, node') \<Rightarrow>
               if r \<noteq> 0 then Some (-1, cs2, node') else parse_block n cs2 node')
      | (T_CBRACE, cs1) \<Rightarrow> Some (0, cs1, node)
      | (_, cs1) \<Rightarrow> Some (-1, cs1, node))"
| "parse_expr 0 cs root = None"
| "parse_expr (Suc n) cs root =
     (let (root1, i) =
        (case config_find root (cs_text cs) of
           None \<Rightarrow> config_create root (cs_text cs)
         | Some i \<Rightarrow> if node_value (children root ! i) \<noteq> '''' then config_create root (cs_text cs)
                     else (root, i))
      in case expr_loop n cs (children root1 ! i) of
           None \<Rightarrow> None
         | Some (r, cs', node) \<Rightarrow> Some (r, cs', set_child root1 i node))"
| "expr_loop 0 cs node = None"
| "expr_loop (Suc n) cs node =
     (case lex cs True of
        (T_DOT, cs1) \<Rightarrow>
          (case lex cs1 False of
             (T_TEXT, cs2) \<Rightarrow>
               (let (node1, j) = config_create node (cs_text cs2)
                in case expr_loop n cs2 (children node1 ! j) of
                     None \<Rightarrow> None
                   | Some (r, cs3, child) \<Rightarrow> Some (r, cs3, set_child node1 j child))
           | (_, cs2) \<Rightarrow> Some (-1, cs2, node))
      | (T_TEXT, cs1) \<Rightarrow> Some (0, cs1, set_value node (cs_text cs1))
      | (T_OBRACE, cs1) \<Rightarrow> parse_block n cs1 node
      | (_, cs1) \<Rightarrow> Some (-1, cs1, node))"

fun load_loop :: "nat \<Rightarrow> cstate \<Rightarrow> cnode \<Rightarrow> cnode option" where
  "load_loop 0 cs root = None"
| "load_loop (Suc n) cs root =
     (case lex cs False of
        (T_TEXT, cs1) \<Rightarrow>
          (case parse_expr n cs1 root of
             None \<Rightarrow> None
           | Some (r, cs2, root') \<Rightarrow> if r \<noteq> 0 then Some root' else load_loop n cs2 root')
      | (_, cs1) \<Rightarrow> Some root)"

definition config_load :: "nat \<Rightarrow> cnode \<Rightarrow> string option \<Rightarrow> cnode option" where
  "config_load fuel root data =
     (case data of
        None \<Rightarrow> Some root
      | Some d \<Rightarrow> load_loop fuel \<lparr> cs_data = d, cs_text = '''', cs_next = NUL \<rparr> root)"

text \<open>\<open>load_file\<close>: the file's contents, if it can be opened; then the results of the two seeks, the
  allocation, and the number of bytes read. The result is the data and its size.\<close>

definition load_file ::
  "string option \<Rightarrow> int \<Rightarrow> int \<Rightarrow> bool \<Rightarrow> int \<Rightarrow> (string \<times> int) option" where
  "load_file contents seek_end seek_set malloc_ok nread =
     (case contents of
        None \<Rightarrow> None
      | Some bytes \<Rightarrow>
          let sz = seek_end in
          if sz < 0 then None
          else if seek_set \<noteq> 0 then None
          else if \<not> malloc_ok then None
          else if nread \<noteq> sz then None
          else Some (take (nat sz) bytes, sz))"

text \<open>The text ends at its first NUL.\<close>

definition config_load_file ::
  "nat \<Rightarrow> cnode \<Rightarrow> string option \<Rightarrow> int \<Rightarrow> int \<Rightarrow> bool \<Rightarrow> int \<Rightarrow> cnode option" where
  "config_load_file fuel root contents seek_end seek_set malloc_ok nread =
     config_load fuel root
       (map_option (\<lambda>(d, _). takeWhile (\<lambda>c. c \<noteq> NUL) d)
          (load_file contents seek_end seek_set malloc_ok nread))"

subsection \<open>The tree operations\<close>

lemma find_loop_eq:
  "find_loop ns name i m =
     (if \<exists>n \<in> set ns. node_name n = name
      then Some (i + (GREATEST k. k < length ns \<and> node_name (ns ! k) = name)) else m)"
proof (induction ns name i m rule: find_loop.induct)
  case (2 node ns name i m)
  let ?P = "\<lambda>k. k < length (node # ns) \<and> node_name ((node # ns) ! k) = name"
  let ?Q = "\<lambda>k. k < length ns \<and> node_name (ns ! k) = name"
  show ?case
  proof (cases "\<exists>n \<in> set ns. node_name n = name")
    case True
    then obtain k where k: "?Q k" by (auto simp: in_set_conv_nth)
    have g: "?Q (GREATEST k. ?Q k)" by (rule GreatestI_nat [of ?Q k "length ns"]) (use k in auto)
    have "(GREATEST k. ?P k) = Suc (GREATEST k. ?Q k)"
    proof (rule Greatest_equality)
      show "?P (Suc (GREATEST k. ?Q k))" using g by simp
      fix j assume j: "?P j"
      show "j \<le> Suc (GREATEST k. ?Q k)"
      proof (cases j)
        case (Suc l)
        then have "?Q l" using j by simp
        then have "l \<le> (GREATEST k. ?Q k)" by (rule Greatest_le_nat [of ?Q _ "length ns"]) auto
        then show ?thesis using Suc by simp
      qed simp
    qed
    then show ?thesis using 2 True by simp
  next
    case False
    then have "?P j \<Longrightarrow> j = 0" for j by (cases j) (auto dest: nth_mem)
    then have "node_name node = name \<Longrightarrow> (GREATEST k. ?P k) = 0"
      by (intro Greatest_equality) auto
    then show ?thesis using 2 False by auto
  qed
qed simp

lemma config_find_cong:
  "map node_name (children a) = map node_name (children b) \<Longrightarrow> config_find a name = config_find b name"
proof -
  have *: "map node_name xs = map node_name ys \<Longrightarrow> find_loop xs name i m = find_loop ys name i m" for xs ys i m
  proof (induction xs arbitrary: ys i m)
    case (Cons x xs)
    then obtain y ys' where y: "ys = y # ys'" "node_name x = node_name y" "map node_name xs = map node_name ys'"
      by (cases ys) auto
    show ?case unfolding y(1) find_loop.simps y(2) by (rule Cons.IH [OF y(3)])
  qed simp
  show "map node_name (children a) = map node_name (children b) \<Longrightarrow>
      config_find a name = config_find b name" unfolding config_find_def by (rule *)
qed

lemma find_loop_append: "find_loop (xs @ ys) name i m = find_loop ys name (i + length xs) (find_loop xs name i m)"
  by (induction xs arbitrary: i m) auto

lemma config_find_Some:
  assumes "config_find root name = Some i"
  shows "i < length (children root)" "node_name (children root ! i) = name"
proof -
  let ?Q = "\<lambda>k. k < length (children root) \<and> node_name (children root ! k) = name"
  obtain k where k: "?Q k" and i: "i = (GREATEST k. ?Q k)"
    using assms unfolding config_find_def find_loop_eq by (auto simp: in_set_conv_nth split: if_splits)
  have "?Q i" unfolding i by (rule GreatestI_nat [of ?Q k "length (children root)"]) (use k in auto)
  then show "i < length (children root)" "node_name (children root ! i) = name" by auto
qed

lemma config_find_None: "config_find root name = None \<longleftrightarrow> name \<notin> node_name ` set (children root)"
  unfolding config_find_def find_loop_eq by auto

lemma config_find_snoc:
  "config_find (CNode n v (cs @ [c])) name =
     (if node_name c = name then Some (length cs) else config_find (CNode n v cs) name)"
  by (simp add: config_find_def find_loop_append)

lemma config_create_simps [simp]:
  "config_create (CNode n v cs) name = (CNode n v (cs @ [CNode name '''' []]), length cs)"
  by (simp add: config_create_def config_node_def)

lemma config_set_eq:
  "config_set (CNode n v cs) name x =
     (case config_find (CNode n v cs) name of
        Some i \<Rightarrow> CNode n v (cs[i := CNode name x (children (cs ! i))])
      | None \<Rightarrow> CNode n v (cs @ [CNode name x []]))"
  using config_find_Some(2) [of "CNode n v cs" name]
  by (auto simp: config_set_def set_child_def set_value_def split: option.split)

subsection \<open>The lexer makes progress\<close>

definition todo :: "cstate \<Rightarrow> nat" where
  "todo cs = length (cs_data cs) + (if cs_next cs \<noteq> NUL then 1 else 0)"

lemma lex_value_shorter: "todo (snd (lex_value cs c data)) \<le> length data + (if cs_next cs \<noteq> NUL then 1 else 0)"
proof -
  have "length (dropWhile (\<lambda>d. d \<noteq> newline) data) \<le> length data" by (rule length_dropWhile_le)
  then show ?thesis by (auto simp: lex_value_def todo_def Let_def split: list.split)
qed

lemma lex_word_shorter: "cs_next cs = NUL \<Longrightarrow> todo (snd (lex_word cs c data)) \<le> length data"
proof -
  have "length (dropWhile (\<lambda>d. \<not> isspace d \<and> \<not> special d) data) \<le> length data" by (rule length_dropWhile_le)
  then show "cs_next cs = NUL \<Longrightarrow> todo (snd (lex_word cs c data)) \<le> length data"
    by (auto simp: lex_word_def todo_def Let_def split: list.split)
qed

lemma lex_loop_progress:
  assumes "cs_next cs = NUL" and "lex_loop val cs s = (t, cs')"
  shows "t \<noteq> T_EOF \<Longrightarrow> todo cs' < length s" and "todo cs' \<le> max (length s) (todo cs)"
proof -
  have "(t \<noteq> T_EOF \<longrightarrow> todo cs' < length s) \<and> todo cs' \<le> max (length s) (todo cs)"
    using assms
  proof (induction val cs s rule: lex_loop.induct)
    case (2 val cs c data)
    note v = lex_value_shorter [of cs c data] and w = lex_word_shorter [OF "2.prems"(1), of c data]
    consider "isspace c" | "\<not> isspace c" "c = CHR ''#''" | "\<not> isspace c" "c \<noteq> CHR ''#''" by blast
    then show ?case
    proof cases
      case 1
      then show ?thesis using 2 by auto
    next
      case b: 2
      show ?thesis
      proof (cases "skip_comment data")
        case Nil
        then show ?thesis using "2.prems" b by (auto simp: todo_def)
      next
        case (Cons d data')
        have "length (d # data') \<le> length data" using skip_comment_length [of data] Cons by simp
        then show ?thesis
          using "2.IH"(2) [OF b Cons] "2.prems" b Cons by (auto simp: todo_def)
      qed
    next
      case 3
      then show ?thesis using "2.prems" v w by (auto simp: todo_def split: if_splits)
    qed
  qed auto
  then show "t \<noteq> T_EOF \<Longrightarrow> todo cs' < length s" "todo cs' \<le> max (length s) (todo cs)" by auto
qed

lemma lex_progress:
  assumes "lex cs val = (t, cs')"
  shows "t \<noteq> T_EOF \<Longrightarrow> todo cs' < todo cs" and "todo cs' \<le> todo cs"
  using assms lex_loop_progress [of "cs\<lparr> cs_next := NUL \<rparr>" val "cs_next cs # cs_data cs" t cs']
    lex_loop_progress [of cs val "cs_data cs" t cs']
  by (auto simp: lex_def todo_def split: if_splits)

text \<open>The parser returns: two units of fuel per character are enough.\<close>

definition returns :: "nat \<Rightarrow> (int \<times> cstate \<times> cnode) option \<Rightarrow> bool" where
  "returns k x \<longleftrightarrow> (\<exists>r cs node. x = Some (r, cs, node) \<and> todo cs \<le> k)"

lemma returns_Some [simp]: "returns k (Some (r, cs, node)) \<longleftrightarrow> todo cs \<le> k"
  by (simp add: returns_def)

lemma returns_mono: "returns k x \<Longrightarrow> k \<le> l \<Longrightarrow> returns l x"
  by (auto simp: returns_def)

lemma returns_bind:
  assumes "returns k x" and "\<And>r cs node. todo cs \<le> k \<Longrightarrow> returns l (f r cs node)"
  shows "returns l (case x of None \<Rightarrow> None | Some (r, cs, node) \<Rightarrow> f r cs node)"
  using assms by (auto simp: returns_def)

lemma parse_total:
  "2 * todo cs + 1 \<le> n \<Longrightarrow> returns (todo cs) (parse_block n cs node)"
  "2 * todo cs + 2 \<le> n \<Longrightarrow> returns (todo cs) (parse_expr n cs node)"
  "2 * todo cs + 1 \<le> n \<Longrightarrow> returns (todo cs) (expr_loop n cs node)"
proof (induction n cs node and n cs node and n cs node rule: parse_block_parse_expr_expr_loop.induct)
  case (2 n cs node)
  obtain t cs1 where l: "lex cs False = (t, cs1)" by fastforce
  note p = lex_progress [OF l]
  show ?case
  proof (cases "t = T_TEXT")
    case True
    have e: "returns (todo cs1) (parse_expr n cs1 node)"
      using "2.IH"(1) l True p(1) "2.prems" by auto
    have "returns (todo cs) (case parse_expr n cs1 node of None \<Rightarrow> None
        | Some (r, cs2, node') \<Rightarrow> if r \<noteq> 0 then Some (-1, cs2, node') else parse_block n cs2 node')"
    proof (cases "parse_expr n cs1 node")
      case None
      then show ?thesis using e by (simp add: returns_def)
    next
      case (Some x)
      obtain r cs2 node' where x: "x = (r, cs2, node')" by (cases x)
      have le: "todo cs2 \<le> todo cs1" using e Some x by simp
      have "returns (todo cs2) (parse_block n cs2 node')" if "r = 0"
        using "2.IH"(2) l True Some x that le p(1) "2.prems" by auto
      then show ?thesis using Some x le p(2) by (auto intro: returns_mono)
    qed
    then show ?thesis using l True by simp
  next
    case False
    then show ?thesis using l p(2) by (cases t) auto
  qed
next
  case (4 n cs root)
  define ri where "ri = (case config_find root (cs_text cs) of
           None \<Rightarrow> config_create root (cs_text cs)
         | Some i \<Rightarrow> if node_value (children root ! i) \<noteq> '''' then config_create root (cs_text cs)
                     else (root, i))"
  obtain root1 i where ri: "ri = (root1, i)" by (cases ri)
  have "returns (todo cs) (expr_loop n cs (children root1 ! i))"
    using "4.IH" [OF ri_def ri [symmetric]] "4.prems" by auto
  then show ?case using ri unfolding parse_expr.simps ri_def [symmetric]
    by (auto simp: returns_def)
next
  case (6 n cs node)
  obtain t cs1 where l: "lex cs True = (t, cs1)" by fastforce
  note p = lex_progress [OF l]
  show ?case
  proof (cases t)
    case T_DOT
    obtain t2 cs2 where l2: "lex cs1 False = (t2, cs2)" by fastforce
    note p2 = lex_progress [OF l2]
    show ?thesis
    proof (cases "t2 = T_TEXT")
      case True
      obtain node1 j where c: "config_create node (cs_text cs2) = (node1, j)" by fastforce
      have "returns (todo cs2) (expr_loop n cs2 (children node1 ! j))"
        using "6.IH"(1) l l2 T_DOT True c p(1) p2(1) "6.prems" by auto
      then show ?thesis using l l2 T_DOT True c p(2) p2(2) by (auto simp: returns_def)
    next
      case False
      then show ?thesis using l l2 T_DOT p(2) p2(2) by (cases t2) auto
    qed
  next
    case T_OBRACE
    then have "returns (todo cs1) (parse_block n cs1 node)"
      using "6.IH"(2) l p(1) "6.prems" by auto
    then show ?thesis using l T_OBRACE p(2) by (auto intro: returns_mono)
  qed (use l p(2) in auto)
qed auto

lemma load_total: "2 * todo cs + 1 \<le> n \<Longrightarrow> \<exists>root'. load_loop n cs root = Some root'"
proof (induction n cs root rule: load_loop.induct)
  case (2 n cs root)
  obtain t cs1 where l: "lex cs False = (t, cs1)" by fastforce
  note p = lex_progress [OF l]
  show ?case
  proof (cases "t = T_TEXT")
    case True
    have "returns (todo cs1) (parse_expr n cs1 root)"
      using parse_total(2) [of cs1 n root] True p(1) "2.prems" by auto
    then obtain r cs2 root' where x: "parse_expr n cs1 root = Some (r, cs2, root')" "todo cs2 \<le> todo cs1"
      by (auto simp: returns_def)
    then show ?thesis using l True p(1) "2.prems" "2.IH" by auto
  next
    case False
    then show ?thesis using l by (cases t) auto
  qed
qed simp

text \<open>More fuel does not change a result.\<close>

lemma parse_more:
  "parse_block n cs node = Some x \<Longrightarrow> parse_block (n + k) cs node = Some x"
  "parse_expr n cs node = Some x \<Longrightarrow> parse_expr (n + k) cs node = Some x"
  "expr_loop n cs node = Some x \<Longrightarrow> expr_loop (n + k) cs node = Some x"
proof (induction n cs node and n cs node and n cs node arbitrary: x and x and x
    rule: parse_block_parse_expr_expr_loop.induct)
  case (2 n cs node)
  show ?case
    using "2.prems" "2.IH" by (auto split: prod.splits token.splits option.splits if_splits)
next
  case (4 n cs root)
  show ?case using "4.prems" "4.IH" by (auto split: prod.splits option.splits if_splits)
next
  case (6 n cs node)
  show ?case
    using "6.prems" "6.IH" by (auto split: prod.splits token.splits option.splits if_splits)
qed auto

subsection \<open>Printing\<close>

text \<open>A tree in the syntax the parser reads: a leaf is a name and a value on one line, a block is a
  name and its children in braces. \<open>wf_nodes\<close> are the trees that can be written: siblings have
  different names, leaves have a value, blocks have none.\<close>

definition name_ok :: "string \<Rightarrow> bool" where
  "name_ok n \<longleftrightarrow> n \<noteq> '''' \<and> hd n \<noteq> CHR ''#'' \<and> (\<forall>c \<in> set n. \<not> isspace c \<and> \<not> special c \<and> c \<noteq> NUL)"

definition value_ok :: "string \<Rightarrow> bool" where
  "value_ok v \<longleftrightarrow> v \<noteq> '''' \<and> \<not> isspace (hd v) \<and> \<not> special (hd v) \<and> hd v \<noteq> CHR ''#'' \<and>
     \<not> isspace (last v) \<and> newline \<notin> set v \<and> NUL \<notin> set v"

fun print_body :: "cnode \<Rightarrow> string" where
  "print_body (CNode n v cs) =
     (if v \<noteq> '''' then v @ [newline]
      else CHR ''{'' # newline # concat (map (\<lambda>c. node_name c @ '' '' @ print_body c) cs) @ [CHR ''}'', newline])"

definition print_node :: "cnode \<Rightarrow> string" where
  "print_node c = node_name c @ '' '' @ print_body c"

definition print_nodes :: "cnode list \<Rightarrow> string" where
  "print_nodes cs = concat (map print_node cs)"

fun wf_node :: "cnode \<Rightarrow> bool" where
  "wf_node (CNode n v cs) \<longleftrightarrow> name_ok n \<and>
     (if v \<noteq> '''' then value_ok v \<and> cs = [] else distinct (map node_name cs) \<and> (\<forall>c \<in> set cs. wf_node c))"

definition wf_nodes :: "cnode list \<Rightarrow> bool" where
  "wf_nodes cs \<longleftrightarrow> distinct (map node_name cs) \<and> (\<forall>c \<in> set cs. wf_node c)"

lemma print_nodes_simps [simp]: "print_nodes [] = []" "print_nodes (c # cs) = print_node c @ print_nodes cs"
  by (simp_all add: print_nodes_def)

lemma print_body_block: "print_body (CNode n '''' cs) = CHR ''{'' # newline # print_nodes cs @ [CHR ''}'', newline]"
  by (simp add: print_nodes_def print_node_def [abs_def])

declare print_body.simps [simp del]

lemma wf_node_name: "wf_node c \<Longrightarrow> name_ok (node_name c)"
  by (cases c) simp

lemma isspace_newline [simp]: "isspace newline" "isspace (CHR '' '')"
  by (simp_all add: isspace_def newline_def)

lemma not_space_special [simp]: "\<not> isspace (CHR ''{'')" "\<not> isspace (CHR ''}'')" "\<not> isspace (CHR ''.'')"
  by (simp_all add: isspace_def)

lemma lex_name:
  assumes "name_ok n"
  shows "lex_loop False cs (n @ '' '' @ rest) = (T_TEXT, cs\<lparr> cs_data := rest, cs_text := n \<rparr>)"
proof -
  obtain c m where n: "n = c # m" using assms(1) by (cases n) (auto simp: name_ok_def)
  have c: "\<not> isspace c" "c \<noteq> CHR ''#''" "\<not> special c" and m: "\<forall>d \<in> set m. \<not> isspace d \<and> \<not> special d"
    using assms(1) n by (auto simp: name_ok_def)
  have "takeWhile (\<lambda>d. \<not> isspace d \<and> \<not> special d) (m @ CHR '' '' # rest) = m"
    "dropWhile (\<lambda>d. \<not> isspace d \<and> \<not> special d) (m @ CHR '' '' # rest) = CHR '' '' # rest"
    using m by (simp_all add: takeWhile_append2 dropWhile_append2)
  then show ?thesis using n c by (simp add: lex_word_def special_def Let_def)
qed

lemma lex_val:
  assumes "value_ok v" and "cs_next cs = NUL" and "cs_data cs = v @ newline # rest"
  shows "lex cs True = (T_TEXT, cs\<lparr> cs_data := rest, cs_text := v \<rparr>)"
proof -
  obtain c m where v: "v = c # m" using assms(1) by (cases v) (auto simp: value_ok_def)
  have c: "\<not> isspace c" "c \<noteq> CHR ''#''" "\<not> special c" and m: "newline \<notin> set m"
    and l: "m \<noteq> [] \<Longrightarrow> \<not> isspace (last m)"
    using assms(1) v by (auto simp: value_ok_def split: if_splits)
  have nl: "\<forall>d \<in> set m. d \<noteq> newline" using m by auto
  have "takeWhile (\<lambda>d. d \<noteq> newline) (m @ newline # rest) = m"
    "dropWhile (\<lambda>d. d \<noteq> newline) (m @ newline # rest) = newline # rest"
    using nl by (simp_all add: takeWhile_append2 dropWhile_append2)
  moreover have "strip_trailing m = m"
    using l by (cases m rule: rev_cases) (auto simp: strip_trailing_def)
  ultimately show ?thesis using assms(2,3) v c by (simp add: lex_def lex_value_def special_def Let_def)
qed

definition at_text :: "string \<Rightarrow> cstate \<Rightarrow> bool" where
  "at_text s cs \<longleftrightarrow> cs_next cs = NUL \<and> (cs_data cs = s \<or> cs_data cs = newline # s)"

lemma lex_at_text: "at_text s cs \<Longrightarrow> lex cs val = lex_loop val cs s"
  by (auto simp: at_text_def lex_def)

text \<open>Parsing a printed node appends it to its parent, and parsing a printed block appends all.\<close>

definition parses_node :: "cnode \<Rightarrow> bool" where
  "parses_node x \<longleftrightarrow> (\<forall>cs nm v cs0 rest.
     node_name x \<notin> node_name ` set cs0 \<longrightarrow> cs_text cs = node_name x \<longrightarrow> cs_next cs = NUL \<longrightarrow>
     cs_data cs = print_body x @ rest \<longrightarrow>
     (\<exists>f cs'. parse_expr f cs (CNode nm v cs0) = Some (0, cs', CNode nm v (cs0 @ [x])) \<and> at_text rest cs'))"

lemma parses_nodeE:
  assumes "parses_node x" "node_name x \<notin> node_name ` set cs0" "cs_text cs = node_name x" "cs_next cs = NUL"
    "cs_data cs = print_body x @ rest"
  obtains f cs' where "parse_expr f cs (CNode nm v cs0) = Some (0, cs', CNode nm v (cs0 @ [x]))" "at_text rest cs'"
  using assms unfolding parses_node_def by blast

lemma parse_block_nodes:
  assumes "\<forall>x \<in> set ks. wf_node x \<and> parses_node x" and "distinct (map node_name (cs0 @ ks))"
    and "at_text (print_nodes ks @ CHR ''}'' # rest) cs"
  shows "\<exists>f cs'. parse_block f cs (CNode nm v cs0) = Some (0, cs', CNode nm v (cs0 @ ks)) \<and>
     cs_next cs' = NUL \<and> cs_data cs' = rest"
  using assms
proof (induction ks arbitrary: cs0 cs)
  case Nil
  have "lex cs False = (T_CBRACE, cs\<lparr> cs_data := rest \<rparr>)" "cs_next cs = NUL"
    using lex_at_text [OF Nil.prems(3)] Nil.prems(3) by (simp_all add: at_text_def)
  then show ?case by (intro exI [of _ "Suc 0"]) simp
next
  case (Cons x ks)
  let ?n = "node_name x" and ?more = "print_nodes ks @ CHR ''}'' # rest"
  let ?cs1 = "cs\<lparr> cs_data := print_body x @ ?more, cs_text := ?n \<rparr>"
  have l: "lex cs False = (T_TEXT, ?cs1)"
    using lex_at_text [OF Cons.prems(3)] lex_name [of ?n cs "print_body x @ ?more"] Cons.prems(1)
      wf_node_name [of x] by (simp add: print_node_def)
  have "?n \<notin> node_name ` set cs0" "cs_next ?cs1 = NUL"
    using Cons.prems(2,3) by (auto simp: at_text_def)
  then obtain f1 cs2 where 1: "parse_expr f1 ?cs1 (CNode nm v cs0) = Some (0, cs2, CNode nm v (cs0 @ [x]))"
    "at_text ?more cs2"
    using Cons.prems(1) by (auto elim: parses_nodeE [of x cs0 ?cs1 ?more nm v])
  have "distinct (map node_name ((cs0 @ [x]) @ ks))" using Cons.prems(2) by simp
  then obtain f2 cs3 where 2: "parse_block f2 cs2 (CNode nm v (cs0 @ [x])) = Some (0, cs3, CNode nm v (cs0 @ x # ks))"
    "cs_next cs3 = NUL" "cs_data cs3 = rest"
    using Cons.IH [of "cs0 @ [x]" cs2] Cons.prems(1) 1(2) by auto
  have "parse_expr (f1 + f2) ?cs1 (CNode nm v cs0) = Some (0, cs2, CNode nm v (cs0 @ [x]))"
    by (rule parse_more(2) [OF 1(1)])
  moreover have "parse_block (f1 + f2) cs2 (CNode nm v (cs0 @ [x])) = Some (0, cs3, CNode nm v (cs0 @ x # ks))"
    using parse_more(1) [OF 2(1), of f1] by (simp add: add.commute)
  ultimately show ?case using l 2 by (intro exI [of _ "Suc (f1 + f2)"]) auto
qed

lemma parse_expr_create:
  assumes "cs_text cs = name" and "name \<notin> node_name ` set cs0"
    and "expr_loop f cs (CNode name '''' []) = Some (0, cs', x)"
  shows "parse_expr (Suc f) cs (CNode nm v cs0) = Some (0, cs', CNode nm v (cs0 @ [x]))"
  using assms config_find_None [of "CNode nm v cs0" name] by (simp add: set_child_def)

lemma parses_wf: "wf_node x \<Longrightarrow> parses_node x"
proof (induction x)
  case (CNode n w ks)
  show ?case unfolding parses_node_def
  proof (intro allI impI)
    fix cs :: cstate and nm v cs0 rest
    assume nn: "node_name (CNode n w ks) \<notin> node_name ` set cs0" and t: "cs_text cs = node_name (CNode n w ks)"
      and nx: "cs_next cs = NUL" and d: "cs_data cs = print_body (CNode n w ks) @ rest"
    have "\<exists>f cs'. expr_loop f cs (CNode n '''' []) = Some (0, cs', CNode n w ks) \<and> at_text rest cs'"
    proof (cases "w = ''''")
      case False
      then have w: "value_ok w" "ks = []" using CNode.prems by auto
      have "lex cs True = (T_TEXT, cs\<lparr> cs_data := rest, cs_text := w \<rparr>)"
        using lex_val [OF w(1) nx] d False by (simp add: print_body.simps)
      then show ?thesis
        using nx w(2) by (intro exI [of _ "Suc 0"]) (auto simp: set_value_def at_text_def)
    next
      case True
      let ?s = "print_nodes ks @ CHR ''}'' # newline # rest"
      let ?cs1 = "cs\<lparr> cs_data := newline # ?s \<rparr>"
      have l: "lex cs True = (T_OBRACE, ?cs1)"
        using nx d True print_body_block [of n ks] by (simp add: lex_def)
      have "\<forall>x \<in> set ks. wf_node x \<and> parses_node x" "distinct (map node_name ([] @ ks))"
        using CNode True by auto
      moreover have "at_text ?s ?cs1" using nx by (simp add: at_text_def)
      ultimately obtain f cs' where "parse_block f ?cs1 (CNode n '''' []) = Some (0, cs', CNode n '''' ([] @ ks))"
        "cs_next cs' = NUL" "cs_data cs' = newline # rest"
        using parse_block_nodes by blast
      then show ?thesis using l True by (intro exI [of _ "Suc f"]) (auto simp: at_text_def)
    qed
    then show "\<exists>f cs'. parse_expr f cs (CNode nm v cs0) = Some (0, cs', CNode nm v (cs0 @ [CNode n w ks])) \<and>
        at_text rest cs'"
      using parse_expr_create [of cs n cs0 _ _ "CNode n w ks" nm v] t nn by fastforce
  qed
qed

lemma load_loop_nodes:
  assumes "\<forall>x \<in> set ks. wf_node x" and "distinct (map node_name (cs0 @ ks))" and "at_text (print_nodes ks) cs"
  shows "\<exists>f. \<forall>k \<ge> f. load_loop k cs (CNode nm v cs0) = Some (CNode nm v (cs0 @ ks))"
  using assms
proof (induction ks arbitrary: cs0 cs)
  case Nil
  then have "lex cs False = (T_EOF, cs)" by (simp add: lex_at_text)
  then have "load_loop k cs (CNode nm v cs0) = Some (CNode nm v cs0)" if "1 \<le> k" for k
    using that by (cases k) simp_all
  then show ?case by auto
next
  case (Cons x ks)
  let ?n = "node_name x" and ?more = "print_nodes ks"
  let ?cs1 = "cs\<lparr> cs_data := print_body x @ ?more, cs_text := ?n \<rparr>"
  have l: "lex cs False = (T_TEXT, ?cs1)"
    using lex_at_text [OF Cons.prems(3)] lex_name [of ?n cs "print_body x @ ?more"] Cons.prems(1)
      wf_node_name [of x] by (simp add: print_node_def)
  have "?n \<notin> node_name ` set cs0" "cs_next ?cs1 = NUL"
    using Cons.prems(2,3) by (auto simp: at_text_def)
  then obtain f1 cs2 where 1: "parse_expr f1 ?cs1 (CNode nm v cs0) = Some (0, cs2, CNode nm v (cs0 @ [x]))"
    "at_text ?more cs2"
    using parses_wf [of x] Cons.prems(1) by (auto elim: parses_nodeE [of x cs0 ?cs1 ?more nm v])
  obtain f2 where 2: "\<forall>k \<ge> f2. load_loop k cs2 (CNode nm v (cs0 @ [x])) = Some (CNode nm v (cs0 @ x # ks))"
    using Cons.IH [of "cs0 @ [x]" cs2] Cons.prems(1,2) 1(2) by auto
  have "load_loop k cs (CNode nm v cs0) = Some (CNode nm v (cs0 @ x # ks))" if k: "Suc (f1 + f2) \<le> k" for k
  proof -
    obtain j where j: "k = Suc j" "f1 + f2 \<le> j" using k by (cases k) auto
    have "parse_expr j ?cs1 (CNode nm v cs0) = Some (0, cs2, CNode nm v (cs0 @ [x]))"
      using parse_more(2) [OF 1(1), of "j - f1"] j(2) by simp
    then show ?thesis using l 2 j by simp
  qed
  then show ?case by blast
qed

lemma load_more: "load_loop n cs root = Some r \<Longrightarrow> load_loop (n + k) cs root = Some r"
proof (induction n cs root rule: load_loop.induct)
  case (2 n cs root)
  then show ?case
    using parse_more(2) [of n _ root _ k]
    by (auto split: prod.splits token.splits option.splits if_splits)
qed simp

text \<open>A value that the end of the text ends, rather than a line end, keeps its trailing space.\<close>

lemma lex_value_at_end:
  assumes "newline \<notin> set data"
  shows "lex_value cs c data = (T_TEXT, cs\<lparr> cs_data := [], cs_text := c # data \<rparr>)"
proof -
  have e: "dropWhile (\<lambda>d. d \<noteq> newline) data = []" using assms by (auto simp: dropWhile_eq_Nil_conv)
  show ?thesis unfolding lex_value_def Let_def e by simp
qed

subsection \<open>Properties of the configuration trees\<close>

text \<open>
  C29. Round trip: for every tree that can be written, loading its text into an empty root gives
  back exactly the tree, names, values, nesting and order, with any fuel from twice the length
  of the text plus one on.
\<close>

theorem config_roundtrip:
  assumes "wf_nodes ks" and "2 * length (print_nodes ks) + 1 \<le> fuel"
  shows "config_load fuel (CNode '''' '''' []) (Some (print_nodes ks)) = Some (CNode '''' '''' ks)"
proof -
  let ?cs = "\<lparr> cs_data = print_nodes ks, cs_text = '''', cs_next = NUL \<rparr>"
  have "at_text (print_nodes ks) ?cs" by (simp add: at_text_def)
  then obtain f where f: "\<forall>k \<ge> f. load_loop k ?cs (CNode '''' '''' []) = Some (CNode '''' '''' ks)"
    using load_loop_nodes [of ks "[]" ?cs "''''" "''''"] assms(1) by (auto simp: wf_nodes_def)
  obtain r where r: "load_loop fuel ?cs (CNode '''' '''' []) = Some r"
    using load_total [of ?cs fuel] assms(2) by (auto simp: todo_def)
  have "load_loop (fuel + f) ?cs (CNode '''' '''' []) = Some r" by (rule load_more [OF r])
  then show ?thesis using f r by (simp add: config_load_def)
qed

definition sample_tree :: "cnode list" where
  "sample_tree = [CNode ''net'' '''' [CNode ''host'' ''a b'' [], CNode ''port'' ''80'' []], CNode ''x'' ''1'' []]"

theorem config_roundtrip_witness:
  "config_load 200 (CNode '''' '''' []) (Some (print_nodes sample_tree)) = Some (CNode '''' '''' sample_tree)"
proof -
  have "wf_nodes sample_tree"
    by (simp add: sample_tree_def wf_nodes_def name_ok_def value_ok_def isspace_def special_def newline_def NUL_def)
  moreover have "length (print_nodes sample_tree) \<le> 60"
    by (simp add: sample_tree_def print_node_def print_body.simps)
  ultimately show ?thesis using config_roundtrip [of sample_tree 200] by simp
qed

text \<open>
  C37. Loading returns for every text, well-formed or not, and every tree it is loaded into: the
  lexer takes at least one character per token, so two units of fuel per character are enough.
\<close>

theorem config_load_returns:
  "\<exists>root'. config_load (2 * length d + 1) root (Some d) = Some root'"
  using load_total [of "\<lparr> cs_data = d, cs_text = '''', cs_next = NUL \<rparr>" "2 * length d + 1" root]
  by (simp add: config_load_def todo_def)

text \<open>
  Setting and looking up: after \<open>config_set\<close> the name has the new value, every other name
  looks up as before, and \<open>config_bool\<close> reads a value as true exactly when it starts with y, Y or
  1; a missing name gives the default.
\<close>

theorem config_set_lookup:
  "config_str (config_set root name v) name def = v \<and>
   (m = name \<or> config_str (config_set root name v) m def = config_str root m def) \<and>
   config_bool (config_set root name v) name b = (if chr_at v \<in> {CHR ''y'', CHR ''Y'', CHR ''1''} then 1 else 0) \<and>
   (m \<in> node_name ` set (children root) \<or> config_str root m def = def \<and> config_bool root m b = b)"
proof (cases root)
  case (CNode n w cs)
  let ?r = "CNode n w cs"
  have miss: "m \<in> node_name ` set cs \<or> config_str ?r m def = def \<and> config_bool ?r m b = b"
    using config_find_None [of ?r m] by (auto simp: config_str_def config_bool_def)
  show ?thesis
  proof (cases "config_find ?r name")
    case None
    then have s: "config_set ?r name v = CNode n w (cs @ [CNode name v []])" by (simp add: config_set_eq)
    have "config_str (CNode n w (cs @ [CNode name v []])) m def = config_str ?r m def" if "m \<noteq> name"
      using that config_find_Some(1) [of ?r m]
      by (auto simp: config_str_def config_find_snoc nth_append split: option.split)
    then show ?thesis
      using s miss CNode by (auto simp: config_str_def config_bool_def config_find_snoc)
  next
    case (Some i)
    let ?c = "cs[i := CNode name v (children (cs ! i))]"
    have i: "i < length cs" "node_name (cs ! i) = name" using config_find_Some [OF Some] by auto
    have s: "config_set ?r name v = CNode n w ?c" using Some by (simp add: config_set_eq)
    have names: "map node_name ?c = map node_name cs"
      using i by (simp add: map_update list_update_same_conv)
    have fnd: "config_find (CNode n w ?c) k = config_find ?r k" for k
      by (rule config_find_cong) (simp add: names)
    have "config_str (CNode n w ?c) m def = config_str ?r m def" if "m \<noteq> name"
    proof -
      have "j \<noteq> i" if "config_find ?r m = Some j" for j
        using config_find_Some(2) [OF that] i(2) \<open>m \<noteq> name\<close> by auto
      then show ?thesis by (auto simp: config_str_def fnd split: option.split)
    qed
    then show ?thesis using s fnd Some i miss CNode by (auto simp: config_str_def config_bool_def)
  qed
qed

end
