(* ===== verification/Log_Format.thy ===== *)
theory Log_Format
  imports Log_Event
begin

text \<open>
  \<open>android_log_formatLogLine\<close> and \<open>android_log_printLogLine\<close> of \<open>liblog/logprint.c\<close>: every line of a message gets a
  prefix and a suffix, which are first printed into buffers of 128 bytes; the size of the result is computed
  from the number of lines, and the pieces are put together with \<open>strcat\<close> in the caller's buffer or an
  allocated one. The buffer is a list of characters with arbitrary contents at first, and a write beyond it
  is \<open>BufferOverrun\<close>. The text of the time, which the C library makes, and its \<open>%p\<close> are arguments.
\<close>

subsection \<open>Conversions of snprintf\<close>

definition pad_left :: "nat \<Rightarrow> string \<Rightarrow> string" where
  "pad_left w s = replicate (w - length s) CHR '' '' @ s"

definition pad_right :: "nat \<Rightarrow> string \<Rightarrow> string" where
  "pad_right w s = s @ replicate (w - length s) CHR '' ''"

definition pad_zeros :: "nat \<Rightarrow> int \<Rightarrow> string" where
  "pad_zeros w i =
     (let ds = nat_digits (nat \<bar>i\<bar>)
      in if i < 0 then CHR ''-'' # replicate (w - 1 - length ds) CHR ''0'' @ ds
         else replicate (w - length ds) CHR ''0'' @ ds)"

text \<open>\<open>snprintf\<close> into \<open>n\<close> bytes: the string written, and the result cut to it as the code does.\<close>

definition snprintf :: "nat \<Rightarrow> string \<Rightarrow> string" where
  "snprintf n t = take (n - 1) t"

subsection \<open>The prefix and the suffix\<close>

text \<open>\<open>fmt_p\<close> prints a pointer and \<open>timeBuf\<close> is the date and time of the entry.\<close>

definition prefix_text :: "(int \<Rightarrow> string) \<Rightarrow> string \<Rightarrow> print_format \<Rightarrow> log_entry \<Rightarrow> string" where
  "prefix_text fmt_p timeBuf f e =
     (let priChar = [filterPriToChar (lpriority e)]; ms = pad_zeros 3 (cdiv (tv_nsec e) 1000000);
          pid5 = pad_left 5 (print_int (pid e)); tag8 = pad_right 8 (ltag e)
      in case f of
           FORMAT_TAG \<Rightarrow> priChar @ ''/'' @ tag8 @ '': ''
         | FORMAT_PROCESS \<Rightarrow> priChar @ ''('' @ pid5 @ '') ''
         | FORMAT_THREAD \<Rightarrow> priChar @ ''('' @ pid5 @ '':'' @ fmt_p (tid e) @ '') ''
         | FORMAT_RAW \<Rightarrow> []
         | FORMAT_TIME \<Rightarrow> timeBuf @ ''.'' @ ms @ '' '' @ priChar @ ''/'' @ tag8 @ ''('' @ pid5 @ ''): ''
         | FORMAT_THREADTIME \<Rightarrow>
             timeBuf @ ''.'' @ ms @ '' '' @ pid5 @ '' '' @ pad_left 5 (print_int (tid e)) @ '' '' @ priChar @ '' '' @ tag8 @ '': ''
         | FORMAT_LONG \<Rightarrow>
             ''[ '' @ timeBuf @ ''.'' @ ms @ '' '' @ pid5 @ '':'' @ fmt_p (tid e) @ '' '' @ priChar @ ''/'' @ tag8 @ '' ]'' @ [CHR 0x0A]
         | _ \<Rightarrow> priChar @ ''/'' @ tag8 @ ''('' @ pid5 @ ''): '')"

definition suffix_text :: "print_format \<Rightarrow> log_entry \<Rightarrow> string" where
  "suffix_text f e =
     (case f of
        FORMAT_PROCESS \<Rightarrow> ''  ('' @ ltag e @ '')'' @ [CHR 0x0A]
      | FORMAT_LONG \<Rightarrow> [CHR 0x0A, CHR 0x0A]
      | _ \<Rightarrow> [CHR 0x0A])"

text \<open>The contents of a buffer and the length that the code adds for it. The prefix buffer has the colour in
  front, which \<open>FORMAT_RAW\<close> overwrites while its length stays counted.\<close>

definition prefix_buf :: "(int \<Rightarrow> string) \<Rightarrow> string \<Rightarrow> log_format \<Rightarrow> log_entry \<Rightarrow> string \<times> nat" where
  "prefix_buf fmt_p timeBuf p e =
     (let colour = (if color_out p = OUTPUT_COLOR_ON
                    then snprintf 128 (CHR 0x1B # ''[38;5;'' @ print_int (colorFromPri (lpriority e)) @ ''m'') else []);
          remain = 128 - length colour;
          prefix = snprintf remain (prefix_text fmt_p timeBuf (lformat p) e)
      in (if lformat p = FORMAT_RAW then [] else colour @ prefix, length colour + length prefix))"

definition suffix_buf :: "log_format \<Rightarrow> log_entry \<Rightarrow> string \<times> nat" where
  "suffix_buf p e =
     (let suffix = snprintf 128 (suffix_text (lformat p) e);
          colour = (if color_out p = OUTPUT_COLOR_ON then snprintf (128 - length suffix) (CHR 0x1B # ''[0m'') else [])
      in (suffix @ colour, length suffix + length colour))"

subsection \<open>The buffer\<close>

definition numLines :: "string \<Rightarrow> nat" where
  "numLines m = length (filter (\<lambda>c. c = CHR 0x0A) m) + (if m \<noteq> [] \<and> last m \<noteq> CHR 0x0A then 1 else 0)"

definition strcat_at :: "string \<Rightarrow> nat \<Rightarrow> string \<Rightarrow> log_fault + string" where
  "strcat_at mem p s =
     (let q = p + length (takeWhile (\<lambda>c. c \<noteq> NUL) (drop p mem))
      in if q + length s < length mem then Inr (take q mem @ s @ NUL # drop (q + length s + 1) mem) else Inl BufferOverrun)"

definition strncat_at :: "string \<Rightarrow> nat \<Rightarrow> string \<Rightarrow> nat \<Rightarrow> log_fault + string" where
  "strncat_at mem p s n = strcat_at mem p (takeWhile (\<lambda>c. c \<noteq> NUL) (take n s))"

text \<open>One line with its prefix and suffix at \<open>p\<close>; \<open>pre\<close> and \<open>suf\<close> are the two buffers with their lengths.\<close>

definition put_line :: "string \<times> nat \<Rightarrow> string \<times> nat \<Rightarrow> string \<Rightarrow> nat \<Rightarrow> string \<times> nat \<Rightarrow> log_fault + (string \<times> nat)" where
  "put_line pre suf line lineLen mp =
     (case strcat_at (fst mp) (snd mp) (fst pre) of
        Inl e \<Rightarrow> Inl e
      | Inr m1 \<Rightarrow>
          let p1 = snd mp + snd pre
          in case strncat_at m1 p1 line lineLen of
               Inl e \<Rightarrow> Inl e
             | Inr m2 \<Rightarrow>
                 let p2 = p1 + lineLen
                 in case strcat_at m2 p2 (fst suf) of
                      Inl e \<Rightarrow> Inl e
                    | Inr m3 \<Rightarrow> Inr (m3, p2 + snd suf))"

text \<open>The loop over the lines; \<open>m\<close> is what is left of the message.\<close>

function put_lines :: "string \<times> nat \<Rightarrow> string \<times> nat \<Rightarrow> string \<Rightarrow> string \<times> nat \<Rightarrow> log_fault + (string \<times> nat)" where
  "put_lines pre suf m mp =
     (if m = [] then Inr mp
      else
        let lineLen = length (takeWhile (\<lambda>c. c \<noteq> CHR 0x0A) m)
        in case put_line pre suf m lineLen mp of
             Inl e \<Rightarrow> Inl e
           | Inr mp' \<Rightarrow> put_lines pre suf (drop (lineLen + 1) m) mp')"
  by pat_completeness auto
termination by (relation "measure (\<lambda>(_, _, m, _). length m)") auto

declare put_lines.simps [simp del]

text \<open>The result: NULL, or the buffer and the length of the text. \<open>junk\<close> is what the memory holds before.\<close>

definition android_log_formatLogLine ::
  "(int \<Rightarrow> string) \<Rightarrow> string \<Rightarrow> (nat \<Rightarrow> char) \<Rightarrow> bool \<Rightarrow> log_format \<Rightarrow> nat \<Rightarrow> log_entry \<Rightarrow> log_fault + (string \<times> nat) option" where
  "android_log_formatLogLine fmt_p timeBuf junk malloc_ok p defaultBufferSize e =
     (let pre = prefix_buf fmt_p timeBuf p e; suf = suffix_buf p e;
          m = take (nat (messageLen e)) (message e);
          wrap = (lformat p = FORMAT_LONG);
          lines = (if wrap then 1 else numLines m);
          bufferSize = (lines * (snd pre + snd suf) + nat (messageLen e) + 1) mod 4294967296
      in if defaultBufferSize < bufferSize \<and> \<not> malloc_ok then Inr None
         else
           let size = (if defaultBufferSize \<ge> bufferSize then defaultBufferSize else bufferSize)
           in if size = 0 then Inl BufferOverrun
              else
                let ret = (map junk [0..<size])[0 := NUL];
                    r = (if wrap then put_line pre suf (message e) (nat (messageLen e)) (ret, 0) else put_lines pre suf m (ret, 0))
                in case r of Inl x \<Rightarrow> Inl x | Inr mp \<Rightarrow> Inr (Some mp))"

text \<open>The calls of \<open>write\<close>: interrupted, failed, or the number of bytes written.\<close>

datatype write_outcome = Interrupted | WriteFailed | Wrote nat

fun write_loop :: "write_outcome list \<Rightarrow> int option" where
  "write_loop [] = None"
| "write_loop (Interrupted # ws) = write_loop ws"
| "write_loop (WriteFailed # ws) = Some (-1)"
| "write_loop (Wrote n # ws) = Some (int n)"

text \<open>The return value, and the bytes that were written.\<close>

definition android_log_printLogLine ::
  "(int \<Rightarrow> string) \<Rightarrow> string \<Rightarrow> (nat \<Rightarrow> char) \<Rightarrow> bool \<Rightarrow> log_format \<Rightarrow> write_outcome list \<Rightarrow> log_entry \<Rightarrow>
    (log_fault + (int \<times> string)) option" where
  "android_log_printLogLine fmt_p timeBuf junk malloc_ok p ws e =
     (case android_log_formatLogLine fmt_p timeBuf junk malloc_ok p 512 e of
        Inl x \<Rightarrow> Some (Inl x)
      | Inr None \<Rightarrow> Some (Inr (-1, []))
      | Inr (Some (outBuffer, totalLen)) \<Rightarrow>
          (case write_loop ws of
             None \<Rightarrow> None
           | Some r \<Rightarrow> if r < 0 then Some (Inr (0, [])) else Some (Inr (r, take (nat r) (take totalLen outBuffer)))))"

subsection \<open>Lines\<close>

function msg_lines :: "string \<Rightarrow> string list" where
  "msg_lines m =
     (if m = [] then []
      else takeWhile (\<lambda>c. c \<noteq> CHR 0x0A) m # msg_lines (drop (length (takeWhile (\<lambda>c. c \<noteq> CHR 0x0A) m) + 1) m))"
  by pat_completeness auto
termination by (relation "measure length") auto

declare msg_lines.simps [simp del]

lemma msg_lines_induct [case_names Nil Last Cons]:
  assumes "P []" and "\<And>l. l \<noteq> [] \<Longrightarrow> CHR 0x0A \<notin> set l \<Longrightarrow> P l" and "\<And>l m. CHR 0x0A \<notin> set l \<Longrightarrow> P m \<Longrightarrow> P (l @ CHR 0x0A # m)"
  shows "P m"
proof (induction m rule: length_induct)
  case (1 m)
  show ?case
  proof (cases "CHR 0x0A \<in> set m")
    case True
    then obtain l r where m: "m = l @ CHR 0x0A # r" "CHR 0x0A \<notin> set l" by (metis split_list_first)
    have "P r" using 1 m(1) by simp
    then show ?thesis using assms(3) m by simp
  next
    case False
    then show ?thesis using assms(1,2) by (cases "m = []") auto
  qed
qed

lemma takeWhile_line: "CHR 0x0A \<notin> set l \<Longrightarrow> takeWhile (\<lambda>c. c \<noteq> CHR 0x0A) (l @ CHR 0x0A # m) = l"
    "CHR 0x0A \<notin> set l \<Longrightarrow> takeWhile (\<lambda>c. c \<noteq> CHR 0x0A) l = l"
  by (auto simp: takeWhile_append)

lemma msg_lines_simps [simp]:
  "msg_lines [] = []"
  "CHR 0x0A \<notin> set l \<Longrightarrow> l \<noteq> [] \<Longrightarrow> msg_lines l = [l]"
  "CHR 0x0A \<notin> set l \<Longrightarrow> msg_lines (l @ CHR 0x0A # m) = l # msg_lines m"
proof -
  show nil: "msg_lines [] = []" by (subst msg_lines.simps) simp
  show "msg_lines l = [l]" if "CHR 0x0A \<notin> set l" "l \<noteq> []"
    using that nil by (subst msg_lines.simps) (simp add: takeWhile_line(2))
  show "msg_lines (l @ CHR 0x0A # m) = l # msg_lines m" if "CHR 0x0A \<notin> set l"
    using takeWhile_line(1) [OF that] by (subst msg_lines.simps) simp
qed

lemma no_newline: "CHR 0x0A \<notin> set l \<Longrightarrow> filter (\<lambda>c. c = CHR 0x0A) l = []"
  by (auto simp: filter_empty_conv)

lemma numLines_lines: "numLines m = length (msg_lines m)"
proof (induction m rule: msg_lines_induct)
  case (Last l)
  then have "last l \<noteq> CHR 0x0A" using last_in_set by metis
  then show ?case using Last by (simp add: numLines_def no_newline)
qed (auto simp: numLines_def no_newline)

lemma lines_length: "length (msg_lines m) \<le> length m" "length (concat (msg_lines m)) \<le> length m"
  by (induction m rule: msg_lines_induct) (auto simp: Suc_le_eq)

subsection \<open>Putting the pieces together\<close>

lemma strcat_end:
  assumes "length s \<le> length rest"
  shows "strcat_at (sofar @ NUL # rest) (length sofar) s = Inr (sofar @ s @ NUL # drop (length s) rest)"
  using assms by (simp add: strcat_at_def Let_def)

lemma put_line_end:
  assumes "snd pre = length (fst pre)" and "snd suf = length (fst suf)" and "NUL \<notin> set (take n line)" and "n \<le> length line"
    and "length (fst pre @ take n line @ fst suf) \<le> length rest"
  shows "put_line pre suf line n (sofar @ NUL # rest, length sofar)
    = Inr (sofar @ (fst pre @ take n line @ fst suf) @ NUL # drop (length (fst pre @ take n line @ fst suf)) rest,
        length (sofar @ fst pre @ take n line @ fst suf))"
proof -
  let ?l = "take n line"
  have tw: "takeWhile (\<lambda>c. c \<noteq> NUL) ?l = ?l" using assms(3) by (auto simp: takeWhile_eq_all_conv)
  note s1 = strcat_end [of "fst pre" rest sofar]
  note s2 = strcat_end [of ?l "drop (length (fst pre)) rest" "sofar @ fst pre"]
  note s3 = strcat_end [of "fst suf" "drop (length ?l) (drop (length (fst pre)) rest)" "sofar @ fst pre @ ?l"]
  show ?thesis using s1 s2 s3 assms by (simp add: put_line_def strncat_at_def tw add.commute add.left_commute)
qed

lemma put_lines_end:
  assumes pre: "snd pre = length (fst pre)" and suf: "snd suf = length (fst suf)" and "NUL \<notin> set m"
    and "length (concat (map (\<lambda>l. fst pre @ l @ fst suf) (msg_lines m))) \<le> length rest"
  shows "\<exists>rest'. put_lines pre suf m (sofar @ NUL # rest, length sofar)
    = Inr (sofar @ concat (map (\<lambda>l. fst pre @ l @ fst suf) (msg_lines m)) @ NUL # rest',
        length (sofar @ concat (map (\<lambda>l. fst pre @ l @ fst suf) (msg_lines m))))"
  using assms(3,4)
proof (induction m arbitrary: sofar rest rule: msg_lines_induct)
  case Nil
  show ?case by (subst put_lines.simps) simp
next
  case (Last l)
  let ?t = "fst pre @ l @ fst suf"
  have "put_line pre suf l (length l) (sofar @ NUL # rest, length sofar) = Inr (sofar @ ?t @ NUL # drop (length ?t) rest, length (sofar @ ?t))"
    using put_line_end [OF pre suf, of "length l" l rest sofar] Last by simp
  then show ?case using Last put_lines.simps [of pre suf "[]"] by (subst put_lines.simps) (simp add: takeWhile_line(2) Let_def)
next
  case (Cons l m)
  let ?t = "fst pre @ l @ fst suf" and ?m = "l @ CHR 0x0A # m"
  have "put_line pre suf ?m (length l) (sofar @ NUL # rest, length sofar) = Inr ((sofar @ ?t) @ NUL # drop (length ?t) rest, length (sofar @ ?t))"
    using put_line_end [OF pre suf, of "length l" ?m rest sofar] Cons by simp
  moreover have "NUL \<notin> set m" "length (concat (map (\<lambda>l. fst pre @ l @ fst suf) (msg_lines m))) \<le> length (drop (length ?t) rest)"
    using Cons.prems Cons(1) by simp_all
  from Cons.IH [OF this, of "sofar @ ?t"] obtain rest' where "put_lines pre suf m ((sofar @ ?t) @ NUL # drop (length ?t) rest, length (sofar @ ?t))
      = Inr ((sofar @ ?t) @ concat (map (\<lambda>l. fst pre @ l @ fst suf) (msg_lines m)) @ NUL # rest',
          length ((sofar @ ?t) @ concat (map (\<lambda>l. fst pre @ l @ fst suf) (msg_lines m))))"
    by blast
  ultimately show ?case using takeWhile_line(1) [OF Cons(1), of m] Cons(1) by (subst put_lines.simps) simp
qed

lemma snprintf_length: "length (snprintf n t) \<le> n - 1"
  by (simp add: snprintf_def)

lemma prefix_buf_length: "lformat p \<noteq> FORMAT_RAW \<or> color_out p = OUTPUT_COLOR_OFF \<Longrightarrow>
    snd (prefix_buf fmt_p timeBuf p e) = length (fst (prefix_buf fmt_p timeBuf p e))"
  "snd (prefix_buf fmt_p timeBuf p e) \<le> 127"
proof -
  show "snd (prefix_buf fmt_p timeBuf p e) = length (fst (prefix_buf fmt_p timeBuf p e))"
    if "lformat p \<noteq> FORMAT_RAW \<or> color_out p = OUTPUT_COLOR_OFF"
    using that by (auto simp: prefix_buf_def Let_def prefix_text_def snprintf_def)
  define colour where "colour = (if color_out p = OUTPUT_COLOR_ON
    then snprintf 128 (CHR 0x1B # ''[38;5;'' @ print_int (colorFromPri (lpriority e)) @ ''m'') else [])"
  have "length colour \<le> 127" using snprintf_length [of 128] by (auto simp: colour_def)
  then show "snd (prefix_buf fmt_p timeBuf p e) \<le> 127"
    using snprintf_length [of "128 - length colour" "prefix_text fmt_p timeBuf (lformat p) e"]
    unfolding prefix_buf_def Let_def colour_def [symmetric] by simp
qed

lemma suffix_buf_length: "snd (suffix_buf p e) = length (fst (suffix_buf p e))" "snd (suffix_buf p e) \<le> 127"
  by (auto simp: suffix_buf_def Let_def snprintf_def)

lemma length_concat_wrap: "length (concat (map (\<lambda>l. a @ l @ b) ls)) = length ls * (length a + length b) + length (concat ls)"
  by (induction ls) auto

text \<open>The text of an entry: the message between prefix and suffix, as a whole or line by line.\<close>

definition log_text :: "(int \<Rightarrow> string) \<Rightarrow> string \<Rightarrow> log_format \<Rightarrow> log_entry \<Rightarrow> string" where
  "log_text fmt_p timeBuf p e =
     (let pre = fst (prefix_buf fmt_p timeBuf p e); suf = fst (suffix_buf p e); m = take (nat (messageLen e)) (message e)
      in if lformat p = FORMAT_LONG then pre @ m @ suf else concat (map (\<lambda>l. pre @ l @ suf) (msg_lines m)))"

definition entry_ok :: "log_entry \<Rightarrow> bool" where
  "entry_ok e \<longleftrightarrow> 0 \<le> messageLen e \<and> messageLen e \<le> 65535 \<and> nat (messageLen e) \<le> length (message e) \<and>
     NUL \<notin> set (take (nat (messageLen e)) (message e))"

lemma formatLogLine_eq:
  assumes e: "entry_ok e" and c: "lformat p \<noteq> FORMAT_RAW \<or> color_out p = OUTPUT_COLOR_OFF" and n: "n \<le> 4294967295"
  shows "(\<not> malloc_ok \<and> n < 65536 * 255 \<and> android_log_formatLogLine fmt_p timeBuf junk malloc_ok p n e = Inr None) \<or>
    (\<exists>rest. android_log_formatLogLine fmt_p timeBuf junk malloc_ok p n e
       = Inr (Some (log_text fmt_p timeBuf p e @ NUL # rest, length (log_text fmt_p timeBuf p e))))"
proof -
  let ?pre = "prefix_buf fmt_p timeBuf p e" and ?suf = "suffix_buf p e" and ?k = "nat (messageLen e)"
  let ?m = "take ?k (message e)"
  let ?wrap = "lformat p = FORMAT_LONG"
  define lines where "lines = (if ?wrap then 1 else numLines ?m)"
  define size where "size = lines * (snd ?pre + snd ?suf) + ?k + 1"
  have m: "length ?m = ?k" "?k \<le> 65535" "NUL \<notin> set ?m" "?k \<le> length (message e)" using e by (auto simp: entry_ok_def)
  have "lines \<le> 65535 \<or> lines = 1" using lines_length(1) [of ?m] m by (simp add: lines_def numLines_lines)
  moreover have "snd ?pre + snd ?suf \<le> 254" using prefix_buf_length(2) [of fmt_p timeBuf p e] suffix_buf_length(2) [of p e] by simp
  ultimately have "lines * (snd ?pre + snd ?suf) \<le> 65535 * 254" using mult_le_mono [of lines 65535 "snd ?pre + snd ?suf" 254] by auto
  then have size: "size \<le> 65536 * 255 - 1" "size mod 4294967296 = size" "0 < size" using m(2) by (simp_all add: size_def)
  have len: "length (log_text fmt_p timeBuf p e) < size"
    using prefix_buf_length(1) [OF c, of fmt_p timeBuf e] suffix_buf_length(1) [of p e] lines_length(2) [of ?m] m(1)
    by (auto simp: log_text_def Let_def size_def lines_def numLines_lines length_concat_wrap)
  define N where "N = max n size"
  have N: "(if size \<le> n then n else size) = N" "size \<le> N" by (simp_all add: N_def)
  obtain N' where N': "N = Suc N'" using N(2) size(3) by (cases N) auto
  have ret: "(map junk [0..<N])[0 := NUL] = [] @ NUL # map junk [1..<N]" using N' by (simp add: upt_conv_Cons del: upt_Suc)
  have room: "length (log_text fmt_p timeBuf p e) \<le> length (map junk [1..<N])" using len N(2) by (simp del: upt_Suc)
  have put: "\<exists>rest. (if ?wrap then put_line ?pre ?suf (message e) ?k ([] @ NUL # map junk [1..<N], length ([] :: string))
       else put_lines ?pre ?suf ?m ([] @ NUL # map junk [1..<N], length ([] :: string)))
     = Inr (log_text fmt_p timeBuf p e @ NUL # rest, length (log_text fmt_p timeBuf p e))"
  proof (cases ?wrap)
    case True
    then show ?thesis
      using put_line_end [OF prefix_buf_length(1) [OF c] suffix_buf_length(1) m(3,4), where rest = "map junk [1..<N]" and sofar = "[]"] room
      by (simp add: log_text_def Let_def)
  next
    case False
    then show ?thesis
      using put_lines_end [OF prefix_buf_length(1) [OF c] suffix_buf_length(1) m(3), where rest = "map junk [1..<N]" and sofar = "[]"] room
      by (simp add: log_text_def Let_def)
  qed
  have eq: "android_log_formatLogLine fmt_p timeBuf junk malloc_ok p n e
      = (if n < size \<and> \<not> malloc_ok then Inr None else if N = 0 then Inl BufferOverrun
         else case (if ?wrap then put_line ?pre ?suf (message e) ?k ((map junk [0..<N])[0 := NUL], 0)
                    else put_lines ?pre ?suf ?m ((map junk [0..<N])[0 := NUL], 0)) of Inl x \<Rightarrow> Inl x | Inr mp \<Rightarrow> Inr (Some mp))"
    unfolding android_log_formatLogLine_def Let_def lines_def [symmetric] size_def [symmetric] size(2) N(1) ..
  show ?thesis
  proof (cases "n < size \<and> \<not> malloc_ok")
    case True
    then show ?thesis using size(1) unfolding eq by simp
  next
    case False
    then show ?thesis using put N' unfolding eq ret by (auto simp del: upt_Suc)
  qed
qed

text \<open>
  C35. \<open>android_log_printLogLine\<close> writes exactly the text of the entry, for a message of up to 65535 characters
  without NUL, in every format but the raw one with colours (which is excluded: there the code can write outside the
  buffer), and when the write that is not interrupted takes all bytes: the size computed from the number of lines
  is enough for all pieces, so nothing is written beyond the buffer; after any number of
  interrupted writes, the bytes of a write that takes them all are each line of the message between prefix
  and suffix, in order, or the whole message between header and footer, and the result is their number.
  Without memory the result is \<open>-1\<close>, and only for a text that may not fit the buffer on the stack.
\<close>
theorem printLogLine_exact:
  assumes "entry_ok e" and "lformat p \<noteq> FORMAT_RAW \<or> color_out p = OUTPUT_COLOR_OFF"
    and "ws = replicate k Interrupted @ Wrote (length (log_text fmt_p timeBuf p e)) # more_ws"
  shows "android_log_printLogLine fmt_p timeBuf junk malloc_ok p ws e =
      Some (Inr (int (length (log_text fmt_p timeBuf p e)), log_text fmt_p timeBuf p e)) \<or>
    \<not> malloc_ok \<and> android_log_printLogLine fmt_p timeBuf junk malloc_ok p ws e = Some (Inr (-1, []))"
proof -
  have "write_loop ws = Some (int (length (log_text fmt_p timeBuf p e)))"
    unfolding assms(3) by (induction k) simp_all
  then show ?thesis using formatLogLine_eq [OF assms(1,2), of 512 malloc_ok fmt_p timeBuf junk]
    by (auto simp: android_log_printLogLine_def)
qed

definition hello_entry :: log_entry where
  "hello_entry = \<lparr> tv_sec = 0, tv_nsec = 5000000, lpriority = ANDROID_LOG_ERROR, pid = 123, tid = 123, ltag = ''random'',
     messageLen = 7, message = ''Hi'' @ [CHR 0x0A] @ ''you'' @ [CHR 0x0A] \<rparr>"

theorem printLogLine_exact_witness:
  "android_log_printLogLine (\<lambda>_. ''0x7b'') ''01-01 00:00:00'' (\<lambda>_. CHR ''x'') True android_log_format_new
     [Interrupted, Wrote 45] hello_entry
   = Some (Inr (45, ''E/random  (  123): Hi'' @ [CHR 0x0A] @ ''E/random  (  123): you'' @ [CHR 0x0A]))"
proof -
  let ?t = "log_text (\<lambda>_. ''0x7b'') ''01-01 00:00:00'' android_log_format_new hello_entry"
  have t: "?t = ''E/random  (  123): Hi'' @ [CHR 0x0A] @ ''E/random  (  123): you'' @ [CHR 0x0A]" by code_simp
  have e: "entry_ok hello_entry" by code_simp
  have c: "lformat android_log_format_new \<noteq> FORMAT_RAW \<or> color_out android_log_format_new = OUTPUT_COLOR_OFF"
    by (simp add: android_log_format_new_def)
  have ws: "[Interrupted, Wrote 45] = replicate 1 Interrupted @ Wrote (length ?t) # []" by (simp add: t)
  show ?thesis using printLogLine_exact [OF e c ws, of "\<lambda>_. CHR ''x''" True] by (simp add: t)
qed

text \<open>In the raw format with colours the colour is dropped from the buffer but counted, so the message is
  appended at the first NUL behind it, wherever that is.\<close>

lemma raw_colour_counted:
  "color_out p = OUTPUT_COLOR_ON \<Longrightarrow> lformat p = FORMAT_RAW \<Longrightarrow>
    fst (prefix_buf fmt_p timeBuf p e) = [] \<and> snd (prefix_buf fmt_p timeBuf p e) > 0"
  "put_line ([], 11) ([CHR 0x0A], 1) ''a'' 1 (NUL # replicate 20 CHR ''x'', 0) = Inl BufferOverrun"
  by (simp add: prefix_buf_def Let_def snprintf_def) code_simp

end
